(* ===== verification/Gas_Prelude.thy ===== *)
theory Gas_Prelude
  imports Main "HOL-Library.Word"
begin

text \<open>
  Shared vocabulary of the development: the machine integers of the C code, the named fact
  collections, byte encodings (the \<open>number_to_chars\<close> family of \<open>src/gas/write.c\<close>), C strings,
  bounds-checked reads of a byte buffer, and singly linked lists in a store of pointers, which is
  how frag chains, basic-block lists and label lists are represented by the assembler.
\<close>

unbundle bit_operations_syntax

type_synonym byte = "8 word"
type_synonym u16 = "16 word"
type_synonym u32 = "32 word"
type_synonym u64 = "64 word"

named_theorems codec_simps "encoders, decoders and their widths"
named_theorems chain_simps "linked lists in the store"

section \<open>Errors\<close>

text \<open>How a routine of the assembler can fail to return: a failed \<open>gas_assert\<close> or an explicit
  \<open>abort\<close>, \<open>as_fatal\<close>, an \<open>as_bad\<close> after which the assembly is
  given up in the model (its exit status is already failure), a dereference of NULL, an index outside a
  table, a frag whose size is computed by a module outside the model (call frame, line number and sframe
  information), or a loop that is still running when its fuel is used up (which the theorems on the loops
  exclude).\<close>

datatype gas_error =
    Assert_failed
  | Abort
  | As_fatal
  | As_bad
  | Null_deref
  | Bad_index
  | Debug_frag
  | Out_of_fuel

type_synonym 'a result = "gas_error + 'a"

fun bindE :: "'e + 'a \<Rightarrow> ('a \<Rightarrow> 'e + 'b) \<Rightarrow> 'e + 'b" where
  "bindE (Inl e) f = Inl e"
| "bindE (Inr a) f = f a"

definition gas_assert :: "bool \<Rightarrow> 'a result \<Rightarrow> 'a result" where
  "gas_assert P k = (if P then k else Inl Assert_failed)"

definition deref :: "'p option \<Rightarrow> ('p \<Rightarrow> 'a result) \<Rightarrow> 'a result" where
  "deref p k = (case p of None \<Rightarrow> Inl Null_deref | Some x \<Rightarrow> k x)"

section \<open>Little- and big-endian output\<close>

text \<open>\<open>number_to_chars_littleendian\<close> and \<open>number_to_chars_bigendian\<close> write the low \<open>n\<close> octets of
  a value; both abort when \<open>n \<le> 0\<close>, which is \<^term>\<open>None\<close> here.  The loop bodies are
  \<open>le_chars\<close> and \<open>be_chars\<close> (the latter fills the buffer from its end).\<close>

fun le_chars :: "nat \<Rightarrow> u64 \<Rightarrow> byte list" where
  "le_chars 0 val = []"
| "le_chars (Suc n) val = ucast (val AND 0xff) # le_chars n (drop_bit 8 val)"

fun be_chars :: "nat \<Rightarrow> u64 \<Rightarrow> byte list \<Rightarrow> byte list" where
  "be_chars 0 val acc = acc"
| "be_chars (Suc n) val acc = be_chars n (drop_bit 8 val) (ucast (val AND 0xff) # acc)"

definition number_to_chars_littleendian :: "u64 \<Rightarrow> int \<Rightarrow> byte list option" where
  "number_to_chars_littleendian val n = (if n \<le> 0 then None else Some (le_chars (nat n) val))"

definition number_to_chars_bigendian :: "u64 \<Rightarrow> int \<Rightarrow> byte list option" where
  "number_to_chars_bigendian val n = (if n \<le> 0 then None else Some (be_chars (nat n) val []))"

text \<open>Reading back: the value of a little-endian octet sequence.\<close>

fun le_nat :: "byte list \<Rightarrow> nat" where
  "le_nat [] = 0"
| "le_nat (b # bs) = unat b + 256 * le_nat bs"

definition le32 :: "u32 \<Rightarrow> byte list" where
  "le32 v = le_chars 4 (ucast v)"

definition le64 :: "u64 \<Rightarrow> byte list" where
  "le64 v = le_chars 8 v"

definition get32 :: "byte list \<Rightarrow> u32" where
  "get32 bs = word_of_nat (le_nat (take 4 bs))"

definition get64 :: "byte list \<Rightarrow> u64" where
  "get64 bs = word_of_nat (le_nat (take 8 bs))"

section \<open>C strings and bounds-checked reads\<close>

text \<open>The characters before the first NUL: what \<open>strlen\<close>, \<open>strcmp\<close> and \<open>%s\<close> see of a buffer.\<close>

definition cstr :: "byte list \<Rightarrow> byte list" where
  "cstr bs = takeWhile (\<lambda>b. b \<noteq> 0) bs"

text \<open>A read of \<open>n\<close> octets at offset \<open>off\<close> of a buffer; \<^term>\<open>None\<close> is a read past its end.\<close>

definition rd :: "byte list \<Rightarrow> nat \<Rightarrow> nat \<Rightarrow> byte list option" where
  "rd mem off n = (if off + n \<le> length mem then Some (take n (drop off mem)) else None)"

section \<open>Linked lists in a store\<close>

text \<open>\<open>path nxt p xs q\<close>: following \<open>nxt\<close> from \<open>p\<close> visits exactly the nodes \<open>xs\<close> and arrives
  at \<open>q\<close>; \<open>chain\<close> is a path that ends at NULL.\<close>

fun path :: "('a \<Rightarrow> 'a option) \<Rightarrow> 'a option \<Rightarrow> 'a list \<Rightarrow> 'a option \<Rightarrow> bool" where
  "path nxt p [] q = (p = q)"
| "path nxt p (x # xs) q = (p = Some x \<and> path nxt (nxt x) xs q)"

definition chain :: "('a \<Rightarrow> 'a option) \<Rightarrow> 'a option \<Rightarrow> 'a list \<Rightarrow> bool" where
  "chain nxt p xs = path nxt p xs None"

section \<open>Lemmas on errors\<close>

lemma bindE_Inr_iff [simp]: "bindE m f = Inr b \<longleftrightarrow> (\<exists>a. m = Inr a \<and> f a = Inr b)"
  by (cases m) auto

lemma bindE_cong [fundef_cong]:
  "m = m' \<Longrightarrow> (\<And>a. m' = Inr a \<Longrightarrow> f a = f' a) \<Longrightarrow> bindE m f = bindE m' f'"
  by (cases m') auto

lemma gas_assert_True [simp]: "gas_assert True k = k"
  by (simp add: gas_assert_def)

lemma gas_assert_Inr_iff [simp]: "gas_assert P k = Inr b \<longleftrightarrow> P \<and> k = Inr b"
  by (simp add: gas_assert_def)

lemma deref_Some [simp]: "deref (Some x) k = k x"
  by (simp add: deref_def)

lemma deref_None [simp]: "deref None k = Inl Null_deref"
  by (simp add: deref_def)

lemma deref_Inr_iff [simp]: "deref p k = Inr b \<longleftrightarrow> (\<exists>x. p = Some x \<and> k x = Inr b)"
  by (cases p) auto

section \<open>Lemmas on encodings\<close>

lemma length_le_chars [simp, codec_simps]: "length (le_chars n v) = n"
  by (induction n v rule: le_chars.induct) auto

lemma le_chars_numeral [simp]:
  "le_chars (numeral k) v = ucast (v AND 0xff) # le_chars (pred_numeral k) (drop_bit 8 v)"
  by (simp add: numeral_eq_Suc)

lemma length_le32 [simp, codec_simps]: "length (le32 v) = 4"
  by (simp add: le32_def del: le_chars_numeral)

lemma length_le64 [simp, codec_simps]: "length (le64 v) = 8"
  by (simp add: le64_def del: le_chars_numeral)

lemma unat_lt: "unat (v :: 'a::len word) < 2 ^ LENGTH('a)"
  by (rule unsigned_less)

lemma unat_low_byte: "unat (ucast (val AND 0xff :: u64) :: byte) = unat val mod 256"
proof -
  have "val AND 0xff = take_bit 8 val"
    by (simp add: take_bit_eq_mask mask_eq_exp_minus_1)
  then have "ucast (val AND 0xff) = (ucast val :: byte)"
    by (simp add: bit_eq_iff bit_simps)
  then show ?thesis by (simp add: unsigned_ucast_eq take_bit_eq_mod)
qed

lemma unat_drop_byte: "unat (drop_bit 8 (val :: u64)) = unat val div 256"
  by (simp add: drop_bit_eq_div unat_div_distrib)

lemma le_nat_le_chars: "le_nat (le_chars n val) = unat val mod 256 ^ n"
proof (induction n val rule: le_chars.induct)
  case (1 val)
  then show ?case by simp
next
  case (2 n val)
  then show ?case
    by (simp add: unat_low_byte unat_drop_byte mod_mult2_eq algebra_simps)
qed

lemma be_chars_rev: "be_chars n val acc = rev (le_chars n val) @ acc"
  by (induction n val acc rule: be_chars.induct) auto

lemma get32_le32 [codec_simps]: "get32 (le32 v @ rest) = v"
proof -
  have "unat (ucast v :: u64) = unat v" and "unat v < 2 ^ 32"
    using unat_lt [of v] by (simp_all add: unsigned_ucast_eq take_bit_eq_mod)
  then show ?thesis
    by (simp add: get32_def le32_def le_nat_le_chars del: le_chars_numeral)
qed

lemma get64_le64 [codec_simps]: "get64 (le64 v @ rest) = v"
  using unat_lt [of v] by (simp add: get64_def le64_def le_nat_le_chars del: le_chars_numeral)

section \<open>Lemmas on C strings and reads\<close>

lemma cstr_append_nul [simp]: "0 \<notin> set s \<Longrightarrow> cstr (s @ 0 # rest) = s"
  unfolding cstr_def by (induction s) auto

lemma rd_Some_iff: "rd mem off n = Some bs \<longleftrightarrow> off + n \<le> length mem \<and> bs = take n (drop off mem)"
  by (auto simp: rd_def)

lemma length_rd: "rd mem off n = Some bs \<Longrightarrow> length bs = n"
  by (auto simp: rd_def split: if_splits)

lemma rd_in_range [simp]: "off + n \<le> length mem \<Longrightarrow> rd mem off n = Some (take n (drop off mem))"
  by (simp add: rd_def)

section \<open>Lemmas on linked lists\<close>

lemma path_append [chain_simps]:
  "path nxt p (xs @ ys) q \<longleftrightarrow> (\<exists>r. path nxt p xs r \<and> path nxt r ys q)"
  by (induction xs arbitrary: p) auto

lemma chain_Nil [simp, chain_simps]: "chain nxt p [] \<longleftrightarrow> p = None"
  by (simp add: chain_def)

lemma chain_Cons [simp, chain_simps]: "chain nxt p (x # xs) \<longleftrightarrow> p = Some x \<and> chain nxt (nxt x) xs"
  by (simp add: chain_def)

lemma chain_append [chain_simps]: "chain nxt p (xs @ ys) \<longleftrightarrow> (\<exists>r. path nxt p xs r \<and> chain nxt r ys)"
  by (simp add: chain_def path_append)

lemma path_cong:
  "(\<And>x. x \<in> set xs \<Longrightarrow> nxt x = nxt' x) \<Longrightarrow> path nxt p xs q \<longleftrightarrow> path nxt' p xs q"
  by (induction xs arbitrary: p) auto

lemma path_upd [simp, chain_simps]:
  "a \<notin> set xs \<Longrightarrow> path (nxt(a := v)) p xs q \<longleftrightarrow> path nxt p xs q"
  by (rule path_cong) auto

lemma chain_upd [simp, chain_simps]:
  "a \<notin> set xs \<Longrightarrow> chain (nxt(a := v)) p xs \<longleftrightarrow> chain nxt p xs"
  by (simp add: chain_def)

lemma chain_unique: "chain nxt p xs \<Longrightarrow> chain nxt p ys \<Longrightarrow> xs = ys"
proof (induction xs arbitrary: p ys)
  case Nil
  then show ?case by (cases ys) auto
next
  case (Cons x xs)
  then show ?case by (cases ys) auto
qed

lemma chain_snoc_link:
  assumes "chain nxt p (xs @ [l])" and "l \<notin> set xs" and "chain nxt q ys" and "l \<notin> set ys"
  shows "chain (nxt(l := q)) p (xs @ [l] @ ys)"
  using assms by (auto simp: chain_append path_append)

lemma path_last_snoc: "path nxt p (xs @ [l]) q \<Longrightarrow> nxt l = q"
  by (simp add: path_append)

text \<open>Cutting a node, or a stretch of nodes, out of a list and putting one in.  The pointer to the
  place is the root when nothing is in front, otherwise the link of the last node in front.\<close>

definition relink :: "('a \<Rightarrow> 'a option) \<Rightarrow> 'a list \<Rightarrow> 'a option \<Rightarrow> 'a \<Rightarrow> 'a option" where
  "relink nxt us q = (if us = [] then nxt else nxt(last us := q))"

definition reroot :: "'a option \<Rightarrow> 'a list \<Rightarrow> 'a option \<Rightarrow> 'a option" where
  "reroot p us q = (if us = [] then q else p)"

lemma path_distinct_end:
  assumes "path nxt p us q" and "us \<noteq> []"
  shows "nxt (last us) = q"
proof -
  obtain xs l where "us = xs @ [l]" using assms(2) by (metis rev_exhaust)
  with assms(1) show ?thesis by (simp add: path_append)
qed

lemma path_relink:
  assumes "path nxt p us q" and "distinct us"
  shows "path (relink nxt us q') (reroot p us q') us q'"
proof (cases "us = []")
  case False
  then obtain xs l where "us = xs @ [l]" by (metis rev_exhaust)
  with assms show ?thesis by (auto simp: path_append relink_def reroot_def)
qed (simp add: reroot_def)

lemma path_relink_other:
  "us = [] \<or> last us \<notin> set ws \<Longrightarrow> path (relink nxt us q') r ws q = path nxt r ws q"
  by (auto simp: relink_def)

lemma chain_relink_other:
  "us = [] \<or> last us \<notin> set ws \<Longrightarrow> chain (relink nxt us q') r ws = chain nxt r ws"
  by (simp add: chain_def path_relink_other)

lemma chain_cut:
  assumes "chain nxt p (us @ ws @ vs)" and "distinct (us @ ws @ vs)"
    and "path nxt r ws q" and "ws \<noteq> []"
  shows "chain (relink nxt us q) (reroot p us q) (us @ vs)"
proof -
  obtain r' q' where a: "path nxt p us r'" "path nxt r' ws q'" "chain nxt q' vs"
    using assms(1) by (auto simp: chain_append path_append)
  have "q' = q" using a(2) assms(3,4) by (metis path_distinct_end)
  moreover have "us = [] \<or> last us \<notin> set vs" using assms(2) last_in_set by (cases "us = []") auto
  ultimately show ?thesis
    using a assms(2) path_relink [OF a(1), of q] by (auto simp: chain_append chain_relink_other)
qed

lemma chain_put:
  assumes "chain nxt p (us @ vs)" and "distinct (us @ vs)" and "a \<notin> set (us @ vs)"
    and "q = (if us = [] then p else nxt (last us))"
  shows "chain (relink (nxt(a := q)) us (Some a)) (reroot p us (Some a)) (us @ a # vs)"
proof -
  obtain r where a: "path nxt p us r" "chain nxt r vs" using assms(1) by (auto simp: chain_append)
  have "r = q"
  proof (cases "us = []")
    case True
    then show ?thesis using a assms(4) by simp
  next
    case False
    then show ?thesis using a(1) assms(4) by (simp add: path_distinct_end)
  qed
  have o: "us = [] \<or> last us \<notin> set (a # vs)" using assms(2,3) last_in_set by (cases "us = []") auto
  have "path (nxt(a := q)) p us q" "chain (nxt(a := q)) (Some a) (a # vs)"
    using a assms(3) \<open>r = q\<close> by auto
  then show ?thesis
    using path_relink [of "nxt(a := q)" p us q "Some a"] assms(2) o
    by (auto simp: chain_append chain_relink_other simp del: chain_Cons)
qed

end
