(* ===== verification/Obstack.thy ===== *)
theory Obstack
  imports Gas_Prelude
begin

text \<open>
  The growing-object allocator the frag chains live in (\<open>src/libiberty/obstack.c\<close> and the macros
  of \<open>src/include/obstack.h\<close>).  Addresses are natural numbers; the chunk allocator (\<open>xmalloc\<close>
  for the assembler) is the parameter \<open>cf\<close>: the address it returns for a size at the \<open>k\<close>-th
  request of the \<open>i\<close>-th obstack.  \<open>size_t\<close> sums are taken modulo \<open>2 ^ 64\<close>, as the overflow test of
  \<open>_obstack_newchunk\<close> needs.
\<close>

type_synonym chunkfun = "nat \<times> nat \<Rightarrow> nat \<Rightarrow> nat"

text \<open>\<open>prev_chunks\<close> is the chain of \<open>struct _obstack_chunk\<close> behind the current one (address and
  limit), newest first; \<open>ob_id\<close> names the obstack and \<open>n_chunks\<close> counts its requests to the chunk
  allocator.\<close>

record obstack =
  ob_id :: nat
  chunk_size :: nat
  chunk :: nat
  object_base :: nat
  next_free :: nat
  chunk_limit :: nat
  alignment_mask :: nat
  maybe_empty_object :: bool
  prev_chunks :: "(nat \<times> nat) list"
  n_chunks :: nat

definition size_t :: "nat \<Rightarrow> nat" where
  "size_t n = n mod 2 ^ 64"

text \<open>\<open>__PTR_ALIGN\<close> for an alignment mask \<open>2 ^ k - 1\<close>.\<close>

definition ptr_align :: "nat \<Rightarrow> nat \<Rightarrow> nat" where
  "ptr_align p m = (p + m) div (m + 1) * (m + 1)"

text \<open>\<open>struct _obstack_chunk\<close> starts with two pointers; its \<open>contents\<close> follow.\<close>

definition contents_off :: nat where
  "contents_off = 16"

definition DEFAULT_ALIGNMENT :: nat where
  "DEFAULT_ALIGNMENT = 16"

definition DEFAULT_ROUNDING :: nat where
  "DEFAULT_ROUNDING = 16"

definition obstack_begin_worker :: "chunkfun \<Rightarrow> nat \<Rightarrow> nat \<Rightarrow> nat \<Rightarrow> obstack" where
  "obstack_begin_worker cf i sz alignment =
     (let alignment' = (if alignment = 0 then DEFAULT_ALIGNMENT else alignment);
          extra = ptr_align (ptr_align 12 (DEFAULT_ROUNDING - 1) + 4) (DEFAULT_ROUNDING - 1);
          size' = (if sz = 0 then 4096 - extra else sz);
          c = cf (i, 0) size';
          base = ptr_align (c + contents_off) (alignment' - 1)
      in \<lparr>ob_id = i, chunk_size = size', chunk = c, object_base = base, next_free = base,
          chunk_limit = c + size', alignment_mask = alignment' - 1, maybe_empty_object = False,
          prev_chunks = [], n_chunks = 1\<rparr>)"

definition obstack_room :: "obstack \<Rightarrow> nat" where
  "obstack_room h = chunk_limit h - next_free h"

definition obstack_object_size :: "obstack \<Rightarrow> nat" where
  "obstack_object_size h = next_free h - object_base h"

text \<open>\<open>_obstack_newchunk\<close>; the failure handler does not return.\<close>

definition obstack_newchunk :: "chunkfun \<Rightarrow> obstack \<Rightarrow> nat \<Rightarrow> obstack result" where
  "obstack_newchunk cf h len =
     (let obj_size = next_free h - object_base h;
          sum1 = size_t (obj_size + len);
          sum2 = size_t (sum1 + alignment_mask h);
          new_size0 = size_t (sum2 + obj_size div 8 + 100);
          new_size1 = (if new_size0 < sum2 then sum2 else new_size0);
          new_size = (if new_size1 < chunk_size h then chunk_size h else new_size1)
      in if obj_size \<le> sum1 \<and> sum1 \<le> sum2 then
           (let nc = cf (ob_id h, n_chunks h) new_size;
                base = ptr_align (nc + contents_off) (alignment_mask h);
                only_object = (\<not> maybe_empty_object h
                   \<and> object_base h = ptr_align (chunk h + contents_off) (alignment_mask h))
            in Inr (h\<lparr>chunk := nc, chunk_limit := nc + new_size,
                     prev_chunks := (if only_object then prev_chunks h
                                     else (chunk h, chunk_limit h) # prev_chunks h),
                     object_base := base, next_free := base + obj_size,
                     maybe_empty_object := False, n_chunks := n_chunks h + 1\<rparr>))
         else Inl As_fatal)"

text \<open>\<open>_obstack_newchunk\<close> copies the growing object to its new place.\<close>

definition newchunk_copy :: "obstack \<Rightarrow> obstack \<Rightarrow> (nat \<Rightarrow> byte) \<Rightarrow> nat \<Rightarrow> byte" where
  "newchunk_copy h h' m a =
     (if object_base h' \<le> a \<and> a < object_base h' + (next_free h - object_base h)
      then m (object_base h + (a - object_base h')) else m a)"

definition obstack_blank_fast :: "obstack \<Rightarrow> nat \<Rightarrow> obstack" where
  "obstack_blank_fast h n = h\<lparr>next_free := next_free h + n\<rparr>"

definition obstack_blank :: "chunkfun \<Rightarrow> obstack \<Rightarrow> nat \<Rightarrow> obstack result" where
  "obstack_blank cf h len =
     bindE (if obstack_room h < len then obstack_newchunk cf h len else Inr h)
       (\<lambda>h'. Inr (obstack_blank_fast h' len))"

text \<open>\<open>obstack_finish\<close> returns the finished object and the obstack ready for the next one.\<close>

definition obstack_finish :: "obstack \<Rightarrow> nat \<times> obstack" where
  "obstack_finish h =
     (let value = object_base h;
          h1 = (if next_free h = value then h\<lparr>maybe_empty_object := True\<rparr> else h);
          nf = ptr_align (next_free h) (alignment_mask h);
          nf' = (if nf - chunk h > chunk_limit h - chunk h then chunk_limit h else nf)
      in (value, h1\<lparr>next_free := nf', object_base := nf'\<rparr>))"

definition obstack_alloc :: "chunkfun \<Rightarrow> obstack \<Rightarrow> nat \<Rightarrow> (nat \<times> obstack) result" where
  "obstack_alloc cf h len = bindE (obstack_blank cf h len) (\<lambda>h'. Inr (obstack_finish h'))"

text \<open>The total size of the chunks held.\<close>

definition obstack_memory_used :: "obstack \<Rightarrow> nat" where
  "obstack_memory_used h =
     (chunk_limit h - chunk h) + sum_list (map (\<lambda>(c, l). l - c) (prev_chunks h))"

text \<open>Well-formedness: the growing object lies inside the current chunk, behind its header, and
  the sizes in play leave the \<open>size_t\<close> sums exact.\<close>

definition obstack_ok :: "obstack \<Rightarrow> bool" where
  "obstack_ok h \<longleftrightarrow> chunk h + contents_off \<le> object_base h \<and> object_base h \<le> next_free h
     \<and> next_free h \<le> chunk_limit h"

definition small :: "nat \<Rightarrow> bool" where
  "small n \<longleftrightarrow> n < 2 ^ 60"

text \<open>What \<open>malloc\<close> documents: blocks handed out by different requests do not overlap.\<close>

definition malloc_law :: "chunkfun \<Rightarrow> bool" where
  "malloc_law cf \<longleftrightarrow> (\<forall>r r' m n. r \<noteq> r' \<longrightarrow> small m \<longrightarrow> small n \<longrightarrow>
     cf r m + m \<le> cf r' n \<or> cf r' n + n \<le> cf r m)"

text \<open>The chunks an obstack holds were handed out to it and do not overlap.\<close>

definition live_chunks :: "obstack \<Rightarrow> (nat \<times> nat) list" where
  "live_chunks h = (chunk h, chunk_limit h) # prev_chunks h"

definition chunks_ok :: "chunkfun \<Rightarrow> obstack \<Rightarrow> bool" where
  "chunks_ok cf h \<longleftrightarrow> (\<forall>(c, l) \<in> set (live_chunks h).
     \<exists>k < n_chunks h. \<exists>n. small n \<and> c = cf (ob_id h, k) n \<and> l = c + n)
   \<and> sorted_wrt (\<lambda>(c, l) (c', l'). l \<le> c' \<or> l' \<le> c) (live_chunks h)"

text \<open>The obstack right after a new chunk was opened for an object of size \<open>n\<close>.\<close>

definition fresh_chunk_size :: "obstack \<Rightarrow> nat \<Rightarrow> nat" where
  "fresh_chunk_size h n = max (n + 100) (chunk_size h)"

definition fresh_obstack :: "chunkfun \<Rightarrow> obstack \<Rightarrow> nat \<Rightarrow> obstack" where
  "fresh_obstack cf h n =
     (let nc = cf (ob_id h, n_chunks h) (fresh_chunk_size h n)
      in h\<lparr>chunk := nc, chunk_limit := nc + fresh_chunk_size h n, prev_chunks := live_chunks h,
           object_base := nc + contents_off, next_free := nc + contents_off,
           maybe_empty_object := False, n_chunks := n_chunks h + 1\<rparr>)"

section \<open>Lemmas\<close>

lemma size_t_small [simp]: "n < 2 ^ 64 \<Longrightarrow> size_t n = n"
  by (simp add: size_t_def)

lemma ptr_align_0 [simp]: "ptr_align p 0 = p"
  by (simp add: ptr_align_def)

lemma ptr_align_ge: "p \<le> ptr_align p m"
proof -
  have "p + m = (p + m) div (m + 1) * (m + 1) + (p + m) mod (m + 1)"
    by (metis div_mult_mod_eq)
  moreover have "(p + m) mod (m + 1) \<le> m"
    by (metis add.commute less_Suc_eq_le mod_less_divisor plus_1_eq_Suc zero_less_Suc)
  ultimately show ?thesis unfolding ptr_align_def by linarith
qed

lemma ptr_align_le: "ptr_align p m \<le> p + m"
  unfolding ptr_align_def by (metis div_times_less_eq_dividend)

lemma obstack_finish_ok: "obstack_ok h \<Longrightarrow> obstack_ok (snd (obstack_finish h))"
  using ptr_align_ge [of "next_free h" "alignment_mask h"]
  by (auto simp: obstack_ok_def obstack_finish_def Let_def)

lemma obstack_finish_fields [simp]:
  "chunk (snd (obstack_finish h)) = chunk h"
  "chunk_limit (snd (obstack_finish h)) = chunk_limit h"
  "chunk_size (snd (obstack_finish h)) = chunk_size h"
  "alignment_mask (snd (obstack_finish h)) = alignment_mask h"
  "n_chunks (snd (obstack_finish h)) = n_chunks h"
  "fst (obstack_finish h) = object_base h"
  by (simp_all add: obstack_finish_def Let_def)

lemma obstack_finish_more [simp]:
  "ob_id (snd (obstack_finish h)) = ob_id h"
  "prev_chunks (snd (obstack_finish h)) = prev_chunks h"
  "object_base (snd (obstack_finish h)) = next_free (snd (obstack_finish h))"
  by (simp_all add: obstack_finish_def Let_def)

lemma obstack_finish_empty:
  "next_free h = object_base h \<Longrightarrow> maybe_empty_object (snd (obstack_finish h))"
  by (simp add: obstack_finish_def Let_def)

lemma obstack_finish_next_free:
  "obstack_ok h \<Longrightarrow> next_free h \<le> next_free (snd (obstack_finish h))"
  using ptr_align_ge [of "next_free h" "alignment_mask h"]
  by (auto simp: obstack_ok_def obstack_finish_def Let_def)

lemma obstack_finish_object_size: "obstack_object_size (snd (obstack_finish h)) = 0"
  by (simp add: obstack_finish_def obstack_object_size_def Let_def)

text \<open>A finished object of size zero, with no alignment in force, leaves the positions alone.\<close>

lemma obstack_finish_mask0:
  assumes "alignment_mask h = 0" and "obstack_ok h"
  shows "next_free (snd (obstack_finish h)) = next_free h"
  using assms by (auto simp: obstack_finish_def Let_def obstack_ok_def)

text \<open>Taking an object of a given size when no object is growing and no alignment is in force:
  either it comes from the current chunk or a new chunk is opened for it.\<close>

lemma obstack_alloc_same_chunk:
  assumes "obstack_ok h" and "alignment_mask h = 0" and "object_base h = next_free h"
    and "n \<le> obstack_room h"
  shows "obstack_alloc cf h n =
    Inr (next_free h, snd (obstack_finish (obstack_blank_fast h n)))"
    and "next_free (snd (obstack_finish (obstack_blank_fast h n))) = next_free h + n"
    and "obstack_ok (snd (obstack_finish (obstack_blank_fast h n)))"
proof -
  have ok: "obstack_ok (obstack_blank_fast h n)"
    using assms by (auto simp: obstack_ok_def obstack_blank_fast_def obstack_room_def)
  show "obstack_ok (snd (obstack_finish (obstack_blank_fast h n)))"
    by (rule obstack_finish_ok [OF ok])
  show "next_free (snd (obstack_finish (obstack_blank_fast h n))) = next_free h + n"
    using obstack_finish_mask0 [OF _ ok] assms(2) by (simp add: obstack_blank_fast_def)
  have "fst (obstack_finish (obstack_blank_fast h n)) = next_free h"
    using assms(3) by (simp add: obstack_blank_fast_def)
  then show "obstack_alloc cf h n =
    Inr (next_free h, snd (obstack_finish (obstack_blank_fast h n)))"
    using assms(4) by (simp add: obstack_alloc_def obstack_blank_def prod_eq_iff)
qed

lemma obstack_newchunk_fresh:
  assumes "alignment_mask h = 0" and "object_base h = next_free h" and "maybe_empty_object h"
    and "small n" and "small (chunk_size h)"
  shows "obstack_newchunk cf h n = Inr (fresh_obstack cf h n)"
proof -
  have "size_t n = n" and "size_t (n + 100) = n + 100"
    using assms(4) by (simp_all add: small_def)
  then have "max (n + 100) (chunk_size h) =
      (if n + 100 < chunk_size h then chunk_size h else n + 100)"
    and "\<not> size_t (n + 100) < n"
    by auto
  then show ?thesis
    using assms \<open>size_t n = n\<close> \<open>size_t (n + 100) = n + 100\<close>
    by (simp add: obstack_newchunk_def fresh_obstack_def fresh_chunk_size_def live_chunks_def Let_def)
qed

lemma obstack_alloc_new_chunk:
  fixes cf :: chunkfun and h :: obstack
  assumes "obstack_ok h" and "alignment_mask h = 0" and "object_base h = next_free h"
    and "maybe_empty_object h" and "small n" and "small (chunk_size h)"
    and "obstack_room h < n"
  defines "h' \<equiv> snd (obstack_finish (obstack_blank_fast (fresh_obstack cf h n) n))"
  shows "obstack_alloc cf h n = Inr (next_free (fresh_obstack cf h n), h')"
    and "next_free h' = next_free (fresh_obstack cf h n) + n"
    and "obstack_ok h'"
proof -
  let ?f = "obstack_blank_fast (fresh_obstack cf h n) n"
  have ok: "obstack_ok ?f"
    by (simp add: obstack_ok_def obstack_blank_fast_def fresh_obstack_def fresh_chunk_size_def
        contents_off_def Let_def)
  show "obstack_ok h'" unfolding h'_def by (rule obstack_finish_ok [OF ok])
  show "next_free h' = next_free (fresh_obstack cf h n) + n"
    unfolding h'_def using obstack_finish_mask0 [OF _ ok] assms(2)
    by (simp add: obstack_blank_fast_def fresh_obstack_def Let_def)
  have "fst (obstack_finish ?f) = next_free (fresh_obstack cf h n)"
    by (simp add: obstack_blank_fast_def fresh_obstack_def Let_def)
  then show "obstack_alloc cf h n = Inr (next_free (fresh_obstack cf h n), h')"
    unfolding h'_def using assms(7) obstack_newchunk_fresh [OF assms(2-6)]
    by (simp add: obstack_alloc_def obstack_blank_def prod_eq_iff)
qed

lemma chunks_okE:
  assumes "chunks_ok cf h" and "(c, l) \<in> set (live_chunks h)"
  obtains k m where "k < n_chunks h" "small m" "c = cf (ob_id h, k) m" "l = c + m"
  using assms unfolding chunks_ok_def by blast

lemma chunks_ok_fresh:
  assumes "malloc_law cf" and "chunks_ok cf h" and "small (fresh_chunk_size h n)"
  shows "chunks_ok cf (fresh_obstack cf h n)"
proof -
  let ?s = "fresh_chunk_size h n" and ?nc = "cf (ob_id h, n_chunks h) (fresh_chunk_size h n)"
  have disj: "?nc + ?s \<le> c \<or> l \<le> ?nc" if cl: "(c, l) \<in> set (live_chunks h)" for c l
  proof -
    from assms(2) cl obtain k m where k: "k < n_chunks h" "small m" "c = cf (ob_id h, k) m" "l = c + m"
      by (rule chunks_okE)
    then have "(ob_id h, k) \<noteq> (ob_id h, n_chunks h)" by simp
    with assms(1,3) k(2) have "cf (ob_id h, k) m + m \<le> ?nc \<or> ?nc + ?s \<le> cf (ob_id h, k) m"
      unfolding malloc_law_def by blast
    with k show ?thesis by auto
  qed
  have live: "live_chunks (fresh_obstack cf h n) = (?nc, ?nc + ?s) # live_chunks h"
    by (simp add: live_chunks_def fresh_obstack_def Let_def)
  have key: "n_chunks (fresh_obstack cf h n) = n_chunks h + 1"
    "ob_id (fresh_obstack cf h n) = ob_id h"
    by (simp_all add: fresh_obstack_def Let_def)
  have "\<exists>k < n_chunks h + 1. \<exists>m. small m \<and> c = cf (ob_id h, k) m \<and> l = c + m"
    if "(c, l) \<in> set ((?nc, ?nc + ?s) # live_chunks h)" for c l
  proof (cases "(c, l) = (?nc, ?nc + ?s)")
    case True
    then show ?thesis using assms(3) by auto
  next
    case False
    with that have "(c, l) \<in> set (live_chunks h)" by auto
    with assms(2) obtain k m where "k < n_chunks h" "small m" "c = cf (ob_id h, k) m" "l = c + m"
      by (rule chunks_okE)
    then show ?thesis using less_Suc_eq by auto
  qed
  moreover have "sorted_wrt (\<lambda>(c, l) (c', l'). l \<le> c' \<or> l' \<le> c) ((?nc, ?nc + ?s) # live_chunks h)"
    using assms(2) disj unfolding chunks_ok_def by auto
  ultimately show ?thesis
    unfolding chunks_ok_def live key by blast
qed

end
