(* ===== verification/Gas_State.thy ===== *)
theory Gas_State
  imports Obstack
begin

text \<open>
  The data the assembler's parts share: frags (\<open>src/gas/frags.h\<close>), symbols
  (\<open>src/gas/symbols.c\<close>), fixups (\<open>src/gas/write.h\<close>), frag chains and segments
  (\<open>src/gas/subsegs.h\<close>) and the global variables of the assembler and of the embedded-data
  collector (\<open>src/gas/datascope.h\<close>).  Frags and symbols are kept in stores indexed by their
  addresses, so that sharing and relinking are visible.
\<close>

type_synonym fragP = nat
type_synonym symP = nat

datatype segT =
    absolute_section
  | undefined_section
  | expr_section
  | reg_section
  | text_section
  | data_section
  | bss_section
  | xom_section
  | xom_test_section
  | xom_data_section
  | user_section string

text \<open>\<open>enum _relax_state\<close>, without \<open>rs_broken_word\<close> and \<open>rs_cv_comp\<close>, which the x86 ELF
  configuration compiles out.\<close>

datatype relax_stateT =
    rs_dummy
  | rs_fill
  | rs_align
  | rs_align_code
  | rs_align_test
  | rs_org
  | rs_machine_dependent
  | rs_space
  | rs_space_nop
  | rs_fill_nop
  | rs_leb128
  | rs_cfa
  | rs_dwarf2dbg
  | rs_sframe

record frag_flags =
  first_frag :: bool
  insn_frag :: bool
  align_frag :: bool
  anchor_frag :: bool

record frag =
  fr_address :: u64
  last_fr_address :: u64
  fr_fix :: u64
  fr_var :: u64
  fr_offset :: u64
  fr_symbol :: "symP option"
  fr_next :: "fragP option"
  region :: u16
  relax_marker :: bool
  fr_type :: relax_stateT
  fr_subtype :: u32
  fr_flags :: frag_flags
  frag_symbol :: "symP option"
  frag_anchor :: "symP option"
  frag_index :: u32
  frag_has_hardcode :: bool
  frag_has_insn :: bool
  begin_bytes :: bool
  frag_has_checked :: bool
  hardcode_size :: u32

text \<open>\<open>frag_alloc\<close> clears the structure.\<close>

definition no_flags :: frag_flags where
  "no_flags = \<lparr>first_frag = False, insn_frag = False, align_frag = False, anchor_frag = False\<rparr>"

definition zero_frag :: frag where
  "zero_frag = \<lparr>fr_address = 0, last_fr_address = 0, fr_fix = 0, fr_var = 0, fr_offset = 0,
     fr_symbol = None, fr_next = None, region = 0, relax_marker = False, fr_type = rs_dummy,
     fr_subtype = 0, fr_flags = no_flags, frag_symbol = None, frag_anchor = None, frag_index = 0,
     frag_has_hardcode = False, frag_has_insn = False, begin_bytes = False,
     frag_has_checked = False, hardcode_size = 0\<rparr>"

text \<open>\<open>struct local_symbol\<close> and \<open>struct symbol\<close>, told apart by \<open>local_symbol\<close>; both carry the
  collector's fields.\<close>

record symbol =
  sy_name :: "byte list"
  local_symbol :: bool
  sy_frag :: "fragP option"
  sy_seg :: segT
  section_sym :: bool
  sy_value :: u64
  jmp_table_size :: u32
  jmp_entry_size :: u32
  call_flow_symbol :: bool
  memory_access_symbol :: bool
  bind_bytes :: bool

datatype reloc_code =
    NO_RELOC
  | BFD_RELOC_8
  | BFD_RELOC_16
  | BFD_RELOC_32
  | BFD_RELOC_64
  | BFD_RELOC_8_PCREL
  | BFD_RELOC_16_PCREL
  | BFD_RELOC_32_PCREL
  | BFD_RELOC_64_PCREL
  | BFD_RELOC_X86_64_32S
  | BFD_RELOC_RVA
  | BFD_RELOC_VTABLE_INHERIT
  | BFD_RELOC_VTABLE_ENTRY
  | Other_reloc nat

record fixS =
  fx_frag :: fragP
  fx_where :: u64
  fx_size :: byte
  fx_addsy :: "symP option"
  fx_subsy :: "symP option"
  fx_offset :: u64
  fx_pcrel :: bool
  fx_r_type :: reloc_code
  fx_done :: bool

text \<open>A frag chain (one subsegment) with its obstack and its fixups, and a segment with its
  chains in increasing order of subsegment number.\<close>

record frchain =
  frch_root :: "fragP option"
  frch_last :: "fragP option"
  frch_subseg :: int
  frch_obstack :: obstack
  frch_frag_now :: "fragP option"
  frch_fixes :: "fixS list"

record segment_info =
  frchainP :: "frchain list"
  seg_fixes :: "fixS list"
  seg_align :: nat

text \<open>The global variables.  \<open>mem\<close> holds the octets behind the frags' literals.  \<open>frchain_now\<close> is the address of a chain, given by its segment and
  subsegment number; \<open>sym_chain\<close> is the list from \<open>symbol_rootP\<close> to \<open>symbol_lastP\<close>.\<close>

record gas =
  mem :: "nat \<Rightarrow> byte"
  frags :: "fragP \<Rightarrow> frag"
  syms :: "symP \<Rightarrow> symbol"
  n_syms :: nat
  sym_chain :: "symP list"
  seg_info :: "segT \<Rightarrow> segment_info option"
  now_seg :: segT
  now_subseg :: int
  frchain_now :: "(segT \<times> int) option"
  frag_now :: fragP
  totalfrags :: u32
  n_frchains :: nat
  abs_section_offset :: u64
  frags_chained :: bool
  mri_common_symbol :: "symP option"
  fiy_dcollect :: bool
  fiy_dsplit :: bool
  text_cur_symbol :: "symP option"
  cur_func_name :: "byte list option"
  is_in_func :: bool
  is_finish_subseg :: bool
  flash_symbol_point :: bool
  total_hardcoded_bytes :: u32
  direct_code_num :: u32
  direct_data_num :: u32
  fall_through_num :: u32

text \<open>What the build fixes from outside: the chunk allocator, the size of \<open>struct frag\<close> up to
  \<open>fr_literal\<close> and its alignment, and the variable \<open>chunksize\<close> of \<open>as.c\<close> (0, or 64 for testing).
  \<open>n_frchains\<close> counts the chains made so far; it names their obstacks.\<close>

record target =
  chunk_alloc :: chunkfun
  sizeof_struct_frag :: nat
  alignof_frag :: nat
  chunksize :: nat

section \<open>Access to the stores\<close>

definition upd_frag :: "fragP \<Rightarrow> (frag \<Rightarrow> frag) \<Rightarrow> gas \<Rightarrow> gas" where
  "upd_frag p f g = g\<lparr>frags := (frags g)(p := f (frags g p))\<rparr>"

text \<open>\<open>*p = b\<close> and \<open>memcpy (p, bs, n)\<close>.\<close>

definition poke :: "nat \<Rightarrow> byte \<Rightarrow> gas \<Rightarrow> gas" where
  "poke p b g = g\<lparr>mem := (mem g)(p := b)\<rparr>"

fun poke_list :: "nat \<Rightarrow> byte list \<Rightarrow> gas \<Rightarrow> gas" where
  "poke_list p [] g = g"
| "poke_list p (b # bs) g = poke_list (p + 1) bs (poke p b g)"

definition upd_sym :: "symP \<Rightarrow> (symbol \<Rightarrow> symbol) \<Rightarrow> gas \<Rightarrow> gas" where
  "upd_sym p f g = g\<lparr>syms := (syms g)(p := f (syms g p))\<rparr>"

text \<open>\<open>*frchain_now\<close>: the chain with the current subsegment number in the current segment.\<close>

definition the_frchain :: "gas \<Rightarrow> frchain option" where
  "the_frchain g = (case frchain_now g of None \<Rightarrow> None
     | Some (sg, ss) \<Rightarrow> (case seg_info g sg of None \<Rightarrow> None
        | Some si \<Rightarrow> find (\<lambda>c. frch_subseg c = ss) (frchainP si)))"

definition upd_frchain :: "(frchain \<Rightarrow> frchain) \<Rightarrow> gas \<Rightarrow> gas" where
  "upd_frchain f g = (case frchain_now g of None \<Rightarrow> g
     | Some (sg, ss) \<Rightarrow> g\<lparr>seg_info := (seg_info g)(sg := map_option
         (\<lambda>si. si\<lparr>frchainP := map (\<lambda>c. if frch_subseg c = ss then f c else c) (frchainP si)\<rparr>)
         (seg_info g sg))\<rparr>)"

definition frag_next :: "gas \<Rightarrow> fragP \<Rightarrow> fragP option" where
  "frag_next g p = fr_next (frags g p)"

section \<open>Lemmas\<close>

lemma find_map_upd:
  assumes "find (\<lambda>c. key c = k) cs = Some c" and "\<And>c. key (f c) = key c"
  shows "find (\<lambda>c. key c = k) (map (\<lambda>c. if key c = k then f c else c) cs) = Some (f c)"
  using assms by (induction cs) (auto split: if_splits)

lemma the_frchain_upd:
  assumes "the_frchain g = Some c" and "\<And>c. frch_subseg (f c) = frch_subseg c"
  shows "the_frchain (upd_frchain f g) = Some (f c)"
  using assms
  by (auto simp: the_frchain_def upd_frchain_def split: option.splits intro: find_map_upd)

lemma upd_frchain_keeps [simp]:
  "frags (upd_frchain f g) = frags g" "syms (upd_frchain f g) = syms g"
  "frag_now (upd_frchain f g) = frag_now g" "now_seg (upd_frchain f g) = now_seg g"
  "totalfrags (upd_frchain f g) = totalfrags g" "fiy_dcollect (upd_frchain f g) = fiy_dcollect g"
  "frchain_now (upd_frchain f g) = frchain_now g"
  "is_finish_subseg (upd_frchain f g) = is_finish_subseg g"
  by (auto simp: upd_frchain_def split: option.splits)

lemma upd_frag_keeps [simp]:
  "syms (upd_frag p f g) = syms g" "frag_now (upd_frag p f g) = frag_now g"
  "now_seg (upd_frag p f g) = now_seg g" "seg_info (upd_frag p f g) = seg_info g"
  "frchain_now (upd_frag p f g) = frchain_now g" "totalfrags (upd_frag p f g) = totalfrags g"
  "fiy_dcollect (upd_frag p f g) = fiy_dcollect g"
  "is_finish_subseg (upd_frag p f g) = is_finish_subseg g"
  by (simp_all add: upd_frag_def)

lemma the_frchain_upd_frag [simp]: "the_frchain (upd_frag p f g) = the_frchain g"
  by (auto simp: the_frchain_def split: option.splits)

lemma frags_upd_frag: "frags (upd_frag p f g) q = (if q = p then f (frags g p) else frags g q)"
  by (simp add: upd_frag_def)

lemma upd_frag_upd_frchain: "upd_frag p f (upd_frchain h g) = upd_frchain h (upd_frag p f g)"
  by (auto simp: upd_frag_def upd_frchain_def split: option.splits)

lemma the_frchain_cong:
  "seg_info g = seg_info g' \<Longrightarrow> frchain_now g = frchain_now g' \<Longrightarrow> the_frchain g = the_frchain g'"
  by (auto simp: the_frchain_def split: option.splits)

lemma frag_next_upd_frchain [simp]: "frag_next (upd_frchain h g) = frag_next g"
  by (simp add: frag_next_def fun_eq_iff)

lemma frag_same: "\<exists>n. f = f\<lparr>fr_next := n\<rparr>" for f :: frag
  by (rule exI [of _ "fr_next f"]) simp

end
