(* ===== verification/Frags.thy ===== *)
theory Frags
  imports Gas_State
begin

text \<open>
  Frag management (\<open>src/gas/frags.c\<close>): allocation, closing the current frag and starting the next
  one, growing, alignment frags and the fixed-distance predicates.  A frag's address is the
  address the obstack returned for its structure, so \<open>frag_now_fix_octets\<close> is the distance from
  \<open>fr_literal\<close> to the obstack's next free octet, as in the source.
\<close>

section \<open>Operations\<close>

definition get_frag_count :: "gas \<Rightarrow> u32" where
  "get_frag_count g = totalfrags g"

definition clear_frag_count :: "gas \<Rightarrow> gas" where
  "clear_frag_count g = g\<lparr>totalfrags := 0\<rparr>"

text \<open>\<open>frag_alloc\<close> aligns the obstack, then takes the structure with no further alignment.\<close>

definition frag_alloc_ob :: "target \<Rightarrow> obstack \<Rightarrow> nat \<Rightarrow> (fragP \<times> obstack) result" where
  "frag_alloc_ob tg ob extra =
     bindE (obstack_alloc (chunk_alloc tg) ob 0) (\<lambda>(_, ob1).
       let oalign = alignment_mask ob1 in
       bindE (obstack_alloc (chunk_alloc tg) (ob1\<lparr>alignment_mask := 0\<rparr>)
                (extra + sizeof_struct_frag tg)) (\<lambda>(ptr, ob2).
         Inr (ptr, ob2\<lparr>alignment_mask := oalign\<rparr>)))"

definition frag_alloc :: "target \<Rightarrow> obstack \<Rightarrow> nat \<Rightarrow> gas \<Rightarrow> (fragP \<times> obstack \<times> gas) result" where
  "frag_alloc tg ob extra g =
     bindE (frag_alloc_ob tg ob extra) (\<lambda>(ptr, ob').
       Inr (ptr, ob', g\<lparr>frags := (frags g)(ptr := zero_frag), totalfrags := totalfrags g + 1\<rparr>))"

text \<open>Reduce the variable end of a frag to a harmless state.\<close>

definition wane :: "frag \<Rightarrow> frag" where
  "wane f = f\<lparr>fr_type := rs_fill, fr_offset := 0, fr_var := 0\<rparr>"

definition frag_wane :: "fragP \<Rightarrow> gas \<Rightarrow> gas" where
  "frag_wane p g = upd_frag p wane g"

definition frag_now_fix_octets :: "target \<Rightarrow> gas \<Rightarrow> u64 result" where
  "frag_now_fix_octets tg g =
     (if now_seg g = absolute_section then Inr (abs_section_offset g)
      else deref (the_frchain g) (\<lambda>fc.
        Inr (word_of_nat (next_free (frch_obstack fc)) -
             word_of_nat (frag_now g + sizeof_struct_frag tg))))"

text \<open>On x86, \<open>OCTETS_PER_BYTE\<close> is 1, so the two counts agree.\<close>

definition frag_now_fix :: "target \<Rightarrow> gas \<Rightarrow> u64 result" where
  "frag_now_fix tg g = frag_now_fix_octets tg g"

definition frag_room :: "gas \<Rightarrow> nat result" where
  "frag_room g = deref (the_frchain g) (\<lambda>fc. Inr (obstack_room (frch_obstack fc)))"

definition frag_new :: "target \<Rightarrow> nat \<Rightarrow> gas \<Rightarrow> gas result" where
  "frag_new tg old_frags_var_max_size g =
     deref (the_frchain g) (\<lambda>fc.
     gas_assert (frch_last fc = Some (frag_now g)) (
     bindE (frag_now_fix_octets tg g) (\<lambda>fix.
     let former = frag_now g;
         g1 = upd_frag former (\<lambda>f. f\<lparr>fr_fix := fix\<rparr>) g in
     gas_assert (old_frags_var_max_size \<le> unat fix \<or> now_seg g = absolute_section) (
     let g2 = upd_frag former
                (\<lambda>f. f\<lparr>fr_fix := fix - word_of_nat old_frags_var_max_size\<rparr>) g1 in
     gas_assert (fr_type (frags g2 former) \<noteq> rs_dummy) (
     let ob = snd (obstack_finish (frch_obstack fc)) in
     bindE (frag_alloc tg ob 0 g2) (\<lambda>(ptr, ob', g3).
     let g4 = g3\<lparr>frag_now := ptr\<rparr>;
         g5 = upd_frag ptr (\<lambda>f. f\<lparr>frag_index := get_frag_count g4\<rparr>) g4;
         g6 = upd_frag former (\<lambda>f. f\<lparr>fr_next := Some ptr\<rparr>) g5;
         g7 = upd_frchain (\<lambda>c. c\<lparr>frch_last := Some ptr, frch_obstack := ob'\<rparr>) g6 in
     Inr (upd_frag ptr (\<lambda>f. f\<lparr>fr_next := None, frag_symbol := None, frag_has_hardcode := False,
                              hardcode_size := 0\<rparr>) g7)))))))"

definition mark_insn :: "bool \<Rightarrow> gas \<Rightarrow> gas" where
  "mark_insn t g = (if t then upd_frag (frag_now g)
     (\<lambda>f. f\<lparr>fr_flags := fr_flags f\<lparr>insn_frag := True\<rparr>\<rparr>) g else g)"

text \<open>The loop of \<open>frag_grow\<close>: close the frag and start another until there is room.\<close>

fun frag_grow_loop :: "nat \<Rightarrow> target \<Rightarrow> nat \<Rightarrow> bool \<Rightarrow> gas \<Rightarrow> gas result" where
  "frag_grow_loop 0 tg nchars is_target_insn_frag g = Inl Out_of_fuel"
| "frag_grow_loop (Suc k) tg nchars is_target_insn_frag g =
     bindE (frag_room g) (\<lambda>room.
       if room < nchars then
         bindE (frag_new tg 0 (frag_wane (frag_now g) g)) (\<lambda>g1.
           frag_grow_loop k tg nchars is_target_insn_frag (mark_insn is_target_insn_frag g1))
       else Inr g)"

definition set_chunk_size :: "nat \<Rightarrow> gas \<Rightarrow> gas" where
  "set_chunk_size n = upd_frchain (\<lambda>c. c\<lparr>frch_obstack := (frch_obstack c)\<lparr>chunk_size := n\<rparr>\<rparr>)"

text \<open>The fuel is one more than the iterations possible: an iteration that does not open a new
  chunk uses up room in the current one.\<close>

definition frag_grow :: "target \<Rightarrow> nat \<Rightarrow> gas \<Rightarrow> gas result" where
  "frag_grow tg nchars g =
     deref (the_frchain g) (\<lambda>fc.
     let room = obstack_room (frch_obstack fc) in
     if room < nchars then
       (let newc0 = size_t (if nchars < 0x10000 then 2 * nchars else nchars + 0x10000);
            newc = size_t (newc0 + sizeof_struct_frag tg) in
        if newc < nchars then Inl As_fatal else
        (let oldc = chunk_size (frch_obstack fc);
             g1 = (if newc > oldc then set_chunk_size newc g else g) in
         bindE (frag_now_fix tg g) (\<lambda>fix.
         let is_target_insn_frag = (fiy_dcollect g \<and> insn_frag (fr_flags (frags g (frag_now g)))
               \<and> fix \<noteq> fr_fix (frags g (frag_now g))) in
         bindE (frag_grow_loop (room + 3) tg nchars is_target_insn_frag g1) (\<lambda>g2.
         Inr (set_chunk_size oldc g2)))))
     else Inr g)"

text \<open>\<open>frag_alloc_check\<close>: a chain whose obstack was never begun cannot take data.  \<open>frag_more\<close>
  returns the address of the first octet to write.\<close>

definition frag_alloc_check :: "gas \<Rightarrow> unit result" where
  "frag_alloc_check g = deref (the_frchain g) (\<lambda>fc.
     if chunk_size (frch_obstack fc) = 0 \<or> mri_common_symbol g \<noteq> None then Inl As_bad
     else Inr ())"

definition frag_more :: "target \<Rightarrow> nat \<Rightarrow> gas \<Rightarrow> (nat \<times> gas) result" where
  "frag_more tg nchars g =
     bindE (frag_alloc_check g) (\<lambda>_.
     bindE (frag_grow tg nchars g) (\<lambda>g1.
     deref (the_frchain g1) (\<lambda>fc.
     Inr (next_free (frch_obstack fc),
          upd_frchain (\<lambda>c. c\<lparr>frch_obstack := obstack_blank_fast (frch_obstack c) nchars\<rparr>) g1))))"

definition frag_var_init ::
  "target \<Rightarrow> relax_stateT \<Rightarrow> nat \<Rightarrow> u64 \<Rightarrow> u32 \<Rightarrow> symP option \<Rightarrow> u64 \<Rightarrow> gas \<Rightarrow> gas result" where
  "frag_var_init tg type max_chars var subtype syP offset g =
     frag_new tg max_chars (upd_frag (frag_now g)
       (\<lambda>f. f\<lparr>fr_var := var, fr_type := type, fr_subtype := subtype, fr_symbol := syP,
              fr_offset := offset\<rparr>) g)"

definition frag_var ::
  "target \<Rightarrow> relax_stateT \<Rightarrow> nat \<Rightarrow> u64 \<Rightarrow> u32 \<Rightarrow> symP option \<Rightarrow> u64 \<Rightarrow> gas \<Rightarrow> (nat \<times> gas) result" where
  "frag_var tg type max_chars var subtype syP offset g =
     bindE (frag_grow tg max_chars g) (\<lambda>g1.
     deref (the_frchain g1) (\<lambda>fc.
     bindE (frag_var_init tg type max_chars var subtype syP offset
         (upd_frchain (\<lambda>c. c\<lparr>frch_obstack := obstack_blank_fast (frch_obstack c) max_chars\<rparr>) g1))
       (\<lambda>g2. Inr (next_free (frch_obstack fc), g2))))"

definition frag_variant ::
  "target \<Rightarrow> relax_stateT \<Rightarrow> nat \<Rightarrow> u64 \<Rightarrow> u32 \<Rightarrow> symP option \<Rightarrow> u64 \<Rightarrow> gas \<Rightarrow> (nat \<times> gas) result" where
  "frag_variant tg type max_chars var subtype syP offset g =
     deref (the_frchain g) (\<lambda>fc.
     bindE (frag_var_init tg type max_chars var subtype syP offset g)
       (\<lambda>g2. Inr (next_free (frch_obstack fc), g2)))"

definition frag_align :: "target \<Rightarrow> nat \<Rightarrow> byte \<Rightarrow> u32 \<Rightarrow> gas \<Rightarrow> gas result" where
  "frag_align tg alignment fill_character mx g =
     (if now_seg g = absolute_section then
        (let m = push_bit alignment (NOT 0 :: u64);
             new_off = (abs_section_offset g + NOT m) AND m in
         if mx = 0 \<or> new_off - abs_section_offset g \<le> scast mx
         then Inr (g\<lparr>abs_section_offset := new_off\<rparr>) else Inr g)
      else bindE (frag_var tg rs_align 1 1 mx None (word_of_nat alignment) g) (\<lambda>(p, g1).
             Inr (poke p fill_character g1)))"

definition frag_align_pattern :: "target \<Rightarrow> nat \<Rightarrow> byte list \<Rightarrow> u32 \<Rightarrow> gas \<Rightarrow> gas result" where
  "frag_align_pattern tg alignment fill_pattern mx g =
     (let n_fill = length fill_pattern in
      bindE (frag_var tg rs_align n_fill (word_of_nat n_fill) mx None (word_of_nat alignment) g)
       (\<lambda>(p, g1). Inr (poke_list p fill_pattern g1)))"

text \<open>\<open>frag_align_code\<close>: with the collector on, the frag in front of the new current one is marked
  as an alignment frag; \<open>frag_before\<close> is the walk to it,
  with fuel for the frags that \<open>frag_grow\<close> can have opened in between.\<close>

fun frag_before :: "nat \<Rightarrow> gas \<Rightarrow> fragP option \<Rightarrow> fragP option result" where
  "frag_before 0 g fr = Inl Out_of_fuel"
| "frag_before (Suc k) g fr =
     (case fr of None \<Rightarrow> Inr None
      | Some p \<Rightarrow> if frag_next g p = Some (frag_now g) then Inr (Some p)
                  else frag_before k g (frag_next g p))"

definition MAX_MEM_FOR_RS_ALIGN_CODE :: "nat \<Rightarrow> nat" where
  "MAX_MEM_FOR_RS_ALIGN_CODE alignment = (if alignment \<noteq> 0 then 2 ^ alignment - 1 else 1)"

definition NOP_OPCODE :: byte where
  "NOP_OPCODE = 0x90"

definition frag_align_code :: "target \<Rightarrow> nat \<Rightarrow> u32 \<Rightarrow> gas \<Rightarrow> gas result" where
  "frag_align_code tg alignment mx g =
     (let fr = frag_now g in
      bindE (frag_room g) (\<lambda>room.
      bindE (frag_var tg rs_align_code (MAX_MEM_FOR_RS_ALIGN_CODE alignment) 1 mx None
               (word_of_nat alignment) g) (\<lambda>(p, g1).
      if fiy_dcollect g1 \<and> fr \<noteq> frag_now g1 \<and> \<not> is_finish_subseg g1 then
        bindE (frag_before (room + 5) g1 (Some fr)) (\<lambda>fr'.
        deref fr' (\<lambda>q.
        let g2 = upd_frag q (\<lambda>f. f\<lparr>fr_flags := fr_flags f\<lparr>align_frag := True\<rparr>\<rparr>) g1 in
        gas_assert (\<not> align_frag (fr_flags (frags g2 (frag_now g2))))
          (Inr (poke p NOP_OPCODE g2))))
      else Inr (poke p NOP_OPCODE g1))))"

definition frag_append_1_char :: "target \<Rightarrow> byte \<Rightarrow> gas \<Rightarrow> gas result" where
  "frag_append_1_char tg datum g =
     bindE (frag_alloc_check g) (\<lambda>_.
     deref (the_frchain g) (\<lambda>fc.
     bindE (if obstack_room (frch_obstack fc) \<le> 1
            then frag_new tg 0 (frag_wane (frag_now g) g) else Inr g) (\<lambda>g1.
     deref (the_frchain g1) (\<lambda>fc1.
     bindE (if obstack_room (frch_obstack fc1) < 1
            then obstack_newchunk (chunk_alloc tg) (frch_obstack fc1) 1
            else Inr (frch_obstack fc1)) (\<lambda>ob.
     Inr (poke (next_free ob) datum
       (upd_frchain (\<lambda>c. c\<lparr>frch_obstack := obstack_blank_fast ob 1\<rparr>)
         (g1\<lparr>mem := newchunk_copy (frch_obstack fc1) ob (mem g1)\<rparr>))))))))"

text \<open>The three walks of \<open>frag_offset_fixed_p\<close> and \<open>frag_offset_ignore_align_p\<close> along \<open>fr_next\<close>:
  while the frags satisfy \<open>ok\<close>, their \<open>sz\<close> is added to the offset.  The outer option is
  whether the walk ends, the inner one whether it met the target.\<close>

definition fill_size :: "frag \<Rightarrow> u64" where
  "fill_size f = fr_fix f + fr_offset f * fr_var f"

partial_function (option) frag_walk ::
  "(fragP \<Rightarrow> frag) \<Rightarrow> (frag \<Rightarrow> bool) \<Rightarrow> (frag \<Rightarrow> u64) \<Rightarrow> fragP \<Rightarrow> fragP \<Rightarrow> u64 \<Rightarrow> u64 option option" where
  [code]: "frag_walk st ok sz target p off =
     (if ok (st p) then
        (case fr_next (st p) of None \<Rightarrow> Some None
         | Some q \<Rightarrow> if q = target then Some (Some (off + sz (st p)))
                     else frag_walk st ok sz target q (off + sz (st p)))
      else Some None)"

definition frag_offset_fixed_p :: "(fragP \<Rightarrow> frag) \<Rightarrow> fragP \<Rightarrow> fragP \<Rightarrow> u64 option option" where
  "frag_offset_fixed_p st frag1 frag2 =
     (let off = fr_address (st frag1) - fr_address (st frag2) in
      if frag1 = frag2 then Some (Some off)
      else (case frag_walk st (\<lambda>f. fr_type f = rs_fill) fill_size frag2 frag1 off of
              None \<Rightarrow> None
            | Some (Some o1) \<Rightarrow> Some (Some o1)
            | Some None \<Rightarrow> frag_walk st (\<lambda>f. fr_type f = rs_fill) (\<lambda>f. - fill_size f) frag1 frag2 off))"

definition frag_offset_ignore_align_p :: "(fragP \<Rightarrow> frag) \<Rightarrow> fragP \<Rightarrow> fragP \<Rightarrow> u64 option option" where
  "frag_offset_ignore_align_p st frag1 frag2 =
     (let off = fr_address (st frag1) - fr_address (st frag2) in
      if frag1 = frag2 then Some (Some off)
      else frag_walk st
             (\<lambda>f. fr_type f = rs_fill \<or> fr_type f = rs_align \<or> fr_type f = rs_align_code
                  \<or> fr_type f = rs_align_test)
             (\<lambda>f. if fr_type f = rs_fill then fill_size f else 0) frag2 frag1 off)"

partial_function (option) gtoffset_walk ::
  "(fragP \<Rightarrow> frag) \<Rightarrow> fragP \<Rightarrow> fragP \<Rightarrow> u64 \<Rightarrow> u64 option option" where
  [code]: "gtoffset_walk st frag2 p delta =
     (let delta' = delta + fr_fix (st p) in
      case fr_next (st p) of
        None \<Rightarrow> Some None
      | Some q \<Rightarrow> if q = frag2 then Some (if delta' = 0 then None else Some delta')
                  else gtoffset_walk st frag2 q delta')"

definition frag_gtoffset_p ::
  "(fragP \<Rightarrow> frag) \<Rightarrow> u64 \<Rightarrow> fragP \<Rightarrow> u64 \<Rightarrow> fragP \<Rightarrow> u64 option option" where
  "frag_gtoffset_p st off2 frag2 off1 frag1 =
     (if frag2 = frag1 \<or> off1 > fr_fix (st frag1) then Some None
      else map_option (map_option (\<lambda>delta. off2 - off1 - delta))
             (gtoffset_walk st frag2 frag1 (off2 - off1)))"

section \<open>The chain invariant\<close>

text \<open>A frag structure is located in an obstack when it lies in one of its chunks and, in the
  current chunk, before the object that is growing.\<close>

definition located :: "target \<Rightarrow> obstack \<Rightarrow> fragP \<Rightarrow> bool" where
  "located tg ob p \<longleftrightarrow>
     (chunk ob + contents_off \<le> p \<and> p + sizeof_struct_frag tg \<le> object_base ob)
     \<or> (\<exists>(c, l) \<in> set (prev_chunks ob). c \<le> p \<and> p + sizeof_struct_frag tg \<le> l)"

definition target_ok :: "target \<Rightarrow> bool" where
  "target_ok tg \<longleftrightarrow> 0 < sizeof_struct_frag tg \<and> small (sizeof_struct_frag tg + 100)
     \<and> malloc_law (chunk_alloc tg)"

definition ob_ok :: "target \<Rightarrow> obstack \<Rightarrow> bool" where
  "ob_ok tg ob \<longleftrightarrow> obstack_ok ob \<and> chunks_ok (chunk_alloc tg) ob \<and> small (chunk_size ob)
     \<and> chunk_size ob \<noteq> 0"

text \<open>\<open>chain_inv tg g fc ids\<close>: the current chain \<open>fc\<close> consists of the frags \<open>ids\<close>, all located
  in its obstack; \<open>frag_now\<close> is the last of them and its literal is the growing object.\<close>

definition chain_inv :: "target \<Rightarrow> gas \<Rightarrow> frchain \<Rightarrow> fragP list \<Rightarrow> bool" where
  "chain_inv tg g fc ids \<longleftrightarrow>
     the_frchain g = Some fc \<and> now_seg g \<noteq> absolute_section
   \<and> chain (frag_next g) (frch_root fc) ids \<and> ids \<noteq> [] \<and> distinct ids
   \<and> frch_last fc = Some (last ids) \<and> frag_now g = last ids
   \<and> ob_ok tg (frch_obstack fc) \<and> object_base (frch_obstack fc) = frag_now g + sizeof_struct_frag tg
   \<and> (\<forall>p \<in> set ids. located tg (frch_obstack fc) p)"

lemma located_mono:
  assumes "located tg ob p" and "chunk ob' = chunk ob" and "prev_chunks ob' = prev_chunks ob"
    and "object_base ob \<le> object_base ob'"
  shows "located tg ob' p"
  using assms by (auto simp: located_def)

lemma ob_ok_finish: "ob_ok tg ob \<Longrightarrow> ob_ok tg (snd (obstack_finish ob))"
  by (simp add: ob_ok_def obstack_finish_ok chunks_ok_def live_chunks_def)

text \<open>Two structures in different live chunks are different.\<close>

lemma located_neq_prev:
  assumes "chunks_ok cf ob" and "(c, l) \<in> set (prev_chunks ob)"
    and "c \<le> p" and "p + s \<le> l" and "0 < s"
    and "chunk ob \<le> q" and "q + s \<le> chunk_limit ob"
  shows "p \<noteq> q"
proof -
  have "chunk_limit ob \<le> c \<or> l \<le> chunk ob"
    using assms(1,2) unfolding chunks_ok_def live_chunks_def by auto
  with assms(3-7) show ?thesis by auto
qed

text \<open>An area of finished objects: nothing is written there any more.\<close>

definition kept :: "obstack \<Rightarrow> nat \<Rightarrow> nat \<Rightarrow> bool" where
  "kept ob a b \<longleftrightarrow> (chunk ob \<le> a \<and> b \<le> object_base ob)
     \<or> (\<exists>(c, l) \<in> set (prev_chunks ob). c \<le> a \<and> b \<le> l)"

lemma kept_mono:
  "kept ob a b \<Longrightarrow> chunk ob' = chunk ob \<Longrightarrow> prev_chunks ob' = prev_chunks ob \<Longrightarrow>
   object_base ob \<le> object_base ob' \<Longrightarrow> kept ob' a b"
  by (auto simp: kept_def)

lemma kept_live:
  assumes "kept ob a b" and "obstack_ok ob" and "prev_chunks ob' = live_chunks ob"
  shows "kept ob' a b"
  using assms by (fastforce simp: kept_def live_chunks_def obstack_ok_def)

lemma kept_disjoint:
  assumes "chunks_ok cf ob" and "kept ob a b" and "a \<le> x" and "x < b" and "object_base ob \<le> x" and "obstack_ok ob"
  shows "chunk_limit ob \<le> x"
proof (rule ccontr)
  assume n: "\<not> chunk_limit ob \<le> x"
  have "\<not> b \<le> object_base ob" using assms(4,5) by simp
  then obtain c l where cl: "(c, l) \<in> set (prev_chunks ob)" "c \<le> a" "b \<le> l"
    using assms(2) by (auto simp: kept_def)
  have "chunk_limit ob \<le> c \<or> l \<le> chunk ob"
    using assms(1) cl(1) unfolding chunks_ok_def live_chunks_def by auto
  moreover have "chunk ob \<le> object_base ob" using assms(6) by (simp add: obstack_ok_def)
  ultimately show False using assms(3-5) cl(2,3) n by auto
qed

text \<open>What a frag allocation does to an obstack: a fresh structure, everything located before
  still located, and either less room in the same chunk or a new chunk.\<close>

definition alloc_effect :: "target \<Rightarrow> obstack \<Rightarrow> fragP \<Rightarrow> obstack \<Rightarrow> bool" where
  "alloc_effect tg ob ptr ob' \<longleftrightarrow>
     ob_ok tg ob' \<and> ob_id ob' = ob_id ob \<and> object_base ob' = ptr + sizeof_struct_frag tg
   \<and> next_free ob' = ptr + sizeof_struct_frag tg \<and> chunk_size ob' = chunk_size ob
   \<and> located tg ob' ptr \<and> (\<forall>p. located tg ob p \<longrightarrow> located tg ob' p \<and> p \<noteq> ptr)
   \<and> (\<forall>a b. kept ob a b \<longrightarrow> kept ob' a b) \<and> kept ob' (object_base ob) (next_free ob)
   \<and> (obstack_room ob' + sizeof_struct_frag tg \<le> obstack_room ob
      \<or> max (sizeof_struct_frag tg + 100) (chunk_size ob)
          \<le> obstack_room ob' + sizeof_struct_frag tg + contents_off)"

lemma frag_alloc_same_chunk:
  assumes tg: "target_ok tg" and ok: "ob_ok tg ob1" and e: "object_base ob1 = next_free ob1"
    and room: "sizeof_struct_frag tg \<le> obstack_room ob1"
  defines "b \<equiv> ob1\<lparr>alignment_mask := 0\<rparr>"
  defines "ob' \<equiv> (snd (obstack_finish (obstack_blank_fast b (sizeof_struct_frag tg))))
                    \<lparr>alignment_mask := alignment_mask ob1\<rparr>"
  shows "obstack_alloc (chunk_alloc tg) b (sizeof_struct_frag tg) =
      Inr (next_free ob1, snd (obstack_finish (obstack_blank_fast b (sizeof_struct_frag tg))))"
    and "alloc_effect tg ob1 (next_free ob1) ob'"
proof -
  let ?s = "sizeof_struct_frag tg"
  have b: "obstack_ok b" "alignment_mask b = 0" "object_base b = next_free b" "?s \<le> obstack_room b"
    using ok e room by (simp_all add: b_def ob_ok_def obstack_ok_def obstack_room_def)
  note A = obstack_alloc_same_chunk [OF b]
  show "obstack_alloc (chunk_alloc tg) b ?s =
      Inr (next_free ob1, snd (obstack_finish (obstack_blank_fast b ?s)))"
    using A(1) by (simp add: b_def)
  have f: "next_free ob' = next_free ob1 + ?s" "object_base ob' = next_free ob1 + ?s"
    "chunk ob' = chunk ob1" "chunk_limit ob' = chunk_limit ob1" "prev_chunks ob' = prev_chunks ob1"
    "n_chunks ob' = n_chunks ob1" "ob_id ob' = ob_id ob1" "chunk_size ob' = chunk_size ob1"
    using A(2) by (simp_all add: ob'_def b_def obstack_blank_fast_def)
  have o1: "obstack_ok ob1" and c1: "chunks_ok (chunk_alloc tg) ob1" and s0: "0 < ?s"
    using ok tg by (simp_all add: ob_ok_def target_ok_def)
  have "ob_ok tg ob'"
    using ok A(3) f by (simp add: ob_ok_def chunks_ok_def live_chunks_def ob'_def obstack_ok_def)
  moreover have "located tg ob' (next_free ob1)"
    using f o1 by (auto simp: located_def obstack_ok_def)
  moreover have "located tg ob' p \<and> p \<noteq> next_free ob1" if p: "located tg ob1 p" for p
  proof
    show "located tg ob' p" using located_mono [OF p f(3,5)] f e by simp
    show "p \<noteq> next_free ob1"
    proof (cases "p + ?s \<le> object_base ob1")
      case True
      then show ?thesis using s0 e by simp
    next
      case False
      with p obtain c l where cl: "(c, l) \<in> set (prev_chunks ob1)" "c \<le> p" "p + ?s \<le> l"
        by (auto simp: located_def)
      have "chunk ob1 \<le> next_free ob1" "next_free ob1 + ?s \<le> chunk_limit ob1"
        using o1 room by (auto simp: obstack_ok_def obstack_room_def)
      then show ?thesis by (rule located_neq_prev [OF c1 cl s0])
    qed
  qed
  moreover have "kept ob1 a b \<Longrightarrow> kept ob' a b" for a b
    using f e by (elim kept_mono) simp_all
  moreover have "kept ob' (object_base ob1) (next_free ob1)"
    using f o1 by (auto simp: kept_def obstack_ok_def)
  moreover have "obstack_room ob' + ?s = obstack_room ob1"
    using f(1,4) room by (simp add: obstack_room_def)
  ultimately show "alloc_effect tg ob1 (next_free ob1) ob'"
    using f(1,2,7,8) by (simp add: alloc_effect_def)
qed

lemma frag_alloc_new_chunk:
  assumes tg: "target_ok tg" and ok: "ob_ok tg ob1" and e: "object_base ob1 = next_free ob1"
    and m: "maybe_empty_object ob1" and room: "obstack_room ob1 < sizeof_struct_frag tg"
  defines "b \<equiv> ob1\<lparr>alignment_mask := 0\<rparr>"
  defines "fo \<equiv> fresh_obstack (chunk_alloc tg) b (sizeof_struct_frag tg)"
  defines "ob' \<equiv> (snd (obstack_finish (obstack_blank_fast fo (sizeof_struct_frag tg))))
                    \<lparr>alignment_mask := alignment_mask ob1\<rparr>"
  shows "obstack_alloc (chunk_alloc tg) b (sizeof_struct_frag tg) =
      Inr (next_free fo, snd (obstack_finish (obstack_blank_fast fo (sizeof_struct_frag tg))))"
    and "alloc_effect tg ob1 (next_free fo) ob'"
proof -
  let ?s = "sizeof_struct_frag tg"
  have sm: "small ?s" "small (chunk_size ob1)" "small (fresh_chunk_size b ?s)" "0 < ?s"
    using tg ok by (auto simp: target_ok_def ob_ok_def small_def fresh_chunk_size_def b_def)
  have b: "obstack_ok b" "alignment_mask b = 0" "object_base b = next_free b"
    "maybe_empty_object b" "small ?s" "small (chunk_size b)" "obstack_room b < ?s"
    using ok e m room sm by (simp_all add: b_def ob_ok_def obstack_ok_def obstack_room_def)
  note A = obstack_alloc_new_chunk [OF b, where cf = "chunk_alloc tg", folded fo_def]
  show "obstack_alloc (chunk_alloc tg) b ?s =
      Inr (next_free fo, snd (obstack_finish (obstack_blank_fast fo ?s)))"
    using A(1) .
  have fo: "chunk fo + contents_off = next_free fo" "chunk_limit fo = chunk fo + fresh_chunk_size b ?s"
    "prev_chunks fo = live_chunks ob1" "chunk_size fo = chunk_size ob1" "ob_id fo = ob_id ob1"
    by (simp_all add: fo_def fresh_obstack_def Let_def live_chunks_def b_def)
  have f: "next_free ob' = next_free fo + ?s" "object_base ob' = next_free fo + ?s"
    "chunk ob' = chunk fo" "chunk_limit ob' = chunk_limit fo" "prev_chunks ob' = prev_chunks fo"
    "n_chunks ob' = n_chunks fo" "ob_id ob' = ob_id fo" "chunk_size ob' = chunk_size ob1"
    using A(2) fo by (simp_all add: ob'_def obstack_blank_fast_def)
  have "chunks_ok (chunk_alloc tg) b"
    using ok by (simp add: ob_ok_def chunks_ok_def live_chunks_def b_def)
  then have cf: "chunks_ok (chunk_alloc tg) fo"
    unfolding fo_def using tg sm(3) by (intro chunks_ok_fresh) (simp_all add: target_ok_def)
  then have co: "chunks_ok (chunk_alloc tg) ob'"
    using f by (simp add: chunks_ok_def live_chunks_def)
  have "ob_ok tg ob'"
    using co A(3) sm(2) f ok by (simp add: ob_ok_def ob'_def obstack_ok_def)
  moreover have "located tg ob' (next_free fo)"
    using f fo by (auto simp: located_def)
  moreover have "located tg ob' p \<and> p \<noteq> next_free fo" if p: "located tg ob1 p" for p
  proof -
    obtain c l where cl: "(c, l) \<in> set (live_chunks ob1)" "c \<le> p" "p + ?s \<le> l"
      using p ok by (fastforce simp: located_def live_chunks_def ob_ok_def obstack_ok_def)
    have "?s \<le> fresh_chunk_size b ?s - contents_off"
      by (simp add: fresh_chunk_size_def contents_off_def)
    then have "p \<noteq> next_free fo"
      using located_neq_prev [OF co _ cl(2,3) sm(4)] cl(1) f fo
      by (auto simp: contents_off_def fresh_chunk_size_def)
    moreover have "located tg ob' p"
      using cl f fo by (auto simp: located_def)
    ultimately show ?thesis by simp
  qed
  moreover have "obstack_ok ob1" using ok by (simp add: ob_ok_def)
  then have "kept ob' (object_base ob1) (next_free ob1)" "kept ob1 a b \<Longrightarrow> kept ob' a b" for a b
    using f fo kept_live [of ob1 a b ob'] by (auto simp: kept_def live_chunks_def obstack_ok_def)
  moreover have "obstack_room ob' + ?s + contents_off = fresh_chunk_size b ?s"
    using f(1,4) fo(1,2) by (simp add: obstack_room_def fresh_chunk_size_def contents_off_def)
  ultimately show "alloc_effect tg ob1 (next_free fo) ob'"
    using f(1,2,7,8) fo(5) by (simp add: alloc_effect_def fresh_chunk_size_def b_def)
qed

lemma alloc_effect_finish:
  assumes "ob_ok tg ob" and "alloc_effect tg (snd (obstack_finish ob)) ptr ob'"
  shows "alloc_effect tg ob ptr ob'"
proof -
  have "obstack_ok ob" using assms(1) by (simp add: ob_ok_def)
  then have "next_free ob \<le> next_free (snd (obstack_finish ob))"
    and "object_base ob \<le> object_base (snd (obstack_finish ob))"
    using obstack_finish_next_free [of ob] by (auto simp: obstack_ok_def)
  moreover have "kept (snd (obstack_finish ob)) (object_base ob) (next_free ob)"
    using \<open>obstack_ok ob\<close> obstack_finish_next_free [of ob] by (auto simp: kept_def obstack_ok_def)
  ultimately show ?thesis
    using assms(2) located_mono [of tg ob _ "snd (obstack_finish ob)"] kept_mono [of ob _ _ "snd (obstack_finish ob)"]
    by (auto simp: alloc_effect_def obstack_room_def)
qed

lemma frag_alloc_ob_spec:
  assumes tg: "target_ok tg" and ok: "ob_ok tg ob" and e: "object_base ob = next_free ob"
  shows "\<exists>ptr ob'. frag_alloc_ob tg ob 0 = Inr (ptr, ob') \<and> alloc_effect tg ob ptr ob'"
proof -
  let ?ob1 = "snd (obstack_finish ob)"
  have first: "obstack_alloc (chunk_alloc tg) ob 0 = Inr (object_base ob, ?ob1)"
    by (simp add: obstack_alloc_def obstack_blank_def obstack_blank_fast_def prod_eq_iff)
  have 1: "ob_ok tg ?ob1" "object_base ?ob1 = next_free ?ob1" "maybe_empty_object ?ob1"
    using ob_ok_finish [OF ok] obstack_finish_empty e by simp_all
  show ?thesis
  proof (cases "sizeof_struct_frag tg \<le> obstack_room ?ob1")
    case True
    note S = frag_alloc_same_chunk [OF tg 1(1,2) True]
    show ?thesis
      using S(1) alloc_effect_finish [OF ok S(2)] first by (simp add: frag_alloc_ob_def Let_def)
  next
    case False
    then have "obstack_room ?ob1 < sizeof_struct_frag tg" by simp
    note S = frag_alloc_new_chunk [OF tg 1 this]
    show ?thesis
      using S(1) alloc_effect_finish [OF ok S(2)] first by (simp add: frag_alloc_ob_def Let_def)
  qed
qed

text \<open>The state after a frag \<open>ptr\<close> with obstack \<open>ob'\<close> has been started behind \<open>frag_now\<close>.\<close>

definition started :: "u64 \<Rightarrow> fragP \<Rightarrow> obstack \<Rightarrow> gas \<Rightarrow> gas" where
  "started fix ptr ob' g =
     upd_frchain (\<lambda>c. c\<lparr>frch_last := Some ptr, frch_obstack := ob'\<rparr>)
       (g\<lparr>frags := (frags g)(frag_now g := (frags g (frag_now g))\<lparr>fr_fix := fix, fr_next := Some ptr\<rparr>,
                             ptr := zero_frag\<lparr>frag_index := totalfrags g + 1\<rparr>),
          totalfrags := totalfrags g + 1, frag_now := ptr\<rparr>)"

lemma live_size:
  assumes "ob_ok tg ob"
  shows "next_free ob - object_base ob < 2 ^ 60"
proof -
  have "(chunk ob, chunk_limit ob) \<in> set (live_chunks ob)" by (simp add: live_chunks_def)
  with assms obtain m where "small m" "chunk_limit ob = chunk ob + m"
    unfolding ob_ok_def by (metis chunks_okE)
  with assms show ?thesis by (auto simp: ob_ok_def obstack_ok_def small_def)
qed

lemma frag_now_fix_inv:
  assumes "chain_inv tg g fc ids"
  shows "frag_now_fix_octets tg g = Inr (word_of_nat (obstack_object_size (frch_obstack fc)))"
    and "unat (word_of_nat (obstack_object_size (frch_obstack fc)) :: u64)
           = obstack_object_size (frch_obstack fc)"
proof -
  let ?ob = "frch_obstack fc"
  have inv: "the_frchain g = Some fc" "now_seg g \<noteq> absolute_section" "ob_ok tg ?ob"
    "object_base ?ob = frag_now g + sizeof_struct_frag tg"
    using assms by (simp_all add: chain_inv_def)
  have "object_base ?ob \<le> next_free ?ob" using inv(3) by (simp add: ob_ok_def obstack_ok_def)
  then show "frag_now_fix_octets tg g = Inr (word_of_nat (obstack_object_size ?ob))"
    using inv by (simp add: frag_now_fix_octets_def obstack_object_size_def of_nat_diff)
  show "unat (word_of_nat (obstack_object_size ?ob) :: u64) = obstack_object_size ?ob"
    using live_size [OF inv(3)] by (simp add: obstack_object_size_def unat_of_nat)
qed

lemma fun_upd_alternate: "a \<noteq> b \<Longrightarrow> f(a := x, b := y, a := z) = f(a := z, b := y)"
  by auto

lemma upd_frag_twice: "upd_frag p f (upd_frag p h g) = upd_frag p (\<lambda>x. f (h x)) g"
  by (simp add: upd_frag_def)

lemma zero_frag_started:
  "zero_frag\<lparr>frag_index := k, fr_next := None, frag_symbol := None, frag_has_hardcode := False,
     hardcode_size := 0\<rparr> = zero_frag\<lparr>frag_index := k\<rparr>"
  by (simp add: zero_frag_def)

lemma frag_new_link:
  fixes g :: gas and y :: u64
  assumes "ptr \<noteq> frag_now g"
  defines "h \<equiv> upd_frag (frag_now g) (\<lambda>f. f\<lparr>fr_fix := y\<rparr>) g"
  defines "h3 \<equiv> h\<lparr>frags := (frags h)(ptr := zero_frag), totalfrags := totalfrags h + 1, frag_now := ptr\<rparr>"
  shows "upd_frag ptr (\<lambda>f. f\<lparr>fr_next := None, frag_symbol := None, frag_has_hardcode := False,
                              hardcode_size := 0\<rparr>)
    (upd_frchain (\<lambda>c. c\<lparr>frch_last := Some ptr, frch_obstack := ob'\<rparr>)
      (upd_frag (frag_now g) (\<lambda>f. f\<lparr>fr_next := Some ptr\<rparr>)
        (upd_frag ptr (\<lambda>f. f\<lparr>frag_index := get_frag_count h3\<rparr>) h3)))
   = started y ptr ob' g"
  unfolding upd_frag_upd_frchain started_def
  using assms(1)
  by (intro arg_cong [where f = "upd_frchain _"] gas.equality)
    (simp_all add: h_def h3_def upd_frag_def get_frag_count_def fun_upd_alternate zero_frag_started)

lemma frag_new_eq:
  assumes tg: "target_ok tg" and inv: "chain_inv tg g fc ids"
    and ty: "fr_type (frags g (frag_now g)) \<noteq> rs_dummy"
    and n: "n \<le> obstack_object_size (frch_obstack fc)"
  shows "\<exists>ptr ob'. alloc_effect tg (snd (obstack_finish (frch_obstack fc))) ptr ob' \<and> ptr \<noteq> frag_now g
    \<and> frag_new tg n g = Inr (started (word_of_nat (obstack_object_size (frch_obstack fc) - n)) ptr ob' g)"
proof -
  let ?ob = "snd (obstack_finish (frch_obstack fc))"
  have i: "the_frchain g = Some fc" "frch_last fc = Some (frag_now g)" "ob_ok tg (frch_obstack fc)"
    "located tg (frch_obstack fc) (frag_now g)"
    using inv by (auto simp: chain_inv_def)
  obtain ptr ob' where A: "frag_alloc_ob tg ?ob 0 = Inr (ptr, ob')" "alloc_effect tg ?ob ptr ob'"
    using frag_alloc_ob_spec [OF tg ob_ok_finish [OF i(3)]] by auto
  have "object_base (frch_obstack fc) \<le> object_base ?ob"
    using i(3) obstack_finish_next_free [of "frch_obstack fc"]
    by (auto simp: ob_ok_def obstack_ok_def)
  then have "located tg ?ob (frag_now g)"
    by (intro located_mono [OF i(4)]) simp_all
  then have ne: "ptr \<noteq> frag_now g" using A(2) by (auto simp: alloc_effect_def)
  have d: "word_of_nat (obstack_object_size (frch_obstack fc)) - word_of_nat n
      = (word_of_nat (obstack_object_size (frch_obstack fc) - n) :: u64)"
    using n by (simp add: of_nat_diff)
  have al: "frag_alloc tg ?ob 0 h = Inr (ptr, ob', h\<lparr>frags := (frags h)(ptr := zero_frag),
      totalfrags := totalfrags h + 1\<rparr>)" for h
    using A(1) by (simp add: frag_alloc_def)
  have "frag_new tg n g = Inr (started (word_of_nat (obstack_object_size (frch_obstack fc)) - word_of_nat n) ptr ob' g)"
    using i(1,2) n ty frag_now_fix_inv [OF inv] frag_new_link [OF ne]
    by (simp add: frag_new_def gas_assert_def upd_frag_twice al frags_upd_frag Let_def)
  then have "frag_new tg n g = Inr (started (word_of_nat (obstack_object_size (frch_obstack fc) - n)) ptr ob' g)"
    unfolding d .
  with A(2) ne show ?thesis by blast
qed

text \<open>Updates that leave the links alone keep the chain.\<close>

lemma frag_next_upd_frag:
  "(\<And>x. fr_next (f x) = fr_next x) \<Longrightarrow> frag_next (upd_frag p f g) = frag_next g"
  by (simp add: frag_next_def frags_upd_frag fun_eq_iff)

lemma chain_inv_upd_frag:
  "(\<And>x. fr_next (f x) = fr_next x) \<Longrightarrow> chain_inv tg (upd_frag p f g) fc ids \<longleftrightarrow> chain_inv tg g fc ids"
  by (simp add: chain_inv_def frag_next_upd_frag)

lemma chain_inv_set_chunk_size:
  assumes "chain_inv tg g fc ids" and "small n" and "n \<noteq> 0"
  shows "chain_inv tg (set_chunk_size n g)
    (fc\<lparr>frch_obstack := (frch_obstack fc)\<lparr>chunk_size := n\<rparr>\<rparr>) ids"
proof -
  have "the_frchain (set_chunk_size n g) = Some (fc\<lparr>frch_obstack := (frch_obstack fc)\<lparr>chunk_size := n\<rparr>\<rparr>)"
    using assms(1) unfolding set_chunk_size_def chain_inv_def by (intro the_frchain_upd) auto
  then show ?thesis
    using assms by (auto simp: chain_inv_def set_chunk_size_def ob_ok_def obstack_ok_def
        chunks_ok_def live_chunks_def located_def)
qed

lemma started_chain_inv:
  assumes inv: "chain_inv tg g fc ids" and eff: "alloc_effect tg (frch_obstack fc) ptr ob'"
  shows "chain_inv tg (started y ptr ob' g) (fc\<lparr>frch_last := Some ptr, frch_obstack := ob'\<rparr>) (ids @ [ptr])"
proof -
  have i: "the_frchain g = Some fc" "now_seg g \<noteq> absolute_section" "ids \<noteq> []" "distinct ids"
    "chain (frag_next g) (frch_root fc) ids" "frag_now g = last ids"
    "\<forall>p \<in> set ids. located tg (frch_obstack fc) p"
    using inv by (auto simp: chain_inv_def)
  have new: "ptr \<notin> set ids" using i(7) eff by (auto simp: alloc_effect_def)
  obtain xs l where ids: "ids = xs @ [l]" using i(3) by (metis rev_exhaust)
  have nx: "frag_next (started y ptr ob' g) = (frag_next g)(ptr := None, l := Some ptr)"
    using ids i(6) new by (auto simp: frag_next_def started_def zero_frag_def fun_eq_iff)
  have "chain ((frag_next g)(ptr := None)) (frch_root fc) (xs @ [l])"
    using i(5) new ids by (subst chain_upd) auto
  then have "chain (frag_next (started y ptr ob' g)) (frch_root fc) (xs @ [l] @ [ptr])"
    unfolding nx using i(4) new ids by (intro chain_snoc_link) auto
  moreover have "the_frchain (started y ptr ob' g) = Some (fc\<lparr>frch_last := Some ptr, frch_obstack := ob'\<rparr>)"
  proof -
    have "the_frchain (g\<lparr>frags := F, totalfrags := n, frag_now := q\<rparr>) = Some fc" for F n q
      using i(1) by (auto simp: the_frchain_def split: option.splits)
    then show ?thesis unfolding started_def by (intro the_frchain_upd) auto
  qed
  moreover have "now_seg (started y ptr ob' g) \<noteq> absolute_section" "frag_now (started y ptr ob' g) = ptr"
    using i(2) by (simp_all add: started_def)
  ultimately show ?thesis
    using i(4,7) new ids eff by (auto simp: chain_inv_def alloc_effect_def)
qed

lemma frag_new_step:
  assumes tg: "target_ok tg" and inv: "chain_inv tg g fc ids"
    and ty: "fr_type (frags g (frag_now g)) \<noteq> rs_dummy"
    and n: "n \<le> obstack_object_size (frch_obstack fc)"
  shows "\<exists>ptr ob'. alloc_effect tg (frch_obstack fc) ptr ob' \<and> ptr \<notin> set ids
    \<and> frag_new tg n g = Inr (started (word_of_nat (obstack_object_size (frch_obstack fc) - n)) ptr ob' g)
    \<and> chain_inv tg (started (word_of_nat (obstack_object_size (frch_obstack fc) - n)) ptr ob' g)
        (fc\<lparr>frch_last := Some ptr, frch_obstack := ob'\<rparr>) (ids @ [ptr])"
proof -
  obtain ptr ob' where A: "alloc_effect tg (snd (obstack_finish (frch_obstack fc))) ptr ob'"
    "frag_new tg n g = Inr (started (word_of_nat (obstack_object_size (frch_obstack fc) - n)) ptr ob' g)"
    using frag_new_eq [OF assms] by blast
  have "ob_ok tg (frch_obstack fc)" using inv by (simp add: chain_inv_def)
  from alloc_effect_finish [OF this A(1)] have eff: "alloc_effect tg (frch_obstack fc) ptr ob'" .
  with inv have "ptr \<notin> set ids" by (auto simp: chain_inv_def alloc_effect_def)
  with eff A(2) started_chain_inv [OF inv eff] show ?thesis by blast
qed

section \<open>Growing\<close>

text \<open>What the growth loop leaves: the frags that were open before are closed with their octets,
  every frag it opened carries the instruction flag \<open>t\<close>, and nothing else has changed.\<close>

definition same_context :: "gas \<Rightarrow> gas \<Rightarrow> bool" where
  "same_context g g' \<longleftrightarrow> mem g' = mem g \<and> syms g' = syms g \<and> now_seg g' = now_seg g
   \<and> now_subseg g' = now_subseg g \<and> frchain_now g' = frchain_now g \<and> fiy_dcollect g' = fiy_dcollect g
   \<and> is_finish_subseg g' = is_finish_subseg g \<and> mri_common_symbol g' = mri_common_symbol g"

lemma same_context_upd_frag [simp]: "same_context g (upd_frag p f h) = same_context g h"
  by (simp add: same_context_def upd_frag_def)

lemma same_context_upd_frchain [simp]: "same_context g (upd_frchain f h) = same_context g h"
  by (auto simp: same_context_def upd_frchain_def split: option.split prod.split)

lemma same_context_started [simp]: "same_context g (started y ptr ob' h) = same_context g h"
  by (simp add: started_def) (simp add: same_context_def)

lemma same_context_refl [simp]: "same_context g g"
  by (simp add: same_context_def)

lemma same_context_trans: "same_context g h \<Longrightarrow> same_context h k \<Longrightarrow> same_context g k"
  by (simp add: same_context_def)

definition grown :: "bool \<Rightarrow> gas \<Rightarrow> frchain \<Rightarrow> fragP list \<Rightarrow> gas \<Rightarrow> frchain \<Rightarrow> fragP list \<Rightarrow> bool" where
  "grown t g fc ids g' fc' new \<longleftrightarrow>
     same_context g g' \<and> chunk_size (frch_obstack fc') = chunk_size (frch_obstack fc)
   \<and> (\<forall>p \<in> set (butlast ids). frags g' p = frags g p)
   \<and> fr_flags (frags g' (last ids)) = fr_flags (frags g (last ids))
   \<and> (\<forall>p \<in> set new. insn_frag (fr_flags (frags g' p)) = t)
   \<and> (if new = [] then g' = g \<and> fc' = fc
      else obstack_object_size (frch_obstack fc') = 0
         \<and> fr_fix (frags g' (last ids)) = word_of_nat (obstack_object_size (frch_obstack fc))
         \<and> fr_type (frags g' (last ids)) = rs_fill \<and> fr_var (frags g' (last ids)) = 0)"

lemma grow_step:
  assumes tg: "target_ok tg" and inv: "chain_inv tg g fc ids"
  shows "\<exists>g1 ptr fc1. frag_new tg 0 (frag_wane (frag_now g) g) = Inr g1
    \<and> chain_inv tg (mark_insn t g1) fc1 (ids @ [ptr])
    \<and> alloc_effect tg (frch_obstack fc) ptr (frch_obstack fc1)
    \<and> grown t g fc ids (mark_insn t g1) fc1 [ptr]"
proof -
  let ?g = "frag_wane (frag_now g) g"
  have i: "frag_now g = last ids" "distinct ids" "ids \<noteq> []"
    using inv by (simp_all add: chain_inv_def)
  have w: "chain_inv tg ?g fc ids" "fr_type (frags ?g (frag_now ?g)) \<noteq> rs_dummy"
    using inv by (simp_all add: frag_wane_def chain_inv_upd_frag wane_def frags_upd_frag)
  obtain ptr ob' where A: "alloc_effect tg (frch_obstack fc) ptr ob'" "ptr \<notin> set ids"
    "frag_new tg 0 ?g = Inr (started (word_of_nat (obstack_object_size (frch_obstack fc))) ptr ob' ?g)"
    "chain_inv tg (started (word_of_nat (obstack_object_size (frch_obstack fc))) ptr ob' ?g)
        (fc\<lparr>frch_last := Some ptr, frch_obstack := ob'\<rparr>) (ids @ [ptr])"
    using frag_new_step [OF tg w, of 0] by auto
  let ?s = "started (word_of_nat (obstack_object_size (frch_obstack fc))) ptr ob' ?g"
  have now: "frag_now ?s = ptr"
    by (simp add: started_def)
  have nl: "last ids \<noteq> ptr" "last ids \<in> set ids" using A(2) i(3) by auto
  have bl: "p \<noteq> last ids \<and> p \<noteq> ptr" if "p \<in> set (butlast ids)" for p
    using that i(2,3) A(2) by (metis append_butlast_last_id distinct_butlast in_set_butlastD
        not_distinct_conv_prefix)
  have fr: "frags ?s q = (if q = ptr then zero_frag\<lparr>frag_index := totalfrags g + 1\<rparr>
      else if q = last ids then (wane (frags g q))
         \<lparr>fr_fix := word_of_nat (obstack_object_size (frch_obstack fc)), fr_next := Some ptr\<rparr>
      else frags g q)" for q
    using i(1) by (simp add: started_def frag_wane_def frags_upd_frag)
  have ci: "chain_inv tg (mark_insn t ?s) (fc\<lparr>frch_last := Some ptr, frch_obstack := ob'\<rparr>) (ids @ [ptr])"
    using A(4) by (simp add: mark_insn_def chain_inv_upd_frag)
  have ob: "obstack_object_size ob' = 0" "chunk_size ob' = chunk_size (frch_obstack fc)"
    using A(1) by (simp_all add: alloc_effect_def obstack_object_size_def)
  have "same_context g (mark_insn t ?s)"
    by (simp add: mark_insn_def frag_wane_def)
  moreover have "frags (mark_insn t ?s) q = frags ?s q" if "q \<noteq> ptr" for q
    using that by (simp add: mark_insn_def frags_upd_frag now)
  moreover have "insn_frag (fr_flags (frags (mark_insn t ?s) ptr)) = t"
    by (simp add: mark_insn_def frags_upd_frag now fr zero_frag_def no_flags_def)
  ultimately have "grown t g fc ids (mark_insn t ?s) (fc\<lparr>frch_last := Some ptr, frch_obstack := ob'\<rparr>) [ptr]"
    using ob nl(1) bl unfolding grown_def by (simp add: fr wane_def)
  then show ?thesis using A(1,3) ci by fastforce
qed

lemma grown_trans:
  assumes "grown t g fc ids g1 fc1 [ptr]" and "grown t g1 fc1 (ids @ [ptr]) g2 fc2 new"
    and "ids \<noteq> []" and "distinct ids"
  shows "grown t g fc ids g2 fc2 (ptr # new)"
proof -
  have "set (butlast (ids @ [ptr])) = set ids" "last ids \<in> set ids" using assms(3) by simp_all
  moreover have "p \<in> set ids" if "p \<in> set (butlast ids)" for p using that by (rule in_set_butlastD)
  ultimately show ?thesis
    using assms(1,2) by (auto simp: grown_def intro: same_context_trans split: if_splits)
qed

lemma frag_grow_loop_spec:
  assumes tg: "target_ok tg"
  shows "chain_inv tg g fc ids \<Longrightarrow> 0 < fuel \<Longrightarrow>
     (obstack_room (frch_obstack fc) < nchars \<Longrightarrow> obstack_room (frch_obstack fc) + 2 \<le> fuel) \<Longrightarrow>
     nchars + sizeof_struct_frag tg + contents_off
        \<le> max (sizeof_struct_frag tg + 100) (chunk_size (frch_obstack fc)) \<Longrightarrow>
     \<exists>g' fc' new. frag_grow_loop fuel tg nchars t g = Inr g' \<and> chain_inv tg g' fc' (ids @ new)
       \<and> nchars \<le> obstack_room (frch_obstack fc') \<and> grown t g fc ids g' fc' new
       \<and> (new = [] \<longleftrightarrow> nchars \<le> obstack_room (frch_obstack fc)) \<and> length new \<le> fuel"
proof (induction fuel arbitrary: g fc ids)
  case (Suc k)
  have room: "frag_room g = Inr (obstack_room (frch_obstack fc))"
    using Suc.prems(1) by (simp add: frag_room_def chain_inv_def)
  show ?case
  proof (cases "obstack_room (frch_obstack fc) < nchars")
    case True
    obtain g1 ptr fc1 where S: "frag_new tg 0 (frag_wane (frag_now g) g) = Inr g1"
      "chain_inv tg (mark_insn t g1) fc1 (ids @ [ptr])"
      "alloc_effect tg (frch_obstack fc) ptr (frch_obstack fc1)"
      "grown t g fc ids (mark_insn t g1) fc1 [ptr]"
      using grow_step [OF tg Suc.prems(1)] by blast
    have c: "chunk_size (frch_obstack fc1) = chunk_size (frch_obstack fc)"
      using S(4) by (simp add: grown_def)
    have "obstack_room (frch_obstack fc1) < nchars \<Longrightarrow> obstack_room (frch_obstack fc1) + 2 \<le> k"
      using S(3) Suc.prems(3,4) True tg by (auto simp: alloc_effect_def target_ok_def)
    moreover have "0 < k" using Suc.prems(3) True by simp
    ultimately obtain g' fc' new where R: "frag_grow_loop k tg nchars t (mark_insn t g1) = Inr g'"
      "chain_inv tg g' fc' ((ids @ [ptr]) @ new)" "nchars \<le> obstack_room (frch_obstack fc')"
      "grown t (mark_insn t g1) fc1 (ids @ [ptr]) g' fc' new" "length new \<le> k"
      using Suc.IH [OF S(2)] Suc.prems(4) c by metis
    have "ids \<noteq> []" "distinct ids" using Suc.prems(1) by (simp_all add: chain_inv_def)
    note grown_trans [OF S(4) R(4) this]
    moreover have "frag_grow_loop (Suc k) tg nchars t g = Inr g'"
      using room True S(1) R(1) by simp
    ultimately show ?thesis using R(2,3,5) True
      by (intro exI [of _ g'] exI [of _ fc'] exI [of _ "ptr # new"]) simp
  next
    case False
    then show ?thesis
      using Suc.prems(1) room by (intro exI [of _ g] exI [of _ fc] exI [of _ "[]"])
        (simp add: grown_def)
  qed
qed simp

text \<open>The requests the theorems speak about: the chunk they need has a size in range.\<close>

definition request_ok :: "target \<Rightarrow> nat \<Rightarrow> bool" where
  "request_ok tg n \<longleftrightarrow> small (n + 0x10000 + sizeof_struct_frag tg)"

definition grow_flag :: "target \<Rightarrow> gas \<Rightarrow> bool" where
  "grow_flag tg g \<longleftrightarrow> fiy_dcollect g \<and> insn_frag (fr_flags (frags g (frag_now g)))
     \<and> frag_now_fix tg g \<noteq> Inr (fr_fix (frags g (frag_now g)))"

lemma set_chunk_size_keeps [simp]:
  "frags (set_chunk_size n g) = frags g" "same_context h (set_chunk_size n g) = same_context h g"
  by (simp_all add: set_chunk_size_def)

lemma set_chunk_size_grown:
  assumes "grown t g1 fc1 ids g' fc' new" and "new \<noteq> []" and "frags g1 = frags g" and "same_context g g1"
    and "obstack_object_size (frch_obstack fc1) = obstack_object_size (frch_obstack fc)"
  shows "grown t g fc ids (set_chunk_size (chunk_size (frch_obstack fc)) g')
     (fc'\<lparr>frch_obstack := (frch_obstack fc')\<lparr>chunk_size := chunk_size (frch_obstack fc)\<rparr>\<rparr>) new"
  using assms same_context_trans [OF assms(4)] by (simp add: grown_def obstack_object_size_def)

text \<open>The temporary chunk size of \<open>frag_grow\<close>.\<close>

lemma grow_chunk_size:
  assumes "chain_inv tg g fc ids" and "small n" and "n \<noteq> 0"
  shows "\<exists>fc1. chain_inv tg (if chunk_size (frch_obstack fc) < n then set_chunk_size n g else g) fc1 ids
    \<and> frch_obstack fc1 = (frch_obstack fc)\<lparr>chunk_size := max n (chunk_size (frch_obstack fc))\<rparr>"
proof (cases "chunk_size (frch_obstack fc) < n")
  case True
  then show ?thesis using chain_inv_set_chunk_size [OF assms] by (auto simp: max_def)
next
  case False
  then show ?thesis using assms(1) by (intro exI [of _ fc]) (simp add: max_def)
qed

lemma frag_grow_spec:
  assumes tg: "target_ok tg" and inv: "chain_inv tg g fc ids" and req: "request_ok tg nchars"
  shows "\<exists>g' fc' new. frag_grow tg nchars g = Inr g' \<and> chain_inv tg g' fc' (ids @ new)
    \<and> nchars \<le> obstack_room (frch_obstack fc') \<and> grown (grow_flag tg g) g fc ids g' fc' new
    \<and> (new = [] \<longleftrightarrow> nchars \<le> obstack_room (frch_obstack fc))
    \<and> length new \<le> obstack_room (frch_obstack fc) + 3"
proof (cases "nchars \<le> obstack_room (frch_obstack fc)")
  case True
  then show ?thesis
    using inv by (intro exI [of _ g] exI [of _ fc] exI [of _ "[]"])
      (simp add: grown_def frag_grow_def chain_inv_def)
next
  case False
  let ?ob = "frch_obstack fc" and ?s = "sizeof_struct_frag tg" and ?t = "grow_flag tg g"
  let ?newc = "(if nchars < 0x10000 then 2 * nchars else nchars + 0x10000) + ?s"
  let ?g = "if chunk_size ?ob < ?newc then set_chunk_size ?newc g else g"
  have fc: "the_frchain g = Some fc" and okob: "ob_ok tg ?ob" using inv by (simp_all add: chain_inv_def)
  have sz: "size_t (size_t (if nchars < 0x10000 then 2 * nchars else nchars + 0x10000) + ?s) = ?newc"
    "\<not> ?newc < nchars" "small ?newc" "?newc \<noteq> 0"
    using req tg by (auto simp: request_ok_def small_def target_ok_def)
  obtain fc1 where G: "chain_inv tg ?g fc1 ids" "frch_obstack fc1 = ?ob\<lparr>chunk_size := max ?newc (chunk_size ?ob)\<rparr>"
    using grow_chunk_size [OF inv sz(3,4)] by blast
  have same: "obstack_room (frch_obstack fc1) = obstack_room ?ob"
    "obstack_object_size (frch_obstack fc1) = obstack_object_size ?ob"
    "frags ?g = frags g" "same_context g ?g"
    using G(2) by (simp_all add: obstack_room_def obstack_object_size_def)
  have big: "nchars + ?s + contents_off \<le> max (?s + 100) (chunk_size (frch_obstack fc1))"
    using G(2) by (auto simp: contents_off_def)
  obtain g' fc' new where L: "frag_grow_loop (obstack_room ?ob + 3) tg nchars ?t ?g = Inr g'"
    "chain_inv tg g' fc' (ids @ new)" "nchars \<le> obstack_room (frch_obstack fc')"
    "grown ?t ?g fc1 ids g' fc' new" "new = [] \<longleftrightarrow> nchars \<le> obstack_room ?ob"
    "length new \<le> obstack_room ?ob + 3"
    using frag_grow_loop_spec [OF tg G(1) _ _ big, of "obstack_room ?ob + 3" ?t] same(1) by auto
  then have ne: "new \<noteq> []" using False by simp
  obtain x where x: "frag_now_fix tg g = Inr x"
    using frag_now_fix_inv(1) [OF inv] by (simp add: frag_now_fix_def)
  then have t: "?t = (fiy_dcollect g \<and> insn_frag (fr_flags (frags g (frag_now g)))
      \<and> x \<noteq> fr_fix (frags g (frag_now g)))"
    by (simp add: grow_flag_def)
  have "frag_grow tg nchars g = Inr (set_chunk_size (chunk_size ?ob) g')"
    using False sz(2) L(1) x unfolding frag_grow_def fc Let_def sz(1) deref_Some
    by (simp add: t [symmetric])
  moreover have "small (chunk_size ?ob)" "chunk_size ?ob \<noteq> 0" using okob by (simp_all add: ob_ok_def)
  note chain_inv_set_chunk_size [OF L(2) this]
  ultimately show ?thesis
    using L(3,6) False ne set_chunk_size_grown [OF L(4) ne same(3,4,2)]
    by (intro exI conjI) (assumption | simp add: obstack_room_def)+
qed

section \<open>Reserving room and variable frags\<close>

lemma chain_inv_blank:
  assumes "chain_inv tg g fc ids" and "n \<le> obstack_room (frch_obstack fc)"
  shows "chain_inv tg (upd_frchain (\<lambda>c. c\<lparr>frch_obstack := obstack_blank_fast (frch_obstack c) n\<rparr>) g)
    (fc\<lparr>frch_obstack := obstack_blank_fast (frch_obstack fc) n\<rparr>) ids"
proof -
  have "the_frchain (upd_frchain (\<lambda>c. c\<lparr>frch_obstack := obstack_blank_fast (frch_obstack c) n\<rparr>) g)
      = Some (fc\<lparr>frch_obstack := obstack_blank_fast (frch_obstack fc) n\<rparr>)"
    using assms(1) unfolding chain_inv_def by (intro the_frchain_upd) auto
  then show ?thesis
    using assms by (auto simp: chain_inv_def ob_ok_def obstack_ok_def chunks_ok_def live_chunks_def
        located_def obstack_blank_fast_def obstack_room_def)
qed

lemma frag_more_spec:
  assumes tg: "target_ok tg" and inv: "chain_inv tg g fc ids" and req: "request_ok tg n"
    and mri: "mri_common_symbol g = None"
  shows "\<exists>g' g1 fc1 new. frag_more tg n g = Inr (next_free (frch_obstack fc1), g')
    \<and> g' = upd_frchain (\<lambda>c. c\<lparr>frch_obstack := obstack_blank_fast (frch_obstack c) n\<rparr>) g1
    \<and> chain_inv tg g' (fc1\<lparr>frch_obstack := obstack_blank_fast (frch_obstack fc1) n\<rparr>) (ids @ new)
    \<and> chain_inv tg g1 fc1 (ids @ new)
    \<and> n \<le> obstack_room (frch_obstack fc1) \<and> grown (grow_flag tg g) g fc ids g1 fc1 new
    \<and> (new = [] \<longleftrightarrow> n \<le> obstack_room (frch_obstack fc))"
proof -
  obtain g1 fc1 new where G: "frag_grow tg n g = Inr g1" "chain_inv tg g1 fc1 (ids @ new)"
    "n \<le> obstack_room (frch_obstack fc1)" "grown (grow_flag tg g) g fc ids g1 fc1 new"
    "new = [] \<longleftrightarrow> n \<le> obstack_room (frch_obstack fc)"
    using frag_grow_spec [OF tg inv req] by blast
  have th: "the_frchain g = Some fc" "the_frchain g1 = Some fc1" "chunk_size (frch_obstack fc) \<noteq> 0"
    using inv G(2) by (simp_all add: chain_inv_def ob_ok_def)
  have "frag_more tg n g = Inr (next_free (frch_obstack fc1),
      upd_frchain (\<lambda>c. c\<lparr>frch_obstack := obstack_blank_fast (frch_obstack c) n\<rparr>) g1)"
    using G(1) th mri by (simp add: frag_more_def frag_alloc_check_def)
  then show ?thesis using G(2-5) chain_inv_blank [OF G(2,3)] by blast
qed

lemma frag_var_spec:
  assumes tg: "target_ok tg" and inv: "chain_inv tg g fc ids" and req: "request_ok tg mx"
    and ty: "type \<noteq> rs_dummy"
  shows "\<exists>p g' fc' new ptr. frag_var tg type mx var sub sy off g = Inr (p, g')
    \<and> chain_inv tg g' fc' (ids @ new @ [ptr])
    \<and> p = last (ids @ new) + sizeof_struct_frag tg + unat (fr_fix (frags g' (last (ids @ new))))
    \<and> (let f = frags g' (last (ids @ new)) in fr_type f = type \<and> fr_var f = var \<and> fr_subtype f = sub
         \<and> fr_symbol f = sy \<and> fr_offset f = off \<and> (new = [] \<longrightarrow> fr_flags f = fr_flags (frags g (last ids)))
         \<and> fr_fix f = word_of_nat (if new = [] then obstack_object_size (frch_obstack fc) else 0))
    \<and> frags g' ptr = zero_frag\<lparr>frag_index := totalfrags g'\<rparr> \<and> same_context g g'
    \<and> length new \<le> obstack_room (frch_obstack fc) + 3
    \<and> (\<forall>q \<in> set new. insn_frag (fr_flags (frags g' q)) = grow_flag tg g)"
proof -
  obtain g1 fc1 new where G: "frag_grow tg mx g = Inr g1" "chain_inv tg g1 fc1 (ids @ new)"
    "mx \<le> obstack_room (frch_obstack fc1)" "grown (grow_flag tg g) g fc ids g1 fc1 new"
    "new = [] \<longleftrightarrow> mx \<le> obstack_room (frch_obstack fc)" "length new \<le> obstack_room (frch_obstack fc) + 3"
    using frag_grow_spec [OF tg inv req] by blast
  let ?b = "upd_frchain (\<lambda>c. c\<lparr>frch_obstack := obstack_blank_fast (frch_obstack c) mx\<rparr>) g1"
  let ?fb = "fc1\<lparr>frch_obstack := obstack_blank_fast (frch_obstack fc1) mx\<rparr>"
  let ?u = "\<lambda>f. f\<lparr>fr_var := var, fr_type := type, fr_subtype := sub, fr_symbol := sy, fr_offset := off\<rparr>"
  let ?v = "upd_frag (frag_now g1) ?u ?b"
  have v: "chain_inv tg ?v ?fb (ids @ new)" "fr_type (frags ?v (frag_now ?v)) \<noteq> rs_dummy"
    using chain_inv_blank [OF G(2,3)] ty by (simp_all add: chain_inv_upd_frag frags_upd_frag)
  have i1: "frag_now g1 = last (ids @ new)" "the_frchain g1 = Some fc1" "ob_ok tg (frch_obstack fc1)"
    "object_base (frch_obstack fc1) = last (ids @ new) + sizeof_struct_frag tg"
    using G(2) by (auto simp: chain_inv_def)
  have le: "object_base (frch_obstack fc1) \<le> next_free (frch_obstack fc1)"
    using i1(3) by (simp add: ob_ok_def obstack_ok_def)
  have sz: "obstack_object_size (frch_obstack ?fb) = obstack_object_size (frch_obstack fc1) + mx"
    using le by (simp add: obstack_object_size_def obstack_blank_fast_def)
  obtain ptr ob' where N: "ptr \<notin> set (ids @ new)"
    "frag_new tg mx ?v = Inr (started (word_of_nat (obstack_object_size (frch_obstack fc1))) ptr ob' ?v)"
    "chain_inv tg (started (word_of_nat (obstack_object_size (frch_obstack fc1))) ptr ob' ?v)
        (?fb\<lparr>frch_last := Some ptr, frch_obstack := ob'\<rparr>) ((ids @ new) @ [ptr])"
    using frag_new_step [OF tg v, of mx] unfolding sz by auto
  define g' where "g' = started (word_of_nat (obstack_object_size (frch_obstack fc1))) ptr ob' ?v"
  note N' = N(2,3) [folded g'_def]
  have l: "last (ids @ new) \<noteq> ptr" "ids \<noteq> []"
    using N(1) inv last_in_set [of "ids @ new"] by (auto simp: chain_inv_def)
  have fr: "frags g' q = (if q = ptr then zero_frag\<lparr>frag_index := totalfrags g1 + 1\<rparr>
      else if q = last (ids @ new)
      then (?u (frags g1 q))\<lparr>fr_fix := word_of_nat (obstack_object_size (frch_obstack fc1)), fr_next := Some ptr\<rparr>
      else frags g1 q)" for q
    using i1(1) by (simp add: g'_def started_def frags_upd_frag)
  have tot: "totalfrags g' = totalfrags g1 + 1" by (simp add: g'_def started_def)
  have o: "obstack_object_size (frch_obstack fc1)
      = (if new = [] then obstack_object_size (frch_obstack fc) else 0)"
    and fl: "new = [] \<Longrightarrow> g1 = g" and ctx: "same_context g g'"
    and ins: "\<forall>q \<in> set new. insn_frag (fr_flags (frags g1 q)) = grow_flag tg g"
    using G(4) by (auto simp: grown_def g'_def split: if_splits)
  have "fr_fix (frags g' (last (ids @ new))) = word_of_nat (obstack_object_size (frch_obstack fc1))"
    using l(1) by (simp add: fr)
  then have "unat (fr_fix (frags g' (last (ids @ new)))) = obstack_object_size (frch_obstack fc1)"
    using frag_now_fix_inv(2) [OF G(2)] by simp
  then have pos: "next_free (frch_obstack fc1) = last (ids @ new) + sizeof_struct_frag tg
      + unat (fr_fix (frags g' (last (ids @ new))))"
    using i1(4) le by (simp add: obstack_object_size_def)
  have "frag_var tg type mx var sub sy off g = Inr (next_free (frch_obstack fc1), g')"
    using G(1) i1(2) N'(1) by (simp add: frag_var_def frag_var_init_def)
  moreover have "insn_frag (fr_flags (frags g' q)) = grow_flag tg g" if "q \<in> set new" for q
    using that N(1) ins by (auto simp: fr)
  moreover have "let f = frags g' (last (ids @ new)) in fr_type f = type \<and> fr_var f = var \<and> fr_subtype f = sub
         \<and> fr_symbol f = sy \<and> fr_offset f = off \<and> (new = [] \<longrightarrow> fr_flags f = fr_flags (frags g (last ids)))
         \<and> fr_fix f = word_of_nat (if new = [] then obstack_object_size (frch_obstack fc) else 0)"
    using l(1) o fl by (cases "new = []") (simp_all add: fr Let_def)
  moreover have "frags g' ptr = zero_frag\<lparr>frag_index := totalfrags g'\<rparr>" by (simp add: fr tot)
  moreover have "chain_inv tg g' (?fb\<lparr>frch_last := Some ptr, frch_obstack := ob'\<rparr>) (ids @ new @ [ptr])"
    using N'(2) by simp
  ultimately show ?thesis using G(6) ctx pos by blast
qed

lemma frag_before_hit:
  assumes "path (frag_next g) (Some a) (a # ys) (Some (frag_now g))" and "frag_now g \<notin> set ys"
    and "length ys < fuel"
  shows "frag_before fuel g (Some a) = Inr (Some (last (a # ys)))"
  using assms
proof (induction ys arbitrary: a fuel)
  case Nil
  then show ?case by (cases fuel) auto
next
  case (Cons y ys)
  then show ?case by (cases fuel) auto
qed

text \<open>With the collector on, an alignment request marks exactly the frag it closes, whatever frags
  had to be opened in between.\<close>

lemma frag_align_code_spec:
  assumes tg: "target_ok tg" and inv: "chain_inv tg g fc ids"
    and req: "request_ok tg (MAX_MEM_FOR_RS_ALIGN_CODE n)"
    and on: "fiy_dcollect g" "\<not> is_finish_subseg g"
  shows "\<exists>g' fc' ids' ptr. frag_align_code tg n mx g = Inr g' \<and> chain_inv tg g' fc' (ids' @ [ptr])
    \<and> (\<exists>new. ids' = ids @ new) \<and> fr_type (frags g' (last ids')) = rs_align_code
    \<and> fr_offset (frags g' (last ids')) = word_of_nat n
    \<and> align_frag (fr_flags (frags g' (last ids'))) \<and> fr_flags (frags g' ptr) = no_flags
    \<and> mem g' (last ids' + sizeof_struct_frag tg + unat (fr_fix (frags g' (last ids')))) = NOP_OPCODE"
proof -
  obtain p g1 fc' new ptr where V:
    "frag_var tg rs_align_code (MAX_MEM_FOR_RS_ALIGN_CODE n) 1 mx None (word_of_nat n) g = Inr (p, g1)"
    "chain_inv tg g1 fc' (ids @ new @ [ptr])"
    "p = last (ids @ new) + sizeof_struct_frag tg + unat (fr_fix (frags g1 (last (ids @ new))))"
    "fr_type (frags g1 (last (ids @ new))) = rs_align_code"
    "fr_offset (frags g1 (last (ids @ new))) = word_of_nat n"
    "frags g1 ptr = zero_frag\<lparr>frag_index := totalfrags g1\<rparr>" "same_context g g1"
    "length new \<le> obstack_room (frch_obstack fc) + 3"
    using frag_var_spec [OF tg inv req, of rs_align_code] by (fastforce simp: Let_def)
  have i: "frag_now g = last ids" "ids \<noteq> []" "the_frchain g = Some fc"
    "frag_now g1 = ptr" "distinct (ids @ new @ [ptr])" "chain (frag_next g1) (frch_root fc') (ids @ new @ [ptr])"
    using inv V(2) by (auto simp: chain_inv_def)
  obtain xs l where ids: "ids = xs @ [l]" using i(2) by (metis rev_exhaust)
  have "path (frag_next g1) (Some l) (l # new) (Some ptr)"
    using i(6) ids by (auto simp: chain_def path_append)
  then have walk: "frag_before (obstack_room (frch_obstack fc) + 5) g1 (Some l) = Inr (Some (last (l # new)))"
    using frag_before_hit [of g1 l new] i(4,5) ids V(8) by auto
  let ?q = "last (l # new)"
  let ?g' = "poke p NOP_OPCODE (upd_frag ?q (\<lambda>f. f\<lparr>fr_flags := fr_flags f\<lparr>align_frag := True\<rparr>\<rparr>) g1)"
  have q: "?q = last (ids @ new)" "?q \<noteq> ptr" "frag_now g \<noteq> ptr" "?q \<in> set (l # new)"
    using i(1,5) ids last_in_set [of "l # new"] by (auto simp del: last_in_set)
  have fl: "fr_flags (frags g1 ptr) = no_flags" by (simp add: V(6) zero_frag_def)
  have "frag_align_code tg n mx g = Inr ?g'"
    using V(1,7) i(1,3,4) on walk q(2,3) fl ids
    by (simp add: frag_align_code_def frag_room_def Let_def same_context_def gas_assert_def
        frags_upd_frag no_flags_def)
  moreover have "chain_inv tg ?g' fc' (ids @ new @ [ptr])"
  proof -
    have "chain_inv tg (poke p b h) c js = chain_inv tg h c js" for b h c js
      using the_frchain_cong [of "poke p b h" h]
      by (simp add: chain_inv_def poke_def frag_next_def [abs_def])
    then show ?thesis using V(2) by (simp add: chain_inv_upd_frag)
  qed
  moreover have "frags ?g' r = (if r = ?q then (frags g1 r)\<lparr>fr_flags := fr_flags (frags g1 r)\<lparr>align_frag := True\<rparr>\<rparr>
      else frags g1 r)" for r
    by (simp add: poke_def frags_upd_frag)
  moreover have "mem ?g' p = NOP_OPCODE" by (simp add: poke_def)
  ultimately show ?thesis
    using V(3-5) q(1,2) fl
    by (intro exI [of _ ?g'] exI [of _ fc'] exI [of _ "ids @ new"] exI [of _ ptr]) simp
qed

section \<open>Fixed distances\<close>

lemma frag_walk_hit:
  assumes "path (\<lambda>p. fr_next (st p)) (Some a) (a # ys) (Some b)" and "b \<notin> set ys"
  shows "frag_walk st ok sz b a off =
    (if list_all (\<lambda>p. ok (st p)) (a # ys)
     then Some (Some (off + sum_list (map (\<lambda>p. sz (st p)) (a # ys)))) else Some None)"
  using assms
proof (induction ys arbitrary: a off)
  case Nil
  then show ?case by (subst frag_walk.simps) simp
next
  case (Cons y ys)
  then show ?case by (subst frag_walk.simps) (auto simp: algebra_simps)
qed

lemma frag_walk_miss:
  assumes "chain (\<lambda>p. fr_next (st p)) (Some a) (a # ys)" and "b \<notin> set ys"
  shows "frag_walk st ok sz b a off = Some None"
  using assms
proof (induction ys arbitrary: a off)
  case Nil
  then show ?case by (subst frag_walk.simps) simp
next
  case (Cons y ys)
  then show ?case by (subst frag_walk.simps) auto
qed

lemma gtoffset_walk_hit:
  assumes "path (\<lambda>p. fr_next (st p)) (Some a) (a # ys) (Some b)" and "b \<notin> set ys"
  shows "gtoffset_walk st b a delta =
    (let d = delta + sum_list (map (\<lambda>p. fr_fix (st p)) (a # ys))
     in Some (if d = 0 then None else Some d))"
  using assms
proof (induction ys arbitrary: a delta)
  case Nil
  then show ?case by (subst gtoffset_walk.simps) simp
next
  case (Cons y ys)
  then show ?case by (subst gtoffset_walk.simps) (auto simp: Let_def algebra_simps)
qed

text \<open>Two frags of one chain, as the callers have them.\<close>

definition follows :: "(fragP \<Rightarrow> frag) \<Rightarrow> fragP \<Rightarrow> fragP list \<Rightarrow> fragP \<Rightarrow> fragP list \<Rightarrow> bool" where
  "follows st a ys b zs \<longleftrightarrow> distinct (a # ys @ b # zs) \<and> chain (\<lambda>p. fr_next (st p)) (Some a) (a # ys @ b # zs)"

lemma followsD:
  assumes "follows st a ys b zs"
  shows "path (\<lambda>p. fr_next (st p)) (Some a) (a # ys) (Some b)" "b \<notin> set ys" "a \<noteq> b"
    "chain (\<lambda>p. fr_next (st p)) (Some b) (b # zs)" "a \<notin> set zs"
  using assms by (auto simp: follows_def chain_append)

end
