(* ===== verification/Subsegs.thy ===== *)
theory Subsegs
  imports Frags "HOL-Library.Countable"
begin

text \<open>
  Segments and subsegments (\<open>src/gas/subsegs.c\<close>): switching between frag chains, and creating a
  chain with its obstack and first frag.  Each segment keeps its chains in a list in increasing
  order of subsegment number.  The invariant of this theory says that the chains of all segments
  partition the frags: no frag is in two chains, every chain ends in its open frag.
\<close>

section \<open>Operations\<close>

definition empty_segment :: segment_info where
  "empty_segment = \<lparr>frchainP = [], seg_fixes = [], seg_align = 0\<rparr>"

definition subsegs_begin :: "fragP \<Rightarrow> gas \<Rightarrow> gas" where
  "subsegs_begin dummy_frag g = g\<lparr>frchain_now := None, frag_now := dummy_frag\<rparr>"

definition alloc_seginfo :: "segT \<Rightarrow> gas \<Rightarrow> gas" where
  "alloc_seginfo seg g = g\<lparr>seg_info := (seg_info g)(seg \<mapsto> empty_segment)\<rparr>"

definition subseg_change :: "segT \<Rightarrow> int \<Rightarrow> gas \<Rightarrow> gas" where
  "subseg_change seg subseg g =
     (let g1 = g\<lparr>now_seg := seg, now_subseg := subseg\<rparr>
      in if seg_info g1 seg = None then alloc_seginfo seg g1 else g1)"

text \<open>The crawl for the place of a subsegment: the chains before it and those from it on.\<close>

fun find_subseg :: "int \<Rightarrow> frchain list \<Rightarrow> frchain list \<times> frchain list" where
  "find_subseg subseg [] = ([], [])"
| "find_subseg subseg (c # cs) =
     (if frch_subseg c \<ge> subseg then ([], c # cs)
      else (let (pre, post) = find_subseg subseg cs in (c # pre, post)))"

text \<open>A new chain (the only code that creates one): its obstack, and its first frag of type \<open>rs_fill\<close> with \<open>first_frag\<close> set.\<close>

definition new_frchain :: "target \<Rightarrow> int \<Rightarrow> gas \<Rightarrow> (frchain \<times> gas) result" where
  "new_frchain tg subseg g =
     (let ob = (obstack_begin_worker (chunk_alloc tg) (n_frchains g) (chunksize tg) 0)
                 \<lparr>alignment_mask := alignof_frag tg - 1\<rparr> in
      bindE (frag_alloc tg ob 0 g) (\<lambda>(p, ob', g1).
      let g2 = upd_frag p (\<lambda>f. f\<lparr>fr_type := rs_fill\<rparr>) g1;
          g3 = upd_frag p (\<lambda>f. f\<lparr>fr_flags := fr_flags f\<lparr>first_frag := True\<rparr>\<rparr>) g2
      in Inr (\<lparr>frch_root = Some p, frch_last = Some p, frch_subseg = subseg, frch_obstack = ob',
               frch_frag_now = Some p, frch_fixes = []\<rparr>,
              g3\<lparr>n_frchains := n_frchains g + 1\<rparr>)))"

definition make_frchain :: "target \<Rightarrow> segT \<Rightarrow> int \<Rightarrow> gas \<Rightarrow> (frchain \<times> gas) result" where
  "make_frchain tg seg subseg g =
     deref (seg_info g seg) (\<lambda>si.
     let (pre, post) = find_subseg subseg (frchainP si) in
     if post = [] \<or> frch_subseg (hd post) \<noteq> subseg then
       bindE (new_frchain tg subseg g) (\<lambda>(newP, g1).
         Inr (newP, g1\<lparr>seg_info := (seg_info g1)(seg \<mapsto> si\<lparr>frchainP := pre @ newP # post\<rparr>)\<rparr>))
     else Inr (hd post, g))"

definition subseg_set_rest :: "target \<Rightarrow> segT \<Rightarrow> int \<Rightarrow> gas \<Rightarrow> gas result" where
  "subseg_set_rest tg seg subseg g =
     (let g1 = upd_frchain (\<lambda>c. c\<lparr>frch_frag_now := Some (frag_now g)\<rparr>) (g\<lparr>mri_common_symbol := None\<rparr>) in
      gas_assert (frchain_now g1 = None \<or> map_option frch_last (the_frchain g1) = Some (Some (frag_now g1)))
        (bindE (make_frchain tg seg subseg (subseg_change seg subseg g1)) (\<lambda>(frcP, g3).
         deref (frch_frag_now frcP) (\<lambda>fn.
         let g4 = g3\<lparr>frchain_now := Some (seg, subseg), frag_now := fn\<rparr> in
         gas_assert (map_option frch_last (the_frchain g4) = Some (Some fn)) (Inr g4)))))"

definition subseg_set :: "target \<Rightarrow> segT \<Rightarrow> int \<Rightarrow> gas \<Rightarrow> gas result" where
  "subseg_set tg secptr subseg g =
     bindE (if \<not> (secptr = now_seg g \<and> subseg = now_subseg g)
            then subseg_set_rest tg secptr subseg g else Inr g)
       (\<lambda>g1. Inr (g1\<lparr>mri_common_symbol := None\<rparr>))"

text \<open>\<open>subseg_get\<close>: BFD hands out the section of that name, so a name is a segment here.\<close>

definition subseg_get :: "segT \<Rightarrow> gas \<Rightarrow> segT \<times> gas" where
  "subseg_get secptr g =
     (if secptr = now_seg g then (now_seg g, g)
      else (secptr, if seg_info g secptr = None then alloc_seginfo secptr g else g))"

definition subseg_new :: "target \<Rightarrow> segT \<Rightarrow> int \<Rightarrow> gas \<Rightarrow> (segT \<times> gas) result" where
  "subseg_new tg segname subseg g =
     (let (secptr, g1) = subseg_get segname g
      in bindE (subseg_set_rest tg secptr subseg g1) (\<lambda>g2. Inr (secptr, g2)))"

text \<open>\<open>seg_not_empty_p\<close>, the crawl over a segment's chains and frags.\<close>

partial_function (option) some_fix :: "(fragP \<Rightarrow> frag) \<Rightarrow> fragP option \<Rightarrow> bool option" where
  [code]: "some_fix st p = (case p of None \<Rightarrow> Some False
     | Some q \<Rightarrow> if fr_fix (st q) \<noteq> 0 then Some True else some_fix st (fr_next (st q)))"

fun chains_not_empty :: "target \<Rightarrow> (fragP \<Rightarrow> frag) \<Rightarrow> frchain list \<Rightarrow> bool option" where
  "chains_not_empty tg st [] = Some False"
| "chains_not_empty tg st (c # cs) = (case some_fix st (frch_root c) of
     None \<Rightarrow> None
   | Some True \<Rightarrow> Some True
   | Some False \<Rightarrow> (case frch_last c of None \<Rightarrow> None
       | Some l \<Rightarrow> if next_free (frch_obstack c) \<noteq> l + sizeof_struct_frag tg then Some True
                   else chains_not_empty tg st cs))"

definition seg_not_empty_p :: "target \<Rightarrow> segT \<Rightarrow> gas \<Rightarrow> bool option" where
  "seg_not_empty_p tg sec g = (case seg_info g sec of None \<Rightarrow> Some False
     | Some si \<Rightarrow> chains_not_empty tg (frags g) (frchainP si))"

section \<open>The invariant of all chains\<close>

definition chain_ok :: "target \<Rightarrow> (fragP \<Rightarrow> frag) \<Rightarrow> frchain \<Rightarrow> fragP list \<Rightarrow> bool" where
  "chain_ok tg st fc ids \<longleftrightarrow>
     chain (\<lambda>p. fr_next (st p)) (frch_root fc) ids \<and> ids \<noteq> [] \<and> distinct ids
   \<and> frch_last fc = Some (last ids) \<and> ob_ok tg (frch_obstack fc)
   \<and> object_base (frch_obstack fc) = last ids + sizeof_struct_frag tg
   \<and> (\<forall>p \<in> set ids. located tg (frch_obstack fc) p)"

definition has_chain :: "gas \<Rightarrow> segT \<Rightarrow> frchain \<Rightarrow> bool" where
  "has_chain g sg fc \<longleftrightarrow> (\<exists>si. seg_info g sg = Some si \<and> fc \<in> set (frchainP si))"

text \<open>Every chain is well formed, has an obstack of its own, and, except for the chain \<open>e\<close> that is
  current, has saved its last frag as the one to continue with.\<close>

definition chains_inv :: "target \<Rightarrow> (segT \<times> int) option \<Rightarrow> gas \<Rightarrow> bool" where
  "chains_inv tg e g \<longleftrightarrow>
     (\<forall>sg si. seg_info g sg = Some si \<longrightarrow> sorted_wrt (<) (map frch_subseg (frchainP si)))
   \<and> (\<forall>sg fc. has_chain g sg fc \<longrightarrow> (\<exists>ids. chain_ok tg (frags g) fc ids)
        \<and> ob_id (frch_obstack fc) < n_frchains g
        \<and> (Some (sg, frch_subseg fc) \<noteq> e \<longrightarrow> frch_frag_now fc = frch_last fc))
   \<and> (\<forall>sg fc sg' fc'. has_chain g sg fc \<longrightarrow> has_chain g sg' fc' \<longrightarrow>
        ob_id (frch_obstack fc) = ob_id (frch_obstack fc') \<longrightarrow> sg = sg' \<and> fc = fc')"

definition gas_inv :: "target \<Rightarrow> gas \<Rightarrow> bool" where
  "gas_inv tg g \<longleftrightarrow> chains_inv tg (frchain_now g) g
   \<and> (case frchain_now g of None \<Rightarrow> True
      | Some (sg, ss) \<Rightarrow> sg = now_seg g \<and> ss = now_subseg g
          \<and> (\<exists>fc. the_frchain g = Some fc \<and> frch_last fc = Some (frag_now g)))"

text \<open>The build: a chunk size of 0 (the allocator's default) or at least 32.\<close>

definition build_ok :: "target \<Rightarrow> bool" where
  "build_ok tg \<longleftrightarrow> target_ok tg \<and> small (chunksize tg) \<and> (chunksize tg = 0 \<or> 32 \<le> chunksize tg)"

section \<open>Lemmas\<close>

lemma find_subseg_split:
  "find_subseg ss cs = (pre, post) \<Longrightarrow> sorted_wrt (<) (map frch_subseg cs) \<Longrightarrow>
     cs = pre @ post \<and> (\<forall>c \<in> set pre. frch_subseg c < ss) \<and> (post \<noteq> [] \<longrightarrow> ss \<le> frch_subseg (hd post))"
proof (induction ss cs arbitrary: pre post rule: find_subseg.induct)
  case (2 ss c cs)
  then show ?case by (auto split: if_splits prod.splits)
qed simp

lemma find_sorted:
  assumes "sorted_wrt (<) (map frch_subseg cs)" and "c \<in> set cs"
  shows "find (\<lambda>d. frch_subseg d = frch_subseg c) cs = Some c"
  using assms by (induction cs) auto

lemma the_frchain_has:
  "the_frchain g = Some fc \<Longrightarrow> \<exists>sg. frchain_now g = Some (sg, frch_subseg fc) \<and> has_chain g sg fc"
  by (auto simp: the_frchain_def has_chain_def find_Some_iff split: option.splits)

lemma the_frchain_sorted:
  assumes "chains_inv tg e g" and "has_chain g sg fc" and "frchain_now g = Some (sg, frch_subseg fc)"
  shows "the_frchain g = Some fc"
proof -
  obtain si where si: "seg_info g sg = Some si" "fc \<in> set (frchainP si)"
    using assms(2) by (auto simp: has_chain_def)
  with assms(1) have "sorted_wrt (<) (map frch_subseg (frchainP si))"
    unfolding chains_inv_def by blast
  with si assms(3) show ?thesis by (simp add: the_frchain_def find_sorted)
qed

lemma has_chain_upd_frchain:
  "has_chain (upd_frchain f g) sg fc \<longleftrightarrow>
     (\<exists>c. has_chain g sg c \<and> fc = (if frchain_now g = Some (sg, frch_subseg c) then f c else c))"
proof (cases "seg_info g sg")
  case (Some si)
  let ?h = "\<lambda>c. if frchain_now g = Some (sg, frch_subseg c) then f c else c"
  have "map_option (set \<circ> frchainP) (seg_info (upd_frchain f g) sg) = Some (?h ` set (frchainP si))"
    using Some by (cases "frchain_now g") (auto simp: upd_frchain_def split: prod.split)
  then have "has_chain (upd_frchain f g) sg fc \<longleftrightarrow> fc \<in> ?h ` set (frchainP si)"
    by (auto simp: has_chain_def)
  moreover have "has_chain g sg c \<longleftrightarrow> c \<in> set (frchainP si)" for c
    using Some by (simp add: has_chain_def)
  ultimately show ?thesis by (simp only: image_iff Bex_def)
next
  case None
  then show ?thesis by (auto simp: has_chain_def upd_frchain_def split: option.splits)
qed

text \<open>Structures located in obstacks with different names are different.\<close>

lemma located_chunk:
  assumes "ob_ok tg ob" and "located tg ob p"
  shows "\<exists>k n. small n \<and> chunk_alloc tg (ob_id ob, k) n \<le> p
    \<and> p + sizeof_struct_frag tg \<le> chunk_alloc tg (ob_id ob, k) n + n"
proof -
  have "\<exists>(c, l) \<in> set (live_chunks ob). c \<le> p \<and> p + sizeof_struct_frag tg \<le> l"
    using assms by (auto simp: located_def live_chunks_def ob_ok_def obstack_ok_def)
  then obtain c l where cl: "(c, l) \<in> set (live_chunks ob)" "c \<le> p" "p + sizeof_struct_frag tg \<le> l"
    by auto
  with assms(1) obtain k m where "small m" "c = chunk_alloc tg (ob_id ob, k) m" "l = c + m"
    unfolding ob_ok_def by (metis chunks_okE)
  with cl show ?thesis by auto
qed

lemma located_other:
  assumes "target_ok tg" and "ob_ok tg ob" and "ob_ok tg ob'" and "ob_id ob \<noteq> ob_id ob'"
    and "located tg ob p" and "located tg ob' q"
  shows "p \<noteq> q"
proof -
  obtain k n where 1: "small n" "chunk_alloc tg (ob_id ob, k) n \<le> p"
    "p + sizeof_struct_frag tg \<le> chunk_alloc tg (ob_id ob, k) n + n"
    using located_chunk [OF assms(2,5)] by blast
  obtain k' n' where 2: "small n'" "chunk_alloc tg (ob_id ob', k') n' \<le> q"
    "q + sizeof_struct_frag tg \<le> chunk_alloc tg (ob_id ob', k') n' + n'"
    using located_chunk [OF assms(3,6)] by blast
  have "chunk_alloc tg (ob_id ob, k) n + n \<le> chunk_alloc tg (ob_id ob', k') n'
      \<or> chunk_alloc tg (ob_id ob', k') n' + n' \<le> chunk_alloc tg (ob_id ob, k) n"
    using assms(1,4) 1(1) 2(1) unfolding target_ok_def malloc_law_def by (metis prod.inject)
  with 1 2 assms(1) show ?thesis by (auto simp: target_ok_def)
qed

lemma chain_ok_frame:
  assumes "chain_ok tg st fc ids" and "\<And>p. p \<in> set ids \<Longrightarrow> fr_next (st' p) = fr_next (st p)"
  shows "chain_ok tg st' fc ids"
  using assms path_cong [of ids "\<lambda>p. fr_next (st' p)" "\<lambda>p. fr_next (st p)"]
  by (simp add: chain_ok_def chain_def)

lemma chain_ok_frag_now: "chain_ok tg st (fc\<lparr>frch_frag_now := q\<rparr>) ids = chain_ok tg st fc ids"
  by (simp add: chain_ok_def)

text \<open>An update of the current chain keeps the invariant when it keeps the chain well formed and
  the others unharmed.\<close>

lemma seg_info_upd_frchain_subsegs:
  assumes "seg_info (upd_frchain f g) sg = Some si" and "\<And>c. frch_subseg (f c) = frch_subseg c"
  shows "\<exists>si0. seg_info g sg = Some si0 \<and> map frch_subseg (frchainP si) = map frch_subseg (frchainP si0)"
proof (cases "frchain_now g")
  case None
  then show ?thesis using assms by (auto simp: upd_frchain_def)
next
  case (Some k)
  then obtain sg' ss where k: "frchain_now g = Some (sg', ss)" by (cases k) auto
  have "map (frch_subseg \<circ> (\<lambda>c. if frch_subseg c = ss then f c else c)) cs = map frch_subseg cs" for cs
    using assms(2) by (intro map_cong) auto
  then show ?thesis using assms(1) k by (auto simp: upd_frchain_def split: if_splits)
qed

lemma chains_inv_upd_frchain:
  assumes inv: "chains_inv tg e g" and sub: "\<And>c. frch_subseg (f c) = frch_subseg c"
    and h: "seg_info h = seg_info g" "n_frchains h = n_frchains g" "frchain_now h = frchain_now g"
    and other: "\<And>sg c. has_chain g sg c \<Longrightarrow> frchain_now g \<noteq> Some (sg, frch_subseg c) \<Longrightarrow>
      (\<exists>ids. chain_ok tg (frags h) c ids) \<and> (Some (sg, frch_subseg c) \<noteq> e' \<longrightarrow> frch_frag_now c = frch_last c)"
    and cur: "\<And>sg c. has_chain g sg c \<Longrightarrow> frchain_now g = Some (sg, frch_subseg c) \<Longrightarrow>
      (\<exists>ids. chain_ok tg (frags h) (f c) ids) \<and> ob_id (frch_obstack (f c)) = ob_id (frch_obstack c)
      \<and> (Some (sg, frch_subseg c) \<noteq> e' \<longrightarrow> frch_frag_now (f c) = frch_last (f c))"
  shows "chains_inv tg e' (upd_frchain f h)"
proof -
  have hc: "has_chain h = has_chain g" using h(1) by (simp add: has_chain_def fun_eq_iff)
  have n: "n_frchains (upd_frchain f h) = n_frchains g"
    using h(2) by (simp add: upd_frchain_def split: option.split prod.split)
  have ex: "\<exists>c. has_chain g sg c \<and> ob_id (frch_obstack fc) = ob_id (frch_obstack c)
      \<and> fc = (if frchain_now g = Some (sg, frch_subseg c) then f c else c)"
    if "has_chain (upd_frchain f h) sg fc" for sg fc
    using that cur unfolding has_chain_upd_frchain hc h(3) by fastforce
  have "sorted_wrt (<) (map frch_subseg (frchainP si))" if "seg_info (upd_frchain f h) sg = Some si" for sg si
    using seg_info_upd_frchain_subsegs [OF that sub] inv h(1) unfolding chains_inv_def by metis
  moreover have "(\<exists>ids. chain_ok tg (frags (upd_frchain f h)) fc ids)
      \<and> ob_id (frch_obstack fc) < n_frchains (upd_frchain f h)
      \<and> (Some (sg, frch_subseg fc) \<noteq> e' \<longrightarrow> frch_frag_now fc = frch_last fc)"
    if fc: "has_chain (upd_frchain f h) sg fc" for sg fc
  proof -
    obtain c where c: "has_chain g sg c" "ob_id (frch_obstack fc) = ob_id (frch_obstack c)"
      "fc = (if frchain_now g = Some (sg, frch_subseg c) then f c else c)"
      using ex [OF fc] by blast
    have "ob_id (frch_obstack c) < n_frchains g" using inv c(1) unfolding chains_inv_def by blast
    then show ?thesis
      using c sub n other [OF c(1)] cur [OF c(1)] by (cases "frchain_now g = Some (sg, frch_subseg c)") auto
  qed
  moreover have "sg = sg' \<and> fc = fc'"
    if fc: "has_chain (upd_frchain f h) sg fc" "has_chain (upd_frchain f h) sg' fc'"
      "ob_id (frch_obstack fc) = ob_id (frch_obstack fc')" for sg fc sg' fc'
  proof -
    obtain c c' where c: "has_chain g sg c" "ob_id (frch_obstack fc) = ob_id (frch_obstack c)"
      "fc = (if frchain_now g = Some (sg, frch_subseg c) then f c else c)"
      "has_chain g sg' c'" "ob_id (frch_obstack fc') = ob_id (frch_obstack c')"
      "fc' = (if frchain_now g = Some (sg', frch_subseg c') then f c' else c')"
      using ex [OF fc(1)] ex [OF fc(2)] by blast
    then have "sg = sg' \<and> c = c'" using inv fc(3) unfolding chains_inv_def by metis
    then show ?thesis using c(3,6) by simp
  qed
  ultimately show ?thesis unfolding chains_inv_def by blast
qed

lemma chains_inv_save:
  assumes "gas_inv tg g"
  shows "chains_inv tg None (upd_frchain (\<lambda>c. c\<lparr>frch_frag_now := Some (frag_now g)\<rparr>) (g\<lparr>mri_common_symbol := None\<rparr>))"
proof (rule chains_inv_upd_frchain)
  show inv: "chains_inv tg (frchain_now g) g" using assms by (simp add: gas_inv_def)
  fix sg c assume c: "has_chain g sg c"
  then have ok: "\<exists>ids. chain_ok tg (frags g) c ids"
    "Some (sg, frch_subseg c) \<noteq> frchain_now g \<Longrightarrow> frch_frag_now c = frch_last c"
    using inv unfolding chains_inv_def by blast+
  { assume "frchain_now g \<noteq> Some (sg, frch_subseg c)"
    then show "(\<exists>ids. chain_ok tg (frags (g\<lparr>mri_common_symbol := None\<rparr>)) c ids)
      \<and> (Some (sg, frch_subseg c) \<noteq> None \<longrightarrow> frch_frag_now c = frch_last c)"
      using ok by auto }
  { assume n: "frchain_now g = Some (sg, frch_subseg c)"
    from the_frchain_sorted [OF inv c n] n assms have "frch_last c = Some (frag_now g)"
      by (auto simp: gas_inv_def split: option.splits)
    then show "(\<exists>ids. chain_ok tg (frags (g\<lparr>mri_common_symbol := None\<rparr>)) (c\<lparr>frch_frag_now := Some (frag_now g)\<rparr>) ids)
      \<and> ob_id (frch_obstack (c\<lparr>frch_frag_now := Some (frag_now g)\<rparr>)) = ob_id (frch_obstack c)
      \<and> (Some (sg, frch_subseg c) \<noteq> None \<longrightarrow>
          frch_frag_now (c\<lparr>frch_frag_now := Some (frag_now g)\<rparr>) = frch_last (c\<lparr>frch_frag_now := Some (frag_now g)\<rparr>))"
      using ok by (simp add: chain_ok_frag_now) }
qed simp_all

lemma chains_inv_subseg_change:
  assumes "chains_inv tg None g"
  shows "chains_inv tg None (subseg_change seg ss g)" "seg_info (subseg_change seg ss g) seg \<noteq> None"
    and "frags (subseg_change seg ss g) = frags g"
proof -
  have hc: "has_chain (subseg_change seg ss g) = has_chain g"
    by (auto simp: has_chain_def subseg_change_def alloc_seginfo_def empty_segment_def Let_def fun_eq_iff)
  have "sorted_wrt (<) (map frch_subseg (frchainP si))"
    if "seg_info (subseg_change seg ss g) sg = Some si" for sg si
    using that assms
    by (auto simp: subseg_change_def alloc_seginfo_def empty_segment_def Let_def chains_inv_def split: if_splits)
  moreover have "n_frchains (subseg_change seg ss g) = n_frchains g"
    by (simp add: subseg_change_def alloc_seginfo_def Let_def)
  moreover show "frags (subseg_change seg ss g) = frags g"
    by (simp add: subseg_change_def alloc_seginfo_def Let_def)
  ultimately show "chains_inv tg None (subseg_change seg ss g)"
    using assms unfolding chains_inv_def hc by simp
  show "seg_info (subseg_change seg ss g) seg \<noteq> None"
    by (simp add: subseg_change_def alloc_seginfo_def Let_def)
qed

lemma obstack_begin_ok:
  fixes i m :: nat
  assumes "build_ok tg"
  defines "ob \<equiv> (obstack_begin_worker (chunk_alloc tg) i (chunksize tg) 0)\<lparr>alignment_mask := m\<rparr>"
  shows "ob_ok tg ob" and "object_base ob = next_free ob" and "ob_id ob = i"
proof -
  let ?n = "if chunksize tg = 0 then 4064 else chunksize tg"
  have extra: "4096 - ptr_align (ptr_align 12 15 + 4) 15 = (4064 :: nat)"
    by (simp add: ptr_align_def)
  have ob: "chunk ob = chunk_alloc tg (i, 0) ?n" "chunk_limit ob = chunk_alloc tg (i, 0) ?n + ?n"
    "object_base ob = ptr_align (chunk_alloc tg (i, 0) ?n + 16) 15" "next_free ob = object_base ob"
    "prev_chunks ob = []" "n_chunks ob = 1" "ob_id ob = i" "chunk_size ob = ?n"
    using extra by (simp_all add: ob_def obstack_begin_worker_def Let_def DEFAULT_ALIGNMENT_def
        DEFAULT_ROUNDING_def contents_off_def)
  show "object_base ob = next_free ob" "ob_id ob = i" using ob by simp_all
  have "32 \<le> ?n" "small ?n" using assms by (auto simp: build_ok_def small_def)
  moreover have "chunk ob + 16 \<le> object_base ob" "object_base ob \<le> chunk ob + 31"
    using ob ptr_align_ge [of "chunk ob + 16" 15] ptr_align_le [of "chunk ob + 16" 15] by simp_all
  ultimately show "ob_ok tg ob"
    using ob by (auto simp: ob_ok_def obstack_ok_def contents_off_def chunks_ok_def live_chunks_def)
qed

lemma new_frchain_spec:
  assumes bo: "build_ok tg" and inv: "chains_inv tg None g"
  shows "\<exists>newP g1 p. new_frchain tg ss g = Inr (newP, g1) \<and> frch_subseg newP = ss
    \<and> frch_frag_now newP = frch_last newP \<and> ob_id (frch_obstack newP) = n_frchains g
    \<and> chain_ok tg (frags g1) newP [p] \<and> seg_info g1 = seg_info g \<and> n_frchains g1 = n_frchains g + 1
    \<and> now_seg g1 = now_seg g \<and> now_subseg g1 = now_subseg g
    \<and> first_frag (fr_flags (frags g1 p)) \<and> fr_type (frags g1 p) = rs_fill
    \<and> (\<forall>sg c ids. has_chain g sg c \<longrightarrow> chain_ok tg (frags g) c ids \<longrightarrow> chain_ok tg (frags g1) c ids)"
proof -
  let ?ob = "(obstack_begin_worker (chunk_alloc tg) (n_frchains g) (chunksize tg) 0)
               \<lparr>alignment_mask := alignof_frag tg - 1\<rparr>"
  note O = obstack_begin_ok [OF bo, where i = "n_frchains g" and m = "alignof_frag tg - 1"]
  have tg: "target_ok tg" using bo by (simp add: build_ok_def)
  obtain p ob' where A: "frag_alloc_ob tg ?ob 0 = Inr (p, ob')" "alloc_effect tg ?ob p ob'"
    using frag_alloc_ob_spec [OF tg O(1,2)] by blast
  have ob': "ob_ok tg ob'" "ob_id ob' = n_frchains g" "located tg ob' p"
    "object_base ob' = p + sizeof_struct_frag tg"
    using A(2) O(3) by (simp_all add: alloc_effect_def)
  define f where "f = zero_frag\<lparr>fr_type := rs_fill, fr_flags := no_flags\<lparr>first_frag := True\<rparr>\<rparr>"
  define newP where "newP = \<lparr>frch_root = Some p, frch_last = Some p, frch_subseg = ss, frch_obstack = ob',
      frch_frag_now = Some p, frch_fixes = []\<rparr>"
  define g1 where "g1 = g\<lparr>frags := (frags g)(p := f), totalfrags := totalfrags g + 1,
      n_frchains := n_frchains g + 1\<rparr>"
  have "f = zero_frag\<lparr>fr_type := rs_fill, fr_flags := fr_flags zero_frag\<lparr>first_frag := True\<rparr>\<rparr>"
    by (simp add: f_def zero_frag_def)
  then have "new_frchain tg ss g = Inr (newP, g1)"
    using A(1) by (simp add: new_frchain_def frag_alloc_def upd_frag_def newP_def g1_def Let_def)
  moreover have "chain_ok tg (frags g1) newP [p]"
    using ob' by (simp add: chain_ok_def newP_def g1_def f_def zero_frag_def)
  moreover have "chain_ok tg (frags g1) c ids" if c: "has_chain g sg c" "chain_ok tg (frags g) c ids" for sg c ids
  proof (rule chain_ok_frame [OF c(2)])
    fix q assume q: "q \<in> set ids"
    have "ob_id (frch_obstack c) \<noteq> ob_id ob'"
      using inv c(1) ob'(2) unfolding chains_inv_def by (metis less_irrefl)
    then have "q \<noteq> p"
      using located_other [OF tg _ ob'(1) _ _ ob'(3)] c(2) q by (auto simp: chain_ok_def)
    then show "fr_next (frags g1 q) = fr_next (frags g q)" by (simp add: g1_def)
  qed
  moreover have "first_frag (fr_flags (frags g1 p))" "fr_type (frags g1 p) = rs_fill"
    by (simp_all add: g1_def f_def)
  ultimately show ?thesis
    using ob'(2) by (intro exI [of _ newP] exI [of _ g1] exI [of _ p]) (simp add: newP_def g1_def)
qed

text \<open>Finding or making the chain of a subsegment.\<close>

lemma has_chain_insert:
  assumes "seg_info g1 = seg_info g" and "seg_info g seg = Some si" and "frchainP si = pre @ post"
  shows "has_chain (g1\<lparr>seg_info := (seg_info g1)(seg \<mapsto> si\<lparr>frchainP := pre @ newP # post\<rparr>)\<rparr>) sg fc
    \<longleftrightarrow> has_chain g sg fc \<or> (sg = seg \<and> fc = newP)"
  using assms by (auto simp: has_chain_def)

lemma make_frchain_spec:
  assumes bo: "build_ok tg" and inv: "chains_inv tg None g" and si: "seg_info g seg = Some si"
  shows "\<exists>fc g1. make_frchain tg seg ss g = Inr (fc, g1) \<and> chains_inv tg None g1
    \<and> has_chain g1 seg fc \<and> frch_subseg fc = ss \<and> now_seg g1 = now_seg g \<and> now_subseg g1 = now_subseg g
    \<and> (\<forall>sg c. has_chain g sg c \<longrightarrow> has_chain g1 sg c)
    \<and> (\<forall>sg c ids. has_chain g sg c \<longrightarrow> chain_ok tg (frags g) c ids \<longrightarrow> chain_ok tg (frags g1) c ids)"
proof -
  obtain pre post where fs: "find_subseg ss (frchainP si) = (pre, post)" by fastforce
  have sorted: "sorted_wrt (<) (map frch_subseg (frchainP si))"
    using inv si unfolding chains_inv_def by blast
  note sp = find_subseg_split [OF fs sorted]
  show ?thesis
  proof (cases "post = [] \<or> frch_subseg (hd post) \<noteq> ss")
    case True
    obtain newP g1 p where N: "new_frchain tg ss g = Inr (newP, g1)" "frch_subseg newP = ss"
      "frch_frag_now newP = frch_last newP" "ob_id (frch_obstack newP) = n_frchains g"
      "chain_ok tg (frags g1) newP [p]" "seg_info g1 = seg_info g" "n_frchains g1 = n_frchains g + 1"
      "now_seg g1 = now_seg g" "now_subseg g1 = now_subseg g"
      "\<And>sg c ids. has_chain g sg c \<Longrightarrow> chain_ok tg (frags g) c ids \<Longrightarrow> chain_ok tg (frags g1) c ids"
      using new_frchain_spec [OF bo inv] by metis
    define g2 where "g2 = g1\<lparr>seg_info := (seg_info g1)(seg \<mapsto> si\<lparr>frchainP := pre @ newP # post\<rparr>)\<rparr>"
    have hc: "has_chain g2 sg fc \<longleftrightarrow> has_chain g sg fc \<or> (sg = seg \<and> fc = newP)" for sg fc
      unfolding g2_def by (rule has_chain_insert) (use N(6) si sp in simp_all)
    have "\<forall>c \<in> set post. ss < frch_subseg c"
      using sp True sorted by (cases post) (auto simp: sorted_wrt_append)
    then have "sorted_wrt (<) (map frch_subseg (pre @ newP # post))"
      using sp sorted N(2) by (auto simp: sorted_wrt_append)
    then have so: "sorted_wrt (<) (map frch_subseg (frchainP si'))" if "seg_info g2 sg = Some si'" for sg si'
      using that inv N(6) by (auto simp: g2_def chains_inv_def split: if_splits)
    have old: "ob_id (frch_obstack fc) < n_frchains g" "\<exists>ids. chain_ok tg (frags g1) fc ids"
      "frch_frag_now fc = frch_last fc" if "has_chain g sg fc" for sg fc
      using that inv N(10) unfolding chains_inv_def by blast+
    have fld: "frags g2 = frags g1" "n_frchains g2 = n_frchains g + 1" "now_seg g2 = now_seg g"
      "now_subseg g2 = now_subseg g"
      using N(7-9) by (simp_all add: g2_def)
    have "chains_inv tg None g2"
      unfolding chains_inv_def hc fld
    proof (intro conjI allI impI)
      fix sg fc sg' fc' assume h: "has_chain g sg fc \<or> sg = seg \<and> fc = newP"
        "has_chain g sg' fc' \<or> sg' = seg \<and> fc' = newP" "ob_id (frch_obstack fc) = ob_id (frch_obstack fc')"
      then show "sg = sg'" "fc = fc'"
        using old(1) N(4) inv unfolding chains_inv_def by (metis less_irrefl)+
    next
      fix sg fc assume "has_chain g sg fc \<or> sg = seg \<and> fc = newP"
      then show "\<exists>ids. chain_ok tg (frags g1) fc ids" "ob_id (frch_obstack fc) < n_frchains g + 1"
        "frch_frag_now fc = frch_last fc"
        using old N(3,4,5) by (auto intro: less_SucI)
    qed (use so in blast)
    moreover have "make_frchain tg seg ss g = Inr (newP, g2)"
      using si fs True N(1) by (auto simp: make_frchain_def g2_def)
    ultimately show ?thesis using hc N(2,10) fld by auto
  next
    case False
    then have "has_chain g seg (hd post)" using si sp by (cases post) (auto simp: has_chain_def)
    then show ?thesis using si fs False inv by (auto simp: make_frchain_def)
  qed
qed

lemma chains_inv_weaken: "chains_inv tg None g \<Longrightarrow> chains_inv tg e (g\<lparr>frchain_now := k, frag_now := q\<rparr>)"
  unfolding chains_inv_def has_chain_def by simp

lemma subseg_set_rest_spec:
  assumes bo: "build_ok tg" and inv: "gas_inv tg g"
  shows "\<exists>g' fc. subseg_set_rest tg seg ss g = Inr g' \<and> gas_inv tg g' \<and> now_seg g' = seg
    \<and> now_subseg g' = ss \<and> the_frchain g' = Some fc \<and> frch_subseg fc = ss \<and> frch_last fc = Some (frag_now g')
    \<and> (\<forall>sg c ids. has_chain g sg c \<longrightarrow> chain_ok tg (frags g) c ids \<longrightarrow> chain_ok tg (frags g') c ids)"
proof -
  let ?g1 = "upd_frchain (\<lambda>c. c\<lparr>frch_frag_now := Some (frag_now g)\<rparr>) (g\<lparr>mri_common_symbol := None\<rparr>)"
  let ?g2 = "subseg_change seg ss ?g1"
  note c1 = chains_inv_save [OF inv]
  note c2 = chains_inv_subseg_change [OF c1, of seg ss]
  have now2: "now_seg ?g2 = seg" "now_subseg ?g2 = ss"
    by (simp_all add: subseg_change_def alloc_seginfo_def Let_def)
  have as: "frchain_now ?g1 = None \<or> map_option frch_last (the_frchain ?g1) = Some (Some (frag_now ?g1))"
  proof (cases "frchain_now g")
    case (Some k)
    then obtain fc where "the_frchain g = Some fc" "frch_last fc = Some (frag_now g)"
      using inv by (auto simp: gas_inv_def split: prod.splits)
    moreover have "the_frchain (g\<lparr>mri_common_symbol := None\<rparr>) = the_frchain g"
      by (rule the_frchain_cong) simp_all
    ultimately have "the_frchain ?g1 = Some (fc\<lparr>frch_frag_now := Some (frag_now g)\<rparr>)"
      using the_frchain_upd by simp
    then show ?thesis using \<open>frch_last fc = _\<close> by simp
  qed simp
  obtain si where si: "seg_info ?g2 seg = Some si" using c2(2) by blast
  obtain fc g3 where M: "make_frchain tg seg ss ?g2 = Inr (fc, g3)" "chains_inv tg None g3"
    "has_chain g3 seg fc" "frch_subseg fc = ss" "now_seg g3 = seg" "now_subseg g3 = ss"
    "\<forall>sg c ids. has_chain ?g2 sg c \<longrightarrow> chain_ok tg (frags ?g2) c ids \<longrightarrow> chain_ok tg (frags g3) c ids"
    using make_frchain_spec [OF bo c2(1) si, of ss] now2 by auto
  obtain fn where fn: "frch_frag_now fc = Some fn" "frch_last fc = Some fn"
    using M(2,3) unfolding chains_inv_def chain_ok_def by (metis option.distinct(1))
  let ?g4 = "g3\<lparr>frchain_now := Some (seg, ss), frag_now := fn\<rparr>"
  have c4: "chains_inv tg (Some (seg, ss)) ?g4" using chains_inv_weaken [OF M(2)] .
  have hc4: "has_chain ?g4 seg fc" using M(3) by (simp add: has_chain_def)
  have th: "the_frchain ?g4 = Some fc"
    using the_frchain_sorted [OF c4 hc4] M(4) by simp
  have "subseg_set_rest tg seg ss g = Inr ?g4"
    using as M(1) fn th by (simp add: subseg_set_rest_def Let_def gas_assert_def)
  moreover have "gas_inv tg ?g4"
    using c4 M(5,6) th fn by (auto simp: gas_inv_def)
  moreover have "chain_ok tg (frags ?g4) c ids" if c: "has_chain g sg c" "chain_ok tg (frags g) c ids" for sg c ids
  proof -
    have "has_chain ?g2 sg' c' \<longleftrightarrow> has_chain ?g1 sg' c'" for sg' c'
      by (auto simp: has_chain_def subseg_change_def alloc_seginfo_def empty_segment_def Let_def)
    moreover have "has_chain (g\<lparr>mri_common_symbol := None\<rparr>) sg c" using c(1) by (simp add: has_chain_def)
    then obtain c' where "has_chain ?g1 sg c'" "c' = c \<or> c' = c\<lparr>frch_frag_now := Some (frag_now g)\<rparr>"
      unfolding has_chain_upd_frchain by metis
    moreover from this(2) have "chain_ok tg (frags ?g2) c' ids \<longleftrightarrow> chain_ok tg (frags g) c ids"
      "chain_ok tg (frags g3) c' ids \<longleftrightarrow> chain_ok tg (frags g3) c ids"
      using c2(3) by (auto simp: chain_ok_frag_now)
    ultimately show ?thesis using M(7) c(2) by auto
  qed
  ultimately show ?thesis using M(4-6) th fn by (intro exI [of _ ?g4] exI [of _ fc]) auto
qed

lemma gas_inv_chain:
  assumes "gas_inv tg g" and "frchain_now g \<noteq> None" and "now_seg g \<noteq> absolute_section"
  shows "\<exists>fc ids. chain_inv tg g fc ids \<and> has_chain g (now_seg g) fc \<and> frch_subseg fc = now_subseg g"
proof -
  obtain fc where fc: "the_frchain g = Some fc" "frch_last fc = Some (frag_now g)"
    "frchain_now g = Some (now_seg g, now_subseg g)"
    using assms(1,2) by (auto simp: gas_inv_def split: prod.splits)
  then have h: "has_chain g (now_seg g) fc" "frch_subseg fc = now_subseg g"
    using the_frchain_has [OF fc(1)] by auto
  then obtain ids where "chain_ok tg (frags g) fc ids"
    using assms(1) unfolding gas_inv_def chains_inv_def by blast
  then have "chain_inv tg g fc ids"
    using fc assms(3) by (simp add: chain_inv_def chain_ok_def frag_next_def [abs_def])
  with h show ?thesis by blast
qed

lemma frag_new_gas_inv:
  assumes bo: "build_ok tg" and inv: "gas_inv tg g" and cur: "frchain_now g \<noteq> None"
    and sg: "now_seg g \<noteq> absolute_section" and ty: "fr_type (frags g (frag_now g)) \<noteq> rs_dummy"
    and fc: "the_frchain g = Some fc" and n: "n \<le> obstack_object_size (frch_obstack fc)"
  shows "\<exists>g'. frag_new tg n g = Inr g' \<and> gas_inv tg g' \<and> frag_now g' \<noteq> frag_now g
    \<and> frag_next g' (frag_now g) = Some (frag_now g')
    \<and> frchain_now g' = frchain_now g \<and> now_seg g' = now_seg g
    \<and> fr_fix (frags g' (frag_now g)) = word_of_nat (obstack_object_size (frch_obstack fc) - n)"
proof -
  have tg: "target_ok tg" using bo by (simp add: build_ok_def)
  obtain ids where ci: "chain_inv tg g fc ids" "has_chain g (now_seg g) fc" "frch_subseg fc = now_subseg g"
    using gas_inv_chain [OF inv cur sg] fc by (auto simp: chain_inv_def)
  have inv1: "chains_inv tg (frchain_now g) g" and now: "frchain_now g = Some (now_seg g, now_subseg g)"
    using inv cur by (auto simp: gas_inv_def split: option.splits)
  obtain ptr ob' where N: "alloc_effect tg (frch_obstack fc) ptr ob'" "ptr \<notin> set ids"
    "frag_new tg n g = Inr (started (word_of_nat (obstack_object_size (frch_obstack fc) - n)) ptr ob' g)"
    "chain_inv tg (started (word_of_nat (obstack_object_size (frch_obstack fc) - n)) ptr ob' g)
        (fc\<lparr>frch_last := Some ptr, frch_obstack := ob'\<rparr>) (ids @ [ptr])"
    using frag_new_step [OF tg ci(1) ty n] by blast
  let ?y = "word_of_nat (obstack_object_size (frch_obstack fc) - n) :: u64"
  let ?st = "(frags g)(frag_now g := (frags g (frag_now g))\<lparr>fr_fix := ?y, fr_next := Some ptr\<rparr>,
      ptr := zero_frag\<lparr>frag_index := totalfrags g + 1\<rparr>)"
  let ?h = "g\<lparr>frags := ?st, totalfrags := totalfrags g + 1, frag_now := ptr\<rparr>"
  let ?f = "\<lambda>c. c\<lparr>frch_last := Some ptr, frch_obstack := ob'\<rparr>"
  have st: "started ?y ptr ob' g = upd_frchain ?f ?h" by (simp add: started_def)
  have ob: "ob_ok tg (frch_obstack fc)" "ob_ok tg ob'" "ob_id ob' = ob_id (frch_obstack fc)" "located tg ob' ptr"
    "located tg (frch_obstack fc) (frag_now g)"
    using ci(1) N(1) by (auto simp: chain_inv_def alloc_effect_def)
  have cc: "chains_inv tg (frchain_now g) (upd_frchain ?f ?h)"
  proof (rule chains_inv_upd_frchain [OF inv1])
    fix sg' c assume c: "has_chain g sg' c" "frchain_now g \<noteq> Some (sg', frch_subseg c)"
    then have "c \<noteq> fc \<or> sg' \<noteq> now_seg g" using now ci(3) by auto
    then have id: "ob_id (frch_obstack c) \<noteq> ob_id (frch_obstack fc)"
      using inv1 c(1) ci(2) unfolding chains_inv_def by blast
    obtain js where js: "chain_ok tg (frags g) c js" "frch_frag_now c = frch_last c"
      using inv1 c unfolding chains_inv_def by metis
    have "r \<noteq> ptr" "r \<noteq> frag_now g" if "r \<in> set js" for r
      using located_other [OF tg _ ob(2) _ _ ob(4), of "frch_obstack c" r]
        located_other [OF tg _ ob(1) _ _ ob(5), of "frch_obstack c" r] js(1) that id ob(3)
      by (auto simp: chain_ok_def)
    then have "chain_ok tg ?st c js" by (intro chain_ok_frame [OF js(1)]) auto
    then show "(\<exists>ids. chain_ok tg (frags ?h) c ids)
      \<and> (Some (sg', frch_subseg c) \<noteq> frchain_now g \<longrightarrow> frch_frag_now c = frch_last c)"
      using js(2) by auto
  next
    fix sg' c assume "has_chain g sg' c" "frchain_now g = Some (sg', frch_subseg c)"
    then have "c = fc" using the_frchain_sorted [OF inv1] fc by auto
    moreover have "chain_ok tg (frags ?h) (?f fc) (ids @ [ptr])"
      using N(4) unfolding st by (simp add: chain_inv_def chain_ok_def frag_next_def [abs_def])
    ultimately show "(\<exists>ids. chain_ok tg (frags ?h) (?f c) ids) \<and> ob_id (frch_obstack (?f c)) = ob_id (frch_obstack c)
      \<and> (Some (sg', frch_subseg c) \<noteq> frchain_now g \<longrightarrow> frch_frag_now (?f c) = frch_last (?f c))"
      using ob(3) \<open>frchain_now g = Some (sg', frch_subseg c)\<close> by auto
  qed simp_all
  have "the_frchain (upd_frchain ?f ?h) = Some (?f fc)" using N(4) unfolding st by (simp add: chain_inv_def)
  moreover have "now_subseg (upd_frchain ?f ?h) = now_subseg g"
    by (simp add: upd_frchain_def split: option.split prod.split)
  ultimately have "gas_inv tg (upd_frchain ?f ?h)" using cc now by (simp add: gas_inv_def)
  moreover have "ptr \<noteq> frag_now g" using N(2) ci(1) by (auto simp: chain_inv_def)
  ultimately show ?thesis using N(3) by (simp add: st frag_next_def)
qed

section \<open>A concrete assembler\<close>

text \<open>A build and the state before the first segment is entered, as instances for the theorems.\<close>

definition sample_target :: target where
  "sample_target = \<lparr>chunk_alloc = (\<lambda>(i, k) n. 2 ^ 60 * (prod_encode (i, k) + 1)), sizeof_struct_frag = 128,
     alignof_frag = 8, chunksize = 64\<rparr>"

definition boot_gas :: gas where
  "boot_gas = \<lparr>mem = (\<lambda>_. 0), frags = (\<lambda>_. zero_frag), syms = (\<lambda>_. \<lparr>sy_name = [], local_symbol = False,
     sy_frag = None, sy_seg = undefined_section, section_sym = False, sy_value = 0, jmp_table_size = 0,
     jmp_entry_size = 0, call_flow_symbol = False, memory_access_symbol = False, bind_bytes = False\<rparr>),
     n_syms = 0, sym_chain = [], seg_info = (\<lambda>_. None), now_seg = undefined_section, now_subseg = 0,
     frchain_now = None, frag_now = 0, totalfrags = 0, n_frchains = 0, abs_section_offset = 0,
     frags_chained = False, mri_common_symbol = None, fiy_dcollect = True, fiy_dsplit = False,
     text_cur_symbol = None, cur_func_name = None, is_in_func = False, is_finish_subseg = False,
     flash_symbol_point = False, total_hardcoded_bytes = 0, direct_code_num = 0, direct_data_num = 0,
     fall_through_num = 0\<rparr>"

definition text_gas :: gas where
  "text_gas = (case subseg_set sample_target text_section 0 boot_gas of Inr g \<Rightarrow> g | Inl _ \<Rightarrow> boot_gas)"

lemma malloc_law_sample: "malloc_law (chunk_alloc sample_target)"
  unfolding malloc_law_def
proof (intro allI impI)
  fix r r' :: "nat \<times> nat" and m n :: nat
  assume r: "r \<noteq> r'" and s: "small m" "small n"
  have "prod_encode r \<noteq> prod_encode r'" using r by (simp add: prod_encode_eq)
  moreover have "a < b \<Longrightarrow> j < 2 ^ 60 \<Longrightarrow> 2 ^ 60 * (a + 1) + j \<le> 2 ^ 60 * (b + 1)" for a b j :: nat
    by simp
  ultimately show "chunk_alloc sample_target r m + m \<le> chunk_alloc sample_target r' n
      \<or> chunk_alloc sample_target r' n + n \<le> chunk_alloc sample_target r m"
    using s unfolding sample_target_def small_def neq_iff
    by (cases r; cases r') (auto simp del: prod.inject power_Suc)
qed

lemma sample_build_ok: "build_ok sample_target"
  using malloc_law_sample
  by (simp add: build_ok_def target_ok_def small_def) (simp add: sample_target_def)

lemma boot_gas_inv: "gas_inv sample_target boot_gas"
  by (simp add: gas_inv_def chains_inv_def has_chain_def boot_gas_def)

lemma subseg_set_change:
  "subseg_set tg seg ss g = (if seg = now_seg g \<and> ss = now_subseg g then Inr (g\<lparr>mri_common_symbol := None\<rparr>)
     else bindE (subseg_set_rest tg seg ss g) (\<lambda>g1. Inr (g1\<lparr>mri_common_symbol := None\<rparr>)))"
  by (simp add: subseg_set_def)

lemma gas_inv_mri: "gas_inv tg (g\<lparr>mri_common_symbol := c\<rparr>) = gas_inv tg g"
proof -
  have "the_frchain (g\<lparr>mri_common_symbol := c\<rparr>) = the_frchain g" by (rule the_frchain_cong) simp_all
  moreover have "chains_inv tg e (g\<lparr>mri_common_symbol := c\<rparr>) = chains_inv tg e g" for e
    by (simp add: chains_inv_def has_chain_def)
  ultimately show ?thesis by (simp add: gas_inv_def cong: option.case_cong)
qed

lemma subseg_set_spec:
  assumes "build_ok tg" and "gas_inv tg g" and "frchain_now g \<noteq> None \<or> seg \<noteq> now_seg g"
  shows "\<exists>g'. subseg_set tg seg ss g = Inr g' \<and> gas_inv tg g' \<and> now_seg g' = seg \<and> now_subseg g' = ss
    \<and> frchain_now g' \<noteq> None \<and> mri_common_symbol g' = None
    \<and> (\<forall>sg c ids. has_chain g sg c \<longrightarrow> chain_ok tg (frags g) c ids \<longrightarrow> chain_ok tg (frags g') c ids)"
proof (cases "seg = now_seg g \<and> ss = now_subseg g")
  case True
  then show ?thesis using assms by (simp add: subseg_set_change gas_inv_mri)
next
  case False
  obtain g' fc where R: "subseg_set_rest tg seg ss g = Inr g'" "gas_inv tg g'" "now_seg g' = seg"
    "now_subseg g' = ss" "the_frchain g' = Some fc"
    "\<forall>sg c ids. has_chain g sg c \<longrightarrow> chain_ok tg (frags g) c ids \<longrightarrow> chain_ok tg (frags g') c ids"
    using subseg_set_rest_spec [OF assms(1,2)] by blast
  then have "frchain_now g' \<noteq> None" using the_frchain_has by fastforce
  then show ?thesis using R False by (auto simp: subseg_set_change gas_inv_mri)
qed

lemma chains_disjoint:
  assumes "build_ok tg" and "gas_inv tg g" and "has_chain g sg c" and "has_chain g sg' c'"
    and "chain_ok tg (frags g) c ids" and "chain_ok tg (frags g) c' ids'" and "(sg, c) \<noteq> (sg', c')"
  shows "set ids \<inter> set ids' = {}"
proof -
  have "ob_id (frch_obstack c) \<noteq> ob_id (frch_obstack c')"
    using assms(2,3,4,7) unfolding gas_inv_def chains_inv_def by blast
  moreover have "target_ok tg" using assms(1) by (simp add: build_ok_def)
  ultimately show ?thesis
    using assms(5,6) located_other [of tg "frch_obstack c" "frch_obstack c'"]
    by (fastforce simp: chain_ok_def)
qed

lemma frag_now_other_chain:
  assumes "build_ok tg" and "gas_inv tg g" and "frchain_now g \<noteq> None" and "now_seg g \<noteq> absolute_section"
    and "has_chain g sg c" and "frchain_now g \<noteq> Some (sg, frch_subseg c)" and "chain_ok tg (frags g) c ids"
  shows "frag_now g \<notin> set ids"
proof -
  obtain fc js where fc: "chain_inv tg g fc js" "has_chain g (now_seg g) fc" "frch_subseg fc = now_subseg g"
    using gas_inv_chain [OF assms(2-4)] by blast
  have "frchain_now g = Some (now_seg g, now_subseg g)"
    using assms(2,3) by (auto simp: gas_inv_def split: option.splits)
  then have "(now_seg g, fc) \<noteq> (sg, c)" using fc(3) assms(6) by auto
  moreover have "chain_ok tg (frags g) fc js" "frag_now g \<in> set js"
    using fc(1) by (auto simp: chain_inv_def chain_ok_def frag_next_def [abs_def])
  ultimately show ?thesis using chains_disjoint [OF assms(1,2) fc(2) assms(5)] assms(7) by blast
qed

lemma gas_inv_upd_frag:
  assumes "\<And>x. fr_next (f x) = fr_next x"
  shows "gas_inv tg (upd_frag p f g) = gas_inv tg g"
proof -
  have "chain_ok tg (frags (upd_frag p f g)) c ids = chain_ok tg (frags g) c ids" for c ids
    using assms by (auto intro: chain_ok_frame simp: frags_upd_frag split: if_splits)
  then have "chains_inv tg e (upd_frag p f g) = chains_inv tg e g" for e
    by (simp add: chains_inv_def has_chain_def) (simp add: upd_frag_def)
  moreover have "now_subseg (upd_frag p f g) = now_subseg g" by (simp add: upd_frag_def)
  ultimately show ?thesis by (simp add: gas_inv_def cong: option.case_cong)
qed

lemma text_gas_spec:
  "gas_inv sample_target text_gas" "now_seg text_gas = text_section" "frchain_now text_gas \<noteq> None"
  "mri_common_symbol text_gas = None"
proof -
  obtain g' where "subseg_set sample_target text_section 0 boot_gas = Inr g'" "gas_inv sample_target g'"
    "now_seg g' = text_section" "frchain_now g' \<noteq> None" "mri_common_symbol g' = None"
    using subseg_set_spec [OF sample_build_ok boot_gas_inv, of text_section 0] by (auto simp: boot_gas_def)
  then show "gas_inv sample_target text_gas" "now_seg text_gas = text_section" "frchain_now text_gas \<noteq> None"
    "mri_common_symbol text_gas = None"
    by (simp_all add: text_gas_def)
qed

lemma upd_frchain_collect [simp]:
  "fiy_dcollect (subseg_change sg ss g) = fiy_dcollect g"
  "is_finish_subseg (subseg_change sg ss g) = is_finish_subseg g"
  by (simp_all add: subseg_change_def alloc_seginfo_def Let_def)

lemma new_frchain_collect:
  "new_frchain tg ss g = Inr (c, g1) \<Longrightarrow> fiy_dcollect g1 = fiy_dcollect g \<and> is_finish_subseg g1 = is_finish_subseg g"
  by (auto simp: new_frchain_def frag_alloc_def Let_def)

lemma make_frchain_collect:
  assumes "make_frchain tg seg ss g = Inr (c, g1)"
  shows "fiy_dcollect g1 = fiy_dcollect g \<and> is_finish_subseg g1 = is_finish_subseg g"
proof -
  obtain si where si: "seg_info g seg = Some si" using assms by (auto simp: make_frchain_def)
  obtain pre post where "find_subseg ss (frchainP si) = (pre, post)" by fastforce
  with assms si show ?thesis
    by (auto simp: make_frchain_def dest: new_frchain_collect split: if_splits)
qed

lemma subseg_set_collect:
  "subseg_set tg seg ss g = Inr g' \<Longrightarrow> fiy_dcollect g' = fiy_dcollect g \<and> is_finish_subseg g' = is_finish_subseg g"
  by (auto simp: subseg_set_def subseg_set_rest_def Let_def dest!: make_frchain_collect split: if_splits)

lemma text_gas_flags: "fiy_dcollect text_gas" "\<not> is_finish_subseg text_gas"
proof -
  obtain g' where "subseg_set sample_target text_section 0 boot_gas = Inr g'"
    using subseg_set_spec [OF sample_build_ok boot_gas_inv, of text_section 0] by (auto simp: boot_gas_def)
  with subseg_set_collect [OF this] show "fiy_dcollect text_gas" "\<not> is_finish_subseg text_gas"
    by (simp_all add: text_gas_def) (simp_all add: boot_gas_def)
qed

lemma text_gas_chain: "\<exists>fc ids. chain_inv sample_target text_gas fc ids"
  using gas_inv_chain [OF text_gas_spec(1,3)] text_gas_spec(2) by auto

section \<open>Properties\<close>

text \<open>C17: Entering a subsegment always succeeds, makes it current, keeps every existing chain as it
  is, and leaves the frags of different chains of all segments disjoint.\<close>

theorem subseg_set_partitions:
  assumes "build_ok tg" and "gas_inv tg g" and "frchain_now g \<noteq> None \<or> seg \<noteq> now_seg g"
  shows "\<exists>g'. subseg_set tg seg ss g = Inr g' \<and> gas_inv tg g' \<and> now_seg g' = seg \<and> now_subseg g' = ss
    \<and> (\<forall>sg c ids. has_chain g sg c \<longrightarrow> chain_ok tg (frags g) c ids \<longrightarrow> chain_ok tg (frags g') c ids)
    \<and> (\<forall>sg c ids sg' c' ids'. has_chain g' sg c \<longrightarrow> has_chain g' sg' c' \<longrightarrow> (sg, c) \<noteq> (sg', c') \<longrightarrow>
         chain_ok tg (frags g') c ids \<longrightarrow> chain_ok tg (frags g') c' ids' \<longrightarrow> set ids \<inter> set ids' = {})"
proof -
  obtain g' where g': "subseg_set tg seg ss g = Inr g'" "gas_inv tg g'" "now_seg g' = seg" "now_subseg g' = ss"
    "\<forall>sg c ids. has_chain g sg c \<longrightarrow> chain_ok tg (frags g) c ids \<longrightarrow> chain_ok tg (frags g') c ids"
    using subseg_set_spec [OF assms] by blast
  then show ?thesis using chains_disjoint [OF assms(1) g'(2)] by blast
qed

theorem subseg_set_partitions_witness:
  "\<exists>g'. subseg_set sample_target text_section 0 boot_gas = Inr g' \<and> gas_inv sample_target g'
     \<and> now_seg g' = text_section"
proof -
  have "frchain_now boot_gas \<noteq> None \<or> text_section \<noteq> now_seg boot_gas" by (simp add: boot_gas_def)
  from subseg_set_partitions [OF sample_build_ok boot_gas_inv this, of 0] show ?thesis by blast
qed

text \<open>C20: Closing the current frag with \<open>frag_new\<close> succeeds whenever the variable part that is split
  off fits in it; it records the number of fixed octets and links a fresh frag behind, which belongs
  to no other chain, and the invariant of all chains is kept.\<close>

theorem frag_new_keeps_chains:
  assumes "build_ok tg" and "gas_inv tg g" and "frchain_now g \<noteq> None"
    and "now_seg g \<noteq> absolute_section" and "fr_type (frags g (frag_now g)) \<noteq> rs_dummy"
    and "the_frchain g = Some fc" and "n \<le> obstack_object_size (frch_obstack fc)"
  shows "\<exists>g'. frag_new tg n g = Inr g' \<and> gas_inv tg g' \<and> frag_now g' \<noteq> frag_now g
    \<and> frag_next g' (frag_now g) = Some (frag_now g')
    \<and> fr_fix (frags g' (frag_now g)) = word_of_nat (obstack_object_size (frch_obstack fc) - n)
    \<and> (\<forall>sg c ids. has_chain g' sg c \<longrightarrow> frchain_now g' \<noteq> Some (sg, frch_subseg c) \<longrightarrow>
         chain_ok tg (frags g') c ids \<longrightarrow> frag_now g' \<notin> set ids)"
proof -
  obtain g' where g': "frag_new tg n g = Inr g'" "gas_inv tg g'" "frag_now g' \<noteq> frag_now g"
    "frag_next g' (frag_now g) = Some (frag_now g')" "frchain_now g' = frchain_now g" "now_seg g' = now_seg g"
    "fr_fix (frags g' (frag_now g)) = word_of_nat (obstack_object_size (frch_obstack fc) - n)"
    using frag_new_gas_inv [OF assms] by blast
  then have "frag_now g' \<notin> set ids" if "has_chain g' sg c" "frchain_now g' \<noteq> Some (sg, frch_subseg c)"
    "chain_ok tg (frags g') c ids" for sg c ids
    using that frag_now_other_chain [OF assms(1) g'(2)] assms(3,4) by simp
  with g' show ?thesis by blast
qed

theorem frag_new_keeps_chains_witness:
  "\<exists>g'. frag_new sample_target 0 (frag_wane (frag_now text_gas) text_gas) = Inr g'
     \<and> gas_inv sample_target g' \<and> frag_next g' (frag_now text_gas) = Some (frag_now g')"
proof -
  let ?g = "frag_wane (frag_now text_gas) text_gas"
  have 1: "gas_inv sample_target ?g" "frchain_now ?g \<noteq> None" "now_seg ?g \<noteq> absolute_section"
    "fr_type (frags ?g (frag_now ?g)) \<noteq> rs_dummy" "frag_now ?g = frag_now text_gas"
    using text_gas_spec by (simp_all add: frag_wane_def gas_inv_upd_frag wane_def frags_upd_frag)
  obtain fc where "the_frchain ?g = Some fc"
    using gas_inv_chain [OF 1(1-3)] by (auto simp: chain_inv_def)
  from frag_new_keeps_chains [OF sample_build_ok 1(1-4) this, of 0] 1(5) show ?thesis by auto
qed

text \<open>C13: \<open>frag_more\<close> always delivers the room asked for: the octets it hands out lie behind the current
  frag's fixed part and inside its obstack chunk.  If a new frag had to be opened, the old one is
  closed with exactly the octets it had, and, in a file that is being analysed, every frag opened
  inherits the mark of a half-written instruction frag.\<close>

theorem frag_more_reserves:
  assumes "target_ok tg" and "chain_inv tg g fc ids" and "request_ok tg n" and "mri_common_symbol g = None"
  shows "\<exists>p g' fc' new. frag_more tg n g = Inr (p, g') \<and> chain_inv tg g' fc' (ids @ new)
    \<and> p = frag_now g' + sizeof_struct_frag tg
            + (if new = [] then obstack_object_size (frch_obstack fc) else 0)
    \<and> next_free (frch_obstack fc') = p + n \<and> p + n \<le> chunk_limit (frch_obstack fc')
    \<and> (new \<noteq> [] \<longrightarrow> fr_fix (frags g' (last ids)) = word_of_nat (obstack_object_size (frch_obstack fc))
         \<and> fr_type (frags g' (last ids)) = rs_fill \<and> fr_var (frags g' (last ids)) = 0)
    \<and> (\<forall>q \<in> set new. insn_frag (fr_flags (frags g' q)) = grow_flag tg g)"
proof -
  obtain g' g1 fc1 new where M: "frag_more tg n g = Inr (next_free (frch_obstack fc1), g')"
    "g' = upd_frchain (\<lambda>c. c\<lparr>frch_obstack := obstack_blank_fast (frch_obstack c) n\<rparr>) g1"
    "chain_inv tg g' (fc1\<lparr>frch_obstack := obstack_blank_fast (frch_obstack fc1) n\<rparr>) (ids @ new)"
    "grown (grow_flag tg g) g fc ids g1 fc1 new" "n \<le> obstack_room (frch_obstack fc1)"
    "chain_inv tg g1 fc1 (ids @ new)"
    using frag_more_spec [OF assms] by blast
  let ?fc = "fc1\<lparr>frch_obstack := obstack_blank_fast (frch_obstack fc1) n\<rparr>"
  have b: "object_base (frch_obstack fc1) = frag_now g' + sizeof_struct_frag tg"
    "next_free (frch_obstack fc1) + n \<le> chunk_limit (frch_obstack fc1)"
    using M(3,5) by (auto simp: chain_inv_def obstack_blank_fast_def ob_ok_def obstack_ok_def)
  have o: "obstack_object_size (frch_obstack fc1) = (if new = [] then obstack_object_size (frch_obstack fc) else 0)"
    using M(4) by (auto simp: grown_def split: if_splits)
  have "object_base (frch_obstack fc1) \<le> next_free (frch_obstack fc1)"
    using M(6) by (simp add: chain_inv_def ob_ok_def obstack_ok_def)
  then have "next_free (frch_obstack fc1) = frag_now g' + sizeof_struct_frag tg
      + (if new = [] then obstack_object_size (frch_obstack fc) else 0)"
    using b(1) o by (simp add: obstack_object_size_def)
  moreover have "frags g' = frags g1" using M(2) by simp
  ultimately show ?thesis
    using M(1,3,4) b(2) by (intro exI [of _ "next_free (frch_obstack fc1)"] exI [of _ g'] exI [of _ ?fc] exI [of _ new])
      (auto simp: grown_def obstack_blank_fast_def split: if_splits)
qed

theorem frag_more_reserves_witness:
  "\<exists>p g'. frag_more sample_target 1000 text_gas = Inr (p, g') \<and> frag_now g' + 128 \<le> p"
proof -
  obtain fc ids where "chain_inv sample_target text_gas fc ids" using text_gas_chain by blast
  moreover have "target_ok sample_target" "request_ok sample_target 1000" "sizeof_struct_frag sample_target = 128"
    using sample_build_ok by (simp_all add: build_ok_def request_ok_def small_def sample_target_def)
  ultimately show ?thesis
    using frag_more_reserves [of sample_target text_gas fc ids 1000] text_gas_spec(4) by fastforce
qed



text \<open>C23: For two frags of one chain, \<open>frag_offset_fixed_p\<close> ends and says in both directions that the
  distance is fixed exactly when every frag from the first up to the second is of type \<open>rs_fill\<close>; the
  distance is then the sum of the sizes in between, with opposite signs in the two directions.\<close>

theorem frag_offset_fixed_p_exact:
  assumes "follows st a ys b zs"
  defines "ok \<equiv> list_all (\<lambda>p. fr_type (st p) = rs_fill) (a # ys)"
  defines "d \<equiv> fr_address (st a) - fr_address (st b) + sum_list (map (\<lambda>p. fill_size (st p)) (a # ys))"
  shows "frag_offset_fixed_p st a b = Some (if ok then Some d else None)
    \<and> frag_offset_fixed_p st b a = Some (if ok then Some (- d) else None)"
proof -
  note F = followsD [OF assms(1)]
  let ?fill = "\<lambda>f. fr_type f = rs_fill"
  have neg: "sum_list (map (\<lambda>p. - fill_size (st p)) xs) = - sum_list (map (\<lambda>p. fill_size (st p)) xs)" for xs
    by (induction xs) auto
  have "frag_walk st ?fill fill_size a b off = Some None" for off
    by (rule frag_walk_miss [OF F(4,5)])
  moreover have "frag_walk st ?fill (\<lambda>f. - fill_size f) a b off = Some None" for off
    by (rule frag_walk_miss [OF F(4,5)])
  ultimately show ?thesis
    using F(3) frag_walk_hit [OF F(1,2)] neg [of "a # ys"]
    by (simp add: frag_offset_fixed_p_def Let_def ok_def d_def algebra_simps)
qed

theorem frag_offset_fixed_p_exact_witness:
  "\<exists>st. frag_offset_fixed_p st 1 2 = Some (Some 5) \<and> frag_offset_fixed_p st 2 1 = Some (Some (- 5))"
proof -
  let ?st = "(\<lambda>_. zero_frag)(1 := zero_frag\<lparr>fr_type := rs_fill, fr_fix := 5, fr_next := Some 2\<rparr>)"
  have "follows ?st 1 [] 2 []" by (simp add: follows_def zero_frag_def)
  from frag_offset_fixed_p_exact [OF this] show ?thesis
    by (intro exI [of _ ?st]) (simp add: fill_size_def zero_frag_def)
qed

end
