(* ===== verification/Symbols.thy ===== *)
theory Symbols
  imports Gas_State
begin

text \<open>
  Symbols (\<open>src/gas/symbols.c\<close>): the accessors the embedded-data collector uses, the doubly linked
  symbol chain, and the list of labels used by memory operands.  The chain is a store of links with
  the two end pointers; the list a chain stands for is read forwards from the root and backwards
  from the last symbol.
\<close>

section \<open>Accessors\<close>

definition S_GET_SEGMENT :: "symbol \<Rightarrow> segT" where
  "S_GET_SEGMENT s = sy_seg s"

text \<open>Section symbols are never moved to another segment; the multibyte warning is left out.\<close>

definition S_SET_SEGMENT :: "segT \<Rightarrow> symbol \<Rightarrow> symbol result" where
  "S_SET_SEGMENT seg s =
     (if local_symbol s then Inr (s\<lparr>sy_seg := seg\<rparr>)
      else if section_sym s then (if sy_seg s \<noteq> seg then Inl Abort else Inr s)
      else Inr (s\<lparr>sy_seg := seg\<rparr>))"

definition S_IS_CF_SYMBOL :: "(symP \<Rightarrow> symbol) \<Rightarrow> symP option \<Rightarrow> bool" where
  "S_IS_CF_SYMBOL sy s = (case s of None \<Rightarrow> False | Some p \<Rightarrow> call_flow_symbol (sy p))"

definition S_SET_CF_SYMBOL :: "symP option \<Rightarrow> (symP \<Rightarrow> symbol) \<Rightarrow> symP \<Rightarrow> symbol" where
  "S_SET_CF_SYMBOL s sy = (case s of None \<Rightarrow> sy | Some p \<Rightarrow> sy(p := (sy p)\<lparr>call_flow_symbol := True\<rparr>))"

definition S_IS_MA_SYMBOL :: "(symP \<Rightarrow> symbol) \<Rightarrow> symP option \<Rightarrow> bool" where
  "S_IS_MA_SYMBOL sy s = (case s of None \<Rightarrow> False | Some p \<Rightarrow> memory_access_symbol (sy p))"

definition S_SET_MA_SYMBOL :: "symP option \<Rightarrow> (symP \<Rightarrow> symbol) \<Rightarrow> symP \<Rightarrow> symbol" where
  "S_SET_MA_SYMBOL s sy = (case s of None \<Rightarrow> sy | Some p \<Rightarrow> sy(p := (sy p)\<lparr>memory_access_symbol := True\<rparr>))"

definition S_SET_BIND_INFO :: "symP \<Rightarrow> bool \<Rightarrow> (symP \<Rightarrow> symbol) \<Rightarrow> symP \<Rightarrow> symbol" where
  "S_SET_BIND_INFO p b sy = sy(p := (sy p)\<lparr>bind_bytes := b\<rparr>)"

definition S_GET_BIND_INFO :: "(symP \<Rightarrow> symbol) \<Rightarrow> symP \<Rightarrow> bool" where
  "S_GET_BIND_INFO sy p = bind_bytes (sy p)"

definition S_GET_JMPTBL_SIZE :: "symbol \<Rightarrow> u32" where
  "S_GET_JMPTBL_SIZE s = jmp_table_size s"

definition S_GET_JMPTBL_ENTRY_SZ :: "symbol \<Rightarrow> u32" where
  "S_GET_JMPTBL_ENTRY_SZ s = jmp_entry_size s"

definition S_SET_JMPTBL_SIZE :: "u32 \<Rightarrow> symbol \<Rightarrow> symbol" where
  "S_SET_JMPTBL_SIZE n s = s\<lparr>jmp_table_size := n\<rparr>"

definition S_SET_JMPTBL_ENTRY_SZ :: "u32 \<Rightarrow> symbol \<Rightarrow> symbol" where
  "S_SET_JMPTBL_ENTRY_SZ n s = s\<lparr>jmp_entry_size := n\<rparr>"

text \<open>\<open>local_symbol_make\<close> takes its structure from an obstack that does not clear memory and does not
  set the collector's fields: \<open>raw\<close> is what the memory held.\<close>

definition local_symbol_make :: "symbol \<Rightarrow> byte list \<Rightarrow> segT \<Rightarrow> fragP option \<Rightarrow> u64 \<Rightarrow> symbol" where
  "local_symbol_make raw name sec frag val =
     raw\<lparr>sy_name := name, local_symbol := True, sy_frag := frag, sy_seg := sec, section_sym := False,
         sy_value := val\<rparr>"

section \<open>The symbol chain\<close>

record symchain =
  sx_next :: "symP \<Rightarrow> symP option"
  sx_previous :: "symP \<Rightarrow> symP option"
  symbol_rootP :: "symP option"
  symbol_lastP :: "symP option"
  sc_local :: "symP \<Rightarrow> bool"
  sc_bsym :: "symP \<Rightarrow> bool"
  symbol_table_frozen :: bool

definition symbol_append :: "symP \<Rightarrow> symP option \<Rightarrow> symchain \<Rightarrow> symchain result" where
  "symbol_append addme target sc =
     (if symbol_table_frozen sc \<or> sc_local sc addme then Inl Abort
      else (case target of
        None \<Rightarrow> Inr (sc\<lparr>sx_next := (sx_next sc)(addme := None), sx_previous := (sx_previous sc)(addme := None),
                       symbol_rootP := Some addme, symbol_lastP := Some addme\<rparr>)
      | Some t \<Rightarrow>
          if sc_local sc t then Inl Abort
          else (let sc1 = (case sx_next sc t of
                      Some n \<Rightarrow> sc\<lparr>sx_previous := (sx_previous sc)(n := Some addme)\<rparr>
                    | None \<Rightarrow> sc\<lparr>symbol_lastP := Some addme\<rparr>)
                in Inr (sc1\<lparr>sx_next := (sx_next sc1)(addme := sx_next sc1 t, t := Some addme),
                            sx_previous := (sx_previous sc1)(addme := Some t)\<rparr>))))"

definition symbol_clear_list_pointers :: "symP \<Rightarrow> symchain \<Rightarrow> symchain result" where
  "symbol_clear_list_pointers s sc =
     (if sc_local sc s then Inl Abort
      else Inr (sc\<lparr>sx_next := (sx_next sc)(s := None), sx_previous := (sx_previous sc)(s := None)\<rparr>))"

definition symbol_remove :: "symP \<Rightarrow> symchain \<Rightarrow> symchain result" where
  "symbol_remove s sc =
     (if sc_local sc s then Inl Abort
      else (let sc1 = (if symbol_rootP sc = Some s then sc\<lparr>symbol_rootP := sx_next sc s\<rparr> else sc);
                sc2 = (if symbol_lastP sc1 = Some s then sc1\<lparr>symbol_lastP := sx_previous sc1 s\<rparr> else sc1);
                sc3 = (case sx_next sc2 s of None \<Rightarrow> sc2
                       | Some n \<Rightarrow> sc2\<lparr>sx_previous := (sx_previous sc2)(n := sx_previous sc2 s)\<rparr>);
                sc4 = (case sx_previous sc3 s of None \<Rightarrow> sc3
                       | Some p \<Rightarrow> sc3\<lparr>sx_next := (sx_next sc3)(p := sx_next sc3 s)\<rparr>)
            in Inr sc4))"

definition symbol_insert :: "symP \<Rightarrow> symP \<Rightarrow> symchain \<Rightarrow> symchain result" where
  "symbol_insert addme t sc =
     (if symbol_table_frozen sc \<or> sc_local sc addme \<or> sc_local sc t then Inl Abort
      else (let sc1 = (case sx_previous sc t of
                  Some p \<Rightarrow> sc\<lparr>sx_next := (sx_next sc)(p := Some addme)\<rparr>
                | None \<Rightarrow> sc\<lparr>symbol_rootP := Some addme\<rparr>)
            in Inr (sc1\<lparr>sx_previous := (sx_previous sc1)(addme := sx_previous sc1 t, t := Some addme),
                        sx_next := (sx_next sc1)(addme := Some t)\<rparr>)))"

partial_function (option) verify_from :: "symchain \<Rightarrow> symP \<Rightarrow> symP result option" where
  [code]: "verify_from sc s = (case sx_next sc s of
     None \<Rightarrow> Some (Inr s)
   | Some n \<Rightarrow> if sc_bsym sc s \<and> \<not> sc_local sc s \<and> sx_previous sc n = Some s then verify_from sc n
               else Some (Inl Assert_failed))"

definition verify_symbol_chain :: "symchain \<Rightarrow> unit result option" where
  "verify_symbol_chain sc = (case symbol_rootP sc of None \<Rightarrow> Some (Inr ())
     | Some r \<Rightarrow> map_option (\<lambda>m. bindE m (\<lambda>s. gas_assert (symbol_lastP sc = Some s) (Inr ()))) (verify_from sc r))"

definition symbol_on_chain :: "symP \<Rightarrow> symchain \<Rightarrow> bool" where
  "symbol_on_chain s sc \<longleftrightarrow> \<not> sc_local sc s
   \<and> ((\<exists>n \<in> set_option (sx_next sc s). n \<noteq> s \<and> sx_previous sc n = Some s) \<or> symbol_lastP sc = Some s)
   \<and> ((\<exists>p \<in> set_option (sx_previous sc s). p \<noteq> s \<and> sx_next sc p = Some s) \<or> symbol_rootP sc = Some s)"

section \<open>Labels of memory operands\<close>

record data_labels =
  dl_node :: "nat \<Rightarrow> symP option"
  dl_next :: "nat \<Rightarrow> nat option"
  dl_prev :: "nat \<Rightarrow> nat option"
  data_rootP :: "nat option"
  data_lastP :: "nat option"
  n_dlabels :: nat

definition data_label_begin :: "data_labels \<Rightarrow> data_labels" where
  "data_label_begin d = d\<lparr>data_rootP := None, data_lastP := None\<rparr>"

text \<open>\<open>notes_alloc\<close> hands out a fresh node.\<close>

definition data_label_create :: "symP option \<Rightarrow> data_labels \<Rightarrow> nat \<times> data_labels" where
  "data_label_create node d =
     (let a = n_dlabels d
      in (a, d\<lparr>dl_node := (dl_node d)(a := node), dl_next := (dl_next d)(a := None),
              dl_prev := (dl_prev d)(a := None), n_dlabels := a + 1\<rparr>))"

partial_function (option) verify_labels :: "data_labels \<Rightarrow> nat \<Rightarrow> unit result option" where
  [code]: "verify_labels d a =
     (if dl_node d a = None then Some (Inl Assert_failed)
      else (case dl_next d a of
              None \<Rightarrow> Some (if data_lastP d = Some a then Inr () else Inl Assert_failed)
            | Some b \<Rightarrow> if dl_prev d b = Some a then verify_labels d b else Some (Inl Assert_failed)))"

definition verify_data_label_chain :: "data_labels \<Rightarrow> unit result option" where
  "verify_data_label_chain d = (case data_rootP d of None \<Rightarrow> Some (Inr ()) | Some r \<Rightarrow> verify_labels d r)"

definition data_label_link :: "nat \<Rightarrow> data_labels \<Rightarrow> data_labels result" where
  "data_label_link target d =
     (if data_rootP d = None then Inr (d\<lparr>data_rootP := Some target, data_lastP := Some target\<rparr>)
      else deref (data_lastP d) (\<lambda>l.
        Inr (d\<lparr>dl_next := (dl_next d)(l := Some target), dl_prev := (dl_prev d)(target := Some l),
               data_lastP := Some target\<rparr>)))"

definition data_label_append :: "symP \<Rightarrow> data_labels \<Rightarrow> data_labels result option" where
  "data_label_append node d =
     (let (target, d1) = data_label_create (Some node) d
      in (case data_label_link target d1 of
            Inl e \<Rightarrow> Some (Inl e)
          | Inr d2 \<Rightarrow> map_option (\<lambda>m. bindE m (\<lambda>_. Inr d2)) (verify_data_label_chain d2)))"

definition append_if_local :: "(symP \<Rightarrow> symbol) \<Rightarrow> symP option \<Rightarrow> data_labels \<Rightarrow> data_labels result option" where
  "append_if_local sy s d = (case s of None \<Rightarrow> Some (Inr d)
     | Some p \<Rightarrow> if local_symbol (sy p) then data_label_append p d else Some (Inr d))"

definition store_labels_for_xom ::
  "(symP \<Rightarrow> symbol) \<Rightarrow> symP option \<Rightarrow> symP option \<Rightarrow> data_labels \<Rightarrow> data_labels result option" where
  "store_labels_for_xom sy X_add_symbol X_op_symbol d =
     (case append_if_local sy X_add_symbol d of
        Some (Inr d1) \<Rightarrow> append_if_local sy X_op_symbol d1
      | r \<Rightarrow> r)"

section \<open>Doubly linked lists\<close>

text \<open>A list that can be read in both directions.\<close>

definition dlist :: "('a \<Rightarrow> 'a option) \<Rightarrow> ('a \<Rightarrow> 'a option) \<Rightarrow> 'a option \<Rightarrow> 'a option \<Rightarrow> 'a list \<Rightarrow> bool" where
  "dlist nxt prv root lst xs \<longleftrightarrow> chain nxt root xs \<and> chain prv lst (rev xs) \<and> distinct xs"

lemma chain_next:
  assumes "chain nxt p (us @ a # vs)"
  shows "nxt a = (case vs of [] \<Rightarrow> None | v # _ \<Rightarrow> Some v)"
  using assms by (cases vs) (auto simp: chain_append)

lemma chain_root: "chain nxt p xs \<Longrightarrow> p = (case xs of [] \<Rightarrow> None | x # _ \<Rightarrow> Some x)"
  by (cases xs) auto

lemma dlist_next:
  "dlist nxt prv root lst (us @ a # vs) \<Longrightarrow> nxt a = (case vs of [] \<Rightarrow> None | v # _ \<Rightarrow> Some v)"
  unfolding dlist_def by (blast dest: chain_next)

lemma dlist_prev:
  assumes "dlist nxt prv root lst (us @ a # vs)"
  shows "prv a = (if us = [] then None else Some (last us))"
proof -
  have "chain prv lst (rev vs @ a # rev us)" using assms by (simp add: dlist_def)
  from chain_next [OF this] show ?thesis
    by (cases us rule: rev_cases) auto
qed

lemma dlist_last: "dlist nxt prv root lst xs \<Longrightarrow> lst = (if xs = [] then None else Some (last xs))"
  unfolding dlist_def using chain_root [of prv lst "rev xs"] by (cases xs rule: rev_cases) auto

lemma dlist_root: "dlist nxt prv root lst xs \<Longrightarrow> root = (if xs = [] then None else Some (hd xs))"
  unfolding dlist_def using chain_root [of nxt root xs] by (cases xs) auto

lemma dlist_swap: "dlist nxt prv root lst xs \<longleftrightarrow> dlist prv nxt lst root (rev xs)"
  by (auto simp: dlist_def)

lemma dlist_put:
  assumes d: "dlist nxt prv root lst (us @ vs)" and a: "a \<notin> set (us @ vs)"
    and q: "q = (if us = [] then root else nxt (last us))"
    and r: "r = (if vs = [] then lst else prv (hd vs))"
  shows "dlist (relink (nxt(a := q)) us (Some a)) (relink (prv(a := r)) (rev vs) (Some a))
           (reroot root us (Some a)) (reroot lst (rev vs) (Some a)) (us @ a # vs)"
proof -
  have 1: "chain nxt root (us @ vs)" "chain prv lst (rev vs @ rev us)" "distinct (us @ vs)"
    using d by (simp_all add: dlist_def)
  have "chain (relink (nxt(a := q)) us (Some a)) (reroot root us (Some a)) (us @ a # vs)"
    by (rule chain_put [OF 1(1,3) a q])
  moreover have "chain (relink (prv(a := r)) (rev vs) (Some a)) (reroot lst (rev vs) (Some a)) (rev vs @ a # rev us)"
    by (rule chain_put [OF 1(2)]) (use 1(3) a r in \<open>auto simp: last_rev\<close>)
  ultimately show ?thesis using 1(3) a by (auto simp: dlist_def)
qed

lemma dlist_cut:
  assumes d: "dlist nxt prv root lst (us @ a # vs)"
  shows "dlist (relink nxt us (nxt a)) (relink prv (rev vs) (prv a))
           (reroot root us (nxt a)) (reroot lst (rev vs) (prv a)) (us @ vs)"
proof -
  have 1: "chain nxt root (us @ [a] @ vs)" "chain prv lst (rev vs @ [a] @ rev us)" "distinct (us @ [a] @ vs)"
    using d by (simp_all add: dlist_def)
  have "chain (relink nxt us (nxt a)) (reroot root us (nxt a)) (us @ vs)"
    by (rule chain_cut [OF 1(1,3), where r = "Some a"]) simp_all
  moreover have "chain (relink prv (rev vs) (prv a)) (reroot lst (rev vs) (prv a)) (rev vs @ rev us)"
    by (rule chain_cut [OF 1(2), where r = "Some a"]) (use 1(3) in auto)
  ultimately show ?thesis using 1(3) by (auto simp: dlist_def)
qed

text \<open>The symbol chain as a list of symbols.\<close>

definition symlist :: "symchain \<Rightarrow> symP list \<Rightarrow> bool" where
  "symlist sc xs \<longleftrightarrow> dlist (sx_next sc) (sx_previous sc) (symbol_rootP sc) (symbol_lastP sc) xs
   \<and> (\<forall>x \<in> set xs. \<not> sc_local sc x \<and> sc_bsym sc x)"

lemma symbol_append_spec:
  assumes l: "symlist sc (us @ t # vs)" and a: "a \<notin> set (us @ t # vs)"
    and ok: "\<not> symbol_table_frozen sc" "\<not> sc_local sc a" "sc_bsym sc a"
  shows "\<exists>sc'. symbol_append a (Some t) sc = Inr sc' \<and> symlist sc' (us @ t # a # vs)
    \<and> sc_local sc' = sc_local sc \<and> sc_bsym sc' = sc_bsym sc \<and> symbol_table_frozen sc' = symbol_table_frozen sc"
proof -
  have d: "dlist (sx_next sc) (sx_previous sc) (symbol_rootP sc) (symbol_lastP sc) ((us @ [t]) @ vs)"
    and nl: "\<not> sc_local sc t" and at: "a \<noteq> t"
    using l a by (auto simp: symlist_def)
  have n: "sx_next sc t = (case vs of [] \<Rightarrow> None | v # _ \<Rightarrow> Some v)"
    using dlist_next [of _ _ _ _ us t vs] d by simp
  have lst: "vs = [] \<Longrightarrow> symbol_lastP sc = Some t" using dlist_last [OF d] by simp
  have pv: "sx_previous sc v = Some t" if "vs = v # ws" for v ws
    using dlist_prev [of _ _ _ _ "us @ [t]" v ws] d that by simp
  have "a \<notin> set ((us @ [t]) @ vs)" using a by simp
  note P = dlist_put [OF d this refl refl]
  show ?thesis
  proof (cases vs)
    case Nil
    then show ?thesis
      using P n lst ok nl at l
      by (simp add: symbol_append_def symlist_def Let_def relink_def reroot_def)
  next
    case (Cons v ws)
    moreover have "v \<noteq> a" using a Cons by auto
    ultimately show ?thesis
      using P n pv [OF Cons] ok nl at l
      by (simp add: symbol_append_def symlist_def Let_def relink_def reroot_def fun_upd_twist)
  qed
qed

lemma symbol_append_empty:
  assumes "\<not> symbol_table_frozen sc" "\<not> sc_local sc a" "sc_bsym sc a"
  shows "\<exists>sc'. symbol_append a None sc = Inr sc' \<and> symlist sc' [a]
    \<and> sc_local sc' = sc_local sc \<and> sc_bsym sc' = sc_bsym sc \<and> symbol_table_frozen sc' = symbol_table_frozen sc"
  using assms by (simp add: symbol_append_def symlist_def dlist_def)

lemma symbol_insert_spec:
  assumes l: "symlist sc (us @ t # vs)" and a: "a \<notin> set (us @ t # vs)"
    and ok: "\<not> symbol_table_frozen sc" "\<not> sc_local sc a" "sc_bsym sc a"
  shows "\<exists>sc'. symbol_insert a t sc = Inr sc' \<and> symlist sc' (us @ a # t # vs)"
proof -
  have d: "dlist (sx_next sc) (sx_previous sc) (symbol_rootP sc) (symbol_lastP sc) (us @ (t # vs))"
    and nl: "\<not> sc_local sc t" and at: "a \<noteq> t"
    using l a by (auto simp: symlist_def)
  have p: "sx_previous sc t = (if us = [] then None else Some (last us))"
    using dlist_prev [OF d] .
  have nx: "sx_next sc (last us) = Some t" if ne: "us \<noteq> []"
  proof -
    obtain xs l where "us = xs @ [l]" using ne by (metis rev_exhaust)
    then show ?thesis using dlist_next [of _ _ _ _ xs l "t # vs"] d by simp
  qed
  have rt: "us = [] \<Longrightarrow> symbol_rootP sc = Some t" using dlist_root [OF d] by simp
  note P = dlist_put [OF d a refl refl]
  have la: "us \<noteq> [] \<Longrightarrow> last us \<noteq> a" using a last_in_set by fastforce
  have pt: "prv(a := r, t := q) = prv(t := q, a := r)" for prv :: "symP \<Rightarrow> symP option" and r q
    using at by (rule fun_upd_twist)
  show ?thesis
  proof (cases "us = []")
    case True
    then show ?thesis
      using P p rt ok nl at l by (simp add: symbol_insert_def symlist_def Let_def relink_def reroot_def pt)
  next
    case False
    moreover have "(sx_next sc)(a := Some t, last us := Some a) = (sx_next sc)(last us := Some a, a := Some t)"
      using la False by (intro fun_upd_twist) auto
    ultimately show ?thesis
      using P p nx ok nl at l by (simp add: symbol_insert_def symlist_def Let_def relink_def reroot_def pt)
  qed
qed

lemma symbol_remove_spec:
  assumes l: "symlist sc (us @ a # vs)"
  shows "\<exists>sc'. symbol_remove a sc = Inr sc' \<and> symlist sc' (us @ vs)"
proof -
  have d: "dlist (sx_next sc) (sx_previous sc) (symbol_rootP sc) (symbol_lastP sc) (us @ a # vs)"
    and nl: "\<not> sc_local sc a" and dist: "distinct (us @ a # vs)"
    using l by (auto simp: symlist_def dlist_def)
  have n: "sx_next sc a = (case vs of [] \<Rightarrow> None | v # _ \<Rightarrow> Some v)" using dlist_next [OF d] .
  have p: "sx_previous sc a = (if us = [] then None else Some (last us))" using dlist_prev [OF d] .
  have rt: "symbol_rootP sc = Some a \<longleftrightarrow> us = []" using dlist_root [OF d] dist by (cases us) auto
  have ls: "symbol_lastP sc = Some a \<longleftrightarrow> vs = []" using dlist_last [OF d] dist
    by (cases vs rule: rev_cases) auto
  note P = dlist_cut [OF d]
  have hv: "vs \<noteq> [] \<Longrightarrow> hd vs \<noteq> a" using dist by (cases vs) auto
  show ?thesis
    using P n p rt ls nl l hv
    by (cases vs; cases "us = []")
      (simp_all add: symbol_remove_def symlist_def Let_def relink_def reroot_def)
qed

text \<open>The two verifiers accept every well-formed list.\<close>

lemma verify_from_ok:
  assumes "symlist sc (us @ s # vs)"
  shows "verify_from sc s = Some (Inr (last (s # vs)))"
  using assms
proof (induction vs arbitrary: us s)
  case Nil
  then have "dlist (sx_next sc) (sx_previous sc) (symbol_rootP sc) (symbol_lastP sc) (us @ s # [])"
    by (simp add: symlist_def)
  from dlist_next [OF this] have "sx_next sc s = None" by simp
  then show ?case by (subst verify_from.simps) simp
next
  case (Cons v vs)
  have d: "dlist (sx_next sc) (sx_previous sc) (symbol_rootP sc) (symbol_lastP sc) (us @ s # v # vs)"
    and ok: "sc_bsym sc s" "\<not> sc_local sc s"
    using Cons.prems by (auto simp: symlist_def)
  have "sx_next sc s = Some v" using dlist_next [OF d] by simp
  moreover have "sx_previous sc v = Some s" using dlist_prev [of _ _ _ _ "us @ [s]" v vs] d by simp
  moreover have "verify_from sc v = Some (Inr (last (v # vs)))" using Cons.IH [of "us @ [s]" v] Cons.prems by simp
  ultimately show ?case using ok by (subst verify_from.simps) simp
qed

lemma verify_symbol_chain_ok:
  assumes "symlist sc xs"
  shows "verify_symbol_chain sc = Some (Inr ())"
proof (cases xs)
  case Nil
  then show ?thesis using assms dlist_root by (fastforce simp: verify_symbol_chain_def symlist_def)
next
  case (Cons x ys)
  then have "symbol_rootP sc = Some x" "symbol_lastP sc = Some (last (x # ys))"
    using assms dlist_root [of _ _ _ _ "x # ys"] dlist_last [of _ _ _ _ "x # ys"] by (auto simp: symlist_def)
  then show ?thesis
    using verify_from_ok [of sc "[]" x ys] assms Cons by (simp add: verify_symbol_chain_def)
qed

definition labellist :: "data_labels \<Rightarrow> nat list \<Rightarrow> bool" where
  "labellist d as \<longleftrightarrow> dlist (dl_next d) (dl_prev d) (data_rootP d) (data_lastP d) as
   \<and> (\<forall>a \<in> set as. a < n_dlabels d \<and> dl_node d a \<noteq> None)"

lemma verify_labels_ok:
  assumes "labellist d (us @ a # vs)"
  shows "verify_labels d a = Some (Inr ())"
  using assms
proof (induction vs arbitrary: us a)
  case Nil
  then have "dl_next d a = None" "data_lastP d = Some a" "dl_node d a \<noteq> None"
    using dlist_next [of _ _ _ _ us a "[]"] dlist_last [of _ _ _ _ "us @ [a]"] by (auto simp: labellist_def)
  then show ?case by (subst verify_labels.simps) simp
next
  case (Cons v vs)
  have d: "dlist (dl_next d) (dl_prev d) (data_rootP d) (data_lastP d) (us @ a # v # vs)"
    and ok: "dl_node d a \<noteq> None"
    using Cons.prems by (auto simp: labellist_def)
  have "dl_next d a = Some v" using dlist_next [OF d] by simp
  moreover have "dl_prev d v = Some a" using dlist_prev [of _ _ _ _ "us @ [a]" v vs] d by simp
  moreover have "verify_labels d v = Some (Inr ())" using Cons.IH [of "us @ [a]" v] Cons.prems by simp
  ultimately show ?case using ok by (subst verify_labels.simps) simp
qed

lemma data_label_append_spec:
  assumes l: "labellist d as"
  shows "\<exists>d'. data_label_append p d = Some (Inr d') \<and> labellist d' (as @ [n_dlabels d])
    \<and> dl_node d' (n_dlabels d) = Some p \<and> (\<forall>a \<in> set as. dl_node d' a = dl_node d a)"
proof -
  let ?t = "n_dlabels d"
  let ?d1 = "snd (data_label_create (Some p) d)"
  have t: "?t \<notin> set as" using l by (auto simp: labellist_def)
  have dl: "dlist (dl_next d) (dl_prev d) (data_rootP d) (data_lastP d) (as @ [])"
    using l by (simp add: labellist_def)
  have cr: "fst (data_label_create (Some p) d) = ?t" by (simp add: data_label_create_def Let_def)
  have q: "(if as = [] then data_rootP d else dl_next d (last as)) = None"
    using dlist_root [OF dl] dlist_next [of _ _ _ _ "butlast as" "last as" "[]"] dl by (cases "as = []") auto
  note P = dlist_put [OF dl, of ?t, OF _ refl refl, unfolded q, simplified, OF t]
  have ends: "data_rootP d = None \<longleftrightarrow> as = []" "data_lastP d = (if as = [] then None else Some (last as))"
    using dlist_root [OF dl] dlist_last [OF dl] by auto
  have nodes: "\<forall>a \<in> set as. a < Suc ?t \<and> (\<exists>y. (if a = ?t then Some p else dl_node d a) = Some y)"
    using l t by (auto simp: labellist_def less_SucI)
  have lne: "as \<noteq> [] \<Longrightarrow> last as \<noteq> ?t" using t last_in_set by metis
  obtain d2 where d2: "data_label_link ?t ?d1 = Inr d2" "labellist d2 (as @ [?t])"
    "dl_node d2 = (dl_node d)(?t := Some p)" "data_rootP d2 \<noteq> None"
  proof (cases "as = []")
    case True
    then show ?thesis using ends that
      by (simp add: data_label_link_def data_label_create_def Let_def labellist_def dlist_def)
  next
    case False
    then show ?thesis
      using ends that P nodes lne
      by (auto simp: data_label_link_def data_label_create_def Let_def labellist_def relink_def reroot_def
          fun_upd_twist)
  qed
  moreover obtain r where "data_rootP d2 = Some r" using d2(4) by blast
  moreover from this have "r = hd (as @ [?t])"
    using d2(2) dlist_root by (fastforce simp: labellist_def)
  then have "verify_labels d2 r = Some (Inr ())"
    using d2(2) verify_labels_ok [of d2 "[]" r "tl (as @ [?t])"] by simp
  ultimately show ?thesis
    using cr t by (auto simp: data_label_append_def verify_data_label_chain_def case_prod_beta)
qed

section \<open>Lists that grow at the end\<close>

text \<open>What a client of such a list relies on: \<open>repr\<close> is the list a state stands for, \<open>app\<close> the
  operation that adds an element, \<open>ok\<close> when it may be used, and \<open>compat a b\<close> that \<open>b\<close> may still be
  added after \<open>a\<close>.\<close>

fun app_all :: "('a \<Rightarrow> 's \<Rightarrow> 's result) \<Rightarrow> 'a list \<Rightarrow> 's \<Rightarrow> 's result" where
  "app_all app [] s = Inr s"
| "app_all app (a # as) s = bindE (app a s) (app_all app as)"

locale append_list =
  fixes repr :: "'s \<Rightarrow> 'a list \<Rightarrow> bool"
    and app :: "'a \<Rightarrow> 's \<Rightarrow> 's result"
    and ok :: "'a \<Rightarrow> 's \<Rightarrow> bool"
    and compat :: "'a \<Rightarrow> 'a \<Rightarrow> bool"
  assumes app_step: "repr s xs \<Longrightarrow> ok a s \<Longrightarrow>
    \<exists>s'. app a s = Inr s' \<and> repr s' (xs @ [a]) \<and> (\<forall>b. compat a b \<longrightarrow> ok b s \<longrightarrow> ok b s')"
begin

lemma all_appended:
  "repr s xs \<Longrightarrow> (\<And>a. a \<in> set as \<Longrightarrow> ok a s) \<Longrightarrow> sorted_wrt compat as \<Longrightarrow>
     \<exists>s'. app_all app as s = Inr s' \<and> repr s' (xs @ as)"
proof (induction as arbitrary: s xs)
  case (Cons a as)
  then obtain s1 where s1: "app a s = Inr s1" "repr s1 (xs @ [a])" "\<forall>b. compat a b \<longrightarrow> ok b s \<longrightarrow> ok b s1"
    using app_step [of s xs a] by auto
  then have "\<And>b. b \<in> set as \<Longrightarrow> ok b s1" using Cons.prems(2,3) by auto
  with Cons.IH [OF s1(2)] s1(1) Cons.prems(3) show ?case by auto
qed simp

end

text \<open>The symbol chain grows at its last symbol, the list of memory labels by fresh nodes.\<close>

definition append_symbol :: "symP \<Rightarrow> symchain \<Rightarrow> symchain result" where
  "append_symbol a sc = symbol_append a (symbol_lastP sc) sc"

definition symbol_ok :: "symP \<Rightarrow> symchain \<Rightarrow> bool" where
  "symbol_ok a sc \<longleftrightarrow> \<not> symbol_table_frozen sc \<and> \<not> sc_local sc a \<and> sc_bsym sc a
     \<and> (\<forall>xs. symlist sc xs \<longrightarrow> a \<notin> set xs)"

lemma symlist_unique: "symlist sc xs \<Longrightarrow> symlist sc ys \<Longrightarrow> xs = ys"
  by (auto simp: symlist_def dlist_def dest: chain_unique)

lemma append_symbol_step:
  assumes "symlist sc xs" and "symbol_ok a sc"
  shows "\<exists>sc'. append_symbol a sc = Inr sc' \<and> symlist sc' (xs @ [a])
    \<and> (\<forall>b. a \<noteq> b \<longrightarrow> symbol_ok b sc \<longrightarrow> symbol_ok b sc')"
proof -
  have a: "a \<notin> set xs" "\<not> symbol_table_frozen sc" "\<not> sc_local sc a" "sc_bsym sc a"
    using assms by (auto simp: symbol_ok_def)
  obtain sc' where s: "append_symbol a sc = Inr sc'" "symlist sc' (xs @ [a])" "sc_local sc' = sc_local sc"
    "sc_bsym sc' = sc_bsym sc" "symbol_table_frozen sc' = symbol_table_frozen sc"
  proof (cases xs rule: rev_cases)
    case Nil
    then have "symbol_lastP sc = None" using assms(1) dlist_last by (fastforce simp: symlist_def)
    then show ?thesis using that symbol_append_empty [OF a(2-4)] Nil by (auto simp: append_symbol_def)
  next
    case (snoc ys t)
    then have "symbol_lastP sc = Some t" using assms(1) dlist_last by (fastforce simp: symlist_def)
    moreover have "symlist sc (ys @ t # [])" "a \<notin> set (ys @ t # [])" using assms(1) a(1) snoc by simp_all
    ultimately show ?thesis
      using that symbol_append_spec [OF _ _ a(2-4)] snoc by (fastforce simp: append_symbol_def)
  qed
  moreover have "symbol_ok b sc'" if "a \<noteq> b" "symbol_ok b sc" for b
    using that s(2-5) assms(1) symlist_unique by (fastforce simp: symbol_ok_def)
  ultimately show ?thesis by blast
qed

interpretation symchain_list: append_list symlist append_symbol symbol_ok "(\<noteq>)"
  by unfold_locales (rule append_symbol_step)

definition label_nodes :: "data_labels \<Rightarrow> symP list \<Rightarrow> bool" where
  "label_nodes d ps \<longleftrightarrow> (\<exists>as. labellist d as \<and> map (dl_node d) as = map Some ps)"

definition append_label :: "symP \<Rightarrow> data_labels \<Rightarrow> data_labels result" where
  "append_label p d = (case data_label_append p d of None \<Rightarrow> Inl Out_of_fuel | Some r \<Rightarrow> r)"

lemma append_label_step:
  assumes "label_nodes d ps"
  shows "\<exists>d'. append_label p d = Inr d' \<and> label_nodes d' (ps @ [p]) \<and> (\<forall>b. True \<longrightarrow> True \<longrightarrow> True)"
proof -
  obtain as where as: "labellist d as" "map (dl_node d) as = map Some ps"
    using assms by (auto simp: label_nodes_def)
  obtain d' where "data_label_append p d = Some (Inr d')" "labellist d' (as @ [n_dlabels d])"
    "dl_node d' (n_dlabels d) = Some p" "\<forall>a \<in> set as. dl_node d' a = dl_node d a"
    using data_label_append_spec [OF as(1)] by blast
  moreover from this(4) have "map (dl_node d') as = map Some ps" using as(2) by (metis map_eq_conv)
  ultimately show ?thesis
    unfolding label_nodes_def append_label_def
    by (intro exI [of _ d'] conjI exI [of _ "as @ [n_dlabels d]"]) simp_all
qed

interpretation label_list: append_list label_nodes append_label "\<lambda>_ _. True" "\<lambda>_ _. True"
  by unfold_locales (rule append_label_step)

section \<open>Properties\<close>

text \<open>C16: The chain operations on symbols implement insertion behind, insertion in front and removal on
  the list of symbols, read in both directions, and the chain verifier accepts the result.\<close>

theorem symbol_chain_operations:
  assumes "symlist sc (us @ t # vs)" and "a \<notin> set (us @ t # vs)"
    and "\<not> symbol_table_frozen sc" and "\<not> sc_local sc a" and "sc_bsym sc a"
  shows "(\<exists>sc'. symbol_append a (Some t) sc = Inr sc' \<and> symlist sc' (us @ t # a # vs)
           \<and> verify_symbol_chain sc' = Some (Inr ()))
    \<and> (\<exists>sc'. symbol_insert a t sc = Inr sc' \<and> symlist sc' (us @ a # t # vs)
           \<and> verify_symbol_chain sc' = Some (Inr ()))
    \<and> (\<exists>sc'. symbol_remove t sc = Inr sc' \<and> symlist sc' (us @ vs)
           \<and> verify_symbol_chain sc' = Some (Inr ()))"
  using symbol_append_spec [OF assms] symbol_insert_spec [OF assms] symbol_remove_spec [OF assms(1)]
    verify_symbol_chain_ok by blast

definition sample_symchain :: symchain where
  "sample_symchain = \<lparr>sx_next = (\<lambda>_. None)(1 := Some 2), sx_previous = (\<lambda>_. None)(2 := Some 1),
     symbol_rootP = Some 1, symbol_lastP = Some 2, sc_local = (\<lambda>_. False), sc_bsym = (\<lambda>_. True),
     symbol_table_frozen = False\<rparr>"

theorem symbol_chain_operations_witness:
  "\<exists>sc'. symbol_append 3 (Some 1) sample_symchain = Inr sc' \<and> symlist sc' [1, 3, 2]"
proof -
  have "symlist sample_symchain ([] @ 1 # [2])"
    by (simp add: symlist_def dlist_def sample_symchain_def)
  from symbol_chain_operations [OF this, of 3] show ?thesis by (auto simp: sample_symchain_def)
qed

text \<open>Recording the labels of memory operands never trips the list verifier: starting from an
  empty list, the recorded labels are exactly the ones handed in, in order.\<close>

theorem data_labels_in_order:
  "\<exists>d'. app_all append_label ps (data_label_begin d) = Inr d' \<and> label_nodes d' ps"
proof -
  have "label_nodes (data_label_begin d) []"
    by (simp add: label_nodes_def labellist_def dlist_def data_label_begin_def)
  from label_list.all_appended [OF this, of ps] show ?thesis by (simp add: sorted_wrt_iff_nth_less)
qed

end
