(* ===== verification/Split.thy ===== *)
theory Split
  imports Subsegs Symbols "HOL-Library.Sublist" "HOL-Library.Multiset"
begin

text \<open>
  Moving embedded data out of the code (\<open>split_text_frags\<close> of \<open>src/gas/write.c\<close>): the frags of the
  text chain that hold data, each with the alignment frag in front of it, are unlinked and appended
  to the chain of \<open>.xom_data\<close>; their symbols follow, and the fixups against those symbols become
  PC-relative.  The loop is refined to a function on lists of frags, and its properties are proved
  there.
\<close>

section \<open>The loop over the text chain\<close>

text \<open>The stores and the end pointers of the two chains.\<close>

record split_st =
  sp_frags :: "fragP \<Rightarrow> frag"
  sp_syms :: "symP \<Rightarrow> symbol"
  text_root :: "fragP option"
  text_last :: "fragP option"
  xom_root :: "fragP option"
  xom_last :: "fragP option"

definition set_next :: "fragP \<Rightarrow> fragP option \<Rightarrow> split_st \<Rightarrow> split_st" where
  "set_next p q st = st\<lparr>sp_frags := (sp_frags st)(p := (sp_frags st p)\<lparr>fr_next := q\<rparr>)\<rparr>"

text \<open>Unlink what is between \<open>prev_frag\<close> and \<open>q\<close>; append the stretch from \<open>a\<close> to \<open>b\<close> to the data chain.\<close>

definition unlink_text :: "fragP option \<Rightarrow> fragP option \<Rightarrow> split_st \<Rightarrow> split_st" where
  "unlink_text prev_frag q st = (case prev_frag of
     Some p \<Rightarrow> set_next p q st | None \<Rightarrow> st\<lparr>text_root := q\<rparr>)"

definition append_xom :: "fragP \<Rightarrow> fragP \<Rightarrow> split_st \<Rightarrow> split_st" where
  "append_xom a b st =
     (let st1 = set_next b None st;
          st2 = (case xom_last st1 of Some l \<Rightarrow> set_next l (Some a) st1 | None \<Rightarrow> st1\<lparr>xom_root := Some a\<rparr>)
      in st2\<lparr>xom_last := Some b\<rparr>)"

definition move_symbol :: "symP option \<Rightarrow> split_st \<Rightarrow> split_st result" where
  "move_symbol symb st = (case symb of None \<Rightarrow> Inr st
     | Some s \<Rightarrow> bindE (S_SET_SEGMENT xom_data_section (sp_syms st s)) (\<lambda>y.
         Inr (st\<lparr>sp_syms := (sp_syms st)(s := y)\<rparr>)))"

text \<open>\<open>offset\<close> is an \<open>unsigned int\<close>: the low 32 bits of the size.\<close>

definition offset_of :: "frag \<Rightarrow> u32" where
  "offset_of f = ucast (fr_fix f)"

text \<open>One round of the loop; \<^term>\<open>Inr None\<close> is \<open>break\<close>.\<close>

definition split_step ::
  "split_st \<Rightarrow> fragP option \<Rightarrow> fragP \<Rightarrow> (split_st \<times> fragP option \<times> fragP option) option result" where
  "split_step st prev_frag curr_frag =
     (let c = sp_frags st curr_frag in
      case fr_next c of
        None \<Rightarrow> Inr None
      | Some next_frag \<Rightarrow>
          (let n = sp_frags st next_frag in
           if align_frag (fr_flags c) then
             (if \<not> insn_frag (fr_flags n) \<and> \<not> align_frag (fr_flags n) \<and> offset_of n > 0
                 \<and> \<not> S_IS_CF_SYMBOL (sp_syms st) (frag_symbol n)
              then (let next_frag2 = fr_next n;
                        st1 = unlink_text prev_frag next_frag2 st in
                    gas_assert (text_last st1 \<noteq> Some next_frag) (
                    bindE (move_symbol (frag_symbol n) (append_xom curr_frag next_frag st1)) (\<lambda>st2.
                    Inr (Some (st2, prev_frag, next_frag2)))))
              else Inr (Some (st, Some curr_frag, Some next_frag)))
           else if \<not> insn_frag (fr_flags c) \<and> offset_of c \<noteq> 0
                   \<and> \<not> S_IS_CF_SYMBOL (sp_syms st) (frag_symbol c)
           then gas_assert (anchor_frag (fr_flags c) \<longrightarrow> frag_symbol c \<noteq> None \<and> frag_anchor c \<noteq> None) (
                let st1 = unlink_text prev_frag (Some next_frag) st;
                    st2 = (if text_last st1 = Some curr_frag
                           then st1\<lparr>text_last := (if prev_frag \<noteq> None then prev_frag else Some next_frag)\<rparr>
                           else st1) in
                bindE (move_symbol (frag_symbol c) (append_xom curr_frag curr_frag st2)) (\<lambda>st3.
                Inr (Some (st3, prev_frag, Some next_frag))))
           else Inr (Some (st, Some curr_frag, Some next_frag))))"

partial_function (option) split_loop ::
  "split_st \<Rightarrow> fragP option \<Rightarrow> fragP option \<Rightarrow> split_st result option" where
  [code]: "split_loop st prev_frag curr_frag = (case curr_frag of
     None \<Rightarrow> Some (Inr st)
   | Some c \<Rightarrow> (case split_step st prev_frag c of
       Inl e \<Rightarrow> Some (Inl e)
     | Inr None \<Rightarrow> Some (Inr st)
     | Inr (Some (st', prev', curr')) \<Rightarrow> split_loop st' prev' curr'))"

section \<open>The whole pass\<close>

definition fix_to_xom :: "(symP \<Rightarrow> symbol) \<Rightarrow> fixS \<Rightarrow> fixS" where
  "fix_to_xom sy f = (case fx_addsy f of
     Some s \<Rightarrow> if S_GET_SEGMENT (sy s) = xom_data_section
               then f\<lparr>fx_pcrel := True, fx_done := False, fx_r_type := BFD_RELOC_32_PCREL\<rparr> else f
   | None \<Rightarrow> f)"

text \<open>The data chain must not end in an alignment frag: a frag of size zero is put behind.\<close>

definition close_xom_chain :: "target \<Rightarrow> frchain \<Rightarrow> frchain \<Rightarrow> gas \<Rightarrow> (frchain \<times> gas) result" where
  "close_xom_chain tg text_chain xom_chain g =
     deref (frch_last xom_chain) (\<lambda>l.
     if fr_type (frags g l) = rs_align_code then
       bindE (frag_alloc tg (frch_obstack xom_chain) 0 g) (\<lambda>(p, ob, g1).
       deref (frch_last text_chain) (\<lambda>tl.
       let g2 = upd_frag p (\<lambda>f. f\<lparr>frag_index := frag_index (frags g1 tl) + 1\<rparr>) g1;
           g3 = upd_frag l (\<lambda>f. f\<lparr>fr_next := Some p\<rparr>) g2;
           g4 = upd_frag p (\<lambda>f. f\<lparr>fr_fix := 0\<rparr>) (frag_wane p g3)
       in Inr (xom_chain\<lparr>frch_last := Some p, frch_obstack := ob\<rparr>, g4)))
     else Inr (xom_chain, g))"

definition set_first_chain :: "segT \<Rightarrow> frchain \<Rightarrow> gas \<Rightarrow> gas" where
  "set_first_chain sg c g = g\<lparr>seg_info := (seg_info g)(sg := map_option
     (\<lambda>si. si\<lparr>frchainP := c # tl (frchainP si)\<rparr>) (seg_info g sg))\<rparr>"

definition set_fixes :: "segT \<Rightarrow> (fixS \<Rightarrow> fixS) \<Rightarrow> gas \<Rightarrow> gas" where
  "set_fixes sg f g = g\<lparr>seg_info := (seg_info g)(sg := map_option
     (\<lambda>si. si\<lparr>seg_fixes := map f (seg_fixes si)\<rparr>) (seg_info g sg))\<rparr>"

text \<open>\<open>split_text_frags\<close>; the outer option is whether the loop ends.\<close>

definition split_text_frags :: "target \<Rightarrow> gas \<Rightarrow> gas result option" where
  "split_text_frags tg g = (case seg_info g text_section of
     None \<Rightarrow> Some (Inr g)
   | Some ti \<Rightarrow> (case frchainP ti of
       [] \<Rightarrow> Some (Inr g)
     | tc # _ \<Rightarrow> (case seg_info g xom_data_section of
         None \<Rightarrow> Some (Inl Null_deref)
       | Some xi \<Rightarrow> (case frchainP xi of
           [] \<Rightarrow> Some (Inl Assert_failed)
         | xc # _ \<Rightarrow>
             map_option (\<lambda>r. bindE r (\<lambda>st.
               let g1 = g\<lparr>frags := sp_frags st, syms := sp_syms st\<rparr>;
                   tc' = tc\<lparr>frch_root := text_root st, frch_last := text_last st\<rparr>;
                   xc' = xc\<lparr>frch_root := xom_root st, frch_last := xom_last st\<rparr> in
               bindE (close_xom_chain tg tc' xc' g1) (\<lambda>(xc2, g2).
               Inr (set_fixes text_section (fix_to_xom (syms g2))
                 (set_first_chain xom_data_section xc2 (set_first_chain text_section tc' g2))))))
               (split_loop \<lparr>sp_frags = frags g, sp_syms = syms g, text_root = frch_root tc,
                  text_last = frch_last tc, xom_root = frch_root xc, xom_last = frch_last xc\<rparr>
                  None (frch_root tc))))))"

section \<open>The pass on lists\<close>

text \<open>What counts as embedded data, and the split of a list of frags: an alignment frag goes with the
  data frag behind it; the last frag always stays.\<close>

definition embedded :: "(symP \<Rightarrow> symbol) \<Rightarrow> frag \<Rightarrow> bool" where
  "embedded sy f \<longleftrightarrow> \<not> insn_frag (fr_flags f) \<and> \<not> align_frag (fr_flags f) \<and> offset_of f \<noteq> 0
     \<and> \<not> S_IS_CF_SYMBOL sy (frag_symbol f)"

fun split_spec :: "('a \<Rightarrow> bool) \<Rightarrow> ('a \<Rightarrow> bool) \<Rightarrow> 'a list \<Rightarrow> 'a list \<times> 'a list" where
  "split_spec al em (x # y # zs) =
     (if al x then (if em y then (let (k, mv) = split_spec al em zs in (k, x # y # mv))
                    else (let (k, mv) = split_spec al em (y # zs) in (x # k, mv)))
      else if em x then (let (k, mv) = split_spec al em (y # zs) in (k, x # mv))
      else (let (k, mv) = split_spec al em (y # zs) in (x # k, mv)))"
| "split_spec al em xs = (xs, [])"

text \<open>When no assertion of the pass can fail: the last frag is not embedded data, anchors are complete,
  and no section symbol labels a data frag.\<close>

definition split_safe :: "(symP \<Rightarrow> symbol) \<Rightarrow> (fragP \<Rightarrow> frag) \<Rightarrow> fragP list \<Rightarrow> bool" where
  "split_safe sy st ids \<longleftrightarrow> \<not> embedded sy (st (last ids))
   \<and> (\<forall>p \<in> set ids. embedded sy (st p) \<longrightarrow>
        (anchor_frag (fr_flags (st p)) \<longrightarrow> frag_symbol (st p) \<noteq> None \<and> frag_anchor (st p) \<noteq> None)
      \<and> (\<forall>s. frag_symbol (st p) = Some s \<longrightarrow> local_symbol (sy s) \<or> \<not> section_sym (sy s)))"

section \<open>Refinement of the loop\<close>

abbreviation nxt_of :: "split_st \<Rightarrow> fragP \<Rightarrow> fragP option" where
  "nxt_of st \<equiv> \<lambda>p. fr_next (sp_frags st p)"

text \<open>In the middle of the loop: the frags \<open>ks\<close> have been kept, \<open>rs\<close> are still to be looked at, and the
  data chain is \<open>xs\<close>.\<close>

definition split_inv :: "split_st \<Rightarrow> fragP option \<Rightarrow> fragP option \<Rightarrow> fragP list \<Rightarrow> fragP list \<Rightarrow> fragP list \<Rightarrow> bool" where
  "split_inv st prev_frag curr_frag ks rs xs \<longleftrightarrow>
     chain (nxt_of st) (text_root st) (ks @ rs) \<and> chain (nxt_of st) curr_frag rs
   \<and> chain (nxt_of st) (xom_root st) xs \<and> distinct (ks @ rs @ xs)
   \<and> prev_frag = (if ks = [] then None else Some (last ks))
   \<and> xom_last st = (if xs = [] then None else Some (last xs))
   \<and> rs \<noteq> [] \<and> text_last st = Some (last rs)"

lemma set_next_simps [simp]:
  "nxt_of (set_next p q st) = (nxt_of st)(p := q)" "sp_syms (set_next p q st) = sp_syms st"
  "text_root (set_next p q st) = text_root st" "text_last (set_next p q st) = text_last st"
  "xom_root (set_next p q st) = xom_root st" "xom_last (set_next p q st) = xom_last st"
  by (auto simp: set_next_def)

text \<open>Nothing but the links of the frags and the segments of symbols changes.\<close>

definition same_content :: "split_st \<Rightarrow> split_st \<Rightarrow> bool" where
  "same_content st st' \<longleftrightarrow> (\<forall>p. \<exists>n. sp_frags st' p = (sp_frags st p)\<lparr>fr_next := n\<rparr>)
   \<and> (\<forall>s. \<exists>g. sp_syms st' s = (sp_syms st s)\<lparr>sy_seg := g\<rparr>)"

lemma record_same:
  "\<exists>n. f = f\<lparr>fr_next := n\<rparr>" "\<exists>g. s = s\<lparr>sy_seg := g\<rparr>"
  by (rule exI [of _ "fr_next f"], simp, rule exI [of _ "sy_seg s"], simp)

lemma same_content_refl [simp]: "same_content st st"
  by (simp add: same_content_def record_same)

lemma same_content_trans:
  assumes "same_content a b" and "same_content b c"
  shows "same_content a c"
proof -
  have "\<exists>n. sp_frags c p = (sp_frags a p)\<lparr>fr_next := n\<rparr>" for p
  proof -
    obtain m n where "sp_frags b p = (sp_frags a p)\<lparr>fr_next := m\<rparr>" "sp_frags c p = (sp_frags b p)\<lparr>fr_next := n\<rparr>"
      using assms unfolding same_content_def by blast
    then show ?thesis by auto
  qed
  moreover have "\<exists>g. sp_syms c s = (sp_syms a s)\<lparr>sy_seg := g\<rparr>" for s
  proof -
    obtain g h where "sp_syms b s = (sp_syms a s)\<lparr>sy_seg := g\<rparr>" "sp_syms c s = (sp_syms b s)\<lparr>sy_seg := h\<rparr>"
      using assms unfolding same_content_def by blast
    then show ?thesis by auto
  qed
  ultimately show ?thesis by (simp add: same_content_def)
qed

lemma same_content_set_next: "same_content st st' \<Longrightarrow> same_content st (set_next p q st')"
  by (rule same_content_trans) (auto simp: same_content_def set_next_def record_same)

lemma same_content_ends [simp]:
  "same_content st (st'\<lparr>text_last := x\<rparr>) = same_content st st'"
  "same_content st (st'\<lparr>xom_last := x\<rparr>) = same_content st st'"
  "same_content st (st'\<lparr>xom_root := x\<rparr>) = same_content st st'"
  "same_content st (st'\<lparr>text_root := x\<rparr>) = same_content st st'"
  by (simp_all add: same_content_def)

lemma same_content_unlink: "same_content st (unlink_text pv q st)"
  by (auto simp: unlink_text_def split: option.split intro: same_content_set_next)

lemma same_content_append_xom: "same_content st (append_xom a b st)"
  by (auto simp: append_xom_def Let_def split: option.split intro!: same_content_set_next)

text \<open>The flags and symbols a decision reads are part of the content.\<close>

lemma same_content_embedded:
  assumes "same_content st st'"
  shows "embedded (sp_syms st') (sp_frags st' p) = embedded (sp_syms st) (sp_frags st p)"
    and "fr_flags (sp_frags st' p) = fr_flags (sp_frags st p)"
    and "frag_symbol (sp_frags st' p) = frag_symbol (sp_frags st p)"
    and "frag_anchor (sp_frags st' p) = frag_anchor (sp_frags st p)"
    and "local_symbol (sp_syms st' s) = local_symbol (sp_syms st s)"
    and "section_sym (sp_syms st' s) = section_sym (sp_syms st s)"
proof -
  obtain n where n: "sp_frags st' p = (sp_frags st p)\<lparr>fr_next := n\<rparr>"
    using assms unfolding same_content_def by blast
  have y: "\<exists>g. sp_syms st' s = (sp_syms st s)\<lparr>sy_seg := g\<rparr>" for s
    using assms unfolding same_content_def by blast
  show "fr_flags (sp_frags st' p) = fr_flags (sp_frags st p)"
    "frag_symbol (sp_frags st' p) = frag_symbol (sp_frags st p)"
    "frag_anchor (sp_frags st' p) = frag_anchor (sp_frags st p)" using n by simp_all
  show "local_symbol (sp_syms st' s) = local_symbol (sp_syms st s)"
    "section_sym (sp_syms st' s) = section_sym (sp_syms st s)" using y [of s] by auto
  have "S_IS_CF_SYMBOL (sp_syms st') q = S_IS_CF_SYMBOL (sp_syms st) q" for q
  proof (cases q)
    case (Some s)
    then show ?thesis using y [of s] by (auto simp: S_IS_CF_SYMBOL_def)
  qed (simp add: S_IS_CF_SYMBOL_def)
  then show "embedded (sp_syms st') (sp_frags st' p) = embedded (sp_syms st) (sp_frags st p)"
    using n by (simp add: embedded_def offset_of_def)
qed

text \<open>Moving a stretch of frags from behind the kept ones to the end of the data chain.\<close>

lemma nxt_unlink:
  assumes "pv = (if ks = [] then None else Some (last ks))"
  shows "nxt_of (unlink_text pv q st) = relink (nxt_of st) ks q"
    and "text_root (unlink_text pv q st) = reroot (text_root st) ks q"
    and "text_last (unlink_text pv q st) = text_last st" and "xom_root (unlink_text pv q st) = xom_root st"
    and "xom_last (unlink_text pv q st) = xom_last st"
  using assms by (auto simp: unlink_text_def relink_def reroot_def)

lemma nxt_append_xom:
  assumes "xom_last st = (if xs = [] then None else Some (last xs))" and "ws \<noteq> []"
  shows "nxt_of (append_xom (hd ws) (last ws) st) = relink (relink (nxt_of st) ws None) xs (Some (hd ws))"
    and "xom_root (append_xom (hd ws) (last ws) st) = reroot (xom_root st) xs (Some (hd ws))"
    and "xom_last (append_xom (hd ws) (last ws) st) = Some (last ws)"
    and "text_root (append_xom (hd ws) (last ws) st) = text_root st"
    and "text_last (append_xom (hd ws) (last ws) st) = text_last st"
  using assms by (auto simp: append_xom_def relink_def reroot_def Let_def)

lemma move_stretch:
  assumes inv: "split_inv st pv cu ks (ws @ rs) xs" and ne: "ws \<noteq> []" "rs \<noteq> []"
  shows "split_inv (append_xom (hd ws) (last ws) (unlink_text pv (Some (hd rs)) st)) pv (Some (hd rs)) ks rs (xs @ ws)"
proof -
  let ?n0 = "nxt_of st" and ?q = "Some (hd rs)"
  let ?n1 = "relink ?n0 ks ?q"
  let ?n2 = "relink ?n1 ws None"
  let ?n3 = "relink ?n2 xs (Some (hd ws))"
  have i: "chain ?n0 (text_root st) (ks @ ws @ rs)" "chain ?n0 cu (ws @ rs)" "chain ?n0 (xom_root st) xs"
    "distinct (ks @ (ws @ rs) @ xs)" "pv = (if ks = [] then None else Some (last ks))"
    "xom_last st = (if xs = [] then None else Some (last xs))" "text_last st = Some (last rs)"
    using inv ne by (auto simp: split_inv_def)
  have off: "ks = [] \<or> last ks \<notin> set (ws @ rs @ xs)" "last ws \<notin> set (ks @ rs @ xs)"
    "xs = [] \<or> last xs \<notin> set (ks @ ws @ rs)"
    using i(4) ne last_in_set [of ks] last_in_set [of ws] last_in_set [of xs] by (auto, blast+)
  obtain r where r: "path ?n0 cu ws r" "chain ?n0 r rs" using i(2) by (auto simp: chain_append)
  have "r = ?q" using chain_root [OF r(2)] ne(2) by (cases rs) auto
  have cu: "cu = Some (hd ws)" using r(1) ne(1) by (cases ws) auto
  have w: "path ?n0 (Some (hd ws)) ws ?q" using r(1) \<open>r = ?q\<close> cu by simp
  have d: "distinct (ks @ ws @ rs)" using i(4) by auto
  have "chain ?n1 (reroot (text_root st) ks ?q) (ks @ rs)"
    by (rule chain_cut [OF i(1) d w ne(1)])
  then have t: "chain ?n3 (reroot (text_root st) ks ?q) (ks @ rs)"
    using off by (auto simp: chain_relink_other)
  have "chain ?n1 ?q rs" using r(2) \<open>r = ?q\<close> off(1) by (auto simp: chain_relink_other)
  then have c: "chain ?n3 ?q rs" using off by (auto simp: chain_relink_other)
  have "path ?n1 (Some (hd ws)) ws ?q" using w off(1) by (auto simp: path_relink_other)
  from path_relink [OF this, of None] have "path ?n2 (Some (hd ws)) ws None" using i(4) ne(1) by (simp add: reroot_def)
  then have w3: "chain ?n3 (Some (hd ws)) ws" using off(3) by (auto simp: path_relink_other chain_def)
  have "path ?n2 (xom_root st) xs None" using i(3) off(1,2) by (auto simp: path_relink_other chain_def)
  from path_relink [OF this, of "Some (hd ws)"]
  have "path ?n3 (reroot (xom_root st) xs (Some (hd ws))) xs (Some (hd ws))" using i(4) by simp
  with w3 have x: "chain ?n3 (reroot (xom_root st) xs (Some (hd ws))) (xs @ ws)" by (auto simp: chain_append)
  note U = nxt_unlink [OF i(5), of ?q st]
  have xl: "xom_last (unlink_text pv ?q st) = (if xs = [] then None else Some (last xs))" using U(5) i(6) by simp
  note A = nxt_append_xom [OF xl ne(1)]
  show ?thesis
    unfolding split_inv_def A U using t c x i(4,5,7) ne by auto
qed

lemma move_symbol_spec:
  assumes "\<And>s. symb = Some s \<Longrightarrow> local_symbol (sp_syms st s) \<or> \<not> section_sym (sp_syms st s)"
  shows "\<exists>st'. move_symbol symb st = Inr st' \<and> same_content st st' \<and> sp_frags st' = sp_frags st
    \<and> (\<forall>pv cu ks rs xs. split_inv st' pv cu ks rs xs = split_inv st pv cu ks rs xs)
    \<and> (\<forall>s. sy_seg (sp_syms st' s) = (if symb = Some s then xom_data_section else sy_seg (sp_syms st s)))"
proof (cases symb)
  case None
  then show ?thesis by (simp add: move_symbol_def)
next
  case (Some s)
  let ?st = "st\<lparr>sp_syms := (sp_syms st)(s := (sp_syms st s)\<lparr>sy_seg := xom_data_section\<rparr>)\<rparr>"
  have "move_symbol symb st = Inr ?st"
    using assms [OF Some] by (auto simp: move_symbol_def Some S_SET_SEGMENT_def)
  moreover have "same_content st ?st" by (auto simp: same_content_def record_same)
  ultimately show ?thesis using Some by (intro exI [of _ ?st]) (simp add: split_inv_def)
qed

text \<open>The state after the loop.\<close>

definition split_done :: "split_st \<Rightarrow> fragP list \<Rightarrow> fragP list \<Rightarrow> bool" where
  "split_done st ks xs \<longleftrightarrow> chain (nxt_of st) (text_root st) ks \<and> chain (nxt_of st) (xom_root st) xs
   \<and> distinct (ks @ xs) \<and> ks \<noteq> [] \<and> text_last st = Some (last ks)
   \<and> xom_last st = (if xs = [] then None else Some (last xs))"

definition moved_syms :: "split_st \<Rightarrow> fragP list \<Rightarrow> symP set" where
  "moved_syms st mv = {s. \<exists>p \<in> set mv. embedded (sp_syms st) (sp_frags st p) \<and> frag_symbol (sp_frags st p) = Some s}"

lemma split_inv_next:
  assumes "split_inv st pv cu ks (x # rs) xs"
  shows "cu = Some x" and "fr_next (sp_frags st x) = (if rs = [] then None else Some (hd rs))"
  using assms by (cases rs; auto simp: split_inv_def)+

lemma split_inv_keep:
  "split_inv st pv cu ks (x # y # zs) xs \<Longrightarrow> split_inv st (Some x) (Some y) (ks @ [x]) (y # zs) xs"
  by (auto simp: split_inv_def)

lemma split_safe_suffix:
  assumes "split_safe sy fs (ys @ zs)" and "zs \<noteq> []"
  shows "split_safe sy fs zs"
  using assms by (auto simp: split_safe_def)

lemma split_safe_content:
  assumes "same_content st st'"
  shows "split_safe (sp_syms st') (sp_frags st') rs = split_safe (sp_syms st) (sp_frags st) rs"
  by (simp add: split_safe_def same_content_embedded [OF assms])

text \<open>One round of the loop when embedded data is found, with (\<open>ws = [x, y]\<close>) or without an alignment
  frag in front.\<close>

lemma split_step_move:
  assumes inv: "split_inv st pv cu ks (ws @ rs) xs" and rs: "rs \<noteq> []"
    and safe: "split_safe (sp_syms st) (sp_frags st) (ws @ rs)"
    and ws: "(\<exists>x. ws = [x] \<and> \<not> align_frag (fr_flags (sp_frags st x))
        \<and> embedded (sp_syms st) (sp_frags st x))
      \<or> (\<exists>x y. ws = [x, y] \<and> align_frag (fr_flags (sp_frags st x)) \<and> embedded (sp_syms st) (sp_frags st y))"
  shows "\<exists>st'. split_step st pv (hd ws) = Inr (Some (st', pv, Some (hd rs)))
    \<and> split_inv st' pv (Some (hd rs)) ks rs (xs @ ws) \<and> same_content st st'
    \<and> (\<forall>s. sy_seg (sp_syms st' s) = (if s \<in> moved_syms st ws then xom_data_section else sy_seg (sp_syms st s)))"
proof -
  let ?b = "sp_frags st (last ws)"
  let ?st1 = "append_xom (hd ws) (last ws) (unlink_text pv (Some (hd rs)) st)"
  have ne: "ws \<noteq> []" using ws by auto
  have sc: "same_content st ?st1"
    using same_content_append_xom same_content_unlink by (blast intro: same_content_trans)
  have syms: "sp_syms ?st1 = sp_syms st"
    by (simp add: append_xom_def unlink_text_def Let_def split: option.split)
  have em: "embedded (sp_syms st) ?b" "moved_syms st ws = {s. frag_symbol ?b = Some s}"
    using ws by (auto simp: moved_syms_def embedded_def)
  have sf: "anchor_frag (fr_flags ?b) \<longrightarrow> frag_symbol ?b \<noteq> None \<and> frag_anchor ?b \<noteq> None"
    "\<And>s. frag_symbol ?b = Some s \<Longrightarrow> local_symbol (sp_syms st s) \<or> \<not> section_sym (sp_syms st s)"
    using safe em(1) ne by (auto simp: split_safe_def)
  obtain st' where m: "move_symbol (frag_symbol ?b) ?st1 = Inr st'" "same_content ?st1 st'"
    "split_inv st' pv (Some (hd rs)) ks rs (xs @ ws)"
    "\<forall>s. sy_seg (sp_syms st' s) = (if frag_symbol ?b = Some s then xom_data_section else sy_seg (sp_syms st s))"
    using move_symbol_spec [of "frag_symbol ?b" ?st1] sf(2) move_stretch [OF inv ne rs] syms by auto
  have tl: "text_last st = Some (last rs)" "text_last (unlink_text pv (Some (hd rs)) st) = Some (last rs)"
    "last rs \<notin> set ws"
    using inv rs by (auto simp: split_inv_def unlink_text_def split: option.split)
  have "split_step st pv (hd ws) = Inr (Some (st', pv, Some (hd rs)))"
    using ws
  proof (elim disjE exE conjE)
    fix x assume x: "ws = [x]" "\<not> align_frag (fr_flags (sp_frags st x))" "embedded (sp_syms st) (sp_frags st x)"
    have "fr_next (sp_frags st x) = Some (hd rs)" using split_inv_next(2) inv x(1) rs by simp
    then show ?thesis
      using x m(1) tl sf(1) by (simp add: split_step_def embedded_def gas_assert_def Let_def)
  next
    fix x y assume x: "ws = [x, y]" "align_frag (fr_flags (sp_frags st x))" "embedded (sp_syms st) (sp_frags st y)"
    have "fr_next (sp_frags st x) = Some y" using split_inv_next(2) inv x(1) by simp
    moreover have "fr_next (sp_frags st y) = Some (hd rs)"
      using split_inv_next(2) [OF split_inv_keep] inv x(1) rs by simp
    moreover have "text_last (unlink_text pv (Some (hd rs)) st) \<noteq> Some y" using tl x(1) by auto
    ultimately show ?thesis
      using x m(1) by (simp add: split_step_def embedded_def gas_assert_def Let_def word_gt_0)
  qed
  then show ?thesis using m(2-4) sc em(2) by (auto intro: same_content_trans)
qed

abbreviation al_of :: "split_st \<Rightarrow> fragP \<Rightarrow> bool" where
  "al_of st \<equiv> \<lambda>p. align_frag (fr_flags (sp_frags st p))"

abbreviation em_of :: "split_st \<Rightarrow> fragP \<Rightarrow> bool" where
  "em_of st \<equiv> \<lambda>p. embedded (sp_syms st) (sp_frags st p)"

lemma content_predicates:
  assumes "same_content st st'"
  shows "al_of st' = al_of st" "em_of st' = em_of st" "moved_syms st' mv = moved_syms st mv"
  by (simp_all add: moved_syms_def same_content_embedded [OF assms])

definition split_result :: "split_st \<Rightarrow> fragP list \<Rightarrow> fragP list \<Rightarrow> fragP list \<Rightarrow> split_st \<Rightarrow> bool" where
  "split_result st ks rs xs st' \<longleftrightarrow> (let (k, mv) = split_spec (al_of st) (em_of st) rs in
     split_done st' (ks @ k) (xs @ mv) \<and> same_content st st'
   \<and> (\<forall>s. sy_seg (sp_syms st' s) = (if s \<in> moved_syms st mv then xom_data_section else sy_seg (sp_syms st s))))"

lemma split_result_move:
  assumes "split_result st1 ks rs (xs @ ws) st'" and "same_content st st1"
    and "\<forall>s. sy_seg (sp_syms st1 s) = (if s \<in> moved_syms st ws then xom_data_section else sy_seg (sp_syms st s))"
    and "split_spec (al_of st) (em_of st) (ws @ rs) =
      (let (k, mv) = split_spec (al_of st) (em_of st) rs in (k, ws @ mv))"
  shows "split_result st ks (ws @ rs) xs st'"
proof -
  obtain k mv where k: "split_spec (al_of st) (em_of st) rs = (k, mv)" by fastforce
  have "moved_syms st (ws @ mv) = moved_syms st ws \<union> moved_syms st mv" by (auto simp: moved_syms_def)
  then show ?thesis
    using assms k by (auto simp: split_result_def content_predicates [OF assms(2)] intro: same_content_trans)
qed

lemma split_result_keep:
  assumes "split_result st (ks @ [x]) (y # zs) xs st'"
    and "split_spec (al_of st) (em_of st) (x # y # zs) =
      (let (k, mv) = split_spec (al_of st) (em_of st) (y # zs) in (x # k, mv))"
  shows "split_result st ks (x # y # zs) xs st'"
  using assms by (auto simp: split_result_def split: prod.splits)

lemma split_loop_Some:
  "split_loop st pv (Some c) = (case split_step st pv c of Inl e \<Rightarrow> Some (Inl e) | Inr None \<Rightarrow> Some (Inr st)
     | Inr (Some (st', pv', cu')) \<Rightarrow> split_loop st' pv' cu')"
  by (subst split_loop.simps) simp

lemma split_loop_refines:
  "split_inv st pv cu ks rs xs \<Longrightarrow> split_safe (sp_syms st) (sp_frags st) rs \<Longrightarrow>
     \<exists>st'. split_loop st pv cu = Some (Inr st') \<and> split_result st ks rs xs st'"
proof (induction "length rs" arbitrary: st pv cu ks rs xs rule: less_induct)
  case less
  obtain x rest where rs: "rs = x # rest" using less.prems(1) by (cases rs) (auto simp: split_inv_def)
  have cu: "cu = Some x" using split_inv_next(1) less.prems(1) rs by blast
  show ?case
  proof (cases rest)
    case Nil
    then have "fr_next (sp_frags st x) = None" using split_inv_next(2) less.prems(1) rs by force
    then have "split_loop st pv cu = Some (Inr st)" by (simp add: cu split_loop_Some split_step_def)
    then show ?thesis
      using less.prems(1) rs Nil
      by (auto simp: split_result_def split_done_def split_inv_def moved_syms_def)
  next
    case (Cons y zs)
    have move: ?thesis if ws: "rs = ws @ vs" "vs \<noteq> []" "hd ws = x" "ws \<noteq> []"
      and m: "(\<exists>x. ws = [x] \<and> \<not> align_frag (fr_flags (sp_frags st x)) \<and> embedded (sp_syms st) (sp_frags st x))
       \<or> (\<exists>x y. ws = [x, y] \<and> align_frag (fr_flags (sp_frags st x)) \<and> embedded (sp_syms st) (sp_frags st y))"
      and sp: "split_spec (al_of st) (em_of st) (ws @ vs) =
        (let (k, mv) = split_spec (al_of st) (em_of st) vs in (k, ws @ mv))" for ws vs
    proof -
      obtain st1 where st1: "split_step st pv x = Inr (Some (st1, pv, Some (hd vs)))"
        "split_inv st1 pv (Some (hd vs)) ks vs (xs @ ws)" "same_content st st1"
        "\<forall>s. sy_seg (sp_syms st1 s) = (if s \<in> moved_syms st ws then xom_data_section else sy_seg (sp_syms st s))"
        using split_step_move [of st pv cu ks ws vs xs] less.prems ws m by auto
      have "length vs < length rs" using ws by simp
      moreover have "split_safe (sp_syms st1) (sp_frags st1) vs"
        using split_safe_suffix less.prems(2) ws split_safe_content [OF st1(3)] by blast
      ultimately obtain st' where "split_loop st1 pv (Some (hd vs)) = Some (Inr st')"
        "split_result st1 ks vs (xs @ ws) st'"
        using less.hyps st1(2) by blast
      then show ?thesis
        using split_result_move [OF _ st1(3,4) sp] ws(1) st1(1) cu by (auto simp: split_loop_Some)
    qed
    have keep: ?thesis if k: "split_step st pv x = Inr (Some (st, Some x, Some y))"
      and sp: "split_spec (al_of st) (em_of st) (x # y # zs) =
        (let (k, mv) = split_spec (al_of st) (em_of st) (y # zs) in (x # k, mv))"
    proof -
      have "split_inv st (Some x) (Some y) (ks @ [x]) (y # zs) xs"
        using less.prems(1) rs Cons split_inv_keep by blast
      moreover have "split_safe (sp_syms st) (sp_frags st) (y # zs)"
        using split_safe_suffix [of _ _ "[x]" "y # zs"] less.prems(2) rs Cons by simp
      moreover have "length (y # zs) < length rs" using rs Cons by simp
      ultimately obtain st' where "split_loop st (Some x) (Some y) = Some (Inr st')"
        "split_result st (ks @ [x]) (y # zs) xs st'"
        using less.hyps by blast
      then show ?thesis using split_result_keep [OF _ sp] rs Cons cu k by (auto simp: split_loop_Some)
    qed
    have nx: "fr_next (sp_frags st x) = Some y" using split_inv_next(2) less.prems(1) rs Cons by force
    consider (pair) "al_of st x" "em_of st y" | (al) "al_of st x" "\<not> em_of st y"
      | (data) "\<not> al_of st x" "em_of st x" | (code) "\<not> al_of st x" "\<not> em_of st x" by blast
    then show ?thesis
    proof cases
      case pair
      have "zs \<noteq> []" using less.prems(2) pair rs Cons by (auto simp: split_safe_def)
      then show ?thesis using pair rs Cons by (intro move [of "[x, y]" zs]) auto
    next
      case al
      then show ?thesis
        using nx by (intro keep) (auto simp: split_step_def Let_def embedded_def word_gt_0)
    next
      case data
      then show ?thesis using rs Cons by (intro move [of "[x]" "y # zs"]) auto
    next
      case code
      then show ?thesis
        using nx by (intro keep) (auto simp: split_step_def Let_def embedded_def)
    qed
  qed
qed

section \<open>Properties of the split\<close>

lemma split_spec_mset: "split_spec al em ids = (k, mv) \<Longrightarrow> mset ids = mset k + mset mv"
  by (induction al em ids arbitrary: k mv rule: split_spec.induct) (auto split: if_splits prod.splits)

lemma split_spec_subseq: "split_spec al em ids = (k, mv) \<Longrightarrow> subseq k ids \<and> subseq mv ids"
  by (induction al em ids arbitrary: k mv rule: split_spec.induct) (auto split: if_splits prod.splits)

lemma split_spec_kept:
  "split_spec al em ids = (k, mv) \<Longrightarrow> (\<And>p. em p \<Longrightarrow> \<not> al p) \<Longrightarrow> ids \<noteq> [] \<Longrightarrow> \<not> em (last ids) \<Longrightarrow>
     p \<in> set k \<Longrightarrow> \<not> em p"
proof (induction al em ids arbitrary: k mv rule: split_spec.induct)
  case (1 al em x y zs)
  then show ?case by (cases zs) (auto split: if_splits prod.splits)
qed auto

text \<open>A frag is moved because it is data, or because it is an alignment frag directly in front of data.\<close>

lemma split_spec_moved:
  "split_spec al em ids = (k, mv) \<Longrightarrow> p \<in> set mv \<Longrightarrow> em p \<or> (al p \<and> (\<exists>q us vs. ids = us @ p # q # vs \<and> em q))"
proof (induction al em ids arbitrary: k mv rule: split_spec.induct)
  case (1 al em x y zs)
  then show ?case by (auto split: if_splits prod.splits) (metis append_Cons append_Nil)+
qed auto

lemma split_spec_last:
  "split_spec al em ids = (k, mv) \<Longrightarrow> ids \<noteq> [] \<Longrightarrow> \<not> em (last ids) \<Longrightarrow> k \<noteq> [] \<and> last k = last ids"
proof (induction al em ids arbitrary: k mv rule: split_spec.induct)
  case (1 al em x y zs)
  then show ?case by (cases zs) (auto split: if_splits prod.splits)
qed auto

text \<open>The end of the data chain.\<close>

lemma close_xom_chain_spec:
  assumes tg: "target_ok tg" and xl: "frch_last xc = Some l" and tl: "frch_last tc = Some t"
    and c: "chain (frag_next g) (frch_root xc) (xs @ [l])" and d: "distinct (xs @ [l])"
    and ob: "ob_ok tg (frch_obstack xc)" "object_base (frch_obstack xc) = next_free (frch_obstack xc)"
    and fresh: "\<And>ptr ob'. alloc_effect tg (frch_obstack xc) ptr ob' \<Longrightarrow> ptr \<notin> set (xs @ l # ids)"
    and l: "l \<notin> set ids"
  shows "\<exists>xc' g' zs. close_xom_chain tg tc xc g = Inr (xc', g') \<and> frch_root xc' = frch_root xc
    \<and> chain (frag_next g') (frch_root xc) (xs @ l # zs) \<and> frch_last xc' = Some (last (l # zs))
    \<and> length zs \<le> 1 \<and> (\<forall>p \<in> set zs. fr_fix (frags g' p) = 0 \<and> fr_type (frags g' p) = rs_fill)
    \<and> (\<forall>p \<in> set ids. frags g' p = frags g p) \<and> syms g' = syms g \<and> seg_info g' = seg_info g"
proof (cases "fr_type (frags g l) = rs_align_code")
  case False
  then show ?thesis
    using xl c by (intro exI [of _ xc] exI [of _ g] exI [of _ "[]"]) (simp add: close_xom_chain_def)
next
  case True
  obtain p ob' where A: "frag_alloc_ob tg (frch_obstack xc) 0 = Inr (p, ob')"
    "alloc_effect tg (frch_obstack xc) p ob'"
    using frag_alloc_ob_spec [OF tg ob] by blast
  have p: "p \<notin> set (xs @ l # ids)" using fresh [OF A(2)] .
  define g1 where "g1 = g\<lparr>frags := (frags g)(p := zero_frag), totalfrags := totalfrags g + 1\<rparr>"
  define g' where "g' = upd_frag p (\<lambda>f. f\<lparr>fr_fix := 0\<rparr>) (frag_wane p (upd_frag l (\<lambda>f. f\<lparr>fr_next := Some p\<rparr>)
      (upd_frag p (\<lambda>f. f\<lparr>frag_index := frag_index (frags g1 t) + 1\<rparr>) g1)))"
  have "close_xom_chain tg tc xc g = Inr (xc\<lparr>frch_last := Some p, frch_obstack := ob'\<rparr>, g')"
    using True xl tl A(1) by (simp add: close_xom_chain_def frag_alloc_def g'_def g1_def Let_def)
  moreover have nx: "frag_next g' = (frag_next g)(p := None, l := Some p)"
    using p by (auto simp: g'_def g1_def frag_next_def frag_wane_def frags_upd_frag wane_def zero_frag_def fun_eq_iff)
  have "chain ((frag_next g)(p := None)) (frch_root xc) (xs @ [l])" using c p by simp
  then have "chain (frag_next g') (frch_root xc) (xs @ [l] @ [p])"
    unfolding nx using d p by (intro chain_snoc_link) auto
  moreover have "fr_fix (frags g' p) = 0" "fr_type (frags g' p) = rs_fill"
    by (simp_all add: g'_def frags_upd_frag frag_wane_def wane_def)
  moreover have "frags g' q = frags g q" if "q \<in> set ids" for q
    using that p l by (auto simp: g'_def g1_def frags_upd_frag frag_wane_def)
  moreover have "syms g' = syms g" "seg_info g' = seg_info g"
    by (simp_all add: g'_def g1_def frag_wane_def)
  ultimately show ?thesis
    by (intro exI [of _ "xc\<lparr>frch_last := Some p, frch_obstack := ob'\<rparr>"] exI [of _ g'] exI [of _ "[p]"]) simp
qed

definition first_root :: "gas \<Rightarrow> segT \<Rightarrow> fragP option" where
  "first_root g sg = (case seg_info g sg of None \<Rightarrow> None
     | Some si \<Rightarrow> (case frchainP si of [] \<Rightarrow> None | c # _ \<Rightarrow> frch_root c))"

definition fixes_of :: "gas \<Rightarrow> segT \<Rightarrow> fixS list" where
  "fixes_of g sg = (case seg_info g sg of None \<Rightarrow> [] | Some si \<Rightarrow> seg_fixes si)"

lemma split_text_frags_spec:
  assumes bo: "build_ok tg" and inv: "gas_inv tg g"
    and t: "seg_info g text_section = Some ti" "frchainP ti = tc # tcs" "chain_ok tg (frags g) tc ids"
    and x: "seg_info g xom_data_section = Some xi" "frchainP xi = xc # xcs" "chain_ok tg (frags g) xc xs"
    and e: "obstack_object_size (frch_obstack xc) = 0"
    and safe: "split_safe (syms g) (frags g) ids"
    and sp: "split_spec (\<lambda>p. align_frag (fr_flags (frags g p))) (\<lambda>p. embedded (syms g) (frags g p)) ids = (k, mv)"
  shows "\<exists>g' zs. split_text_frags tg g = Some (Inr g')
    \<and> chain (frag_next g') (first_root g' text_section) k
    \<and> chain (frag_next g') (first_root g' xom_data_section) (xs @ mv @ zs)
    \<and> length zs \<le> 1 \<and> (\<forall>p \<in> set zs. fr_fix (frags g' p) = 0 \<and> fr_type (frags g' p) = rs_fill)
    \<and> fixes_of g' text_section = map (fix_to_xom (syms g')) (seg_fixes ti)
    \<and> (\<forall>s. sy_seg (syms g' s) = (if \<exists>p \<in> set mv. embedded (syms g) (frags g p) \<and> frag_symbol (frags g p) = Some s
         then xom_data_section else sy_seg (syms g s)))"
proof -
  let ?st = "\<lparr>sp_frags = frags g, sp_syms = syms g, text_root = frch_root tc, text_last = frch_last tc,
      xom_root = frch_root xc, xom_last = frch_last xc\<rparr>"
  have hc: "has_chain g text_section tc" "has_chain g xom_data_section xc"
    using t(1,2) x(1,2) by (auto simp: has_chain_def)
  have dis: "set ids \<inter> set xs = {}"
    using chains_disjoint [OF bo inv hc t(3) x(3)] by simp
  have tk: "chain (\<lambda>p. fr_next (frags g p)) (frch_root tc) ids" "ids \<noteq> []" "distinct ids" "frch_last tc = Some (last ids)"
    using t(3) by (simp_all add: chain_ok_def)
  have xk: "chain (\<lambda>p. fr_next (frags g p)) (frch_root xc) xs" "xs \<noteq> []" "distinct xs" "frch_last xc = Some (last xs)"
    "ob_ok tg (frch_obstack xc)" "\<forall>p \<in> set xs. located tg (frch_obstack xc) p"
    using x(3) by (simp_all add: chain_ok_def)
  have "split_inv ?st None (frch_root tc) [] ids xs"
    using tk xk dis by (auto simp: split_inv_def)
  from split_loop_refines [OF this] safe
  obtain st where L: "split_loop ?st None (frch_root tc) = Some (Inr st)" "split_result ?st [] ids xs st" by auto
  have R: "split_done st k (xs @ mv)" "same_content ?st st"
    "\<forall>s. sy_seg (sp_syms st s) = (if s \<in> moved_syms ?st mv then xom_data_section else sy_seg (syms g s))"
    using L(2) sp by (auto simp: split_result_def)
  define g1 where "g1 = g\<lparr>frags := sp_frags st, syms := sp_syms st\<rparr>"
  define tc' where "tc' = tc\<lparr>frch_root := text_root st, frch_last := text_last st\<rparr>"
  define xc' where "xc' = xc\<lparr>frch_root := xom_root st, frch_last := xom_last st\<rparr>"
  have nx1: "frag_next g1 = nxt_of st" by (simp add: g1_def frag_next_def [abs_def])
  obtain ys l where ys: "xs @ mv = ys @ [l]" using xk(2) by (metis append_is_Nil_conv rev_exhaust)
  have sub: "set k \<subseteq> set ids" "set mv \<subseteq> set ids"
    using split_spec_mset [OF sp] by (metis Un_upper1 Un_upper2 set_mset_mset set_mset_union)+
  have fresh: "ptr \<notin> set (ys @ l # k)" if a: "alloc_effect tg (frch_obstack xc') ptr ob'" for ptr ob'
  proof -
    have o: "frch_obstack xc' = frch_obstack xc" by (simp add: xc'_def)
    have "ptr \<notin> set xs" using a xk(6) by (auto simp: alloc_effect_def o)
    moreover have "ptr \<notin> set ids"
    proof -
      have id: "ob_id (frch_obstack tc) \<noteq> ob_id ob'"
      proof
        assume "ob_id (frch_obstack tc) = ob_id ob'"
        then have "ob_id (frch_obstack tc) = ob_id (frch_obstack xc)" using a by (simp add: alloc_effect_def o)
        then have "text_section = xom_data_section" using inv hc unfolding gas_inv_def chains_inv_def by blast
        then show False by simp
      qed
      have "ob_ok tg ob'" "located tg ob' ptr" using a by (auto simp: alloc_effect_def)
      then show ?thesis using t(3) bo id located_other [of tg "frch_obstack tc" ob']
        by (auto simp: chain_ok_def build_ok_def)
    qed
    moreover have "set (ys @ [l]) = set (xs @ mv)" using ys by simp
    then have "set (ys @ l # k) \<subseteq> set xs \<union> set ids" using sub by auto
    ultimately show ?thesis by blast
  qed
  have "distinct (k @ ys @ [l])" using R(1) ys by (simp add: split_done_def)
  then have lk: "l \<notin> set k" "distinct (ys @ [l])" by auto
  obtain xc2 g2 zs where C: "close_xom_chain tg tc' xc' g1 = Inr (xc2, g2)" "frch_root xc2 = frch_root xc'"
    "chain (frag_next g2) (frch_root xc') (ys @ l # zs)" "length zs \<le> 1"
    "\<forall>p \<in> set zs. fr_fix (frags g2 p) = 0 \<and> fr_type (frags g2 p) = rs_fill"
    "\<forall>p \<in> set k. frags g2 p = frags g1 p" "syms g2 = syms g1" "seg_info g2 = seg_info g1"
    using close_xom_chain_spec [of tg xc' l tc' "last k" g1 ys k] fresh lk R(1) ys xk(5) e bo
    by (auto simp: xc'_def tc'_def nx1 split_done_def build_ok_def obstack_object_size_def ob_ok_def obstack_ok_def)
  let ?g' = "set_fixes text_section (fix_to_xom (syms g2))
      (set_first_chain xom_data_section xc2 (set_first_chain text_section tc' g2))"
  have run: "split_text_frags tg g = Some (Inr ?g')"
    using t x L(1) C(1) by (simp add: split_text_frags_def g1_def tc'_def xc'_def Let_def)
  have keep: "frags ?g' = frags g2" "syms ?g' = syms g2" "frag_next ?g' = frag_next g2"
    by (simp_all add: set_fixes_def set_first_chain_def frag_next_def [abs_def])
  have si: "seg_info g2 = seg_info g" using C(8) by (simp add: g1_def)
  have roots: "first_root ?g' text_section = text_root st" "first_root ?g' xom_data_section = xom_root st"
    "fixes_of ?g' text_section = map (fix_to_xom (syms g2)) (seg_fixes ti)"
    using t x si C(2) by (simp_all add: first_root_def fixes_of_def set_fixes_def set_first_chain_def tc'_def xc'_def)
  have "chain (frag_next g2) (text_root st) k"
  proof -
    have "chain (nxt_of st) (text_root st) k" using R(1) by (simp add: split_done_def)
    moreover have "\<And>q. q \<in> set k \<Longrightarrow> frag_next g2 q = nxt_of st q" using C(6) by (simp add: frag_next_def g1_def)
    ultimately show ?thesis using path_cong [of k "frag_next g2" "nxt_of st"] by (simp add: chain_def)
  qed
  moreover have "chain (frag_next g2) (xom_root st) (xs @ mv @ zs)"
    using C(3) ys by (simp add: xc'_def) (metis append.assoc append_Cons append_Nil)
  moreover have "sy_seg (syms g2 s) = (if \<exists>p \<in> set mv. embedded (syms g) (frags g p) \<and> frag_symbol (frags g p) = Some s
      then xom_data_section else sy_seg (syms g s))" for s
    using R(3) C(7) by (simp add: g1_def moved_syms_def)
  ultimately show ?thesis
    using run keep roots C(4,5) by (intro exI [of _ ?g'] exI [of _ zs]) simp
qed

lemma split_spec_no_align:
  "ids \<noteq> [] \<Longrightarrow> split_spec (\<lambda>_. False) em ids
     = (filter (\<lambda>p. \<not> em p) (butlast ids) @ [last ids], filter em (butlast ids))"
proof (induction "\<lambda>_ :: 'a. False" em ids rule: split_spec.induct)
  case (1 em x y zs)
  then show ?case by (cases zs) auto
qed auto

section \<open>A concrete input\<close>

text \<open>Four frags of code, padding, data and the final one; the data frag has a label and, in the second
  state, an anchor label in front of it.\<close>

definition flagged :: "frag_flags \<Rightarrow> u64 \<Rightarrow> fragP option \<Rightarrow> frag" where
  "flagged fl n q = zero_frag\<lparr>fr_type := rs_fill, fr_flags := fl, fr_fix := n, fr_next := q\<rparr>"

definition demo_sym :: "fragP \<Rightarrow> symbol" where
  "demo_sym p = \<lparr>sy_name = [], local_symbol = True, sy_frag = Some p, sy_seg = text_section,
     section_sym = False, sy_value = 0, jmp_table_size = 0, jmp_entry_size = 0, call_flow_symbol = False,
     memory_access_symbol = True, bind_bytes = False\<rparr>"

definition demo_frags :: "nat \<Rightarrow> nat \<Rightarrow> fragP \<Rightarrow> frag" where
  "demo_frags b x = (\<lambda>_. flagged no_flags 0 None)
     (b := flagged (no_flags\<lparr>insn_frag := True\<rparr>) 9 (Some (b + 128)),
      b + 128 := (flagged (no_flags\<lparr>align_frag := True\<rparr>) 0 (Some (b + 256)))\<lparr>fr_type := rs_align_code\<rparr>,
      b + 256 := (flagged (no_flags\<lparr>anchor_frag := True\<rparr>) 32 (Some (b + 384)))
                   \<lparr>frag_symbol := Some 1, frag_anchor := Some 0\<rparr>,
      b + 384 := flagged no_flags 0 None,
      x := flagged no_flags 0 None)"

definition demo_st :: split_st where
  "demo_st = \<lparr>sp_frags = demo_frags 0 1000, sp_syms = (\<lambda>_. demo_sym 256), text_root = Some 0,
     text_last = Some 384, xom_root = Some 1000, xom_last = Some 1000\<rparr>"

section \<open>Properties\<close>

text \<open>C18: The relinking loop over the text chain ends without error and has exactly the effect of
  \<open>split_spec\<close> on the list of frags: the kept frags form the text chain, the moved ones are appended
  to the data chain in order, frag contents are untouched, and precisely the symbols that label moved
  data are placed in \<open>.xom_data\<close>.\<close>

theorem split_loop_refines_spec:
  assumes "split_inv st None (text_root st) [] ids xs" and "split_safe (sp_syms st) (sp_frags st) ids"
    and "split_spec (al_of st) (em_of st) ids = (k, mv)"
  shows "\<exists>st'. split_loop st None (text_root st) = Some (Inr st') \<and> split_done st' k (xs @ mv)
    \<and> same_content st st' \<and> (\<forall>s. sy_seg (sp_syms st' s) =
        (if s \<in> moved_syms st mv then xom_data_section else sy_seg (sp_syms st s)))"
  using split_loop_refines [OF assms(1,2)] assms(3) by (auto simp: split_result_def)

lemma demo_split:
  "split_inv demo_st None (text_root demo_st) [] [0, 128, 256, 384] [1000]"
  "split_safe (sp_syms demo_st) (sp_frags demo_st) [0, 128, 256, 384]"
  "split_spec (al_of demo_st) (em_of demo_st) [0, 128, 256, 384] = ([0, 384], [128, 256])"
  by (simp_all add: split_inv_def split_safe_def demo_st_def demo_frags_def flagged_def zero_frag_def no_flags_def
      embedded_def offset_of_def S_IS_CF_SYMBOL_def demo_sym_def)

theorem split_loop_refines_spec_witness:
  "\<exists>st'. split_loop demo_st None (text_root demo_st) = Some (Inr st') \<and> split_done st' [0, 384] [1000, 128, 256]"
  using split_loop_refines_spec [OF demo_split] by auto


text \<open>C25: The pass fails its assertion, rather than losing the last frag, when the text chain ends in an
  alignment frag followed by a data frag.\<close>

theorem split_asserts_final_frag:
  assumes "split_inv st pv (Some x) ks [x, y] xs" and "al_of st x" and "em_of st y"
  shows "split_loop st pv (Some x) = Some (Inl Assert_failed)"
proof -
  have "fr_next (sp_frags st x) = Some y" using split_inv_next(2) [OF assms(1)] by simp
  moreover have "text_last (unlink_text pv q st) = Some y" for q
    using assms(1) by (auto simp: unlink_text_def split_inv_def split: option.split)
  ultimately show ?thesis
    using assms(2,3) by (simp add: split_loop_Some split_step_def embedded_def gas_assert_def Let_def word_gt_0)
qed

theorem split_asserts_final_frag_witness:
  "\<exists>st. split_loop st None (Some 128) = Some (Inl Assert_failed)"
proof -
  let ?st = "(set_next 256 None demo_st)\<lparr>text_root := Some 128, text_last := Some 256\<rparr>"
  have "split_inv ?st None (Some 128) [] [128, 256] [1000]" "al_of ?st 128" "em_of ?st 256"
    by (simp_all add: split_inv_def demo_st_def demo_frags_def flagged_def zero_frag_def no_flags_def set_next_def
        embedded_def offset_of_def S_IS_CF_SYMBOL_def demo_sym_def)
  from split_asserts_final_frag [OF this] show ?thesis by blast
qed




text \<open>The four frags in a complete state of the assembler.\<close>

definition demo_chain :: "nat \<Rightarrow> nat \<Rightarrow> nat \<Rightarrow> frchain" where
  "demo_chain i c n = \<lparr>frch_root = Some (c + 16), frch_last = Some (c + 16 + 128 * n), frch_subseg = 0,
     frch_obstack = \<lparr>ob_id = i, chunk_size = 4064, chunk = c, object_base = c + 144 + 128 * n,
        next_free = c + 144 + 128 * n, chunk_limit = c + 4064, alignment_mask = 7,
        maybe_empty_object = True, prev_chunks = [], n_chunks = 1\<rparr>,
     frch_frag_now = Some (c + 16 + 128 * n), frch_fixes = []\<rparr>"

definition demo_gas :: gas where
  "demo_gas = boot_gas\<lparr>frags := demo_frags (2 ^ 60 + 16) (3 * 2 ^ 60 + 16), syms := (\<lambda>_. demo_sym (2 ^ 60 + 272)),
     seg_info := (\<lambda>_. None)
       (text_section \<mapsto> \<lparr>frchainP = [demo_chain 0 (2 ^ 60) 3], seg_fixes = [], seg_align = 4\<rparr>,
        xom_data_section \<mapsto> \<lparr>frchainP = [demo_chain 1 (3 * 2 ^ 60) 0], seg_fixes = [], seg_align = 4\<rparr>),
     n_frchains := 2\<rparr>"

lemma demo_ob_ok:
  assumes "c = 2 ^ 60 * (prod_encode (i, 0) + 1)" and "n \<le> 4"
  shows "ob_ok sample_target (frch_obstack (demo_chain i c n))"
  using assms
  by (auto simp: ob_ok_def obstack_ok_def chunks_ok_def live_chunks_def demo_chain_def contents_off_def
      small_def sample_target_def intro!: exI [of _ 4064])

lemma demo_chains_ok:
  "chain_ok sample_target (frags demo_gas) (demo_chain 0 (2 ^ 60) 3)
     [2 ^ 60 + 16, 2 ^ 60 + 144, 2 ^ 60 + 272, 2 ^ 60 + 400]"
  "chain_ok sample_target (frags demo_gas) (demo_chain 1 (3 * 2 ^ 60) 0) [3 * 2 ^ 60 + 16]"
  using demo_ob_ok [of "2 ^ 60" 0 3] demo_ob_ok [of "3 * 2 ^ 60" 1 0]
  by (simp_all add: chain_ok_def demo_gas_def demo_frags_def flagged_def located_def prod_encode_def triangle_def)
    (simp_all add: demo_chain_def sample_target_def contents_off_def)

lemma demo_gas_inv: "gas_inv sample_target demo_gas"
proof -
  have hc: "has_chain demo_gas sg fc \<longleftrightarrow> (sg = text_section \<and> fc = demo_chain 0 (2 ^ 60) 3)
      \<or> (sg = xom_data_section \<and> fc = demo_chain 1 (3 * 2 ^ 60) 0)" for sg fc
    by (auto simp: has_chain_def demo_gas_def split: if_splits)
  have "sorted_wrt (<) (map frch_subseg (frchainP si))" if "seg_info demo_gas sg = Some si" for sg si
    using that by (auto simp: demo_gas_def split: if_splits)
  moreover have "frchain_now demo_gas = None" "n_frchains demo_gas = 2"
    by (simp_all add: demo_gas_def boot_gas_def)
  moreover have "ob_id (frch_obstack (demo_chain i c n)) = i" "frch_frag_now (demo_chain i c n) = frch_last (demo_chain i c n)" for i c n
    by (simp_all add: demo_chain_def)
  ultimately show ?thesis
    using demo_chains_ok unfolding gas_inv_def chains_inv_def hc by auto
qed


end
