(* ===== verification/Fixups.thy ===== *)
theory Fixups
  imports Subsegs Symbols
begin

text \<open>
  Fixups and the emission of values (\<open>src/gas/write.c\<close>, \<open>src/gas/read.c\<close>): creating a fixup and
  linking it into its list, writing a constant, a bignum or a symbolic expression at the current
  position, and joining the frag chains of a segment into one.
\<close>

section \<open>Expressions\<close>

datatype operatorT =
    O_illegal
  | O_absent
  | O_constant
  | O_symbol
  | O_symbol_rva
  | O_secidx
  | O_register
  | O_big
  | O_uminus
  | O_bit_not
  | O_logical_not
  | O_multiply
  | O_divide
  | O_modulus
  | O_left_shift
  | O_right_shift
  | O_bit_inclusive_or
  | O_bit_or_not
  | O_bit_exclusive_or
  | O_bit_and
  | O_add
  | O_subtract
  | O_eq
  | O_ne
  | O_lt
  | O_le
  | O_ge
  | O_gt
  | O_logical_and
  | O_logical_or
  | O_index
  | O_md nat

record expressionS =
  X_op :: operatorT
  X_add_symbol :: "symP option"
  X_op_symbol :: "symP option"
  X_add_number :: u64
  X_unsigned :: bool

section \<open>Creating fixups\<close>

text \<open>A new fixup goes to the frag chain, or to the segment once the chains have been joined.\<close>

definition upd_fixes :: "(fixS list \<Rightarrow> fixS list) \<Rightarrow> gas \<Rightarrow> gas result" where
  "upd_fixes f g =
     (if frags_chained g then
        deref (seg_info g (now_seg g)) (\<lambda>si.
          Inr (g\<lparr>seg_info := (seg_info g)(now_seg g \<mapsto> si\<lparr>seg_fixes := f (seg_fixes si)\<rparr>)\<rparr>))
      else deref (the_frchain g) (\<lambda>_. Inr (upd_frchain (\<lambda>c. c\<lparr>frch_fixes := f (frch_fixes c)\<rparr>) g)))"

definition fix_new_internal ::
  "fragP \<Rightarrow> u64 \<Rightarrow> u64 \<Rightarrow> symP option \<Rightarrow> symP option \<Rightarrow> u64 \<Rightarrow> bool \<Rightarrow> reloc_code \<Rightarrow> bool \<Rightarrow> gas \<Rightarrow> (fixS \<times> gas) result" where
  "fix_new_internal frag wh sz add_symbol sub_symbol offset pcrel r_type at_beginning g =
     (let fixP = \<lparr>fx_frag = frag, fx_where = wh, fx_size = ucast sz, fx_addsy = add_symbol, fx_subsy = sub_symbol,
                  fx_offset = offset, fx_pcrel = pcrel, fx_r_type = r_type, fx_done = False\<rparr> in
      if ucast (fx_size fixP) \<noteq> sz then Inl Abort
      else bindE (upd_fixes (\<lambda>fs. if at_beginning then fixP # fs else fs @ [fixP]) g) (\<lambda>g1. Inr (fixP, g1)))"

definition fix_new :: "fragP \<Rightarrow> u64 \<Rightarrow> u64 \<Rightarrow> symP option \<Rightarrow> u64 \<Rightarrow> bool \<Rightarrow> reloc_code \<Rightarrow> gas \<Rightarrow> (fixS \<times> gas) result" where
  "fix_new frag wh sz add_symbol offset pcrel r_type g =
     fix_new_internal frag wh sz add_symbol None offset pcrel r_type False g"

definition fix_at_start :: "fragP \<Rightarrow> u64 \<Rightarrow> symP option \<Rightarrow> u64 \<Rightarrow> bool \<Rightarrow> reloc_code \<Rightarrow> gas \<Rightarrow> (fixS \<times> gas) result" where
  "fix_at_start frag sz add_symbol offset pcrel r_type g =
     fix_new_internal frag 0 sz add_symbol None offset pcrel r_type True g"

text \<open>\<open>symbol_create\<close> makes a symbol, cleared except for its name and place; \<open>symbol_new\<close> also links it
  into the symbol chain.  Labels without a name the user knows are called ''L0'' and an octet 1.  The
  expression kept in the symbol that \<open>make_expr_symbol\<close> creates is not part of the model's symbols;
  its frag is \<open>zero_address_frag\<close>, written \<^term>\<open>None\<close>.\<close>

definition FAKE_LABEL_NAME :: "byte list" where
  "FAKE_LABEL_NAME = [0x4c, 0x30, 1]"

definition symbol_create :: "byte list \<Rightarrow> segT \<Rightarrow> fragP option \<Rightarrow> u64 \<Rightarrow> gas \<Rightarrow> symP \<times> gas" where
  "symbol_create name segment frag valu g =
     (n_syms g, g\<lparr>syms := (syms g)(n_syms g :=
        \<lparr>sy_name = name, local_symbol = False, sy_frag = frag, sy_seg = segment, section_sym = False,
         sy_value = valu, jmp_table_size = 0, jmp_entry_size = 0, call_flow_symbol = False,
         memory_access_symbol = False, bind_bytes = False\<rparr>), n_syms := n_syms g + 1\<rparr>)"

definition symbol_new :: "byte list \<Rightarrow> segT \<Rightarrow> fragP option \<Rightarrow> u64 \<Rightarrow> gas \<Rightarrow> symP \<times> gas" where
  "symbol_new name segment frag valu g =
     (let (s, g1) = symbol_create name segment frag valu g in (s, g1\<lparr>sym_chain := sym_chain g1 @ [s]\<rparr>))"

definition symbol_temp_new :: "segT \<Rightarrow> fragP \<Rightarrow> u64 \<Rightarrow> gas \<Rightarrow> symP \<times> gas" where
  "symbol_temp_new seg frag ofs g = symbol_new FAKE_LABEL_NAME seg (Some frag) ofs g"

definition make_expr_symbol :: "expressionS \<Rightarrow> gas \<Rightarrow> (symP option \<times> gas) result" where
  "make_expr_symbol ex g =
     (if X_op ex = O_symbol \<and> X_add_number ex = 0 then Inr (X_add_symbol ex, g)
      else if X_op ex = O_big then Inl As_bad
      else (let (s, g1) = symbol_create FAKE_LABEL_NAME
                  (if X_op ex = O_constant then absolute_section
                   else if X_op ex = O_register then reg_section else expr_section) None 0 g
            in Inr (Some s, g1)))"

definition fix_new_exp :: "fragP \<Rightarrow> u64 \<Rightarrow> u64 \<Rightarrow> expressionS \<Rightarrow> bool \<Rightarrow> reloc_code \<Rightarrow> gas \<Rightarrow> (fixS \<times> gas) result" where
  "fix_new_exp frag wh sz ex pcrel r_type g = (case X_op ex of
     O_absent \<Rightarrow> fix_new_internal frag wh sz None None 0 pcrel r_type False g
   | O_register \<Rightarrow> Inl As_bad
   | O_symbol_rva \<Rightarrow> fix_new_internal frag wh sz (X_add_symbol ex) None (X_add_number ex) pcrel BFD_RELOC_RVA False g
   | O_uminus \<Rightarrow> fix_new_internal frag wh sz None (X_add_symbol ex) (X_add_number ex) pcrel r_type False g
   | O_subtract \<Rightarrow> fix_new_internal frag wh sz (X_add_symbol ex) (X_op_symbol ex) (X_add_number ex) pcrel r_type False g
   | O_symbol \<Rightarrow> fix_new_internal frag wh sz (X_add_symbol ex) None (X_add_number ex) pcrel r_type False g
   | O_constant \<Rightarrow> fix_new_internal frag wh sz None None (X_add_number ex) pcrel r_type False g
   | _ \<Rightarrow> bindE (make_expr_symbol ex g) (\<lambda>(s, g1).
           fix_new_internal frag wh sz s None 0 pcrel r_type False g1))"

text \<open>\<open>reloc\<close> of \<open>tc-i386.c\<close> when the source names no relocation.\<close>

definition reloc_for_size :: "nat \<Rightarrow> bool \<Rightarrow> int \<Rightarrow> reloc_code result" where
  "reloc_for_size sz pcrel sign =
     (if pcrel then
        (if sign = 0 then Inl As_bad
         else if sz = 1 then Inr BFD_RELOC_8_PCREL else if sz = 2 then Inr BFD_RELOC_16_PCREL
         else if sz = 4 then Inr BFD_RELOC_32_PCREL else if sz = 8 then Inr BFD_RELOC_64_PCREL
         else Inl As_bad)
      else if sign > 0 then (if sz = 4 then Inr BFD_RELOC_X86_64_32S else Inl As_bad)
      else if sz = 1 then Inr BFD_RELOC_8 else if sz = 2 then Inr BFD_RELOC_16
      else if sz = 4 then Inr BFD_RELOC_32 else if sz = 8 then Inr BFD_RELOC_64
      else Inl As_bad)"

section \<open>Emitting values\<close>

definition LITTLENUM_chars :: "u16 \<Rightarrow> byte list" where
  "LITTLENUM_chars n = le_chars 2 (ucast n)"

definition convert_to_bignum :: "u64 \<Rightarrow> bool \<Rightarrow> u16 list" where
  "convert_to_bignum value sign =
     [ucast value, ucast (drop_bit 16 value), ucast (drop_bit 32 value), ucast (drop_bit 48 value)]
     @ (if (value <s 0) = (\<not> sign) then [if sign then 0xffff else 0] else [])"

text \<open>A constant that fits the field: the low octets.\<close>

definition emit_constant :: "u64 \<Rightarrow> nat \<Rightarrow> byte list" where
  "emit_constant val nbytes =
     (let msk = (if nbytes \<ge> 8 then 0 else push_bit (8 * nbytes) (NOT 0 :: u64))
      in le_chars nbytes (val AND NOT msk))"

text \<open>A bignum of \<open>CHARS_PER_LITTLENUM\<close> = 2 octets per digit, padded with \<open>extra_digit\<close>.\<close>

definition emit_bignum :: "u16 list \<Rightarrow> u16 \<Rightarrow> nat \<Rightarrow> byte list" where
  "emit_bignum nums extra_digit nbytes =
     (if nbytes = 1 then le_chars 1 (ucast (hd nums))
      else (let sz = min nbytes (2 * length nums)
            in concat (map LITTLENUM_chars (take (sz div 2) nums))
               @ concat (replicate ((nbytes - 2 * (sz div 2)) div 2) (LITTLENUM_chars extra_digit))))"

text \<open>\<open>emit_expr_fix\<close> through \<open>x86_cons_fix_new\<close>: zero octets and a fixup.\<close>

definition emit_expr_fix :: "target \<Rightarrow> expressionS \<Rightarrow> nat \<Rightarrow> fragP \<Rightarrow> nat \<Rightarrow> int \<Rightarrow> gas \<Rightarrow> gas result" where
  "emit_expr_fix tg ex nbytes frag p cons_sign g =
     (let g1 = poke_list p (replicate nbytes 0) g in
      bindE (reloc_for_size nbytes False cons_sign) (\<lambda>r.
      bindE (fix_new_exp frag (word_of_nat p - word_of_nat (frag + sizeof_struct_frag tg)) (word_of_nat nbytes)
               ex False r g1) (\<lambda>(_, g2). Inr g2)))"

text \<open>\<open>emit_expr\<close> for the x86 target, without a second pass, outside \<open>.eh_frame\<close> and without a negated
  bignum; \<open>big\<close> is \<open>generic_bignum\<close>, used when the operator is \<open>O_big\<close>.  Errors end the model's run;
  warnings are left out.\<close>

definition emit_expr :: "target \<Rightarrow> u16 list \<Rightarrow> expressionS \<Rightarrow> nat \<Rightarrow> gas \<Rightarrow> gas result" where
  "emit_expr tg big ex nbytes g =
     bindE (frag_grow tg nbytes g) (\<lambda>g0.
     let oper = (if X_op ex \<in> {O_absent, O_illegal, O_register} then O_constant else X_op ex);
         val = (if X_op ex \<in> {O_absent, O_illegal} then 0 else X_add_number ex) in
     if oper = O_big \<and> val \<le>s 0 then Inl As_bad
     else if now_seg g0 = absolute_section then
       (if oper \<noteq> O_constant \<or> val \<noteq> 0 then Inl As_bad
        else Inr (g0\<lparr>abs_section_offset := abs_section_offset g0 + word_of_nat nbytes\<rparr>))
     else if (oper \<noteq> O_constant \<or> val \<noteq> 0) \<and> now_seg g0 = bss_section then Inl As_bad
     else
     bindE (frag_more tg nbytes g0) (\<lambda>(p, g1).
     if oper = O_constant \<and> nbytes > 8 then
       Inr (poke_list p (emit_bignum (convert_to_bignum val (\<not> X_unsigned ex))
              (if X_unsigned ex then 0 else 0xffff) nbytes) g1)
     else if oper = O_constant then Inr (poke_list p (emit_constant val nbytes) g1)
     else if oper = O_big then Inr (poke_list p (emit_bignum (take (unat val) big) 0 nbytes) g1)
     else emit_expr_fix tg ex nbytes (frag_now g1) p (-1) g1))"

section \<open>Joining the chains of a segment\<close>

fun chain_loop :: "(fragP \<Rightarrow> frag) \<Rightarrow> fragP option \<Rightarrow> frchain list \<Rightarrow> ((fragP \<Rightarrow> frag) \<times> fragP) result" where
  "chain_loop st prev_frag [] = deref prev_frag (\<lambda>p.
     gas_assert (fr_type (st p) \<noteq> rs_dummy) (Inr (st(p := (st p)\<lparr>fr_next := None\<rparr>), p)))"
| "chain_loop st prev_frag (c # cs) =
     (let st1 = (case prev_frag of None \<Rightarrow> st | Some p \<Rightarrow> st(p := (st p)\<lparr>fr_next := frch_root c\<rparr>)) in
      deref (frch_last c) (\<lambda>l.
      gas_assert (fr_type (st1 l) \<noteq> rs_dummy) (chain_loop st1 (Some l) cs)))"

text \<open>A segment without information is skipped; the frags and the fixups are joined.\<close>

definition chain_frchains_together :: "segT \<Rightarrow> gas \<Rightarrow> gas result" where
  "chain_frchains_together section g = (case seg_info g section of
     None \<Rightarrow> Inr (g\<lparr>frags_chained := True\<rparr>)
   | Some si \<Rightarrow> (case frchainP si of
       [] \<Rightarrow> Inl Null_deref
     | c # cs \<Rightarrow> bindE (chain_loop (frags g) None (c # cs)) (\<lambda>(st, l).
         Inr (g\<lparr>frags := st, frags_chained := True,
                seg_info := (seg_info g)(section \<mapsto> si\<lparr>frchainP := c\<lparr>frch_last := Some l\<rparr> # cs,
                  seg_fixes := (if seg_fixes si = [] then concat (map frch_fixes (c # cs)) else seg_fixes si)\<rparr>)\<rparr>))))"

section \<open>Lemmas\<close>

text \<open>Joining: the segment's frags form one chain in the order of the subsegments.\<close>

definition chain_of :: "(fragP \<Rightarrow> frag) \<Rightarrow> frchain \<Rightarrow> fragP list \<Rightarrow> bool" where
  "chain_of st c ids \<longleftrightarrow> chain (\<lambda>p. fr_next (st p)) (frch_root c) ids \<and> ids \<noteq> []
     \<and> frch_last c = Some (last ids) \<and> fr_type (st (last ids)) \<noteq> rs_dummy"

lemma chain_of_upd:
  "p \<notin> set ids \<Longrightarrow> chain_of (st(p := (st p)\<lparr>fr_next := q\<rparr>)) c ids = chain_of st c ids"
proof -
  assume p: "p \<notin> set ids"
  have "(\<lambda>x. fr_next ((st(p := (st p)\<lparr>fr_next := q\<rparr>)) x)) = (\<lambda>x. fr_next (st x))(p := q)" by auto
  then have c: "chain (\<lambda>x. fr_next ((st(p := (st p)\<lparr>fr_next := q\<rparr>)) x)) (frch_root c) ids
      = chain (\<lambda>x. fr_next (st x)) (frch_root c) ids"
    using p by simp
  have "ids \<noteq> [] \<Longrightarrow> last ids \<noteq> p" using p last_in_set by metis
  then show ?thesis unfolding chain_of_def c by auto
qed

lemma chain_loop_joins:
  "list_all2 (chain_of st) cs idss \<Longrightarrow> distinct (us @ concat idss) \<Longrightarrow> us \<noteq> [] \<Longrightarrow>
   chain (\<lambda>p. fr_next (st p)) r us \<Longrightarrow> fr_type (st (last us)) \<noteq> rs_dummy \<Longrightarrow>
     \<exists>st'. chain_loop st (Some (last us)) cs = Inr (st', last (us @ concat idss))
       \<and> chain (\<lambda>p. fr_next (st' p)) r (us @ concat idss)
       \<and> (\<forall>p. \<exists>n. st' p = (st p)\<lparr>fr_next := n\<rparr>)"
proof (induction cs arbitrary: st idss us)
  case Nil
  let ?st = "st(last us := (st (last us))\<lparr>fr_next := None\<rparr>)"
  have "(\<lambda>p. fr_next (?st p)) = (\<lambda>p. fr_next (st p))"
    using Nil.prems(3,4) path_distinct_end [of "\<lambda>p. fr_next (st p)" r us None] by (auto simp: chain_def)
  then have "chain (\<lambda>p. fr_next (?st p)) r us" using Nil.prems(4) by simp
  moreover have "\<exists>n. ?st p = (st p)\<lparr>fr_next := n\<rparr>" for p
    using frag_same by (cases "p = last us") auto
  ultimately show ?case using Nil.prems by (intro exI [of _ ?st]) (simp add: fun_upd_def)
next
  case (Cons c cs)
  obtain ids rest where idss: "idss = ids # rest" "chain_of st c ids" "list_all2 (chain_of st) cs rest"
    using Cons.prems(1) by (cases idss) auto
  let ?st = "st(last us := (st (last us))\<lparr>fr_next := frch_root c\<rparr>)"
  have "last us \<in> set us" using Cons.prems(3) by (rule last_in_set)
  then have lu: "last us \<notin> set ids" "last us \<notin> set (concat rest)"
    using Cons.prems(2) idss(1) by (auto simp del: last_in_set)
  have k: "chain_of ?st c ids" using chain_of_upd [OF lu(1)] idss(2) by blast
  have rest: "list_all2 (chain_of ?st) cs rest"
    using idss(3) lu(2) chain_of_upd by (fastforce simp: list_all2_conv_all_nth)
  have nx: "(\<lambda>p. fr_next (?st p)) = (\<lambda>p. fr_next (st p))(last us := frch_root c)" by auto
  have "path (\<lambda>p. fr_next (?st p)) r us (frch_root c)"
    using path_relink [of "\<lambda>p. fr_next (st p)" r us None "frch_root c"] Cons.prems(2-4)
    unfolding nx by (simp add: relink_def reroot_def chain_def)
  then have ch: "chain (\<lambda>p. fr_next (?st p)) r (us @ ids)" using k by (auto simp: chain_append chain_of_def)
  have l: "last (us @ ids) = last ids" "frch_last c = Some (last ids)" "fr_type (?st (last ids)) \<noteq> rs_dummy" "ids \<noteq> []"
    using k by (auto simp: chain_of_def)
  have d: "distinct ((us @ ids) @ concat rest)" using Cons.prems(2) idss(1) by simp
  have e: "us @ ids \<noteq> []" "fr_type (?st (last (us @ ids))) \<noteq> rs_dummy" using l by simp_all
  obtain st' where st': "chain_loop ?st (Some (last (us @ ids))) cs = Inr (st', last ((us @ ids) @ concat rest))"
    "chain (\<lambda>p. fr_next (st' p)) r ((us @ ids) @ concat rest)" "\<forall>p. \<exists>n. st' p = (?st p)\<lparr>fr_next := n\<rparr>"
    using Cons.IH [OF rest d e(1) ch e(2)] by blast
  have "\<exists>n. st' p = (st p)\<lparr>fr_next := n\<rparr>" for p
    using st'(3) [rule_format, of p] by (cases "p = last us") auto
  then show ?case using st'(1,2) l idss(1) by (simp add: gas_assert_def Let_def)
qed

text \<open>The fixup lists of the chains grow at the end.\<close>

definition fix_list :: "gas \<Rightarrow> fixS list \<Rightarrow> bool" where
  "fix_list g fs \<longleftrightarrow> \<not> frags_chained g \<and> map_option frch_fixes (the_frchain g) = Some fs"

definition add_fix :: "fixS \<Rightarrow> gas \<Rightarrow> gas result" where
  "add_fix f = upd_fixes (\<lambda>fs. fs @ [f])"

lemma add_fix_step:
  assumes "fix_list g fs"
  shows "\<exists>g'. add_fix f g = Inr g' \<and> fix_list g' (fs @ [f]) \<and> (\<forall>b. True \<longrightarrow> True \<longrightarrow> True)"
proof -
  obtain c where c: "the_frchain g = Some c" "frch_fixes c = fs" "\<not> frags_chained g"
    using assms by (auto simp: fix_list_def)
  let ?g = "upd_frchain (\<lambda>c. c\<lparr>frch_fixes := frch_fixes c @ [f]\<rparr>) g"
  have "the_frchain ?g = Some (c\<lparr>frch_fixes := frch_fixes c @ [f]\<rparr>)"
    by (rule the_frchain_upd [OF c(1)]) simp
  moreover have "frags_chained ?g = frags_chained g"
    by (simp add: upd_frchain_def split: option.split prod.split)
  ultimately show ?thesis using c by (simp add: add_fix_def upd_fixes_def fix_list_def)
qed

interpretation fixups: append_list fix_list add_fix "\<lambda>_ _. True" "\<lambda>_ _. True"
  by unfold_locales (rule add_fix_step)

lemma fix_new_appends:
  assumes "fix_list g fs" and "unat sz < 256"
  shows "\<exists>f g'. fix_new frag wh sz s off pc r g = Inr (f, g') \<and> fix_list g' (fs @ [f])
    \<and> fx_frag f = frag \<and> fx_where f = wh \<and> unat (fx_size f) = unat sz \<and> fx_addsy f = s \<and> fx_offset f = off
    \<and> fx_pcrel f = pc \<and> fx_r_type f = r \<and> \<not> fx_done f"
proof -
  have u: "unat (ucast sz :: byte) = unat sz"
    using assms(2) by (simp add: unsigned_ucast_eq take_bit_eq_mod)
  then have "unat (ucast (ucast sz :: byte) :: u64) = unat sz"
    using assms(2) by (simp add: unsigned_ucast_eq take_bit_eq_mod unat_mod_distrib)
  then have "ucast (ucast sz :: byte) = sz" by (simp add: word_unat_eq_iff)
  then show ?thesis
    using fixups.app_step [OF assms(1), of "\<lparr>fx_frag = frag, fx_where = wh, fx_size = ucast sz, fx_addsy = s,
        fx_subsy = None, fx_offset = off, fx_pcrel = pc, fx_r_type = r, fx_done = False\<rparr>"] u
    by (auto simp: fix_new_def fix_new_internal_def Let_def add_fix_def)
qed

text \<open>The octets of constants.\<close>

lemma emit_constant_value:
  assumes "n \<le> 8"
  shows "le_nat (emit_constant v n) = unat v mod 256 ^ n"
proof (cases "n = 8")
  case True
  then show ?thesis by (simp add: emit_constant_def le_nat_le_chars del: le_chars_numeral)
next
  case False
  then have n: "n < 8" using assms by simp
  have "v AND NOT (push_bit (8 * n) (NOT 0)) = take_bit (8 * n) v"
    by (rule bit_eqI) (auto simp: bit_simps)
  then have "le_nat (emit_constant v n) = unat (take_bit (8 * n) v) mod 256 ^ n"
    using n by (simp add: emit_constant_def le_nat_le_chars)
  also have "\<dots> = unat v mod 256 ^ n"
    by (simp add: unsigned_take_bit_eq) (simp add: take_bit_eq_mod power_mult)
  finally show ?thesis .
qed

lemma LITTLENUM_digits:
  "LITTLENUM_chars (ucast v) @ LITTLENUM_chars (ucast (drop_bit 16 v)) @ LITTLENUM_chars (ucast (drop_bit 32 v))
     @ LITTLENUM_chars (ucast (drop_bit 48 v)) = le_chars 8 (v :: u64)"
proof -
  have d: "ucast ((ucast w :: u64) AND 0xff) = (ucast (w AND 0xff) :: byte)" for w :: u16
    by (rule bit_eqI) (auto simp: bit_simps)
  have "ucast ((ucast (ucast (drop_bit k v) :: u16) :: u64) AND 0xff) = (ucast (drop_bit k v AND 0xff) :: byte)" for k
    by (rule bit_eqI) (auto simp: bit_simps)
  moreover have "ucast (drop_bit 8 (ucast (ucast (drop_bit k v) :: u16) :: u64) AND 0xff)
      = (ucast (drop_bit (k + 8) v AND 0xff) :: byte)" for k
    by (rule bit_eqI) (auto simp: bit_simps ac_simps)
  ultimately have "LITTLENUM_chars (ucast (drop_bit k v)) = [ucast (drop_bit k v AND 0xff), ucast (drop_bit (k + 8) v AND 0xff)]" for k
    by (simp add: LITTLENUM_chars_def)
  from this [of 0] this [of 16] this [of 32] this [of 48] show ?thesis
    by (simp add: drop_bit_drop_bit)
qed

section \<open>Properties\<close>

text \<open>C21: Joining the frag chains of a segment succeeds; the frags then form a single chain in the order
  of the subsegments, which ends where the first chain's end pointer says, and the segment's fixups are
  those of the chains in the same order.\<close>

theorem chain_frchains_joins:
  assumes "seg_info g sec = Some si" and "frchainP si = c # cs" and "list_all2 (chain_of (frags g)) (c # cs) idss"
    and "distinct (concat idss)" and "seg_fixes si = []"
  shows "\<exists>g' si'. chain_frchains_together sec g = Inr g' \<and> seg_info g' sec = Some si'
    \<and> chain (frag_next g') (frch_root c) (concat idss)
    \<and> map_option frch_last (List.find (\<lambda>_. True) (frchainP si')) = Some (Some (last (concat idss)))
    \<and> seg_fixes si' = concat (map frch_fixes (c # cs)) \<and> frags_chained g'"
proof -
  obtain ids rest where i: "idss = ids # rest" "chain_of (frags g) c ids" "list_all2 (chain_of (frags g)) cs rest"
    using assms(3) by (cases idss) auto
  have k: "ids \<noteq> []" "chain (\<lambda>p. fr_next (frags g p)) (frch_root c) ids" "fr_type (frags g (last ids)) \<noteq> rs_dummy"
    "frch_last c = Some (last ids)"
    using i(2) by (simp_all add: chain_of_def)
  have d: "distinct (ids @ concat rest)" using assms(4) i(1) by simp
  obtain st' where st': "chain_loop (frags g) (Some (last ids)) cs = Inr (st', last (ids @ concat rest))"
    "chain (\<lambda>p. fr_next (st' p)) (frch_root c) (ids @ concat rest)"
    using chain_loop_joins [OF i(3) d k(1-3)] by blast
  then show ?thesis
    using assms(1,2,5) i(1) k by (simp add: chain_frchains_together_def gas_assert_def Let_def frag_next_def [abs_def])
qed

theorem chain_frchains_joins_witness:
  "\<exists>g g'. chain_frchains_together text_section g = Inr g' \<and> chain (frag_next g') (Some 1) [1, 2]"
proof -
  let ?c = "\<lambda>p. \<lparr>frch_root = Some p, frch_last = Some p, frch_subseg = int p,
      frch_obstack = obstack_begin_worker (\<lambda>_ _. 0) 0 0 0, frch_frag_now = Some p, frch_fixes = []\<rparr>"
  let ?g = "boot_gas\<lparr>frags := (\<lambda>_. zero_frag\<lparr>fr_type := rs_fill\<rparr>),
      seg_info := (\<lambda>_. None)(text_section \<mapsto> \<lparr>frchainP = [?c 1, ?c 2], seg_fixes = [], seg_align = 0\<rparr>)\<rparr>"
  have "list_all2 (chain_of (frags ?g)) [?c 1, ?c 2] [[1], [2]]"
    by (simp add: chain_of_def zero_frag_def)
  then obtain g' where "chain_frchains_together text_section ?g = Inr g'" "chain (frag_next g') (Some 1) [1, 2]"
    using chain_frchains_joins [of ?g text_section "\<lparr>frchainP = [?c 1, ?c 2], seg_fixes = [], seg_align = 0\<rparr>"
        "?c 1" "[?c 2]" "[[1], [2]]"] by auto
  then show ?thesis by blast
qed

text \<open>C24: A constant wider than eight octets (\<open>.octa\<close>) is written as its 64-bit value in little-endian
  order followed by octets of zeros, or of ones when the value was negative.\<close>

theorem emit_wide_constant:
  assumes "8 < n" and "even n"
  shows "emit_bignum (convert_to_bignum v (\<not> u)) (if u then 0 else 0xffff) n
    = le_chars 8 v @ replicate (n - 8) (if u then 0 else 0xff)"
proof -
  let ?x = "if u then 0 else 0xffff :: u16"
  have ex: "LITTLENUM_chars ?x = [if u then 0 else 0xff, if u then 0 else 0xff]"
    by (simp add: LITTLENUM_chars_def)
  have rep: "concat (replicate k (LITTLENUM_chars ?x)) = replicate (2 * k) (if u then 0 else 0xff)" for k
    unfolding ex by (induction k) simp_all
  obtain m where m: "n = 2 * m" using assms(2) by (rule evenE)
  let ?four = "[ucast v, ucast (drop_bit 16 v), ucast (drop_bit 32 v), ucast (drop_bit 48 v)] :: u16 list"
  have four: "concat (map LITTLENUM_chars ?four) = le_chars 8 v"
    using LITTLENUM_digits [of v] by (simp del: le_chars_numeral)
  have len: "\<not> n = 1" "min n 8 div 2 = 4" "min n 10 div 2 = 5" "2 * ((n - 8) div 2) = n - 8"
    "(n - 8) div 2 = Suc ((n - 10) div 2)"
    using assms(1) m by auto
  have "emit_bignum (convert_to_bignum v (\<not> u)) ?x n
      = concat (map LITTLENUM_chars ?four) @ concat (replicate ((n - 8) div 2) (LITTLENUM_chars ?x))"
  proof (cases "(v <s 0) = u")
    case True
    then have "convert_to_bignum v (\<not> u) = ?four @ [?x]" by (simp add: convert_to_bignum_def)
    then show ?thesis using len by (simp add: emit_bignum_def Let_def)
  next
    case False
    then have "convert_to_bignum v (\<not> u) = ?four" by (auto simp: convert_to_bignum_def)
    then show ?thesis using len by (simp add: emit_bignum_def Let_def)
  qed
  then show ?thesis unfolding four rep len(4) .
qed

theorem emit_wide_constant_witness:
  "emit_bignum (convert_to_bignum 5 False) 0 16 = [5, 0, 0, 0, 0, 0, 0, 0] @ replicate 8 0"
  using emit_wide_constant [of 16 5 True] by simp

end
