(* ===== verification/Contents.thy ===== *)
theory Contents
  imports Fixups
begin

text \<open>
  The octets of a frag chain: what its closed frags hold, followed by the object that is growing in
  the obstack.  Making room never changes them, and writing into the room \<open>frag_more\<close> hands out
  appends to them.
\<close>

section \<open>The octets of a chain\<close>

definition octets :: "gas \<Rightarrow> nat \<Rightarrow> nat \<Rightarrow> byte list" where
  "octets g a n = map (mem g) [a..<a + n]"

definition closed_octets :: "target \<Rightarrow> gas \<Rightarrow> fragP \<Rightarrow> byte list" where
  "closed_octets tg g p = octets g (p + sizeof_struct_frag tg) (unat (fr_fix (frags g p)))"

definition chain_octets :: "target \<Rightarrow> gas \<Rightarrow> frchain \<Rightarrow> fragP list \<Rightarrow> byte list" where
  "chain_octets tg g fc ids = concat (map (closed_octets tg g) (butlast ids))
     @ octets g (object_base (frch_obstack fc)) (obstack_object_size (frch_obstack fc))"

text \<open>The literals of the closed frags lie in finished objects.\<close>

definition lits_ok :: "target \<Rightarrow> gas \<Rightarrow> frchain \<Rightarrow> fragP list \<Rightarrow> bool" where
  "lits_ok tg g fc ids \<longleftrightarrow> (\<forall>p \<in> set (butlast ids). kept (frch_obstack fc) (p + sizeof_struct_frag tg)
     (p + sizeof_struct_frag tg + unat (fr_fix (frags g p))))"

definition content_inv :: "target \<Rightarrow> gas \<Rightarrow> frchain \<Rightarrow> fragP list \<Rightarrow> byte list \<Rightarrow> bool" where
  "content_inv tg g fc ids bs \<longleftrightarrow>
     chain_inv tg g fc ids \<and> lits_ok tg g fc ids \<and> chain_octets tg g fc ids = bs"

text \<open>What work on the current chain leaves alone: other frags, the sizes of closed frags and the obstack's
  identity; making room and writing also leave symbols and fixups alone.\<close>

definition extends :: "gas \<Rightarrow> frchain \<Rightarrow> fragP list \<Rightarrow> gas \<Rightarrow> frchain \<Rightarrow> fragP list \<Rightarrow> bool" where
  "extends g fc ids g' fc' ids' \<longleftrightarrow>
     ob_id (frch_obstack fc') = ob_id (frch_obstack fc) \<and> (\<exists>new. ids' = ids @ new)
   \<and> (\<forall>p. p \<notin> set ids' \<longrightarrow> frags g' p = frags g p)
   \<and> (\<forall>p \<in> set (butlast ids). fr_fix (frags g' p) = fr_fix (frags g p))"

definition same_place :: "gas \<Rightarrow> gas \<Rightarrow> bool" where
  "same_place g g' \<longleftrightarrow> now_seg g' = now_seg g \<and> frags_chained g' = frags_chained g
   \<and> mri_common_symbol g' = mri_common_symbol g
   \<and> fiy_dcollect g' = fiy_dcollect g \<and> is_finish_subseg g' = is_finish_subseg g"

definition quiet :: "gas \<Rightarrow> frchain \<Rightarrow> fragP list \<Rightarrow> gas \<Rightarrow> frchain \<Rightarrow> fragP list \<Rightarrow> bool" where
  "quiet g fc ids g' fc' ids' \<longleftrightarrow> extends g fc ids g' fc' ids' \<and> same_place g g'
   \<and> n_syms g' = n_syms g \<and> syms g' = syms g \<and> sym_chain g' = sym_chain g
   \<and> (\<forall>sg. map_option seg_fixes (seg_info g' sg) = map_option seg_fixes (seg_info g sg))"

lemma extends_refl [simp]: "extends g fc ids g fc ids"
  by (simp add: extends_def)

lemma extends_trans:
  assumes "extends g fc ids g1 fc1 ids1" and "extends g1 fc1 ids1 g2 fc2 ids2"
  shows "extends g fc ids g2 fc2 ids2"
proof -
  obtain new1 new2 where i: "ids1 = ids @ new1" "ids2 = ids1 @ new2"
    using assms by (auto simp: extends_def)
  have "set (butlast ids) \<subseteq> set (butlast ids1)"
    using i(1) by (auto simp: butlast_append dest: in_set_butlastD)
  then show ?thesis using assms i by (simp add: extends_def subset_iff)
qed

lemma same_place_refl [simp]: "same_place g g"
  by (simp add: same_place_def)

lemma same_place_trans: "same_place g h \<Longrightarrow> same_place h k \<Longrightarrow> same_place g k"
  by (simp add: same_place_def)

lemma quiet_refl [simp]: "quiet g fc ids g fc ids"
  by (simp add: quiet_def)

lemma quiet_trans:
  "quiet g fc ids g1 fc1 ids1 \<Longrightarrow> quiet g1 fc1 ids1 g2 fc2 ids2 \<Longrightarrow> quiet g fc ids g2 fc2 ids2"
  using extends_trans same_place_trans unfolding quiet_def by metis

lemmas quiet_defs = quiet_def extends_def same_place_def

lemma upd_frchain_more [simp]:
  "n_syms (upd_frchain f g) = n_syms g" "mem (upd_frchain f g) = mem g" "frags_chained (upd_frchain f g) = frags_chained g"
  "mri_common_symbol (upd_frchain f g) = mri_common_symbol g" "sym_chain (upd_frchain f g) = sym_chain g"
  "map_option seg_fixes (seg_info (upd_frchain f g) sg) = map_option seg_fixes (seg_info g sg)"
  by (auto simp: upd_frchain_def option.map_comp comp_def split: option.splits)

lemma upd_frag_more [simp]:
  "n_syms (upd_frag p f g) = n_syms g" "mem (upd_frag p f g) = mem g" "frags_chained (upd_frag p f g) = frags_chained g"
  "mri_common_symbol (upd_frag p f g) = mri_common_symbol g" "sym_chain (upd_frag p f g) = sym_chain g"
  by (simp_all add: upd_frag_def)

lemma octets_cong: "mem g' = mem g \<Longrightarrow> octets g' a n = octets g a n"
  by (simp add: octets_def)

lemma small_unat: "small n \<Longrightarrow> unat (word_of_nat n :: u64) = n"
  by (simp add: small_def unat_of_nat take_bit_nat_eq_self)

lemma object_size_small:
  assumes "ob_ok tg ob"
  shows "small (obstack_object_size ob)"
proof -
  have "(chunk ob, chunk_limit ob) \<in> set (live_chunks ob)" by (simp add: live_chunks_def)
  then obtain k m where m: "small m" "chunk_limit ob = chunk ob + m"
    using assms unfolding ob_ok_def by (metis chunks_okE)
  have "obstack_object_size ob \<le> m"
    using assms m(2) by (auto simp: ob_ok_def obstack_ok_def obstack_object_size_def)
  then show ?thesis using m(1) by (simp add: small_def)
qed

section \<open>Making room\<close>

lemma butlast_not_last: "distinct ids \<Longrightarrow> p \<in> set (butlast ids) \<Longrightarrow> p \<noteq> last ids"
  by (induction ids) (auto split: if_splits dest: in_set_butlastD)

lemma started_content:
  assumes inv: "content_inv tg g fc ids bs" and tg: "target_ok tg"
    and eff: "alloc_effect tg (frch_obstack fc) ptr ob'" and new: "ptr \<notin> set ids"
    and ci: "chain_inv tg h fc' (ids @ [ptr])" and ob: "frch_obstack fc' = ob'" and mem: "mem h = mem g"
    and cl: "fr_fix (frags h (last ids)) = word_of_nat (obstack_object_size (frch_obstack fc))"
    and fr: "\<And>p. p \<in> set (butlast ids) \<Longrightarrow> frags h p = frags g p"
  shows "content_inv tg h fc' (ids @ [ptr]) bs"
proof -
  have c: "chain_inv tg g fc ids" "lits_ok tg g fc ids" "chain_octets tg g fc ids = bs"
    using inv by (simp_all add: content_inv_def)
  have i: "ids \<noteq> []" "distinct ids" "ob_ok tg (frch_obstack fc)"
    "object_base (frch_obstack fc) = last ids + sizeof_struct_frag tg"
    using c(1) by (auto simp: chain_inv_def)
  have e: "\<forall>a b. kept (frch_obstack fc) a b \<longrightarrow> kept ob' a b"
    "kept ob' (object_base (frch_obstack fc)) (next_free (frch_obstack fc))" "obstack_object_size ob' = 0"
    using eff by (simp_all add: alloc_effect_def obstack_object_size_def)
  have u: "unat (fr_fix (frags h (last ids))) = obstack_object_size (frch_obstack fc)"
    unfolding cl by (rule small_unat) (rule object_size_small [OF i(3)])
  have nf: "object_base (frch_obstack fc) + obstack_object_size (frch_obstack fc) = next_free (frch_obstack fc)"
    using i(3) by (simp add: ob_ok_def obstack_ok_def obstack_object_size_def)
  have ids: "ids = butlast ids @ [last ids]" using i(1) by simp
  have "map (closed_octets tg h) (butlast ids) = map (closed_octets tg g) (butlast ids)"
    using fr by (simp add: closed_octets_def octets_cong [OF mem])
  then have "concat (map (closed_octets tg h) ids)
      = concat (map (closed_octets tg g) (butlast ids)) @ closed_octets tg h (last ids)"
    by (subst ids) (simp only: map_append concat_append list.map concat.simps append_Nil2)
  then have "chain_octets tg h fc' (ids @ [ptr]) = bs"
    using c(3) ob e(3) u i(4) mem
    by (simp add: chain_octets_def closed_octets_def octets_def)
  moreover have "lits_ok tg h fc' (ids @ [ptr])"
    unfolding lits_ok_def
  proof
    fix p assume "p \<in> set (butlast (ids @ [ptr]))"
    then have "p \<in> set ids" by simp
    moreover have "set ids = set (butlast ids) \<union> {last ids}"
      by (subst (1) ids) (simp only: set_append list.set)
    ultimately have "p \<in> set (butlast ids) \<or> p = last ids" by blast
    then show "kept (frch_obstack fc') (p + sizeof_struct_frag tg) (p + sizeof_struct_frag tg + unat (fr_fix (frags h p)))"
      using e(1,2) c(2) fr u i(4) nf ob by (auto simp: lits_ok_def)
  qed
  ultimately show ?thesis using ci by (simp add: content_inv_def)
qed

lemma grow_step_content:
  assumes inv: "content_inv tg g fc ids bs" and tg: "target_ok tg"
    and new: "frag_new tg 0 (frag_wane (frag_now g) g) = Inr g1"
  shows "\<exists>fc' ptr. content_inv tg (mark_insn t g1) fc' (ids @ [ptr]) bs
    \<and> quiet g fc ids (mark_insn t g1) fc' (ids @ [ptr])"
proof -
  let ?g = "frag_wane (frag_now g) g"
  have c: "chain_inv tg g fc ids" using inv by (simp add: content_inv_def)
  then have i: "frag_now g = last ids" "distinct ids" "ids \<noteq> []" by (simp_all add: chain_inv_def)
  have w: "chain_inv tg ?g fc ids" "fr_type (frags ?g (frag_now ?g)) \<noteq> rs_dummy"
    using c by (simp_all add: frag_wane_def chain_inv_upd_frag wane_def frags_upd_frag)
  let ?s = "started (word_of_nat (obstack_object_size (frch_obstack fc)))"
  obtain ptr ob' where A: "alloc_effect tg (frch_obstack fc) ptr ob'" "ptr \<notin> set ids"
    "frag_new tg 0 ?g = Inr (?s ptr ob' ?g)"
    "chain_inv tg (?s ptr ob' ?g) (fc\<lparr>frch_last := Some ptr, frch_obstack := ob'\<rparr>) (ids @ [ptr])"
    using frag_new_step [OF tg w, of 0] by auto
  have g1: "g1 = ?s ptr ob' ?g" using new A(3) by simp
  have fr: "frags g1 q = (if q = ptr then zero_frag\<lparr>frag_index := totalfrags g + 1\<rparr>
      else if q = last ids then (wane (frags g q))
         \<lparr>fr_fix := word_of_nat (obstack_object_size (frch_obstack fc)), fr_next := Some ptr\<rparr>
      else frags g q)" for q
    using i(1) by (simp add: g1 started_def frag_wane_def frags_upd_frag)
  have m: "frags (mark_insn t g1) q = frags g1 q" if "q \<noteq> ptr" for q
    using that by (simp add: mark_insn_def frags_upd_frag g1 started_def)
  have ci: "chain_inv tg (mark_insn t g1) (fc\<lparr>frch_last := Some ptr, frch_obstack := ob'\<rparr>) (ids @ [ptr])"
    using A(4) by (simp add: mark_insn_def chain_inv_upd_frag g1)
  have l: "last ids \<in> set ids" "last ids \<noteq> ptr" using i(3) A(2) by auto
  have "mem (mark_insn t g1) = mem g"
    by (simp add: mark_insn_def g1 started_def frag_wane_def)
  moreover have bl: "frags (mark_insn t g1) p = frags g p" if "p \<in> set (butlast ids)" for p
  proof -
    have "p \<noteq> last ids" "p \<noteq> ptr"
      using butlast_not_last [OF i(2) that] in_set_butlastD [OF that] A(2) by auto
    then show ?thesis using m [of p] fr [of p] by simp
  qed
  ultimately have "content_inv tg (mark_insn t g1) (fc\<lparr>frch_last := Some ptr, frch_obstack := ob'\<rparr>) (ids @ [ptr]) bs"
    using m [OF l(2)] fr l(2) by (intro started_content [OF inv tg A(1,2) ci]) simp_all
  moreover have "quiet g fc ids (mark_insn t g1) (fc\<lparr>frch_last := Some ptr, frch_obstack := ob'\<rparr>) (ids @ [ptr])"
  proof -
    have "frags (mark_insn t g1) p = frags g p" if "p \<notin> set (ids @ [ptr])" for p
      using that m [of p] fr [of p] l by auto
    moreover have "ob_id ob' = ob_id (frch_obstack fc)" using A(1) by (simp add: alloc_effect_def)
    ultimately show ?thesis
      using bl by (simp add: quiet_defs mark_insn_def) (simp add: g1 started_def frag_wane_def)
  qed
  ultimately show ?thesis by blast
qed

lemma frag_grow_loop_content:
  "content_inv tg g fc ids bs \<Longrightarrow> target_ok tg \<Longrightarrow> frag_grow_loop fuel tg n t g = Inr g' \<Longrightarrow>
   \<exists>fc' new. content_inv tg g' fc' (ids @ new) bs \<and> quiet g fc ids g' fc' (ids @ new)"
proof (induction fuel arbitrary: g fc ids)
  case (Suc k)
  have room: "frag_room g = Inr (obstack_room (frch_obstack fc))"
    using Suc.prems(1) by (simp add: frag_room_def content_inv_def chain_inv_def)
  show ?case
  proof (cases "obstack_room (frch_obstack fc) < n")
    case True
    then obtain g1 where g1: "frag_new tg 0 (frag_wane (frag_now g) g) = Inr g1"
      "frag_grow_loop k tg n t (mark_insn t g1) = Inr g'"
      using Suc.prems(3) room by (cases "frag_new tg 0 (frag_wane (frag_now g) g)") auto
    obtain fc1 ptr where S: "content_inv tg (mark_insn t g1) fc1 (ids @ [ptr]) bs"
      "quiet g fc ids (mark_insn t g1) fc1 (ids @ [ptr])"
      using grow_step_content [OF Suc.prems(1,2) g1(1)] by blast
    obtain fc' new where R: "content_inv tg g' fc' ((ids @ [ptr]) @ new) bs"
      "quiet (mark_insn t g1) fc1 (ids @ [ptr]) g' fc' ((ids @ [ptr]) @ new)"
      using Suc.IH [OF S(1) Suc.prems(2) g1(2)] by blast
    then show ?thesis using quiet_trans [OF S(2) R(2)] by (intro exI [of _ fc'] exI [of _ "ptr # new"]) simp
  next
    case False
    then show ?thesis using Suc.prems room by (intro exI [of _ fc] exI [of _ "[]"]) simp
  qed
qed simp

lemma set_chunk_size_content:
  assumes "content_inv tg g fc ids bs" and "small n" and "n \<noteq> 0"
  shows "\<exists>fc'. content_inv tg (set_chunk_size n g) fc' ids bs \<and> quiet g fc ids (set_chunk_size n g) fc' ids"
proof -
  let ?fc = "fc\<lparr>frch_obstack := (frch_obstack fc)\<lparr>chunk_size := n\<rparr>\<rparr>"
  have "chain_inv tg (set_chunk_size n g) ?fc ids"
    using assms by (intro chain_inv_set_chunk_size) (simp_all add: content_inv_def)
  moreover have "lits_ok tg (set_chunk_size n g) ?fc ids"
    using assms(1) by (auto simp: content_inv_def lits_ok_def kept_def)
  moreover have "chain_octets tg (set_chunk_size n g) ?fc ids = bs"
    using assms(1) by (simp add: content_inv_def chain_octets_def closed_octets_def [abs_def] octets_def [abs_def]
        obstack_object_size_def set_chunk_size_def)
  moreover have "quiet g fc ids (set_chunk_size n g) ?fc ids"
    by (simp add: quiet_defs set_chunk_size_def)
  ultimately show ?thesis unfolding content_inv_def by blast
qed

lemma frag_grow_content:
  assumes inv: "content_inv tg g fc ids bs" and tg: "target_ok tg" and req: "request_ok tg n"
  shows "\<exists>g' fc' new. frag_grow tg n g = Inr g' \<and> content_inv tg g' fc' (ids @ new) bs
    \<and> quiet g fc ids g' fc' (ids @ new) \<and> n \<le> obstack_room (frch_obstack fc')"
proof -
  have ci: "chain_inv tg g fc ids" using inv by (simp add: content_inv_def)
  obtain g' fc2 where G: "frag_grow tg n g = Inr g'" "the_frchain g' = Some fc2" "n \<le> obstack_room (frch_obstack fc2)"
    using frag_grow_spec [OF tg ci req] by (auto simp: chain_inv_def)
  have "\<exists>fc' new. content_inv tg g' fc' (ids @ new) bs \<and> quiet g fc ids g' fc' (ids @ new)"
  proof (cases "n \<le> obstack_room (frch_obstack fc)")
    case True
    then have "g' = g" using G(1) ci by (simp add: frag_grow_def chain_inv_def)
    then show ?thesis using inv by (intro exI [of _ fc] exI [of _ "[]"]) simp
  next
    case False
    let ?ob = "frch_obstack fc"
    let ?newc = "size_t (size_t (if n < 0x10000 then 2 * n else n + 0x10000) + sizeof_struct_frag tg)"
    let ?g = "if chunk_size ?ob < ?newc then set_chunk_size ?newc g else g"
    have fc: "the_frchain g = Some fc" "ob_ok tg ?ob" using ci by (simp_all add: chain_inv_def)
    have sz: "small ?newc" "?newc \<noteq> 0" "\<not> ?newc < n"
      using req tg by (auto simp: request_ok_def small_def target_ok_def)
    obtain x where x: "frag_now_fix tg g = Inr x"
      using frag_now_fix_inv(1) [OF ci] by (simp add: frag_now_fix_def)
    obtain t g2 where L: "frag_grow_loop (obstack_room ?ob + 3) tg n t ?g = Inr g2"
      "g' = set_chunk_size (chunk_size ?ob) g2"
      using G(1) False fc(1) sz(3) x by (auto simp: frag_grow_def Let_def bindE_Inr_iff split: if_splits)
    obtain fc1 where C: "content_inv tg ?g fc1 ids bs" "quiet g fc ids ?g fc1 ids"
      using set_chunk_size_content [OF inv sz(1,2)] inv by (cases "chunk_size ?ob < ?newc") auto
    obtain fc3 new where R: "content_inv tg g2 fc3 (ids @ new) bs" "quiet ?g fc1 ids g2 fc3 (ids @ new)"
      using frag_grow_loop_content [OF C(1) tg L(1)] by blast
    have "small (chunk_size ?ob)" "chunk_size ?ob \<noteq> 0" using fc(2) by (simp_all add: ob_ok_def)
    from set_chunk_size_content [OF R(1) this] obtain fc4 where
      "content_inv tg g' fc4 (ids @ new) bs" "quiet g2 fc3 (ids @ new) g' fc4 (ids @ new)"
      unfolding L(2) by blast
    then show ?thesis using quiet_trans [OF C(2) quiet_trans [OF R(2)]] by blast
  qed
  then obtain fc' new where R: "content_inv tg g' fc' (ids @ new) bs" "quiet g fc ids g' fc' (ids @ new)" by blast
  then have "fc' = fc2" using G(2) by (simp add: content_inv_def chain_inv_def)
  then show ?thesis using G R by blast
qed

section \<open>Appending\<close>

lemma poke_list_append: "poke_list p (xs @ ys) g = poke_list (p + length xs) ys (poke_list p xs g)"
  by (induction xs arbitrary: p g) simp_all

lemma mem_poke_list: "mem (poke_list a bs g) x = (if a \<le> x \<and> x < a + length bs then bs ! (x - a) else mem g x)"
proof (induction bs arbitrary: a g)
  case (Cons b bs)
  show ?case
    using Cons.IH [of "a + 1" "poke a b g"] by (auto simp: poke_def nth_Cons' split: if_splits)
qed auto

lemma poke_list_keeps [simp]:
  "frags (poke_list a bs g) = frags g" "syms (poke_list a bs g) = syms g" "n_syms (poke_list a bs g) = n_syms g"
  "seg_info (poke_list a bs g) = seg_info g" "now_seg (poke_list a bs g) = now_seg g"
  "frchain_now (poke_list a bs g) = frchain_now g" "frag_now (poke_list a bs g) = frag_now g"
  "frags_chained (poke_list a bs g) = frags_chained g" "mri_common_symbol (poke_list a bs g) = mri_common_symbol g"
  "fiy_dcollect (poke_list a bs g) = fiy_dcollect g" "is_finish_subseg (poke_list a bs g) = is_finish_subseg g"
  "sym_chain (poke_list a bs g) = sym_chain g"
  by (induction bs arbitrary: a g) (simp_all add: poke_def)

lemma chain_inv_poke_list [simp]: "chain_inv tg (poke_list a bs g) fc ids = chain_inv tg g fc ids"
proof -
  have "the_frchain (poke_list a bs g) = the_frchain g" by (rule the_frchain_cong) simp_all
  then show ?thesis by (simp add: chain_inv_def frag_next_def [abs_def])
qed

text \<open>\<open>frag_more\<close> followed by copying \<open>bs\<close> there.\<close>

definition put :: "target \<Rightarrow> byte list \<Rightarrow> gas \<Rightarrow> gas result" where
  "put tg bs g = bindE (frag_more tg (length bs) g) (\<lambda>(p, g1). Inr (poke_list p bs g1))"

lemma octets_poke_other:
  assumes "\<And>x. a \<le> x \<Longrightarrow> x < a + n \<Longrightarrow> \<not> (p \<le> x \<and> x < p + length xs)"
  shows "octets (poke_list p xs g) a n = octets g a n"
  using assms by (auto simp: octets_def mem_poke_list)

lemma octets_poke_end: "octets (poke_list (a + n) xs g) a (n + length xs) = octets g a n @ xs"
proof (rule nth_equalityI)
  show "length (octets (poke_list (a + n) xs g) a (n + length xs)) = length (octets g a n @ xs)"
    by (simp add: octets_def)
  fix i assume "i < length (octets (poke_list (a + n) xs g) a (n + length xs))"
  then show "octets (poke_list (a + n) xs g) a (n + length xs) ! i = (octets g a n @ xs) ! i"
    by (auto simp: octets_def mem_poke_list nth_append)
qed

text \<open>The number of octets before the current frag, and the one at which room is handed out.\<close>

definition closed_size :: "target \<Rightarrow> gas \<Rightarrow> fragP list \<Rightarrow> nat" where
  "closed_size tg g ids = length (concat (map (closed_octets tg g) (butlast ids)))"

lemma blank_content:
  assumes inv: "content_inv tg g fc ids bs" and room: "length xs \<le> obstack_room (frch_obstack fc)"
  defines "h \<equiv> upd_frchain (\<lambda>c. c\<lparr>frch_obstack := obstack_blank_fast (frch_obstack c) (length xs)\<rparr>) g"
    and "fc' \<equiv> fc\<lparr>frch_obstack := obstack_blank_fast (frch_obstack fc) (length xs)\<rparr>"
    and "p \<equiv> next_free (frch_obstack fc)"
  shows "content_inv tg (poke_list p xs h) fc' ids (bs @ xs)" and "quiet g fc ids (poke_list p xs h) fc' ids"
    and "p = frag_now h + sizeof_struct_frag tg + (length bs - closed_size tg g ids)" and "closed_size tg g ids \<le> length bs"
proof -
  let ?ob = "frch_obstack fc" and ?h = "poke_list p xs h"
  have c: "chain_inv tg g fc ids" "lits_ok tg g fc ids" "chain_octets tg g fc ids = bs"
    using inv by (simp_all add: content_inv_def)
  have o: "obstack_ok ?ob" "chunks_ok (chunk_alloc tg) ?ob" "object_base ?ob = frag_now g + sizeof_struct_frag tg"
    using c(1) by (auto simp: chain_inv_def ob_ok_def)
  have nf: "p = object_base ?ob + obstack_object_size ?ob"
    using o(1) by (simp add: p_def obstack_ok_def obstack_object_size_def)
  have lim: "p + length xs \<le> chunk_limit ?ob" "object_base ?ob \<le> p"
    using room o(1) by (auto simp: p_def obstack_room_def obstack_ok_def)
  have ob': "object_base (frch_obstack fc') = object_base ?ob"
    "obstack_object_size (frch_obstack fc') = obstack_object_size ?ob + length xs"
    "\<And>a b. kept (frch_obstack fc') a b = kept ?ob a b"
    using o(1) by (auto simp: fc'_def obstack_blank_fast_def obstack_object_size_def obstack_ok_def kept_def)
  have oh: "octets h = octets g" by (simp add: octets_def fun_eq_iff h_def)
  have "closed_octets tg ?h q = closed_octets tg g q" if q: "q \<in> set (butlast ids)" for q
  proof -
    have k: "kept ?ob (q + sizeof_struct_frag tg) (q + sizeof_struct_frag tg + unat (fr_fix (frags g q)))"
      using c(2) q by (simp add: lits_ok_def)
    have "\<not> (p \<le> x \<and> x < p + length xs)"
      if "q + sizeof_struct_frag tg \<le> x" "x < q + sizeof_struct_frag tg + unat (fr_fix (frags g q))" for x
      using kept_disjoint [OF o(2) k that _ o(1)] lim by auto
    then show ?thesis
      by (simp add: closed_octets_def h_def) (simp add: octets_poke_other oh [unfolded h_def])
  qed
  then have "concat (map (closed_octets tg ?h) (butlast ids)) = concat (map (closed_octets tg g) (butlast ids))"
    by (metis map_cong)
  moreover have "octets ?h (object_base ?ob) (obstack_object_size ?ob + length xs)
      = octets g (object_base ?ob) (obstack_object_size ?ob) @ xs"
    unfolding nf octets_poke_end oh ..
  ultimately have "chain_octets tg ?h fc' ids = bs @ xs"
    using c(3) by (simp add: chain_octets_def ob')
  moreover have "lits_ok tg ?h fc' ids" using c(2) by (simp add: lits_ok_def ob'(3) h_def)
  moreover have "chain_inv tg ?h fc' ids"
    unfolding h_def fc'_def chain_inv_poke_list by (rule chain_inv_blank [OF c(1) room])
  ultimately show "content_inv tg ?h fc' ids (bs @ xs)" by (simp add: content_inv_def)
  show "quiet g fc ids ?h fc' ids" by (simp add: quiet_defs h_def fc'_def obstack_blank_fast_def)
  have "length bs = closed_size tg g ids + obstack_object_size ?ob"
    using c(3) by (auto simp: chain_octets_def closed_size_def octets_def)
  then show "p = frag_now h + sizeof_struct_frag tg + (length bs - closed_size tg g ids)" "closed_size tg g ids \<le> length bs"
    using nf o(3) by (simp_all add: h_def)
qed

lemma frag_more_content:
  assumes inv: "content_inv tg g fc ids bs" and tg: "target_ok tg" and req: "request_ok tg n"
    and mri: "mri_common_symbol g = None"
  shows "\<exists>p h fc' new. frag_more tg n g = Inr (p, h)
    \<and> (\<forall>xs. length xs = n \<longrightarrow> content_inv tg (poke_list p xs h) fc' (ids @ new) (bs @ xs)
        \<and> quiet g fc ids (poke_list p xs h) fc' (ids @ new))
    \<and> p = frag_now h + sizeof_struct_frag tg + (length bs - closed_size tg h (ids @ new))
    \<and> closed_size tg h (ids @ new) \<le> length bs"
proof -
  obtain g1 fc1 new where G: "frag_grow tg n g = Inr g1" "content_inv tg g1 fc1 (ids @ new) bs"
    "quiet g fc ids g1 fc1 (ids @ new)" "n \<le> obstack_room (frch_obstack fc1)"
    using frag_grow_content [OF inv tg req] by blast
  have th: "the_frchain g = Some fc" "the_frchain g1 = Some fc1" "chunk_size (frch_obstack fc) \<noteq> 0"
    using inv G(2) by (simp_all add: content_inv_def chain_inv_def ob_ok_def)
  let ?p = "next_free (frch_obstack fc1)"
  let ?h = "upd_frchain (\<lambda>c. c\<lparr>frch_obstack := obstack_blank_fast (frch_obstack c) n\<rparr>) g1"
  let ?fc = "fc1\<lparr>frch_obstack := obstack_blank_fast (frch_obstack fc1) n\<rparr>"
  have "frag_more tg n g = Inr (?p, ?h)"
    using G(1) th mri by (simp add: frag_more_def frag_alloc_check_def)
  moreover have "content_inv tg (poke_list ?p xs ?h) ?fc (ids @ new) (bs @ xs)"
    "quiet g fc ids (poke_list ?p xs ?h) ?fc (ids @ new)" if "length xs = n" for xs
    using blank_content(1,2) [OF G(2), of xs] G(4) that quiet_trans [OF G(3)] by auto
  moreover have "closed_size tg ?h (ids @ new) = closed_size tg g1 (ids @ new)"
    by (simp add: closed_size_def closed_octets_def [abs_def] octets_def [abs_def])
  moreover have "length (replicate n (0 :: byte)) \<le> obstack_room (frch_obstack fc1)" using G(4) by simp
  note blank_content(3,4) [OF G(2) this]
  ultimately show ?thesis by (intro exI [of _ ?p] exI [of _ ?h] exI [of _ ?fc] exI [of _ new]) simp
qed

lemma put_content:
  assumes "content_inv tg g fc ids bs" and "target_ok tg" and "request_ok tg (length xs)" and "mri_common_symbol g = None"
  shows "\<exists>g' fc' ids'. put tg xs g = Inr g' \<and> content_inv tg g' fc' ids' (bs @ xs) \<and> quiet g fc ids g' fc' ids'"
proof -
  obtain p h fc' new where "frag_more tg (length xs) g = Inr (p, h)"
    "content_inv tg (poke_list p xs h) fc' (ids @ new) (bs @ xs)" "quiet g fc ids (poke_list p xs h) fc' (ids @ new)"
    using frag_more_content [OF assms] by blast
  then show ?thesis by (auto simp: put_def)
qed

section \<open>Emitting a relocated address\<close>

text \<open>Work that also makes symbols and adds the fixups \<open>fs\<close> to the current segment.\<close>

definition frame :: "gas \<Rightarrow> frchain \<Rightarrow> fragP list \<Rightarrow> gas \<Rightarrow> frchain \<Rightarrow> fragP list \<Rightarrow> fixS list \<Rightarrow> bool" where
  "frame g fc ids g' fc' ids' fs \<longleftrightarrow> extends g fc ids g' fc' ids' \<and> same_place g g'
   \<and> n_syms g \<le> n_syms g' \<and> (\<forall>s < n_syms g. syms g' s = syms g s)
   \<and> (\<forall>sg. sg \<noteq> now_seg g \<longrightarrow> map_option seg_fixes (seg_info g' sg) = map_option seg_fixes (seg_info g sg))
   \<and> map_option seg_fixes (seg_info g' (now_seg g)) = map_option (\<lambda>si. seg_fixes si @ fs) (seg_info g (now_seg g))"

lemma quiet_frame: "quiet g fc ids g' fc' ids' \<Longrightarrow> frame g fc ids g' fc' ids' []"
  by (simp add: quiet_def frame_def)

lemma frame_refl [simp]: "frame g fc ids g fc ids []"
  by (simp add: frame_def)

lemma frame_trans:
  assumes "frame g fc ids g1 fc1 ids1 fs" and "frame g1 fc1 ids1 g2 fc2 ids2 fs'"
  shows "frame g fc ids g2 fc2 ids2 (fs @ fs')"
proof -
  have n: "now_seg g1 = now_seg g" using assms(1) by (simp add: frame_def same_place_def)
  obtain si where "seg_info g1 (now_seg g) = None \<and> seg_info g (now_seg g) = None \<or>
      seg_info g (now_seg g) = Some si \<and> map_option seg_fixes (seg_info g1 (now_seg g)) = Some (seg_fixes si @ fs)"
    using assms(1) unfolding frame_def by (cases "seg_info g (now_seg g)") auto
  then have "map_option seg_fixes (seg_info g2 (now_seg g)) =
      map_option (\<lambda>si. seg_fixes si @ fs @ fs') (seg_info g (now_seg g))"
    using assms(2) n unfolding frame_def by (auto simp: map_option_case split: option.splits)
  then show ?thesis
    using assms n extends_trans same_place_trans by (simp add: frame_def) (metis order.strict_trans2 order.trans)
qed

text \<open>Where a fixup is: the octets of the frags before its own, and its offset there.\<close>

definition fix_pos :: "target \<Rightarrow> gas \<Rightarrow> fragP list \<Rightarrow> fixS \<Rightarrow> nat" where
  "fix_pos tg g ids f = sum_list (map (\<lambda>p. unat (fr_fix (frags g p))) (takeWhile (\<lambda>p. p \<noteq> fx_frag f) ids))
     + unat (fx_where f)"

lemma takeWhile_neq: "q \<notin> set us \<Longrightarrow> takeWhile (\<lambda>p. p \<noteq> q) (us @ q # vs) = us"
  by (induction us) auto

lemma takeWhile_last: "distinct ids \<Longrightarrow> ids \<noteq> [] \<Longrightarrow> takeWhile (\<lambda>p. p \<noteq> last ids) ids = butlast ids"
  by (cases ids rule: rev_cases) (auto simp: takeWhile_neq)

lemma takeWhile_butlast:
  assumes "q \<in> set ids" and "p \<in> set (takeWhile (\<lambda>p. p \<noteq> q) ids)"
  shows "p \<in> set (butlast ids)"
proof -
  obtain us vs where "ids = us @ q # vs" "q \<notin> set us" using assms(1) by (metis split_list_first)
  then show ?thesis using assms(2) by (simp add: butlast_append takeWhile_neq)
qed

lemma fix_pos_extends:
  assumes "extends g fc ids g' fc' ids'" and "fx_frag f \<in> set ids"
  shows "fix_pos tg g' ids' f = fix_pos tg g ids f"
proof -
  obtain new where new: "ids' = ids @ new" using assms(1) by (auto simp: extends_def)
  have tw: "takeWhile (\<lambda>p. p \<noteq> fx_frag f) ids' = takeWhile (\<lambda>p. p \<noteq> fx_frag f) ids"
    using assms(2) unfolding new by (simp add: takeWhile_append1 [of "fx_frag f"])
  have "map (\<lambda>p. unat (fr_fix (frags g' p))) (takeWhile (\<lambda>p. p \<noteq> fx_frag f) ids)
      = map (\<lambda>p. unat (fr_fix (frags g p))) (takeWhile (\<lambda>p. p \<noteq> fx_frag f) ids)"
    using assms(1) takeWhile_butlast [OF assms(2)] by (auto simp: extends_def)
  then show ?thesis unfolding fix_pos_def tw by (rule arg_cong)
qed

definition abs64_fix :: "symP option \<Rightarrow> u64 \<Rightarrow> fixS \<Rightarrow> bool" where
  "abs64_fix s off f \<longleftrightarrow> fx_addsy f = s \<and> fx_subsy f = None \<and> fx_offset f = off \<and> fx_size f = 8
     \<and> \<not> fx_pcrel f \<and> \<not> fx_done f \<and> fx_r_type f = BFD_RELOC_64"

lemma the_frchain_fixes [simp]:
  "seg_info g sg = Some si \<Longrightarrow>
   the_frchain (g\<lparr>seg_info := (seg_info g)(sg \<mapsto> si\<lparr>seg_fixes := fs\<rparr>)\<rparr>) = the_frchain g"
  by (auto simp: the_frchain_def split: option.splits)

lemma add_fix_content:
  assumes inv: "content_inv tg g fc ids bs" and ch: "frags_chained g" and si: "seg_info g (now_seg g) \<noteq> None"
  shows "\<exists>g'. add_fix f g = Inr g' \<and> content_inv tg g' fc ids bs \<and> frame g fc ids g' fc ids [f]
    \<and> n_syms g' = n_syms g \<and> syms g' = syms g"
proof -
  obtain si where si: "seg_info g (now_seg g) = Some si" using si by blast
  let ?g = "g\<lparr>seg_info := (seg_info g)(now_seg g \<mapsto> si\<lparr>seg_fixes := seg_fixes si @ [f]\<rparr>)\<rparr>"
  have "add_fix f g = Inr ?g" using ch si by (simp add: add_fix_def upd_fixes_def)
  moreover have "content_inv tg ?g fc ids bs"
  proof -
    have "chain_octets tg ?g fc ids = chain_octets tg g fc ids" "lits_ok tg ?g fc ids = lits_ok tg g fc ids"
      by (simp_all add: chain_octets_def lits_ok_def closed_octets_def [abs_def] octets_def [abs_def])
    moreover have "chain_inv tg ?g fc ids = chain_inv tg g fc ids"
      using si by (simp add: chain_inv_def frag_next_def [abs_def])
    ultimately show ?thesis using inv by (simp only: content_inv_def)
  qed
  moreover have "frame g fc ids ?g fc ids [f]"
    using si by (simp add: frame_def extends_def same_place_def)
  ultimately show ?thesis by simp
qed

lemma sum_closed: "length (concat (map (closed_octets tg g) ps)) = sum_list (map (\<lambda>p. unat (fr_fix (frags g p))) ps)"
  by (induction ps) (simp_all add: closed_octets_def octets_def)

lemma emit_symbol_content:
  assumes inv: "content_inv tg g fc ids bs" and tg: "target_ok tg" and req: "request_ok tg 8"
    and mri: "mri_common_symbol g = None" and ch: "frags_chained g" and sg: "now_seg g \<noteq> bss_section"
    and si: "seg_info g (now_seg g) \<noteq> None" and ex: "X_op ex = O_symbol" and small: "small (length bs)"
  shows "\<exists>g' fc' ids' f. emit_expr tg big ex 8 g = Inr g' \<and> content_inv tg g' fc' ids' (bs @ replicate 8 0)
    \<and> frame g fc ids g' fc' ids' [f] \<and> n_syms g' = n_syms g \<and> syms g' = syms g
    \<and> abs64_fix (X_add_symbol ex) (X_add_number ex) f \<and> fx_frag f \<in> set ids' \<and> fix_pos tg g' ids' f = length bs"
proof -
  obtain g0 fc0 new0 where G: "frag_grow tg 8 g = Inr g0" "content_inv tg g0 fc0 (ids @ new0) bs"
    "quiet g fc ids g0 fc0 (ids @ new0)"
    using frag_grow_content [OF inv tg req] by blast
  have mri0: "mri_common_symbol g0 = None" using mri G(3) by (simp add: quiet_defs)
  obtain p h fc1 new1 where M: "frag_more tg 8 g0 = Inr (p, h)"
    "content_inv tg (poke_list p (replicate 8 0) h) fc1 ((ids @ new0) @ new1) (bs @ replicate 8 0)"
    "quiet g0 fc0 (ids @ new0) (poke_list p (replicate 8 0) h) fc1 ((ids @ new0) @ new1)"
    "p = frag_now h + sizeof_struct_frag tg + (length bs - closed_size tg h ((ids @ new0) @ new1))"
    "closed_size tg h ((ids @ new0) @ new1) \<le> length bs"
    using frag_more_content [OF G(2) tg req mri0] length_replicate [of 8 "0 :: byte"] by metis
  let ?h = "poke_list p (replicate 8 0) h" and ?ids = "(ids @ new0) @ new1"
  let ?k = "length bs - closed_size tg h ?ids"
  let ?f = "\<lparr>fx_frag = frag_now h, fx_where = word_of_nat ?k, fx_size = 8, fx_addsy = X_add_symbol ex, fx_subsy = None,
      fx_offset = X_add_number ex, fx_pcrel = False, fx_r_type = BFD_RELOC_64, fx_done = False\<rparr>"
  have Q: "quiet g fc ids ?h fc1 ?ids" using quiet_trans [OF G(3) M(3)] .
  have same: "frags_chained ?h" "now_seg ?h = now_seg g" "map_option seg_fixes (seg_info ?h (now_seg g)) = map_option seg_fixes (seg_info g (now_seg g))"
    "now_seg g0 = now_seg g"
    using Q G(3) ch by (simp_all add: quiet_defs)
  then have "seg_info ?h (now_seg ?h) \<noteq> None" using si by auto
  then obtain g' where F: "add_fix ?f ?h = Inr g'" "content_inv tg g' fc1 ?ids (bs @ replicate 8 0)"
    "frame ?h fc1 ?ids g' fc1 ?ids [?f]" "n_syms g' = n_syms ?h" "syms g' = syms ?h"
    using add_fix_content [OF M(2) same(1)] by blast
  have w: "word_of_nat p - (word_of_nat (frag_now h) + word_of_nat (sizeof_struct_frag tg)) = (word_of_nat ?k :: u64)"
    unfolding M(4) by simp
  have ci: "chain_inv tg h fc1 ?ids" using M(2) by (simp add: content_inv_def)
  have ns: "now_seg g0 \<noteq> absolute_section" using G(2) by (simp add: content_inv_def chain_inv_def)
  have "emit_expr tg big ex 8 g = Inr g'"
    using G(1) M(1) ns sg same(4) ex F(1)
    by (simp add: emit_expr_def emit_expr_fix_def reloc_for_size_def fix_new_exp_def fix_new_internal_def Let_def
        add_fix_def w)
  moreover have "frame g fc ids g' fc1 ?ids [?f]"
    using frame_trans [OF quiet_frame [OF Q] F(3)] by simp
  moreover have "n_syms g' = n_syms g" "syms g' = syms g" using F(4,5) Q by (simp_all add: quiet_def)
  moreover have "abs64_fix (X_add_symbol ex) (X_add_number ex) ?f" by (simp add: abs64_fix_def)
  moreover have "frag_now h = last ?ids" "?ids \<noteq> []" "distinct ?ids" using ci by (simp_all add: chain_inv_def)
  then have "frag_now h \<in> set ?ids" "takeWhile (\<lambda>p. p \<noteq> frag_now h) ?ids = butlast ?ids"
    using takeWhile_last last_in_set by metis+
  moreover have "fix_pos tg g' ?ids ?f = length bs"
  proof -
    have "fix_pos tg g' ?ids ?f = fix_pos tg ?h ?ids ?f"
      using F(3) \<open>frag_now h \<in> set ?ids\<close> by (intro fix_pos_extends) (auto simp: frame_def)
    also have "\<dots> = closed_size tg h ?ids + unat (word_of_nat ?k :: u64)"
      unfolding fix_pos_def closed_size_def sum_closed
      using \<open>takeWhile (\<lambda>p. p \<noteq> frag_now h) ?ids = butlast ?ids\<close> by simp
    also have "unat (word_of_nat ?k :: u64) = ?k" using small by (intro small_unat) (simp add: small_def)
    also have "closed_size tg h ?ids + ?k = length bs" using M(5) by simp
    finally show ?thesis .
  qed
  ultimately show ?thesis using F(2) by (intro exI [of _ g'] exI [of _ fc1] exI [of _ ?ids] exI [of _ ?f]) simp
qed

end
