(* ===== verification/Codec.thy ===== *)
theory Codec
  imports Gas_Prelude
begin

text \<open>
  Fixed-width binary layouts.  The interface \<open>fixed_codec\<close> says what a reader of a packed structure
  may rely on: every value takes the same number of octets, and decoding what was encoded gives the
  value back whatever follows.  The structures shared by the assembler and by \<open>datadump\<close> are
  instances: two little-endian integers, the section header, the per-file counters and the entry.
\<close>

locale fixed_codec =
  fixes enc :: "'a \<Rightarrow> byte list"
    and dec :: "byte list \<Rightarrow> 'a"
    and width :: nat
  assumes length_enc: "length (enc x) = width"
    and dec_enc: "dec (enc x @ rest) = x"
begin

lemma dec_enc_exact: "dec (enc x) = x"
  using dec_enc [of x "[]"] by simp

lemma rd_enc:
  "rd (pre @ enc x @ rest) (length pre) width = Some (enc x)"
  by (simp add: rd_def length_enc)

lemma enc_inj: "enc x = enc y \<longleftrightarrow> x = y"
  using dec_enc_exact by metis

end

interpretation c32: fixed_codec le32 get32 4
  by unfold_locales (simp_all add: codec_simps)

interpretation c64: fixed_codec le64 get64 8
  by unfold_locales (simp_all add: codec_simps)

text \<open>Two structures one after the other.\<close>

definition enc_pair :: "('a \<Rightarrow> byte list) \<Rightarrow> ('b \<Rightarrow> byte list) \<Rightarrow> 'a \<times> 'b \<Rightarrow> byte list" where
  "enc_pair e1 e2 p = e1 (fst p) @ e2 (snd p)"

definition dec_pair :: "(byte list \<Rightarrow> 'a) \<Rightarrow> nat \<Rightarrow> (byte list \<Rightarrow> 'b) \<Rightarrow> byte list \<Rightarrow> 'a \<times> 'b" where
  "dec_pair d1 w1 d2 bs = (d1 bs, d2 (drop w1 bs))"

locale codec_pair = a: fixed_codec e1 d1 w1 + b: fixed_codec e2 d2 w2
  for e1 :: "'a \<Rightarrow> byte list" and d1 w1 and e2 :: "'b \<Rightarrow> byte list" and d2 w2
begin

lemma pair_length: "length (enc_pair e1 e2 p) = w1 + w2"
  by (simp add: enc_pair_def a.length_enc b.length_enc)

lemma pair_dec: "dec_pair d1 w1 d2 (enc_pair e1 e2 p @ rest) = p"
  by (simp add: enc_pair_def dec_pair_def a.dec_enc b.dec_enc a.length_enc)

end

sublocale codec_pair \<subseteq> p: fixed_codec "enc_pair e1 e2" "dec_pair d1 w1 d2" "w1 + w2"
  by unfold_locales (rule pair_length, rule pair_dec)

section \<open>The structures\<close>

text \<open>\<open>struct header_fixed\<close> and \<open>struct meteheader\<close>: the magic as a number, and the size of the name.\<close>

record header_fixed =
  h_magic :: u32
  name_size :: u32

definition MAGIC :: u32 where
  "MAGIC = 0x006d6f78"

definition enc_header :: "header_fixed \<Rightarrow> byte list" where
  "enc_header h = le32 (h_magic h) @ le32 (name_size h)"

definition dec_header :: "byte list \<Rightarrow> header_fixed" where
  "dec_header bs = \<lparr>h_magic = get32 bs, name_size = get32 (drop 4 bs)\<rparr>"

text \<open>\<open>struct meta_header_fixed\<close>: the counters of one assembled file.\<close>

record meta_header_fixed =
  hardcoded_bytes_per_file :: u32
  bytes_frag_num :: u32
  mh_direct_code_num :: u32
  mh_direct_data_num :: u32
  mh_fall_through_num :: u32

definition enc_meta_header :: "meta_header_fixed \<Rightarrow> byte list" where
  "enc_meta_header m = le32 (hardcoded_bytes_per_file m) @ le32 (bytes_frag_num m)
     @ le32 (mh_direct_code_num m) @ le32 (mh_direct_data_num m) @ le32 (mh_fall_through_num m)"

definition dec_meta_header :: "byte list \<Rightarrow> meta_header_fixed" where
  "dec_meta_header bs = \<lparr>hardcoded_bytes_per_file = get32 bs, bytes_frag_num = get32 (drop 4 bs),
     mh_direct_code_num = get32 (drop 8 bs), mh_direct_data_num = get32 (drop 12 bs),
     mh_fall_through_num = get32 (drop 16 bs)\<rparr>"

text \<open>\<open>struct meta_fixed\<close>, as \<open>datadump\<close> reads it; the four flag octets as one number.\<close>

record meta_fixed =
  m_address :: u64
  m_index :: u32
  m_size :: u32
  m_flags :: u32
  m_symbol_size :: u32

definition enc_meta :: "meta_fixed \<Rightarrow> byte list" where
  "enc_meta m = le64 (m_address m) @ le32 (m_index m) @ le32 (m_size m) @ le32 (m_flags m)
     @ le32 (m_symbol_size m)"

definition dec_meta :: "byte list \<Rightarrow> meta_fixed" where
  "dec_meta bs = \<lparr>m_address = get64 bs, m_index = get32 (drop 8 bs), m_size = get32 (drop 12 bs),
     m_flags = get32 (drop 16 bs), m_symbol_size = get32 (drop 20 bs)\<rparr>"

interpretation chdr: fixed_codec enc_header dec_header 8
  by unfold_locales (simp_all add: enc_header_def dec_header_def c32.dec_enc)

interpretation cmh: fixed_codec enc_meta_header dec_meta_header 20
  by unfold_locales (simp_all add: enc_meta_header_def dec_meta_header_def c32.dec_enc c32.dec_enc_exact)

interpretation cmeta: fixed_codec enc_meta dec_meta 24
  by unfold_locales (simp_all add: enc_meta_def dec_meta_def c32.dec_enc c64.dec_enc)

interpretation chm: codec_pair enc_header dec_header 8 enc_meta_header dec_meta_header 20
  by unfold_locales

text \<open>\<open>struct metedata\<close>, the layout of the section \<open>.xom\<close>: the address comes third.\<close>

definition enc_metedata :: "meta_fixed \<Rightarrow> byte list" where
  "enc_metedata m = le32 (m_index m) @ le32 (m_size m) @ le64 (m_address m) @ le32 (m_flags m)
     @ le32 (m_symbol_size m)"

text \<open>\<open>struct metedata_test\<close>, the layout of \<open>.xomtwo\<close> behind the relocated address.\<close>

definition enc_metedata_test :: "meta_fixed \<Rightarrow> byte list" where
  "enc_metedata_test m = le32 (m_index m) @ le32 (m_size m) @ le32 (m_flags m) @ le32 (m_symbol_size m)"

lemma enc_meta_split: "enc_meta m = le64 (m_address m) @ enc_metedata_test m"
  by (simp add: enc_meta_def enc_metedata_test_def)

lemma length_metedata [simp]: "length (enc_metedata m) = 24" "length (enc_metedata_test m) = 16"
  by (simp_all add: enc_metedata_def enc_metedata_test_def)

end
