(* ===== verification/Datascope.thy ===== *)
theory Datascope
  imports Contents Codec
begin

text \<open>
  The collector's output (\<open>src/gas/datascope.c\<close> and the passes \<open>parse_symbols\<close>, \<open>parse_frags\<close> and
  \<open>parse_frags_for_test\<close> of \<open>src/gas/write.c\<close>): the counters of hard-coded octets, the header of a
  file, and one entry per frag of embedded data.
\<close>

section \<open>The collector's variables\<close>

definition datascope_init :: "gas \<Rightarrow> gas" where
  "datascope_init g = g\<lparr>text_cur_symbol := None, cur_func_name := None, is_in_func := False,
     is_finish_subseg := False, total_hardcoded_bytes := 0, direct_code_num := 0, direct_data_num := 0,
     fall_through_num := 0, flash_symbol_point := False\<rparr>"

definition update_cur_symbol :: "symP option \<Rightarrow> gas \<Rightarrow> gas" where
  "update_cur_symbol s g = g\<lparr>text_cur_symbol := s\<rparr>"

definition update_frag_symbol :: "gas \<Rightarrow> gas" where
  "update_frag_symbol g = upd_frag (frag_now g) (\<lambda>f. f\<lparr>frag_symbol := text_cur_symbol g\<rparr>) g"

definition get_cur_symbol :: "gas \<Rightarrow> symP option" where
  "get_cur_symbol g = text_cur_symbol g"

section \<open>Writing the header and an entry\<close>

text \<open>The bit-fields of \<open>struct frag_flags\<close> in the order the x86 ABI gives them.\<close>

definition flags_word :: "frag_flags \<Rightarrow> u32" where
  "flags_word f = of_bool (first_frag f) + 2 * of_bool (insn_frag f) + 4 * of_bool (align_frag f)
     + 8 * of_bool (anchor_frag f)"

definition UNKNOWN_NAME :: "byte list" where
  "UNKNOWN_NAME = [0x75, 0x6e, 0x6b, 0x6f, 0x77, 0x6e, 0x5f, 0x6e, 0x61, 0x6d, 0x65]"

definition null_name :: "byte list" where
  "null_name = [0x6e, 0x75, 0x6c, 0x6c]"

text \<open>\<open>write_meteheader\<close> and \<open>write_meteheader_for_test\<close> differ in the segment they expect;
  \<open>file\<close> is what \<open>as_where\<close> returns.\<close>

definition header_for ::
  "segT \<Rightarrow> target \<Rightarrow> byte list option \<Rightarrow> meta_header_fixed \<Rightarrow> gas \<Rightarrow> gas result" where
  "header_for seg tg file m g = gas_assert (now_seg g = seg)
     (let filename = (case file of None \<Rightarrow> UNKNOWN_NAME | Some nm \<Rightarrow> nm);
          sz = word_of_nat (length filename + 1) :: u32;
          n = unat sz
      in bindE (frag_more tg (8 + n + 20) g) (\<lambda>(p, g1).
         let g2 = poke_list p (enc_header \<lparr>h_magic = MAGIC, name_size = sz\<rparr>) g1;
             g3 = poke_list (p + 8) (take n (filename @ [0])) g2;
             g4 = poke_list (p + 8 + n) (le32 (hardcoded_bytes_per_file m)) g3;
             g5 = poke_list (p + 8 + n + 4) (le32 (bytes_frag_num m)) g4;
             g6 = poke_list (p + 8 + n + 4 * 2) (le32 (mh_direct_code_num m)) g5;
             g7 = poke_list (p + 8 + n + 4 * 3) (le32 (mh_direct_data_num m)) g6;
             g8 = poke_list (p + 8 + n + 4 * 4) (le32 (mh_fall_through_num m)) g7
         in Inr g8))"

definition write_meteheader :: "target \<Rightarrow> byte list option \<Rightarrow> meta_header_fixed \<Rightarrow> gas \<Rightarrow> gas result" where
  "write_meteheader = header_for xom_section"

definition write_meteheader_for_test :: "target \<Rightarrow> byte list option \<Rightarrow> meta_header_fixed \<Rightarrow> gas \<Rightarrow> gas result" where
  "write_meteheader_for_test = header_for xom_test_section"

definition write_metedata :: "target \<Rightarrow> meta_fixed \<Rightarrow> byte list \<Rightarrow> gas \<Rightarrow> gas result" where
  "write_metedata tg m sym_name g = gas_assert (now_seg g = xom_section)
     (bindE (frag_more tg (24 + unat (m_symbol_size m)) g) (\<lambda>(p, g1).
        Inr (poke_list (p + 24) (take (unat (m_symbol_size m)) (sym_name @ [0])) (poke_list p (enc_metedata m) g1))))"

definition write_metedata_for_test :: "target \<Rightarrow> meta_fixed \<Rightarrow> byte list \<Rightarrow> gas \<Rightarrow> gas result" where
  "write_metedata_for_test tg m sym_name g = gas_assert (now_seg g = xom_test_section)
     (bindE (frag_more tg (16 + unat (m_symbol_size m)) g) (\<lambda>(p, g1).
        Inr (poke_list (p + 16) (take (unat (m_symbol_size m)) (sym_name @ [0])) (poke_list p (enc_metedata_test m) g1))))"

section \<open>Counting\<close>

text \<open>\<open>parse_symbols\<close>: every symbol that hard-coded octets were bound to checks off its frag.\<close>

definition parse_symbol :: "symP \<Rightarrow> gas \<Rightarrow> gas result" where
  "parse_symbol s g =
     (if S_GET_BIND_INFO (syms g) s then
        deref (sy_frag (syms g s)) (\<lambda>f.
        let g1 = upd_frag f (\<lambda>x. x\<lparr>frag_has_checked := True\<rparr>) g in
        Inr (if insn_frag (fr_flags (frags g f)) then g1\<lparr>direct_code_num := direct_code_num g1 + 1\<rparr>
             else if S_IS_MA_SYMBOL (syms g) (Some s) then g1\<lparr>direct_data_num := direct_data_num g1 + 1\<rparr>
             else g1))
      else Inr g)"

fun parse_symbol_list :: "symP list \<Rightarrow> gas \<Rightarrow> gas result" where
  "parse_symbol_list [] g = Inr g"
| "parse_symbol_list (s # ss) g = bindE (parse_symbol s g) (parse_symbol_list ss)"

definition parse_symbols :: "gas \<Rightarrow> gas result" where
  "parse_symbols g = parse_symbol_list (sym_chain g) g"

text \<open>One round of the counting loop; \<open>inc\<close> is what a frag with hard-coded octets adds to
  \<open>bytes_frag_num\<close>: its number of them in \<open>parse_frags\<close>, 1 in \<open>parse_frags_for_test\<close>.\<close>

definition stat_frag :: "(frag \<Rightarrow> u32) \<Rightarrow> frag \<Rightarrow> u32 \<Rightarrow> gas \<Rightarrow> u32 \<times> gas" where
  "stat_frag inc f k g =
     (let n = (if frag_has_hardcode f then k + inc f else k);
          tsym = frag_symbol f in
      if frag_has_checked f then (n, g)
      else if tsym = None then
        (let g1 = (if S_IS_CF_SYMBOL (syms g) tsym \<and> frag_has_hardcode f \<and> insn_frag (fr_flags f)
                   then (if begin_bytes f then g\<lparr>direct_code_num := direct_code_num g + 1\<rparr>
                         else g\<lparr>fall_through_num := fall_through_num g + 1\<rparr>) else g);
             g2 = (if S_IS_MA_SYMBOL (syms g1) tsym \<and> frag_has_hardcode f \<and> \<not> insn_frag (fr_flags f)
                   then g1\<lparr>direct_data_num := direct_data_num g1 + 1\<rparr> else g1)
         in (n, g2))
      else if frag_has_hardcode f \<and> insn_frag (fr_flags f)
      then (n, g\<lparr>fall_through_num := fall_through_num g + 1\<rparr>) else (n, g))"

partial_function (option) stat_loop :: "(frag \<Rightarrow> u32) \<Rightarrow> fragP option \<Rightarrow> u32 \<Rightarrow> gas \<Rightarrow> (u32 \<times> gas) option" where
  [code]: "stat_loop inc f k g = (case f of
     None \<Rightarrow> Some (k, g)
   | Some p \<Rightarrow> (let (n, g1) = stat_frag inc (frags g p) k g
               in stat_loop inc (fr_next (frags g1 p)) n g1))"

section \<open>Writing the entries\<close>

definition entry_of :: "frag \<Rightarrow> u32 \<Rightarrow> byte list \<Rightarrow> meta_fixed" where
  "entry_of f sz name = \<lparr>m_address = fr_address f, m_index = frag_index f, m_size = sz,
     m_flags = flags_word (fr_flags f), m_symbol_size = word_of_nat (length name + 1)\<rparr>"

text \<open>An entry of \<open>.xom\<close>, and of \<open>.xomtwo\<close>, where the address is a relocation against a new label at the
  end of the frag's fixed part.\<close>

definition emit_entry :: "target \<Rightarrow> fragP \<Rightarrow> u32 \<Rightarrow> byte list \<Rightarrow> gas \<Rightarrow> gas result" where
  "emit_entry tg p sz name g = write_metedata tg (entry_of (frags g p) sz name) name g"

definition emit_entry_for_test :: "target \<Rightarrow> u16 list \<Rightarrow> fragP \<Rightarrow> u32 \<Rightarrow> byte list \<Rightarrow> gas \<Rightarrow> gas result" where
  "emit_entry_for_test tg big p sz name g = gas_assert (now_seg g = xom_test_section)
     (let f = frags g p;
          (s, g1) = symbol_temp_new text_section p (fr_fix f) g;
          ex = \<lparr>X_op = O_symbol, X_add_symbol = Some s, X_op_symbol = None, X_add_number = 0 - fr_fix f,
                X_unsigned = False\<rparr>
      in bindE (emit_expr tg big ex 8 g1) (\<lambda>g2.
         write_metedata_for_test tg (entry_of f sz name) name g2))"

text \<open>The body of the loop and the loop; \<open>offset_of_frag\<close> is the size of a frag: the distance to the
  next one in \<open>parse_frags\<close>, the fixed part in \<open>parse_frags_for_test\<close>.\<close>

definition scan_frag ::
  "(fragP \<Rightarrow> u32 \<Rightarrow> byte list \<Rightarrow> gas \<Rightarrow> gas result) \<Rightarrow> u32 \<Rightarrow> fragP \<Rightarrow> gas \<Rightarrow> gas result" where
  "scan_frag emit offset p g =
     (let f = frags g p; sym = frag_symbol f in
      if align_frag (fr_flags f) then Inr g
      else if \<not> insn_frag (fr_flags f) \<and> offset > 0 \<and> \<not> S_IS_CF_SYMBOL (syms g) sym then
        bindE (if anchor_frag (fr_flags f) then
                 gas_assert (sym \<noteq> None) (case frag_anchor f of
                   None \<Rightarrow> Inl Assert_failed
                 | Some a \<Rightarrow> emit p 0 (sy_name (syms g a)) g)
               else Inr g) (\<lambda>g1.
        case sym of Some s \<Rightarrow> emit p offset (sy_name (syms g1 s)) g1
                  | None \<Rightarrow> emit p offset null_name g1)
      else Inr g)"

definition addr_size :: "gas \<Rightarrow> fragP \<Rightarrow> u32" where
  "addr_size g p = (case fr_next (frags g p) of None \<Rightarrow> 0
     | Some n \<Rightarrow> ucast (fr_address (frags g n) - fr_address (frags g p)))"

definition fix_size :: "gas \<Rightarrow> fragP \<Rightarrow> u32" where
  "fix_size g p = ucast (fr_fix (frags g p))"

partial_function (option) scan_loop ::
  "(fragP \<Rightarrow> u32 \<Rightarrow> byte list \<Rightarrow> gas \<Rightarrow> gas result) \<Rightarrow> (gas \<Rightarrow> fragP \<Rightarrow> u32) \<Rightarrow> fragP option \<Rightarrow> gas \<Rightarrow> gas result option" where
  [code]: "scan_loop emit offset_of_frag f g = (case f of
     None \<Rightarrow> Some (Inr g)
   | Some p \<Rightarrow>
       if fr_next (frags g p) = None then Some (Inr g)
       else (case scan_frag emit (offset_of_frag g p) p g of
               Inl e \<Rightarrow> Some (Inl e)
             | Inr g1 \<Rightarrow> scan_loop emit offset_of_frag (fr_next (frags g1 p)) g1))"

section \<open>The passes\<close>

definition xom_section_init :: "target \<Rightarrow> gas \<Rightarrow> gas result" where
  "xom_section_init tg g = bindE (subseg_new tg xom_section 0 g) (\<lambda>(sec, g1). subseg_set tg sec 0 g1)"

definition xom_test_section_init :: "target \<Rightarrow> gas \<Rightarrow> gas result" where
  "xom_test_section_init tg g = bindE (subseg_new tg xom_test_section 0 g) (\<lambda>(sec, g1). subseg_set tg sec 0 g1)"

text \<open>\<open>parse_frags\<close> and \<open>parse_frags_for_test\<close> up to the point where the new section is closed; the outer
  option is whether the loops end.\<close>

definition collect ::
  "(frag \<Rightarrow> u32) \<Rightarrow> (meta_header_fixed \<Rightarrow> gas \<Rightarrow> gas result) \<Rightarrow> (fragP \<Rightarrow> u32 \<Rightarrow> byte list \<Rightarrow> gas \<Rightarrow> gas result)
   \<Rightarrow> (gas \<Rightarrow> fragP \<Rightarrow> u32) \<Rightarrow> gas \<Rightarrow> gas result option" where
  "collect inc write_header emit offset_of_frag g = (case seg_info g text_section of
     None \<Rightarrow> Some (Inl Null_deref)
   | Some info \<Rightarrow> (case frchainP info of
       [] \<Rightarrow> Some (Inl Null_deref)
     | c # _ \<Rightarrow> (case stat_loop inc (frch_root c) 0 g of
         None \<Rightarrow> None
       | Some (n, g1) \<Rightarrow>
           (case write_header \<lparr>hardcoded_bytes_per_file = total_hardcoded_bytes g1, bytes_frag_num = n,
                   mh_direct_code_num = direct_code_num g1, mh_direct_data_num = direct_data_num g1,
                   mh_fall_through_num = fall_through_num g1\<rparr> g1 of
              Inl e \<Rightarrow> Some (Inl e)
            | Inr g2 \<Rightarrow> scan_loop emit offset_of_frag (frch_root c) g2))))"

definition parse_frags :: "target \<Rightarrow> byte list option \<Rightarrow> gas \<Rightarrow> gas result option" where
  "parse_frags tg file g = (case xom_section_init tg g of
     Inl e \<Rightarrow> Some (Inl e)
   | Inr g1 \<Rightarrow> collect hardcode_size (write_meteheader tg file) (emit_entry tg) addr_size g1)"

definition parse_frags_for_test :: "target \<Rightarrow> byte list option \<Rightarrow> u16 list \<Rightarrow> gas \<Rightarrow> gas result option" where
  "parse_frags_for_test tg file big g = (case xom_test_section_init tg g of
     Inl e \<Rightarrow> Some (Inl e)
   | Inr g1 \<Rightarrow> collect (\<lambda>_. 1) (write_meteheader_for_test tg file) (emit_entry_for_test tg big) fix_size g1)"

section \<open>The counters\<close>

text \<open>What the counting loop adds: only frags with a label count, as code behind other instructions.\<close>

definition falls_through :: "frag \<Rightarrow> bool" where
  "falls_through f \<longleftrightarrow> \<not> frag_has_checked f \<and> frag_symbol f \<noteq> None \<and> frag_has_hardcode f \<and> insn_frag (fr_flags f)"

lemma stat_frag_eq:
  "stat_frag inc f k g = (if frag_has_hardcode f then k + inc f else k,
     g\<lparr>fall_through_num := fall_through_num g + of_bool (falls_through f)\<rparr>)"
  by (auto simp: stat_frag_def falls_through_def Let_def S_IS_CF_SYMBOL_def S_IS_MA_SYMBOL_def)

lemma stat_loop_counts:
  "chain (frag_next g) f ids \<Longrightarrow>
   stat_loop inc f k g = Some (k + sum_list (map (\<lambda>p. inc (frags g p)) (filter (\<lambda>p. frag_has_hardcode (frags g p)) ids)),
     g\<lparr>fall_through_num := fall_through_num g + word_of_nat (length (filter (\<lambda>p. falls_through (frags g p)) ids))\<rparr>)"
proof (induction ids arbitrary: f k g)
  case Nil
  then show ?case by (subst stat_loop.simps) simp
next
  case (Cons p ids)
  let ?g = "g\<lparr>fall_through_num := fall_through_num g + of_bool (falls_through (frags g p))\<rparr>"
  have "chain (frag_next ?g) (frag_next ?g p) ids" using Cons.prems by (simp add: frag_next_def [abs_def])
  from Cons.IH [OF this] Cons.prems show ?case
    by (subst stat_loop.simps) (simp add: stat_frag_eq frag_next_def)
qed

section \<open>The loop over the frags, for any way of writing an entry\<close>

text \<open>An entry: the frag it describes, its size and its name.  The entries of a frag, read off the frag
  and the symbols.\<close>

type_synonym entry = "fragP \<times> u32 \<times> byte list"

definition is_data :: "(symP \<Rightarrow> symbol) \<Rightarrow> u32 \<Rightarrow> frag \<Rightarrow> bool" where
  "is_data sy offset f \<longleftrightarrow> \<not> align_frag (fr_flags f) \<and> \<not> insn_frag (fr_flags f) \<and> offset > 0
     \<and> \<not> S_IS_CF_SYMBOL sy (frag_symbol f)"

definition label_name :: "(symP \<Rightarrow> symbol) \<Rightarrow> frag \<Rightarrow> byte list" where
  "label_name sy f = (case frag_symbol f of None \<Rightarrow> null_name | Some s \<Rightarrow> sy_name (sy s))"

definition entries_of_frag :: "(symP \<Rightarrow> symbol) \<Rightarrow> u32 \<Rightarrow> frag \<Rightarrow> fragP \<Rightarrow> entry list" where
  "entries_of_frag sy offset f p =
     (if is_data sy offset f
      then (case frag_anchor f of
              Some a \<Rightarrow> if anchor_frag (fr_flags f) then [(p, 0, sy_name (sy a))] else []
            | None \<Rightarrow> [])
           @ [(p, offset, label_name sy f)]
      else [])"

definition entries_of :: "(symP \<Rightarrow> symbol) \<Rightarrow> (fragP \<Rightarrow> frag) \<Rightarrow> (fragP \<Rightarrow> u32) \<Rightarrow> fragP list \<Rightarrow> entry list" where
  "entries_of sy fr offs ids = concat (map (\<lambda>p. entries_of_frag sy (offs p) (fr p) p) (butlast ids))"

text \<open>The labels a frag of data refers to are there, as the assertions of the loop demand, and are among
  the first \<open>n\<close> symbols.\<close>

definition labels_ok :: "nat \<Rightarrow> frag \<Rightarrow> bool" where
  "labels_ok n f \<longleftrightarrow> (anchor_frag (fr_flags f) \<longrightarrow> frag_symbol f \<noteq> None \<and> frag_anchor f \<noteq> None)
     \<and> (\<forall>s \<in> set_option (frag_symbol f). s < n) \<and> (\<forall>s \<in> set_option (frag_anchor f). s < n)"

lemma butlast_split: "x \<in> set (butlast xs) \<Longrightarrow> \<exists>us y vs. xs = us @ x # y # vs"
proof (induction xs)
  case (Cons a xs)
  show ?case
  proof (cases "x = a \<and> xs \<noteq> []")
    case True
    then obtain y vs where "a # xs = [] @ x # y # vs" by (cases xs) auto
    then show ?thesis by blast
  next
    case False
    then have "x \<in> set (butlast xs)" using Cons.prems by (auto split: if_splits)
    then obtain us y vs where "xs = us @ x # y # vs" using Cons.IH by blast
    then have "a # xs = (a # us) @ x # y # vs" by simp
    then show ?thesis by blast
  qed
qed simp

text \<open>A sink of entries: writing an entry succeeds as long as there is room for all of them, keeps the
  frags of \<open>F\<close> and the first \<open>n\<close> symbols, and adds the entry to those \<open>held\<close>.\<close>

locale entry_sink =
  fixes emit :: "fragP \<Rightarrow> u32 \<Rightarrow> byte list \<Rightarrow> gas \<Rightarrow> gas result"
    and held :: "entry list \<Rightarrow> gas \<Rightarrow> bool"
    and room :: "entry list \<Rightarrow> bool"
    and F :: "fragP set"
    and n :: nat
  assumes emit_step: "held acc g \<Longrightarrow> p \<in> F \<Longrightarrow> room (acc @ [(p, sz, nm)]) \<Longrightarrow>
      \<exists>g'. emit p sz nm g = Inr g' \<and> held (acc @ [(p, sz, nm)]) g'
        \<and> (\<forall>q \<in> F. frags g' q = frags g q) \<and> (\<forall>s < n. syms g' s = syms g s)"
    and room_prefix: "room (xs @ ys) \<Longrightarrow> room xs"
begin

definition kept_frags :: "gas \<Rightarrow> gas \<Rightarrow> bool" where
  "kept_frags g g' \<longleftrightarrow> (\<forall>q \<in> F. frags g' q = frags g q) \<and> (\<forall>s < n. syms g' s = syms g s)"

lemma kept_frags_trans: "kept_frags g h \<Longrightarrow> kept_frags h k \<Longrightarrow> kept_frags g k"
  by (simp add: kept_frags_def)

lemma kept_is_data:
  "kept_frags g g' \<Longrightarrow> labels_ok n f \<Longrightarrow> is_data (syms g') off f = is_data (syms g) off f
     \<and> label_name (syms g') f = label_name (syms g) f"
  by (auto simp: kept_frags_def labels_ok_def is_data_def label_name_def S_IS_CF_SYMBOL_def split: option.splits)

lemma kept_entries:
  assumes "kept_frags g g'" and "labels_ok n f"
  shows "entries_of_frag (syms g') off f p = entries_of_frag (syms g) off f p"
proof -
  have "sy_name (syms g' a) = sy_name (syms g a)" if "frag_anchor f = Some a" for a
    using assms that by (simp add: kept_frags_def labels_ok_def)
  then show ?thesis
    using kept_is_data [OF assms, of off] by (auto simp: entries_of_frag_def split: option.splits)
qed

lemma scan_frag_step:
  assumes "held acc g" and "p \<in> F" and "labels_ok n (frags g p)"
    and "room (acc @ entries_of_frag (syms g) off (frags g p) p)"
  shows "\<exists>g'. scan_frag emit off p g = Inr g' \<and> held (acc @ entries_of_frag (syms g) off (frags g p) p) g'
    \<and> kept_frags g g'"
proof (cases "is_data (syms g) off (frags g p)")
  case False
  then show ?thesis using assms(1)
    by (auto simp: scan_frag_def is_data_def entries_of_frag_def kept_frags_def Let_def)
next
  case True
  let ?f = "frags g p"
  let ?pre = "if anchor_frag (fr_flags ?f) then [(p, 0, sy_name (syms g (the (frag_anchor ?f))))] else []"
  have es: "entries_of_frag (syms g) off ?f p = ?pre @ [(p, off, label_name (syms g) ?f)]"
    using True assms(3) by (auto simp: entries_of_frag_def labels_ok_def split: option.splits)
  have first: "\<exists>g1. (if anchor_frag (fr_flags ?f) then gas_assert (frag_symbol ?f \<noteq> None) (case frag_anchor ?f of
        None \<Rightarrow> Inl Assert_failed | Some a \<Rightarrow> emit p 0 (sy_name (syms g a)) g) else Inr g) = Inr g1
      \<and> held (acc @ ?pre) g1 \<and> kept_frags g g1"
  proof (cases "anchor_frag (fr_flags ?f)")
    case anc: True
    then obtain a where a: "frag_anchor ?f = Some a" "frag_symbol ?f \<noteq> None"
      using assms(3) by (auto simp: labels_ok_def)
    have "room (acc @ [(p, 0, sy_name (syms g a))])"
      using assms(4) a(1) anc es room_prefix [of "acc @ ?pre"] by simp
    from emit_step [OF assms(1,2) this] a anc show ?thesis by (auto simp: gas_assert_def kept_frags_def)
  qed (use assms(1) in \<open>simp add: kept_frags_def\<close>)
  then obtain g1 where g1: "(if anchor_frag (fr_flags ?f) then gas_assert (frag_symbol ?f \<noteq> None) (case frag_anchor ?f of
        None \<Rightarrow> Inl Assert_failed | Some a \<Rightarrow> emit p 0 (sy_name (syms g a)) g) else Inr g) = Inr g1"
      "held (acc @ ?pre) g1" "kept_frags g g1" by blast
  have "room ((acc @ ?pre) @ [(p, off, label_name (syms g) ?f)])" using assms(4) es by simp
  from emit_step [OF g1(2) assms(2) this] obtain g2 where g2: "emit p off (label_name (syms g) ?f) g1 = Inr g2"
    "held ((acc @ ?pre) @ [(p, off, label_name (syms g) ?f)]) g2" "kept_frags g1 g2"
    by (auto simp: kept_frags_def)
  have nm: "label_name (syms g1) ?f = label_name (syms g) ?f" using kept_is_data [OF g1(3) assms(3)] by blast
  have "scan_frag emit off p g = Inr g2"
    using True g1(1) g2(1) nm unfolding scan_frag_def is_data_def Let_def label_name_def
    by (auto split: option.splits)
  then show ?thesis using g2(2) es kept_frags_trans [OF g1(3) g2(3)] by auto
qed

text \<open>The loop writes the entries of all frags but the last, in order, and ends.\<close>

lemma scan_loop_entries:
  assumes offs: "\<And>g g' p. kept_frags g g' \<Longrightarrow> p \<in> F \<Longrightarrow> set_option (fr_next (frags g p)) \<subseteq> F \<Longrightarrow> off g' p = off g p"
  shows "held acc g \<Longrightarrow> chain (frag_next g) f ids \<Longrightarrow> set ids \<subseteq> F \<Longrightarrow> \<forall>p \<in> set ids. labels_ok n (frags g p) \<Longrightarrow>
    room (acc @ entries_of (syms g) (frags g) (off g) ids) \<Longrightarrow>
    \<exists>g'. scan_loop emit off f g = Some (Inr g') \<and> held (acc @ entries_of (syms g) (frags g) (off g) ids) g'
      \<and> kept_frags g g'"
proof (induction ids arbitrary: f acc g)
  case Nil
  then show ?case by (subst scan_loop.simps) (simp add: entries_of_def kept_frags_def)
next
  case (Cons p ids)
  show ?case
  proof (cases ids)
    case Nil
    then show ?thesis using Cons.prems
      by (subst scan_loop.simps) (simp add: entries_of_def kept_frags_def frag_next_def)
  next
    case (Cons q rest)
    then have nx: "f = Some p" "frag_next g p = Some q" "chain (frag_next g) (Some q) ids"
      using Cons.prems(2) by auto
    let ?es = "entries_of_frag (syms g) (off g p) (frags g p) p"
    have es: "entries_of (syms g) (frags g) (off g) (p # ids) = ?es @ entries_of (syms g) (frags g) (off g) ids"
      using Cons by (simp add: entries_of_def)
    have r: "room (acc @ ?es)" using Cons.prems(5) unfolding es by (metis append_assoc room_prefix)
    obtain g1 where g1: "scan_frag emit (off g p) p g = Inr g1" "held (acc @ ?es) g1" "kept_frags g g1"
      using scan_frag_step [OF Cons.prems(1) _ _ r] Cons.prems(3,4) by auto
    have F1: "frags g1 x = frags g x" if "x \<in> set (p # ids)" for x
      using g1(3) that Cons.prems(3) by (auto simp: kept_frags_def)
    have ch: "chain (frag_next g1) (Some q) ids"
      using nx(3) path_cong [of ids "frag_next g1" "frag_next g"] F1 by (simp add: chain_def frag_next_def)
    have sub: "set_option (fr_next (frags g x)) \<subseteq> F" if x: "x \<in> set (butlast ids)" for x
    proof -
      obtain us y vs where i: "ids = us @ x # y # vs" using butlast_split [OF x] by blast
      then have "frag_next g x = Some y" using chain_next [of "frag_next g" "Some q" us x "y # vs"] nx(3) by simp
      then show ?thesis using Cons.prems(3) i by (simp add: frag_next_def)
    qed
    have "off g1 x = off g x" if "x \<in> set (butlast ids)" for x
      using offs [OF g1(3) _ sub [OF that]] that Cons.prems(3) in_set_butlastD by fastforce
    then have same: "entries_of (syms g1) (frags g1) (off g1) ids = entries_of (syms g) (frags g) (off g) ids"
      using F1 kept_entries [OF g1(3)] Cons.prems(4) unfolding entries_of_def
      by (intro arg_cong [where f = concat] map_cong) (auto dest: in_set_butlastD)
    have lab: "\<forall>p \<in> set ids. labels_ok n (frags g1 p)" using Cons.prems(4) F1 by simp
    obtain g' where g': "scan_loop emit off (Some q) g1 = Some (Inr g')"
      "held ((acc @ ?es) @ entries_of (syms g) (frags g) (off g) ids) g'" "kept_frags g1 g'"
      using Cons.IH [OF g1(2) ch _ lab] Cons.prems(3,5) unfolding es same by auto
    have "scan_loop emit off f g = Some (Inr g')"
      using nx(1,2) g1(1) g'(1) F1 [of p] by (subst scan_loop.simps) (simp add: frag_next_def)
    then show ?thesis using g'(2) kept_frags_trans [OF g1(3) g'(3)] unfolding es by auto
  qed
qed

end

section \<open>Entries with a relocated address\<close>

definition entry_bytes :: "(fragP \<Rightarrow> frag) \<Rightarrow> entry \<Rightarrow> byte list" where
  "entry_bytes FR e = (case e of (p, sz, nm) \<Rightarrow> replicate 8 0 @ enc_metedata_test (entry_of (FR p) sz nm) @ nm @ [0])"

definition test_bytes :: "(fragP \<Rightarrow> frag) \<Rightarrow> entry list \<Rightarrow> byte list" where
  "test_bytes FR acc = concat (map (entry_bytes FR) acc)"

text \<open>The fixup of an entry: at its first octet, and against a label of the text segment in the frag such that
  label plus addend is the start of the frag.\<close>

definition addr_fix :: "target \<Rightarrow> gas \<Rightarrow> fragP list \<Rightarrow> nat \<Rightarrow> fragP \<Rightarrow> fixS \<Rightarrow> bool" where
  "addr_fix tg g ids pos p f \<longleftrightarrow> fx_frag f \<in> set ids \<and> fix_pos tg g ids f = pos
     \<and> (\<exists>s < n_syms g. sy_frag (syms g s) = Some p \<and> sy_seg (syms g s) = text_section
          \<and> abs64_fix (Some s) (- sy_value (syms g s)) f)"

fun fixes_ok :: "target \<Rightarrow> gas \<Rightarrow> fragP list \<Rightarrow> (fragP \<Rightarrow> frag) \<Rightarrow> nat \<Rightarrow> entry list \<Rightarrow> fixS list \<Rightarrow> bool" where
  "fixes_ok tg g ids FR pos [] fs \<longleftrightarrow> fs = []"
| "fixes_ok tg g ids FR pos (e # es) fs \<longleftrightarrow> (case fs of [] \<Rightarrow> False
     | f # fs' \<Rightarrow> addr_fix tg g ids pos (fst e) f \<and> fixes_ok tg g ids FR (pos + length (entry_bytes FR e)) es fs')"

lemma fixes_ok_snoc:
  "fixes_ok tg g ids FR pos es fs \<Longrightarrow> addr_fix tg g ids (pos + length (test_bytes FR es)) (fst e) f \<Longrightarrow>
   fixes_ok tg g ids FR pos (es @ [e]) (fs @ [f])"
  by (induction es arbitrary: pos fs) (auto simp: test_bytes_def ac_simps split: list.splits)

lemma addr_fix_frame:
  assumes "frame g fc ids g' fc' ids' fs" and "addr_fix tg g ids pos p f"
  shows "addr_fix tg g' ids' pos p f"
proof -
  have "set ids \<subseteq> set ids'" using assms(1) by (auto simp: frame_def extends_def)
  moreover have "fix_pos tg g' ids' f = fix_pos tg g ids f"
    using assms by (intro fix_pos_extends) (auto simp: frame_def addr_fix_def)
  moreover obtain s where s: "s < n_syms g" "sy_frag (syms g s) = Some p" "sy_seg (syms g s) = text_section"
      "abs64_fix (Some s) (- sy_value (syms g s)) f"
    using assms(2) by (auto simp: addr_fix_def)
  have "s < n_syms g'" "syms g' s = syms g s" using assms(1) s(1) by (auto simp: frame_def)
  ultimately show ?thesis using assms(2) s unfolding addr_fix_def by auto
qed

lemma fixes_ok_frame:
  "frame g fc ids g' fc' ids' fs' \<Longrightarrow> fixes_ok tg g ids FR pos es fs \<Longrightarrow> fixes_ok tg g' ids' FR pos es fs"
  by (induction es arbitrary: pos fs) (auto intro: addr_fix_frame split: list.splits)

text \<open>A frag that belongs to another obstack.\<close>

definition foreign :: "target \<Rightarrow> nat \<Rightarrow> fragP \<Rightarrow> bool" where
  "foreign tg i p \<longleftrightarrow> (\<forall>ob. ob_ok tg ob \<longrightarrow> ob_id ob = i \<longrightarrow> \<not> located tg ob p)"

definition test_held ::
  "target \<Rightarrow> (fragP \<Rightarrow> frag) \<Rightarrow> fragP set \<Rightarrow> nat \<Rightarrow> byte list \<Rightarrow> fixS list \<Rightarrow> entry list \<Rightarrow> gas \<Rightarrow> bool" where
  "test_held tg FR F n b0 fs0 acc g \<longleftrightarrow>
     target_ok tg \<and> now_seg g = xom_test_section \<and> frags_chained g \<and> mri_common_symbol g = None \<and> n \<le> n_syms g
   \<and> (\<forall>p \<in> F. frags g p = FR p)
   \<and> (\<exists>fc ids fs. content_inv tg g fc ids (b0 @ test_bytes FR acc)
        \<and> (\<forall>p \<in> F. foreign tg (ob_id (frch_obstack fc)) p)
        \<and> map_option seg_fixes (seg_info g xom_test_section) = Some (fs0 @ fs)
        \<and> fixes_ok tg g ids FR (length b0) acc fs)"

definition name_fits :: "target \<Rightarrow> byte list \<Rightarrow> bool" where
  "name_fits tg nm \<longleftrightarrow> length nm + 1 < 2 ^ 32 \<and> request_ok tg (29 + length nm)"

definition test_room :: "target \<Rightarrow> (fragP \<Rightarrow> frag) \<Rightarrow> byte list \<Rightarrow> entry list \<Rightarrow> bool" where
  "test_room tg FR b0 acc \<longleftrightarrow> small (length b0 + length (test_bytes FR acc))
     \<and> (\<forall>(p, sz, nm) \<in> set acc. name_fits tg nm)"

lemma content_inv_cong:
  assumes "mem h = mem g" and "frags h = frags g" and "seg_info h = seg_info g" and "frchain_now h = frchain_now g"
    and "now_seg h = now_seg g" and "frag_now h = frag_now g"
  shows "content_inv tg h fc ids bs = content_inv tg g fc ids bs"
proof -
  have "the_frchain h = the_frchain g" by (rule the_frchain_cong) (simp_all add: assms)
  then show ?thesis using assms
    by (simp add: content_inv_def chain_inv_def frag_next_def [abs_def] lits_ok_def chain_octets_def
        closed_octets_def [abs_def] octets_def [abs_def])
qed

lemma take_name:
  assumes "length nm + 1 < 2 ^ 32"
  shows "unat (word_of_nat (length nm + 1) :: u32) = Suc (length nm)"
  using assms by (simp add: unat_of_nat take_bit_nat_eq_self del: of_nat_Suc of_nat_add)

lemma request_mono: "request_ok tg n \<Longrightarrow> m \<le> n \<Longrightarrow> request_ok tg m"
  by (simp add: request_ok_def small_def)

lemma symbol_temp_new_frame:
  assumes "symbol_temp_new seg p ofs g = (s, g1)"
  shows "frame g fc ids g1 fc ids []" and "content_inv tg g1 fc ids bs = content_inv tg g fc ids bs"
    and "s = n_syms g" and "n_syms g1 = n_syms g + 1" and "frags g1 = frags g" and "now_seg g1 = now_seg g"
    and "sy_frag (syms g1 s) = Some p" and "sy_seg (syms g1 s) = seg" and "sy_value (syms g1 s) = ofs"
    and "seg_info g1 = seg_info g"
proof -
  have g1: "g1 = g\<lparr>syms := (syms g)(n_syms g := syms g1 (n_syms g)), n_syms := n_syms g + 1,
      sym_chain := sym_chain g @ [n_syms g]\<rparr>" "s = n_syms g"
    "sy_frag (syms g1 s) = Some p" "sy_seg (syms g1 s) = seg" "sy_value (syms g1 s) = ofs"
    using assms by (auto simp: symbol_temp_new_def symbol_new_def symbol_create_def)
  have c: "mem g1 = mem g" "frags g1 = frags g" "seg_info g1 = seg_info g" "frchain_now g1 = frchain_now g"
    "now_seg g1 = now_seg g" "frag_now g1 = frag_now g"
    by (subst g1(1), simp)+
  show "content_inv tg g1 fc ids bs = content_inv tg g fc ids bs" by (rule content_inv_cong [OF c])
  show "frame g fc ids g1 fc ids []"
    by (subst g1(1)) (simp add: frame_def extends_def same_place_def)
  show "n_syms g1 = n_syms g + 1" by (subst g1(1)) simp
  show "s = n_syms g" "sy_frag (syms g1 s) = Some p" "sy_seg (syms g1 s) = seg" "sy_value (syms g1 s) = ofs"
    by (fact g1)+
  show "frags g1 = frags g" "now_seg g1 = now_seg g" "seg_info g1 = seg_info g" by (fact c)+
qed

lemma write_metedata_for_test_content:
  assumes "content_inv tg g fc ids bs" and "target_ok tg" and "mri_common_symbol g = None"
    and "now_seg g = xom_test_section" and "name_fits tg nm" and "m_symbol_size m = word_of_nat (length nm + 1)"
  shows "\<exists>g' fc' ids'. write_metedata_for_test tg m nm g = Inr g'
    \<and> content_inv tg g' fc' ids' (bs @ enc_metedata_test m @ nm @ [0]) \<and> quiet g fc ids g' fc' ids'"
proof -
  let ?xs = "enc_metedata_test m @ nm @ [0]"
  have n: "unat (m_symbol_size m) = Suc (length nm)" "request_ok tg (length ?xs)"
    using assms(5) request_mono [of tg "29 + length nm" "length ?xs"] take_name [of nm] unfolding assms(6)
    by (simp_all add: name_fits_def)
  have "write_metedata_for_test tg m nm g = put tg ?xs g"
    using assms(4) n(1) by (simp add: write_metedata_for_test_def put_def gas_assert_def poke_list_append)
  with put_content [OF assms(1,2) n(2) assms(3)] show ?thesis by simp
qed

lemma held_foreign:
  assumes "content_inv tg g' fc' ids' bs" and "foreign tg i p" and "i = ob_id (frch_obstack fc')"
  shows "p \<notin> set ids'"
  using assms by (auto simp: content_inv_def chain_inv_def foreign_def)

lemma emit_entry_for_test_step:
  assumes held: "test_held tg FR F n b0 fs0 acc g" and p: "p \<in> F" and room: "test_room tg FR b0 (acc @ [(p, sz, nm)])"
  shows "\<exists>g'. emit_entry_for_test tg big p sz nm g = Inr g' \<and> test_held tg FR F n b0 fs0 (acc @ [(p, sz, nm)]) g'
    \<and> (\<forall>q \<in> F. frags g' q = frags g q) \<and> (\<forall>s < n. syms g' s = syms g s)"
proof -
  let ?e = "(p, sz, nm)" and ?bs = "b0 @ test_bytes FR acc"
  obtain fc ids fs where H: "content_inv tg g fc ids ?bs" "\<forall>p \<in> F. foreign tg (ob_id (frch_obstack fc)) p"
    "map_option seg_fixes (seg_info g xom_test_section) = Some (fs0 @ fs)" "fixes_ok tg g ids FR (length b0) acc fs"
    "target_ok tg" "now_seg g = xom_test_section" "frags_chained g" "mri_common_symbol g = None" "n \<le> n_syms g"
    "\<forall>p \<in> F. frags g p = FR p"
    using held by (auto simp: test_held_def)
  have nm: "name_fits tg nm" "small (length ?bs)"
    using room unfolding test_room_def by (simp_all add: test_bytes_def small_def)
  then have req: "request_ok tg 8" using request_mono [of tg "29 + length nm" 8] by (simp add: name_fits_def)
  obtain s g1 where sy: "symbol_temp_new text_section p (fr_fix (frags g p)) g = (s, g1)" by fastforce
  note T = symbol_temp_new_frame [OF sy]
  let ?ex = "\<lparr>X_op = O_symbol, X_add_symbol = Some s, X_op_symbol = None, X_add_number = 0 - fr_fix (frags g p), X_unsigned = False\<rparr>"
  have g1: "content_inv tg g1 fc ids ?bs" "mri_common_symbol g1 = None" "frags_chained g1" "now_seg g1 \<noteq> bss_section"
    "seg_info g1 (now_seg g1) \<noteq> None"
    using H T(1) [of fc ids] T(2,6,10) by (auto simp: frame_def same_place_def)
  obtain g2 fc2 ids2 f where E: "emit_expr tg big ?ex 8 g1 = Inr g2" "content_inv tg g2 fc2 ids2 (?bs @ replicate 8 0)"
    "frame g1 fc ids g2 fc2 ids2 [f]" "n_syms g2 = n_syms g1" "syms g2 = syms g1"
    "abs64_fix (Some s) (0 - fr_fix (frags g p)) f" "fx_frag f \<in> set ids2" "fix_pos tg g2 ids2 f = length ?bs"
    using emit_symbol_content [OF g1(1) H(5) req g1(2-5), of ?ex big] nm(2) by auto
  have g2: "mri_common_symbol g2 = None" "now_seg g2 = xom_test_section"
    using E(3) g1(2) T(6) H(6) by (simp_all add: frame_def same_place_def)
  let ?m = "entry_of (frags g p) sz nm"
  have "m_symbol_size ?m = word_of_nat (length nm + 1)" by (simp add: entry_of_def)
  then obtain g3 fc3 ids3 where W: "write_metedata_for_test tg ?m nm g2 = Inr g3"
    "content_inv tg g3 fc3 ids3 ((?bs @ replicate 8 0) @ enc_metedata_test ?m @ nm @ [0])" "quiet g2 fc2 ids2 g3 fc3 ids3"
    using write_metedata_for_test_content [OF E(2) H(5) g2 nm(1)] by blast
  have fr: "frame g fc ids g3 fc3 ids3 [f]"
    using frame_trans [OF T(1) frame_trans [OF E(3) quiet_frame [OF W(3)]]] by simp
  have F3: "\<forall>q \<in> F. frags g3 q = frags g q"
    using held_foreign [OF W(2)] H(2) fr by (auto simp: frame_def extends_def)
  have C3: "content_inv tg g3 fc3 ids3 (b0 @ test_bytes FR (acc @ [?e]))"
    using W(2) H(10) p by (simp add: test_bytes_def entry_bytes_def)
  have X3: "fixes_ok tg g3 ids3 FR (length b0) (acc @ [?e]) (fs @ [f])"
  proof (rule fixes_ok_snoc [OF fixes_ok_frame [OF fr H(4)]])
    have "addr_fix tg g2 ids2 (length ?bs) p f"
      unfolding addr_fix_def using E(4-8) T(3,4,7-9) by (intro conjI exI [of _ s]) simp_all
    then show "addr_fix tg g3 ids3 (length b0 + length (test_bytes FR acc)) (fst ?e) f"
      using addr_fix_frame [OF quiet_frame [OF W(3)]] by simp
  qed
  have "map_option seg_fixes (seg_info g3 xom_test_section) = Some (fs0 @ fs @ [f])"
    using fr H(3,6) by (auto simp: frame_def)
  moreover have "ob_id (frch_obstack fc3) = ob_id (frch_obstack fc)" using fr by (simp add: frame_def extends_def)
  ultimately have ex: "\<exists>fc ids fs. content_inv tg g3 fc ids (b0 @ test_bytes FR (acc @ [?e]))
        \<and> (\<forall>p \<in> F. foreign tg (ob_id (frch_obstack fc)) p)
        \<and> map_option seg_fixes (seg_info g3 xom_test_section) = Some (fs0 @ fs)
        \<and> fixes_ok tg g3 ids FR (length b0) (acc @ [?e]) fs"
    using H(2) C3 X3 by (intro exI [of _ fc3] exI [of _ ids3] exI [of _ "fs @ [f]"]) simp
  have "emit_entry_for_test tg big p sz nm g = Inr g3"
    using H(6) sy E(1) W(1) by (simp add: emit_entry_for_test_def gas_assert_def Let_def)
  moreover have "test_held tg FR F n b0 fs0 (acc @ [?e]) g3"
    unfolding test_held_def using H(5-10) fr F3 ex by (auto simp: frame_def same_place_def)
  moreover have "\<forall>s < n. syms g3 s = syms g s" using fr H(9) by (simp add: frame_def)
  ultimately show ?thesis using F3 by blast
qed

interpretation xomtwo: entry_sink "emit_entry_for_test tg big" "test_held tg FR F n b0 fs0" "test_room tg FR b0" F n
  for tg big FR F n b0 fs0
  by unfold_locales (rule emit_entry_for_test_step, assumption+, auto simp: test_room_def test_bytes_def small_def)

section \<open>Opening the section\<close>

text \<open>What opening a new segment leaves alone.\<close>

definition opened :: "segT \<Rightarrow> gas \<Rightarrow> fragP \<Rightarrow> gas \<Rightarrow> bool" where
  "opened seg g p g' \<longleftrightarrow> (\<forall>q. q \<noteq> p \<longrightarrow> frags g' q = frags g q) \<and> syms g' = syms g \<and> n_syms g' = n_syms g
   \<and> frags_chained g' = frags_chained g \<and> total_hardcoded_bytes g' = total_hardcoded_bytes g
   \<and> direct_code_num g' = direct_code_num g \<and> direct_data_num g' = direct_data_num g
   \<and> fall_through_num g' = fall_through_num g
   \<and> (\<forall>sg. sg \<noteq> seg \<longrightarrow> map_option (\<lambda>si. map (\<lambda>c. (frch_root c, frch_obstack c)) (frchainP si)) (seg_info g' sg)
        = map_option (\<lambda>si. map (\<lambda>c. (frch_root c, frch_obstack c)) (frchainP si)) (seg_info g sg))"

lemma upd_frchain_counters [simp]:
  "total_hardcoded_bytes (upd_frchain f g) = total_hardcoded_bytes g" "direct_code_num (upd_frchain f g) = direct_code_num g"
  "direct_data_num (upd_frchain f g) = direct_data_num g" "fall_through_num (upd_frchain f g) = fall_through_num g"
  "n_frchains (upd_frchain f g) = n_frchains g"
  by (auto simp: upd_frchain_def split: option.splits)

lemma upd_frchain_roots:
  assumes "\<And>c. frch_root (f c) = frch_root c" and "\<And>c. frch_obstack (f c) = frch_obstack c"
  shows "map_option (\<lambda>si. map (\<lambda>c. (frch_root c, frch_obstack c)) (frchainP si)) (seg_info (upd_frchain f g) sg)
    = map_option (\<lambda>si. map (\<lambda>c. (frch_root c, frch_obstack c)) (frchainP si)) (seg_info g sg)"
proof -
  have "(\<lambda>x. (frch_root (if P x then f x else x), frch_obstack (if P x then f x else x)))
      = (\<lambda>x. (frch_root x, frch_obstack x))" for P
    using assms by auto
  then show ?thesis by (auto simp: upd_frchain_def option.map_comp comp_def split: option.splits)
qed

lemma upd_frchain_empty:
  "seg_info g seg = Some empty_segment \<Longrightarrow> seg_info (upd_frchain f g) seg = Some empty_segment"
  by (auto simp: upd_frchain_def empty_segment_def split: option.splits)

lemma new_chain_effect:
  assumes bo: "build_ok tg" and r: "subseg_set_rest tg seg ss g = Inr g'" and si: "seg_info g seg = Some empty_segment"
  shows "\<exists>p fc. opened seg g p g' \<and> frag_now g' = p \<and> mri_common_symbol g' = None \<and> frchain_now g' = Some (seg, ss)
    \<and> seg_info g' seg = Some (empty_segment\<lparr>frchainP := [fc]\<rparr>) \<and> frch_root fc = Some p \<and> frch_subseg fc = ss
    \<and> obstack_object_size (frch_obstack fc) = 0 \<and> fr_next (frags g' p) = None"
proof -
  let ?g1 = "upd_frchain (\<lambda>c. c\<lparr>frch_frag_now := Some (frag_now g)\<rparr>) (g\<lparr>mri_common_symbol := None\<rparr>)"
  have e: "seg_info ?g1 seg = Some empty_segment"
    using si by (intro upd_frchain_empty) simp
  let ?g2 = "?g1\<lparr>now_seg := seg, now_subseg := ss\<rparr>"
  have ch: "subseg_change seg ss ?g1 = ?g2" using e by (simp add: subseg_change_def)
  obtain fcP g3 fn where M: "make_frchain tg seg ss ?g2 = Inr (fcP, g3)" "frch_frag_now fcP = Some fn"
    "g' = g3\<lparr>frchain_now := Some (seg, ss), frag_now := fn\<rparr>"
    using r unfolding subseg_set_rest_def Let_def ch
    by (auto simp: gas_assert_def deref_def split: if_splits option.splits)
  obtain g4 where N: "new_frchain tg ss ?g2 = Inr (fcP, g4)"
    "g3 = g4\<lparr>seg_info := (seg_info g4)(seg \<mapsto> empty_segment\<lparr>frchainP := [fcP]\<rparr>)\<rparr>"
    using M(1) e by (auto simp: make_frchain_def empty_segment_def)
  let ?ob = "(obstack_begin_worker (chunk_alloc tg) (n_frchains ?g2) (chunksize tg) 0)
               \<lparr>alignment_mask := alignof_frag tg - 1\<rparr>"
  obtain p ob' where A: "frag_alloc_ob tg ?ob 0 = Inr (p, ob')" "alloc_effect tg ?ob p ob'"
    using frag_alloc_ob_spec [OF _ obstack_begin_ok(1,2) [OF bo]] bo by (metis build_ok_def)
  have P: "fcP = \<lparr>frch_root = Some p, frch_last = Some p, frch_subseg = ss, frch_obstack = ob',
      frch_frag_now = Some p, frch_fixes = []\<rparr>"
    "g4 = ?g2\<lparr>frags := (frags g)(p := zero_frag\<lparr>fr_type := rs_fill, fr_flags := fr_flags zero_frag\<lparr>first_frag := True\<rparr>\<rparr>),
       totalfrags := totalfrags ?g2 + 1, n_frchains := n_frchains ?g2 + 1\<rparr>"
    using N(1) A(1) by (auto simp: new_frchain_def frag_alloc_def upd_frag_def Let_def)
  have g': "frags g' = frags g4" "syms g' = syms g" "n_syms g' = n_syms g" "frags_chained g' = frags_chained g"
    "total_hardcoded_bytes g' = total_hardcoded_bytes g" "direct_code_num g' = direct_code_num g"
    "direct_data_num g' = direct_data_num g" "fall_through_num g' = fall_through_num g" "frag_now g' = p"
    "mri_common_symbol g' = None" "frchain_now g' = Some (seg, ss)"
    "seg_info g' = (seg_info ?g1)(seg \<mapsto> empty_segment\<lparr>frchainP := [fcP]\<rparr>)"
    using M(2,3) N(2) P by simp_all
  have "opened seg g p g'"
    unfolding opened_def
    using g' P(2) upd_frchain_roots [of "\<lambda>c. c\<lparr>frch_frag_now := Some (frag_now g)\<rparr>" "g\<lparr>mri_common_symbol := None\<rparr>"] by simp
  moreover have "obstack_object_size ob' = 0" using A(2) by (simp add: alloc_effect_def obstack_object_size_def)
  moreover have "fr_next (frags g' p) = None" using g'(1) P(2) by (simp add: zero_frag_def)
  ultimately show ?thesis using g' P(1) by (intro exI [of _ p] exI [of _ fcP]) simp
qed

lemma gas_inv_alloc_seginfo:
  assumes inv: "gas_inv tg g" and none: "seg_info g seg = None" and now: "now_seg g \<noteq> seg"
  shows "gas_inv tg (alloc_seginfo seg g)"
proof -
  let ?g = "alloc_seginfo seg g"
  have hc: "has_chain ?g = has_chain g"
    using none by (auto simp: has_chain_def alloc_seginfo_def empty_segment_def fun_eq_iff)
  have fld: "frags ?g = frags g" "n_frchains ?g = n_frchains g" "frchain_now ?g = frchain_now g" "now_seg ?g = now_seg g"
    "now_subseg ?g = now_subseg g" "frag_now ?g = frag_now g"
    by (simp_all add: alloc_seginfo_def)
  have "sorted_wrt (<) (map frch_subseg (frchainP si))" if "seg_info ?g sg = Some si" for sg si
    using that inv unfolding gas_inv_def chains_inv_def
    by (cases "sg = seg") (auto simp: alloc_seginfo_def empty_segment_def)
  then have "chains_inv tg (frchain_now g) ?g"
    using inv unfolding gas_inv_def chains_inv_def hc fld by blast
  moreover have "the_frchain ?g = the_frchain g" if "frchain_now g = Some (now_seg g, ss)" for ss
    using that now by (simp add: the_frchain_def alloc_seginfo_def)
  ultimately show ?thesis using inv unfolding gas_inv_def fld by (auto split: option.splits)
qed

lemma xom_test_section_init_spec:
  assumes bo: "build_ok tg" and inv: "gas_inv tg g" and none: "seg_info g xom_test_section = None"
    and now: "now_seg g \<noteq> xom_test_section"
  shows "\<exists>g' p fc. xom_test_section_init tg g = Inr g' \<and> gas_inv tg g' \<and> opened xom_test_section g p g'
    \<and> now_seg g' = xom_test_section \<and> mri_common_symbol g' = None
    \<and> seg_info g' xom_test_section = Some (empty_segment\<lparr>frchainP := [fc]\<rparr>) \<and> content_inv tg g' fc [p] []"
proof -
  let ?h = "alloc_seginfo xom_test_section g"
  note ih = gas_inv_alloc_seginfo [OF inv none now]
  have get: "subseg_get xom_test_section g = (xom_test_section, ?h)" using now none by (simp add: subseg_get_def)
  have emp: "seg_info ?h xom_test_section = Some empty_segment" by (simp add: alloc_seginfo_def)
  obtain g' where S: "subseg_set_rest tg xom_test_section 0 ?h = Inr g'" "gas_inv tg g'" "now_seg g' = xom_test_section"
    "now_subseg g' = 0"
    using subseg_set_rest_spec [OF bo ih, of xom_test_section 0] by blast
  obtain p fc where E: "opened xom_test_section ?h p g'" "frag_now g' = p" "mri_common_symbol g' = None"
    "frchain_now g' = Some (xom_test_section, 0)" "seg_info g' xom_test_section = Some (empty_segment\<lparr>frchainP := [fc]\<rparr>)"
    "frch_root fc = Some p" "frch_subseg fc = 0" "obstack_object_size (frch_obstack fc) = 0" "fr_next (frags g' p) = None"
    using new_chain_effect [OF bo S(1) emp] by blast
  obtain fc2 ids where C: "chain_inv tg g' fc2 ids" using gas_inv_chain [OF S(2)] E(4) S(3) by auto
  have "fc2 = fc" using C E(4,5,7) by (simp add: chain_inv_def the_frchain_def)
  have ids: "ids = [p]"
  proof (cases ids)
    case (Cons q qs)
    then have "q = p" "qs = []"
      using C \<open>fc2 = fc\<close> E(6,9) by (auto simp: chain_inv_def frag_next_def chain_def) (cases qs; auto)
    then show ?thesis using Cons by simp
  qed (use C in \<open>simp add: chain_inv_def\<close>)
  let ?g = "g'\<lparr>mri_common_symbol := None\<rparr>"
  have "content_inv tg g' fc [p] []"
    using C E(8) unfolding \<open>fc2 = fc\<close> ids by (simp add: content_inv_def lits_ok_def chain_octets_def octets_def)
  then have "content_inv tg ?g fc [p] []" by (subst content_inv_cong) simp_all
  moreover have "xom_test_section_init tg g = Inr ?g"
    using S(1,3,4) get by (simp add: xom_test_section_init_def subseg_new_def subseg_set_def)
  moreover have "opened xom_test_section g p ?g" using E(1) by (simp add: opened_def alloc_seginfo_def)
  ultimately show ?thesis using S(2,3) E(5) gas_inv_mri by auto
qed

text \<open>The header.\<close>

definition header_bytes :: "byte list \<Rightarrow> meta_header_fixed \<Rightarrow> byte list" where
  "header_bytes nm m = enc_header \<lparr>h_magic = MAGIC, name_size = word_of_nat (length nm + 1)\<rparr> @ nm @ [0] @ enc_meta_header m"

lemma header_for_content:
  assumes "content_inv tg g fc ids bs" and "target_ok tg" and "mri_common_symbol g = None"
    and "now_seg g = seg" and "name_fits tg nm"
  shows "\<exists>g' fc' ids'. header_for seg tg (Some nm) m g = Inr g'
    \<and> content_inv tg g' fc' ids' (bs @ header_bytes nm m) \<and> quiet g fc ids g' fc' ids'"
proof -
  let ?xs = "header_bytes nm m"
  have n: "unat (word_of_nat (length nm + 1) :: u32) = Suc (length nm)" "request_ok tg (length ?xs)"
    using assms(5) take_name [of nm]
    by (simp_all add: name_fits_def header_bytes_def chdr.length_enc cmh.length_enc del: of_nat_add of_nat_Suc)
  have "header_for seg tg (Some nm) m g = put tg ?xs g"
    using assms(4) n(1)
    by (simp add: header_for_def put_def gas_assert_def poke_list_append header_bytes_def chdr.length_enc cmh.length_enc
        enc_meta_header_def c32.length_enc Let_def ac_simps del: of_nat_add of_nat_Suc)
  with put_content [OF assms(1,2) n(2) assms(3)] show ?thesis by simp
qed

section \<open>The collected section\<close>

definition counters_of :: "gas \<Rightarrow> fragP list \<Rightarrow> meta_header_fixed" where
  "counters_of g ids = \<lparr>hardcoded_bytes_per_file = total_hardcoded_bytes g,
     bytes_frag_num = word_of_nat (length (filter (\<lambda>p. frag_has_hardcode (frags g p)) ids)),
     mh_direct_code_num = direct_code_num g, mh_direct_data_num = direct_data_num g,
     mh_fall_through_num = fall_through_num g + word_of_nat (length (filter (\<lambda>p. falls_through (frags g p)) ids))\<rparr>"

definition section_bytes :: "byte list \<Rightarrow> gas \<Rightarrow> fragP list \<Rightarrow> byte list" where
  "section_bytes file g ids = header_bytes file (counters_of g ids)
     @ test_bytes (frags g) (entries_of (syms g) (frags g) (fix_size g) ids)"

lemma sum_list_ones: "sum_list (map (\<lambda>p. 1) xs) = (word_of_nat (length xs) :: u32)"
  by (induction xs) simp_all

text \<open>What the pass needs: the text chain, its labels, and room for the section.\<close>

definition collectable :: "target \<Rightarrow> gas \<Rightarrow> frchain \<Rightarrow> fragP list \<Rightarrow> byte list \<Rightarrow> bool" where
  "collectable tg g c ids file \<longleftrightarrow> build_ok tg \<and> gas_inv tg g \<and> frags_chained g \<and> now_seg g \<noteq> xom_test_section
     \<and> seg_info g xom_test_section = None
     \<and> (\<exists>ti cs. seg_info g text_section = Some ti \<and> frchainP ti = c # cs)
     \<and> chain_ok tg (frags g) c ids \<and> (\<forall>p \<in> set ids. labels_ok (n_syms g) (frags g p))
     \<and> name_fits tg file \<and> small (length (section_bytes file g ids))
     \<and> (\<forall>(p, sz, nm) \<in> set (entries_of (syms g) (frags g) (fix_size g) ids). name_fits tg nm)"

lemma chain_foreign:
  assumes "target_ok tg" and "chain_ok tg st c ids" and "p \<in> set ids" and "ob_id (frch_obstack c) \<noteq> i"
  shows "foreign tg i p"
  using assms located_other [of tg "frch_obstack c" _ p p] unfolding foreign_def chain_ok_def by metis

lemma collect_for_test:
  assumes "collectable tg g c ids file"
  shows "\<exists>g' fc xs fs. parse_frags_for_test tg (Some file) big g = Some (Inr g')
    \<and> content_inv tg g' fc xs (section_bytes file g ids)
    \<and> map_option seg_fixes (seg_info g' xom_test_section) = Some fs
    \<and> fixes_ok tg g' xs (frags g) (length (header_bytes file (counters_of g ids)))
        (entries_of (syms g) (frags g) (fix_size g) ids) fs
    \<and> (\<forall>p \<in> set ids. frags g' p = frags g p)"
proof -
  let ?F = "set ids" and ?hb = "header_bytes file (counters_of g ids)"
  obtain ti cs where A: "build_ok tg" "gas_inv tg g" "frags_chained g" "now_seg g \<noteq> xom_test_section"
    "seg_info g xom_test_section = None" "seg_info g text_section = Some ti" "frchainP ti = c # cs"
    "chain_ok tg (frags g) c ids" "\<forall>p \<in> set ids. labels_ok (n_syms g) (frags g p)"
    "name_fits tg file" "small (length (section_bytes file g ids))"
    "\<forall>(p, sz, nm) \<in> set (entries_of (syms g) (frags g) (fix_size g) ids). name_fits tg nm"
    using assms by (auto simp: collectable_def)
  have tg: "target_ok tg" using A(1) by (simp add: build_ok_def)
  obtain g1 p fc where I: "xom_test_section_init tg g = Inr g1" "gas_inv tg g1" "opened xom_test_section g p g1"
    "now_seg g1 = xom_test_section" "mri_common_symbol g1 = None"
    "seg_info g1 xom_test_section = Some (empty_segment\<lparr>frchainP := [fc]\<rparr>)" "content_inv tg g1 fc [p] []"
    using xom_test_section_init_spec [OF A(1,2,5,4)] by blast
  obtain c1 ti1 cs1 where T1: "seg_info g1 text_section = Some ti1" "frchainP ti1 = c1 # cs1"
    "frch_root c1 = frch_root c" "frch_obstack c1 = frch_obstack c"
  proof -
    have "map_option (\<lambda>si. map (\<lambda>c. (frch_root c, frch_obstack c)) (frchainP si)) (seg_info g1 text_section)
        = Some (map (\<lambda>c. (frch_root c, frch_obstack c)) (c # cs))"
      using I(3) A(6,7) by (simp add: opened_def)
    then show thesis using that by (auto simp: map_eq_Cons_conv)
  qed
  have hc: "has_chain g1 text_section c1" "has_chain g1 xom_test_section fc"
    using T1(1,2) I(6) by (auto simp: has_chain_def)
  have "\<forall>sg c sg' c'. has_chain g1 sg c \<longrightarrow> has_chain g1 sg' c' \<longrightarrow>
      ob_id (frch_obstack c) = ob_id (frch_obstack c') \<longrightarrow> sg = sg' \<and> c = c'"
    using I(2) by (simp add: gas_inv_def chains_inv_def)
  then have "ob_id (frch_obstack c) \<noteq> ob_id (frch_obstack fc)"
    using hc T1(4) by fastforce
  then have frgn: "\<forall>q \<in> ?F. foreign tg (ob_id (frch_obstack fc)) q"
    using chain_foreign [OF tg A(8)] by blast
  have pF: "p \<notin> ?F" using held_foreign [OF I(7)] frgn by auto
  then have F1: "\<forall>q \<in> ?F. frags g1 q = frags g q" using I(3) by (auto simp: opened_def)
  have ch: "chain (frag_next g1) (frch_root c1) ids"
    using A(8) T1(3) F1 path_cong [of ids "frag_next g1" "\<lambda>p. fr_next (frags g p)"]
    by (simp add: chain_ok_def chain_def frag_next_def)
  let ?g2 = "g1\<lparr>fall_through_num := fall_through_num g1
      + word_of_nat (length (filter (\<lambda>p. falls_through (frags g1 p)) ids))\<rparr>"
  let ?n = "word_of_nat (length (filter (\<lambda>p. frag_has_hardcode (frags g1 p)) ids)) :: u32"
  have st: "stat_loop (\<lambda>_. 1) (frch_root c1) 0 g1 = Some (?n, ?g2)"
    using stat_loop_counts [OF ch, of "\<lambda>_. 1" 0] by (simp add: sum_list_ones)
  have flt: "filter (\<lambda>p. P (frags g1 p)) ids = filter (\<lambda>p. P (frags g p)) ids" for P
    using F1 by (intro filter_cong) simp_all
  have cnt: "\<lparr>hardcoded_bytes_per_file = total_hardcoded_bytes ?g2, bytes_frag_num = ?n, mh_direct_code_num = direct_code_num ?g2,
      mh_direct_data_num = direct_data_num ?g2, mh_fall_through_num = fall_through_num ?g2\<rparr> = counters_of g ids"
    using I(3) by (simp add: counters_of_def flt opened_def)
  have c2: "content_inv tg ?g2 fc [p] []" using I(7) by (subst content_inv_cong) simp_all
  obtain g3 fc3 ids3 where H: "header_for xom_test_section tg (Some file) (counters_of g ids) ?g2 = Inr g3"
    "content_inv tg g3 fc3 ids3 ([] @ ?hb)" "quiet ?g2 fc [p] g3 fc3 ids3"
    using header_for_content [OF c2 tg _ _ A(10), of xom_test_section "counters_of g ids"] I(4,5) by auto
  have ob3: "ob_id (frch_obstack fc3) = ob_id (frch_obstack fc)" using H(3) by (simp add: quiet_defs)
  have F3: "\<forall>q \<in> ?F. frags g3 q = frags g q"
    using held_foreign [OF H(2)] frgn ob3 F1 H(3) by (auto simp: quiet_defs)
  have sy3: "syms g3 = syms g" "n_syms g3 = n_syms g" "frags_chained g3" "mri_common_symbol g3 = None"
    "now_seg g3 = xom_test_section" "map_option seg_fixes (seg_info g3 xom_test_section) = Some []"
    using H(3) I(3-6) A(3) by (simp_all add: quiet_defs opened_def empty_segment_def)
  have held: "test_held tg (frags g) ?F (n_syms g) ?hb [] [] g3"
    unfolding test_held_def using tg sy3 F3 H(2) frgn ob3
    by (intro conjI exI [of _ fc3] exI [of _ ids3] exI [of _ "[]"]) (simp_all add: test_bytes_def)
  have ch3: "chain (frag_next g3) (frch_root c1) ids"
    using ch F1 F3 path_cong [of ids "frag_next g3" "frag_next g1"] by (simp add: chain_def frag_next_def)
  have lab: "\<forall>p \<in> ?F. labels_ok (n_syms g) (frags g3 p)" using A(9) F3 by simp
  have es: "entries_of (syms g3) (frags g3) (fix_size g3) ids = entries_of (syms g) (frags g) (fix_size g) ids"
    using F3 unfolding entries_of_def sy3(1) by (intro arg_cong [where f = concat] map_cong)
      (auto simp: fix_size_def dest: in_set_butlastD)
  have room: "test_room tg (frags g) ?hb ([] @ entries_of (syms g3) (frags g3) (fix_size g3) ids)"
    using A(11,12) unfolding es test_room_def section_bytes_def by simp
  obtain g' where L: "scan_loop (emit_entry_for_test tg big) fix_size (frch_root c1) g3 = Some (Inr g')"
    "test_held tg (frags g) ?F (n_syms g) ?hb [] ([] @ entries_of (syms g3) (frags g3) (fix_size g3) ids) g'"
    using xomtwo.scan_loop_entries [where off = fix_size and big = big, OF _ held ch3 subset_refl lab room]
    by (auto simp: xomtwo.kept_frags_def fix_size_def)
  have "parse_frags_for_test tg (Some file) big g = Some (Inr g')"
    using I(1) T1(1,2) st H(1) L(1) unfolding parse_frags_for_test_def collect_def write_meteheader_for_test_def
    by (simp add: cnt [simplified])
  moreover obtain fc' xs fs where "content_inv tg g' fc' xs (section_bytes file g ids)"
    "map_option seg_fixes (seg_info g' xom_test_section) = Some fs"
    "fixes_ok tg g' xs (frags g) (length ?hb) (entries_of (syms g) (frags g) (fix_size g) ids) fs"
    "\<forall>p \<in> ?F. frags g' p = frags g p"
    using L(2) unfolding es test_held_def section_bytes_def by auto
  ultimately show ?thesis by blast
qed

section \<open>Entries with the address of the frag\<close>

text \<open>The section \<open>.xom\<close> is a sink too: the entries have the layout of \<open>struct metedata\<close> and no fixups.\<close>

definition xom_bytes :: "(fragP \<Rightarrow> frag) \<Rightarrow> entry list \<Rightarrow> byte list" where
  "xom_bytes FR acc = concat (map (\<lambda>(p, sz, nm). enc_metedata (entry_of (FR p) sz nm) @ nm @ [0]) acc)"

definition xom_held :: "target \<Rightarrow> (fragP \<Rightarrow> frag) \<Rightarrow> fragP set \<Rightarrow> nat \<Rightarrow> byte list \<Rightarrow> entry list \<Rightarrow> gas \<Rightarrow> bool" where
  "xom_held tg FR F n b0 acc g \<longleftrightarrow> target_ok tg \<and> now_seg g = xom_section \<and> mri_common_symbol g = None
     \<and> (\<forall>p \<in> F. frags g p = FR p)
     \<and> (\<exists>fc ids. content_inv tg g fc ids (b0 @ xom_bytes FR acc) \<and> (\<forall>p \<in> F. foreign tg (ob_id (frch_obstack fc)) p))"

definition xom_room :: "target \<Rightarrow> entry list \<Rightarrow> bool" where
  "xom_room tg acc \<longleftrightarrow> (\<forall>(p, sz, nm) \<in> set acc. name_fits tg nm)"

lemma emit_entry_step:
  assumes held: "xom_held tg FR F n b0 acc g" and p: "p \<in> F" and room: "xom_room tg (acc @ [(p, sz, nm)])"
  shows "\<exists>g'. emit_entry tg p sz nm g = Inr g' \<and> xom_held tg FR F n b0 (acc @ [(p, sz, nm)]) g'
    \<and> (\<forall>q \<in> F. frags g' q = frags g q) \<and> (\<forall>s < n. syms g' s = syms g s)"
proof -
  obtain fc ids where H: "content_inv tg g fc ids (b0 @ xom_bytes FR acc)" "\<forall>p \<in> F. foreign tg (ob_id (frch_obstack fc)) p"
    "target_ok tg" "now_seg g = xom_section" "mri_common_symbol g = None" "\<forall>p \<in> F. frags g p = FR p"
    using held by (auto simp: xom_held_def)
  let ?m = "entry_of (frags g p) sz nm"
  let ?xs = "enc_metedata ?m @ nm @ [0]"
  have nm: "name_fits tg nm" using room by (simp add: xom_room_def)
  have n: "unat (m_symbol_size ?m) = Suc (length nm)" "request_ok tg (length ?xs)"
    using nm take_name [of nm] request_mono [of tg "29 + length nm" "length ?xs"]
    by (simp_all add: name_fits_def entry_of_def del: of_nat_add of_nat_Suc)
  have e: "emit_entry tg p sz nm g = put tg ?xs g"
    using H(4) n(1) by (simp add: emit_entry_def write_metedata_def put_def gas_assert_def poke_list_append)
  obtain g' fc' ids' where P: "put tg ?xs g = Inr g'" "content_inv tg g' fc' ids' ((b0 @ xom_bytes FR acc) @ ?xs)"
    "quiet g fc ids g' fc' ids'"
    using put_content [OF H(1,3) n(2) H(5)] by blast
  have ob: "ob_id (frch_obstack fc') = ob_id (frch_obstack fc)" using P(3) by (simp add: quiet_defs)
  then have F': "\<forall>q \<in> F. frags g' q = frags g q"
    using held_foreign [OF P(2)] H(2) P(3) by (auto simp: quiet_defs)
  have "content_inv tg g' fc' ids' (b0 @ xom_bytes FR (acc @ [(p, sz, nm)]))"
    using P(2) H(6) p by (simp add: xom_bytes_def)
  then have "xom_held tg FR F n b0 (acc @ [(p, sz, nm)]) g'"
    using H F' ob P(3) unfolding xom_held_def by (auto simp: quiet_defs)
  then show ?thesis using e P(1,3) F' by (auto simp: quiet_def)
qed

interpretation xom: entry_sink "emit_entry tg" "xom_held tg FR F n b0" "xom_room tg" F n
  for tg FR F n b0
  by unfold_locales (rule emit_entry_step, assumption+, auto simp: xom_room_def)

section \<open>Properties\<close>

text \<open>C29: The counting loop ends and, of the counters of a file, changes only the one of code that is
  reached by falling through: it counts the frags of instructions with hard-coded octets that have a
  label and were not checked off.  The counters of direct code and direct data are never changed,
  because the test for a missing label guards the code that looks at the label
  (\<open>src/gas/write.c\<close>, \<open>parse_frags\<close> and \<open>parse_frags_for_test\<close>).\<close>

theorem counting_loop_effect:
  assumes "chain (frag_next g) f ids"
  shows "\<exists>k g'. stat_loop inc f 0 g = Some (k, g')
    \<and> k = sum_list (map (\<lambda>p. inc (frags g p)) (filter (\<lambda>p. frag_has_hardcode (frags g p)) ids))
    \<and> direct_code_num g' = direct_code_num g \<and> direct_data_num g' = direct_data_num g
    \<and> fall_through_num g' = fall_through_num g + word_of_nat (length (filter (\<lambda>p. falls_through (frags g p)) ids))"
  using stat_loop_counts [OF assms, of inc 0] by simp

theorem counting_loop_effect_witness:
  "\<exists>k g'. stat_loop (\<lambda>_. 1) (Some 5) 0 (boot_gas\<lparr>frags := (\<lambda>_. zero_frag\<lparr>frag_has_hardcode := True\<rparr>)\<rparr>) = Some (k, g') \<and> k = 1"
proof -
  let ?g = "boot_gas\<lparr>frags := (\<lambda>_. zero_frag\<lparr>frag_has_hardcode := True\<rparr>)\<rparr>"
  have "chain (frag_next ?g) (Some 5) [5]" by (simp add: frag_next_def zero_frag_def)
  from counting_loop_effect [OF this, of "\<lambda>_. 1"] show ?thesis by auto
qed

end
