(* ===== verification/Datadump.thy ===== *)
theory Datadump
  imports Codec
begin

text \<open>
  The reader of the collected metadata (\<open>src/datadump/datadump.c\<close>): \<open>parse_xom\<close> walks over the section
  and logs headers and entries, \<open>main\<close> parses the options and finds the section in a 64-bit ELF file.
  The file is a list of octets, mapped with its last page padded with zeros; a read outside the
  mapping is \<open>Out_of_bounds\<close>.  \<open>uint64_t\<close> positions are natural numbers with the wrap-around written
  out, the 32-bit counters are words.
\<close>

section \<open>The log\<close>

datatype log_event =
    Header_entry header_fixed "byte list" meta_header_fixed
  | Meta_entry u32 meta_fixed "byte list"
  | Err_header_short
  | Err_name_bounds u32
  | Err_meta_header_short
  | Warn_meta_short nat
  | Err_symbol_bounds u32 u32

record dump_st =
  d_offset :: nat
  entry_count :: u32
  embeded_data_size :: u64
  data_block :: u32
  total_hardcode_size :: u32
  total_hardcode_block :: u32
  total_direct_code_num :: u32
  total_direct_data_num :: u32
  total_fall_through_num :: u32
  d_log :: "log_event list"

definition dump_init :: dump_st where
  "dump_init = \<lparr>d_offset = 0, entry_count = 0, embeded_data_size = 0, data_block = 0, total_hardcode_size = 0,
     total_hardcode_block = 0, total_direct_code_num = 0, total_direct_data_num = 0,
     total_fall_through_num = 0, d_log = []\<rparr>"

definition log_ev :: "log_event \<Rightarrow> dump_st \<Rightarrow> dump_st" where
  "log_ev e st = st\<lparr>d_log := d_log st @ [e]\<rparr>"

text \<open>One round of the loop: it goes on, it leaves the loop, or it reads outside the mapping.\<close>

datatype dump_step = Go_on dump_st | Break dump_st | Out_of_bounds

definition u64_add :: "nat \<Rightarrow> nat \<Rightarrow> nat" where
  "u64_add a b = (a + b) mod 2 ^ 64"

definition u64_sub :: "nat \<Rightarrow> nat \<Rightarrow> nat" where
  "u64_sub a b = (a + 2 ^ 64 - b) mod 2 ^ 64"

text \<open>Reading \<open>n\<close> octets of a name at \<open>off\<close>: only the first 255 are touched.\<close>

definition rd_name :: "byte list \<Rightarrow> nat \<Rightarrow> nat \<Rightarrow> byte list option" where
  "rd_name mem off n = rd mem off (if n < 255 then n else 255)"

definition count_header :: "meta_header_fixed \<Rightarrow> dump_st \<Rightarrow> dump_st" where
  "count_header m st = st\<lparr>total_hardcode_size := total_hardcode_size st + hardcoded_bytes_per_file m,
     total_hardcode_block := total_hardcode_block st + bytes_frag_num m,
     total_direct_code_num := total_direct_code_num st + mh_direct_code_num m,
     total_direct_data_num := total_direct_data_num st + mh_direct_data_num m,
     total_fall_through_num := total_fall_through_num st + mh_fall_through_num m\<rparr>"

text \<open>The header branch behind the magic: the counters are read where the name ends.\<close>

definition parse_counters :: "byte list \<Rightarrow> nat \<Rightarrow> header_fixed \<Rightarrow> byte list \<Rightarrow> dump_st \<Rightarrow> dump_step" where
  "parse_counters mem data_len hdr name st =
     (if u64_sub data_len (d_offset st) < 20 then Break (log_ev Err_meta_header_short st)
      else (case rd mem (d_offset st) 20 of None \<Rightarrow> Out_of_bounds
        | Some bs \<Rightarrow> (let m = dec_meta_header bs
                      in Go_on (count_header m (log_ev (Header_entry hdr name m)
                           (st\<lparr>d_offset := u64_add (d_offset st) 20\<rparr>))))))"

definition parse_header :: "byte list \<Rightarrow> nat \<Rightarrow> dump_st \<Rightarrow> dump_step" where
  "parse_header mem data_len st =
     (if u64_sub data_len (d_offset st) < 8 then Break (log_ev Err_header_short st)
      else (case rd mem (d_offset st) 8 of None \<Rightarrow> Out_of_bounds
        | Some bs \<Rightarrow>
            (let hdr = dec_header bs;
                 off = u64_add (d_offset st) 8;
                 n = unat (name_size hdr) in
             if n > 0 then
               (if u64_add off n > data_len then Break (log_ev (Err_name_bounds (name_size hdr)) (st\<lparr>d_offset := off\<rparr>))
                else (case rd_name mem off n of None \<Rightarrow> Out_of_bounds
                  | Some nm \<Rightarrow> parse_counters mem data_len hdr (cstr nm) (st\<lparr>d_offset := u64_add off n\<rparr>)))
             else parse_counters mem data_len hdr [] (st\<lparr>d_offset := off\<rparr>))))"

text \<open>The entry branch; ''null'' is the name the assembler gives to data without a label.\<close>

definition NULL_NAME :: "byte list" where
  "NULL_NAME = [0x6e, 0x75, 0x6c, 0x6c]"

definition count_entry :: "meta_fixed \<Rightarrow> byte list \<Rightarrow> dump_st \<Rightarrow> dump_st" where
  "count_entry m name st =
     (let st1 = st\<lparr>entry_count := entry_count st + 1, embeded_data_size := embeded_data_size st + ucast (m_size m)\<rparr>
      in if m_size m \<noteq> 0 \<and> name \<noteq> NULL_NAME then st1\<lparr>data_block := data_block st1 + 1\<rparr> else st1)"

definition finish_entry :: "meta_fixed \<Rightarrow> byte list \<Rightarrow> dump_st \<Rightarrow> dump_step" where
  "finish_entry m name st = Go_on (count_entry m name (log_ev (Meta_entry (entry_count st) m name) st))"

definition parse_entry :: "byte list \<Rightarrow> nat \<Rightarrow> dump_st \<Rightarrow> dump_step" where
  "parse_entry mem data_len st =
     (if u64_add (d_offset st) 24 > data_len
      then Break (log_ev (Warn_meta_short (u64_sub data_len (d_offset st))) st)
      else (case rd mem (d_offset st) 24 of None \<Rightarrow> Out_of_bounds
        | Some bs \<Rightarrow>
            (let m = dec_meta bs;
                 off = u64_add (d_offset st) 24;
                 n = unat (m_symbol_size m) in
             if n > 0 then
               (if u64_add off n > data_len
                then Break (log_ev (Err_symbol_bounds (entry_count st) (m_symbol_size m)) (st\<lparr>d_offset := off\<rparr>))
                else (case rd_name mem off n of None \<Rightarrow> Out_of_bounds
                  | Some nm \<Rightarrow> finish_entry m (cstr nm) (st\<lparr>d_offset := u64_add off n\<rparr>)))
             else finish_entry m [] (st\<lparr>d_offset := off\<rparr>))))"

definition parse_step :: "byte list \<Rightarrow> nat \<Rightarrow> dump_st \<Rightarrow> dump_step" where
  "parse_step mem data_len st =
     (if u64_sub data_len (d_offset st) < 4 then Break st
      else (case rd mem (d_offset st) 4 of None \<Rightarrow> Out_of_bounds
        | Some bs \<Rightarrow> if get32 bs = MAGIC then parse_header mem data_len st else parse_entry mem data_len st))"

partial_function (option) parse_loop :: "byte list \<Rightarrow> nat \<Rightarrow> dump_st \<Rightarrow> dump_st option option" where
  [code]: "parse_loop mem data_len st =
     (if d_offset st < data_len then
        (case parse_step mem data_len st of
           Go_on st' \<Rightarrow> parse_loop mem data_len st'
         | Break st' \<Rightarrow> Some (Some st')
         | Out_of_bounds \<Rightarrow> Some None)
      else Some (Some st))"

text \<open>\<open>parse_xom\<close> up to the printing: the log and the table of counts.  The outer option is whether the
  loop ends, the inner one whether all reads stay in the mapping.\<close>

record dump_table =
  t_data_block :: u32
  t_data_size :: u64
  t_code_block :: u32
  t_indirect_code :: u32
  t_indirect_data :: u32

definition dump_totals :: "dump_st \<Rightarrow> dump_table" where
  "dump_totals st =
     (let total_code_block = total_hardcode_block st - data_block st
      in \<lparr>t_data_block = data_block st, t_data_size = embeded_data_size st, t_code_block = total_code_block,
          t_indirect_code = total_code_block - total_direct_code_num st - total_fall_through_num st,
          t_indirect_data = data_block st - total_direct_data_num st\<rparr>)"

definition parse_xom :: "byte list \<Rightarrow> nat \<Rightarrow> (log_event list \<times> dump_table) option option" where
  "parse_xom mem data_len =
     map_option (map_option (\<lambda>st. (d_log st, dump_totals st))) (parse_loop mem data_len dump_init)"

section \<open>Options\<close>

type_synonym cstring = "byte list"

record dump_opts =
  elf_path :: "cstring option"
  section_name :: cstring
  ldlog_path :: cstring
  asonly :: cstring

definition str :: "string \<Rightarrow> cstring" where
  "str s = map of_char s"

definition dump_opts0 :: dump_opts where
  "dump_opts0 = \<lparr>elf_path = None, section_name = str ''.my_section'', ldlog_path = str ''xom_parse.log'',
     asonly = str ''no''\<rparr>"

fun parse_args :: "cstring list \<Rightarrow> dump_opts \<Rightarrow> dump_opts" where
  "parse_args [] o1 = o1"
| "parse_args (a # as) o1 =
     (if a = str ''--section'' \<and> as \<noteq> [] then parse_args (tl as) (o1\<lparr>section_name := hd as\<rparr>)
      else if a = str ''--ldlog'' \<and> as \<noteq> [] then parse_args (tl as) (o1\<lparr>ldlog_path := hd as\<rparr>)
      else if a = str ''--asonly'' \<and> as \<noteq> [] then parse_args (tl as) (o1\<lparr>asonly := hd as\<rparr>)
      else if a = [] \<or> hd a \<noteq> of_char (CHR ''-'') then parse_args as (o1\<lparr>elf_path := Some a\<rparr>)
      else parse_args as o1)"

section \<open>Finding the section\<close>

definition map_file :: "byte list \<Rightarrow> byte list" where
  "map_file bs = bs @ replicate ((4096 - length bs mod 4096) mod 4096) 0"

definition get16 :: "byte list \<Rightarrow> u16" where
  "get16 bs = word_of_nat (le_nat (take 2 bs))"

record elf_shdr =
  sh_name :: u32
  sh_flags :: u64
  sh_offset :: u64
  sh_size :: u64

definition dec_shdr :: "byte list \<Rightarrow> elf_shdr" where
  "dec_shdr bs = \<lparr>sh_name = get32 bs, sh_flags = get64 (drop 8 bs), sh_offset = get64 (drop 24 bs),
     sh_size = get64 (drop 32 bs)\<rparr>"

definition read_shdr :: "byte list \<Rightarrow> nat \<Rightarrow> nat \<Rightarrow> elf_shdr option" where
  "read_shdr mem e_shoff i = map_option dec_shdr (rd mem (e_shoff + 64 * i) 64)"

text \<open>\<open>strcmp\<close> reads up to the first difference or the terminating NUL.\<close>

fun strcmp_at :: "byte list \<Rightarrow> nat \<Rightarrow> cstring \<Rightarrow> bool option" where
  "strcmp_at mem off s = (case rd mem off 1 of None \<Rightarrow> None
     | Some bs \<Rightarrow> (case s of
         [] \<Rightarrow> Some (hd bs = 0)
       | c # cs \<Rightarrow> if hd bs \<noteq> c then Some False else strcmp_at mem (off + 1) cs))"

record elf_scan =
  total_exec_size :: u64
  target_section :: "(nat \<times> nat) option"

definition SHF_EXECINSTR :: u64 where
  "SHF_EXECINSTR = 4"

fun scan_sections :: "byte list \<Rightarrow> nat \<Rightarrow> nat \<Rightarrow> cstring \<Rightarrow> nat list \<Rightarrow> elf_scan \<Rightarrow> elf_scan option" where
  "scan_sections mem shoff strtab secname [] sc = Some sc"
| "scan_sections mem shoff strtab secname (i # is) sc =
     (case read_shdr mem shoff i of None \<Rightarrow> None
      | Some sh \<Rightarrow>
          (let sc1 = (if sh_flags sh AND SHF_EXECINSTR \<noteq> 0
                      then sc\<lparr>total_exec_size := total_exec_size sc + sh_size sh\<rparr> else sc) in
           case strcmp_at mem (strtab + unat (sh_name sh)) secname of
             None \<Rightarrow> None
           | Some b \<Rightarrow> scan_sections mem shoff strtab secname is
               (if b then sc1\<lparr>target_section := Some (unat (sh_offset sh), unat (sh_size sh))\<rparr> else sc1)))"

datatype dump_exit =
    Exit_usage
  | Exit_no_elf_path
  | Exit_open_error
  | Skip_not_elf
  | Exit_not_64bit
  | Section_not_found
  | Log_open_error
  | Parsed "log_event list" dump_table u64
  | Fault

definition ELFMAG :: "byte list" where
  "ELFMAG = [0x7f, 0x45, 0x4c, 0x46]"

text \<open>From the opened file to the end of the run, with \<open>log_ok\<close> whether the log can be opened for writing; \<^term>\<open>None\<close> would be an endless loop.\<close>

definition dump_file :: "bool \<Rightarrow> cstring \<Rightarrow> byte list \<Rightarrow> dump_exit option" where
  "dump_file log_ok secname contents =
     (let mem = map_file contents in
      if contents = [] then Some Exit_open_error
      else if rd mem 0 4 \<noteq> Some ELFMAG then Some Skip_not_elf
      else if rd mem 4 1 \<noteq> Some [2] then Some Exit_not_64bit
      else (case (rd mem 40 8, rd mem 60 2, rd mem 62 2) of
              (Some so, Some sn, Some sx) \<Rightarrow>
                (let shoff = unat (get64 so) in
                 case read_shdr mem shoff (unat (get16 sx)) of None \<Rightarrow> Some Fault
                 | Some st \<Rightarrow>
                     (case scan_sections mem shoff (unat (sh_offset st)) secname [0..<unat (get16 sn)]
                             \<lparr>total_exec_size = 0, target_section = None\<rparr> of
                        None \<Rightarrow> Some Fault
                      | Some sc \<Rightarrow> (case target_section sc of
                          None \<Rightarrow> Some Section_not_found
                        | Some (off, n) \<Rightarrow>
                            if \<not> log_ok then Some Log_open_error else
                            (case parse_xom (drop off mem) n of
                               None \<Rightarrow> None
                             | Some None \<Rightarrow> Some Fault
                             | Some (Some (l, t)) \<Rightarrow> Some (Parsed l t (total_exec_size sc))))))
            | _ \<Rightarrow> Some Fault))"

definition dump_main ::
  "(cstring \<Rightarrow> byte list option) \<Rightarrow> (cstring \<Rightarrow> bool) \<Rightarrow> cstring list \<Rightarrow> dump_exit option" where
  "dump_main fs writable argv =
     (if length argv < 2 then Some Exit_usage
      else (let opts = parse_args (tl argv) dump_opts0 in
            case elf_path opts of None \<Rightarrow> Some Exit_no_elf_path
            | Some p \<Rightarrow> (case fs p of None \<Rightarrow> Some Exit_open_error
                | Some contents \<Rightarrow> dump_file (writable (ldlog_path opts)) (section_name opts) contents)))"

section \<open>Every read stays in the section\<close>

lemma u64_add_id [simp]: "a + b < 2 ^ 64 \<Longrightarrow> u64_add a b = a + b"
  unfolding u64_add_def by (rule mod_less)

lemma u64_sub_id [simp]:
  assumes "b \<le> a" and "a < 2 ^ 64"
  shows "u64_sub a b = a - b"
proof -
  have e: "a + 2 ^ 64 - b = (a - b) + 2 ^ 64" using assms(1) by (rule Nat.diff_add_assoc2 [THEN trans]) (rule refl)
  have "a - b < 2 ^ 64" using assms by linarith
  then show ?thesis unfolding u64_sub_def e by (simp only: mod_add_self2 mod_less)
qed

lemma u32_lt: "unat (w :: u32) < 2 ^ 32"
  using unat_lt [of w] by (rule less_le_trans) simp

definition len_ok :: "byte list \<Rightarrow> nat \<Rightarrow> bool" where
  "len_ok mem data_len \<longleftrightarrow> data_len \<le> length mem \<and> data_len < 2 ^ 63"

definition progress :: "nat \<Rightarrow> nat \<Rightarrow> dump_step \<Rightarrow> bool" where
  "progress data_len k r \<longleftrightarrow> (case r of Out_of_bounds \<Rightarrow> False | Break _ \<Rightarrow> True
     | Go_on st' \<Rightarrow> k < d_offset st' \<and> d_offset st' \<le> data_len)"

lemma u64_steps:
  assumes "len_ok mem data_len" and "k \<le> data_len" and "n < 2 ^ 33"
  shows "u64_add k n = k + n" and "u64_sub data_len k = data_len - k"
proof -
  have "k + n < 2 ^ 63 + 2 ^ 33" using assms by (simp add: len_ok_def)
  then show "u64_add k n = k + n" by (intro u64_add_id) simp
  show "u64_sub data_len k = data_len - k" using assms by (intro u64_sub_id) (simp_all add: len_ok_def)
qed

lemma rd_inside:
  assumes "len_ok mem data_len" and "k + n \<le> data_len"
  shows "rd mem k n = Some (take n (drop k mem))"
  using assms by (simp add: rd_def len_ok_def)

lemma rd_name_inside:
  assumes "len_ok mem data_len" and "k + n \<le> data_len"
  shows "rd_name mem k n = Some (take (if n < 255 then n else 255) (drop k mem))"
  unfolding rd_name_def using assms by (intro rd_inside [OF assms(1)]) (simp split: if_splits)

lemma offset_ops [simp]:
  "d_offset (log_ev e st) = d_offset st" "d_offset (count_header m st) = d_offset st"
  "d_offset (count_entry en nm st) = d_offset st"
  by (simp_all add: log_ev_def count_header_def count_entry_def Let_def)

text \<open>Below the bound the rounds are these, with exact arithmetic and without failing reads.\<close>

lemma parse_counters_exact:
  assumes "len_ok mem data_len" and "d_offset st \<le> data_len"
  shows "parse_counters mem data_len hdr name st =
    (if data_len < d_offset st + 20 then Break (log_ev Err_meta_header_short st)
     else (let m = dec_meta_header (take 20 (drop (d_offset st) mem))
           in Go_on (count_header m (log_ev (Header_entry hdr name m) (st\<lparr>d_offset := d_offset st + 20\<rparr>)))))"
  using assms u64_steps [OF assms, of 20] rd_inside [OF assms(1), of "d_offset st" 20]
  by (auto simp: parse_counters_def Let_def)

lemma parse_header_progress:
  assumes len: "len_ok mem data_len" and off: "d_offset st < data_len"
  shows "progress data_len (d_offset st) (parse_header mem data_len st)"
proof (cases "data_len < d_offset st + 8")
  case True
  then have "data_len - d_offset st < 8" by linarith
  then show ?thesis using u64_steps [OF len, of "d_offset st" 8] off
    by (simp add: parse_header_def progress_def)
next
  case False
  define hdr where "hdr = dec_header (take 8 (drop (d_offset st) mem))"
  define n where "n = unat (name_size hdr)"
  have n: "n < 2 ^ 33" using u32_lt [of "name_size hdr"] by (simp add: n_def)
  have s: "u64_add (d_offset st) 8 = d_offset st + 8" "u64_sub data_len (d_offset st) = data_len - d_offset st"
    using u64_steps [OF len, of "d_offset st" 8] off by simp_all
  have s2: "u64_add (d_offset st + 8) n = d_offset st + 8 + n"
    using u64_steps(1) [OF len, of "d_offset st + 8" n] False n by simp
  have r: "rd mem (d_offset st) 8 = Some (take 8 (drop (d_offset st) mem))"
    using rd_inside [OF len] False by simp
  have nm: "d_offset st + 8 + n \<le> data_len \<Longrightarrow> \<exists>y. rd_name mem (d_offset st + 8) n = Some y"
    using rd_name_inside [OF len] by blast
  have pc: "d_offset st < d_offset st' \<Longrightarrow> d_offset st' \<le> data_len \<Longrightarrow>
      progress data_len (d_offset st) (parse_counters mem data_len hdr name st')" for st' name
    by (simp add: parse_counters_exact [OF len] progress_def Let_def)
  show ?thesis
    using False s s2 r nm
    by (auto simp: parse_header_def Let_def progress_def [of _ _ "Break _"] hdr_def [symmetric] n_def [symmetric]
        intro!: pc)
qed

lemma parse_entry_progress:
  assumes len: "len_ok mem data_len" and off: "d_offset st < data_len"
  shows "progress data_len (d_offset st) (parse_entry mem data_len st)"
proof (cases "data_len < d_offset st + 24")
  case True
  then show ?thesis using u64_steps [OF len, of "d_offset st" 24] off
    by (simp add: parse_entry_def progress_def)
next
  case False
  define e where "e = dec_meta (take 24 (drop (d_offset st) mem))"
  define n where "n = unat (m_symbol_size e)"
  have n: "n < 2 ^ 33" using u32_lt [of "m_symbol_size e"] by (simp add: n_def)
  have s: "u64_add (d_offset st) 24 = d_offset st + 24"
    using u64_steps [OF len, of "d_offset st" 24] off by simp
  have s2: "u64_add (d_offset st + 24) n = d_offset st + 24 + n"
    using u64_steps(1) [OF len, of "d_offset st + 24" n] False n by simp
  have r: "rd mem (d_offset st) 24 = Some (take 24 (drop (d_offset st) mem))"
    using rd_inside [OF len] False by simp
  have nm: "d_offset st + 24 + n \<le> data_len \<Longrightarrow> \<exists>y. rd_name mem (d_offset st + 24) n = Some y"
    using rd_name_inside [OF len] by blast
  show ?thesis
    using False s s2 r nm
    by (auto simp: parse_entry_def Let_def progress_def finish_entry_def e_def [symmetric] n_def [symmetric])
qed

lemma parse_step_progress:
  assumes len: "len_ok mem data_len" and off: "d_offset st < data_len"
  shows "progress data_len (d_offset st) (parse_step mem data_len st)"
  using assms parse_header_progress [OF assms] parse_entry_progress [OF assms]
    u64_steps(2) [OF len, of "d_offset st" 0] rd_inside [OF len, of "d_offset st" 4]
  by (simp add: parse_step_def progress_def [of _ _ "Break _"])

lemma parse_loop_total:
  assumes "len_ok mem data_len" and "d_offset st \<le> data_len"
  shows "\<exists>st'. parse_loop mem data_len st = Some (Some st')"
  using assms(2)
proof (induction "data_len - d_offset st" arbitrary: st rule: less_induct)
  case less
  show ?case
  proof (cases "d_offset st < data_len")
    case True
    show ?thesis
    proof (cases "parse_step mem data_len st")
      case (Go_on st')
      then have "d_offset st < d_offset st'" "d_offset st' \<le> data_len"
        using parse_step_progress [OF assms(1) True] by (simp_all add: progress_def)
      then show ?thesis using less.hyps [of st'] True Go_on
        by (subst parse_loop.simps) simp
    next
      case (Break st')
      then show ?thesis using True by (subst parse_loop.simps) simp
    next
      case Out_of_bounds
      then show ?thesis using parse_step_progress [OF assms(1) True] by (simp add: progress_def)
    qed
  qed (subst parse_loop.simps, simp)
qed

text \<open>C19: \<open>parse_xom\<close> ends on every section shorter than \<open>2 ^ 63\<close> octets, whatever it holds, and reads no
  octet outside the section (\<open>src/datadump/datadump.c\<close>, \<open>parse_xom\<close>).\<close>

theorem parse_xom_total:
  assumes "length bs < 2 ^ 63"
  shows "\<exists>lg t. parse_xom bs (length bs) = Some (Some (lg, t))"
proof -
  have "\<exists>st. parse_loop bs (length bs) dump_init = Some (Some st)"
    using assms by (intro parse_loop_total) (simp_all add: len_ok_def dump_init_def)
  then show ?thesis by (auto simp: parse_xom_def)
qed

theorem parse_xom_total_witness:
  "\<exists>lg t. parse_xom [0x78, 0x6f, 0x6d, 0, 9, 0, 0, 0, 1] (length [0x78, 0x6f, 0x6d, 0, 9, 0, 0, 0, 1 :: byte]) = Some (Some (lg, t))"
  by (rule parse_xom_total) simp

section \<open>Reading back what the assembler writes\<close>

text \<open>What the assembler puts into the section: a header per file with its counters, and entries.  The
  name is stored with its terminating NUL.\<close>

datatype xom_item =
    File_header "byte list" meta_header_fixed
  | Data_entry meta_fixed "byte list"

definition name_len :: "byte list \<Rightarrow> u32" where
  "name_len nm = word_of_nat (length nm + 1)"

definition with_name :: "meta_fixed \<Rightarrow> byte list \<Rightarrow> meta_fixed" where
  "with_name e nm = e\<lparr>m_symbol_size := name_len nm\<rparr>"

definition hdr_of :: "byte list \<Rightarrow> header_fixed" where
  "hdr_of nm = \<lparr>h_magic = MAGIC, name_size = name_len nm\<rparr>"

fun enc_item :: "xom_item \<Rightarrow> byte list" where
  "enc_item (File_header nm m) = enc_header (hdr_of nm) @ nm @ [0] @ enc_meta_header m"
| "enc_item (Data_entry e nm) = enc_meta (with_name e nm) @ nm @ [0]"

definition enc_items :: "xom_item list \<Rightarrow> byte list" where
  "enc_items its = concat (map enc_item its)"

definition name_ok :: "byte list \<Rightarrow> bool" where
  "name_ok nm \<longleftrightarrow> 0 \<notin> set nm \<and> length nm + 1 < 2 ^ 32"

text \<open>An entry can be told from a header unless the low half of its address is the magic number.\<close>

fun item_ok :: "xom_item \<Rightarrow> bool" where
  "item_ok (File_header nm m) \<longleftrightarrow> name_ok nm"
| "item_ok (Data_entry e nm) \<longleftrightarrow> name_ok nm \<and> ucast (m_address e) \<noteq> MAGIC"

fun apply_item :: "xom_item \<Rightarrow> dump_st \<Rightarrow> dump_st" where
  "apply_item (File_header nm m) st = count_header m (log_ev (Header_entry (hdr_of nm) (take 255 nm) m) st)"
| "apply_item (Data_entry e nm) st = count_entry (with_name e nm) (take 255 nm)
     (log_ev (Meta_entry (entry_count st) (with_name e nm) (take 255 nm)) st)"

definition advance :: "nat \<Rightarrow> dump_st \<Rightarrow> dump_st" where
  "advance n st = st\<lparr>d_offset := d_offset st + n\<rparr>"

lemma unat_name_len: "name_ok nm \<Longrightarrow> unat (name_len nm) = length nm + 1"
  by (simp add: name_len_def name_ok_def unat_of_nat take_bit_nat_eq_self del: of_nat_add of_nat_Suc)

lemma cstr_take_name:
  assumes "0 \<notin> set nm"
  shows "cstr (take (if Suc (length nm) < 255 then Suc (length nm) else 255) (nm @ 0 # rest)) = take 255 nm"
proof (cases "length nm < 255")
  case True
  then show ?thesis using assms by (cases "255 - length nm") simp_all
next
  case False
  have "0 \<notin> set (take 255 nm)" using assms by (meson in_set_takeD)
  then have "cstr (take 255 nm) = take 255 nm" unfolding cstr_def by (subst takeWhile_eq_all_conv) metis
  then show ?thesis using False by simp
qed

lemma rd_prefix: "k = length pre \<Longrightarrow> n = length x \<Longrightarrow> rd (pre @ x @ rest) k n = Some x"
  by (simp add: rd_def)

lemma rd_name_item:
  assumes "name_ok nm" and "k = length pre"
  shows "map_option cstr (rd_name (pre @ nm @ 0 # rest) k (Suc (length nm))) = Some (take 255 nm)"
  using assms cstr_take_name [of nm rest]
  by (simp add: rd_name_def rd_def name_ok_def)

lemma get32_header: "get32 (take 4 (enc_header h @ rest)) = h_magic h"
  by (simp add: enc_header_def c32.dec_enc_exact c32.length_enc)

lemma get32_le64: "get32 (take 4 (le64 a)) = (ucast a :: u32)"
proof -
  have "take 4 (le64 a) = le_chars 4 a" by (simp add: le64_def)
  then have "get32 (take 4 (le64 a)) = word_of_nat (unat a mod 2 ^ 32)"
    by (simp add: get32_def le_nat_le_chars del: le_chars_numeral)
  also have "\<dots> = ucast a"
  proof (rule bit_word_eqI)
    fix n
    assume "n < LENGTH(32)"
    moreover have "unat a mod 2 ^ 32 = take_bit 32 (unat a)" by (simp add: take_bit_eq_mod)
    ultimately show "bit (word_of_nat (unat a mod 2 ^ 32) :: u32) n = bit (ucast a :: u32) n"
      by (simp add: bit_simps bit_take_bit_iff bit_unsigned_iff)
  qed
  finally show ?thesis .
qed

lemma get32_meta: "get32 (take 4 (enc_meta e @ rest)) = ucast (m_address e)"
  using get32_le64 [of "m_address e"] by (simp add: enc_meta_def c64.length_enc)

lemma len_okI: "length mem < 2 ^ 63 \<Longrightarrow> len_ok mem (length mem)"
  by (simp add: len_ok_def)

lemma parse_header_item:
  assumes mem: "mem = pre @ enc_item (File_header nm m) @ rest" and len: "length mem < 2 ^ 63"
    and off: "d_offset st = length pre" and nm: "name_ok nm"
  shows "parse_step mem (length mem) st =
    Go_on (apply_item (File_header nm m) (advance (length (enc_item (File_header nm m))) st))"
proof -
  note ok = len_okI [OF len]
  define k where "k = length pre"
  have L: "length mem = k + 8 + Suc (length nm) + 20 + length rest"
    by (simp add: mem k_def chdr.length_enc cmh.length_enc)
  have a: "u64_sub (length mem) k = length mem - k" "u64_add k 8 = k + 8"
      "u64_add (k + 8) (Suc (length nm)) = k + 8 + Suc (length nm)"
    using u64_steps [OF ok, of k 8] u64_steps(1) [OF ok, of "k + 8" "Suc (length nm)"] nm L
    by (simp_all add: name_ok_def)
  have ge: "\<not> length mem - k < 4" using L by linarith
  have d: "drop k mem = enc_header (hdr_of nm) @ nm @ 0 # enc_meta_header m @ rest"
    by (simp add: mem k_def)
  have r4: "rd mem k 4 = Some (take 4 (enc_header (hdr_of nm)))"
    using rd_inside [OF ok, of k 4] L by (simp add: d chdr.length_enc)
  have r8: "rd mem k 8 = Some (enc_header (hdr_of nm))"
    using rd_inside [OF ok, of k 8] L by (simp add: d chdr.length_enc)
  have m4: "get32 (take 4 (enc_header (hdr_of nm))) = MAGIC"
    using get32_header [of "hdr_of nm" "[]"] by (simp add: hdr_of_def)
  obtain y where y: "rd_name mem (k + 8) (Suc (length nm)) = Some y" "cstr y = take 255 nm"
    using rd_name_item [OF nm, of "k + 8" "pre @ enc_header (hdr_of nm)" "enc_meta_header m @ rest"]
    by (auto simp: mem k_def chdr.length_enc)
  have m20: "dec_meta_header (take 20 (drop (k + 8 + Suc (length nm)) mem)) = m"
    by (simp add: mem k_def chdr.length_enc cmh.length_enc cmh.dec_enc_exact)
  have s: "unat (name_size (hdr_of nm)) = Suc (length nm)"
    using unat_name_len [OF nm] by (simp add: hdr_of_def)
  have "parse_step mem (length mem) st = parse_header mem (length mem) st"
    using ge by (simp add: parse_step_def off [folded k_def] a r4 m4)
  also have "\<dots> = parse_counters mem (length mem) (hdr_of nm) (take 255 nm)
      (st\<lparr>d_offset := k + 8 + Suc (length nm)\<rparr>)"
    using L a y by (simp add: parse_header_def off [folded k_def] r8 chdr.dec_enc_exact s Let_def)
  also have "\<dots> = Go_on (apply_item (File_header nm m) (advance (length (enc_item (File_header nm m))) st))"
  proof -
    let ?st = "st\<lparr>d_offset := k + 8 + Suc (length nm)\<rparr>"
    have "d_offset ?st \<le> length mem" "\<not> length mem < d_offset ?st + 20" unfolding L by simp_all
    then show ?thesis
      by (simp only: parse_counters_exact [OF ok] Let_def if_False)
        (use m20 in \<open>simp add: advance_def off [folded k_def] chdr.length_enc cmh.length_enc ac_simps\<close>)
  qed
  finally show ?thesis .
qed

lemma parse_entry_item:
  assumes mem: "mem = pre @ enc_item (Data_entry e nm) @ rest" and len: "length mem < 2 ^ 63"
    and off: "d_offset st = length pre" and nm: "name_ok nm" and adr: "ucast (m_address e) \<noteq> MAGIC"
  shows "parse_step mem (length mem) st =
    Go_on (apply_item (Data_entry e nm) (advance (length (enc_item (Data_entry e nm))) st))"
proof -
  note ok = len_okI [OF len]
  define k where "k = length pre"
  have L: "length mem = k + 24 + Suc (length nm) + length rest"
    by (simp add: mem k_def cmeta.length_enc)
  have a: "u64_sub (length mem) k = length mem - k" "u64_add k 24 = k + 24"
      "u64_add (k + 24) (Suc (length nm)) = k + 24 + Suc (length nm)"
    using u64_steps [OF ok, of k 24] u64_steps(1) [OF ok, of "k + 24" "Suc (length nm)"] nm L
    by (simp_all add: name_ok_def)
  have ge: "\<not> length mem - k < 4" using L by linarith
  have d: "drop k mem = enc_meta (with_name e nm) @ nm @ 0 # rest"
    by (simp add: mem k_def)
  have r4: "rd mem k 4 = Some (take 4 (enc_meta (with_name e nm)))"
    using rd_inside [OF ok, of k 4] L by (simp add: d cmeta.length_enc)
  have r24: "rd mem k 24 = Some (enc_meta (with_name e nm))"
    using rd_inside [OF ok, of k 24] L by (simp add: d cmeta.length_enc)
  have m4: "get32 (take 4 (enc_meta (with_name e nm))) \<noteq> MAGIC"
    using get32_meta [of "with_name e nm" "[]"] adr by (simp add: with_name_def)
  obtain y where y: "rd_name mem (k + 24) (Suc (length nm)) = Some y" "cstr y = take 255 nm"
    using rd_name_item [OF nm, of "k + 24" "pre @ enc_meta (with_name e nm)" rest]
    by (auto simp: mem k_def cmeta.length_enc)
  have s: "unat (m_symbol_size (with_name e nm)) = Suc (length nm)"
    using unat_name_len [OF nm] by (simp add: with_name_def)
  have "parse_step mem (length mem) st = parse_entry mem (length mem) st"
    using ge m4 by (simp add: parse_step_def off [folded k_def] a r4)
  also have "\<dots> = finish_entry (with_name e nm) (take 255 nm) (st\<lparr>d_offset := k + 24 + Suc (length nm)\<rparr>)"
    using L a y by (simp add: parse_entry_def off [folded k_def] r24 cmeta.dec_enc_exact s Let_def)
  also have "\<dots> = Go_on (apply_item (Data_entry e nm) (advance (length (enc_item (Data_entry e nm))) st))"
    by (simp add: finish_entry_def advance_def off [folded k_def] cmeta.length_enc ac_simps)
  finally show ?thesis .
qed

lemma parse_item:
  assumes "mem = pre @ enc_item it @ rest" and "length mem < 2 ^ 63" and "d_offset st = length pre" and "item_ok it"
  shows "parse_step mem (length mem) st = Go_on (apply_item it (advance (length (enc_item it)) st))"
  using assms parse_header_item parse_entry_item by (cases it) auto

definition apply_items :: "xom_item list \<Rightarrow> dump_st \<Rightarrow> dump_st" where
  "apply_items its st = fold apply_item its st"

lemma advance_simps [simp]:
  "d_offset (advance n st) = d_offset st + n" "advance 0 st = st" "advance n (advance k st) = advance (n + k) st"
  by (simp_all add: advance_def ac_simps)

lemma apply_item_offset [simp]: "d_offset (apply_item it st) = d_offset st"
  by (cases it) simp_all

lemma apply_item_advance: "apply_item it (advance n st) = advance n (apply_item it st)"
  by (cases it) (simp_all add: advance_def log_ev_def count_header_def count_entry_def Let_def)

lemma parse_loop_items:
  assumes "mem = pre @ enc_items its" and "length mem < 2 ^ 63" and "d_offset st = length pre"
    and "\<forall>it \<in> set its. item_ok it"
  shows "parse_loop mem (length mem) st = Some (Some (advance (length (enc_items its)) (apply_items its st)))"
  using assms
proof (induction its arbitrary: pre st)
  case Nil
  then show ?case by (subst parse_loop.simps) (simp add: enc_items_def apply_items_def)
next
  case (Cons it its)
  let ?st = "apply_item it (advance (length (enc_item it)) st)"
  have mem: "mem = (pre @ enc_item it) @ enc_items its" using Cons.prems(1) by (simp add: enc_items_def)
  have "0 < length (enc_item it)" by (cases it) simp_all
  then have lt: "d_offset st < length mem" using mem Cons.prems(3) by simp
  have st: "parse_step mem (length mem) st = Go_on ?st"
    using mem Cons.prems by (intro parse_item [of mem pre it "enc_items its"]) simp_all
  have IH: "parse_loop mem (length mem) ?st = Some (Some (advance (length (enc_items its)) (apply_items its ?st)))"
    using mem Cons.prems by (intro Cons.IH [of "pre @ enc_item it"]) simp_all
  have fold_adv: "apply_items xs (advance n s) = advance n (apply_items xs s)" for xs n s
    by (induction xs arbitrary: s) (simp_all add: apply_items_def apply_item_advance)
  have "advance (length (enc_items its)) (apply_items its ?st) =
      advance (length (enc_items (it # its))) (apply_items (it # its) st)"
    unfolding apply_item_advance fold_adv by (simp add: apply_items_def enc_items_def ac_simps)
  then show ?case using lt st IH by (subst parse_loop.simps) simp
qed

text \<open>The log and the table, read off the items: entries are numbered from 0, sizes are added up, and an
  entry counts as a block when it has octets and a label.\<close>

fun log_of :: "u32 \<Rightarrow> xom_item list \<Rightarrow> log_event list" where
  "log_of k [] = []"
| "log_of k (File_header nm m # its) = Header_entry (hdr_of nm) (take 255 nm) m # log_of k its"
| "log_of k (Data_entry e nm # its) = Meta_entry k (with_name e nm) (take 255 nm) # log_of (k + 1) its"

definition entries :: "xom_item list \<Rightarrow> (meta_fixed \<times> byte list) list" where
  "entries its = concat (map (\<lambda>it. case it of Data_entry e nm \<Rightarrow> [(e, nm)] | _ \<Rightarrow> []) its)"

definition headers :: "xom_item list \<Rightarrow> meta_header_fixed list" where
  "headers its = concat (map (\<lambda>it. case it of File_header nm m \<Rightarrow> [m] | _ \<Rightarrow> []) its)"

definition is_block :: "meta_fixed \<times> byte list \<Rightarrow> bool" where
  "is_block p \<longleftrightarrow> m_size (fst p) \<noteq> 0 \<and> snd p \<noteq> NULL_NAME"

definition blocks_of :: "xom_item list \<Rightarrow> u32" where
  "blocks_of its = word_of_nat (length (filter is_block (entries its)))"

definition table_of :: "xom_item list \<Rightarrow> dump_table" where
  "table_of its =
     (let code = sum_list (map bytes_frag_num (headers its)) - blocks_of its
      in \<lparr>t_data_block = blocks_of its, t_data_size = sum_list (map (\<lambda>p. ucast (m_size (fst p))) (entries its)),
          t_code_block = code,
          t_indirect_code = code - sum_list (map mh_direct_code_num (headers its))
            - sum_list (map mh_fall_through_num (headers its)),
          t_indirect_data = blocks_of its - sum_list (map mh_direct_data_num (headers its))\<rparr>)"

lemma take_255_null [simp]: "take 255 nm = NULL_NAME \<longleftrightarrow> nm = NULL_NAME"
  by (cases "length nm \<le> 255") (auto simp: NULL_NAME_def dest: arg_cong [where f = length])

lemma log_of_items: "d_log (apply_items its st) = d_log st @ log_of (entry_count st) its"
proof (induction its arbitrary: st)
  case (Cons it its)
  then show ?case
    by (cases it) (simp_all add: apply_items_def log_ev_def count_header_def count_entry_def Let_def)
qed (simp add: apply_items_def)

lemma table_of_items:
  "data_block (apply_items its st) = data_block st + blocks_of its \<and>
   embeded_data_size (apply_items its st) = embeded_data_size st + sum_list (map (\<lambda>p. ucast (m_size (fst p))) (entries its)) \<and>
   total_hardcode_block (apply_items its st) = total_hardcode_block st + sum_list (map bytes_frag_num (headers its)) \<and>
   total_direct_code_num (apply_items its st) = total_direct_code_num st + sum_list (map mh_direct_code_num (headers its)) \<and>
   total_direct_data_num (apply_items its st) = total_direct_data_num st + sum_list (map mh_direct_data_num (headers its)) \<and>
   total_fall_through_num (apply_items its st) = total_fall_through_num st + sum_list (map mh_fall_through_num (headers its))"
proof (induction its arbitrary: st)
  case (Cons it its)
  have "apply_items (it # its) st = apply_items its (apply_item it st)" by (simp add: apply_items_def)
  then show ?case
    by (cases it) (simp_all add: Cons.IH log_ev_def count_header_def count_entry_def Let_def with_name_def
        entries_def headers_def blocks_of_def is_block_def)
qed (simp add: apply_items_def entries_def headers_def blocks_of_def)

lemma enc_items_parsed:
  assumes "\<forall>it \<in> set its. item_ok it" and "length (enc_items its) < 2 ^ 63"
  shows "parse_xom (enc_items its) (length (enc_items its)) = Some (Some (log_of 0 its, table_of its))"
proof -
  have "parse_loop (enc_items its) (length (enc_items its)) dump_init =
      Some (Some (advance (length (enc_items its)) (apply_items its dump_init)))"
    using assms by (intro parse_loop_items [of _ "[]"]) (simp_all add: dump_init_def)
  moreover have "dump_totals (advance n st) = dump_totals st" "d_log (advance n st) = d_log st" for n st
    by (simp_all add: dump_totals_def advance_def)
  ultimately show ?thesis
    using log_of_items [of its dump_init] table_of_items [of its dump_init]
    by (simp add: parse_xom_def dump_totals_def table_of_def dump_init_def advance_def Let_def)
qed

text \<open>C7: Round trip between the assembler's encoding and the reader: on a section that holds headers and
  entries one after the other, \<open>parse_xom\<close> logs each of them in order with its name (cut to 255
  characters), numbers the entries, and its table counts the labelled blocks and adds up sizes and
  counters (\<open>src/datadump/datadump.c\<close>, \<open>parse_xom\<close>; the layouts are those of
  \<open>src/gas/datascope.h\<close>).\<close>

theorem parse_xom_roundtrip:
  assumes "\<forall>it \<in> set its. item_ok it" and "length (enc_items its) < 2 ^ 63"
  shows "parse_xom (enc_items its) (length (enc_items its)) = Some (Some (log_of 0 its, table_of its))"
  using enc_items_parsed [OF assms] .

definition demo_items :: "xom_item list" where
  "demo_items =
     [File_header (str ''a.s'') \<lparr>hardcoded_bytes_per_file = 12, bytes_frag_num = 2, mh_direct_code_num = 0,
        mh_direct_data_num = 1, mh_fall_through_num = 0\<rparr>,
      Data_entry \<lparr>m_address = 0x401000, m_index = 3, m_size = 8, m_flags = 0, m_symbol_size = 0\<rparr> (str ''tab''),
      Data_entry \<lparr>m_address = 0x401010, m_index = 5, m_size = 4, m_flags = 0, m_symbol_size = 0\<rparr> (str ''null'')]"

lemma demo_items_ok: "\<forall>it \<in> set demo_items. item_ok it" "length (enc_items demo_items) < 2 ^ 63"
  by (simp_all add: demo_items_def name_ok_def str_def MAGIC_def of_char_def enc_items_def cmeta.length_enc
      chdr.length_enc cmh.length_enc)

lemma demo_table: "table_of demo_items = \<lparr>t_data_block = 1, t_data_size = 12, t_code_block = 1, t_indirect_code = 1, t_indirect_data = 0\<rparr>"
  by (simp add: demo_items_def table_of_def entries_def headers_def blocks_of_def is_block_def Let_def
      str_def NULL_NAME_def of_char_def)

theorem parse_xom_roundtrip_witness:
  "parse_xom (enc_items demo_items) (length (enc_items demo_items)) = Some (Some (log_of 0 demo_items,
     \<lparr>t_data_block = 1, t_data_size = 12, t_code_block = 1, t_indirect_code = 1, t_indirect_data = 0\<rparr>))"
  using parse_xom_roundtrip [OF demo_items_ok] by (simp only: demo_table)

definition clash :: meta_fixed where
  "clash = \<lparr>m_address = 0x006d6f78, m_index = 1, m_size = 8, m_flags = 0, m_symbol_size = 0\<rparr>"


end
