(* ===== verification/Pipeline.thy ===== *)
theory Pipeline
  imports Split Datascope Datadump
begin

text \<open>
  The way of the metadata from the assembler to the reader: the octets \<open>parse_frags_for_test\<close> puts into
  \<open>.xomtwo\<close>, with the addresses filled in as the linker does for 64-bit absolute relocations, are read
  back by \<open>datadump\<close>.
\<close>

section \<open>Filling in the addresses\<close>

definition put_at :: "nat \<Rightarrow> byte list \<Rightarrow> byte list \<Rightarrow> byte list" where
  "put_at pos w bs = take pos bs @ w @ drop (pos + length w) bs"

text \<open>What a fixup of kind \<open>BFD_RELOC_64\<close> stands for: the address of the label's frag, the label's offset
  and the addend.\<close>

definition fix_value :: "(fragP \<Rightarrow> u64) \<Rightarrow> gas \<Rightarrow> fixS \<Rightarrow> u64" where
  "fix_value adr g f = (case fx_addsy f of None \<Rightarrow> fx_offset f
     | Some s \<Rightarrow> (case sy_frag (syms g s) of None \<Rightarrow> 0 | Some p \<Rightarrow> adr p) + sy_value (syms g s) + fx_offset f)"

fun relocate :: "target \<Rightarrow> gas \<Rightarrow> fragP list \<Rightarrow> (fragP \<Rightarrow> u64) \<Rightarrow> fixS list \<Rightarrow> byte list \<Rightarrow> byte list" where
  "relocate tg g xs adr [] bs = bs"
| "relocate tg g xs adr (f # fs) bs =
     relocate tg g xs adr fs (put_at (fix_pos tg g xs f) (le64 (fix_value adr g f)) bs)"

definition item_of :: "(fragP \<Rightarrow> u64) \<Rightarrow> (fragP \<Rightarrow> frag) \<Rightarrow> entry \<Rightarrow> xom_item" where
  "item_of adr FR e = (case e of (p, sz, nm) \<Rightarrow> Data_entry ((entry_of (FR p) sz nm)\<lparr>m_address := adr p\<rparr>) nm)"

lemma enc_item_of:
  "enc_item (item_of adr FR (p, sz, nm)) = le64 (adr p) @ enc_metedata_test (entry_of (FR p) sz nm) @ nm @ [0]"
  by (simp add: item_of_def enc_meta_split with_name_def name_len_def entry_of_def enc_metedata_test_def)

lemma fix_value_addr: "addr_fix tg g xs pos p f \<Longrightarrow> fix_value adr g f = adr p"
  by (auto simp: addr_fix_def fix_value_def abs64_fix_def)

lemma put_at_entry:
  "put_at (length pre) (le64 (adr p)) (pre @ entry_bytes FR (p, sz, nm) @ post) =
   pre @ enc_item (item_of adr FR (p, sz, nm)) @ post"
  by (simp add: put_at_def entry_bytes_def enc_item_of c64.length_enc)

lemma relocate_entries:
  "fixes_ok tg g xs FR (length pre) es fs \<Longrightarrow>
   relocate tg g xs adr fs (pre @ test_bytes FR es) = pre @ enc_items (map (item_of adr FR) es)"
proof (induction es arbitrary: pre fs)
  case Nil
  then show ?case by (simp add: test_bytes_def enc_items_def)
next
  case (Cons e es)
  obtain p sz nm where e: "e = (p, sz, nm)" by (cases e)
  obtain f fs' where f: "fs = f # fs'" "addr_fix tg g xs (length pre) p f"
    "fixes_ok tg g xs FR (length pre + length (entry_bytes FR e)) es fs'"
    using Cons.prems e by (auto split: list.splits)
  have pos: "fix_pos tg g xs f = length pre" using f(2) by (simp add: addr_fix_def)
  let ?pre = "pre @ enc_item (item_of adr FR e)"
  have "length (enc_item (item_of adr FR e)) = length (entry_bytes FR e)"
    by (simp add: e enc_item_of entry_bytes_def c64.length_enc)
  then have "relocate tg g xs adr fs' (?pre @ test_bytes FR es) = ?pre @ enc_items (map (item_of adr FR) es)"
    using f(3) by (intro Cons.IH) simp
  moreover have "relocate tg g xs adr fs (pre @ test_bytes FR (e # es)) = relocate tg g xs adr fs' (?pre @ test_bytes FR es)"
    using put_at_entry [of pre adr p FR sz nm "test_bytes FR es"]
    by (simp add: f(1) pos fix_value_addr [OF f(2)] test_bytes_def e)
  ultimately show ?case by (simp add: enc_items_def)
qed

lemma header_item: "header_bytes file m = enc_item (File_header file m)"
  by (simp add: header_bytes_def hdr_of_def name_len_def)

section \<open>A concrete input\<close>

text \<open>The text chain of the split pass's example, with its frags joined and two symbols in use.\<close>

definition demo_collect :: gas where
  "demo_collect = demo_gas\<lparr>frags_chained := True, n_syms := 2\<rparr>"

definition demo_ids :: "fragP list" where
  "demo_ids = [2 ^ 60 + 16, 2 ^ 60 + 144, 2 ^ 60 + 272, 2 ^ 60 + 400]"

lemma demo_entries:
  "entries_of (syms demo_collect) (frags demo_collect) (fix_size demo_collect) demo_ids
     = [(2 ^ 60 + 272, 0, []), (2 ^ 60 + 272, 32, [])]"
  by (simp add: entries_of_def demo_ids_def demo_collect_def demo_gas_def demo_frags_def flagged_def zero_frag_def no_flags_def
      entries_of_frag_def is_data_def label_name_def fix_size_def S_IS_CF_SYMBOL_def demo_sym_def)

lemma demo_collect_inv: "gas_inv sample_target demo_collect"
proof -
  have "the_frchain demo_collect = the_frchain demo_gas" by (rule the_frchain_cong) (simp_all add: demo_collect_def)
  moreover have "chains_inv sample_target e demo_collect = chains_inv sample_target e demo_gas" for e
    by (simp add: chains_inv_def has_chain_def demo_collect_def)
  ultimately show ?thesis using demo_gas_inv by (simp add: gas_inv_def demo_collect_def cong: option.case_cong)
qed

lemma demo_collectable: "collectable sample_target demo_collect (demo_chain 0 (2 ^ 60) 3) demo_ids (str ''a.s'')"
proof -
  have nf: "name_fits sample_target nm" if "length nm < 100" for nm
    using that by (simp add: name_fits_def request_ok_def small_def sample_target_def)
  have "length (section_bytes (str ''a.s'') demo_collect demo_ids) < 1000"
    unfolding section_bytes_def demo_entries
    by (simp add: header_bytes_def test_bytes_def entry_bytes_def chdr.length_enc cmh.length_enc str_def)
  then have "small (length (section_bytes (str ''a.s'') demo_collect demo_ids))" by (simp add: small_def)
  moreover have "\<exists>ti cs. seg_info demo_collect text_section = Some ti \<and> frchainP ti = demo_chain 0 (2 ^ 60) 3 # cs"
    "seg_info demo_collect xom_test_section = None" "frags_chained demo_collect" "now_seg demo_collect \<noteq> xom_test_section"
    by (simp_all add: demo_collect_def demo_gas_def boot_gas_def)
  moreover have "chain_ok sample_target (frags demo_collect) (demo_chain 0 (2 ^ 60) 3) demo_ids"
    using demo_chains_ok(1) by (simp add: demo_collect_def demo_ids_def)
  moreover have "\<forall>p \<in> set demo_ids. labels_ok (n_syms demo_collect) (frags demo_collect p)"
    by (simp add: demo_ids_def demo_collect_def demo_gas_def demo_frags_def flagged_def zero_frag_def no_flags_def labels_ok_def)
  moreover have "\<forall>(p, sz, nm) \<in> set (entries_of (syms demo_collect) (frags demo_collect) (fix_size demo_collect) demo_ids).
      name_fits sample_target nm"
    unfolding demo_entries by (simp add: nf)
  moreover have "name_fits sample_target (str ''a.s'')" by (rule nf) (simp add: str_def)
  ultimately show ?thesis using sample_build_ok demo_collect_inv unfolding collectable_def by blast
qed

section \<open>Properties\<close>

text \<open>C6: \<open>parse_frags_for_test\<close> ends without failing an assertion.  The octets of the new section are the
  header of the file followed by one entry for each frag of embedded data (and one of size 0 for each
  anchor label), in the order of the text chain; every entry has a 64-bit absolute fixup at its first
  octet whose label and addend together are the start of the frag; the text frags are untouched.\<close>

theorem parse_frags_for_test_writes:
  assumes "collectable tg g c ids file"
  shows "\<exists>g' fc xs fs. parse_frags_for_test tg (Some file) big g = Some (Inr g')
    \<and> content_inv tg g' fc xs (section_bytes file g ids)
    \<and> map_option seg_fixes (seg_info g' xom_test_section) = Some fs
    \<and> fixes_ok tg g' xs (frags g) (length (header_bytes file (counters_of g ids)))
        (entries_of (syms g) (frags g) (fix_size g) ids) fs
    \<and> (\<forall>p \<in> set ids. frags g' p = frags g p)"
  using collect_for_test [OF assms] .

theorem parse_frags_for_test_writes_witness:
  "\<exists>g' fc xs. parse_frags_for_test sample_target (Some (str ''a.s'')) [] demo_collect = Some (Inr g')
     \<and> content_inv sample_target g' fc xs (section_bytes (str ''a.s'') demo_collect demo_ids)"
  using parse_frags_for_test_writes [OF demo_collectable, of "[]"] by blast



end
