(* ===== verification/Emission.thy ===== *)
theory Emission
  imports Contents
begin

text \<open>
  A calculus for the routines that write into the current frag chain.  \<open>appends tg xs g g'\<close> says that
  the octets \<open>xs\<close> have been appended, that the frags there were keep their labels and do not lose the
  mark of an instruction, and that the frags that were opened carry no label.  Every routine the
  assembler composes its output from is of this kind, and sequences of them are again.
\<close>

section \<open>The relation\<close>

definition marks_kept :: "frag \<Rightarrow> frag \<Rightarrow> bool" where
  "marks_kept f f' \<longleftrightarrow> (insn_frag (fr_flags f) \<longrightarrow> insn_frag (fr_flags f'))
   \<and> anchor_frag (fr_flags f') = anchor_frag (fr_flags f) \<and> align_frag (fr_flags f') = align_frag (fr_flags f)
   \<and> frag_symbol f' = frag_symbol f \<and> frag_anchor f' = frag_anchor f"

definition unlabelled :: "frag \<Rightarrow> bool" where
  "unlabelled f \<longleftrightarrow> \<not> anchor_frag (fr_flags f) \<and> \<not> align_frag (fr_flags f) \<and> frag_symbol f = None
     \<and> frag_anchor f = None"

text \<open>The variables of the run that writing does not touch; symbols are at most added.\<close>

definition same_run :: "gas \<Rightarrow> gas \<Rightarrow> bool" where
  "same_run g g' \<longleftrightarrow> now_seg g' = now_seg g \<and> now_subseg g' = now_subseg g \<and> frchain_now g' = frchain_now g
   \<and> frags_chained g' = frags_chained g \<and> fiy_dcollect g' = fiy_dcollect g
   \<and> is_finish_subseg g' = is_finish_subseg g \<and> mri_common_symbol g' = mri_common_symbol g
   \<and> text_cur_symbol g' = text_cur_symbol g \<and> cur_func_name g' = cur_func_name g
   \<and> is_in_func g' = is_in_func g \<and> flash_symbol_point g' = flash_symbol_point g
   \<and> n_syms g \<le> n_syms g' \<and> (\<forall>s < n_syms g. syms g' s = syms g s)"

definition appends :: "target \<Rightarrow> byte list \<Rightarrow> gas \<Rightarrow> gas \<Rightarrow> bool" where
  "appends tg xs g g' \<longleftrightarrow> same_run g g' \<and> (\<forall>fc ids bs. content_inv tg g fc ids bs \<longrightarrow>
     (\<exists>fc' new. content_inv tg g' fc' (ids @ new) (bs @ xs)
        \<and> (\<forall>p \<in> set ids. marks_kept (frags g p) (frags g' p)) \<and> (\<forall>p \<in> set new. unlabelled (frags g' p))
        \<and> (\<forall>p \<in> set (butlast ids). fr_fix (frags g' p) = fr_fix (frags g p))))"

text \<open>The states the calculus starts from.\<close>

definition ready :: "target \<Rightarrow> gas \<Rightarrow> bool" where
  "ready tg g \<longleftrightarrow> target_ok tg \<and> 1 < sizeof_struct_frag tg \<and> small (sizeof_struct_frag tg + 0x20000)
     \<and> mri_common_symbol g = None \<and> (\<exists>fc ids bs. content_inv tg g fc ids bs)"

named_theorems append_intros "routines that append to the current chain"

lemma marks_kept_refl [simp]: "marks_kept f f"
  by (simp add: marks_kept_def)

lemma marks_kept_trans: "marks_kept f f1 \<Longrightarrow> marks_kept f1 f2 \<Longrightarrow> marks_kept f f2"
  by (simp add: marks_kept_def)

lemma unlabelled_kept: "unlabelled f \<Longrightarrow> marks_kept f f' \<Longrightarrow> unlabelled f'"
  by (simp add: marks_kept_def unlabelled_def)

lemma same_run_refl [simp]: "same_run g g"
  by (simp add: same_run_def)

lemma same_run_trans: "same_run g g1 \<Longrightarrow> same_run g1 g2 \<Longrightarrow> same_run g g2"
  unfolding same_run_def by (metis (no_types, lifting) order.strict_trans2 order.trans)

lemma appends_refl [simp]: "appends tg [] g g"
  unfolding appends_def by (auto intro!: exI [of _ "[]"])

lemma appends_run: "appends tg xs g g' \<Longrightarrow> same_run g g'"
  by (simp add: appends_def)

lemma appends_trans [trans]:
  assumes "appends tg xs g g1" and "appends tg ys g1 g2"
  shows "appends tg (xs @ ys) g g2"
proof -
  have "\<exists>fc2 new. content_inv tg g2 fc2 (ids @ new) (bs @ xs @ ys)
      \<and> (\<forall>p \<in> set ids. marks_kept (frags g p) (frags g2 p)) \<and> (\<forall>p \<in> set new. unlabelled (frags g2 p))
      \<and> (\<forall>p \<in> set (butlast ids). fr_fix (frags g2 p) = fr_fix (frags g p))"
    if inv: "content_inv tg g fc ids bs" for fc ids bs
  proof -
    obtain fc1 new1 where A: "content_inv tg g1 fc1 (ids @ new1) (bs @ xs)"
      "\<forall>p \<in> set ids. marks_kept (frags g p) (frags g1 p)" "\<forall>p \<in> set new1. unlabelled (frags g1 p)"
      "\<forall>p \<in> set (butlast ids). fr_fix (frags g1 p) = fr_fix (frags g p)"
      using assms(1) inv unfolding appends_def by blast
    obtain fc2 new2 where B: "content_inv tg g2 fc2 ((ids @ new1) @ new2) ((bs @ xs) @ ys)"
      "\<forall>p \<in> set (ids @ new1). marks_kept (frags g1 p) (frags g2 p)" "\<forall>p \<in> set new2. unlabelled (frags g2 p)"
      "\<forall>p \<in> set (butlast (ids @ new1)). fr_fix (frags g2 p) = fr_fix (frags g1 p)"
      using assms(2) A(1) unfolding appends_def by blast
    have "set (butlast ids) \<subseteq> set (butlast (ids @ new1))"
      by (auto simp: butlast_append dest: in_set_butlastD)
    then show ?thesis
      using A(2-4) B marks_kept_trans unlabelled_kept
      by (intro exI [of _ fc2] exI [of _ "new1 @ new2"]) (auto simp: subset_iff)
  qed
  then show ?thesis
    using same_run_trans [OF appends_run [OF assms(1)] appends_run [OF assms(2)]] by (simp add: appends_def)
qed

lemma appends_Nil_trans: "appends tg [] g g1 \<Longrightarrow> appends tg ys g1 g2 \<Longrightarrow> appends tg ys g g2"
  using appends_trans [of tg "[]" g g1 ys g2] by simp

lemma appends_trans_Nil: "appends tg xs g g1 \<Longrightarrow> appends tg [] g1 g2 \<Longrightarrow> appends tg xs g g2"
  using appends_trans [of tg xs g g1 "[]" g2] by simp

lemma ready_appends: "ready tg g \<Longrightarrow> appends tg xs g g' \<Longrightarrow> ready tg g'"
  unfolding ready_def appends_def same_run_def by metis

lemma ready_target: "ready tg g \<Longrightarrow> target_ok tg"
  by (simp add: ready_def)

lemma ready_request: "ready tg g \<Longrightarrow> n \<le> 0x10000 \<Longrightarrow> request_ok tg n"
  by (auto simp: ready_def request_ok_def small_def)

text \<open>A chain has one list of frags and one content.\<close>

lemma content_unique:
  assumes "content_inv tg g fc ids bs" and "content_inv tg g fc' ids' bs'"
  shows "fc' = fc \<and> ids' = ids \<and> bs' = bs"
proof -
  have c: "chain_inv tg g fc ids" "chain_inv tg g fc' ids'" using assms by (simp_all add: content_inv_def)
  then have "Some fc' = Some fc" unfolding chain_inv_def by metis
  then have "fc' = fc" by simp
  moreover have "chain (frag_next g) (frch_root fc) ids" "chain (frag_next g) (frch_root fc') ids'"
    using c unfolding chain_inv_def by blast+
  ultimately have "ids' = ids" using chain_unique by metis
  then show ?thesis using assms \<open>fc' = fc\<close> by (simp add: content_inv_def)
qed

lemma appendsI:
  assumes "content_inv tg g fc ids bs" and "content_inv tg g' fc' (ids @ new) (bs @ xs)" and "same_run g g'"
    and "\<And>p. p \<in> set ids \<Longrightarrow> marks_kept (frags g p) (frags g' p)"
    and "\<And>p. p \<in> set new \<Longrightarrow> unlabelled (frags g' p)"
    and "\<And>p. p \<in> set (butlast ids) \<Longrightarrow> fr_fix (frags g' p) = fr_fix (frags g p)"
  shows "appends tg xs g g'"
  unfolding appends_def using assms content_unique [OF assms(1)] by metis

section \<open>Frags\<close>

lemma content_chain: "content_inv tg g fc ids bs \<Longrightarrow> chain_inv tg g fc ids"
  by (simp add: content_inv_def)

text \<open>Changing fields other than the link and the size.\<close>

lemma upd_frag_content:
  assumes "\<And>x. fr_next (f x) = fr_next x" and "\<And>x. fr_fix (f x) = fr_fix x"
  shows "content_inv tg (upd_frag p f g) fc ids bs = content_inv tg g fc ids bs"
proof -
  have fx: "fr_fix (frags (upd_frag p f g) q) = fr_fix (frags g q)" for q
    using assms(2) by (simp add: frags_upd_frag)
  have oc: "octets (upd_frag p f g) = octets g" by (simp add: octets_def fun_eq_iff)
  then have "closed_octets tg (upd_frag p f g) = closed_octets tg g"
    using fx by (simp add: closed_octets_def fun_eq_iff)
  with oc have "chain_octets tg (upd_frag p f g) fc ids = chain_octets tg g fc ids"
    by (simp add: chain_octets_def)
  moreover have "lits_ok tg (upd_frag p f g) fc ids = lits_ok tg g fc ids" by (simp add: lits_ok_def fx)
  ultimately show ?thesis using assms(1) by (simp add: content_inv_def chain_inv_upd_frag)
qed

lemma same_run_upd_frag [simp]: "same_run g (upd_frag p f h) = same_run g h"
  by (simp add: same_run_def upd_frag_def)

lemma same_run_upd_frchain [simp]: "same_run g (upd_frchain f h) = same_run g h"
  by (auto simp: same_run_def upd_frchain_def split: option.split prod.split)

lemma appends_upd_frag [append_intros]:
  assumes "\<And>x. fr_next (f x) = fr_next x" and "\<And>x. fr_fix (f x) = fr_fix x" and "\<And>x. marks_kept x (f x)"
  shows "appends tg [] g (upd_frag p f g)"
  unfolding appends_def using assms
  by (auto simp: upd_frag_content frags_upd_frag intro!: exI [of _ "[]"])

lemma appends_frag_wane [append_intros]: "appends tg [] g (frag_wane p g)"
  unfolding frag_wane_def by (rule appends_upd_frag) (simp_all add: wane_def marks_kept_def)

lemma appends_mark_insn [append_intros]: "appends tg [] g (mark_insn t g)"
  using appends_upd_frag [of "\<lambda>f. f\<lparr>fr_flags := fr_flags f\<lparr>insn_frag := True\<rparr>\<rparr>" tg g "frag_now g"]
  by (simp add: mark_insn_def marks_kept_def)

text \<open>Starting a frag behind a current one whose last \<open>n\<close> octets are its variable part.\<close>

lemma take_octets: "k \<le> n \<Longrightarrow> take k (octets g a n) = octets g a k"
  by (simp add: octets_def take_map take_upt)

lemma frag_new_content:
  assumes inv: "content_inv tg g fc ids bs" and tg: "target_ok tg"
    and ty: "fr_type (frags g (frag_now g)) \<noteq> rs_dummy" and n: "n \<le> obstack_object_size (frch_obstack fc)"
  shows "\<exists>g' fc' ptr. frag_new tg n g = Inr g' \<and> content_inv tg g' fc' (ids @ [ptr]) (take (length bs - n) bs)
    \<and> alloc_effect tg (frch_obstack fc) ptr (frch_obstack fc') \<and> same_run g g'
    \<and> frags g' ptr = zero_frag\<lparr>frag_index := totalfrags g + 1\<rparr>
    \<and> (\<exists>y. \<forall>p. p \<noteq> ptr \<longrightarrow> frags g' p =
          (if p = last ids then (frags g p)\<lparr>fr_fix := y, fr_next := Some ptr\<rparr> else frags g p))"
proof -
  let ?ob = "frch_obstack fc" and ?y = "word_of_nat (obstack_object_size (frch_obstack fc) - n) :: u64"
  have c: "chain_inv tg g fc ids" "lits_ok tg g fc ids" "chain_octets tg g fc ids = bs"
    using inv by (simp_all add: content_inv_def)
  have i: "ids \<noteq> []" "distinct ids" "ob_ok tg ?ob" "frag_now g = last ids"
    "object_base ?ob = last ids + sizeof_struct_frag tg"
    using c(1) by (auto simp: chain_inv_def)
  obtain ptr ob' where A: "alloc_effect tg ?ob ptr ob'" "ptr \<notin> set ids" "frag_new tg n g = Inr (started ?y ptr ob' g)"
    "chain_inv tg (started ?y ptr ob' g) (fc\<lparr>frch_last := Some ptr, frch_obstack := ob'\<rparr>) (ids @ [ptr])"
    using frag_new_step [OF tg c(1) ty n] by blast
  let ?g = "started ?y ptr ob' g" and ?fc = "fc\<lparr>frch_last := Some ptr, frch_obstack := ob'\<rparr>"
  have fr: "frags ?g q = (if q = ptr then zero_frag\<lparr>frag_index := totalfrags g + 1\<rparr>
      else if q = last ids then (frags g q)\<lparr>fr_fix := ?y, fr_next := Some ptr\<rparr> else frags g q)" for q
    using i(4) by (simp add: started_def)
  have l: "last ids \<noteq> ptr" using A(2) i(1) by auto
  have e: "\<forall>a b. kept ?ob a b \<longrightarrow> kept ob' a b" "kept ob' (object_base ?ob) (next_free ?ob)" "obstack_object_size ob' = 0"
    using A(1) by (simp_all add: alloc_effect_def obstack_object_size_def)
  have u: "unat ?y = obstack_object_size ?ob - n"
    using object_size_small [OF i(3)] by (intro small_unat) (simp add: small_def)
  have nf: "object_base ?ob + obstack_object_size ?ob = next_free ?ob"
    using i(3) by (simp add: ob_ok_def obstack_ok_def obstack_object_size_def)
  have oc: "octets ?g = octets g" by (simp add: octets_def fun_eq_iff started_def)
  have bl: "p \<noteq> last ids \<and> p \<noteq> ptr" if "p \<in> set (butlast ids)" for p
    using butlast_not_last [OF i(2) that] in_set_butlastD [OF that] A(2) by auto
  have cl: "map (closed_octets tg ?g) (butlast ids) = map (closed_octets tg g) (butlast ids)"
    using bl fr by (simp add: closed_octets_def oc)
  have ids: "ids = butlast ids @ [last ids]" using i(1) by simp
  have "closed_octets tg ?g (last ids) = octets g (object_base ?ob) (obstack_object_size ?ob - n)"
    using l i(5) u by (simp add: closed_octets_def oc fr)
  then have "concat (map (closed_octets tg ?g) ids)
      = concat (map (closed_octets tg g) (butlast ids)) @ octets g (object_base ?ob) (obstack_object_size ?ob - n)"
    by (subst ids) (simp only: map_append concat_append list.map concat.simps append_Nil2 cl)
  also have "\<dots> = take (length bs - n) bs"
  proof -
    have "bs = concat (map (closed_octets tg g) (butlast ids)) @ octets g (object_base ?ob) (obstack_object_size ?ob)"
      using c(3) by (simp add: chain_octets_def)
    moreover have "length (octets g a k) = k" for a k by (simp add: octets_def)
    ultimately show ?thesis using n by (simp add: take_octets)
  qed
  finally have "chain_octets tg ?g ?fc (ids @ [ptr]) = take (length bs - n) bs"
    using e(3) by (simp add: chain_octets_def octets_def)
  moreover have "lits_ok tg ?g ?fc (ids @ [ptr])"
    unfolding lits_ok_def
  proof
    fix p assume "p \<in> set (butlast (ids @ [ptr]))"
    then have "p \<in> set (butlast ids @ [last ids])" using ids by simp
    then have p: "p \<in> set (butlast ids) \<or> p = last ids" by auto
    show "kept (frch_obstack ?fc) (p + sizeof_struct_frag tg) (p + sizeof_struct_frag tg + unat (fr_fix (frags ?g p)))"
    proof (cases "p = last ids")
      case True
      have "kept ob' a b \<Longrightarrow> b' \<le> b \<Longrightarrow> kept ob' a b'" for a b b'
        unfolding kept_def by fastforce
      then show ?thesis using True l e(2) i(5) u nf by (simp add: fr)
    next
      case False
      then show ?thesis using p bl e(1) c(2) by (auto simp: fr lits_ok_def)
    qed
  qed
  ultimately have "content_inv tg ?g ?fc (ids @ [ptr]) (take (length bs - n) bs)"
    using A(4) by (simp add: content_inv_def)
  moreover have "\<forall>p. p \<noteq> ptr \<longrightarrow> frags ?g p =
      (if p = last ids then (frags g p)\<lparr>fr_fix := ?y, fr_next := Some ptr\<rparr> else frags g p)"
    using fr by simp
  moreover have "same_run g ?g" by (simp add: started_def) (simp add: same_run_def)
  ultimately show ?thesis using A(1,3) fr [of ptr]
    by (intro exI [of _ ?g] exI [of _ ?fc] exI [of _ ptr] conjI exI [of _ ?y]) simp_all
qed

lemma unlabelled_zero: "unlabelled (zero_frag\<lparr>frag_index := k\<rparr>)"
  by (simp add: unlabelled_def zero_frag_def no_flags_def)

lemma new_frag_appends:
  assumes "content_inv tg g fc ids bs" and "content_inv tg g' fc' (ids @ [ptr]) bs" and "same_run g g'"
    and "frags g' ptr = zero_frag\<lparr>frag_index := k\<rparr>"
    and "\<exists>y. \<forall>p. p \<noteq> ptr \<longrightarrow> frags g' p =
          (if p = last ids then (frags g p)\<lparr>fr_fix := y, fr_next := Some ptr\<rparr> else frags g p)"
  shows "appends tg [] g g'"
proof -
  have d: "distinct (ids @ [ptr])" using assms(2) by (simp add: content_inv_def chain_inv_def)
  have "marks_kept (frags g p) (frags g' p)" if "p \<in> set ids" for p
  proof -
    have "p \<noteq> ptr" using that d by auto
    then show ?thesis using assms(5) by (auto simp: marks_kept_def split: if_splits)
  qed
  moreover have "fr_fix (frags g' p) = fr_fix (frags g p)" if "p \<in> set (butlast ids)" for p
    using that d butlast_not_last [of ids p] in_set_butlastD [OF that] assms(5) by auto
  ultimately show ?thesis
    using assms(2-4) by (intro appendsI [OF assms(1), of g' fc' "[ptr]"]) (simp_all add: unlabelled_zero)
qed

text \<open>\<open>frag_wane (frag_now)\<close> followed by \<open>frag_new (0)\<close>: a new empty frag.\<close>

definition close_frag :: "target \<Rightarrow> gas \<Rightarrow> gas result" where
  "close_frag tg g = frag_new tg 0 (frag_wane (frag_now g) g)"

lemma close_frag_ok:
  assumes "content_inv tg g fc ids bs" and "target_ok tg"
  shows "\<exists>g' fc' ptr. close_frag tg g = Inr g' \<and> appends tg [] g g' \<and> content_inv tg g' fc' (ids @ [ptr]) bs
    \<and> alloc_effect tg (frch_obstack fc) ptr (frch_obstack fc') \<and> frags g' ptr = zero_frag\<lparr>frag_index := totalfrags g + 1\<rparr>"
proof -
  let ?g = "frag_wane (frag_now g) g"
  have w: "content_inv tg ?g fc ids bs" "fr_type (frags ?g (frag_now ?g)) \<noteq> rs_dummy"
    using assms(1) by (simp_all add: frag_wane_def upd_frag_content wane_def frags_upd_frag)
  obtain g' fc' ptr where N: "frag_new tg 0 ?g = Inr g'" "content_inv tg g' fc' (ids @ [ptr]) bs"
    "alloc_effect tg (frch_obstack fc) ptr (frch_obstack fc')" "same_run ?g g'"
    "frags g' ptr = zero_frag\<lparr>frag_index := totalfrags ?g + 1\<rparr>"
    "\<exists>y. \<forall>p. p \<noteq> ptr \<longrightarrow> frags g' p =
          (if p = last ids then (frags ?g p)\<lparr>fr_fix := y, fr_next := Some ptr\<rparr> else frags ?g p)"
    using frag_new_content [OF w(1) assms(2) w(2), of 0] by auto
  have "totalfrags ?g = totalfrags g" by (simp add: frag_wane_def)
  moreover have "appends tg [] g g'"
    by (rule appends_Nil_trans [OF appends_frag_wane new_frag_appends [OF w(1) N(2,4,5,6)]])
  ultimately show ?thesis
    unfolding close_frag_def using N(1-3,5) by (intro exI [of _ g'] exI [of _ fc'] exI [of _ ptr]) simp
qed

lemma close_frag_appends:
  assumes "ready tg g" and "close_frag tg g = Inr g'"
  shows "appends tg [] g g'"
proof -
  obtain fc ids bs where "content_inv tg g fc ids bs" "target_ok tg" using assms(1) by (auto simp: ready_def)
  from close_frag_ok [OF this] show ?thesis using assms(2) by auto
qed

section \<open>Room\<close>

lemma grow_loop_appends:
  "ready tg g \<Longrightarrow> frag_grow_loop fuel tg n t g = Inr g' \<Longrightarrow> appends tg [] g g'"
proof (induction fuel arbitrary: g)
  case (Suc k)
  obtain fc where "the_frchain g = Some fc"
    using Suc.prems(1) by (auto simp: ready_def content_inv_def chain_inv_def)
  then have room: "frag_room g = Inr (obstack_room (frch_obstack fc))" by (simp add: frag_room_def)
  show ?case
  proof (cases "obstack_room (frch_obstack fc) < n")
    case True
    then obtain g1 where g1: "close_frag tg g = Inr g1" "frag_grow_loop k tg n t (mark_insn t g1) = Inr g'"
      using Suc.prems(2) room by (auto simp: close_frag_def)
    have a: "appends tg [] g (mark_insn t g1)"
      by (rule appends_Nil_trans [OF close_frag_appends [OF Suc.prems(1) g1(1)] appends_mark_insn])
    show ?thesis using appends_Nil_trans [OF a Suc.IH [OF ready_appends [OF Suc.prems(1) a] g1(2)]] .
  next
    case False
    then show ?thesis using Suc.prems(2) room by simp
  qed
qed simp

lemma set_chunk_size_appends:
  assumes "ready tg g" and "small n" and "n \<noteq> 0"
  shows "appends tg [] g (set_chunk_size n g)"
proof -
  obtain fc ids bs where c: "content_inv tg g fc ids bs" using assms(1) by (auto simp: ready_def)
  obtain fc' where "content_inv tg (set_chunk_size n g) fc' ids bs"
    using set_chunk_size_content [OF c assms(2,3)] by blast
  then show ?thesis using appendsI [OF c, of "set_chunk_size n g" fc' "[]" "[]"] by (simp add: set_chunk_size_def)
qed

lemma frag_grow_appends:
  assumes rd: "ready tg g" and n: "n \<le> 0x10000"
  shows "\<exists>g' fc' ids' bs. frag_grow tg n g = Inr g' \<and> appends tg [] g g' \<and> content_inv tg g' fc' ids' bs
    \<and> n \<le> obstack_room (frch_obstack fc')"
proof -
  obtain fc ids bs where c: "content_inv tg g fc ids bs" using rd by (auto simp: ready_def)
  note tg = ready_target [OF rd] and req = ready_request [OF rd n]
  obtain g' fc' new where G: "frag_grow tg n g = Inr g'" "content_inv tg g' fc' (ids @ new) bs"
    "n \<le> obstack_room (frch_obstack fc')"
    using frag_grow_content [OF c tg req] by blast
  let ?ob = "frch_obstack fc"
  have fc: "the_frchain g = Some fc" "ob_ok tg ?ob" using c by (simp_all add: content_inv_def chain_inv_def)
  have "appends tg [] g g'"
  proof (cases "n \<le> obstack_room ?ob")
    case True
    then show ?thesis using G(1) fc by (simp add: frag_grow_def)
  next
    case False
    let ?newc = "size_t (size_t (if n < 0x10000 then 2 * n else n + 0x10000) + sizeof_struct_frag tg)"
    let ?g = "if chunk_size ?ob < ?newc then set_chunk_size ?newc g else g"
    have sz: "small ?newc" "?newc \<noteq> 0" "\<not> ?newc < n"
      using req tg by (auto simp: request_ok_def small_def target_ok_def)
    obtain x where x: "frag_now_fix tg g = Inr x"
      using frag_now_fix_inv(1) [OF content_chain [OF c]] by (simp add: frag_now_fix_def)
    obtain t g2 where L: "frag_grow_loop (obstack_room ?ob + 3) tg n t ?g = Inr g2"
      "g' = set_chunk_size (chunk_size ?ob) g2"
      using G(1) False fc(1) sz(3) x by (auto simp: frag_grow_def Let_def bindE_Inr_iff split: if_splits)
    have a: "appends tg [] g ?g" using set_chunk_size_appends [OF rd sz(1,2)] by simp
    note r1 = ready_appends [OF rd a]
    have b: "appends tg [] g g2" by (rule appends_Nil_trans [OF a grow_loop_appends [OF r1 L(1)]])
    have "small (chunk_size ?ob)" "chunk_size ?ob \<noteq> 0" using fc(2) by (simp_all add: ob_ok_def)
    from set_chunk_size_appends [OF ready_appends [OF rd b] this] show ?thesis
      unfolding L(2) by (rule appends_Nil_trans [OF b])
  qed
  then show ?thesis using G by blast
qed

lemma poke_list_more [simp]:
  "now_subseg (poke_list a bs g) = now_subseg g" "text_cur_symbol (poke_list a bs g) = text_cur_symbol g"
  "cur_func_name (poke_list a bs g) = cur_func_name g" "is_in_func (poke_list a bs g) = is_in_func g"
  "flash_symbol_point (poke_list a bs g) = flash_symbol_point g"
  "abs_section_offset (poke_list a bs g) = abs_section_offset g"
  "total_hardcoded_bytes (poke_list a bs g) = total_hardcoded_bytes g"
  by (induction bs arbitrary: a g) (simp_all add: poke_def)

lemma same_run_poke_list [simp]: "same_run g (poke_list a bs h) = same_run g h"
  by (simp add: same_run_def)

text \<open>Octets written into the room handed out, or left as they are there.\<close>

lemma blank_appends:
  assumes c: "content_inv tg g fc ids bs" and room: "length xs \<le> obstack_room (frch_obstack fc)"
  shows "appends tg xs g (poke_list (next_free (frch_obstack fc)) xs
    (upd_frchain (\<lambda>c. c\<lparr>frch_obstack := obstack_blank_fast (frch_obstack c) (length xs)\<rparr>) g))"
  using blank_content(1) [OF c room] by (intro appendsI [OF c, where new = "[]"]) simp_all

lemma frag_more_appends:
  assumes rd: "ready tg g" and n: "n \<le> 0x10000"
  shows "\<exists>p g'. frag_more tg n g = Inr (p, g') \<and> (\<forall>xs. length xs = n \<longrightarrow> appends tg xs g (poke_list p xs g'))"
proof -
  obtain g1 fc1 ids bs where G: "frag_grow tg n g = Inr g1" "appends tg [] g g1" "content_inv tg g1 fc1 ids bs"
    "n \<le> obstack_room (frch_obstack fc1)"
    using frag_grow_appends [OF assms] by blast
  obtain fc where "the_frchain g = Some fc" "chunk_size (frch_obstack fc) \<noteq> 0" "mri_common_symbol g = None"
    using rd by (auto simp: ready_def content_inv_def chain_inv_def ob_ok_def)
  moreover have "the_frchain g1 = Some fc1" using G(3) by (simp add: content_inv_def chain_inv_def)
  ultimately have "frag_more tg n g = Inr (next_free (frch_obstack fc1),
      upd_frchain (\<lambda>c. c\<lparr>frch_obstack := obstack_blank_fast (frch_obstack c) n\<rparr>) g1)"
    using G(1) by (simp add: frag_more_def frag_alloc_check_def)
  then show ?thesis using blank_appends [OF G(3)] G(2,4) appends_Nil_trans by fastforce
qed

lemma poke_list_mem: "poke_list p xs g = g\<lparr>mem := mem (poke_list p xs g)\<rparr>"
proof (induction xs arbitrary: p g)
  case (Cons x xs)
  show ?case using Cons.IH [of "p + 1" "poke p x g"] by (simp add: poke_def)
qed simp

lemma poke_list_self: "poke_list p (octets g p n) g = g"
proof -
  have "mem (poke_list p (octets g p n) g) = mem g" by (auto simp: mem_poke_list octets_def fun_eq_iff)
  then show ?thesis using poke_list_mem [of p "octets g p n" g] by simp
qed

lemma frag_more_raw:
  assumes "ready tg g" and "frag_more tg n g = Inr (p, g')" and "n \<le> 0x10000"
  shows "\<exists>xs. length xs = n \<and> appends tg xs g g'"
proof -
  have "appends tg (octets g' p n) g (poke_list p (octets g' p n) g')"
    using frag_more_appends [OF assms(1,3)] assms(2) by (auto simp: octets_def)
  then show ?thesis unfolding poke_list_self by (intro exI [of _ "octets g' p n"]) (simp add: octets_def)
qed

lemma frag_more_poke:
  assumes "ready tg g" and "n \<le> 0x10000"
  shows "\<exists>p g'. frag_more tg n g = Inr (p, g') \<and> (\<forall>ys. length ys \<le> n \<longrightarrow> (\<exists>xs. appends tg xs g (poke_list p ys g')))"
proof -
  obtain p g' where M: "frag_more tg n g = Inr (p, g')" "\<forall>xs. length xs = n \<longrightarrow> appends tg xs g (poke_list p xs g')"
    using frag_more_appends [OF assms] by blast
  have "\<exists>xs. appends tg xs g (poke_list p ys g')" if "length ys \<le> n" for ys
  proof -
    let ?h = "poke_list p ys g'"
    let ?z = "octets ?h (p + length ys) (n - length ys)"
    have "poke_list p (ys @ ?z) g' = ?h" by (simp add: poke_list_append poke_list_self)
    moreover have "length (ys @ ?z) = n" using that by (simp add: octets_def)
    ultimately show ?thesis using M(2) by metis
  qed
  then show ?thesis using M(1) by blast
qed

section \<open>Variable frags and single octets\<close>

lemma frag_var_appends:
  assumes rd: "ready tg g" and n: "mx \<le> 0x10000" and ty: "type \<noteq> rs_dummy"
  shows "\<exists>p g'. frag_var tg type mx var sub sy off g = Inr (p, g') \<and> appends tg [] g g'
    \<and> fr_flags (frags g' (frag_now g')) = no_flags
    \<and> (\<exists>fc' ids bs. content_inv tg g' fc' ids bs \<and> obstack_object_size (frch_obstack fc') = 0)"
proof -
  obtain g1 fc1 ids bs where G: "frag_grow tg mx g = Inr g1" "appends tg [] g g1" "content_inv tg g1 fc1 ids bs"
    "mx \<le> obstack_room (frch_obstack fc1)"
    using frag_grow_appends [OF rd n] by blast
  let ?b = "upd_frchain (\<lambda>c. c\<lparr>frch_obstack := obstack_blank_fast (frch_obstack c) mx\<rparr>) g1"
  let ?fb = "fc1\<lparr>frch_obstack := obstack_blank_fast (frch_obstack fc1) mx\<rparr>"
  let ?u = "\<lambda>f. f\<lparr>fr_var := var, fr_type := type, fr_subtype := sub, fr_symbol := sy, fr_offset := off\<rparr>"
  let ?v = "upd_frag (frag_now g1) ?u ?b" and ?x = "octets ?b (next_free (frch_obstack fc1)) mx"
  have "length ?x = mx" by (simp add: octets_def)
  then have "content_inv tg ?b ?fb ids (bs @ ?x)"
    using blank_content(1) [OF G(3), of ?x] G(4) poke_list_self [of "next_free (frch_obstack fc1)" ?b mx] by simp
  then have v: "content_inv tg ?v ?fb ids (bs @ ?x)" by (simp add: upd_frag_content)
  have tv: "fr_type (frags ?v (frag_now ?v)) \<noteq> rs_dummy" using ty by (simp add: frags_upd_frag)
  have th: "the_frchain g1 = Some fc1" "object_base (frch_obstack fc1) \<le> next_free (frch_obstack fc1)"
    "frag_now g1 = last ids"
    using content_chain [OF G(3)] by (auto simp: chain_inv_def ob_ok_def obstack_ok_def)
  then have sz: "mx \<le> obstack_object_size (frch_obstack ?fb)"
    by (simp add: obstack_object_size_def obstack_blank_fast_def)
  have tk: "take (length (bs @ ?x) - mx) (bs @ ?x) = bs" using \<open>length ?x = mx\<close> by simp
  obtain g' fc' ptr where N: "frag_new tg mx ?v = Inr g'" "content_inv tg g' fc' (ids @ [ptr]) bs"
    "alloc_effect tg (frch_obstack ?fb) ptr (frch_obstack fc')" "same_run ?v g'"
    "frags g' ptr = zero_frag\<lparr>frag_index := totalfrags ?v + 1\<rparr>"
    "\<exists>y. \<forall>p. p \<noteq> ptr \<longrightarrow> frags g' p = (if p = last ids then (frags ?v p)\<lparr>fr_fix := y, fr_next := Some ptr\<rparr> else frags ?v p)"
    using frag_new_content [OF v ready_target [OF rd] tv sz] unfolding tk by blast
  have kept: "marks_kept (frags g1 p) (frags g' p) \<and> (p \<noteq> last ids \<longrightarrow> fr_fix (frags g' p) = fr_fix (frags g1 p))"
    if ne: "p \<noteq> ptr" for p
  proof -
    obtain y where "frags g' p = (if p = last ids then (frags ?v p)\<lparr>fr_fix := y, fr_next := Some ptr\<rparr> else frags ?v p)"
      using N(6) ne by blast
    then show ?thesis using th(3) by (cases "p = last ids") (simp_all add: marks_kept_def frags_upd_frag)
  qed
  have d: "distinct (ids @ [ptr])" "frag_now g' = ptr" using N(2) by (simp_all add: content_inv_def chain_inv_def)
  have run: "same_run g1 g'" using N(4) same_run_trans [of g1 ?v g'] by simp
  have "appends tg [] g1 g'"
  proof (rule appendsI [OF G(3), of g' fc' "[ptr]"])
    show "content_inv tg g' fc' (ids @ [ptr]) (bs @ [])" using N(2) by simp
    show "marks_kept (frags g1 p) (frags g' p)" if p: "p \<in> set ids" for p
    proof -
      have "p \<noteq> ptr" using p d(1) by auto
      then show ?thesis using kept by blast
    qed
    show "unlabelled (frags g' p)" if "p \<in> set [ptr]" for p using that N(5) unlabelled_zero by simp
    show "fr_fix (frags g' p) = fr_fix (frags g1 p)" if "p \<in> set (butlast ids)" for p
    proof -
      have "p \<noteq> ptr" "p \<noteq> last ids"
        using that d(1) butlast_not_last [of ids p] in_set_butlastD [OF that] by auto
      then show ?thesis using kept by blast
    qed
  qed (rule run)
  then have "appends tg [] g g'" by (rule appends_Nil_trans [OF G(2)])
  moreover have "frag_var tg type mx var sub sy off g = Inr (next_free (frch_obstack fc1), g')"
    using G(1) th(1) N(1) by (simp add: frag_var_def frag_var_init_def)
  moreover have "fr_flags (frags g' (frag_now g')) = no_flags" using N(5) d(2) by (simp add: zero_frag_def)
  moreover have "obstack_object_size (frch_obstack fc') = 0"
    using N(3) by (simp add: alloc_effect_def obstack_object_size_def)
  ultimately show ?thesis using N(2) by blast
qed

text \<open>Only the current chain, the frags and the memory matter for what a chain holds.\<close>

lemma content_cong:
  assumes "the_frchain g' = the_frchain g" and "frags g' = frags g" and "mem g' = mem g" and "now_seg g' = now_seg g"
    and "frag_now g' = frag_now g"
  shows "content_inv tg g' fc ids bs = content_inv tg g fc ids bs"
proof -
  have oc: "octets g' = octets g" using assms(3) by (simp add: octets_def fun_eq_iff)
  then have "closed_octets tg g' = closed_octets tg g" using assms(2) by (simp add: closed_octets_def fun_eq_iff)
  with oc have "chain_octets tg g' fc ids = chain_octets tg g fc ids" by (simp add: chain_octets_def)
  moreover have "lits_ok tg g' fc ids = lits_ok tg g fc ids" using assms(2) by (simp add: lits_ok_def)
  moreover have "chain_inv tg g' fc ids = chain_inv tg g fc ids"
    using assms by (simp add: chain_inv_def frag_next_def [abs_def])
  ultimately show ?thesis by (simp only: content_inv_def)
qed

lemma append_1_room:
  assumes c: "content_inv tg g fc ids bs" and room: "1 \<le> obstack_room (frch_obstack fc)"
  shows "appends tg [x] g (poke (next_free (frch_obstack fc)) x
    (upd_frchain (\<lambda>c. c\<lparr>frch_obstack := obstack_blank_fast (frch_obstack fc) 1\<rparr>) g))"
proof -
  let ?g = "upd_frchain (\<lambda>c. c\<lparr>frch_obstack := obstack_blank_fast (frch_obstack fc) 1\<rparr>) g"
  let ?h = "upd_frchain (\<lambda>c. c\<lparr>frch_obstack := obstack_blank_fast (frch_obstack c) 1\<rparr>) g"
  let ?fc = "fc\<lparr>frch_obstack := obstack_blank_fast (frch_obstack fc) 1\<rparr>"
  have th: "the_frchain g = Some fc" using content_chain [OF c] by (simp add: chain_inv_def)
  have "the_frchain ?g = Some ?fc" "the_frchain ?h = Some ?fc" by (rule the_frchain_upd [OF th], simp)+
  then have e: "the_frchain (poke a x ?g) = the_frchain (poke a x ?h)" for a
    using the_frchain_cong [of "poke a x ?g" ?g] the_frchain_cong [of "poke a x ?h" ?h] by (simp add: poke_def)
  have "content_inv tg (poke (next_free (frch_obstack fc)) x ?h) ?fc ids (bs @ [x])"
    using blank_content(1) [OF c, of "[x]"] room by simp
  moreover have "content_inv tg (poke (next_free (frch_obstack fc)) x ?g) ?fc ids (bs @ [x])
      = content_inv tg (poke (next_free (frch_obstack fc)) x ?h) ?fc ids (bs @ [x])"
    by (rule content_cong [OF e]) (simp_all add: poke_def)
  moreover have "same_run g (poke a x k) = same_run g k" for a k by (simp add: same_run_def poke_def)
  ultimately show ?thesis
    by (intro appendsI [OF c, of _ ?fc "[]"]) (simp_all, simp_all add: poke_def)
qed

lemma frag_append_1_appends:
  assumes rd: "ready tg g"
  shows "\<exists>g'. frag_append_1_char tg x g = Inr g' \<and> appends tg [x] g g'"
proof -
  obtain fc ids bs where c: "content_inv tg g fc ids bs" using rd by (auto simp: ready_def)
  have th: "the_frchain g = Some fc" "chunk_size (frch_obstack fc) \<noteq> 0"
    using content_chain [OF c] by (auto simp: chain_inv_def ob_ok_def)
  have al: "frag_alloc_check g = Inr ()" using th rd by (simp add: frag_alloc_check_def ready_def)
  let ?step = "if obstack_room (frch_obstack fc) \<le> 1 then frag_new tg 0 (frag_wane (frag_now g) g) else Inr g"
  have "\<exists>g1 fc1 ids1. ?step = Inr g1 \<and> appends tg [] g g1 \<and> content_inv tg g1 fc1 ids1 bs \<and> 1 \<le> obstack_room (frch_obstack fc1)"
  proof (cases "obstack_room (frch_obstack fc) \<le> 1")
    case True
    obtain g1 fc1 ptr where N: "close_frag tg g = Inr g1" "appends tg [] g g1" "content_inv tg g1 fc1 (ids @ [ptr]) bs"
      "alloc_effect tg (frch_obstack fc) ptr (frch_obstack fc1)"
      using close_frag_ok [OF c ready_target [OF rd]] by blast
    have "1 \<le> obstack_room (frch_obstack fc1)"
      using N(4) True rd by (auto simp: alloc_effect_def ready_def contents_off_def)
    then show ?thesis using N True by (auto simp: close_frag_def)
  next
    case False
    then show ?thesis using c by auto
  qed
  then obtain g1 fc1 ids1 where A: "?step = Inr g1" "appends tg [] g g1" "content_inv tg g1 fc1 ids1 bs"
    "1 \<le> obstack_room (frch_obstack fc1)"
    by blast
  have th1: "the_frchain g1 = Some fc1" using content_chain [OF A(3)] by (simp add: chain_inv_def)
  have "newchunk_copy (frch_obstack fc1) (frch_obstack fc1) (mem g1) = mem g1"
    by (auto simp: newchunk_copy_def fun_eq_iff)
  then have "frag_append_1_char tg x g = Inr (poke (next_free (frch_obstack fc1)) x
      (upd_frchain (\<lambda>c. c\<lparr>frch_obstack := obstack_blank_fast (frch_obstack fc1) 1\<rparr>) g1))"
    using al th(1) A(1,4) th1 by (simp add: frag_append_1_char_def)
  then show ?thesis using appends_Nil_trans [OF A(2) append_1_room [OF A(3,4)]] by blast
qed

section \<open>Fixups and symbols\<close>

text \<open>Changes to a chain that leave its frags and its obstack alone.\<close>

lemma upd_frchain_appends:
  assumes "\<And>c. frch_subseg (f c) = frch_subseg c" and "\<And>c. frch_root (f c) = frch_root c"
    and "\<And>c. frch_last (f c) = frch_last c" and "\<And>c. frch_obstack (f c) = frch_obstack c"
  shows "appends tg [] g (upd_frchain f g)"
proof -
  have "content_inv tg (upd_frchain f g) (f fc) ids bs" if c: "content_inv tg g fc ids bs" for fc ids bs
  proof -
    have th: "the_frchain (upd_frchain f g) = Some (f fc)"
      using content_chain [OF c] assms(1) by (intro the_frchain_upd) (simp_all add: chain_inv_def)
    have "octets (upd_frchain f g) = octets g" by (simp add: octets_def fun_eq_iff)
    then have "closed_octets tg (upd_frchain f g) = closed_octets tg g" "octets (upd_frchain f g) = octets g"
      by (simp_all add: closed_octets_def fun_eq_iff)
    then have "chain_octets tg (upd_frchain f g) (f fc) ids = chain_octets tg g fc ids"
      using assms(4) by (simp add: chain_octets_def)
    then show ?thesis
      using c th assms by (simp add: content_inv_def chain_inv_def lits_ok_def)
  qed
  then show ?thesis unfolding appends_def by simp (metis append_Nil2 empty_iff list.set(1))
qed

lemma appends_cong:
  assumes "the_frchain g' = the_frchain g" and "frags g' = frags g" and "mem g' = mem g" and "frag_now g' = frag_now g"
    and "same_run g g'"
  shows "appends tg [] g g'"
proof -
  have "now_seg g' = now_seg g" using assms(5) by (simp add: same_run_def)
  from content_cong [OF assms(1-3) this assms(4)] show ?thesis
    unfolding appends_def using assms(2,5) by (auto intro!: exI [of _ "[]"])
qed

lemma upd_fixes_appends: "upd_fixes f g = Inr g' \<Longrightarrow> appends tg [] g g'"
  by (auto simp: upd_fixes_def same_run_def split: if_splits intro!: upd_frchain_appends appends_cong)

lemma fix_new_internal_appends:
  "fix_new_internal frag wh sz a b off pcrel r st g = Inr (f, g') \<Longrightarrow> appends tg [] g g'"
  by (auto simp: fix_new_internal_def Let_def split: if_splits dest: upd_fixes_appends)

lemma symbol_create_appends: "symbol_create name sg fr v g = (s, g') \<Longrightarrow> appends tg [] g g'"
  by (auto simp: symbol_create_def same_run_def intro!: appends_cong the_frchain_cong)

lemma make_expr_symbol_appends: "make_expr_symbol ex g = Inr (s, g') \<Longrightarrow> appends tg [] g g'"
  by (auto simp: make_expr_symbol_def Let_def split: if_splits prod.splits dest: symbol_create_appends)

lemma fix_new_exp_appends:
  assumes "fix_new_exp frag wh sz ex pcrel r g = Inr (f, g')"
  shows "appends tg [] g g'"
  using assms
  by (auto simp: fix_new_exp_def split: operatorT.splits
      dest!: fix_new_internal_appends make_expr_symbol_appends intro: appends_Nil_trans)

text \<open>A value emitted by a data directive, up to what the octets of a field to relocate are.\<close>

lemma emit_expr_appends:
  assumes rd: "ready tg g" and n: "nbytes \<le> 0x10000" and e: "emit_expr tg big ex nbytes g = Inr g'"
  shows "\<exists>xs. appends tg xs g g'"
proof -
  obtain g0 where G: "frag_grow tg nbytes g = Inr g0" "appends tg [] g g0"
    using frag_grow_appends [OF rd n] by blast
  note r0 = ready_appends [OF rd G(2)]
  have sg: "now_seg g0 \<noteq> absolute_section" using r0 by (auto simp: ready_def content_inv_def chain_inv_def)
  obtain p g1 where M: "frag_more tg nbytes g0 = Inr (p, g1)" "\<And>ys. length ys \<le> nbytes \<Longrightarrow> \<exists>xs. appends tg xs g0 (poke_list p ys g1)"
    using frag_more_poke [OF r0 n] by blast
  have len: "length (emit_bignum ns x nbytes) \<le> nbytes" for ns x
    by (auto simp: emit_bignum_def sum_list_triv Let_def LITTLENUM_chars_def length_concat sum_list_replicate comp_def min_def
        simp del: le_chars_numeral)
  have len2: "length (emit_constant v nbytes) \<le> nbytes" for v by (simp add: emit_constant_def Let_def)
  have "(\<exists>ys. length ys \<le> nbytes \<and> g' = poke_list p ys g1) \<or> emit_expr_fix tg ex nbytes (frag_now g1) p (-1) g1 = Inr g'"
    using e G(1) sg M(1) len len2 by (auto simp: emit_expr_def Let_def split: if_splits)
  moreover have "\<exists>xs. appends tg xs g0 g'" if f: "emit_expr_fix tg ex nbytes (frag_now g1) p (-1) g1 = Inr g'"
  proof -
    obtain xs where "appends tg xs g0 (poke_list p (replicate nbytes 0) g1)" using M(2) [of "replicate nbytes 0"] by auto
    moreover have "appends tg [] (poke_list p (replicate nbytes 0) g1) g'"
      using f by (auto simp: emit_expr_fix_def Let_def dest!: fix_new_exp_appends)
    ultimately show ?thesis using appends_trans_Nil by blast
  qed
  ultimately have "\<exists>xs. appends tg xs g0 g'" using M(2) by blast
  then show ?thesis using appends_Nil_trans [OF G(2)] by blast
qed

end
