(* ===== verification/Insn.thy ===== *)
theory Insn
  imports Emission
begin

text \<open>
  Writing an x86 instruction into the frag chain (\<open>output_insn\<close> of \<open>src/gas/config/tc-i386.c\<close>) and
  the collector's work there: marking the symbols an instruction jumps to or accesses, and marking
  the frags its octets are in.  The configuration is 64-bit ELF with the default options (no branch
  alignment, no fence replacement, lock prefixes kept), operands without an explicit relocation
  operator, and no reference to \<open>_GLOBAL_OFFSET_TABLE_\<close>.
\<close>

section \<open>The assembled instruction\<close>

datatype jumpT =
    JUMP_NO
  | JUMP
  | JUMP_DWORD
  | JUMP_BYTE
  | JUMP_INTERSEGMENT
  | JUMP_ABSOLUTE

datatype opcode_spaceT =
    SPACE_BASE
  | SPACE_0F
  | SPACE_0F38
  | SPACE_0F3A
  | SPACE_OTHER

datatype opcodeprefixT =
    PREFIX_NONE
  | PREFIX_0X66
  | PREFIX_0XF3
  | PREFIX_0XF2

text \<open>The bits of \<open>i386_operand_type\<close> the output depends on.\<close>

record i386_operand_type =
  imm8 :: bool
  imm8s :: bool
  imm16 :: bool
  imm32 :: bool
  imm32s :: bool
  imm64 :: bool
  disp8 :: bool
  disp16 :: bool
  disp32 :: bool
  disp64 :: bool
  baseindex :: bool

record i386_operand =
  types :: i386_operand_type
  op_exp :: expressionS
  operand_pcrel :: bool

text \<open>\<open>struct _i386_insn\<close>: the template's fields first.  \<open>prefix\<close> has \<open>MAX_PREFIXES\<close> entries.
  \<open>cpu_padlock\<close> is whether the template is one of the three PadLock groups; \<open>qword_form\<close> is what
  \<open>output_imm\<close> asks for a sign-extended 32-bit immediate; \<open>lea32\<close> the part of \<open>want_disp32\<close> on \<open>lea\<close>.\<close>

record i386_insn =
  base_opcode :: u16
  opcode_length :: nat
  opcode_space :: opcode_spaceT
  opcodeprefix :: opcodeprefixT
  jump :: jumpT
  modrm :: bool
  isprefix :: bool
  is_any_vex_encoding :: bool
  is_apx_rex2_encoding :: bool
  cpu_padlock :: bool
  tm_disp16 :: bool
  lea32 :: bool
  qword_form :: bool
  dot_insn :: bool
  operands :: "i386_operand list"
  mem_operands :: nat
  disp_operands :: nat
  imm_operands :: nat
  prefix :: "byte list"
  prefixes :: nat
  vex_bytes :: "byte list"
  vrex :: byte
  rm_mode :: byte
  rm_reg :: byte
  rm_regmem :: byte
  sib_base :: byte
  sib_index :: byte
  sib_scale :: byte
  base_reg_word :: bool
  jumpabsolute :: bool
  memshift :: nat
  disp_big :: bool

definition WAIT_PREFIX :: nat where "WAIT_PREFIX = 0"
definition SEG_PREFIX :: nat where "SEG_PREFIX = 1"
definition ADDR_PREFIX :: nat where "ADDR_PREFIX = 2"
definition DATA_PREFIX :: nat where "DATA_PREFIX = 3"
definition REP_PREFIX :: nat where "REP_PREFIX = 4"
definition LOCK_PREFIX :: nat where "LOCK_PREFIX = 5"
definition REX_PREFIX :: nat where "REX_PREFIX = 6"

lemmas prefix_defs = WAIT_PREFIX_def SEG_PREFIX_def ADDR_PREFIX_def DATA_PREFIX_def REP_PREFIX_def
  LOCK_PREFIX_def REX_PREFIX_def

definition is_imm :: "i386_operand_type \<Rightarrow> bool" where
  "is_imm t = (imm8 t \<or> imm8s t \<or> imm16 t \<or> imm32 t \<or> imm32s t \<or> imm64 t)"

definition is_disp :: "i386_operand_type \<Rightarrow> bool" where
  "is_disp t = (disp8 t \<or> disp16 t \<or> disp32 t \<or> disp64 t)"

definition disp_size :: "i386_operand_type \<Rightarrow> nat" where
  "disp_size t = (if disp64 t then 8 else if disp8 t then 1 else if disp16 t then 2 else 4)"

definition imm_size :: "i386_operand_type \<Rightarrow> nat" where
  "imm_size t = (if imm64 t then 8 else if imm8 t \<or> imm8s t then 1 else if imm16 t then 2 else 4)"

definition offset_in_range :: "u64 \<Rightarrow> nat \<Rightarrow> u64 result" where
  "offset_in_range val sz =
     (if sz = 1 then Inr (val AND 0xff) else if sz = 2 then Inr (val AND 0xffff)
      else if sz = 4 then Inr (val AND 0xffffffff) else if sz = 8 then Inr val else Inl Abort)"

section \<open>Symbols of the operands\<close>

definition symbolic :: "expressionS \<Rightarrow> bool" where
  "symbolic ex \<longleftrightarrow> X_op ex \<in> {O_symbol, O_add, O_subtract}"

definition is_branch :: "i386_insn \<Rightarrow> bool" where
  "is_branch i \<longleftrightarrow> jump i \<in> {JUMP, JUMP_BYTE, JUMP_DWORD, JUMP_INTERSEGMENT}"

definition mark_operand :: "bool \<Rightarrow> i386_operand \<Rightarrow> (symP \<Rightarrow> symbol) \<Rightarrow> symP \<Rightarrow> symbol" where
  "mark_operand is_mem oper sy =
     (let ex = op_exp oper;
          mark = (\<lambda>s. if is_mem then S_SET_MA_SYMBOL s else S_SET_CF_SYMBOL s);
          once = (\<lambda>y. if symbolic ex then mark (X_op_symbol ex) (mark (X_add_symbol ex) y) else y);
          y1 = (if is_disp (types oper) then once sy else sy)
      in if is_imm (types oper) then once y1 else y1)"

definition update_symbol_status :: "i386_insn \<Rightarrow> (symP \<Rightarrow> symbol) \<Rightarrow> symP \<Rightarrow> symbol" where
  "update_symbol_status i sy =
     (if base_opcode i = 0x8d then sy
      else if is_branch i \<or> mem_operands i > 0
      then fold (mark_operand (mem_operands i > 0 \<and> \<not> is_branch i)) (operands i) sy
      else sy)"

text \<open>\<open>collect_labels\<close>, used with \<open>--fiy-dlabel\<close>: the labels of the operands of instructions that are
  not relative jumps.\<close>

definition collect_operand ::
  "(symP \<Rightarrow> symbol) \<Rightarrow> i386_operand \<Rightarrow> data_labels result option \<Rightarrow> data_labels result option" where
  "collect_operand sy oper r = (case r of
     Some (Inr d) \<Rightarrow> if (is_disp (types oper) \<or> is_imm (types oper)) \<and> X_op (op_exp oper) = O_symbol
       then store_labels_for_xom sy (X_add_symbol (op_exp oper)) (X_op_symbol (op_exp oper)) d else r
   | _ \<Rightarrow> r)"

definition collect_labels ::
  "i386_insn \<Rightarrow> (symP \<Rightarrow> symbol) \<Rightarrow> data_labels \<Rightarrow> data_labels result option" where
  "collect_labels i sy d =
     (if jump i \<in> {JUMP, JUMP_BYTE, JUMP_DWORD} then Some (Inr d)
      else fold (collect_operand sy) (operands i) (Some (Inr d)))"

section \<open>Octets\<close>

text \<open>In 64-bit ELF \<open>now_seg\<close> can still be the absolute section, where only the offset is counted.\<close>

definition frag_opcode_byte :: "target \<Rightarrow> byte \<Rightarrow> gas \<Rightarrow> gas result" where
  "frag_opcode_byte tg b g =
     (if now_seg g \<noteq> absolute_section then frag_append_1_char tg b g
      else Inr (g\<lparr>abs_section_offset := abs_section_offset g + 1\<rparr>))"

fun frag_opcode_bytes :: "target \<Rightarrow> byte list \<Rightarrow> gas \<Rightarrow> gas result" where
  "frag_opcode_bytes tg [] g = Inr g"
| "frag_opcode_bytes tg (b # bs) g = bindE (frag_opcode_byte tg b g) (frag_opcode_bytes tg bs)"

text \<open>\<open>add_prefix\<close> for the prefixes \<open>output_insn\<close> itself adds.\<close>

definition add_prefix :: "byte \<Rightarrow> i386_insn \<Rightarrow> i386_insn result" where
  "add_prefix p i =
     (let q = (if p = 0x66 then DATA_PREFIX else REP_PREFIX) in
      if p \<notin> {0x66, 0xf2, 0xf3} then Inl Abort
      else if prefix i ! q \<noteq> 0 then Inl As_bad
      else Inr (i\<lparr>prefix := (prefix i)[q := prefix i ! q OR p], prefixes := prefixes i + 1\<rparr>))"

definition opcode_prefix :: "i386_insn \<Rightarrow> i386_insn result" where
  "opcode_prefix i = (case opcodeprefix i of
     PREFIX_0X66 \<Rightarrow> add_prefix 0x66 i
   | PREFIX_0XF2 \<Rightarrow> add_prefix 0xf2 i
   | PREFIX_0XF3 \<Rightarrow> if \<not> cpu_padlock i \<or> prefix i ! REP_PREFIX \<noteq> 0xf3 then add_prefix 0xf3 i else Inr i
   | PREFIX_NONE \<Rightarrow>
       if opcode_length i = 2 then Inr i
       else if opcode_length i = 1 then (if isprefix i \<and> base_opcode i = 0 then Inl As_bad else Inr i)
       else Inl Abort)"

definition nonzero :: "byte list \<Rightarrow> byte list" where
  "nonzero bs = filter (\<lambda>b. b \<noteq> 0) bs"

text \<open>With a VEX or EVEX prefix only the segment and address prefixes may be set.\<close>

definition vex_prefixes_ok :: "i386_insn \<Rightarrow> bool" where
  "vex_prefixes_ok i \<longleftrightarrow> (\<forall>j < length (prefix i). prefix i ! j \<noteq> 0 \<longrightarrow> j = SEG_PREFIX \<or> j = ADDR_PREFIX) \<and> vrex i = 0"

text \<open>The opcode, high octet first.\<close>

definition escape_octets :: "i386_insn \<Rightarrow> byte list result" where
  "escape_octets i = (if vex_bytes i \<noteq> [] then Inr [] else case opcode_space i of
     SPACE_BASE \<Rightarrow> Inr [] | SPACE_0F \<Rightarrow> Inr [0x0f] | SPACE_0F38 \<Rightarrow> Inr [0x0f, 0x38] | SPACE_0F3A \<Rightarrow> Inr [0x0f, 0x3a]
   | SPACE_OTHER \<Rightarrow> Inl Abort)"

definition opcode_octets :: "i386_insn \<Rightarrow> byte list result" where
  "opcode_octets i =
     (if opcode_length i = 2 then Inr [ucast (drop_bit 8 (base_opcode i)), ucast (base_opcode i)]
      else if opcode_length i = 1 then Inr [ucast (base_opcode i)] else Inl Abort)"

definition modrm_octets :: "i386_insn \<Rightarrow> byte list" where
  "modrm_octets i = (if modrm i then
     (rm_regmem i OR push_bit 3 (rm_reg i) OR push_bit 6 (rm_mode i)) #
     (if rm_regmem i = 4 \<and> rm_mode i \<noteq> 3 \<and> \<not> base_reg_word i
      then [sib_base i OR push_bit 3 (sib_index i) OR push_bit 6 (sib_scale i)] else []) else [])"

text \<open>\<open>p = frag_more (length bs)\<close> and the octets \<open>bs\<close> stored there, or the offset counted.\<close>

definition out_octets :: "target \<Rightarrow> byte list \<Rightarrow> gas \<Rightarrow> gas result" where
  "out_octets tg bs g = (if now_seg g = absolute_section
     then Inr (g\<lparr>abs_section_offset := abs_section_offset g + word_of_nat (length bs)\<rparr>) else put tg bs g)"

definition output_opcode :: "target \<Rightarrow> i386_insn \<Rightarrow> gas \<Rightarrow> gas result" where
  "output_opcode tg i g =
     bindE (escape_octets i) (\<lambda>esc.
     if now_seg g = absolute_section
     then Inr (g\<lparr>abs_section_offset := abs_section_offset g + word_of_nat (opcode_length i + length esc)\<rparr>)
     else if opcode_length i + length esc = 1 then frag_append_1_char tg (ucast (base_opcode i)) g
     else bindE (opcode_octets i) (\<lambda>op. put tg (esc @ op) g))"

section \<open>Operands\<close>

definition want_disp32 :: "i386_insn \<Rightarrow> bool" where
  "want_disp32 i \<longleftrightarrow> prefix i ! ADDR_PREFIX \<noteq> 0 \<or> lea32 i"

definition imm_total :: "i386_insn \<Rightarrow> nat" where
  "imm_total i = sum_list (map (\<lambda>oper. imm_size (types oper)) (filter (\<lambda>oper. is_imm (types oper)) (operands i)))"

definition fix_field :: "target \<Rightarrow> expressionS \<Rightarrow> nat \<Rightarrow> bool \<Rightarrow> bool \<Rightarrow> gas \<Rightarrow> gas result" where
  "fix_field tg ex sz pcrel sign g =
     bindE (frag_more tg sz g) (\<lambda>(p, g1).
     bindE (reloc_for_size sz pcrel (of_bool sign)) (\<lambda>r.
     bindE (fix_new_exp (frag_now g1) (word_of_nat p - word_of_nat (frag_now g1 + sizeof_struct_frag tg))
              (word_of_nat sz) ex pcrel r g1) (\<lambda>(_, g2). Inr g2)))"

definition output_disp1 :: "target \<Rightarrow> i386_insn \<Rightarrow> i386_operand \<Rightarrow> gas \<Rightarrow> gas result" where
  "output_disp1 tg i oper g =
     (let t = types oper; ex = op_exp oper; sz = disp_size t in
      if \<not> is_disp t then Inr g
      else if now_seg g = absolute_section
      then Inr (g\<lparr>abs_section_offset := abs_section_offset g + word_of_nat sz\<rparr>)
      else if X_op ex = O_constant then
        bindE (offset_in_range (signed_drop_bit (if sz = 1 then memshift i else 0) (X_add_number ex)) sz) (\<lambda>val.
        put tg (le_chars sz val) g)
      else
        (let pcrel = operand_pcrel oper;
             sign = ((sz = 4 \<and> (\<not> want_disp32 i \<or> jump i \<noteq> JUMP_NO \<and> \<not> jumpabsolute i \<and> \<not> baseindex t)) \<or> pcrel);
             n_imm = length (filter (\<lambda>oper. is_imm (types oper)) (operands i)) in
         gas_assert (\<not> disp8 t) (
         gas_assert (pcrel \<and> imm_operands i \<noteq> 0 \<longrightarrow> (n_imm \<le> 1 \<or> dot_insn i) \<and> imm_total i \<noteq> 0) (
         let ex' = (if pcrel \<and> imm_operands i \<noteq> 0 then ex\<lparr>X_add_number := X_add_number ex - word_of_nat (imm_total i)\<rparr> else ex)
         in fix_field tg ex' sz pcrel sign g))))"

fun output_disp :: "target \<Rightarrow> i386_insn \<Rightarrow> i386_operand list \<Rightarrow> gas \<Rightarrow> gas result" where
  "output_disp tg i [] g = Inr g"
| "output_disp tg i (oper # opers) g = bindE (output_disp1 tg i oper g) (output_disp tg i opers)"

definition output_imm1 :: "target \<Rightarrow> i386_insn \<Rightarrow> i386_operand \<Rightarrow> gas \<Rightarrow> gas result" where
  "output_imm1 tg i oper g =
     (let t = types oper; ex = op_exp oper; sz = imm_size t in
      if \<not> is_imm t then Inr g
      else if now_seg g = absolute_section
      then Inr (g\<lparr>abs_section_offset := abs_section_offset g + word_of_nat sz\<rparr>)
      else if X_op ex = O_constant then
        bindE (offset_in_range (X_add_number ex) sz) (\<lambda>val. put tg (le_chars sz val) g)
      else fix_field tg ex sz False (imm32s t \<and> qword_form i) g)"

fun output_imm :: "target \<Rightarrow> i386_insn \<Rightarrow> i386_operand list \<Rightarrow> gas \<Rightarrow> gas result" where
  "output_imm tg i [] g = Inr g"
| "output_imm tg i (oper # opers) g = bindE (output_imm1 tg i oper g) (output_imm tg i opers)"

section \<open>Jumps\<close>

definition REX_W :: byte where
  "REX_W = 8"

definition flip_code16 :: "i386_insn \<Rightarrow> bool result" where
  "flip_code16 i = gas_assert (length (operands i) = 1) (Inr (prefix i ! REX_PREFIX AND REX_W = 0 \<and> tm_disp16 i))"

text \<open>\<open>code16\<close> after the data prefix has been looked at; 64-bit code starts with 0.\<close>

definition code16_of :: "i386_insn \<Rightarrow> bool result" where
  "code16_of i = (if prefix i ! DATA_PREFIX \<noteq> 0 then flip_code16 i else Inr False)"

definition ENCODE_RELAX_STATE :: "u32 \<Rightarrow> u32 \<Rightarrow> u32" where
  "ENCODE_RELAX_STATE type sz = (push_bit 2 type) OR sz"

definition UNCOND_JUMP :: u32 where "UNCOND_JUMP = 0"
definition COND_JUMP :: u32 where "COND_JUMP = 1"

definition branch_prefixes :: "i386_insn \<Rightarrow> byte list" where
  "branch_prefixes i =
     (if prefix i ! DATA_PREFIX \<noteq> 0 then [0x66] else [])
   @ (if prefix i ! SEG_PREFIX = 0x2e \<or> prefix i ! SEG_PREFIX = 0x3e then [prefix i ! SEG_PREFIX] else [])
   @ (if prefix i ! REP_PREFIX \<noteq> 0 then [0xf2] else [])
   @ (if prefix i ! REX_PREFIX \<noteq> 0 then [prefix i ! REX_PREFIX] else [])"

text \<open>A jump that relaxation will give its size: the prefixes and the opcode end a frag of type
  \<open>rs_machine_dependent\<close>.  \<open>fr_var\<close> carries the relocation, \<open>NO_RELOC\<close>, which is written 0.\<close>

definition output_branch :: "target \<Rightarrow> i386_insn \<Rightarrow> gas \<Rightarrow> gas result" where
  "output_branch tg i g =
     (if now_seg g = absolute_section then Inl As_bad
      else bindE (code16_of i) (\<lambda>code16.
      let pre = branch_prefixes i; sz = (if disp_big i then 2 else 0) in
      bindE (frag_grow tg (length pre + 2 + 4) g) (\<lambda>g1.
      bindE (frag_more tg (length pre + 1) g1) (\<lambda>(p, g2).
      let g3 = poke_list p (pre @ [ucast (base_opcode i)]) g2;
          subtype = ENCODE_RELAX_STATE
             (if (ucast (base_opcode i) :: byte) = 0xeb then UNCOND_JUMP else COND_JUMP) sz OR of_bool code16;
          ex = op_exp (operands i ! 0) in
      bindE (if X_op ex \<noteq> O_constant \<and> X_op ex \<noteq> O_symbol
             then bindE (make_expr_symbol ex g3) (\<lambda>(s, g4). Inr (s, 0, g4))
             else Inr (X_add_symbol ex, X_add_number ex, g3)) (\<lambda>(sym, off, g4).
      bindE (frag_var tg rs_machine_dependent 5 0 subtype sym off g4) (\<lambda>(_, g5). Inr g5))))))"

definition BFD_RELOC_X86_64_PLT32 :: reloc_code where
  "BFD_RELOC_X86_64_PLT32 = Other_reloc 4"

definition jump_prefixes :: "i386_insn \<Rightarrow> byte list" where
  "jump_prefixes i =
     (if jump i = JUMP_BYTE then
        (if prefix i ! ADDR_PREFIX \<noteq> 0 then [0x67] else [])
      @ (if prefix i ! SEG_PREFIX = 0x2e \<or> prefix i ! SEG_PREFIX = 0x3e then [prefix i ! SEG_PREFIX] else [])
      else (if prefix i ! DATA_PREFIX \<noteq> 0 then [0x66] else []))
   @ (if prefix i ! REP_PREFIX \<noteq> 0 then [prefix i ! REP_PREFIX] else [])
   @ (if prefix i ! REX_PREFIX \<noteq> 0 then [prefix i ! REX_PREFIX] else [])"

definition jump_size :: "i386_insn \<Rightarrow> nat result" where
  "jump_size i = (if jump i = JUMP_BYTE then Inr 1 else bindE (code16_of i) (\<lambda>c. Inr (if c then 2 else 4)))"

text \<open>Calls and \<open>loop\<close>-like jumps.  \<open>need_plt32_p\<close> asks for the binding of a symbol, which the model's
  symbols do not have; it is an argument.\<close>

definition output_jump :: "target \<Rightarrow> (symP option \<Rightarrow> bool) \<Rightarrow> i386_insn \<Rightarrow> gas \<Rightarrow> gas result" where
  "output_jump tg need_plt32_p i g =
     bindE (jump_size i) (\<lambda>sz.
     bindE (frag_opcode_bytes tg (jump_prefixes i) g) (\<lambda>g1.
     if now_seg g1 = absolute_section
     then Inr (g1\<lparr>abs_section_offset := abs_section_offset g1 + word_of_nat (opcode_length i + sz)\<rparr>)
     else
     bindE (frag_more tg (opcode_length i + sz) g1) (\<lambda>(p, g2).
     bindE (opcode_octets i) (\<lambda>op.
     let g3 = poke_list p op g2; ex = op_exp (operands i ! 0) in
     bindE (if sz = 4 \<and> X_add_number ex = 0 \<and> need_plt32_p (X_add_symbol ex)
            then Inr BFD_RELOC_X86_64_PLT32 else reloc_for_size sz True 1) (\<lambda>r.
     bindE (fix_new_exp (frag_now g3)
              (word_of_nat (p + length op) - word_of_nat (frag_now g3 + sizeof_struct_frag tg))
              (word_of_nat sz) ex True r g3) (\<lambda>(_, g4). Inr g4))))))"

text \<open>A far jump with its target in the instruction: the offset is operand 1, the segment operand 0.\<close>

definition far_field :: "target \<Rightarrow> expressionS \<Rightarrow> nat \<Rightarrow> nat \<Rightarrow> gas \<Rightarrow> gas result" where
  "far_field tg ex sz p g =
     (if X_op ex = O_constant then Inr (poke_list p (le_chars sz (X_add_number ex)) g)
      else bindE (reloc_for_size sz False 0) (\<lambda>r.
           bindE (fix_new_exp (frag_now g) (word_of_nat p - word_of_nat (frag_now g + sizeof_struct_frag tg))
                    (word_of_nat sz) ex False r g) (\<lambda>(_, g1). Inr g1)))"

definition fits_16 :: "u64 \<Rightarrow> bool" where
  "fits_16 n \<longleftrightarrow> 0 \<le> sint n \<and> sint n \<le> 0xffff \<or> -0x8000 \<le> sint n \<and> sint n < 0x8000"

definition output_interseg_jump :: "target \<Rightarrow> i386_insn \<Rightarrow> gas \<Rightarrow> gas result" where
  "output_interseg_jump tg i g =
     (let pre = (if prefix i ! DATA_PREFIX \<noteq> 0 then [0x66] else []);
          sz = (if prefix i ! DATA_PREFIX \<noteq> 0 then 2 else 4);
          off = op_exp (operands i ! 1); seg = op_exp (operands i ! 0) in
      gas_assert (prefix i ! REX_PREFIX = 0) (
      if now_seg g = absolute_section
      then Inr (g\<lparr>abs_section_offset := abs_section_offset g + word_of_nat (length pre + 1 + 2 + sz)\<rparr>)
      else
      bindE (frag_more tg (length pre + 1 + 2 + sz) g) (\<lambda>(p, g1).
      let g2 = poke_list p (pre @ [ucast (base_opcode i)]) g1; q = p + length pre + 1 in
      if X_op off = O_constant \<and> sz = 2 \<and> \<not> fits_16 (X_add_number off) then Inl As_bad
      else bindE (far_field tg off sz q g2) (far_field tg seg 2 (q + sz)))))"

section \<open>The whole instruction\<close>

text \<open>The frags from \<open>p\<close> up to \<open>stop\<close>; \<^term>\<open>None\<close> is a walk that does not end.\<close>

partial_function (option) frags_until :: "(fragP \<Rightarrow> frag) \<Rightarrow> fragP \<Rightarrow> fragP option \<Rightarrow> fragP list option" where
  [code]: "frags_until st stop p = (case p of None \<Rightarrow> Some []
     | Some q \<Rightarrow> if q = stop then Some []
                 else Option.bind (frags_until st stop (fr_next (st q))) (\<lambda>qs. Some (q # qs)))"

definition encoding_length :: "target \<Rightarrow> fragP \<Rightarrow> u64 \<Rightarrow> nat \<Rightarrow> gas \<Rightarrow> u32 option" where
  "encoding_length tg start_frag start_off p g =
     map_option (\<lambda>qs. sum_list (map (\<lambda>q. ucast (fr_fix (frags g q))) qs) - ucast start_off
        + word_of_nat p - word_of_nat (frag_now g + sizeof_struct_frag tg))
       (frags_until (frags g) (frag_now g) (Some start_frag))"

text \<open>The part of \<open>output_insn\<close> for all other instructions, up to the check of the length.\<close>

definition output_head :: "target \<Rightarrow> i386_insn \<Rightarrow> gas \<Rightarrow> (i386_insn \<times> gas) result" where
  "output_head tg i0 g =
     (if \<not> is_any_vex_encoding i0 then
        bindE (opcode_prefix i0) (\<lambda>i.
        bindE (frag_opcode_bytes tg (nonzero (prefix i)
                 @ (if is_apx_rex2_encoding i then take 2 (vex_bytes i) else [])) g) (\<lambda>g1. Inr (i, g1)))
      else if vex_prefixes_ok i0 then
        bindE (frag_opcode_bytes tg (nonzero (prefix i0)) g) (\<lambda>g1.
        bindE (out_octets tg (vex_bytes i0) g1) (\<lambda>g2. Inr (i0, g2)))
      else Inl Abort)"

definition output_normal :: "target \<Rightarrow> i386_insn \<Rightarrow> gas \<Rightarrow> gas result" where
  "output_normal tg i0 g =
     bindE (output_head tg i0 g) (\<lambda>(i, g1).
     bindE (output_opcode tg i g1) (\<lambda>g2.
     bindE (frag_opcode_bytes tg (modrm_octets i) g2) (\<lambda>g3.
     bindE (if disp_operands i \<noteq> 0 then output_disp tg i (operands i) g3 else Inr g3) (\<lambda>g4.
     if imm_operands i \<noteq> 0 then output_imm tg i (operands i) g4 else Inr g4))))"

definition check_length :: "target \<Rightarrow> i386_insn \<Rightarrow> fragP \<Rightarrow> u64 \<Rightarrow> gas \<Rightarrow> gas result option" where
  "check_length tg i start_frag start_off g =
     (if now_seg g = absolute_section then Some (Inr g)
      else (case frag_more tg 0 g of
          Inl e \<Rightarrow> Some (Inl e)
        | Inr (p, g1) \<Rightarrow> (case encoding_length tg start_frag start_off p g1 of
            None \<Rightarrow> None
          | Some j \<Rightarrow> Some (if 15 < j \<and> \<not> dot_insn i then Inl As_bad else Inr g1))))"

text \<open>With the collector on: the marks of the symbols and of the current frag before the output, the
  marks of the frags behind it.\<close>

definition insn_begins :: "i386_insn \<Rightarrow> gas \<Rightarrow> gas" where
  "insn_begins i g = (if fiy_dcollect g then
     (upd_frag (frag_now g) (\<lambda>f. f\<lparr>frag_has_insn := True\<rparr>)
       (g\<lparr>syms := update_symbol_status i (syms g), flash_symbol_point := True\<rparr>)) else g)"

definition set_insn :: "fragP \<Rightarrow> gas \<Rightarrow> gas" where
  "set_insn p = upd_frag p (\<lambda>f. f\<lparr>fr_flags := fr_flags f\<lparr>insn_frag := True\<rparr>\<rparr>)"

definition mark_insn_frags :: "fragP \<Rightarrow> gas \<Rightarrow> gas option" where
  "mark_insn_frags insn_start_frag g = (if fiy_dcollect g then
     map_option (\<lambda>qs. set_insn (frag_now g) (fold set_insn qs g))
       (frags_until (frags g) (frag_now g) (Some insn_start_frag)) else Some g)"

definition output_insn :: "target \<Rightarrow> (symP option \<Rightarrow> bool) \<Rightarrow> i386_insn \<Rightarrow> gas \<Rightarrow> gas result option" where
  "output_insn tg need_plt32_p i g =
     (case frag_now_fix tg g of Inl e \<Rightarrow> Some (Inl e) | Inr insn_start_off \<Rightarrow>
      let insn_start_frag = frag_now g; g1 = insn_begins i g;
          r = (if jump i = JUMP then Some (output_branch tg i g1)
               else if jump i = JUMP_BYTE \<or> jump i = JUMP_DWORD then Some (output_jump tg need_plt32_p i g1)
               else if jump i = JUMP_INTERSEGMENT then Some (output_interseg_jump tg i g1)
               else (case output_normal tg i g1 of Inl e \<Rightarrow> Some (Inl e)
                     | Inr g2 \<Rightarrow> check_length tg i insn_start_frag insn_start_off g2))
      in case r of None \<Rightarrow> None | Some (Inl e) \<Rightarrow> Some (Inl e)
         | Some (Inr g2) \<Rightarrow> map_option Inr (mark_insn_frags insn_start_frag g2))"

section \<open>What is appended\<close>

lemma ready_seg: "ready tg g \<Longrightarrow> now_seg g \<noteq> absolute_section"
  by (auto simp: ready_def content_inv_def chain_inv_def)

lemma opcode_byte_appends:
  "ready tg g \<Longrightarrow> \<exists>g'. frag_opcode_byte tg b g = Inr g' \<and> appends tg [b] g g'"
  using frag_append_1_appends ready_seg by (simp add: frag_opcode_byte_def)

lemma opcode_bytes_appends:
  "ready tg g \<Longrightarrow> \<exists>g'. frag_opcode_bytes tg bs g = Inr g' \<and> appends tg bs g g'"
proof (induction bs arbitrary: g)
  case (Cons b bs)
  obtain g1 where a: "frag_opcode_byte tg b g = Inr g1" "appends tg [b] g g1"
    using opcode_byte_appends [OF Cons.prems] by blast
  obtain g' where "frag_opcode_bytes tg bs g1 = Inr g'" "appends tg bs g1 g'"
    using Cons.IH [OF ready_appends [OF Cons.prems a(2)]] by blast
  then show ?case using a appends_trans [OF a(2)] by fastforce
qed simp

lemma put_appends:
  assumes "ready tg g" and "length bs \<le> 0x10000"
  shows "\<exists>g'. put tg bs g = Inr g' \<and> appends tg bs g g'"
  using frag_more_appends [OF assms] by (auto simp: put_def)

lemma out_octets_appends:
  assumes "ready tg g" and "length bs \<le> 0x10000"
  shows "\<exists>g'. out_octets tg bs g = Inr g' \<and> appends tg bs g g'"
  using put_appends [OF assms] ready_seg [OF assms(1)] by (simp add: out_octets_def)

lemma fix_field_appends:
  assumes "ready tg g" and "sz \<le> 8" and "fix_field tg ex sz pcrel sign g = Inr g'"
  shows "\<exists>xs. appends tg xs g g'"
proof -
  obtain p g1 where M: "frag_more tg sz g = Inr (p, g1)" "appends tg [] g1 g'"
    using assms(3) by (auto simp: fix_field_def dest!: fix_new_exp_appends)
  obtain xs where "appends tg xs g g1" using frag_more_raw [OF assms(1) M(1)] assms(2) by auto
  from appends_trans_Nil [OF this M(2)] show ?thesis by blast
qed

lemma sizes_le: "disp_size t \<le> 8" "imm_size t \<le> 8"
  by (simp_all add: disp_size_def imm_size_def)

lemma put_some:
  assumes "ready tg g" and "length bs \<le> 0x10000" and "put tg bs g = Inr g'"
  shows "\<exists>xs. appends tg xs g g'"
  using put_appends [OF assms(1,2)] assms(3) by auto

lemma field_appends:
  assumes rd: "ready tg g"
    and c: "g' = g \<or> (\<exists>bs. length bs \<le> 8 \<and> put tg bs g = Inr g')
      \<or> (\<exists>ex sz pcrel sign. sz \<le> 8 \<and> fix_field tg ex sz pcrel sign g = Inr g')"
  shows "\<exists>xs. appends tg xs g g'"
  using c
proof (elim disjE exE conjE)
  assume "g' = g"
  then show ?thesis using appends_refl by blast
next
  fix bs :: "byte list" assume "length bs \<le> 8" "put tg bs g = Inr g'"
  then show ?thesis using put_some [OF rd, of bs] by simp
next
  fix ex sz pcrel sign assume "sz \<le> 8" "fix_field tg ex sz pcrel sign g = Inr g'"
  then show ?thesis by (rule fix_field_appends [OF rd])
qed

lemma output_disp1_appends:
  assumes rd: "ready tg g" and o: "output_disp1 tg i oper g = Inr g'"
  shows "\<exists>xs. appends tg xs g g'"
  using o ready_seg [OF rd] sizes_le(1) [of "types oper"]
  by (intro field_appends [OF rd]) (auto simp: output_disp1_def Let_def split: if_splits)

lemma output_imm1_appends:
  assumes rd: "ready tg g" and o: "output_imm1 tg i oper g = Inr g'"
  shows "\<exists>xs. appends tg xs g g'"
  using o ready_seg [OF rd] sizes_le(2) [of "types oper"]
  by (intro field_appends [OF rd]) (auto simp: output_imm1_def Let_def split: if_splits)

text \<open>Sequences of routines each of which appends something.\<close>

lemma bind_appends:
  assumes "ready tg g" and "bindE (m g) k = Inr g'"
    and "\<And>g1. m g = Inr g1 \<Longrightarrow> \<exists>xs. appends tg xs g g1"
    and "\<And>g1. ready tg g1 \<Longrightarrow> k g1 = Inr g' \<Longrightarrow> \<exists>xs. appends tg xs g1 g'"
  shows "\<exists>xs. appends tg xs g g'"
proof -
  obtain g1 where g1: "m g = Inr g1" "k g1 = Inr g'" using assms(2) by auto
  obtain xs where xs: "appends tg xs g g1" using assms(3) [OF g1(1)] by blast
  obtain ys where "appends tg ys g1 g'" using assms(4) [OF ready_appends [OF assms(1) xs] g1(2)] by blast
  then show ?thesis using appends_trans [OF xs] by blast
qed

lemma output_disp_appends:
  "ready tg g \<Longrightarrow> output_disp tg i opers g = Inr g' \<Longrightarrow> \<exists>xs. appends tg xs g g'"
proof (induction opers arbitrary: g)
  case (Cons oper opers)
  show ?case using Cons.prems(2)
    by (simp only: output_disp.simps)
      (rule bind_appends [OF Cons.prems(1), where m = "output_disp1 tg i oper"], assumption,
        erule output_disp1_appends [OF Cons.prems(1)], erule (1) Cons.IH)
qed (auto intro: appends_refl)

lemma output_imm_appends:
  "ready tg g \<Longrightarrow> output_imm tg i opers g = Inr g' \<Longrightarrow> \<exists>xs. appends tg xs g g'"
proof (induction opers arbitrary: g)
  case (Cons oper opers)
  show ?case using Cons.prems(2)
    by (simp only: output_imm.simps)
      (rule bind_appends [OF Cons.prems(1), where m = "output_imm1 tg i oper"], assumption,
        erule output_imm1_appends [OF Cons.prems(1)], erule (1) Cons.IH)
qed (auto intro: appends_refl)

text \<open>Fixups do not look at the memory, so octets stored behind them can be stored before them.\<close>

lemma the_frchain_mem [simp]: "the_frchain (g\<lparr>mem := m\<rparr>) = the_frchain g"
  by (rule the_frchain_cong) simp_all

lemma upd_frchain_mem: "upd_frchain f (g\<lparr>mem := m\<rparr>) = (upd_frchain f g)\<lparr>mem := m\<rparr>"
  by (simp add: upd_frchain_def split: option.split)

lemma upd_fixes_mem: "upd_fixes f g = Inr g' \<Longrightarrow> upd_fixes f (g\<lparr>mem := m\<rparr>) = Inr (g'\<lparr>mem := m\<rparr>)"
  by (auto simp: upd_fixes_def upd_frchain_mem split: if_splits)

lemma fix_new_internal_mem:
  "fix_new_internal fr wh sz a b off pcrel r st g = Inr (f, g') \<Longrightarrow>
   fix_new_internal fr wh sz a b off pcrel r st (g\<lparr>mem := m\<rparr>) = Inr (f, g'\<lparr>mem := m\<rparr>)"
  by (auto simp: fix_new_internal_def Let_def upd_fixes_mem split: if_splits)

lemma make_expr_symbol_mem:
  "make_expr_symbol ex g = Inr (s, g') \<Longrightarrow> make_expr_symbol ex (g\<lparr>mem := m\<rparr>) = Inr (s, g'\<lparr>mem := m\<rparr>)"
  by (auto simp: make_expr_symbol_def symbol_create_def Let_def split: if_splits)

lemma fix_new_exp_mem:
  assumes "fix_new_exp fr wh sz ex pcrel r g = Inr (f, g')"
  shows "fix_new_exp fr wh sz ex pcrel r (g\<lparr>mem := m\<rparr>) = Inr (f, g'\<lparr>mem := m\<rparr>)"
proof -
  have d: "bindE (make_expr_symbol ex (g\<lparr>mem := m\<rparr>)) (\<lambda>(s, g1). fix_new_internal fr wh sz s None 0 pcrel r False g1)
      = Inr (f, g'\<lparr>mem := m\<rparr>)"
    if b: "bindE (make_expr_symbol ex g) (\<lambda>(s, g1). fix_new_internal fr wh sz s None 0 pcrel r False g1) = Inr (f, g')"
  proof -
    obtain s g1 where "make_expr_symbol ex g = Inr (s, g1)" "fix_new_internal fr wh sz s None 0 pcrel r False g1 = Inr (f, g')"
      using b by auto
    then show ?thesis by (simp add: make_expr_symbol_mem fix_new_internal_mem)
  qed
  show ?thesis
    using assms unfolding fix_new_exp_def
    by (cases "X_op ex") (simp_all only: operatorT.case fix_new_internal_mem d sum.distinct)
qed

lemma mem_fixes: "upd_fixes f g = Inr g' \<Longrightarrow> mem g' = mem g"
  by (auto simp: upd_fixes_def split: if_splits)

lemma mem_fix_new_internal: "fix_new_internal fr wh sz a b off pcrel r st g = Inr (f, g') \<Longrightarrow> mem g' = mem g"
  by (auto simp: fix_new_internal_def Let_def dest: mem_fixes split: if_splits)

lemma mem_make_expr_symbol: "make_expr_symbol ex g = Inr (s, g') \<Longrightarrow> mem g' = mem g"
  by (auto simp: make_expr_symbol_def symbol_create_def Let_def split: if_splits)

lemma mem_fix_new_exp: "fix_new_exp fr wh sz ex pcrel r g = Inr (f, g') \<Longrightarrow> mem g' = mem g"
  by (auto simp: fix_new_exp_def split: operatorT.splits dest!: mem_fix_new_internal mem_make_expr_symbol)

lemma appends_fix_then_poke:
  assumes f: "fix_new_exp fr wh sz ex pcrel r g = Inr (x, g')" and a: "appends tg xs h (poke_list q ys g)"
  shows "appends tg xs h (poke_list q ys g')"
proof -
  have "mem (poke_list q ys g') = mem (poke_list q ys g)"
    using mem_fix_new_exp [OF f] by (simp add: fun_eq_iff mem_poke_list)
  with poke_list_mem [of q ys g'] have "poke_list q ys g' = g'\<lparr>mem := mem (poke_list q ys g)\<rparr>" by simp
  moreover have "fix_new_exp fr wh sz ex pcrel r (poke_list q ys g) = Inr (x, g'\<lparr>mem := mem (poke_list q ys g)\<rparr>)"
    using fix_new_exp_mem [OF f] poke_list_mem [of q ys g] by metis
  ultimately show ?thesis using appends_trans_Nil [OF a] fix_new_exp_appends by metis
qed

section \<open>Jumps append\<close>

lemma length_branch_prefixes: "length (branch_prefixes i) \<le> 4"
  by (simp add: branch_prefixes_def)

lemma output_branch_appends:
  assumes rd: "ready tg g" and o: "output_branch tg i g = Inr g'"
  shows "\<exists>xs. appends tg xs g g'" and "\<exists>fc ids bs. content_inv tg g' fc ids bs \<and> obstack_object_size (frch_obstack fc) = 0"
proof -
  let ?n = "length (branch_prefixes i)"
  have n: "?n + 2 + 4 \<le> 0x10000" "?n + 1 \<le> 0x10000" using length_branch_prefixes [of i] by simp_all
  obtain g1 where G: "frag_grow tg (?n + 2 + 4) g = Inr g1" "appends tg [] g g1"
    using frag_grow_appends [OF rd n(1)] by blast
  note r1 = ready_appends [OF rd G(2)]
  let ?bs = "branch_prefixes i @ [ucast (base_opcode i)]"
  obtain p g2 where M: "frag_more tg (?n + 1) g1 = Inr (p, g2)" "appends tg ?bs g1 (poke_list p ?bs g2)"
    using frag_more_appends [OF r1 n(2)] by auto
  let ?g3 = "poke_list p ?bs g2"
  note r3 = ready_appends [OF r1 M(2)]
  let ?ex = "op_exp (operands i ! 0)"
  obtain sym off sub g4 q where S: "(if X_op ?ex \<noteq> O_constant \<and> X_op ?ex \<noteq> O_symbol
      then bindE (make_expr_symbol ?ex ?g3) (\<lambda>(s, g4). Inr (s, 0, g4)) else Inr (X_add_symbol ?ex, X_add_number ?ex, ?g3))
      = Inr (sym, off, g4)" "frag_var tg rs_machine_dependent 5 0 sub sym off g4 = Inr (q, g')"
    using o G(1) M(1) ready_seg [OF rd] unfolding output_branch_def Let_def by auto
  have a4: "appends tg [] ?g3 g4"
    using S(1) make_expr_symbol_appends by (auto split: if_splits)
  have V: "appends tg [] g4 g'" "\<exists>fc ids bs. content_inv tg g' fc ids bs \<and> obstack_object_size (frch_obstack fc) = 0"
    using frag_var_appends [OF ready_appends [OF r3 a4], of 5 rs_machine_dependent 0 sub sym off] S(2) by auto
  have "appends tg (?bs @ []) g g'"
    using appends_Nil_trans [OF G(2) appends_trans_Nil [OF M(2) appends_Nil_trans [OF a4 V(1)]]] by simp
  then show "\<exists>xs. appends tg xs g g'" by blast
  show "\<exists>fc ids bs. content_inv tg g' fc ids bs \<and> obstack_object_size (frch_obstack fc) = 0" by (rule V(2))
qed

text \<open>Room of \<open>n\<close> octets at \<open>p\<close> that has been reserved but may still be written.\<close>

definition reserved :: "target \<Rightarrow> gas \<Rightarrow> nat \<Rightarrow> nat \<Rightarrow> gas \<Rightarrow> bool" where
  "reserved tg g p n k \<longleftrightarrow> (\<forall>ys. length ys = n \<longrightarrow> appends tg ys g (poke_list p ys k))"

lemma reserved_more: "ready tg g \<Longrightarrow> n \<le> 0x10000 \<Longrightarrow> frag_more tg n g = Inr (p, k) \<Longrightarrow> reserved tg g p n k"
  using frag_more_appends [of tg g n] by (auto simp: reserved_def)

lemma reserved_poke:
  assumes "reserved tg g p n k" and "p \<le> q" and "q + length zs \<le> p + n"
  shows "reserved tg g p n (poke_list q zs k)"
proof -
  have "poke_list p ys (poke_list q zs k) = poke_list p ys k" if "length ys = n" for ys
  proof -
    have "mem (poke_list p ys (poke_list q zs k)) = mem (poke_list p ys k)"
      using assms(2,3) that by (auto simp: fun_eq_iff mem_poke_list)
    moreover have "(poke_list q zs k)\<lparr>mem := M\<rparr> = k\<lparr>mem := M\<rparr>" for M by (subst poke_list_mem) simp
    ultimately show ?thesis
      using poke_list_mem [of p ys "poke_list q zs k"] poke_list_mem [of p ys k] by simp
  qed
  then show ?thesis using assms(1) by (simp add: reserved_def)
qed

lemma reserved_fix: "reserved tg g p n k \<Longrightarrow> fix_new_exp fr wh sz ex pcrel r k = Inr (x, k') \<Longrightarrow> reserved tg g p n k'"
  unfolding reserved_def using appends_fix_then_poke by blast

lemma reserved_done: "reserved tg g p n k \<Longrightarrow> \<exists>xs. appends tg xs g k"
  using poke_list_self [of p k n] by (auto simp: reserved_def octets_def dest!: spec [of _ "octets k p n"])

lemma reserved_far:
  assumes "reserved tg g p n k" and "far_field tg ex sz q k = Inr k'" and "p \<le> q" and "q + sz \<le> p + n"
  shows "reserved tg g p n k'"
  using assms reserved_poke [OF assms(1,3), of "le_chars sz (X_add_number ex)"]
  by (auto simp: far_field_def intro: reserved_fix split: if_splits)

lemma output_jump_appends:
  assumes rd: "ready tg g" and o: "output_jump tg plt i g = Inr g'"
  shows "\<exists>xs. appends tg xs g g'"
proof -
  obtain g1 where P: "frag_opcode_bytes tg (jump_prefixes i) g = Inr g1" "appends tg (jump_prefixes i) g g1"
    using opcode_bytes_appends [OF rd] by blast
  note r1 = ready_appends [OF rd P(2)]
  let ?rel = "\<lambda>sz ex. if sz = 4 \<and> X_add_number ex = 0 \<and> plt (X_add_symbol ex)
            then Inr BFD_RELOC_X86_64_PLT32 else reloc_for_size sz True 1"
  obtain sz where sz: "jump_size i = Inr sz" using o by (auto simp: output_jump_def)
  obtain p g2 op r f where J: "frag_more tg (opcode_length i + sz) g1 = Inr (p, g2)"
    "opcode_octets i = Inr op" "fix_new_exp (frag_now (poke_list p op g2))
              (word_of_nat (p + length op) - word_of_nat (frag_now (poke_list p op g2) + sizeof_struct_frag tg))
              (word_of_nat sz) (op_exp (operands i ! 0)) True r (poke_list p op g2) = Inr (f, g')"
    using o P(1) ready_seg [OF r1] sz unfolding output_jump_def Let_def
    by (simp only: bindE.simps bindE_Inr_iff if_False split_paired_Ex prod.case) blast
  have "length op = opcode_length i" "opcode_length i \<le> 2" "sz \<le> 4"
    using J(2) sz by (auto simp: opcode_octets_def jump_size_def split: if_splits)
  then have "reserved tg g1 p (opcode_length i + sz) (poke_list p op g2)"
    using reserved_more [OF r1 _ J(1)] by (intro reserved_poke) simp_all
  from reserved_done [OF reserved_fix [OF this J(3)]] show ?thesis
    using appends_trans [OF P(2)] by blast
qed

lemma output_interseg_appends:
  assumes rd: "ready tg g" and o: "output_interseg_jump tg i g = Inr g'"
  shows "\<exists>xs. appends tg xs g g'"
proof -
  let ?d = "prefix i ! DATA_PREFIX \<noteq> 0"
  let ?pre = "if ?d then [0x66 :: byte] else []" and ?sz = "if ?d then 2 else 4 :: nat"
  let ?n = "length ?pre + 1 + 2 + ?sz"
  obtain p g1 g3 where J: "frag_more tg ?n g = Inr (p, g1)"
    "far_field tg (op_exp (operands i ! 1)) ?sz (p + length ?pre + 1) (poke_list p (?pre @ [ucast (base_opcode i)]) g1) = Inr g3"
    "far_field tg (op_exp (operands i ! 0)) 2 (p + length ?pre + 1 + ?sz) g3 = Inr g'"
    using o ready_seg [OF rd] unfolding output_interseg_jump_def Let_def
    by (auto split: if_splits simp del: poke_list.simps)
  have "reserved tg g p ?n (poke_list p (?pre @ [ucast (base_opcode i)]) g1)"
    using reserved_more [OF rd _ J(1)] by (intro reserved_poke) simp_all
  from reserved_far [OF reserved_far [OF this J(2)] J(3)] reserved_done show ?thesis by simp
qed

section \<open>Other instructions append their encoding\<close>

text \<open>The encoding of an instruction all of whose immediates and displacements are constants: prefixes,
  opcode, addressing octets, displacement, immediate.\<close>

definition disp_octets :: "i386_insn \<Rightarrow> i386_operand \<Rightarrow> byte list" where
  "disp_octets i oper = (let sz = disp_size (types oper) in if is_disp (types oper)
     then le_chars sz (signed_drop_bit (if sz = 1 then memshift i else 0) (X_add_number (op_exp oper))) else [])"

definition imm_octets :: "i386_operand \<Rightarrow> byte list" where
  "imm_octets oper = (if is_imm (types oper)
     then le_chars (imm_size (types oper)) (X_add_number (op_exp oper)) else [])"

definition head_octets :: "i386_insn \<Rightarrow> (i386_insn \<times> byte list) result" where
  "head_octets i = (if \<not> is_any_vex_encoding i then bindE (opcode_prefix i) (\<lambda>i'.
       Inr (i', nonzero (prefix i') @ (if is_apx_rex2_encoding i' then take 2 (vex_bytes i') else [])))
     else if vex_prefixes_ok i then Inr (i, nonzero (prefix i) @ vex_bytes i) else Inl Abort)"

definition insn_octets :: "i386_insn \<Rightarrow> byte list result" where
  "insn_octets i0 = bindE (head_octets i0) (\<lambda>(i, pre).
     bindE (escape_octets i) (\<lambda>esc. bindE (opcode_octets i) (\<lambda>op.
     Inr (pre @ esc @ op @ modrm_octets i
       @ (if disp_operands i \<noteq> 0 then concat (map (disp_octets i) (operands i)) else [])
       @ (if imm_operands i \<noteq> 0 then concat (map imm_octets (operands i)) else [])))))"

definition constant_fields :: "i386_insn \<Rightarrow> bool" where
  "constant_fields i \<longleftrightarrow> (\<forall>oper \<in> set (operands i).
     is_disp (types oper) \<or> is_imm (types oper) \<longrightarrow> X_op (op_exp oper) = O_constant)"

lemma le_chars_mask: "8 * n \<le> m \<Longrightarrow> le_chars n (v AND mask m) = le_chars n v"
proof (induction n v arbitrary: m rule: le_chars.induct)
  case (2 n val)
  have "drop_bit 8 (val AND mask m) = drop_bit 8 val AND (mask (m - 8) :: u64)"
    using 2(2) by (intro bit_eqI) (auto simp: bit_simps dest: bit_imp_le_length)
  moreover have "(val AND mask m) AND 0xff = val AND (0xff :: u64)"
  proof -
    have ff: "(0xff :: u64) = mask 8" by (simp add: mask_eq_exp_minus_1)
    show ?thesis unfolding ff using 2(2) by (intro bit_eqI) (auto simp: bit_and_iff bit_mask_iff)
  qed
  ultimately show ?case using 2(1) [of "m - 8"] 2(2) by simp
qed simp

lemma le_chars_masked:
  "le_chars 1 (v AND 0xff) = le_chars 1 v" "le_chars 2 (v AND 0xffff) = le_chars 2 v"
  "le_chars 4 (v AND 0xffffffff) = le_chars 4 v"
  using le_chars_mask [of 1 8 v] le_chars_mask [of 2 16 v] le_chars_mask [of 4 32 v]
  by (simp_all add: mask_eq_exp_minus_1 del: le_chars_numeral)

lemma offset_in_range_octets:
  assumes "sz \<in> {1, 2, 4, 8}"
  shows "\<exists>val. offset_in_range v sz = Inr val \<and> le_chars sz val = le_chars sz v"
  using assms le_chars_masked by (auto simp: offset_in_range_def simp del: le_chars_numeral)

lemma output_disp1_octets:
  assumes rd: "ready tg g" and c: "is_disp (types oper) \<Longrightarrow> X_op (op_exp oper) = O_constant"
  shows "\<exists>g'. output_disp1 tg i oper g = Inr g' \<and> appends tg (disp_octets i oper) g g'"
proof (cases "is_disp (types oper)")
  case True
  let ?sz = "disp_size (types oper)" and ?v = "X_add_number (op_exp oper)"
  have "?sz \<in> {1, 2, 4, 8}" by (simp add: disp_size_def)
  from offset_in_range_octets [OF this] obtain val where v:
    "offset_in_range (signed_drop_bit (if ?sz = 1 then memshift i else 0) ?v) ?sz = Inr val"
    "le_chars ?sz val = le_chars ?sz (signed_drop_bit (if ?sz = 1 then memshift i else 0) ?v)"
    by blast
  have "length (le_chars ?sz val) \<le> 0x10000" using sizes_le(1) [of "types oper"] by simp
  from put_appends [OF rd this] show ?thesis
    using True c ready_seg [OF rd] v by (simp add: output_disp1_def disp_octets_def Let_def)
next
  case False
  then show ?thesis by (simp add: output_disp1_def disp_octets_def Let_def)
qed

lemma output_imm1_octets:
  assumes rd: "ready tg g" and c: "is_imm (types oper) \<Longrightarrow> X_op (op_exp oper) = O_constant"
  shows "\<exists>g'. output_imm1 tg i oper g = Inr g' \<and> appends tg (imm_octets oper) g g'"
proof (cases "is_imm (types oper)")
  case True
  let ?sz = "imm_size (types oper)" and ?v = "X_add_number (op_exp oper)"
  have "?sz \<in> {1, 2, 4, 8}" by (simp add: imm_size_def)
  from offset_in_range_octets [OF this] obtain val where v:
    "offset_in_range ?v ?sz = Inr val" "le_chars ?sz val = le_chars ?sz ?v"
    by blast
  have "length (le_chars ?sz val) \<le> 0x10000" using sizes_le(2) [of "types oper"] by simp
  from put_appends [OF rd this] show ?thesis
    using True c ready_seg [OF rd] v by (simp add: output_imm1_def imm_octets_def Let_def)
next
  case False
  then show ?thesis by (simp add: output_imm1_def imm_octets_def Let_def)
qed

lemma output_disp_octets:
  "ready tg g \<Longrightarrow> \<forall>oper \<in> set opers. is_disp (types oper) \<longrightarrow> X_op (op_exp oper) = O_constant \<Longrightarrow>
   \<exists>g'. output_disp tg i opers g = Inr g' \<and> appends tg (concat (map (disp_octets i) opers)) g g'"
proof (induction opers arbitrary: g)
  case (Cons oper opers)
  obtain g1 where a: "output_disp1 tg i oper g = Inr g1" "appends tg (disp_octets i oper) g g1"
    using output_disp1_octets [OF Cons.prems(1)] Cons.prems(2) by (meson list.set_intros(1))
  show ?case using Cons.IH [OF ready_appends [OF Cons.prems(1) a(2)]] Cons.prems(2) a(1) appends_trans [OF a(2)] by fastforce
qed simp

lemma output_imm_octets:
  "ready tg g \<Longrightarrow> \<forall>oper \<in> set opers. is_imm (types oper) \<longrightarrow> X_op (op_exp oper) = O_constant \<Longrightarrow>
   \<exists>g'. output_imm tg i opers g = Inr g' \<and> appends tg (concat (map imm_octets opers)) g g'"
proof (induction opers arbitrary: g)
  case (Cons oper opers)
  obtain g1 where a: "output_imm1 tg i oper g = Inr g1" "appends tg (imm_octets oper) g g1"
    using output_imm1_octets [OF Cons.prems(1)] Cons.prems(2) by (meson list.set_intros(1))
  show ?case using Cons.IH [OF ready_appends [OF Cons.prems(1) a(2)]] Cons.prems(2) a(1) appends_trans [OF a(2)] by fastforce
qed simp

lemma output_head_octets:
  assumes rd: "ready tg g" and v: "length (vex_bytes i) \<le> 0x10000" and h: "head_octets i = Inr (i', pre)"
  shows "\<exists>g'. output_head tg i g = Inr (i', g') \<and> appends tg pre g g'"
proof (cases "is_any_vex_encoding i")
  case True
  then have h': "i' = i" "pre = nonzero (prefix i) @ vex_bytes i" "vex_prefixes_ok i"
    using h by (auto simp: head_octets_def split: if_splits)
  obtain g1 where a: "frag_opcode_bytes tg (nonzero (prefix i)) g = Inr g1" "appends tg (nonzero (prefix i)) g g1"
    using opcode_bytes_appends [OF rd] by blast
  obtain g2 where "out_octets tg (vex_bytes i) g1 = Inr g2" "appends tg (vex_bytes i) g1 g2"
    using out_octets_appends [OF ready_appends [OF rd a(2)] v] by blast
  then show ?thesis using True h' a appends_trans [OF a(2)] by (auto simp: output_head_def)
next
  case False
  then have h': "opcode_prefix i = Inr i'" "pre = nonzero (prefix i')
      @ (if is_apx_rex2_encoding i' then take 2 (vex_bytes i') else [])"
    using h by (auto simp: head_octets_def)
  obtain g1 where "frag_opcode_bytes tg pre g = Inr g1" "appends tg pre g g1"
    using opcode_bytes_appends [OF rd] by blast
  then show ?thesis using False h' by (simp add: output_head_def)
qed

lemma output_opcode_octets:
  assumes rd: "ready tg g" and e: "escape_octets i = Inr esc" and o: "opcode_octets i = Inr op"
  shows "\<exists>g'. output_opcode tg i g = Inr g' \<and> appends tg (esc @ op) g g'"
proof -
  have l: "length op = opcode_length i" "length op = 1 \<or> length op = 2" "length esc \<le> 2"
    using e o by (auto simp: opcode_octets_def escape_octets_def split: if_splits opcode_spaceT.splits)
  show ?thesis
  proof (cases "opcode_length i + length esc = 1")
    case True
    then have "esc = []" "op = [ucast (base_opcode i)]" using l o by (auto simp: opcode_octets_def)
    then show ?thesis
      using frag_append_1_appends [OF rd, of "ucast (base_opcode i)"] True e ready_seg [OF rd]
      by (simp add: output_opcode_def)
  next
    case False
    have "length (esc @ op) \<le> 0x10000" using l by auto
    from put_appends [OF rd this] show ?thesis
      using False e o ready_seg [OF rd] by (simp add: output_opcode_def)
  qed
qed

lemma head_operands: "head_octets i = Inr (i', pre) \<Longrightarrow> operands i' = operands i"
  by (auto simp: head_octets_def opcode_prefix_def add_prefix_def Let_def split: if_splits opcodeprefixT.splits)

lemma output_normal_octets:
  assumes rd: "ready tg g" and v: "length (vex_bytes i) \<le> 0x10000" and c: "constant_fields i"
    and e: "insn_octets i = Inr xs"
  shows "\<exists>g'. output_normal tg i g = Inr g' \<and> appends tg xs g g'"
proof -
  obtain i' pre esc op where E: "head_octets i = Inr (i', pre)" "escape_octets i' = Inr esc" "opcode_octets i' = Inr op"
    "xs = pre @ esc @ op @ modrm_octets i'
       @ (if disp_operands i' \<noteq> 0 then concat (map (disp_octets i') (operands i')) else [])
       @ (if imm_operands i' \<noteq> 0 then concat (map imm_octets (operands i')) else [])"
    using e by (auto simp: insn_octets_def)
  obtain g1 where h: "output_head tg i g = Inr (i', g1)" "appends tg pre g g1"
    using output_head_octets [OF rd v E(1)] by blast
  note r1 = ready_appends [OF rd h(2)]
  obtain g2 where o: "output_opcode tg i' g1 = Inr g2" "appends tg (esc @ op) g1 g2"
    using output_opcode_octets [OF r1 E(2,3)] by blast
  note r2 = ready_appends [OF r1 o(2)]
  obtain g3 where m: "frag_opcode_bytes tg (modrm_octets i') g2 = Inr g3" "appends tg (modrm_octets i') g2 g3"
    using opcode_bytes_appends [OF r2] by blast
  note r3 = ready_appends [OF r2 m(2)]
  have cf: "\<forall>oper \<in> set (operands i'). is_disp (types oper) \<or> is_imm (types oper) \<longrightarrow> X_op (op_exp oper) = O_constant"
    using c head_operands [OF E(1)] by (simp add: constant_fields_def)
  obtain g4 where d: "(if disp_operands i' \<noteq> 0 then output_disp tg i' (operands i') g3 else Inr g3) = Inr g4"
    "appends tg (if disp_operands i' \<noteq> 0 then concat (map (disp_octets i') (operands i')) else []) g3 g4"
    using output_disp_octets [OF r3, of "operands i'" i'] cf by (cases "disp_operands i' = 0") auto
  note r4 = ready_appends [OF r3 d(2)]
  obtain g5 where "(if imm_operands i' \<noteq> 0 then output_imm tg i' (operands i') g4 else Inr g4) = Inr g5"
    "appends tg (if imm_operands i' \<noteq> 0 then concat (map imm_octets (operands i')) else []) g4 g5"
    using output_imm_octets [OF r4, of "operands i'" i'] cf by (cases "imm_operands i' = 0") auto
  moreover from this(2) have "appends tg xs g g5"
    unfolding E(4) using appends_trans [OF h(2) appends_trans [OF o(2) appends_trans [OF m(2) appends_trans [OF d(2)]]]] by simp
  ultimately show ?thesis using h(1) o(1) m(1) d(1) by (auto simp: output_normal_def)
qed

end
