(* ===== verification/Insn_Effect.thy ===== *)
theory Insn_Effect
  imports Insn Datascope
begin

text \<open>
  What \<open>output_insn\<close> leaves behind: it ends, the octets it wrote are at the end of the chain, every
  frag it wrote into carries the mark of an instruction, and labels stay where they were.
\<close>

section \<open>The walk over the frags\<close>

lemma frags_until_path:
  "path (\<lambda>p. fr_next (st p)) (Some a) (a # ys) (Some stop) \<Longrightarrow> stop \<notin> set (a # ys) \<Longrightarrow>
   frags_until st stop (Some a) = Some (a # ys)"
proof (induction ys arbitrary: a)
  case Nil
  then show ?case by (subst frags_until.simps, simp, subst frags_until.simps, simp)
next
  case (Cons y ys)
  have "frags_until st stop (Some y) = Some (y # ys)" using Cons.prems by (intro Cons.IH) auto
  moreover have "fr_next (st a) = Some y" using Cons.prems(1) by simp
  ultimately show ?case using Cons.prems(2) by (subst frags_until.simps) simp
qed

lemma frags_until_stop: "frags_until st stop (Some stop) = Some []"
  by (subst frags_until.simps) simp

text \<open>From the frag that was current to the one that is: all frags in between, except the last.\<close>

lemma frags_until_chain:
  assumes "chain_inv tg g fc (ids @ new)" and "ids \<noteq> []"
  shows "frags_until (frags g) (frag_now g) (Some (last ids)) = Some (butlast (last ids # new))"
proof -
  let ?xs = "last ids # new"
  have e: "ids @ new = butlast ids @ ?xs" using assms(2) by simp
  have i: "chain (frag_next g) (frch_root fc) (butlast ids @ ?xs)" "distinct (butlast ids @ ?xs)"
    "frag_now g = last (butlast ids @ ?xs)"
    using assms(1) unfolding chain_inv_def e by blast+
  have n: "frag_now g = last ?xs" using i(3) by simp
  show ?thesis
  proof (cases "new = []")
    case True
    then show ?thesis using n frags_until_stop by simp
  next
    case False
    then have b: "?xs = butlast ?xs @ [frag_now g]" using n by (metis append_butlast_last_id list.distinct(1))
    obtain ys where ys: "butlast ?xs = last ids # ys" using False by simp
    have "chain (frag_next g) (Some (last ids)) ?xs"
      using i(1) by (auto simp: chain_append)
    then have "path (frag_next g) (Some (last ids)) (butlast ?xs) (Some (frag_now g))"
      by (subst (asm) b) (auto simp: chain_append chain_def path_append)
    moreover have "frag_now g \<notin> set (butlast ?xs)" using i(2) b by (metis distinct_append distinct_butlast not_distinct_conv_prefix)
    ultimately show ?thesis
      using frags_until_path [of "frags g" "last ids" ys "frag_now g"] ys by (simp add: frag_next_def [abs_def])
  qed
qed

section \<open>Marking\<close>

lemma fold_set_insn:
  "frags (fold set_insn qs g) p = (if p \<in> set qs then (frags g p)\<lparr>fr_flags := (fr_flags (frags g p))\<lparr>insn_frag := True\<rparr>\<rparr>
     else frags g p)"
  by (induction qs arbitrary: g) (auto simp: set_insn_def frags_upd_frag)

lemma set_insn_appends: "appends tg [] g (set_insn p g)"
  unfolding set_insn_def by (rule appends_upd_frag) (simp_all add: marks_kept_def)

lemma fold_set_insn_appends: "appends tg [] g (fold set_insn qs g)"
proof (induction qs arbitrary: g)
  case (Cons q qs)
  show ?case using appends_Nil_trans [OF set_insn_appends Cons.IH] by simp
qed simp

lemma fold_set_insn_content: "content_inv tg (fold set_insn qs g) fc ids bs = content_inv tg g fc ids bs"
  by (induction qs arbitrary: g) (simp_all add: set_insn_def upd_frag_content)

lemma mark_insn_frags_content: "mark_insn_frags p g = Some g' \<Longrightarrow> content_inv tg g' fc ids bs = content_inv tg g fc ids bs"
  by (auto simp: mark_insn_frags_def set_insn_def upd_frag_content fold_set_insn_content split: if_splits)

lemma mark_insn_frags_spec:
  assumes "chain_inv tg g fc (ids @ new)" and "ids \<noteq> []"
  shows "\<exists>g'. mark_insn_frags (last ids) g = Some g' \<and> appends tg [] g g'
    \<and> (\<forall>fc ids bs. content_inv tg g' fc ids bs = content_inv tg g fc ids bs)
    \<and> (fiy_dcollect g \<longrightarrow> (\<forall>p \<in> set (last ids # new). insn_frag (fr_flags (frags g' p))))"
proof (cases "fiy_dcollect g")
  case True
  let ?qs = "butlast (last ids # new)"
  let ?g = "set_insn (frag_now g) (fold set_insn ?qs g)"
  have "mark_insn_frags (last ids) g = Some ?g"
    using True frags_until_chain [OF assms] by (simp add: mark_insn_frags_def)
  moreover have "appends tg [] g ?g"
    by (rule appends_Nil_trans [OF fold_set_insn_appends set_insn_appends])
  moreover have "content_inv tg ?g fc ids bs = content_inv tg g fc ids bs" for fc ids bs
    using fold_set_insn_content [of tg "?qs @ [frag_now g]"] by simp
  moreover have "insn_frag (fr_flags (frags ?g p))" if "p \<in> set (last ids # new)" for p
  proof -
    have "frag_now g = last (last ids # new)" using assms by (auto simp: chain_inv_def)
    then have "set (last ids # new) = insert (frag_now g) (set ?qs)"
      using append_butlast_last_id [of "last ids # new"] by (metis list.distinct(1) list.set(1) list.simps(15) rotate1.simps(2) set_rotate1)
    then show ?thesis using that by (auto simp: set_insn_def frags_upd_frag fold_set_insn)
  qed
  ultimately show ?thesis by blast
next
  case False
  then show ?thesis by (simp add: mark_insn_frags_def)
qed

section \<open>The whole instruction\<close>

text \<open>The variables of the run an instruction leaves alone, and what it leaves of the symbols: it sets
  the two marks and makes new ones.\<close>

definition same_symbol :: "symbol \<Rightarrow> symbol \<Rightarrow> bool" where
  "same_symbol s s' \<longleftrightarrow> sy_name s' = sy_name s \<and> local_symbol s' = local_symbol s \<and> sy_frag s' = sy_frag s
   \<and> sy_seg s' = sy_seg s \<and> section_sym s' = section_sym s \<and> sy_value s' = sy_value s
   \<and> (call_flow_symbol s \<longrightarrow> call_flow_symbol s') \<and> (memory_access_symbol s \<longrightarrow> memory_access_symbol s')"

definition same_state :: "gas \<Rightarrow> gas \<Rightarrow> bool" where
  "same_state g g' \<longleftrightarrow> now_seg g' = now_seg g \<and> now_subseg g' = now_subseg g \<and> frchain_now g' = frchain_now g
   \<and> frags_chained g' = frags_chained g \<and> fiy_dcollect g' = fiy_dcollect g
   \<and> is_finish_subseg g' = is_finish_subseg g \<and> mri_common_symbol g' = mri_common_symbol g
   \<and> text_cur_symbol g' = text_cur_symbol g \<and> cur_func_name g' = cur_func_name g
   \<and> is_in_func g' = is_in_func g
   \<and> n_syms g \<le> n_syms g' \<and> (\<forall>s < n_syms g. same_symbol (syms g s) (syms g' s))"

lemma same_symbol_refl [simp]: "same_symbol s s"
  by (simp add: same_symbol_def)

lemma same_symbol_trans: "same_symbol s s1 \<Longrightarrow> same_symbol s1 s2 \<Longrightarrow> same_symbol s s2"
  by (simp add: same_symbol_def)

lemma same_run_state: "same_run g g' \<Longrightarrow> same_state g g'"
  by (simp add: same_run_def same_state_def)

lemma same_state_trans: "same_state g g1 \<Longrightarrow> same_state g1 g2 \<Longrightarrow> same_state g g2"
  unfolding same_state_def by (metis (no_types, lifting) order.strict_trans2 order.trans same_symbol_trans)

lemma mark_operand_same: "same_symbol (sy s) (mark_operand m oper sy s)"
  by (auto simp: mark_operand_def Let_def S_SET_MA_SYMBOL_def S_SET_CF_SYMBOL_def same_symbol_def split: option.splits)

lemma update_symbol_status_same: "same_symbol (sy s) (update_symbol_status i sy s)"
proof -
  have "same_symbol (sy s) (fold (mark_operand m) opers sy s)" for m opers
    by (induction opers arbitrary: sy) (auto intro: same_symbol_trans mark_operand_same)
  then show ?thesis by (simp add: update_symbol_status_def)
qed

text \<open>What a statement adds to a chain: \<open>xs\<close> behind the octets there were, in the last of the frags \<open>ids\<close>
  and in the new frags \<open>new\<close>.\<close>

definition adds :: "target \<Rightarrow> gas \<Rightarrow> fragP list \<Rightarrow> byte list \<Rightarrow> gas \<Rightarrow> fragP list \<Rightarrow> byte list \<Rightarrow> bool" where
  "adds tg g ids bs g' new xs \<longleftrightarrow> (\<exists>fc'. content_inv tg g' fc' (ids @ new) (bs @ xs))
   \<and> (\<forall>p \<in> set ids. marks_kept (frags g p) (frags g' p)) \<and> (\<forall>p \<in> set new. unlabelled (frags g' p))
   \<and> (\<forall>p \<in> set (butlast ids). fr_fix (frags g' p) = fr_fix (frags g p))"

lemma appends_adds:
  assumes "appends tg xs g g'" and "content_inv tg g fc ids bs"
  shows "\<exists>new. adds tg g ids bs g' new xs"
  using assms unfolding appends_def adds_def by metis

lemma adds_appends:
  assumes "adds tg g ids bs g1 new xs" and "appends tg ys g1 g2"
  shows "\<exists>new2. adds tg g ids bs g2 (new @ new2) (xs @ ys)
    \<and> (\<forall>p \<in> set (ids @ new). marks_kept (frags g1 p) (frags g2 p))"
proof -
  obtain fc1 where A: "content_inv tg g1 fc1 (ids @ new) (bs @ xs)"
    "\<forall>p \<in> set ids. marks_kept (frags g p) (frags g1 p)" "\<forall>p \<in> set new. unlabelled (frags g1 p)"
    "\<forall>p \<in> set (butlast ids). fr_fix (frags g1 p) = fr_fix (frags g p)"
    using assms(1) by (auto simp: adds_def)
  obtain fc2 new2 where B: "content_inv tg g2 fc2 ((ids @ new) @ new2) ((bs @ xs) @ ys)"
    "\<forall>p \<in> set (ids @ new). marks_kept (frags g1 p) (frags g2 p)" "\<forall>p \<in> set new2. unlabelled (frags g2 p)"
    "\<forall>p \<in> set (butlast (ids @ new)). fr_fix (frags g2 p) = fr_fix (frags g1 p)"
    using assms(2) A(1) unfolding appends_def by metis
  have "set (butlast ids) \<subseteq> set (butlast (ids @ new))"
    by (auto simp: butlast_append dest: in_set_butlastD)
  then have "adds tg g ids bs g2 (new @ new2) (xs @ ys)"
    unfolding adds_def using A(2-4) B marks_kept_trans unlabelled_kept by (auto simp: subset_iff)
  with B(2) show ?thesis by blast
qed

lemma insn_begins_content:
  "content_inv tg (insn_begins i g) fc ids bs = content_inv tg g fc ids bs"
proof -
  have "content_inv tg (g\<lparr>syms := s, flash_symbol_point := b\<rparr>) fc ids bs = content_inv tg g fc ids bs" for s b
    by (rule content_cong) (auto intro: the_frchain_cong)
  then show ?thesis by (simp add: insn_begins_def upd_frag_content)
qed

lemma insn_begins_state:
  "same_state g (insn_begins i g)" "marks_kept (frags g p) (frags (insn_begins i g) p)"
  "fr_fix (frags (insn_begins i g) p) = fr_fix (frags g p)" "frag_now (insn_begins i g) = frag_now g"
  "fiy_dcollect (insn_begins i g) = fiy_dcollect g"
  using update_symbol_status_same
  by (auto simp: insn_begins_def same_state_def marks_kept_def frags_upd_frag) (auto simp: upd_frag_def)

lemma ready_begins: "ready tg g \<Longrightarrow> ready tg (insn_begins i g)"
  using insn_begins_state(1) [of g i] by (simp add: ready_def insn_begins_content same_state_def)

text \<open>The arrays of the structure: \<open>prefix[MAX_PREFIXES]\<close> and \<open>vex.bytes[4]\<close>.\<close>

definition insn_ok :: "i386_insn \<Rightarrow> bool" where
  "insn_ok i \<longleftrightarrow> length (prefix i) = 7 \<and> length (vex_bytes i) \<le> 4"

lemma output_head_appends:
  assumes rd: "ready tg g" and ok: "insn_ok i" and o: "output_head tg i g = Inr (i', g')"
  shows "\<exists>xs. appends tg xs g g'"
proof -
  have "\<exists>pre. head_octets i = Inr (i', pre)"
    using o by (auto simp: output_head_def head_octets_def split: if_splits)
  then show ?thesis using output_head_octets [OF rd, of i i'] ok o by (fastforce simp: insn_ok_def)
qed

lemma output_opcode_appends:
  assumes rd: "ready tg g" and o: "output_opcode tg i g = Inr g'"
  shows "\<exists>xs. appends tg xs g g'"
proof -
  obtain esc where e: "escape_octets i = Inr esc" "length esc \<le> 2"
    using o by (auto simp: output_opcode_def escape_octets_def split: if_splits opcode_spaceT.splits)
  show ?thesis
  proof (cases "opcode_length i + length esc = 1")
    case True
    then show ?thesis
      using o e(1) ready_seg [OF rd] frag_append_1_appends [OF rd, of "ucast (base_opcode i)"]
      by (auto simp: output_opcode_def)
  next
    case False
    then obtain op where "opcode_octets i = Inr op" using o e(1) ready_seg [OF rd] by (auto simp: output_opcode_def)
    then show ?thesis using output_opcode_octets [OF rd e(1)] o by auto
  qed
qed

lemma output_normal_appends:
  assumes rd: "ready tg g" and ok: "insn_ok i" and o: "output_normal tg i g = Inr g'"
  shows "\<exists>xs. appends tg xs g g'"
proof -
  obtain i' g1 g2 g3 g4 where S: "output_head tg i g = Inr (i', g1)" "output_opcode tg i' g1 = Inr g2"
    "frag_opcode_bytes tg (modrm_octets i') g2 = Inr g3"
    "(if disp_operands i' \<noteq> 0 then output_disp tg i' (operands i') g3 else Inr g3) = Inr g4"
    "(if imm_operands i' \<noteq> 0 then output_imm tg i' (operands i') g4 else Inr g4) = Inr g'"
    using o unfolding output_normal_def bindE_Inr_iff split_paired_Ex prod.case by metis
  obtain x1 where a1: "appends tg x1 g g1" using output_head_appends [OF rd ok S(1)] by blast
  note r1 = ready_appends [OF rd a1]
  obtain x2 where a2: "appends tg x2 g1 g2" using output_opcode_appends [OF r1 S(2)] by blast
  note r2 = ready_appends [OF r1 a2]
  obtain x3 where a3: "appends tg x3 g2 g3" using opcode_bytes_appends [OF r2, of "modrm_octets i'"] S(3) by auto
  note r3 = ready_appends [OF r2 a3]
  have "g4 = g3 \<or> output_disp tg i' (operands i') g3 = Inr g4" using S(4) by (auto split: if_splits)
  then obtain x4 where a4: "appends tg x4 g3 g4"
    using output_disp_appends [OF r3, of i' "operands i'" g4] appends_refl [of tg g3] by blast
  note r4 = ready_appends [OF r3 a4]
  have "g' = g4 \<or> output_imm tg i' (operands i') g4 = Inr g'" using S(5) by (auto split: if_splits)
  then obtain x5 where a5: "appends tg x5 g4 g'"
    using output_imm_appends [OF r4, of i' "operands i'" g'] appends_refl [of tg g4] by blast
  from appends_trans [OF a1 appends_trans [OF a2 appends_trans [OF a3 appends_trans [OF a4 a5]]]] show ?thesis by blast
qed

lemma check_length_appends:
  assumes rd: "ready tg g" and a: "adds tg g0 ids bs g new xs" and ne: "ids \<noteq> []"
  shows "\<exists>r. check_length tg i (last ids) off g = Some r \<and> (\<forall>g'. r = Inr g' \<longrightarrow> appends tg [] g g')"
proof -
  obtain p g1 where M: "frag_more tg 0 g = Inr (p, g1)" "appends tg [] g g1"
    using frag_more_appends [OF rd, of 0] by auto
  then obtain new2 fc2 where "content_inv tg g1 fc2 (ids @ new @ new2) (bs @ xs)"
    using adds_appends [OF a M(2)] by (auto simp: adds_def)
  then have "frags_until (frags g1) (frag_now g1) (Some (last ids)) \<noteq> None"
    using frags_until_chain [OF content_chain, of tg g1 fc2 ids "new @ new2"] ne by auto
  then obtain j where "encoding_length tg (last ids) off p g1 = Some j" by (auto simp: encoding_length_def)
  then show ?thesis using M ready_seg [OF rd] by (auto simp: check_length_def)
qed

text \<open>Everything \<open>output_insn\<close> does between the two hooks.\<close>

definition output_body :: "target \<Rightarrow> (symP option \<Rightarrow> bool) \<Rightarrow> i386_insn \<Rightarrow> fragP \<Rightarrow> u64 \<Rightarrow> gas \<Rightarrow> gas result option" where
  "output_body tg plt i start off g1 =
     (if jump i = JUMP then Some (output_branch tg i g1)
      else if jump i = JUMP_BYTE \<or> jump i = JUMP_DWORD then Some (output_jump tg plt i g1)
      else if jump i = JUMP_INTERSEGMENT then Some (output_interseg_jump tg i g1)
      else (case output_normal tg i g1 of Inl e \<Rightarrow> Some (Inl e)
            | Inr g2 \<Rightarrow> check_length tg i start off g2))"

lemma output_body_appends:
  assumes rd: "ready tg g" and ok: "insn_ok i" and c: "content_inv tg g fc ids bs"
  shows "\<exists>r. output_body tg plt i (last ids) off g = Some r \<and> (\<forall>g'. r = Inr g' \<longrightarrow> (\<exists>xs. appends tg xs g g'))"
proof -
  have ne: "ids \<noteq> []" using content_chain [OF c] by (simp add: chain_inv_def)
  consider "jump i = JUMP" | "jump i = JUMP_BYTE \<or> jump i = JUMP_DWORD" | "jump i = JUMP_INTERSEGMENT"
    | "jump i = JUMP_NO \<or> jump i = JUMP_ABSOLUTE"
    by (cases "jump i") auto
  then show ?thesis
  proof cases
    case 1
    then show ?thesis using output_branch_appends(1) [OF rd] by (auto simp: output_body_def)
  next
    case 2
    then show ?thesis using output_jump_appends [OF rd] by (auto simp: output_body_def)
  next
    case 3
    then show ?thesis using output_interseg_appends [OF rd] by (auto simp: output_body_def)
  next
    case 4
    show ?thesis
    proof (cases "output_normal tg i g")
      case (Inr g2)
      obtain xs where a: "appends tg xs g g2" using output_normal_appends [OF rd ok Inr] by blast
      obtain new where "adds tg g ids bs g2 new xs" using appends_adds [OF a c] by blast
      from check_length_appends [OF ready_appends [OF rd a] this ne, of i off] obtain r where
        "check_length tg i (last ids) off g2 = Some r" "\<forall>g'. r = Inr g' \<longrightarrow> appends tg [] g2 g'" by blast
      moreover from this(2) have "\<forall>g'. r = Inr g' \<longrightarrow> (\<exists>xs. appends tg xs g g')"
        using appends_trans_Nil [OF a] by blast
      ultimately show ?thesis using 4 Inr by (auto simp: output_body_def)
    qed (use 4 in \<open>auto simp: output_body_def\<close>)
  qed
qed

lemma output_insn_body:
  assumes "content_inv tg g fc ids bs"
  shows "output_insn tg plt i g = (case output_body tg plt i (last ids)
       (word_of_nat (obstack_object_size (frch_obstack fc))) (insn_begins i g) of
     None \<Rightarrow> None | Some (Inl e) \<Rightarrow> Some (Inl e)
   | Some (Inr g2) \<Rightarrow> map_option Inr (mark_insn_frags (last ids) g2))"
proof -
  have "frag_now g = last ids" using content_chain [OF assms] by (simp add: chain_inv_def)
  then show ?thesis
    using frag_now_fix_inv(1) [OF content_chain [OF assms]]
    by (simp add: output_insn_def output_body_def Let_def frag_now_fix_def)
qed

text \<open>The instruction ends; if it is accepted, what it wrote is in frags marked as instructions.\<close>

lemma output_insn_effect:
  assumes rd: "ready tg g" and ok: "insn_ok i" and c: "content_inv tg g fc ids bs"
  shows "\<exists>r. output_insn tg plt i g = Some r \<and> (\<forall>g'. r = Inr g' \<longrightarrow> same_state g g' \<and> ready tg g'
    \<and> (\<exists>new xs. adds tg g ids bs g' new xs
        \<and> (fiy_dcollect g \<longrightarrow> (\<forall>p \<in> set (last ids # new). insn_frag (fr_flags (frags g' p))))))"
proof -
  let ?g1 = "insn_begins i g"
  have ne: "ids \<noteq> []" using content_chain [OF c] by (simp add: chain_inv_def)
  have c1: "content_inv tg ?g1 fc ids bs" using c by (simp add: insn_begins_content)
  note r1 = ready_begins [OF rd, of i]
  obtain r where B: "output_body tg plt i (last ids) (word_of_nat (obstack_object_size (frch_obstack fc))) ?g1 = Some r"
    "\<forall>g'. r = Inr g' \<longrightarrow> (\<exists>xs. appends tg xs ?g1 g')"
    using output_body_appends [OF r1 ok c1] by blast
  show ?thesis
  proof (cases r)
    case (Inr g2)
    then obtain xs where a: "appends tg xs ?g1 g2" using B(2) by blast
    have a0: "adds tg g ids bs ?g1 [] []" using c1 insn_begins_state(2,3) by (auto simp: adds_def)
    obtain new where A: "adds tg g ids bs g2 new xs" using adds_appends [OF a0 a] by auto
    then obtain fc2 where "chain_inv tg g2 fc2 (ids @ new)" by (auto simp: adds_def content_inv_def)
    then obtain g' where M: "mark_insn_frags (last ids) g2 = Some g'" "appends tg [] g2 g'"
      "\<forall>fc ids bs. content_inv tg g' fc ids bs = content_inv tg g2 fc ids bs"
      "fiy_dcollect g2 \<longrightarrow> (\<forall>p \<in> set (last ids # new). insn_frag (fr_flags (frags g' p)))"
      using mark_insn_frags_spec ne by blast
    obtain new2 where N: "adds tg g ids bs g' (new @ new2) xs" using adds_appends [OF A M(2)] by auto
    obtain fc3 fc4 where "content_inv tg g' fc3 (ids @ new) (bs @ xs)" "content_inv tg g' fc4 (ids @ new @ new2) (bs @ xs)"
      using A N M(3) by (auto simp: adds_def)
    from content_unique [OF this] have "new2 = []" by simp
    moreover have "fiy_dcollect g2 = fiy_dcollect g"
      using appends_run [OF a] insn_begins_state(5) by (simp add: same_run_def)
    moreover have "same_state g g'"
      using insn_begins_state(1) same_run_state [OF appends_run [OF a]] same_run_state [OF appends_run [OF M(2)]]
        same_state_trans by blast
    moreover have "ready tg g'" by (rule ready_appends [OF ready_appends [OF r1 a] M(2)])
    ultimately show ?thesis
      using B(1) Inr M(1,4) N by (simp add: output_insn_body [OF c]) blast
  next
    case (Inl e)
    then show ?thesis using B(1) by (simp add: output_insn_body [OF c])
  qed
qed

end
