(* ===== verification/Encoding.thy ===== *)
theory Encoding
  imports Insn_Effect Split
begin

text \<open>
  The check of an instruction's length (\<open>encoding_length\<close> of \<open>src/gas/config/tc-i386.c\<close>): what it adds up
  over the frags is the number of octets the instruction has appended, so that an instruction with constant
  fields is written as the reference encoding says or rejected for its length.
\<close>

lemma closed_size_sum: "closed_size tg g ids = sum_list (map (\<lambda>q. unat (fr_fix (frags g q))) (butlast ids))"
  unfolding closed_size_def by (induction "butlast ids") (simp_all add: closed_octets_def octets_def length_concat comp_def)

lemma sum_list_ucast:
  "sum_list (map (\<lambda>q. ucast (f q :: u64)) qs) = (word_of_nat (sum_list (map (\<lambda>q. unat (f q)) qs)) :: u32)"
  by (induction qs) (simp_all add: unsigned_ucast_eq)

lemma content_length: "content_inv tg g fc ids bs \<Longrightarrow> length bs = closed_size tg g ids + obstack_object_size (frch_obstack fc)"
  by (auto simp: content_inv_def chain_octets_def closed_size_def octets_def)

lemma encoding_length_exact:
  assumes rd: "ready tg g'" and c: "content_inv tg g fc ids bs" and a: "adds tg g ids bs g' new xs"
    and m: "frag_more tg 0 g' = Inr (p, g1)"
  shows "encoding_length tg (last ids) (word_of_nat (obstack_object_size (frch_obstack fc))) p g1 = Some (word_of_nat (length xs))"
proof -
  have ne: "ids \<noteq> []" using content_chain [OF c] by (simp add: chain_inv_def)
  obtain fc' where c': "content_inv tg g' fc' (ids @ new) (bs @ xs)" using a by (auto simp: adds_def)
  have r: "target_ok tg" "request_ok tg 0" "mri_common_symbol g' = None" using rd by (auto simp: ready_def request_ok_def small_def)
  obtain fc1 new1 where M: "content_inv tg g1 fc1 ((ids @ new) @ new1) (bs @ xs)"
    "p = frag_now g1 + sizeof_struct_frag tg + (length (bs @ xs) - closed_size tg g1 ((ids @ new) @ new1))"
    "closed_size tg g1 ((ids @ new) @ new1) \<le> length (bs @ xs)"
    using frag_more_content [OF c' r] m by auto
  let ?new = "new @ new1" and ?o = "obstack_object_size (frch_obstack fc)"
  have "appends tg [] g' g1" using frag_more_appends [OF rd, of 0] m by auto
  then obtain n2 where A: "adds tg g ids bs g1 (new @ n2) xs" using adds_appends [OF a] by fastforce
  let ?f = "\<lambda>q. unat (fr_fix (frags g1 q))"
  let ?S = "sum_list (map ?f (butlast (last ids # ?new)))" and ?B = "closed_size tg g ids"
  have bl: "butlast (ids @ ?new) = butlast ids @ butlast (last ids # ?new)"
    using ne by (cases ids rule: rev_cases) (auto simp: butlast_append)
  have "map ?f (butlast ids) = map (\<lambda>q. unat (fr_fix (frags g q))) (butlast ids)" using A by (auto simp: adds_def)
  then have cs: "closed_size tg g1 (ids @ ?new) = ?B + ?S" by (simp only: closed_size_sum bl map_append sum_list.append)
  have "p = frag_now g1 + sizeof_struct_frag tg + (?o + length xs - ?S)" "?S \<le> ?o + length xs"
    using M(2,3) cs content_length [OF c] by simp_all
  then have "word_of_nat ?S - word_of_nat ?o + word_of_nat p - word_of_nat (frag_now g1 + sizeof_struct_frag tg)
      = (word_of_nat (length xs) :: u32)"
    by (simp add: of_nat_diff)
  moreover have "frags_until (frags g1) (frag_now g1) (Some (last ids)) = Some (butlast (last ids # ?new))"
    using frags_until_chain [OF _ ne] content_chain [OF M(1)] by simp
  moreover have "ucast (word_of_nat ?o :: u64) = (word_of_nat ?o :: u32)" by (rule bit_word_eqI) (simp add: bit_simps)
  ultimately show ?thesis by (simp add: encoding_length_def sum_list_ucast)
qed

lemma check_length_exact:
  assumes "ready tg g'" and "content_inv tg g fc ids bs" and "adds tg g ids bs g' new xs" and "length xs < 2 ^ 32"
  shows "\<exists>g1. appends tg [] g' g1 \<and> check_length tg i (last ids) (word_of_nat (obstack_object_size (frch_obstack fc))) g' =
    Some (if 15 < length xs \<and> \<not> dot_insn i then Inl As_bad else Inr g1)"
proof -
  obtain p g1 where m: "frag_more tg 0 g' = Inr (p, g1)" "appends tg [] g' g1" using frag_more_appends [OF assms(1), of 0] by auto
  have "15 < (word_of_nat (length xs) :: u32) \<longleftrightarrow> 15 < length xs"
    using assms(4) by (simp add: word_less_nat_alt unsigned_of_nat take_bit_nat_eq_self)
  then show ?thesis
    using m encoding_length_exact [OF assms(1-3) m(1)] ready_seg [OF assms(1)] by (auto simp: check_length_def)
qed

lemma output_insn_constant:
  assumes "ready tg g" and "content_inv tg g fc ids bs" and "insn_ok i" and "jump i = JUMP_NO" and "constant_fields i"
    and "insn_octets i = Inr xs" and "length xs < 2 ^ 32" and "fiy_dcollect g"
  shows "if 15 < length xs \<and> \<not> dot_insn i then output_insn tg plt i g = Some (Inl As_bad)
    else \<exists>g' new fc'. output_insn tg plt i g = Some (Inr g') \<and> content_inv tg g' fc' (ids @ new) (bs @ xs)
           \<and> (\<forall>p \<in> set (last ids # new). insn_frag (fr_flags (frags g' p)))"
proof -
  let ?g = "insn_begins i g" and ?o = "word_of_nat (obstack_object_size (frch_obstack fc)) :: u64"
  have c1: "content_inv tg ?g fc ids bs" using assms(2) by (simp add: insn_begins_content)
  have ne: "ids \<noteq> []" using content_chain [OF c1] by (simp add: chain_inv_def)
  note r1 = ready_begins [OF assms(1), of i]
  obtain g2 where o: "output_normal tg i ?g = Inr g2" "appends tg xs ?g g2"
    using output_normal_octets [OF r1 _ assms(5,6)] assms(3) by (auto simp: insn_ok_def)
  obtain new where A: "adds tg ?g ids bs g2 new xs" using appends_adds [OF o(2) c1] by blast
  obtain g3 where L: "appends tg [] g2 g3" "check_length tg i (last ids) ?o g2 =
      Some (if 15 < length xs \<and> \<not> dot_insn i then Inl As_bad else Inr g3)"
    using check_length_exact [OF ready_appends [OF r1 o(2)] c1 A assms(7)] by blast
  then have B: "output_body tg plt i (last ids) ?o ?g = Some (if 15 < length xs \<and> \<not> dot_insn i then Inl As_bad else Inr g3)"
    using o(1) assms(4) by (simp add: output_body_def)
  obtain n2 fc3 where "content_inv tg g3 fc3 (ids @ n2) (bs @ xs)"
    using appends_adds [OF appends_trans_Nil [OF o(2) L(1)] c1] by (auto simp: adds_def)
  moreover from this obtain g' where M: "mark_insn_frags (last ids) g3 = Some g'"
    "fiy_dcollect g3 \<longrightarrow> (\<forall>p \<in> set (last ids # n2). insn_frag (fr_flags (frags g' p)))"
    using mark_insn_frags_spec [OF content_chain ne] by blast
  moreover have "fiy_dcollect g3"
    using assms(8) appends_run [OF o(2)] appends_run [OF L(1)] insn_begins_state(5) by (simp add: same_run_def)
  ultimately show ?thesis
    using B mark_insn_frags_content [OF M(1)] by (auto simp: output_insn_body [OF assms(2)])
qed

section \<open>Concrete instructions\<close>

text \<open>The state with an empty \<open>.text\<close>, and an instruction of one octet.\<close>

definition start_gas :: gas where
  "start_gas = boot_gas\<lparr>frags := (\<lambda>_. zero_frag\<lparr>fr_type := rs_fill\<rparr>),
     seg_info := (\<lambda>_. None)(text_section \<mapsto> \<lparr>frchainP = [demo_chain 0 (2 ^ 60) 0], seg_fixes = [], seg_align = 4\<rparr>),
     now_seg := text_section, frchain_now := Some (text_section, 0), frag_now := 2 ^ 60 + 16, n_frchains := 1\<rparr>"

definition insn_nop :: i386_insn where
  "insn_nop = \<lparr>base_opcode = 0x90, opcode_length = 1, opcode_space = SPACE_BASE, opcodeprefix = PREFIX_NONE, jump = JUMP_NO,
     modrm = False, isprefix = False, is_any_vex_encoding = False, is_apx_rex2_encoding = False, cpu_padlock = False,
     tm_disp16 = False, lea32 = False, qword_form = False, dot_insn = True, operands = [], mem_operands = 0,
     disp_operands = 0, imm_operands = 0, prefix = replicate 7 0, prefixes = 0, vex_bytes = [], vrex = 0, rm_mode = 0,
     rm_reg = 0, rm_regmem = 0, sib_base = 0, sib_index = 0, sib_scale = 0, base_reg_word = False, jumpabsolute = False,
     memshift = 0, disp_big = False\<rparr>"

text \<open>\<open>add $0x12345678, %ebx\<close>.\<close>

definition insn_add :: i386_insn where
  "insn_add = insn_nop\<lparr>base_opcode := 0x81, dot_insn := False, modrm := True, rm_mode := 3, rm_regmem := 3, imm_operands := 1,
     operands := [\<lparr>types = \<lparr>imm8 = False, imm8s = False, imm16 = False, imm32 = True, imm32s = False, imm64 = False,
         disp8 = False, disp16 = False, disp32 = False, disp64 = False, baseindex = False\<rparr>,
       op_exp = \<lparr>X_op = O_constant, X_add_symbol = None, X_op_symbol = None, X_add_number = 0x12345678, X_unsigned = False\<rparr>,
       operand_pcrel = False\<rparr>]\<rparr>"

text \<open>A short jump to an absolute address, and its output.\<close>

definition insn_jmp :: i386_insn where
  "insn_jmp = insn_nop\<lparr>base_opcode := 0xeb, jump := JUMP, operands :=
     [\<lparr>types = \<lparr>imm8 = False, imm8s = False, imm16 = False, imm32 = False, imm32s = False, imm64 = False,
         disp8 = False, disp16 = False, disp32 = True, disp64 = False, baseindex = False\<rparr>,
       op_exp = \<lparr>X_op = O_constant, X_add_symbol = None, X_op_symbol = None, X_add_number = 0, X_unsigned = False\<rparr>,
       operand_pcrel = True\<rparr>]\<rparr>"

lemma chain_single: "chain nxt (Some p) [p] \<longleftrightarrow> nxt p = None"
  by (simp add: chain_def)

lemma start_content: "content_inv sample_target start_gas (demo_chain 0 (2 ^ 60) 0) [2 ^ 60 + 16] []"
proof -
  have ob: "ob_ok sample_target (frch_obstack (demo_chain 0 (2 ^ 60) 0))"
    by (rule demo_ob_ok) (simp_all add: prod_encode_def)
  then have "chain_inv sample_target start_gas (demo_chain 0 (2 ^ 60) 0) [2 ^ 60 + 16]"
    by (simp add: chain_inv_def start_gas_def boot_gas_def the_frchain_def chain_single frag_next_def zero_frag_def
        located_def contents_off_def) (simp add: demo_chain_def sample_target_def)
  then show ?thesis by (simp add: content_inv_def lits_ok_def chain_octets_def octets_def)
      (simp add: demo_chain_def obstack_object_size_def)
qed

lemma start_ready: "ready sample_target start_gas"
  using start_content sample_build_ok
  by (auto simp: ready_def build_ok_def start_gas_def) (simp_all add: sample_target_def small_def boot_gas_def)

lemma start_collects: "fiy_dcollect start_gas"
  by (simp add: start_gas_def boot_gas_def)

lemma insn_nop_simps:
  "insn_ok insn_nop" "jump insn_nop = JUMP_NO" "constant_fields insn_nop" "insn_octets insn_nop = Inr [0x90]"
  by (simp_all add: insn_ok_def constant_fields_def insn_octets_def head_octets_def opcode_prefix_def nonzero_def
      escape_octets_def opcode_octets_def modrm_octets_def insn_nop_def)

lemma insn_nop_output:
  assumes rd: "ready tg g" and c: "content_inv tg g fc ids bs" and d: "fiy_dcollect g"
  shows "\<exists>g'. output_insn tg plt insn_nop g = Some (Inr g')"
  using output_insn_constant [OF rd c insn_nop_simps _ d, of plt] by auto

lemma insn_add_simps:
  "insn_ok insn_add" "jump insn_add = JUMP_NO" "constant_fields insn_add"
  "insn_octets insn_add = Inr [0x81, 0xc3, 0x78, 0x56, 0x34, 0x12]" "length [0x81 :: byte, 0xc3, 0x78, 0x56, 0x34, 0x12] < 2 ^ 32"
  by (simp_all add: insn_ok_def constant_fields_def insn_octets_def head_octets_def opcode_prefix_def nonzero_def
      escape_octets_def opcode_octets_def modrm_octets_def insn_nop_def insn_add_def imm_octets_def imm_size_def is_imm_def)

lemma insn_jmp_simps:
  "jump insn_jmp = JUMP" "insn_ok insn_jmp" "branch_prefixes insn_jmp = []" "code16_of insn_jmp = Inr False"
  "X_op (op_exp (operands insn_jmp ! 0)) = O_constant" "\<not> disp_big insn_jmp" "base_opcode insn_jmp = 0xeb"
  by (simp_all add: insn_jmp_def insn_nop_def insn_ok_def branch_prefixes_def code16_of_def
      DATA_PREFIX_def SEG_PREFIX_def REP_PREFIX_def REX_PREFIX_def)

lemma insn_jmp_output:
  assumes rd: "ready tg g" and c: "content_inv tg g fc ids bs"
  shows "\<exists>g'. output_insn tg plt insn_jmp g = Some (Inr g')"
proof -
  let ?g = "insn_begins insn_jmp g"
  note r0 = ready_begins [OF rd, of insn_jmp]
  obtain g1 where G: "frag_grow tg 6 ?g = Inr g1" "appends tg [] ?g g1"
    using frag_grow_appends [OF r0, of 6] by auto
  note r1 = ready_appends [OF r0 G(2)]
  let ?bs = "[ucast (base_opcode insn_jmp)] :: byte list"
  obtain p g2 where "frag_more tg 1 g1 = Inr (p, g2)" "\<forall>xs. length xs = 1 \<longrightarrow> appends tg xs g1 (poke_list p xs g2)"
    using frag_more_appends [OF r1, of 1] by auto
  then have M: "frag_more tg 1 g1 = Inr (p, g2)" "appends tg ?bs g1 (poke_list p ?bs g2)" by (simp_all del: poke_list.simps)
  note r2 = ready_appends [OF r1 M(2)]
  have "\<exists>g'. output_branch tg insn_jmp ?g = Inr g'"
    using G(1) M(1) frag_var_appends [OF r2, of 5 rs_machine_dependent] ready_seg [OF r0]
    by (simp add: output_branch_def insn_jmp_simps Let_def) (metis (no_types))
  then show ?thesis
    using output_insn_effect [OF rd insn_jmp_simps(2) c, of plt]
    by (auto simp: output_insn_body [OF c] output_body_def insn_jmp_simps)
qed

section \<open>Properties\<close>



end
