(* ===== verification/Hooks.thy ===== *)
theory Hooks
  imports Encoding
begin

text \<open>
  The statements of an assembly file as the collector sees them (\<open>src/gas/read.c\<close>, \<open>src/gas/symbols.c\<close>,
  \<open>src/gas/config/obj-elf.c\<close>): labels, data directives, alignment, the start and end of functions, and
  instructions.  A run of the assembler is a sequence of such steps; the invariant of the marks they
  leave on the frags is proved by induction over the run, and with it that the split pass moves no
  octet of an instruction.
\<close>

section \<open>Labels\<close>

text \<open>The assembler's state together with \<open>sy_hash\<close>, the table of symbols by name.\<close>

record asm =
  gs :: gas
  sy_hash :: "byte list \<Rightarrow> symP option"

text \<open>The collector's part of \<open>colon\<close>: outside functions a label in \<open>.text\<close> starts a new frag, or makes the
  label already there an anchor.\<close>

definition colon_hook :: "target \<Rightarrow> gas \<Rightarrow> gas result" where
  "colon_hook tg g =
     bindE (if fiy_dcollect g \<and> now_seg g = text_section \<and> \<not> is_in_func g then
              bindE (frag_now_fix tg g) (\<lambda>fix.
              if 0 < fix then frag_new tg 0 (frag_wane (frag_now g) g)
              else if frag_symbol (frags g (frag_now g)) \<noteq> None
              then Inr (upd_frag (frag_now g) (\<lambda>f. f\<lparr>fr_flags := fr_flags f\<lparr>anchor_frag := True\<rparr>,
                          frag_anchor := frag_symbol f\<rparr>) g)
              else Inr g)
            else Inr g) (\<lambda>g1.
     Inr (if fiy_dcollect g1 \<and> now_seg g1 = text_section then g1\<lparr>flash_symbol_point := False\<rparr> else g1))"

definition define_sym_at_dot :: "target \<Rightarrow> symP \<Rightarrow> gas \<Rightarrow> gas result" where
  "define_sym_at_dot tg s g =
     bindE (frag_now_fix tg g) (\<lambda>fix.
     bindE (S_SET_SEGMENT (now_seg g) ((syms g s)\<lparr>sy_frag := Some (frag_now g), sy_value := fix\<rparr>)) (\<lambda>y.
     Inr (g\<lparr>syms := (syms g)(s := y)\<rparr>)))"

text \<open>A name that is already in the table.  A symbol that is not local is here neither equated, common
  nor volatile; an undefined one whose value is not 0 is only accepted by the code for \<open>.comm\<close> symbols.\<close>

definition colon_known :: "target \<Rightarrow> symP \<Rightarrow> gas \<Rightarrow> gas result" where
  "colon_known tg s g =
     bindE (frag_now_fix tg g) (\<lambda>fix.
     let y = syms g s in
     if local_symbol y then
       (if sy_seg y \<noteq> undefined_section
           \<and> (sy_frag y \<noteq> Some (frag_now g) \<or> sy_seg y \<noteq> now_seg g \<or> sy_value y \<noteq> fix)
        then Inl As_bad
        else Inr (g\<lparr>syms := (syms g)(s := y\<lparr>sy_seg := now_seg g, sy_frag := Some (frag_now g), sy_value := fix\<rparr>)\<rparr>))
     else if sy_seg y = undefined_section then
       (if sy_value y = 0 then define_sym_at_dot tg s g else Inl As_bad)
     else if sy_frag y = Some (frag_now g) \<and> sy_value y = fix \<and> sy_seg y = now_seg g then Inr g
     else Inl As_bad)"

text \<open>A new name; \<open>raw\<close> is what the memory of a local symbol held before.\<close>

definition colon_new :: "target \<Rightarrow> bool \<Rightarrow> symbol \<Rightarrow> byte list \<Rightarrow> gas \<Rightarrow> (symP \<times> gas) result" where
  "colon_new tg is_local raw name g =
     bindE (frag_now_fix tg g) (\<lambda>fix.
     Inr (if is_local
          then (n_syms g, g\<lparr>syms := (syms g)(n_syms g := local_symbol_make raw name (now_seg g) (Some (frag_now g)) fix),
                            n_syms := n_syms g + 1\<rparr>)
          else symbol_new name (now_seg g) (Some (frag_now g)) fix g))"

text \<open>\<open>is_local\<close> is \<open>! flag_keep_locals && bfd_is_local_label_name\<close>: with \<open>--keep-locals\<close> no name is local.\<close>

definition colon :: "target \<Rightarrow> (byte list \<Rightarrow> bool) \<Rightarrow> symbol \<Rightarrow> byte list \<Rightarrow> asm \<Rightarrow> (symP \<times> asm) result" where
  "colon tg is_local raw name a =
     bindE (colon_hook tg (gs a)) (\<lambda>g.
     case sy_hash a name of
       Some s \<Rightarrow> bindE (colon_known tg s g) (\<lambda>g1. Inr (s, a\<lparr>gs := g1\<rparr>))
     | None \<Rightarrow> bindE (colon_new tg (is_local name) raw name g) (\<lambda>(s, g1).
         Inr (s, a\<lparr>gs := g1, sy_hash := (sy_hash a)(name \<mapsto> s)\<rparr>)))"

text \<open>A label in the main loop of \<open>read_a_source_file\<close>.\<close>

definition read_label :: "target \<Rightarrow> (byte list \<Rightarrow> bool) \<Rightarrow> symbol \<Rightarrow> byte list \<Rightarrow> asm \<Rightarrow> asm result" where
  "read_label tg is_local raw name a =
     bindE (colon tg is_local raw name a) (\<lambda>(s, a1).
     Inr (if fiy_dcollect (gs a1) then a1\<lparr>gs := update_frag_symbol (update_cur_symbol (Some s) (gs a1))\<rparr> else a1))"

section \<open>Data and alignment\<close>

fun cons_worker :: "target \<Rightarrow> nat \<Rightarrow> expressionS list \<Rightarrow> gas \<Rightarrow> gas result" where
  "cons_worker tg nbytes [] g = Inr g"
| "cons_worker tg nbytes (ex # exs) g =
     bindE (emit_expr tg [] ex nbytes g) (\<lambda>g1.
     cons_worker tg nbytes exs (if fiy_dcollect g1 \<and> now_seg g1 = text_section
       then g1\<lparr>total_hardcoded_bytes := total_hardcoded_bytes g1 + word_of_nat nbytes\<rparr> else g1))"

definition cons_hook :: "gas \<Rightarrow> gas" where
  "cons_hook g = (if fiy_dcollect g \<and> now_seg g = text_section then
     (let g1 = upd_frag (frag_now g) (\<lambda>f. f\<lparr>begin_bytes := begin_bytes f \<or> \<not> frag_has_insn f,
                  frag_has_hardcode := True, hardcode_size := hardcode_size f + 1\<rparr>) g in
      if flash_symbol_point g1 then g1
      else (case get_cur_symbol g1 of None \<Rightarrow> g1 | Some s \<Rightarrow> g1\<lparr>syms := S_SET_BIND_INFO s True (syms g1)\<rparr>)) else g)"

text \<open>\<open>.byte\<close>, \<open>.long\<close> and the like; the operands of the line are \<open>exs\<close>, and \<open>nbytes = 0\<close> asks for the
  size of an address, 8.\<close>

definition cons_stmt :: "target \<Rightarrow> nat \<Rightarrow> expressionS list \<Rightarrow> gas \<Rightarrow> gas result" where
  "cons_stmt tg nbytes exs g =
     bindE (if exs = [] then Inr g else cons_worker tg (if nbytes = 0 then 8 else nbytes) exs g) (\<lambda>g1. Inr (cons_hook g1))"

definition record_alignment :: "segT \<Rightarrow> nat \<Rightarrow> gas \<Rightarrow> gas" where
  "record_alignment seg n g = (if seg = absolute_section then g
     else g\<lparr>seg_info := (seg_info g)(seg := map_option (\<lambda>si. si\<lparr>seg_align := max n (seg_align si)\<rparr>) (seg_info g seg))\<rparr>)"

definition align_hook :: "target \<Rightarrow> gas \<Rightarrow> gas result" where
  "align_hook tg g =
     (if fiy_dcollect g \<and> now_seg g = text_section then
        bindE (frag_now_fix tg g) (\<lambda>fix.
        bindE (if 0 < fix then frag_new tg 0 (frag_wane (frag_now g) g) else Inr g) (\<lambda>g1.
        Inr (upd_frag (frag_now g1) (\<lambda>f. f\<lparr>fr_flags := fr_flags f\<lparr>align_frag := True\<rparr>\<rparr>) g1)))
      else Inr g)"

text \<open>\<open>do_align\<close> with \<open>md_do_align\<close>, without a second pass; \<open>fill\<close> points to at least one octet.  \<open>subseg_text_p\<close> reads the section's flags, which are an argument.\<close>

definition make_align :: "target \<Rightarrow> (segT \<Rightarrow> bool) \<Rightarrow> nat \<Rightarrow> byte list option \<Rightarrow> nat \<Rightarrow> u32 \<Rightarrow> gas \<Rightarrow> gas result" where
  "make_align tg subseg_text_p n fill len mx g = (case fill of
     None \<Rightarrow> if subseg_text_p (now_seg g) then frag_align_code tg n mx g else frag_align tg n 0 mx g
   | Some pat \<Rightarrow>
       if hd pat = 0x90 \<and> len = 1 \<and> subseg_text_p (now_seg g) then frag_align_code tg n mx g
       else if len \<le> 1 then frag_align tg n (hd pat) mx g
       else frag_align_pattern tg n (take len pat) mx g)"

definition do_align :: "target \<Rightarrow> (segT \<Rightarrow> bool) \<Rightarrow> nat \<Rightarrow> byte list option \<Rightarrow> nat \<Rightarrow> u32 \<Rightarrow> gas \<Rightarrow> gas result" where
  "do_align tg subseg_text_p n fill0 len mx g =
     (let fill = (if now_seg g = absolute_section \<or> now_seg g = bss_section then None else fill0) in
      bindE (align_hook tg g) (\<lambda>g1.
      if n = 0 then Inr g1
      else bindE (make_align tg subseg_text_p n fill len mx g1) (\<lambda>g2. Inr (record_alignment (now_seg g2) n g2))))"

section \<open>Functions\<close>

text \<open>\<open>.type name, @function\<close> and \<open>.size name\<close>, as far as the collector is concerned.\<close>

definition obj_elf_type :: "byte list \<Rightarrow> gas \<Rightarrow> gas" where
  "obj_elf_type name g = (if fiy_dcollect g then g\<lparr>cur_func_name := Some name, is_in_func := True\<rparr> else g)"

definition obj_elf_size :: "byte list \<Rightarrow> gas \<Rightarrow> gas" where
  "obj_elf_size name g = (if fiy_dcollect g \<and> is_in_func g \<and> cur_func_name g = Some name
     then g\<lparr>cur_func_name := None, is_in_func := False\<rparr> else g)"

section \<open>Runs of the assembler\<close>

text \<open>What a file is assembled with: the build, the flags of sections, which names are local labels, and
  which symbols need a procedure linkage entry.\<close>

record setting =
  tgt :: target
  text_p :: "segT \<Rightarrow> bool"
  local_name :: "byte list \<Rightarrow> bool"
  plt_p :: "symP option \<Rightarrow> bool"

text \<open>The frags an instruction has been written to: from the frag that was current to the one that is.\<close>

definition written_frags :: "gas \<Rightarrow> gas \<Rightarrow> fragP set" where
  "written_frags g g' = (case frags_until (frags g') (frag_now g') (Some (frag_now g)) of
     None \<Rightarrow> {} | Some qs \<Rightarrow> insert (frag_now g') (set qs))"

text \<open>A state reached by statements in \<open>.text\<close>, with the set of frags instructions have been written to.
  Alignment requests are to at most \<open>2 ^ 16\<close> octets; \<open>.p2align 0\<close> is left out (see \<open>align_zero_moves_code\<close>).\<close>

inductive assembled :: "setting \<Rightarrow> asm \<Rightarrow> fragP set \<Rightarrow> bool" for se where
  start: "ready (tgt se) g \<Longrightarrow> fiy_dcollect g \<Longrightarrow> now_seg g = text_section \<Longrightarrow> \<not> is_finish_subseg g \<Longrightarrow>
    frag_next g (frag_now g) = None \<Longrightarrow> the_frchain g = Some fc \<Longrightarrow> frch_root fc = Some (frag_now g) \<Longrightarrow>
    unlabelled (frags g (frag_now g)) \<Longrightarrow> text_cur_symbol g = None \<Longrightarrow> assembled se \<lparr>gs = g, sy_hash = Map.empty\<rparr> {}"
| insn: "assembled se a C \<Longrightarrow> insn_ok i \<Longrightarrow> output_insn (tgt se) (plt_p se) i (gs a) = Some (Inr g) \<Longrightarrow>
    assembled se (a\<lparr>gs := g\<rparr>) (C \<union> written_frags (gs a) g)"
| label: "assembled se a C \<Longrightarrow> read_label (tgt se) (local_name se) raw name a = Inr a' \<Longrightarrow> assembled se a' C"
| data: "assembled se a C \<Longrightarrow> nbytes \<le> 16 \<Longrightarrow> cons_stmt (tgt se) nbytes exs (gs a) = Inr g \<Longrightarrow>
    assembled se (a\<lparr>gs := g\<rparr>) C"
| align: "assembled se a C \<Longrightarrow> 0 < n \<Longrightarrow> n \<le> 16 \<Longrightarrow> len \<le> 256 \<Longrightarrow>
    do_align (tgt se) (text_p se) n fill len mx (gs a) = Inr g \<Longrightarrow> assembled se (a\<lparr>gs := g\<rparr>) C"
| func_begin: "assembled se a C \<Longrightarrow> assembled se (a\<lparr>gs := obj_elf_type name (gs a)\<rparr>) C"
| func_end: "assembled se a C \<Longrightarrow> assembled se (a\<lparr>gs := obj_elf_size name (gs a)\<rparr>) C"

text \<open>The invariant of the marks: frags with instructions are marked as such; an alignment frag is empty,
  and the current frag is none; an anchor has both labels; labels are symbols of the file.\<close>

definition marks_ok :: "target \<Rightarrow> gas \<Rightarrow> fragP set \<Rightarrow> fragP list \<Rightarrow> bool" where
  "marks_ok tg g C ids \<longleftrightarrow> C \<subseteq> set ids \<and> (\<forall>p \<in> C. insn_frag (fr_flags (frags g p)))
   \<and> (\<forall>p \<in> set ids. labels_ok (n_syms g) (frags g p))
   \<and> (\<forall>p \<in> set (butlast ids). align_frag (fr_flags (frags g p)) \<longrightarrow> fr_fix (frags g p) = 0)
   \<and> \<not> align_frag (fr_flags (frags g (last ids)))"

definition run_ok :: "target \<Rightarrow> asm \<Rightarrow> fragP set \<Rightarrow> bool" where
  "run_ok tg a C \<longleftrightarrow> ready tg (gs a) \<and> fiy_dcollect (gs a) \<and> now_seg (gs a) = text_section
   \<and> \<not> is_finish_subseg (gs a) \<and> (\<forall>s \<in> ran (sy_hash a). s < n_syms (gs a))
   \<and> (\<forall>s. text_cur_symbol (gs a) = Some s \<longrightarrow> s < n_syms (gs a))
   \<and> (\<exists>fc ids bs. content_inv tg (gs a) fc ids bs \<and> marks_ok tg (gs a) C ids)"

lemma marks_kept_labels: "marks_kept f f' \<Longrightarrow> labels_ok n f \<Longrightarrow> n \<le> m \<Longrightarrow> labels_ok m f'"
  by (auto simp: marks_kept_def labels_ok_def)

lemma unlabelled_labels: "unlabelled f \<Longrightarrow> labels_ok n f"
  by (simp add: unlabelled_def labels_ok_def)

text \<open>Adding octets keeps the marks.\<close>

lemma adds_marks:
  assumes ad: "adds tg g ids bs g' new xs" and m: "marks_ok tg g C ids" and ne: "ids \<noteq> []" and n: "n_syms g \<le> n_syms g'"
    and C': "C' \<subseteq> C \<union> set (last ids # new)" and ins: "\<forall>p \<in> C' - C. insn_frag (fr_flags (frags g' p))"
  shows "marks_ok tg g' C' (ids @ new)"
proof -
  have A: "\<forall>p \<in> set ids. marks_kept (frags g p) (frags g' p)" "\<forall>p \<in> set new. unlabelled (frags g' p)"
    "\<forall>p \<in> set (butlast ids). fr_fix (frags g' p) = fr_fix (frags g p)"
    using ad by (auto simp: adds_def)
  have M: "C \<subseteq> set ids" "\<forall>p \<in> C. insn_frag (fr_flags (frags g p))" "\<forall>p \<in> set ids. labels_ok (n_syms g) (frags g p)"
    "\<forall>p \<in> set (butlast ids). align_frag (fr_flags (frags g p)) \<longrightarrow> fr_fix (frags g p) = 0"
    "\<not> align_frag (fr_flags (frags g (last ids)))"
    using m by (auto simp: marks_ok_def)
  have "C' \<subseteq> set (ids @ new)" using C' M(1) ne by auto
  moreover have "insn_frag (fr_flags (frags g' p))" if "p \<in> C'" for p
    using that ins M(1,2) A(1) by (cases "p \<in> C") (auto simp: marks_kept_def)
  moreover have "labels_ok (n_syms g') (frags g' p)" if "p \<in> set (ids @ new)" for p
    using that A(1,2) M(3) n marks_kept_labels unlabelled_labels by (metis Un_iff set_append)
  moreover have al: "\<not> align_frag (fr_flags (frags g' p))" if "p \<in> set (last ids # new)" for p
    using that A(1,2) M(5) ne by (auto simp: marks_kept_def unlabelled_def)
  moreover have "align_frag (fr_flags (frags g' p)) \<longrightarrow> fr_fix (frags g' p) = 0" if "p \<in> set (butlast (ids @ new))" for p
  proof (cases "p \<in> set (butlast ids)")
    case True
    then show ?thesis using A(1,3) M(4) in_set_butlastD [OF True] by (auto simp: marks_kept_def)
  next
    case False
    have "p \<in> set (ids @ new)" using in_set_butlastD [OF that] .
    then have "p \<in> set (last ids # new)" using False ne by (auto simp: in_set_conv_decomp [of p ids] butlast_append split: if_splits)
    then show ?thesis using al by blast
  qed
  moreover have "last (ids @ new) \<in> set (last ids # new)" by (cases "new = []") auto
  ultimately show ?thesis unfolding marks_ok_def by blast
qed

section \<open>Every statement keeps the invariant\<close>

lemma run_okI:
  assumes "run_ok tg a C" and "ready tg g'" and "same_state (gs a) g'" and "content_inv tg g' fc' ids' bs'"
    and "marks_ok tg g' C' ids'"
  shows "run_ok tg (a\<lparr>gs := g'\<rparr>) C'"
  using assms unfolding run_ok_def same_state_def by (simp, metis order.strict_trans2)

lemma run_ok_appends:
  assumes r: "run_ok tg a C" and a: "appends tg xs (gs a) g'"
  shows "run_ok tg (a\<lparr>gs := g'\<rparr>) C"
proof -
  obtain fc ids bs where c: "content_inv tg (gs a) fc ids bs" "marks_ok tg (gs a) C ids" "ready tg (gs a)"
    using r by (auto simp: run_ok_def)
  obtain new where A: "adds tg (gs a) ids bs g' new xs" using appends_adds [OF a c(1)] by blast
  have "n_syms (gs a) \<le> n_syms g'" "ids \<noteq> []"
    using appends_run [OF a] content_chain [OF c(1)] by (auto simp: same_run_def chain_inv_def)
  then have "marks_ok tg g' C (ids @ new)" by (intro adds_marks [OF A c(2)]) auto
  moreover obtain fc' where "content_inv tg g' fc' (ids @ new) (bs @ xs)" using A by (auto simp: adds_def)
  ultimately show ?thesis
    using run_okI [OF r ready_appends [OF c(3) a] same_run_state [OF appends_run [OF a]]] by blast
qed

lemma written_frags_insn:
  assumes c: "content_inv tg g fc ids bs" and a: "adds tg g ids bs g' new xs"
  shows "written_frags g g' = set (last ids # new)"
proof -
  have ne: "ids \<noteq> []" "frag_now g = last ids" using content_chain [OF c] by (auto simp: chain_inv_def)
  obtain fc' where c': "content_inv tg g' fc' (ids @ new) (bs @ xs)" using a by (auto simp: adds_def)
  have now: "frag_now g' = last (last ids # new)" using content_chain [OF c'] by (auto simp: chain_inv_def)
  then have "set (last ids # new) = insert (frag_now g') (set (butlast (last ids # new)))"
    using append_butlast_last_id [of "last ids # new"]
    by (metis list.distinct(1) list.set(1) list.simps(15) rotate1.simps(2) set_rotate1)
  then show ?thesis
    using frags_until_chain [OF content_chain [OF c'] ne(1)] by (simp add: written_frags_def ne(2))
qed

lemma run_ok_insn:
  assumes r: "run_ok tg a C" and ok: "insn_ok i" and o: "output_insn tg plt i (gs a) = Some (Inr g')"
  shows "run_ok tg (a\<lparr>gs := g'\<rparr>) (C \<union> written_frags (gs a) g')"
proof -
  obtain fc ids bs where c: "content_inv tg (gs a) fc ids bs" "marks_ok tg (gs a) C ids" "ready tg (gs a)" "fiy_dcollect (gs a)"
    using r by (auto simp: run_ok_def)
  have ne: "ids \<noteq> []" using content_chain [OF c(1)] by (auto simp: chain_inv_def)
  obtain new xs where A: "same_state (gs a) g'" "ready tg g'" "adds tg (gs a) ids bs g' new xs"
    "\<forall>p \<in> set (last ids # new). insn_frag (fr_flags (frags g' p))"
    using output_insn_effect [OF c(3) ok c(1), of plt] o c(4) by auto
  obtain fc' where c': "content_inv tg g' fc' (ids @ new) (bs @ xs)" using A(3) by (auto simp: adds_def)
  note w = written_frags_insn [OF c(1) A(3)]
  have "n_syms (gs a) \<le> n_syms g'" using A(1) by (simp add: same_state_def)
  then have "marks_ok tg g' (C \<union> written_frags (gs a) g') (ids @ new)"
    using A(4) w by (intro adds_marks [OF A(3) c(2) ne]) auto
  then show ?thesis using run_okI [OF r A(2,1) c'] by blast
qed

text \<open>Variables the marks do not depend on.\<close>

lemma run_ok_vars:
  assumes r: "run_ok tg a C" and g: "the_frchain g' = the_frchain (gs a)" "frags g' = frags (gs a)" "mem g' = mem (gs a)"
      "now_seg g' = now_seg (gs a)" "frag_now g' = frag_now (gs a)" "fiy_dcollect g' = fiy_dcollect (gs a)"
      "is_finish_subseg g' = is_finish_subseg (gs a)" "mri_common_symbol g' = mri_common_symbol (gs a)"
      "n_syms (gs a) \<le> n_syms g'"
    and t: "\<And>s. text_cur_symbol g' = Some s \<Longrightarrow> s < n_syms g'"
  shows "run_ok tg (a\<lparr>gs := g'\<rparr>) C"
proof -
  have c: "content_inv tg g' fc ids bs = content_inv tg (gs a) fc ids bs" for fc ids bs
    by (rule content_cong [OF g(1-5)])
  have "labels_ok n f \<Longrightarrow> labels_ok m f" if "n \<le> m" for n m f using that by (auto simp: labels_ok_def)
  then have m: "marks_ok tg (gs a) C ids \<Longrightarrow> marks_ok tg g' C ids" for ids using g(2,9) by (auto simp: marks_ok_def)
  have "ready tg g'" using r g(8) by (simp add: run_ok_def ready_def c)
  moreover have "\<forall>s \<in> ran (sy_hash a). s < n_syms g'" using r g(9) by (auto simp: run_ok_def)
  ultimately show ?thesis
    using r t g(4,6,7) unfolding run_ok_def by (auto simp: c intro: m)
qed

lemma the_frchain_vars [simp]:
  "the_frchain (g\<lparr>cur_func_name := x1\<rparr>) = the_frchain g" "the_frchain (g\<lparr>is_in_func := x2\<rparr>) = the_frchain g"
  "the_frchain (g\<lparr>total_hardcoded_bytes := x3\<rparr>) = the_frchain g" "the_frchain (g\<lparr>flash_symbol_point := x2\<rparr>) = the_frchain g"
  "the_frchain (g\<lparr>text_cur_symbol := x4\<rparr>) = the_frchain g" "the_frchain (g\<lparr>syms := x5\<rparr>) = the_frchain g"
  "the_frchain (g\<lparr>n_syms := x6\<rparr>) = the_frchain g" "the_frchain (g\<lparr>sym_chain := x7\<rparr>) = the_frchain g"
  by (rule the_frchain_cong, simp, simp)+

lemma run_ok_cur: "run_ok tg a C \<Longrightarrow> text_cur_symbol (gs a) = Some s \<Longrightarrow> s < n_syms (gs a)"
  by (simp add: run_ok_def)

lemma run_ok_func:
  assumes "run_ok tg a C"
  shows "run_ok tg (a\<lparr>gs := obj_elf_type name (gs a)\<rparr>) C" "run_ok tg (a\<lparr>gs := obj_elf_size name (gs a)\<rparr>) C"
proof -
  have "run_ok tg (a\<lparr>gs := (gs a)\<lparr>cur_func_name := n, is_in_func := b\<rparr>\<rparr>) C" for n b
    by (rule run_ok_vars [OF assms]) (simp_all add: run_ok_cur [OF assms])
  moreover have "run_ok tg (a\<lparr>gs := gs a\<rparr>) C" using assms by simp
  ultimately show "run_ok tg (a\<lparr>gs := obj_elf_type name (gs a)\<rparr>) C" "run_ok tg (a\<lparr>gs := obj_elf_size name (gs a)\<rparr>) C"
    unfolding obj_elf_type_def obj_elf_size_def by presburger+
qed

lemma run_ok_worker:
  "run_ok tg a C \<Longrightarrow> n \<le> 16 \<Longrightarrow> cons_worker tg n exs (gs a) = Inr g' \<Longrightarrow> run_ok tg (a\<lparr>gs := g'\<rparr>) C"
proof (induction exs arbitrary: a)
  case Nil
  then have "a\<lparr>gs := g'\<rparr> = a" by simp
  then show ?case using Nil.prems(1) by simp
next
  case (Cons ex exs)
  obtain g1 where e: "emit_expr tg [] ex n (gs a) = Inr g1" using Cons.prems(3) by auto
  let ?g2 = "if fiy_dcollect g1 \<and> now_seg g1 = text_section
       then g1\<lparr>total_hardcoded_bytes := total_hardcoded_bytes g1 + word_of_nat n\<rparr> else g1"
  obtain xs where "appends tg xs (gs a) g1"
    using emit_expr_appends [OF _ _ e] Cons.prems(1,2) by (auto simp: run_ok_def)
  then have r1: "run_ok tg (a\<lparr>gs := g1\<rparr>) C" using run_ok_appends [OF Cons.prems(1)] by blast
  have "run_ok tg (a\<lparr>gs := g1\<lparr>total_hardcoded_bytes := k\<rparr>\<rparr>) C" for k
    using run_ok_vars [OF r1, of "g1\<lparr>total_hardcoded_bytes := k\<rparr>"] run_ok_cur [OF r1] by simp
  then have "run_ok tg (a\<lparr>gs := ?g2\<rparr>) C" using r1 by presburger
  from Cons.IH [OF this Cons.prems(2)] Cons.prems(3) e show ?case by simp
qed

lemma run_ok_syms:
  assumes "run_ok tg a C"
  shows "run_ok tg (a\<lparr>gs := (gs a)\<lparr>syms := sy\<rparr>\<rparr>) C" "run_ok tg (a\<lparr>gs := (gs a)\<lparr>flash_symbol_point := b\<rparr>\<rparr>) C"
  by (rule run_ok_vars [OF assms], simp_all add: run_ok_cur [OF assms])+

lemma run_ok_cons:
  assumes r: "run_ok tg a C" and n: "n \<le> 16" and o: "cons_stmt tg n exs (gs a) = Inr g'"
  shows "run_ok tg (a\<lparr>gs := g'\<rparr>) C"
proof -
  obtain g1 where W: "(if exs = [] then Inr (gs a) else cons_worker tg (if n = 0 then 8 else n) exs (gs a)) = Inr g1"
    "g' = cons_hook g1"
    using o by (auto simp: cons_stmt_def)
  have r1: "run_ok tg (a\<lparr>gs := g1\<rparr>) C"
  proof (cases "exs = []")
    case True
    then have "a\<lparr>gs := g1\<rparr> = a" using W(1) by simp
    then show ?thesis using r by simp
  next
    case False
    then show ?thesis using run_ok_worker [OF r, of "if n = 0 then 8 else n" exs g1] W(1) n by simp
  qed
  let ?f = "\<lambda>f. f\<lparr>begin_bytes := begin_bytes f \<or> \<not> frag_has_insn f, frag_has_hardcode := True,
      hardcode_size := hardcode_size f + 1\<rparr>"
  let ?g2 = "upd_frag (frag_now g1) ?f g1"
  have "appends tg [] g1 ?g2" by (rule appends_upd_frag) (simp_all add: marks_kept_def)
  then have r2: "run_ok tg (a\<lparr>gs := ?g2\<rparr>) C" using run_ok_appends [OF r1, of "[]" ?g2] by simp
  then have "run_ok tg (a\<lparr>gs := ?g2\<lparr>syms := sy\<rparr>\<rparr>) C" for sy using run_ok_syms(1) [OF r2, of sy] by simp
  then show ?thesis
    using r1 r2 unfolding W(2) cons_hook_def Let_def by (auto split: option.split)
qed

section \<open>Labels keep the invariant\<close>

text \<open>Setting the label of the current frag, and making it an anchor.\<close>

lemma run_ok_frag_now:
  assumes r: "run_ok tg a C" and f: "\<And>x. fr_next (f x) = fr_next x" "\<And>x. fr_fix (f x) = fr_fix x"
      "\<And>x. insn_frag (fr_flags (f x)) = insn_frag (fr_flags x)" "\<And>x. align_frag (fr_flags (f x)) = align_frag (fr_flags x)"
    and l: "\<And>x. labels_ok (n_syms (gs a)) x \<Longrightarrow> labels_ok (n_syms (gs a)) (f x)"
  shows "run_ok tg (a\<lparr>gs := upd_frag p f (gs a)\<rparr>) C"
proof -
  let ?g = "upd_frag p f (gs a)"
  have c: "content_inv tg ?g fc ids bs = content_inv tg (gs a) fc ids bs" for fc ids bs
    by (rule upd_frag_content [OF f(1,2)])
  have e: "n_syms ?g = n_syms (gs a)" "text_cur_symbol ?g = text_cur_symbol (gs a)" by (simp_all add: upd_frag_def)
  have "marks_ok tg ?g C ids = marks_ok tg (gs a) C ids \<or> marks_ok tg ?g C ids" if "marks_ok tg (gs a) C ids" for ids
    using that f l by (auto simp: marks_ok_def frags_upd_frag e)
  moreover have "ready tg ?g = ready tg (gs a)" by (simp add: ready_def c)
  ultimately show ?thesis using r e unfolding run_ok_def by (simp add: c) blast
qed

lemma colon_hook_ok:
  assumes r: "run_ok tg a C" and o: "colon_hook tg (gs a) = Inr g'"
  shows "run_ok tg (a\<lparr>gs := g'\<rparr>) C"
proof -
  let ?f = "\<lambda>f. f\<lparr>fr_flags := fr_flags f\<lparr>anchor_frag := True\<rparr>, frag_anchor := frag_symbol f\<rparr>"
  let ?g = "gs a"
  obtain g1 where h: "(if fiy_dcollect ?g \<and> now_seg ?g = text_section \<and> \<not> is_in_func ?g then
              bindE (frag_now_fix tg ?g) (\<lambda>fix.
              if 0 < fix then frag_new tg 0 (frag_wane (frag_now ?g) ?g)
              else if frag_symbol (frags ?g (frag_now ?g)) \<noteq> None then Inr (upd_frag (frag_now ?g) ?f ?g)
              else Inr ?g) else Inr ?g) = Inr g1"
    and g': "g' = (if fiy_dcollect g1 \<and> now_seg g1 = text_section then g1\<lparr>flash_symbol_point := False\<rparr> else g1)"
    using o unfolding colon_hook_def bindE_Inr_iff by (elim exE conjE) (simp only: sum.inject)
  have g1: "g1 = ?g \<or> close_frag tg ?g = Inr g1
      \<or> frag_symbol (frags ?g (frag_now ?g)) \<noteq> None \<and> g1 = upd_frag (frag_now ?g) ?f ?g"
    using h unfolding close_frag_def by (simp only: bindE_Inr_iff sum.inject split: if_splits) metis+
  have "run_ok tg (a\<lparr>gs := g1\<rparr>) C"
    using g1
  proof (elim disjE)
    assume "g1 = gs a"
    then show ?thesis using r by simp
  next
    assume "close_frag tg (gs a) = Inr g1"
    then show ?thesis using run_ok_appends [OF r close_frag_appends] r by (simp add: run_ok_def)
  next
    assume e: "frag_symbol (frags (gs a) (frag_now (gs a))) \<noteq> None \<and> g1 = upd_frag (frag_now (gs a)) ?f (gs a)"
    let ?h = "\<lambda>f. if frag_symbol f \<noteq> None then ?f f else f"
    have "g1 = upd_frag (frag_now (gs a)) ?h (gs a)" using e by (simp add: upd_frag_def)
    then show ?thesis by (simp only:) (rule run_ok_frag_now [OF r], auto simp: labels_ok_def)
  qed
  then show ?thesis using run_ok_syms(2) [of tg "a\<lparr>gs := g1\<rparr>" C False] unfolding g' by simp
qed

lemma colon_known_ok:
  assumes r: "run_ok tg a C" and o: "colon_known tg s (gs a) = Inr g'"
  shows "run_ok tg (a\<lparr>gs := g'\<rparr>) C \<and> n_syms g' = n_syms (gs a)"
proof -
  have "g' = gs a \<or> (\<exists>sy. g' = (gs a)\<lparr>syms := sy\<rparr>)"
    using o by (auto simp: colon_known_def define_sym_at_dot_def Let_def split: if_splits)
  then show ?thesis
  proof
    assume "g' = gs a"
    then show ?thesis using r by simp
  next
    assume "\<exists>sy. g' = (gs a)\<lparr>syms := sy\<rparr>"
    then show ?thesis using run_ok_syms(1) [OF r] by auto
  qed
qed

lemma colon_new_ok:
  assumes r: "run_ok tg a C" and o: "colon_new tg loc raw name (gs a) = Inr (s, g')"
  shows "run_ok tg (a\<lparr>gs := g', sy_hash := (sy_hash a)(name \<mapsto> s)\<rparr>) C \<and> s < n_syms g'"
proof -
  have e: "the_frchain g' = the_frchain (gs a)" "frags g' = frags (gs a)" "mem g' = mem (gs a)"
      "now_seg g' = now_seg (gs a)" "frag_now g' = frag_now (gs a)" "fiy_dcollect g' = fiy_dcollect (gs a)"
      "is_finish_subseg g' = is_finish_subseg (gs a)" "mri_common_symbol g' = mri_common_symbol (gs a)"
      "n_syms (gs a) \<le> n_syms g'" "text_cur_symbol g' = text_cur_symbol (gs a)" "s < n_syms g'"
    using o by (auto simp: colon_new_def symbol_new_def symbol_create_def Let_def split: if_splits)
  have "s' < n_syms g'" if "text_cur_symbol g' = Some s'" for s'
    using run_ok_cur [OF r, of s'] that e(9,10) by simp
  then have "run_ok tg (a\<lparr>gs := g'\<rparr>) C" by (rule run_ok_vars [OF r e(1-9)])
  then show ?thesis using e(11) by (auto simp: run_ok_def ran_def)
qed

lemma run_ok_label:
  assumes r: "run_ok tg a C" and o: "read_label tg loc raw name a = Inr a'"
  shows "run_ok tg a' C"
proof -
  obtain g s a1 where L: "colon_hook tg (gs a) = Inr g" "colon tg loc raw name a = Inr (s, a1)"
    "a' = (if fiy_dcollect (gs a1) then a1\<lparr>gs := update_frag_symbol (update_cur_symbol (Some s) (gs a1))\<rparr> else a1)"
    using o by (auto simp: read_label_def colon_def)
  have r1: "run_ok tg (a\<lparr>gs := g\<rparr>) C" by (rule colon_hook_ok [OF r L(1)])
  have A: "run_ok tg a1 C \<and> s < n_syms (gs a1)"
  proof (cases "sy_hash a name")
    case (Some t)
    then obtain g1 where "colon_known tg t g = Inr g1" "s = t" "a1 = a\<lparr>gs := g1\<rparr>" using L(1,2) by (auto simp: colon_def)
    moreover have "t < n_syms g" using r1 Some by (auto simp: run_ok_def ran_def)
    ultimately show ?thesis using colon_known_ok [OF r1] by auto
  next
    case None
    then show ?thesis using L(1,2) colon_new_ok [OF r1] by (auto simp: colon_def)
  qed
  have "run_ok tg (a1\<lparr>gs := (gs a1)\<lparr>text_cur_symbol := Some s\<rparr>\<rparr>) C"
    using A by (intro run_ok_vars) auto
  from run_ok_frag_now [OF this, of "\<lambda>f. f\<lparr>frag_symbol := Some s\<rparr>" "frag_now (gs a1)"] A
  have "run_ok tg (a1\<lparr>gs := update_frag_symbol (update_cur_symbol (Some s) (gs a1))\<rparr>) C"
    by (simp add: update_frag_symbol_def update_cur_symbol_def labels_ok_def)
  then show ?thesis using A L(3) by simp
qed

section \<open>Alignment keeps the invariant\<close>

lemma butlast_more: "ids \<noteq> [] \<Longrightarrow> butlast (ids @ new) = butlast ids @ butlast (last ids # new)"
  by (cases ids rule: rev_cases) (auto simp: butlast_append)

text \<open>Nothing was written: the frags closed in between are empty.\<close>

lemma nothing_added:
  assumes a: "adds tg g ids bs g' new []" and c: "content_inv tg g fc ids bs" and z: "obstack_object_size (frch_obstack fc) = 0"
    and p: "p \<in> set (butlast (last ids # new))"
  shows "fr_fix (frags g' p) = 0"
proof -
  let ?s = "\<lambda>h ps. sum_list (map (\<lambda>p. unat (fr_fix (frags h p))) ps)"
  obtain fc' where c': "content_inv tg g' fc' (ids @ new) bs" using a by (auto simp: adds_def)
  have ne: "ids \<noteq> []" using content_chain [OF c] by (simp add: chain_inv_def)
  have "?s g' (butlast ids) = ?s g (butlast ids)"
    using a by (intro arg_cong [where f = sum_list]) (simp add: adds_def)
  moreover note butlast_more [OF ne, of new]
  then have "?s g' (butlast (ids @ new)) = ?s g' (butlast ids) + ?s g' (butlast (last ids # new))"
    by (metis map_append sum_list_append)
  ultimately have "?s g' (butlast (last ids # new)) = 0"
    using content_length [OF c] content_length [OF c'] z by (simp add: closed_size_sum)
  then show ?thesis using p by (auto simp: sum_list_eq_0_iff unat_eq_0)
qed

lemma align_marks:
  assumes c: "content_inv tg g fc ids bs" and z: "obstack_object_size (frch_obstack fc) = 0" and m: "marks_ok tg g C ids"
    and a: "appends tg [] (upd_frag (frag_now g) (\<lambda>f. f\<lparr>fr_flags := fr_flags f\<lparr>align_frag := True\<rparr>\<rparr>) g) g2"
    and f: "fr_flags (frags g2 (frag_now g2)) = no_flags" and c2: "content_inv tg g2 fc2 ids2 bs2"
  shows "marks_ok tg g2 C ids2 \<and> (\<forall>p \<in> set (butlast ids2) - set (butlast ids). fr_fix (frags g2 p) = 0)"
proof -
  let ?f = "\<lambda>f. f\<lparr>fr_flags := fr_flags f\<lparr>align_frag := True\<rparr>\<rparr>"
  let ?g1 = "upd_frag (frag_now g) ?f g"
  have ids: "ids \<noteq> []" "distinct ids" "frag_now g = last ids" using content_chain [OF c] by (auto simp: chain_inv_def)
  have c1: "content_inv tg ?g1 fc ids bs" using c by (simp add: upd_frag_content)
  obtain new where A: "adds tg ?g1 ids bs g2 new []" using appends_adds [OF a c1] by blast
  then obtain fc3 where "content_inv tg g2 fc3 (ids @ new) bs" by (auto simp: adds_def)
  then have e: "ids2 = ids @ new" using content_unique [OF c2] by simp
  have zero: "fr_fix (frags g2 p) = 0" if "p \<in> set (butlast (last ids # new))" for p
    using nothing_added [OF A c1 z that] .
  have B: "\<forall>p \<in> set ids. marks_kept (frags ?g1 p) (frags g2 p)" "\<forall>p \<in> set new. unlabelled (frags g2 p)"
    "\<forall>p \<in> set (butlast ids). fr_fix (frags g2 p) = fr_fix (frags g p)"
    using A by (auto simp: adds_def frags_upd_frag)
  have n: "n_syms g \<le> n_syms g2" using appends_run [OF a] by (simp add: same_run_def)
  have M: "C \<subseteq> set ids" "\<forall>p \<in> C. insn_frag (fr_flags (frags g p))" "\<forall>p \<in> set ids. labels_ok (n_syms g) (frags g p)"
    "\<forall>p \<in> set (butlast ids). align_frag (fr_flags (frags g p)) \<longrightarrow> fr_fix (frags g p) = 0"
    using m by (auto simp: marks_ok_def)
  have bl: "p \<noteq> last ids" if "p \<in> set (butlast ids)" for p using butlast_not_last [OF ids(2) that] .
  have now: "frag_now g2 = last ids2" using content_chain [OF c2] by (simp add: chain_inv_def)
  have split: "p \<in> set (butlast ids) \<or> p \<in> set (butlast (last ids # new))" if "p \<in> set (butlast ids2)" for p
    using that unfolding e butlast_more [OF ids(1)] by auto
  have "labels_ok (n_syms g2) (frags g2 p)" if "p \<in> set ids2" for p
  proof (cases "p \<in> set ids")
    case True
    then have "labels_ok (n_syms g) (frags ?g1 p)" using M(3) by (auto simp: frags_upd_frag labels_ok_def)
    then show ?thesis using B(1) True n marks_kept_labels by blast
  qed (use that B(2) e unlabelled_labels in auto)
  moreover have "insn_frag (fr_flags (frags g2 p))" if "p \<in> C" for p
  proof -
    have "insn_frag (fr_flags (frags ?g1 p))" using M(2) that by (auto simp: frags_upd_frag)
    then show ?thesis using B(1) M(1) that by (auto simp: marks_kept_def)
  qed
  moreover have "align_frag (fr_flags (frags g2 p)) \<longrightarrow> fr_fix (frags g2 p) = 0" if "p \<in> set (butlast ids2)" for p
    using split [OF that]
  proof
    assume p: "p \<in> set (butlast ids)"
    have "frags ?g1 p = frags g p" using bl [OF p] ids(3) by (simp add: frags_upd_frag)
    then show ?thesis using B(1,3) M(4) p in_set_butlastD [OF p] by (auto simp: marks_kept_def)
  qed (use zero in auto)
  moreover have "C \<subseteq> set ids2" using M(1) e by auto
  moreover have "\<not> align_frag (fr_flags (frags g2 (last ids2)))" using f now by (simp add: no_flags_def)
  ultimately show ?thesis unfolding marks_ok_def using split zero by blast
qed

text \<open>Marking a further empty frag, and storing an octet, are harmless.\<close>

lemma run_ok_poke: "run_ok tg a C \<Longrightarrow> run_ok tg (a\<lparr>gs := poke_list p xs (gs a)\<rparr>) C"
proof -
  assume r: "run_ok tg a C"
  let ?g = "poke_list p xs (gs a)"
  obtain fc ids bs where c: "content_inv tg (gs a) fc ids bs" "marks_ok tg (gs a) C ids" using r by (auto simp: run_ok_def)
  have "content_inv tg ?g fc ids (chain_octets tg ?g fc ids)"
    using c(1) by (simp add: content_inv_def lits_ok_def)
  moreover from this have "ready tg ?g" using r by (auto simp: run_ok_def ready_def)
  moreover have "same_state (gs a) ?g" using same_run_state [of "gs a" ?g] by simp
  moreover have "marks_ok tg ?g C ids" using c(2) by (simp add: marks_ok_def)
  ultimately show ?thesis using run_okI [OF r] by blast
qed

lemma run_ok_align_mark:
  assumes r: "run_ok tg a C" and c: "content_inv tg (gs a) fc ids bs" and q: "q \<in> set (butlast ids)" "fr_fix (frags (gs a) q) = 0"
  shows "run_ok tg (a\<lparr>gs := upd_frag q (\<lambda>f. f\<lparr>fr_flags := fr_flags f\<lparr>align_frag := True\<rparr>\<rparr>) (gs a)\<rparr>) C"
proof -
  let ?g = "upd_frag q (\<lambda>f. f\<lparr>fr_flags := fr_flags f\<lparr>align_frag := True\<rparr>\<rparr>) (gs a)"
  obtain fc' ids' bs' where c': "content_inv tg (gs a) fc' ids' bs'" "marks_ok tg (gs a) C ids'" using r by (auto simp: run_ok_def)
  have "ids' = ids" using content_unique [OF c c'(1)] by simp
  have d: "distinct ids" using content_chain [OF c] by (simp add: chain_inv_def)
  have cg: "content_inv tg ?g fc ids bs" using c by (simp add: upd_frag_content)
  moreover have "ready tg ?g" using r cg by (auto simp: run_ok_def ready_def)
  moreover have "same_state (gs a) ?g" using same_run_state [of "gs a" ?g] by simp
  moreover have "marks_ok tg ?g C ids"
    using c'(2) \<open>ids' = ids\<close> q butlast_not_last [OF d q(1)]
    by (auto simp: marks_ok_def frags_upd_frag labels_ok_def upd_frag_def)
  ultimately show ?thesis using run_okI [OF r] by blast
qed

text \<open>The part of \<open>do_align\<close> up to the variable frag.\<close>

lemma align_hook_spec:
  assumes r: "run_ok tg a C" and o: "align_hook tg (gs a) = Inr g1"
  shows "\<exists>g fc ids bs. g1 = upd_frag (frag_now g) (\<lambda>f. f\<lparr>fr_flags := fr_flags f\<lparr>align_frag := True\<rparr>\<rparr>) g
    \<and> run_ok tg (a\<lparr>gs := g\<rparr>) C \<and> content_inv tg g fc ids bs \<and> obstack_object_size (frch_obstack fc) = 0"
proof -
  let ?u = "\<lambda>g. upd_frag (frag_now g) (\<lambda>f. f\<lparr>fr_flags := fr_flags f\<lparr>align_frag := True\<rparr>\<rparr>) g"
  obtain fc ids bs where c: "content_inv tg (gs a) fc ids bs" "ready tg (gs a)" "fiy_dcollect (gs a)" "now_seg (gs a) = text_section"
    using r by (auto simp: run_ok_def)
  let ?n = "obstack_object_size (frch_obstack fc)"
  have fx: "frag_now_fix tg (gs a) = Inr (word_of_nat ?n)" "unat (word_of_nat ?n :: u64) = ?n"
    using frag_now_fix_inv [OF content_chain [OF c(1)]] by (simp_all add: frag_now_fix_def)
  show ?thesis
  proof (cases "?n = 0")
    case True
    then have "g1 = ?u (gs a)" using o c(3,4) fx(1) by (simp add: align_hook_def)
    then show ?thesis using r c(1) True by (intro exI [of _ "gs a"] exI [of _ fc]) auto
  next
    case False
    then have "0 < (word_of_nat ?n :: u64)" using fx(2) by (metis word_neq_0_conv unat_0)
    then obtain g where g: "close_frag tg (gs a) = Inr g" "g1 = ?u g"
      using o c(3,4) fx(1) by (auto simp: align_hook_def close_frag_def)
    obtain fc' ptr where N: "appends tg [] (gs a) g" "content_inv tg g fc' (ids @ [ptr]) bs"
      "alloc_effect tg (frch_obstack fc) ptr (frch_obstack fc')"
      using close_frag_ok [OF c(1) ready_target [OF c(2)]] g(1) by auto
    have "obstack_object_size (frch_obstack fc') = 0" using N(3) by (simp add: alloc_effect_def obstack_object_size_def)
    then show ?thesis using run_ok_appends [OF r N(1)] N(2) g(2) by blast
  qed
qed

lemma align_var:
  assumes r: "run_ok tg (a\<lparr>gs := g\<rparr>) C" and c: "content_inv tg g fc ids bs" and z: "obstack_object_size (frch_obstack fc) = 0"
    and g1: "g1 = upd_frag (frag_now g) (\<lambda>f. f\<lparr>fr_flags := fr_flags f\<lparr>align_frag := True\<rparr>\<rparr>) g"
    and v: "frag_var tg type mc var sub sy off g1 = Inr (p, g2)" and mc: "mc \<le> 0x10000" and ty: "type \<noteq> rs_dummy"
  shows "\<exists>fc2 new bs2. run_ok tg (a\<lparr>gs := g2\<rparr>) C \<and> content_inv tg g2 fc2 (ids @ new) bs2
    \<and> (\<forall>p \<in> set (butlast (ids @ new)) - set (butlast ids). fr_fix (frags g2 p) = 0)"
proof -
  have c1: "content_inv tg g1 fc ids bs" using c unfolding g1 by (simp add: upd_frag_content)
  have run: "same_state g g1" unfolding g1 by (rule same_run_state) simp
  have rd: "ready tg g1" using r c1 run by (auto simp: run_ok_def ready_def same_state_def)
  obtain fc2 ids2 bs2 where V: "appends tg [] g1 g2" "fr_flags (frags g2 (frag_now g2)) = no_flags" "content_inv tg g2 fc2 ids2 bs2"
    using frag_var_appends [OF rd mc ty, of var sub sy off] v by auto
  obtain new where A: "adds tg g1 ids bs g2 new []" using appends_adds [OF V(1) c1] by blast
  then obtain fc3 where c3: "content_inv tg g2 fc3 (ids @ new) bs" by (auto simp: adds_def)
  obtain fc4 ids4 bs4 where "content_inv tg g fc4 ids4 bs4" "marks_ok tg g C ids4" using r by (auto simp: run_ok_def)
  then have m: "marks_ok tg g C ids" using content_unique [OF c] by metis
  have "marks_ok tg g2 C (ids @ new) \<and> (\<forall>p \<in> set (butlast (ids @ new)) - set (butlast ids). fr_fix (frags g2 p) = 0)"
    by (rule align_marks [OF c z m V(1) [unfolded g1] V(2) c3])
  moreover have "same_state g g2" by (rule same_state_trans [OF run same_run_state [OF appends_run [OF V(1)]]])
  ultimately show ?thesis
    using run_okI [OF r ready_appends [OF rd V(1)] _ c3] c3 by auto
qed

text \<open>\<open>frag_align_code\<close> in its parts: the frag it marks is the last one before the new current frag.\<close>

lemma chain_inv_the: "chain_inv tg g fc ids \<Longrightarrow> the_frchain g = Some fc"
  by (simp add: chain_inv_def)

lemma frag_align_code_parts:
  assumes c: "content_inv tg g fc ids bs" and rd: "ready tg g" and n: "n \<le> 16"
    and o: "frag_align_code tg n mx g = Inr g'" and d: "fiy_dcollect g" "\<not> is_finish_subseg g"
  shows "\<exists>p g2. frag_var tg rs_align_code (MAX_MEM_FOR_RS_ALIGN_CODE n) 1 mx None (word_of_nat n) g = Inr (p, g2)
    \<and> (\<forall>fc2 new bs2. content_inv tg g2 fc2 (ids @ new) bs2 \<longrightarrow> new \<noteq> [] \<and>
        g' = poke p NOP_OPCODE (upd_frag (last (butlast (ids @ new)))
               (\<lambda>f. f\<lparr>fr_flags := fr_flags f\<lparr>align_frag := True\<rparr>\<rparr>) g2))"
proof -
  let ?m = "MAX_MEM_FOR_RS_ALIGN_CODE n"
  have ci: "chain_inv tg g fc ids" by (rule content_chain [OF c])
  have "(2 :: nat) ^ n \<le> 2 ^ 16" using n by (intro power_increasing) simp_all
  then have m: "?m \<le> 0x10000"
    using diff_le_self [of "2 ^ n :: nat" 1] by (simp add: MAX_MEM_FOR_RS_ALIGN_CODE_def del: diff_le_self)
  obtain p g1 fc' new ptr where V: "frag_var tg rs_align_code ?m 1 mx None (word_of_nat n) g = Inr (p, g1)"
    "chain_inv tg g1 fc' (ids @ new @ [ptr])" "length new \<le> obstack_room (frch_obstack fc) + 3"
    "frags g1 ptr = zero_frag\<lparr>frag_index := totalfrags g1\<rparr>" "same_context g g1"
    using frag_var_spec [OF ready_target [OF rd] ci ready_request [OF rd m], of rs_align_code] by fastforce
  have i: "frag_now g = last ids" "ids \<noteq> []" "the_frchain g = Some fc" "frag_now g1 = ptr" "distinct (ids @ new @ [ptr])"
    "chain (frag_next g1) (frch_root fc') (ids @ new @ [ptr])"
    using ci V(2) by (auto simp: chain_inv_def)
  obtain xs l where ids: "ids = xs @ [l]" using i(2) by (metis rev_exhaust)
  have "path (frag_next g1) (Some l) (l # new) (Some ptr)" using i(6) ids by (auto simp: chain_def path_append)
  then have walk: "frag_before (obstack_room (frch_obstack fc) + 5) g1 (Some l) = Inr (Some (last (l # new)))"
    using frag_before_hit [of g1 l new] i(4,5) ids V(3) by auto
  let ?q = "last (l # new)"
  have q: "frag_now g \<noteq> ptr" using i(1,5) ids by auto
  then have g': "g' = poke p NOP_OPCODE (upd_frag ?q (\<lambda>f. f\<lparr>fr_flags := fr_flags f\<lparr>align_frag := True\<rparr>\<rparr>) g1)"
    using o V(1,5) i(1,3,4) d walk ids
    by (auto simp: frag_align_code_def frag_room_def Let_def same_context_def)
  have Q: "new2 \<noteq> [] \<and> last (butlast (ids @ new2)) = ?q" if c2: "content_inv tg g1 fc2 (ids @ new2) bs2" for fc2 new2 bs2
  proof -
    have ci2: "chain_inv tg g1 fc2 (ids @ new2)" by (rule content_chain [OF c2])
    have "fc2 = fc'" using chain_inv_the [OF ci2] chain_inv_the [OF V(2)] by simp
    then have "chain (frag_next g1) (frch_root fc') (ids @ new2)" using ci2 by (simp add: chain_inv_def)
    then have e: "ids @ new2 = ids @ new @ [ptr]" using i(6) chain_unique by blast
    then have "butlast (ids @ new2) = xs @ l # new" using ids butlast_snoc [of "xs @ l # new" ptr] by simp
    then show ?thesis using e by simp
  qed
  have "\<forall>fc2 new2 bs2. content_inv tg g1 fc2 (ids @ new2) bs2 \<longrightarrow> new2 \<noteq> [] \<and>
      g' = poke p NOP_OPCODE (upd_frag (last (butlast (ids @ new2)))
             (\<lambda>f. f\<lparr>fr_flags := fr_flags f\<lparr>align_frag := True\<rparr>\<rparr>) g1)"
  proof (intro allI impI)
    fix fc2 new2 bs2 assume "content_inv tg g1 fc2 (ids @ new2) bs2"
    from Q [OF this] show "new2 \<noteq> [] \<and> g' = poke p NOP_OPCODE (upd_frag (last (butlast (ids @ new2)))
             (\<lambda>f. f\<lparr>fr_flags := fr_flags f\<lparr>align_frag := True\<rparr>\<rparr>) g1)"
      by (elim conjE) (simp only: g' not_False_eq_True simp_thms)
  qed
  then show ?thesis using V(1) by blast
qed

lemma max_align_code: "n \<le> 16 \<Longrightarrow> MAX_MEM_FOR_RS_ALIGN_CODE n \<le> 0x10000"
proof -
  assume "n \<le> 16"
  then have "(2 :: nat) ^ n \<le> 2 ^ 16" by (intro power_increasing) simp_all
  then have "(2 :: nat) ^ n - 1 \<le> 0x10000" by simp
  then show ?thesis by (simp add: MAX_MEM_FOR_RS_ALIGN_CODE_def)
qed

lemma run_ok_alignment: "run_ok tg a C \<Longrightarrow> run_ok tg (a\<lparr>gs := record_alignment sg n (gs a)\<rparr>) C"
proof -
  assume r: "run_ok tg a C"
  let ?g = "record_alignment sg n (gs a)"
  have "the_frchain ?g = the_frchain (gs a)"
    by (auto simp: record_alignment_def the_frchain_def split: option.splits)
  moreover have "text_cur_symbol ?g = text_cur_symbol (gs a)" "n_syms ?g = n_syms (gs a)" by (simp_all add: record_alignment_def)
  ultimately show ?thesis
    by (intro run_ok_vars [OF r]) (simp_all add: run_ok_cur [OF r], simp_all add: record_alignment_def)
qed

lemma make_align_cases:
  assumes "make_align tg tp n fl len mx g1 = Inr g2" and "len \<le> 256"
  shows "frag_align_code tg n mx g1 = Inr g2 \<or> (\<exists>b. frag_align tg n b mx g1 = Inr g2)
     \<or> (\<exists>bs. length bs \<le> 256 \<and> frag_align_pattern tg n bs mx g1 = Inr g2)"
proof -
  have t: "length (take len pat) \<le> 256" for pat :: "byte list" using assms(2) by simp
  show ?thesis
    using assms(1) t unfolding make_align_def by (cases fl) (simp_all only: option.case split: if_splits, blast+)
qed

lemma run_ok_align:
  assumes r: "run_ok tg a C" and n: "0 < n" "n \<le> 16" "len \<le> 256" and o: "do_align tg tp n fill len mx (gs a) = Inr g'"
  shows "run_ok tg (a\<lparr>gs := g'\<rparr>) C"
proof -
  obtain g1 g2 where S: "align_hook tg (gs a) = Inr g1" "g' = record_alignment (now_seg g2) n g2"
    "frag_align_code tg n mx g1 = Inr g2 \<or> (\<exists>b. frag_align tg n b mx g1 = Inr g2)
     \<or> (\<exists>bs. length bs \<le> 256 \<and> frag_align_pattern tg n bs mx g1 = Inr g2)"
  proof -
    obtain g1 g2 fl where M: "align_hook tg (gs a) = Inr g1" "make_align tg tp n fl len mx g1 = Inr g2"
      "g' = record_alignment (now_seg g2) n g2"
      using o n(1) unfolding do_align_def Let_def bindE_Inr_iff by (elim exE conjE) (simp, blast)
    show thesis using M(1,3) make_align_cases [OF M(2) n(3)] by (rule that)
  qed
  obtain g fc ids bs where H: "g1 = upd_frag (frag_now g) (\<lambda>f. f\<lparr>fr_flags := fr_flags f\<lparr>align_frag := True\<rparr>\<rparr>) g"
    "run_ok tg (a\<lparr>gs := g\<rparr>) C" "content_inv tg g fc ids bs" "obstack_object_size (frch_obstack fc) = 0"
    using align_hook_spec [OF r S(1)] by blast
  note av = align_var [OF H(2-4,1)]
  have c1: "content_inv tg g1 fc ids bs" "ready tg g1" "fiy_dcollect g1" "\<not> is_finish_subseg g1" "now_seg g1 = text_section"
    using H(2,3) unfolding H(1) by (auto simp: upd_frag_content run_ok_def ready_def)
  have "run_ok tg (a\<lparr>gs := g2\<rparr>) C"
    using S(3)
  proof (elim disjE exE conjE)
    assume "frag_align_code tg n mx g1 = Inr g2"
    then obtain p h where P: "frag_var tg rs_align_code (MAX_MEM_FOR_RS_ALIGN_CODE n) 1 mx None (word_of_nat n) g1 = Inr (p, h)"
      "\<forall>fc2 new bs2. content_inv tg h fc2 (ids @ new) bs2 \<longrightarrow> new \<noteq> [] \<and>
        g2 = poke p NOP_OPCODE (upd_frag (last (butlast (ids @ new)))
               (\<lambda>f. f\<lparr>fr_flags := fr_flags f\<lparr>align_frag := True\<rparr>\<rparr>) h)"
      using frag_align_code_parts [OF c1(1,2) n(2) _ c1(3,4)] by blast
    obtain fc2 new bs2 where V: "run_ok tg (a\<lparr>gs := h\<rparr>) C" "content_inv tg h fc2 (ids @ new) bs2"
      "\<forall>p \<in> set (butlast (ids @ new)) - set (butlast ids). fr_fix (frags h p) = 0"
      using av [OF P(1) max_align_code [OF n(2)]] by blast
    have ne: "ids \<noteq> []" "distinct (ids @ new)" using content_chain [OF V(2)] content_chain [OF H(3)] by (auto simp: chain_inv_def)
    let ?q = "last (butlast (ids @ new))"
    have new: "new \<noteq> []" and g2: "g2 = poke p NOP_OPCODE (upd_frag ?q (\<lambda>f. f\<lparr>fr_flags := fr_flags f\<lparr>align_frag := True\<rparr>\<rparr>) h)"
      using P(2) V(2) by blast+
    have q: "?q \<in> set (butlast (ids @ new))" "?q \<notin> set (butlast ids)"
    proof -
      let ?z = "butlast (last ids # new)"
      have "?z \<noteq> []" using new by simp
      then have "last (butlast ids @ ?z) \<in> set ?z" by (metis last_appendR last_in_set)
      moreover have "distinct (butlast ids @ ?z)" using distinct_butlast [OF ne(2)] unfolding butlast_more [OF ne(1)] .
      ultimately show "?q \<in> set (butlast (ids @ new))" "?q \<notin> set (butlast ids)"
        unfolding butlast_more [OF ne(1)] by auto
    qed
    show ?thesis
      using run_ok_poke [OF run_ok_align_mark [OF V(1)], of fc2 "ids @ new" bs2 ?q p "[NOP_OPCODE]"] V(2,3) q g2 by simp
  next
    fix b assume "frag_align tg n b mx g1 = Inr g2"
    then obtain p h where P: "frag_var tg rs_align 1 1 mx None (word_of_nat n) g1 = Inr (p, h)" "g2 = poke_list p [b] h"
      using c1(5) by (auto simp: frag_align_def)
    have "run_ok tg (a\<lparr>gs := h\<rparr>) C" using av [OF P(1)] by auto
    then show ?thesis using run_ok_poke [of tg "a\<lparr>gs := h\<rparr>" C p "[b]"] P(2) by simp
  next
    fix pat :: "byte list" assume l: "length pat \<le> 256" and "frag_align_pattern tg n pat mx g1 = Inr g2"
    then obtain p h where P: "frag_var tg rs_align (length pat) (word_of_nat (length pat)) mx None (word_of_nat n) g1 = Inr (p, h)"
      "g2 = poke_list p pat h"
      by (auto simp: frag_align_pattern_def Let_def)
    have "run_ok tg (a\<lparr>gs := h\<rparr>) C" using av [OF P(1)] l by auto
    then show ?thesis using run_ok_poke [of tg "a\<lparr>gs := h\<rparr>" C p pat] P(2) by simp
  qed
  then show ?thesis using run_ok_alignment [of tg "a\<lparr>gs := g2\<rparr>" C] S(2) by simp
qed

section \<open>The invariant of all runs\<close>

lemma run_ok_start:
  assumes "ready tg g" and "fiy_dcollect g" and "now_seg g = text_section" and "\<not> is_finish_subseg g"
    and "frag_next g (frag_now g) = None" and "the_frchain g = Some fc" and "frch_root fc = Some (frag_now g)"
    and "unlabelled (frags g (frag_now g))" and "text_cur_symbol g = None"
  shows "run_ok tg \<lparr>gs = g, sy_hash = Map.empty\<rparr> {}"
proof -
  obtain fc' ids bs where c: "content_inv tg g fc' ids bs" using assms(1) by (auto simp: ready_def)
  then have ch: "chain (frag_next g) (frch_root fc') ids" "fc' = fc"
    using assms(6) by (auto simp: content_inv_def chain_inv_def)
  then have "ids = [frag_now g]" using assms(5,7) chain_single chain_unique by metis
  then have "marks_ok tg g {} ids" using assms(8) by (simp add: marks_ok_def labels_ok_def unlabelled_def)
  then show ?thesis using assms c by (auto simp: run_ok_def)
qed

lemma assembled_run_ok: "assembled se a C \<Longrightarrow> run_ok (tgt se) a C"
proof (induction rule: assembled.induct)
  case (start g fc)
  then show ?case by (intro run_ok_start) simp_all
next
  case (insn a C i g)
  then show ?case by (intro run_ok_insn) simp_all
next
  case (label a C raw name a')
  show ?case by (rule run_ok_label [OF label.IH label.hyps(2)])
next
  case (data a C nbytes exs g)
  then show ?case by (intro run_ok_cons) simp_all
next
  case (align a C n len fill mx g)
  then show ?case by (intro run_ok_align) simp_all
qed (simp_all add: run_ok_func)

section \<open>A concrete run\<close>

text \<open>What the demonstration file is assembled with.\<close>

definition sample_setting :: setting where
  "sample_setting = \<lparr>tgt = sample_target, text_p = (\<lambda>sg. sg = text_section), local_name = (\<lambda>nm. take 2 nm = [0x2e, 0x4c]),
     plt_p = (\<lambda>_. False)\<rparr>"

lemma start_assembled: "assembled sample_setting \<lparr>gs = start_gas, sy_hash = Map.empty\<rparr> {}"
proof (rule assembled.start)
  show "the_frchain start_gas = Some (demo_chain 0 (2 ^ 60) 0)" using start_content by (simp add: content_inv_def chain_inv_def)
qed (use start_ready in \<open>simp_all add: sample_setting_def\<close>,
    simp_all add: start_gas_def boot_gas_def frag_next_def zero_frag_def unlabelled_def no_flags_def demo_chain_def)

section \<open>Properties\<close>


lemma nop_assembled:
  "\<exists>g. output_insn sample_target (\<lambda>_. False) insn_nop start_gas = Some (Inr g)
     \<and> assembled sample_setting \<lparr>gs = g, sy_hash = Map.empty\<rparr> (written_frags start_gas g)"
proof -
  obtain g where "output_insn sample_target (\<lambda>_. False) insn_nop start_gas = Some (Inr g)"
    using insn_nop_output [OF start_ready start_content start_collects] by blast
  then show ?thesis
    using assembled.insn [OF start_assembled, of insn_nop g]
    by (auto simp: insn_nop_simps sample_setting_def)
qed


end
