(* ===== verification/Leb128.thy ===== *)
theory Leb128
  imports Encoding
begin

text \<open>
  Variable-length numbers (\<open>.uleb128\<close> and \<open>.sleb128\<close>, \<open>src/gas/read.c\<close>): the size of a value, its octets, and the
  octets of a number of any length given as 16-bit digits.  A reader of the format is defined from the
  format alone, and what is written is shown to be what it reads.
\<close>

section \<open>Values of the host's width\<close>

function sizeof_uleb128 :: "u64 \<Rightarrow> nat" where
  "sizeof_uleb128 value = (let v = drop_bit 7 value in if v \<noteq> 0 then Suc (sizeof_uleb128 v) else 1)"
  by pat_completeness auto

function output_uleb128 :: "u64 \<Rightarrow> byte list" where
  "output_uleb128 value =
     (let b = ucast (value AND 0x7f) :: byte; v = drop_bit 7 value in
      if v \<noteq> 0 then (b OR 0x80) # output_uleb128 v else [b])"
  by pat_completeness auto

text \<open>\<open>value >> 7\<close> on the signed type; the source's expression gives this on every host.\<close>

definition sleb_done :: "u64 \<Rightarrow> byte \<Rightarrow> bool" where
  "sleb_done v b \<longleftrightarrow> v = 0 \<and> \<not> bit b 6 \<or> v = -1 \<and> bit b 6"

function sizeof_sleb128 :: "u64 \<Rightarrow> nat" where
  "sizeof_sleb128 value =
     (let b = ucast (value AND 0x7f) :: byte; v = signed_drop_bit 7 value in
      if sleb_done v b then 1 else Suc (sizeof_sleb128 v))"
  by pat_completeness auto

function output_sleb128 :: "u64 \<Rightarrow> byte list" where
  "output_sleb128 value =
     (let b = ucast (value AND 0x7f) :: byte; v = signed_drop_bit 7 value in
      if sleb_done v b then [b] else (b OR 0x80) # output_sleb128 v)"
  by pat_completeness auto

definition sizeof_leb128 :: "u64 \<Rightarrow> bool \<Rightarrow> nat" where
  "sizeof_leb128 value sign = (if sign then sizeof_sleb128 value else sizeof_uleb128 value)"

definition output_leb128 :: "u64 \<Rightarrow> bool \<Rightarrow> byte list" where
  "output_leb128 value sign = (if sign then output_sleb128 value else output_uleb128 value)"

text \<open>Termination: the shift brings a value nearer to 0, or to -1.\<close>

lemma unat_drop_bit7: "unat (drop_bit 7 v) = unat v div 128" for v :: u64
  by (simp add: drop_bit_eq_div unat_div)

lemma unat_drop_less: "drop_bit 7 v \<noteq> 0 \<Longrightarrow> unat (drop_bit 7 v) < unat v" for v :: u64
proof -
  assume "drop_bit 7 v \<noteq> 0"
  then have "0 < unat (drop_bit 7 v)" using unat_gt_0 by blast
  then show ?thesis unfolding unat_drop_bit7 by simp
qed

termination sizeof_uleb128
  by (relation "measure unat") (simp_all add: unat_drop_less)

termination output_uleb128
  by (relation "measure unat") (simp_all add: unat_drop_less)

lemma mask7: "0x7f = (mask 7 :: 'a :: len word)"
  by (simp add: mask_eq_exp_minus_1)

lemma unat_low7: "unat (ucast (v AND 0x7f) :: byte) = unat v mod 128" for v :: u64
proof -
  have "unat v mod 128 < 256" by (rule less_trans [OF mod_less_divisor]) simp_all
  then show ?thesis by (simp add: mask7 take_bit_eq_mask [symmetric] unsigned_take_bit_eq unsigned_ucast_eq take_bit_eq_mod unat_mod)
qed

lemma sint_signed_drop_bit7: "sint (signed_drop_bit 7 v) = sint v div 128" for v :: u64
  by (simp add: sint_signed_drop_bit_eq drop_bit_eq_div)

lemma sint_mod: "sint v mod 128 = int (unat v mod 128)" for v :: u64
proof -
  have "take_bit 7 (sint v) = take_bit 7 (uint v)" by (simp add: sint_uint take_bit_signed_take_bit)
  then show ?thesis by (simp add: take_bit_eq_mod zmod_int)
qed

lemma sint_low7: "int (unat (ucast (v AND 0x7f) :: byte)) = sint v mod 128" for v :: u64
  by (simp add: unat_low7 sint_mod)

definition magnitude :: "u64 \<Rightarrow> nat" where
  "magnitude v = nat (if 0 \<le> sint v then sint v else - 1 - sint v)"

lemma magnitude_shift: "magnitude (signed_drop_bit 7 v) = magnitude v div 128"
  unfolding magnitude_def sint_signed_drop_bit7 by (auto simp: nat_div_distrib)

lemma sleb_done_small: "magnitude v = 0 \<Longrightarrow> sleb_done (signed_drop_bit 7 v) (ucast (v AND 0x7f))"
proof -
  assume "magnitude v = 0"
  then have "sint v = 0 \<or> sint v = -1" by (auto simp: magnitude_def split: if_splits)
  then have "v = 0 \<or> v = -1" by (metis signed_word_eqI sint_0 sint_n1)
  then show ?thesis by (auto simp: sleb_done_def)
qed

lemma magnitude_less: "\<not> sleb_done (signed_drop_bit 7 v) (ucast (v AND 0x7f)) \<Longrightarrow> magnitude (signed_drop_bit 7 v) < magnitude v"
  using sleb_done_small [of v] by (cases "magnitude v = 0") (simp_all add: magnitude_shift)

termination sizeof_sleb128
  by (relation "measure magnitude") (simp_all add: magnitude_less)

termination output_sleb128
  by (relation "measure magnitude") (simp_all add: magnitude_less)

declare sizeof_uleb128.simps [simp del] output_uleb128.simps [simp del]
  sizeof_sleb128.simps [simp del] output_sleb128.simps [simp del]

section \<open>Reading the format\<close>

text \<open>Seven bits in each octet, low ones first; the high bit says that more follow.  In a signed number bit 6 of the
  last octet is the sign.  The rest of the octets is returned too.\<close>

definition low7 :: "byte \<Rightarrow> nat" where
  "low7 b = unat (b AND 0x7f)"

fun uleb_read :: "byte list \<Rightarrow> (nat \<times> byte list) option" where
  "uleb_read [] = None"
| "uleb_read (b # bs) = (if bit b 7 then map_option (\<lambda>(n, r). (low7 b + 128 * n, r)) (uleb_read bs) else Some (low7 b, bs))"

fun sleb_read :: "byte list \<Rightarrow> (int \<times> byte list) option" where
  "sleb_read [] = None"
| "sleb_read (b # bs) = (if bit b 7 then map_option (\<lambda>(n, r). (int (low7 b) + 128 * n, r)) (sleb_read bs)
     else Some (int (low7 b) - (if bit b 6 then 128 else 0), bs))"

lemma low7_less: "low7 b < 128"
  by (simp add: low7_def mask7 take_bit_eq_mask [symmetric] unsigned_take_bit_eq take_bit_eq_mod unat_mod)

lemma bit_0x80: "bit (0x80 :: byte) n \<longleftrightarrow> n = 7" "bit (0x80 :: int) n \<longleftrightarrow> n = 7"
  using bit_exp_iff [where 'a = "8 word", of 7 n] bit_exp_iff [where 'a = int, of 7 n] by auto

lemma continued:
  fixes v :: u64
  shows "bit ((ucast (v AND 0x7f) :: byte) OR 0x80) 7" "low7 ((ucast (v AND 0x7f) :: byte) OR 0x80) = unat v mod 128"
    "\<not> bit (ucast (v AND 0x7f) :: byte) 7" "low7 (ucast (v AND 0x7f)) = unat v mod 128"
    "bit (ucast (v AND 0x7f) :: byte) 6 = bit v 6"
proof -
  show "bit ((ucast (v AND 0x7f) :: byte) OR 0x80) 7" by (simp add: bit_simps mask7 bit_0x80)
  show "\<not> bit (ucast (v AND 0x7f) :: byte) 7" "bit (ucast (v AND 0x7f) :: byte) 6 = bit v 6"
    by (simp_all add: bit_simps mask7)
  have "((ucast (v AND 0x7f) :: byte) OR 0x80) AND 0x7f = ucast (v AND 0x7f)"
    "(ucast (v AND 0x7f) :: byte) AND 0x7f = ucast (v AND 0x7f)"
    by (rule bit_word_eqI, auto simp: bit_simps mask7 bit_0x80, rule bit_word_eqI, auto simp: bit_simps mask7)
  then show "low7 ((ucast (v AND 0x7f) :: byte) OR 0x80) = unat v mod 128" "low7 (ucast (v AND 0x7f)) = unat v mod 128"
    by (simp_all add: low7_def unat_low7)
qed

lemma uleb_round_trip: "uleb_read (output_uleb128 v @ r) = Some (unat v, r)"
proof (induction v rule: output_uleb128.induct)
  case (1 v)
  show ?case
  proof (cases "drop_bit 7 v = 0")
    case True
    then have "unat v div 128 = 0" using unat_drop_bit7 [of v] by simp
    then show ?thesis using True by (subst output_uleb128.simps) (simp add: continued)
  next
    case False
    then show ?thesis
      using 1 by (subst output_uleb128.simps) (simp add: continued unat_drop_bit7)
  qed
qed

lemma length_uleb: "length (output_uleb128 v) = sizeof_uleb128 v"
proof (induction v rule: output_uleb128.induct)
  case (1 v)
  then show ?case by (subst output_uleb128.simps, subst sizeof_uleb128.simps) (simp add: Let_def)
qed

lemma sleb_round_trip: "sleb_read (output_sleb128 v @ r) = Some (sint v, r)"
proof (induction v rule: output_sleb128.induct)
  case (1 v)
  let ?v = "signed_drop_bit 7 v" and ?b = "ucast (v AND 0x7f) :: byte"
  have m: "sint v = 128 * sint ?v + int (unat v mod 128)"
    unfolding sint_signed_drop_bit7 sint_mod [symmetric] by simp
  show ?case
  proof (cases "sleb_done ?v ?b")
    case True
    then have "sint ?v = (if bit v 6 then -1 else 0)" by (auto simp: sleb_done_def continued)
    then show ?thesis using True m by (subst output_sleb128.simps) (simp add: continued)
  next
    case False
    then show ?thesis
      using 1 m by (subst output_sleb128.simps) (simp add: continued Let_def)
  qed
qed

lemma length_sleb: "length (output_sleb128 v) = sizeof_sleb128 v"
proof (induction v rule: output_sleb128.induct)
  case (1 v)
  then show ?case by (subst output_sleb128.simps, subst sizeof_sleb128.simps) (simp add: Let_def)
qed

section \<open>Sizes\<close>

lemma bit_6: "bit w 6 \<longleftrightarrow> 64 \<le> unat w mod 128" for w :: "'a :: len word"
proof -
  have "bit w 6 \<longleftrightarrow> bit (unat w) 6" by (auto simp: bit_unsigned_iff dest: bit_imp_le_length)
  also have "\<dots> \<longleftrightarrow> odd (unat w div 64)" by (simp add: bit_iff_odd)
  also have "unat w div 64 = (2 * (unat w div 128)) + (unat w mod 128) div 64"
  proof -
    have "unat w = unat w mod 128 + 2 * (unat w div 128) * 64" by simp
    then have "unat w div 64 = (unat w mod 128 + 2 * (unat w div 128) * 64) div 64" by argo
    also have "\<dots> = 2 * (unat w div 128) + (unat w mod 128) div 64" by (rule div_mult_self1) simp
    finally show ?thesis .
  qed
  also have "odd \<dots> \<longleftrightarrow> odd ((unat w mod 128) div 64)" by simp
  also have "\<dots> \<longleftrightarrow> 64 \<le> unat w mod 128"
  proof (cases "64 \<le> unat w mod 128")
    case True
    then have "(unat w mod 128) div 64 = 1" by (intro div_nat_eqI) auto
    then show ?thesis using True by simp
  qed simp
  finally show ?thesis .
qed

lemma low7_mod: "low7 b = unat b mod 128"
  by (simp add: low7_def mask7 take_bit_eq_mask [symmetric] unsigned_take_bit_eq take_bit_eq_mod unat_mod)

lemma sleb_done_iff: "sleb_done (signed_drop_bit 7 v) (ucast (v AND 0x7f)) \<longleftrightarrow> - 64 \<le> sint v \<and> sint v < 64"
proof -
  have e: "w = 0 \<longleftrightarrow> sint w = 0" "w = -1 \<longleftrightarrow> sint w = -1" for w :: u64
    using signed_word_eqI [of w 0] signed_word_eqI [of w "-1"] by auto
  have "signed_drop_bit 7 v = 0 \<longleftrightarrow> sint v div 128 = 0" "signed_drop_bit 7 v = -1 \<longleftrightarrow> sint v div 128 = -1"
    unfolding e sint_signed_drop_bit7 by simp_all
  moreover have "bit v 6 \<longleftrightarrow> 64 \<le> sint v mod 128" unfolding bit_6 sint_mod by simp
  moreover have "(q = 0 \<and> m < 64 \<or> q = -1 \<and> 64 \<le> m) \<longleftrightarrow> - 64 \<le> s \<and> s < 64"
    if "s = 128 * q + m" "0 \<le> m" "m < 128" for s q m :: int
    using that by (cases "q < -1"; cases "q = -1"; cases "q = 0") auto
  from this [of "sint v" "sint v div 128" "sint v mod 128"]
  have "(sint v div 128 = 0 \<and> sint v mod 128 < 64 \<or> sint v div 128 = -1 \<and> 64 \<le> sint v mod 128) \<longleftrightarrow> - 64 \<le> sint v \<and> sint v < 64"
    by simp
  ultimately show ?thesis unfolding sleb_done_def continued(5) by auto
qed

lemma uleb_read_bound:
  "uleb_read bs = Some (n, r) \<Longrightarrow> \<exists>k. length bs = Suc k + length r \<and> n < 128 ^ Suc k"
proof (induction bs arbitrary: n)
  case (Cons b bs)
  show ?case
  proof (cases "bit b 7")
    case True
    then obtain m where m: "uleb_read bs = Some (m, r)" "n = low7 b + 128 * m" using Cons.prems by auto
    then obtain k where "length bs = Suc k + length r" "m < 128 ^ Suc k" using Cons.IH by blast
    then show ?thesis using m(2) low7_less [of b] by (intro exI [of _ "Suc k"]) simp
  qed (use Cons.prems low7_less [of b] in auto)
qed simp

lemma sizeof_uleb_lower: "sizeof_uleb128 v = Suc k \<Longrightarrow> k = 0 \<or> 128 ^ k \<le> unat v"
proof (induction v arbitrary: k rule: sizeof_uleb128.induct)
  case (1 v)
  show ?case
  proof (cases "drop_bit 7 v = 0")
    case True
    then show ?thesis using 1(2) by (subst (asm) sizeof_uleb128.simps) simp
  next
    case False
    then have k: "k = sizeof_uleb128 (drop_bit 7 v)" using 1(2) by (subst (asm) sizeof_uleb128.simps) simp
    show ?thesis
    proof (cases k)
      case (Suc j)
      then have "j = 0 \<or> 128 ^ j \<le> unat v div 128" using 1(1) [OF refl] False k by (simp add: unat_drop_bit7)
      moreover have "0 < unat v div 128" using False unat_gt_0 [of "drop_bit 7 v"] by (simp add: unat_drop_bit7)
      ultimately have "128 ^ j \<le> unat v div 128" by auto
      then show ?thesis using Suc by (simp add: less_eq_div_iff_mult_less_eq mult.commute)
    qed simp
  qed
qed

lemma sleb_read_bound:
  "sleb_read bs = Some (n, r) \<Longrightarrow> \<exists>k. length bs = Suc k + length r \<and> - 64 * 128 ^ k \<le> n \<and> n < 64 * 128 ^ k"
proof (induction bs arbitrary: n)
  case (Cons b bs)
  show ?case
  proof (cases "bit b 7")
    case True
    then obtain m where m: "sleb_read bs = Some (m, r)" "n = int (low7 b) + 128 * m" using Cons.prems by auto
    then obtain k where "length bs = Suc k + length r" "- 64 * 128 ^ k \<le> m" "m < 64 * 128 ^ k" using Cons.IH by blast
    then show ?thesis using m(2) low7_less [of b] by (intro exI [of _ "Suc k"]) (auto intro: add_less_le_mono)
  next
    case False
    have "bit b 6 \<longleftrightarrow> 64 \<le> low7 b" by (simp add: bit_6 low7_mod)
    then show ?thesis using Cons.prems False low7_less [of b] by (intro exI [of _ 0]) (auto split: if_splits)
  qed
qed simp

lemma sizeof_sleb_lower:
  "sizeof_sleb128 v = Suc (Suc k) \<Longrightarrow> sint v < - 64 * 128 ^ k \<or> 64 * 128 ^ k \<le> sint v"
proof (induction v arbitrary: k rule: sizeof_sleb128.induct)
  case (1 v)
  let ?v = "signed_drop_bit 7 v" and ?b = "ucast (v AND 0x7f) :: byte"
  have nd: "\<not> sleb_done ?v ?b" using 1(2) by (subst (asm) sizeof_sleb128.simps) (auto simp: Let_def split: if_splits)
  then have k: "Suc k = sizeof_sleb128 ?v" using 1(2) by (subst (asm) sizeof_sleb128.simps) simp
  show ?case
  proof (cases k)
    case 0
    then show ?thesis using nd sleb_done_iff [of v] by auto
  next
    case (Suc j)
    then have "sint v div 128 < - 64 * 128 ^ j \<or> 64 * 128 ^ j \<le> sint v div 128"
      using 1(1) [OF refl refl nd] k unfolding sint_signed_drop_bit7 by simp
    then show ?thesis using Suc by auto
  qed
qed

section \<open>Numbers of any length\<close>

text \<open>The digits have 16 bits, low ones first.  \<open>loaded\<close> is an \<open>int\<close>; it is not negative where it is a shift distance.\<close>

fun big_value :: "u16 list \<Rightarrow> nat" where
  "big_value [] = 0"
| "big_value (d # ds) = unat d + 2 ^ 16 * big_value ds"

function big_uleb_loop :: "u64 \<Rightarrow> int \<Rightarrow> u16 list \<Rightarrow> byte list" where
  "big_uleb_loop val loaded ds =
     (let load = loaded < 7 \<and> ds \<noteq> [];
          val1 = (if load then val OR push_bit (nat loaded) (ucast (hd ds)) else val);
          loaded1 = (if load then loaded + 16 else loaded);
          ds1 = (if load then tl ds else ds);
          b = ucast (val1 AND 0x7f) :: byte; val2 = drop_bit 7 val1 in
      if ds1 \<noteq> [] \<or> val2 \<noteq> 0 then (b OR 0x80) # big_uleb_loop val2 (loaded1 - 7) ds1 else [b])"
  by pat_completeness auto

termination
  by (relation "measures [\<lambda>(val, loaded, ds). length ds, \<lambda>(val, loaded, ds). if ds = [] then unat val else nat loaded]")
    (auto simp: unat_drop_less Let_def split: if_splits)

definition output_big_uleb128 :: "u16 list \<Rightarrow> byte list" where
  "output_big_uleb128 bignum = big_uleb_loop 0 0 (rev (dropWhile (\<lambda>d. d = 0) (rev bignum)))"

function big_sleb_inner :: "bool \<Rightarrow> u64 \<Rightarrow> nat \<Rightarrow> byte list \<times> bool \<times> u64 \<times> nat" where
  "big_sleb_inner digits val loaded =
     (let b = ucast (val AND 0x7f) :: byte; loaded1 = loaded - 7; val1 = drop_bit 7 val;
          cont = (digits \<or> val1 \<noteq> (if bit b 6 then push_bit loaded1 1 - 1 else 0));
          b1 = (if cont then b OR 0x80 else b) in
      if cont \<and> 7 \<le> loaded1
      then (let (bs, rest) = big_sleb_inner digits val1 loaded1 in (b1 # bs, rest))
      else ([b1], cont, val1, loaded1))"
  by pat_completeness auto

termination by (relation "measure (\<lambda>(_, _, loaded). loaded)") auto

definition mop_up :: "u64 \<Rightarrow> nat \<Rightarrow> byte" where
  "mop_up val loaded =
     ucast ((if bit val (loaded - 1) then val OR ucast (push_bit loaded (NOT 0 :: u32)) else val) AND 0x7f)"

fun big_sleb_loop :: "u64 \<Rightarrow> nat \<Rightarrow> u16 list \<Rightarrow> byte list" where
  "big_sleb_loop val loaded [] = []"
| "big_sleb_loop val loaded (d # ds) =
     (let (bs, cont, val1, loaded1) = big_sleb_inner (ds \<noteq> []) (val OR push_bit loaded (ucast d)) (loaded + 16) in
      bs @ (if ds \<noteq> [] then big_sleb_loop val1 loaded1 ds else if cont then [mop_up val1 loaded1] else []))"

text \<open>Leading sign digits are dropped; at least one digit is needed.\<close>

function strip_sign :: "u16 list \<Rightarrow> u16 list" where
  "strip_sign ds = (if 1 < length ds \<and> last ds = 0xffff \<and> 0x7fff < last (butlast ds) then strip_sign (butlast ds) else ds)"
  by pat_completeness auto

termination by (relation "measure length") auto

definition output_big_sleb128 :: "u16 list \<Rightarrow> byte list" where
  "output_big_sleb128 bignum = big_sleb_loop 0 0 (strip_sign bignum)"

definition output_big_leb128 :: "u16 list \<Rightarrow> bool \<Rightarrow> byte list" where
  "output_big_leb128 bignum sign = (if sign then output_big_sleb128 bignum else output_big_uleb128 bignum)"

declare big_uleb_loop.simps [simp del] big_sleb_inner.simps [simp del] strip_sign.simps [simp del]

lemma or_digit:
  fixes val :: u64 and d :: u16
  assumes "unat val < 2 ^ k" and "k < 32"
  shows "unat (val OR push_bit k (ucast d)) = unat val + 2 ^ k * unat d" and "unat val + 2 ^ k * unat d < 2 ^ (k + 16)"
proof -
  have "unat (take_bit k val) = unat val" using assms(1) by (simp add: unsigned_take_bit_eq take_bit_nat_eq_self)
  then have "take_bit k val = val" by (simp add: unsigned_word_eqI)
  then have "\<not> bit val n" if "k \<le> n" for n using that by (metis bit_take_bit_iff leD)
  then have "val AND push_bit k (ucast d) = 0" by (intro bit_word_eqI) (auto simp: bit_simps)
  then have o: "val OR push_bit k (ucast d) = val + push_bit k (ucast d)" by (simp add: disjunctive_add_eq_or)
  have d: "unat d < 2 ^ 16" using unat_lt [of d] by simp
  have "unat val + 2 ^ k * unat d < 2 ^ k * (unat d + 1)" using assms(1) by simp
  also have "\<dots> \<le> 2 ^ k * 2 ^ 16" using d by (intro mult_left_mono) simp_all
  finally show s: "unat val + 2 ^ k * unat d < 2 ^ (k + 16)" by (simp only: power_add)
  have "(2 :: nat) ^ (k + 16) \<le> 2 ^ 47" using assms(2) by (intro power_increasing) simp_all
  then have l: "unat val + 2 ^ k * unat d < 2 ^ 64" using s by simp
  have "unat (push_bit k (ucast d) :: u64) = 2 ^ k * unat d"
    unfolding unsigned_push_bit_eq using l d
    by (simp add: push_bit_eq_mult unsigned_ucast_eq take_bit_nat_eq_self mult.commute)
  then show "unat (val OR push_bit k (ucast d)) = unat val + 2 ^ k * unat d"
    unfolding o using l by (simp add: unat_word_ariths)
qed

text \<open>One octet of the loops: the seven low bits go out, the others stay.\<close>

lemma shifted7:
  fixes val :: u64
  assumes "unat val < 2 ^ l" and "7 \<le> l"
  shows "unat (drop_bit 7 val) < 2 ^ (l - 7)" and "(2 :: nat) ^ l = 128 * 2 ^ (l - 7)"
proof -
  show l: "(2 :: nat) ^ l = 128 * 2 ^ (l - 7)" using power_add [of "2 :: nat" 7 "l - 7"] assms(2) by simp
  then show "unat (drop_bit 7 val) < 2 ^ (l - 7)" using assms(1) unfolding unat_drop_bit7 by (simp add: less_mult_imp_div_less)
qed

lemma big_uleb_loop_reads:
  "unat val < 2 ^ nat loaded \<Longrightarrow> 0 \<le> loaded \<or> ds = [] \<Longrightarrow> loaded < 32 \<Longrightarrow>
     uleb_read (big_uleb_loop val loaded ds @ r) = Some (unat val + 2 ^ nat loaded * big_value ds, r)"
proof (induction val loaded ds rule: big_uleb_loop.induct)
  case (1 val loaded ds)
  define load where "load = (loaded < 7 \<and> ds \<noteq> [])"
  define v where "v = (if load then val OR push_bit (nat loaded) (ucast (hd ds)) else val)"
  define l where "l = (if load then loaded + 16 else loaded)"
  define es where "es = (if load then tl ds else ds)"
  let ?w = "drop_bit 7 v" and ?b = "ucast (v AND 0x7f) :: byte"
  note defs = load_def v_def l_def es_def
  have tot: "unat v < 2 ^ nat l" "l < 32" "unat val + 2 ^ nat loaded * big_value ds = unat v + 2 ^ nat l * big_value es"
    "7 \<le> l \<or> es = []"
  proof -
    have "unat v < 2 ^ nat l \<and> l < 32 \<and> unat val + 2 ^ nat loaded * big_value ds = unat v + 2 ^ nat l * big_value es \<and> (7 \<le> l \<or> es = [])"
    proof (cases load)
      case True
      then obtain d ds' where ds: "ds = d # ds'" by (cases ds) (auto simp: load_def)
      have "nat (loaded + 16) = nat loaded + 16" "0 \<le> loaded" "loaded < 7" using True 1(3) by (auto simp: load_def)
      then show ?thesis
        using True or_digit [OF 1(2), of d] ds by (simp add: defs power_add algebra_simps)
    next
      case False
      then show ?thesis using 1(2-4) by (auto simp: defs)
    qed
    then show "unat v < 2 ^ nat l" "l < 32" "unat val + 2 ^ nat loaded * big_value ds = unat v + 2 ^ nat l * big_value es"
      "7 \<le> l \<or> es = []" by blast+
  qed
  have step: "big_uleb_loop val loaded ds = (if es \<noteq> [] \<or> ?w \<noteq> 0 then (?b OR 0x80) # big_uleb_loop ?w (l - 7) es else [?b])"
    by (subst big_uleb_loop.simps) (simp add: Let_def defs)
  show ?case
  proof (cases "es \<noteq> [] \<or> ?w \<noteq> 0")
    case True
    have "7 \<le> l"
    proof (rule ccontr)
      assume "\<not> 7 \<le> l"
      then have "(2 :: nat) ^ nat l \<le> 2 ^ 7" by (intro power_increasing) simp_all
      then have "unat v < 128" using tot(1) by simp
      then have "?w = 0" by (simp add: unat_eq_zero [symmetric] unat_drop_bit7)
      then show False using True tot(4) \<open>\<not> 7 \<le> l\<close> by simp
    qed
    then have n: "7 \<le> nat l" "nat (l - 7) = nat l - 7" by simp_all
    have "uleb_read (big_uleb_loop ?w (l - 7) es @ r) = Some (unat ?w + 2 ^ nat (l - 7) * big_value es, r)"
      using 1(1) [OF load_def v_def l_def es_def refl refl True] shifted7(1) [OF tot(1) n(1)] n(2) \<open>7 \<le> l\<close> tot(2) by simp
    moreover have "unat v mod 128 + 128 * (unat ?w + 2 ^ (nat l - 7) * big_value es) = unat v + 2 ^ nat l * big_value es"
      unfolding shifted7(2) [OF tot(1) n(1)] unat_drop_bit7 by (simp add: algebra_simps)
    ultimately show ?thesis using True step tot(3) n(2) by (simp add: continued)
  next
    case False
    then have "unat v div 128 = 0" using unat_drop_bit7 [of v] by simp
    then show ?thesis using False step tot(3) by (simp add: continued)
  qed
qed

lemma big_value_append: "big_value (ds @ es) = big_value ds + 2 ^ (16 * length ds) * big_value es"
  by (induction ds) (simp_all add: algebra_simps power_add)

lemma big_value_strip: "big_value (rev (dropWhile (\<lambda>d. d = 0) (rev ds))) = big_value ds"
  by (induction ds rule: rev_induct) (simp_all add: big_value_append)

lemma output_big_uleb_reads: "uleb_read (output_big_uleb128 ds @ r) = Some (big_value ds, r)"
  by (simp add: output_big_uleb128_def big_uleb_loop_reads big_value_strip)

text \<open>The signed value of the low \<open>l\<close> bits of a number.\<close>

definition sval :: "nat \<Rightarrow> nat \<Rightarrow> int" where
  "sval l n = int n - (if 2 ^ (l - 1) \<le> n then 2 ^ l else 0)"

text \<open>Octets all of which say that more follow, and the number they stand for.\<close>

fun uleb_part :: "byte list \<Rightarrow> nat" where
  "uleb_part [] = 0"
| "uleb_part (b # bs) = low7 b + 128 * uleb_part bs"

lemma uleb_part_less: "uleb_part bs < 128 ^ length bs"
proof (induction bs)
  case (Cons b bs)
  then show ?case using low7_less [of b] by simp
qed simp

lemma sleb_read_part:
  "\<forall>b \<in> set bs. bit b 7 \<Longrightarrow> sleb_read (bs @ cs) = map_option (\<lambda>(n, r). (int (uleb_part bs) + 128 ^ length bs * n, r)) (sleb_read cs)"
  by (induction bs) (cases "sleb_read cs"; auto simp: algebra_simps)+

lemma inner_digits:
  "unat val < 2 ^ loaded \<Longrightarrow> 7 \<le> loaded \<Longrightarrow> big_sleb_inner True val loaded = (bs, cont, val', loaded') \<Longrightarrow>
     (\<forall>b \<in> set bs. bit b 7) \<and> loaded' < 7 \<and> loaded = 7 * length bs + loaded' \<and> unat val' < 2 ^ loaded'
   \<and> unat val = uleb_part bs + 128 ^ length bs * unat val'"
proof (induction True val loaded arbitrary: bs rule: big_sleb_inner.induct)
  case (1 val loaded)
  note s = shifted7 [OF 1(2,3)]
  show ?case
  proof (cases "7 \<le> loaded - 7")
    case True
    then obtain cs where cs: "big_sleb_inner True (drop_bit 7 val) (loaded - 7) = (cs, cont, val', loaded')"
      "bs = (ucast (val AND 0x7f) OR 0x80) # cs"
      using 1(4) by (subst (asm) big_sleb_inner.simps) (auto simp: Let_def split: prod.splits)
    have "(\<forall>b \<in> set cs. bit b 7) \<and> loaded' < 7 \<and> loaded - 7 = 7 * length cs + loaded' \<and> unat val' < 2 ^ loaded'
        \<and> unat (drop_bit 7 val) = uleb_part cs + 128 ^ length cs * unat val'"
      using 1(1) [OF refl refl refl refl refl _ s(1) True cs(1)] True by simp
    moreover have "unat val = unat val mod 128 + 128 * (unat val div 128)" by simp
    ultimately show ?thesis using cs(2) 1(3) unat_drop_bit7 [of val] by (auto simp: continued algebra_simps)
  next
    case False
    then show ?thesis using 1(3,4) s(1) unat_drop_bit7 [of val]
      by (subst (asm) big_sleb_inner.simps) (auto simp: continued Let_def)
  qed
qed

lemma sval_shift:
  assumes "part < 2 ^ m" and "0 < l"
  shows "int part + 2 ^ m * sval l n = sval (m + l) (part + 2 ^ m * n)"
proof -
  have p: "(2 :: nat) ^ (m + l - 1) = 2 ^ m * 2 ^ (l - 1)" using assms(2) by (simp flip: power_add)
  have "2 ^ (m + l - 1) \<le> part + 2 ^ m * n \<longleftrightarrow> 2 ^ (l - 1) \<le> n"
  proof
    assume "2 ^ (m + l - 1) \<le> part + 2 ^ m * n"
    then have "2 ^ m * 2 ^ (l - 1) < 2 ^ m * (n + 1)" unfolding p using assms(1) by simp
    then show "2 ^ (l - 1) \<le> n" by (simp only: mult_less_cancel1) simp
  next
    assume "2 ^ (l - 1) \<le> n"
    then have "2 ^ m * 2 ^ (l - 1) \<le> 2 ^ m * n" by simp
    then show "2 ^ (m + l - 1) \<le> part + 2 ^ m * n" unfolding p by (rule trans_le_add2)
  qed
  then show ?thesis by (simp add: sval_def algebra_simps power_add)
qed

lemma mop_up_all: "list_all (\<lambda>l. list_all (\<lambda>n. sleb_read [mop_up (word_of_nat n) l] = Some (sval l n, [])) [0..<2 ^ l]) [1..<7]"
  by code_simp

lemma mop_up_reads:
  assumes "unat val < 2 ^ l" and "1 \<le> l" and "l < 7"
  shows "sleb_read (mop_up val l # r) = Some (sval l (unat val), r)"
proof -
  have "sleb_read [mop_up (word_of_nat (unat val)) l] = Some (sval l (unat val), [])"
    using mop_up_all assms unfolding list_all_iff by (metis atLeast_upt atLeastLessThan_iff set_upt zero_le)
  then show ?thesis by (auto split: if_splits)
qed

text \<open>When the remaining bits are all copies of bit 6 nothing more has to be written.\<close>

lemma sval_sign_filled:
  fixes val :: u64
  assumes "unat (drop_bit 7 val) = (if bit val 6 then 2 ^ l - 1 else 0)"
  shows "sval (7 + l) (unat val) = int (unat val mod 128) - (if bit val 6 then 128 else 0)"
proof -
  let ?m = "unat val mod 128"
  have v: "unat val = ?m + 128 * (if bit val 6 then 2 ^ l - 1 else 0)"
    using mod_mult_div_eq [of "unat val" 128] assms by (simp only: unat_drop_bit7)
  have one: "(1 :: nat) \<le> 2 ^ l" by simp
  have t: "(2 :: nat) ^ (7 + l - 1) = 64 * 2 ^ l" "(2 :: nat) ^ (7 + l) = 128 * 2 ^ l" by (simp_all add: power_add)
  show ?thesis
  proof (cases "bit val 6")
    case True
    then have "64 \<le> ?m" by (simp add: bit_6)
    moreover have e: "unat val + 128 = ?m + 128 * 2 ^ l"
    proof -
      have "128 * ((2 :: nat) ^ l - 1) + 128 = 128 * 2 ^ l" using one by (simp add: diff_mult_distrib2)
      then show ?thesis using v True by (simp only: if_True add.assoc)
    qed
    ultimately have "64 * 2 ^ l \<le> unat val" using one by linarith
    moreover have "int (unat val) + 128 = int ?m + 128 * 2 ^ l" using arg_cong [OF e, of int] by simp
    ultimately show ?thesis using True unfolding sval_def t by (simp add: power_add del: of_nat_unat)
  next
    case False
    then have "?m < 64" by (simp add: bit_6)
    then have "unat val < 64 * 1" using v False by simp
    also have "\<dots> \<le> 64 * 2 ^ l" using one by (intro mult_left_mono) simp_all
    finally have "unat val < 64 * 2 ^ l" .
    then show ?thesis using False v unfolding sval_def t by simp
  qed
qed

lemma inner_last:
  "unat val < 2 ^ loaded \<Longrightarrow> 7 \<le> loaded \<Longrightarrow> loaded < 64 \<Longrightarrow> big_sleb_inner False val loaded = (bs, cont, val', loaded') \<Longrightarrow>
     sleb_read (bs @ (if cont then [mop_up val' loaded'] else []) @ r) = Some (sval loaded (unat val), r)"
proof (induction False val loaded arbitrary: bs rule: big_sleb_inner.induct)
  case (1 val loaded)
  let ?v = "drop_bit 7 val" and ?l = "loaded - 7" and ?b = "ucast (val AND 0x7f) :: byte"
  define fin where "fin = (?v = (if bit ?b 6 then push_bit ?l 1 - 1 else 0))"
  note s = shifted7 [OF 1(2,3)]
  have m: "sval loaded (unat val) = int (unat val mod 128) + 128 * sval ?l (unat ?v)" if "0 < ?l"
    using sval_shift [of "unat val mod 128" 7 ?l "unat ?v"] that 1(3) by (simp add: unat_drop_bit7)
  show ?case
  proof (cases fin)
    case True
    then have "big_sleb_inner False val loaded = ([?b], False, ?v, ?l)" by (subst big_sleb_inner.simps) (simp add: Let_def fin_def)
    then have "bs = [?b]" "\<not> cont" using 1(5) by simp_all
    moreover have "sval loaded (unat val) = int (unat val mod 128) - (if bit val 6 then 128 else 0)"
    proof -
      have "unat (push_bit ?l 1 - 1 :: u64) = 2 ^ ?l - 1"
      proof -
        have "unat (push_bit ?l 1 :: u64) = 2 ^ ?l" using 1(4) unfolding unsigned_push_bit_eq
          by (simp add: push_bit_eq_mult take_bit_nat_eq_self)
        then show ?thesis using unat_minus_one [of "push_bit ?l 1 :: u64"] by (metis unsigned_0 power_eq_0_iff zero_neq_numeral)
      qed
      then have "unat ?v = (if bit val 6 then 2 ^ ?l - 1 else 0)" using True by (simp add: fin_def continued)
      then show ?thesis using sval_sign_filled [of val ?l] 1(3) by simp
    qed
    ultimately show ?thesis by (simp add: continued)
  next
    case False
    show ?thesis
    proof (cases "7 \<le> ?l")
      case True
      then obtain cs where cs: "big_sleb_inner False ?v ?l = (cs, cont, val', loaded')" "bs = (?b OR 0x80) # cs"
        using 1(5) False by (subst (asm) big_sleb_inner.simps) (auto simp: Let_def fin_def split: prod.splits)
      have "sleb_read (cs @ (if cont then [mop_up val' loaded'] else []) @ r) = Some (sval ?l (unat ?v), r)"
        using 1(1) [OF refl refl refl refl refl _ s(1) True _ cs(1)] True False 1(4) by (auto simp: fin_def)
      then show ?thesis using cs(2) m True by (simp add: continued)
    next
      case l: False
      then have "big_sleb_inner False val loaded = ([?b OR 0x80], True, ?v, ?l)"
        using False by (subst big_sleb_inner.simps) (simp add: Let_def fin_def)
      then have e: "bs = [?b OR 0x80]" "cont" "val' = ?v" "loaded' = ?l" using 1(5) by simp_all
      have "0 < ?l"
      proof (rule ccontr)
        assume z: "\<not> 0 < ?l"
        then have "?v = 0" using s(1) by (simp add: unat_eq_zero)
        then show False using False z by (simp add: fin_def split: if_splits)
      qed
      then show ?thesis using e m mop_up_reads [OF s(1)] l by (simp add: continued)
    qed
  qed
qed

lemma big_sleb_loop_reads:
  "ds \<noteq> [] \<Longrightarrow> unat val < 2 ^ loaded \<Longrightarrow> loaded < 7 \<Longrightarrow>
     sleb_read (big_sleb_loop val loaded ds @ r) = Some (sval (loaded + 16 * length ds) (unat val + 2 ^ loaded * big_value ds), r)"
proof (induction ds arbitrary: val loaded)
  case (Cons d ds)
  let ?v = "val OR push_bit loaded (ucast d)"
  have v: "unat ?v = unat val + 2 ^ loaded * unat d" "unat ?v < 2 ^ (loaded + 16)"
    using or_digit [OF Cons.prems(2), of d] Cons.prems(3) by simp_all
  obtain bs cont val1 loaded1 where i: "big_sleb_inner (ds \<noteq> []) ?v (loaded + 16) = (bs, cont, val1, loaded1)"
    by (metis prod.exhaust)
  show ?case
  proof (cases "ds = []")
    case True
    have "sleb_read (bs @ (if cont then [mop_up val1 loaded1] else []) @ r) = Some (sval (loaded + 16) (unat ?v), r)"
      using inner_last [OF v(2) _ _ , of bs cont val1 loaded1 r] i True Cons.prems(3) by simp
    then show ?thesis using i True v(1) by simp
  next
    case False
    have "(\<forall>b \<in> set bs. bit b 7) \<and> loaded1 < 7 \<and> loaded + 16 = 7 * length bs + loaded1 \<and> unat val1 < 2 ^ loaded1
        \<and> unat ?v = uleb_part bs + 128 ^ length bs * unat val1"
      using inner_digits [OF v(2), of bs cont val1 loaded1] i False by simp
    then have d: "\<forall>b \<in> set bs. bit b 7" "loaded1 < 7" "loaded + 16 = 7 * length bs + loaded1" "unat val1 < 2 ^ loaded1"
      "unat ?v = uleb_part bs + 128 ^ length bs * unat val1" by blast+
    let ?N = "unat val1 + 2 ^ loaded1 * big_value ds" and ?L = "loaded1 + 16 * length ds"
    have k: "(128 :: nat) ^ length bs = 2 ^ (7 * length bs)" by (simp add: power_mult)
    have "int (uleb_part bs) + 2 ^ (7 * length bs) * sval ?L ?N = sval (7 * length bs + ?L) (uleb_part bs + 2 ^ (7 * length bs) * ?N)"
      using False uleb_part_less [of bs] by (intro sval_shift) (simp_all add: k)
    moreover have "uleb_part bs + 2 ^ (7 * length bs) * ?N = unat val + 2 ^ loaded * big_value (d # ds)"
    proof -
      have "(2 :: nat) ^ (7 * length bs) * 2 ^ loaded1 = 2 ^ loaded * 2 ^ 16" using d(3) by (metis power_add)
      then have "2 ^ (7 * length bs) * (2 ^ loaded1 * big_value ds) = 2 ^ loaded * (2 ^ 16 * big_value ds)"
        by (metis mult.assoc)
      moreover have "uleb_part bs + 2 ^ (7 * length bs) * unat val1 = unat val + 2 ^ loaded * unat d"
        using v(1) d(5) by (simp only: k)
      ultimately show ?thesis by (simp only: distrib_left big_value.simps add.assoc [symmetric])
    qed
    moreover have "7 * length bs + ?L = loaded + 16 * length (d # ds)" using d(3) by simp
    ultimately show ?thesis
      using i False Cons.IH [OF False d(4,2)] sleb_read_part [OF d(1), of "big_sleb_loop val1 loaded1 ds @ r"]
      by (simp add: power_mult)
  qed
qed simp

lemma strip_sign_value:
  "ds \<noteq> [] \<Longrightarrow> strip_sign ds \<noteq> [] \<and> sval (16 * length (strip_sign ds)) (big_value (strip_sign ds)) = sval (16 * length ds) (big_value ds)"
proof (induction ds rule: strip_sign.induct)
  case (1 ds)
  show ?case
  proof (cases "1 < length ds \<and> last ds = 0xffff \<and> 0x7fff < last (butlast ds)")
    case True
    then obtain cs c where ds: "ds = cs @ [c, 0xffff]" "0x7fff < c"
      by (cases ds rule: rev_cases; cases "butlast ds" rule: rev_cases) auto
    let ?es = "cs @ [c]" and ?n = "16 * length cs"
    have st: "strip_sign ds = strip_sign ?es" using True ds by (subst strip_sign.simps) (simp add: butlast_append)
    have "0x8000 \<le> unat c" using ds(2) by (simp add: word_less_nat_alt)
    then have "2 ^ ?n * 0x8000 \<le> 2 ^ ?n * unat c" by simp
    then have "2 ^ ?n * 0x8000 \<le> big_value cs + 2 ^ ?n * unat c" by (rule trans_le_add2)
    then have "2 ^ (?n + 15) \<le> big_value ?es" by (simp add: big_value_append power_add)
    moreover have "big_value ds = big_value ?es + 2 ^ (?n + 16) * 0xffff" 
      using big_value_append [of ?es "[0xffff]"] by (simp add: ds(1))
    ultimately have "sval (16 * length ds) (big_value ds) = sval (16 * length ?es) (big_value ?es)"
      by (simp add: sval_def ds(1) power_add)
    then show ?thesis using 1(1) [OF True] st ds by (simp add: butlast_append)
  next
    case False
    then have "strip_sign ds = ds" by (subst strip_sign.simps) (simp only: if_False)
    then show ?thesis using 1(2) by simp
  qed
qed

lemma output_big_sleb_reads:
  "ds \<noteq> [] \<Longrightarrow> sleb_read (output_big_sleb128 ds @ r) = Some (sval (16 * length ds) (big_value ds), r)"
  using big_sleb_loop_reads [of "strip_sign ds" 0 0 r] strip_sign_value [of ds] by (simp add: output_big_sleb128_def)

section \<open>The directive\<close>

text \<open>\<open>emit_leb128_expr\<close> for one operand, outside \<open>.eh_frame\<close>; \<open>big\<close> is \<open>generic_bignum\<close>, \<open>extrabit\<close> the sign bit of a constant's value
  before it was cut to 64 bits.  A value that is not known yet becomes a frag of type \<open>rs_leb128\<close>, whose \<open>fr_subtype\<close> says
  whether it is signed.\<close>

definition emit_leb128_expr :: "target \<Rightarrow> u16 list \<Rightarrow> bool \<Rightarrow> expressionS \<Rightarrow> bool \<Rightarrow> gas \<Rightarrow> gas result" where
  "emit_leb128_expr tg big extrabit ex sign g =
     (let oper = (if X_op ex \<in> {O_absent, O_illegal, O_register} then O_constant else X_op ex);
          val = (if X_op ex \<in> {O_absent, O_illegal} then 0 else X_add_number ex);
          extend = (X_op ex = O_constant \<and> sign \<and> (val <s 0) = (\<not> extrabit));
          digits = (if extend then convert_to_bignum val extrabit else take (unat val) big);
          digits1 = (if X_unsigned ex \<and> length digits < 20 \<and> digits \<noteq> [] \<and> last digits = 0xffff
                     then digits @ [0] else digits) in
      if oper = O_big \<and> val \<le>s 0 then Inl As_bad
      else if now_seg g = absolute_section then
        (if oper \<noteq> O_constant \<or> extend \<or> val \<noteq> 0 then Inl As_bad
         else Inr (g\<lparr>abs_section_offset := abs_section_offset g + 1\<rparr>))
      else if (oper \<noteq> O_constant \<or> extend \<or> val \<noteq> 0) \<and> now_seg g = bss_section then Inl As_bad
      else if oper = O_constant \<and> \<not> extend then put tg (output_leb128 val sign) g
      else if oper = O_constant \<or> oper = O_big then put tg (output_big_leb128 digits1 sign) g
      else bindE (make_expr_symbol ex g) (\<lambda>(s, g1).
           bindE (frag_var tg rs_leb128 (sizeof_uleb128 (NOT 0)) 0 (of_bool sign) s 0 g1) (\<lambda>(_, g2). Inr g2)))"

lemma sizeof_uleb_le: "sizeof_uleb128 v \<le> 10"
proof (rule ccontr)
  assume "\<not> sizeof_uleb128 v \<le> 10"
  then obtain k where k: "sizeof_uleb128 v = Suc k" "10 \<le> k" by (cases "sizeof_uleb128 v") auto
  then have "(128 :: nat) ^ 10 \<le> 128 ^ k" by (intro power_increasing) simp_all
  then show False using sizeof_uleb_lower [OF k(1)] k(2) unat_lt [of v] by simp
qed

lemma sizeof_sleb_le: "sizeof_sleb128 v \<le> 10"
proof (rule ccontr)
  assume "\<not> sizeof_sleb128 v \<le> 10"
  then obtain k where k: "sizeof_sleb128 v = Suc (Suc k)" "9 \<le> k"
    by (cases "sizeof_sleb128 v"; cases "sizeof_sleb128 v - 1") auto
  then have "(128 :: int) ^ 9 \<le> 128 ^ k" by (intro power_increasing) simp_all
  then have "sint v < - (2 ^ 63) \<or> 2 ^ 63 \<le> sint v" using sizeof_sleb_lower [OF k(1)] by auto
  then show False using sint_ge [of v] sint_lt [of v] by simp
qed

lemma length_leb128_le: "length (output_leb128 v sign) \<le> 10"
  by (simp add: output_leb128_def length_uleb length_sleb sizeof_uleb_le sizeof_sleb_le)

lemma inner_length: "length (fst (big_sleb_inner d v l)) \<le> max 1 l"
proof (induction d v l rule: big_sleb_inner.induct)
  case (1 d v l)
  show ?case
    using 1 by (subst big_sleb_inner.simps) (fastforce simp: Let_def split: prod.splits)
qed

lemma big_sleb_length: "unat val < 2 ^ loaded \<Longrightarrow> loaded < 7 \<Longrightarrow> length (big_sleb_loop val loaded ds) \<le> 24 * length ds"
proof (induction ds arbitrary: val loaded)
  case (Cons d ds)
  let ?v = "val OR push_bit loaded (ucast d)"
  have v: "unat ?v < 2 ^ (loaded + 16)" using or_digit [OF Cons.prems(1), of d] Cons.prems(2) by simp
  obtain bs cont val1 loaded1 where i: "big_sleb_inner (ds \<noteq> []) ?v (loaded + 16) = (bs, cont, val1, loaded1)"
    by (metis prod.exhaust)
  have l: "length bs \<le> 22" using inner_length [of "ds \<noteq> []" ?v "loaded + 16"] Cons.prems(2) i by simp
  show ?case
  proof (cases "ds = []")
    case False
    then have "unat val1 < 2 ^ loaded1" "loaded1 < 7" using inner_digits [OF v, of bs cont val1 loaded1] i by simp_all
    then show ?thesis using Cons.IH [of val1 loaded1] i l False by simp
  qed (use i l in simp)
qed simp

lemma unat_digit: "unat (ucast (drop_bit k v) :: u16) = unat v div 2 ^ k mod 2 ^ 16" for v :: u64
  unfolding unsigned_ucast_eq unsigned_drop_bit_eq using unat_lt [of v] by (simp add: drop_bit_eq_div take_bit_eq_mod)

lemma four_digits: "u < 2 ^ 64 \<Longrightarrow> u mod 2 ^ 16 + 2 ^ 16 * (u div 2 ^ 16 mod 2 ^ 16 + 2 ^ 16 * (u div 2 ^ 32 mod 2 ^ 16
    + 2 ^ 16 * (u div 2 ^ 48 mod 2 ^ 16))) = u" for u :: nat
proof -
  assume "u < 2 ^ 64"
  then have "u div 2 ^ 48 < 2 ^ 16" by (simp add: less_mult_imp_div_less)
  then have h: "u div 2 ^ 48 mod 2 ^ 16 = u div 2 ^ 48" by simp
  have d: "u div 2 ^ 48 = u div 2 ^ 32 div 2 ^ 16" "u div 2 ^ 32 = u div 2 ^ 16 div 2 ^ 16"
    by (simp_all add: div_mult2_eq [symmetric])
  show ?thesis unfolding h unfolding d by (simp only: mod_mult_div_eq)
qed

lemma convert_value:
  "big_value (convert_to_bignum val e) = unat val + (if (val <s 0) = (\<not> e) \<and> e then 2 ^ 64 * 0xffff else 0)"
proof -
  have "big_value [ucast val, ucast (drop_bit 16 val), ucast (drop_bit 32 val), ucast (drop_bit 48 val)] = unat val"
    using four_digits [of "unat val"] unat_lt [of val] unat_digit [of 0 val] unat_digit [of 16 val] unat_digit [of 32 val] unat_digit [of 48 val]
    by simp
  then show ?thesis unfolding convert_to_bignum_def big_value_append by (simp add: power_add)
qed

text \<open>An extended constant: the sign digit makes up for the bit that was cut off.\<close>

lemma extended_reads:
  assumes "(val <s 0) = (\<not> e)"
  shows "sleb_read (output_big_sleb128 (convert_to_bignum val e) @ r) = Some (int (unat val) - (if e then 2 ^ 64 else 0), r)"
proof -
  have l: "length (convert_to_bignum val e) = 5" "convert_to_bignum val e \<noteq> []" using assms by (auto simp: convert_to_bignum_def)
  have "unat val < 2 ^ 64" using unat_lt [of val] by simp
  then have "sval 80 (big_value (convert_to_bignum val e)) = int (unat val) - (if e then 2 ^ 64 else 0)"
    using assms by (simp add: convert_value sval_def del: of_nat_unat)
  then show ?thesis using output_big_sleb_reads [OF l(2), of r] l(1) by simp
qed

lemma sint_unat: "sint v = int (unat v) - (if v <s 0 then 2 ^ 64 else 0)" for v :: u64
proof -
  have e: "sint v = uint v - 2 ^ 64 * of_bool (bit (uint v) 63)"
    using uint_lt2p [of v] by (simp add: sint_uint signed_take_bit_eq_take_bit_minus take_bit_int_eq_self)
  moreover have "uint v < 2 ^ 64" using uint_lt2p [of v] by simp
  ultimately have "v <s 0 \<longleftrightarrow> bit (uint v) 63" using uint_ge_0 [of v] by (cases "bit (uint v) 63") (auto simp: word_sless_alt)
  then show ?thesis using e by simp
qed

lemma emit_leb128_constant:
  assumes rd: "ready tg g" and b: "now_seg g \<noteq> bss_section" and x: "X_op ex = O_constant" and u: "\<not> (X_unsigned ex \<and> e)"
  shows "\<exists>bs g'. emit_leb128_expr tg big e ex sign g = Inr g' \<and> appends tg bs g g'
    \<and> (if sign then (\<forall>r. sleb_read (bs @ r) = Some (int (unat (X_add_number ex)) - (if e then 2 ^ 64 else 0), r))
       else (\<forall>r. uleb_read (bs @ r) = Some (unat (X_add_number ex), r)))"
proof -
  let ?v = "X_add_number ex" and ?ext = "sign \<and> (X_add_number ex <s 0) = (\<not> e)"
  let ?bs = "if ?ext then output_big_sleb128 (convert_to_bignum ?v e) else output_leb128 ?v sign"
  have seg: "now_seg g \<noteq> absolute_section" using rd by (auto simp: ready_def content_inv_def chain_inv_def)
  have "X_unsigned ex \<Longrightarrow> ?ext \<Longrightarrow> last (convert_to_bignum ?v e) \<noteq> 0xffff"
    using u by (auto simp: convert_to_bignum_def)
  then have "emit_leb128_expr tg big e ex sign g = put tg ?bs g"
    using x b seg by (auto simp: emit_leb128_expr_def Let_def output_big_leb128_def)
  moreover have "length ?bs \<le> 0x10000"
  proof -
    have "length (strip_sign ds) \<le> length ds" for ds
    proof (induction ds rule: strip_sign.induct)
      case (1 ds)
      then show ?case by (subst strip_sign.simps) auto
    qed
    then have "length (output_big_sleb128 ds) \<le> 24 * length ds" for ds
      using big_sleb_length [of 0 0 "strip_sign ds"] by (auto simp: output_big_sleb128_def intro: order_trans)
    from this [of "convert_to_bignum ?v e"] show ?thesis
      using length_leb128_le [of ?v sign] by (auto simp: convert_to_bignum_def)
  qed
  then obtain p g1 where "frag_more tg (length ?bs) g = Inr (p, g1)" "appends tg ?bs g (poke_list p ?bs g1)"
    using frag_more_appends [OF rd] by blast
  moreover have "sleb_read (?bs @ r) = Some (int (unat ?v) - (if e then 2 ^ 64 else 0), r)" if sign for r
    using that extended_reads [of ?v e r] sleb_round_trip [of ?v r] sint_unat [of ?v]
    by (auto simp: output_leb128_def simp del: of_nat_unat)
  moreover have "uleb_read (?bs @ r) = Some (unat ?v, r)" if "\<not> sign" for r
    using that uleb_round_trip [of ?v r] by (simp add: output_leb128_def)
  ultimately show ?thesis
    by (intro exI [of _ ?bs] exI [of _ "poke_list p ?bs g1"]) (simp add: put_def)
qed

section \<open>Properties\<close>

text \<open>C32: What \<open>output_leb128\<close> and \<open>output_big_leb128\<close> write is read back as the same number, signed or unsigned, of 64 bits or
  of any number of digits, and the reader stops exactly behind it, whatever follows.\<close>

theorem leb128_round_trip:
  "uleb_read (output_leb128 v False @ r) = Some (unat v, r) \<and> sleb_read (output_leb128 v True @ r) = Some (sint v, r)
   \<and> uleb_read (output_big_leb128 ds False @ r) = Some (big_value ds, r)
   \<and> sleb_read (output_big_leb128 (d # ds) True @ r) = Some (sval (16 * length (d # ds)) (big_value (d # ds)), r)"
  using output_big_sleb_reads [of "d # ds" r]
  by (simp only: output_leb128_def output_big_leb128_def if_True if_False uleb_round_trip sleb_round_trip
      output_big_uleb_reads list.distinct simp_thms)

text \<open>C33: \<open>sizeof_leb128\<close> is the number of octets \<open>output_leb128\<close> writes, at most 10, and the least possible: no
  sequence of octets that is read as the same number is shorter.\<close>

theorem leb128_size:
  shows "length (output_leb128 v sign) = sizeof_leb128 v sign \<and> sizeof_leb128 v sign \<le> 10
    \<and> (\<forall>bs. uleb_read bs = Some (unat v, []) \<longrightarrow> sizeof_leb128 v False \<le> length bs)
    \<and> (\<forall>bs. sleb_read bs = Some (sint v, []) \<longrightarrow> sizeof_leb128 v True \<le> length bs)"
proof (intro conjI allI impI)
  show "length (output_leb128 v sign) = sizeof_leb128 v sign" "sizeof_leb128 v sign \<le> 10"
    by (simp_all add: output_leb128_def sizeof_leb128_def length_uleb length_sleb sizeof_uleb_le sizeof_sleb_le)
  show "sizeof_leb128 v False \<le> length bs" if rd: "uleb_read bs = Some (unat v, [])" for bs
  proof (rule ccontr)
    assume "\<not> sizeof_leb128 v False \<le> length bs"
    moreover obtain k where k: "length bs = Suc k" "unat v < 128 ^ Suc k" using uleb_read_bound [OF rd] by auto
    ultimately obtain j where j: "sizeof_uleb128 v = Suc j" "Suc k \<le> j"
      by (cases "sizeof_uleb128 v") (auto simp: sizeof_leb128_def)
    have "(128 :: nat) ^ Suc k \<le> 128 ^ j" using j(2) by (intro power_increasing) simp_all
    then show False using sizeof_uleb_lower [OF j(1)] j(2) k(2) by simp
  qed
  show "sizeof_leb128 v True \<le> length bs" if rd: "sleb_read bs = Some (sint v, [])" for bs
  proof (rule ccontr)
    assume "\<not> sizeof_leb128 v True \<le> length bs"
    moreover obtain k where k: "length bs = Suc k" "- 64 * 128 ^ k \<le> sint v" "sint v < 64 * 128 ^ k"
      using sleb_read_bound [OF rd] by auto
    ultimately obtain j where j: "sizeof_sleb128 v = Suc (Suc j)" "k \<le> j"
      by (cases "sizeof_sleb128 v"; cases "sizeof_sleb128 v - 1") (auto simp: sizeof_leb128_def)
    have "(128 :: int) ^ k \<le> 128 ^ j" using j(2) by (intro power_increasing) simp_all
    then show False using sizeof_sleb_lower [OF j(1)] k(2,3) by linarith
  qed
qed

theorem leb128_size_witness:
  "sizeof_leb128 300 False \<le> length [0xac, 0x02 :: byte] \<and> length (output_leb128 300 False) = sizeof_leb128 300 False"
proof -
  have "uleb_read [0xac, 0x02] = Some (unat (300 :: u64), [])" by code_simp
  then show ?thesis using leb128_size [of 300 False] by blast
qed

text \<open>C34: \<open>.uleb128\<close> and \<open>.sleb128\<close> of a constant append octets that are read as the constant, with the sign the value
  had before it was cut to 64 bits.\<close>

theorem leb128_directive:
  assumes "ready tg g" and "now_seg g \<noteq> bss_section" and "X_op ex = O_constant" and "\<not> (X_unsigned ex \<and> e)"
  shows "\<exists>bs g'. emit_leb128_expr tg big e ex sign g = Inr g' \<and> appends tg bs g g'
    \<and> (if sign then (\<forall>r. sleb_read (bs @ r) = Some (int (unat (X_add_number ex)) - (if e then 2 ^ 64 else 0), r))
       else (\<forall>r. uleb_read (bs @ r) = Some (unat (X_add_number ex), r)))"
  by (rule emit_leb128_constant [OF assms])

theorem leb128_directive_witness:
  "\<exists>bs g'. emit_leb128_expr sample_target [] True \<lparr>X_op = O_constant, X_add_symbol = None, X_op_symbol = None, X_add_number = -2, X_unsigned = False\<rparr>
       True start_gas = Inr g' \<and> appends sample_target bs start_gas g' \<and> sleb_read bs = Some (-2, [])"
proof -
  let ?ex = "\<lparr>X_op = O_constant, X_add_symbol = None, X_op_symbol = None, X_add_number = -2, X_unsigned = False\<rparr>"
  have "now_seg start_gas \<noteq> bss_section" by (simp add: start_gas_def)
  from leb128_directive [OF start_ready this, of ?ex True "[]" True] obtain bs g' where
    "emit_leb128_expr sample_target [] True ?ex True start_gas = Inr g'" "appends sample_target bs start_gas g'"
    "\<forall>r. sleb_read (bs @ r) = Some (int (unat (-2 :: u64)) - 2 ^ 64, r)" by auto
  moreover have "int (unat (-2 :: u64)) - 2 ^ 64 = -2" by simp
  ultimately show ?thesis by (metis append_Nil2)
qed

end
