(* ===== verification/Resolve.thy ===== *)
theory Resolve
  imports Fixups "HOL-Library.Signed_Division"
begin

text \<open>
  The values of symbols (\<open>src/gas/symbols.c\<close>): \<open>resolve_symbol_value\<close>, which follows the expressions
  kept in symbols and detects definition loops with the flag \<open>resolving\<close>, \<open>S_GET_VALUE\<close>, and the
  conversion of local symbols.  The theorems: resolution always ends, also when symbols are defined in
  terms of each other, and where the definitions are well founded its result is the value of the
  expression.
\<close>

section \<open>The state of symbols\<close>

text \<open>What \<open>struct symbol\<close> holds beside the fields of \<^typ>\<open>symbol\<close>: the flags, and \<open>x->value\<close> when
  it is not a plain constant (a constant is the field \<open>sy_value\<close>).  \<open>shadow\<close> stands for
  \<open>x->next == s\<close>; the \<open>bsf\<close> fields are the flags of the BFD symbol; \<open>hidden\<close> says that the ELF
  visibility is not the default.\<close>

record symx =
  resolved :: bool
  resolving :: bool
  mri_common :: bool
  weakrefr :: bool
  shadow :: bool
  bsf_global :: bool
  bsf_weak :: bool
  bsf_function :: bool
  bsf_object :: bool
  bsf_ifunc :: bool
  hidden :: bool
  x_expr :: "expressionS option"

record sym_st =
  sg :: gas
  sx :: "symP \<Rightarrow> symx"
  finalize_syms :: bool

definition constant_exp :: "u64 \<Rightarrow> expressionS" where
  "constant_exp v = \<lparr>X_op = O_constant, X_add_symbol = None, X_op_symbol = None, X_add_number = v, X_unsigned = False\<rparr>"

text \<open>\<open>symp->x->value\<close> and \<open>symp->frag->fr_address\<close>; the address of \<open>zero_address_frag\<close> is 0.\<close>

definition x_value :: "sym_st \<Rightarrow> symP \<Rightarrow> expressionS" where
  "x_value st s = (case x_expr (sx st s) of Some e \<Rightarrow> e | None \<Rightarrow> constant_exp (sy_value (syms (sg st) s)))"

definition frag_address :: "sym_st \<Rightarrow> symP \<Rightarrow> u64" where
  "frag_address st s = (case sy_frag (syms (sg st) s) of None \<Rightarrow> 0 | Some p \<Rightarrow> fr_address (frags (sg st) p))"

definition seg_of :: "sym_st \<Rightarrow> symP \<Rightarrow> segT" where
  "seg_of st s = S_GET_SEGMENT (syms (sg st) s)"

definition upd_sx :: "symP \<Rightarrow> (symx \<Rightarrow> symx) \<Rightarrow> sym_st \<Rightarrow> sym_st" where
  "upd_sx s f st = st\<lparr>sx := (sx st)(s := f (sx st s))\<rparr>"

definition is_local :: "sym_st \<Rightarrow> symP \<Rightarrow> bool" where
  "is_local st s = local_symbol (syms (sg st) s)"

section \<open>Accessors\<close>

definition S_IS_WEAKREFR :: "sym_st \<Rightarrow> symP \<Rightarrow> bool" where
  "S_IS_WEAKREFR st s \<longleftrightarrow> \<not> is_local st s \<and> weakrefr (sx st s)"

definition S_IS_DEFINED :: "sym_st \<Rightarrow> symP \<Rightarrow> bool" where
  "S_IS_DEFINED st s \<longleftrightarrow> seg_of st s \<noteq> undefined_section"

definition symbol_shadow_p :: "sym_st \<Rightarrow> symP \<Rightarrow> bool" where
  "symbol_shadow_p st s \<longleftrightarrow> \<not> is_local st s \<and> shadow (sx st s)"

definition symbol_resolved_p :: "sym_st \<Rightarrow> symP \<Rightarrow> bool" where
  "symbol_resolved_p st s = resolved (sx st s)"

text \<open>Setting the value of a full symbol makes its expression a constant.\<close>

definition S_SET_VALUE :: "symP \<Rightarrow> u64 \<Rightarrow> sym_st \<Rightarrow> sym_st" where
  "S_SET_VALUE s v st =
     (let st1 = st\<lparr>sg := upd_sym s (\<lambda>y. y\<lparr>sy_value := v\<rparr>) (sg st)\<rparr>
      in if is_local st s then st1 else upd_sx s (\<lambda>x. x\<lparr>x_expr := None, weakrefr := False\<rparr>) st1)"

definition set_segment :: "symP \<Rightarrow> segT \<Rightarrow> sym_st \<Rightarrow> sym_st result" where
  "set_segment s seg st =
     bindE (S_SET_SEGMENT seg (syms (sg st) s)) (\<lambda>y. Inr (st\<lparr>sg := upd_sym s (\<lambda>_. y) (sg st)\<rparr>))"

text \<open>A local symbol becomes a full one with the same value, at the end of the symbol chain; in the
  register section its expression is a register.\<close>

definition local_symbol_convert :: "symP \<Rightarrow> sym_st \<Rightarrow> sym_st result" where
  "local_symbol_convert s st = gas_assert (is_local st s)
     (let g = sg st; v = sy_value (syms g s) in
      Inr (upd_sx s (\<lambda>x. x\<lparr>x_expr := (if seg_of st s = reg_section
                              then Some ((constant_exp v)\<lparr>X_op := O_register\<rparr>) else None),
                           weakrefr := False, shadow := False, bsf_global := False, bsf_weak := False,
                           bsf_function := False, bsf_object := False, bsf_ifunc := False, hidden := False\<rparr>)
             (st\<lparr>sg := (upd_sym s (\<lambda>y. y\<lparr>local_symbol := False\<rparr>) g)\<lparr>sym_chain := sym_chain g @ [s]\<rparr>\<rparr>)))"

text \<open>The type flags; the ELF sizes are not part of the model's symbols, and the visibility is not copied.\<close>

definition convert_if_local :: "symP \<Rightarrow> sym_st \<Rightarrow> sym_st result" where
  "convert_if_local s st = (if is_local st s then local_symbol_convert s st else Inr st)"

definition copy_symbol_attributes :: "symP \<Rightarrow> symP \<Rightarrow> sym_st \<Rightarrow> sym_st result" where
  "copy_symbol_attributes dest src st =
     bindE (convert_if_local dest st) (\<lambda>st1.
     bindE (convert_if_local src st1) (\<lambda>st2.
     let f = sx st2 src in
     Inr (upd_sx dest (\<lambda>x. x\<lparr>bsf_function := bsf_function x \<or> bsf_function f,
                             bsf_object := bsf_object x \<or> bsf_object f,
                             bsf_ifunc := bsf_ifunc x \<or> bsf_ifunc f\<rparr>) st2)))"

section \<open>Operators\<close>

definition unary_op :: "operatorT \<Rightarrow> bool" where
  "unary_op op \<longleftrightarrow> op \<in> {O_uminus, O_bit_not, O_logical_not}"

definition binary_op :: "operatorT \<Rightarrow> bool" where
  "binary_op op \<longleftrightarrow> op \<in> {O_multiply, O_divide, O_modulus, O_left_shift, O_right_shift, O_bit_inclusive_or,
     O_bit_or_not, O_bit_exclusive_or, O_bit_and, O_add, O_subtract, O_eq, O_ne, O_lt, O_le, O_ge, O_gt,
     O_logical_and, O_logical_or}"

definition symbol_op :: "operatorT \<Rightarrow> bool" where
  "symbol_op op \<longleftrightarrow> op \<in> {O_symbol, O_symbol_rva, O_secidx}"

definition apply_unary :: "operatorT \<Rightarrow> u64 \<Rightarrow> u64" where
  "apply_unary op left =
     (if op = O_uminus then - left else if op = O_logical_not then of_bool (left = 0) else NOT left)"

definition all_ones :: "bool \<Rightarrow> u64" where
  "all_ones b = (if b then NOT 0 else 0)"

text \<open>Division truncates towards zero; the operands are signed.\<close>

definition c_div :: "u64 \<Rightarrow> u64 \<Rightarrow> u64" where
  "c_div a b = word_of_int (sint a sdiv sint b)"

definition c_mod :: "u64 \<Rightarrow> u64 \<Rightarrow> u64" where
  "c_mod a b = word_of_int (sint a smod sint b)"

text \<open>The second \<open>switch\<close>, after a zero divisor has been made 1 and an oversized shift has been
  replaced by zeros; \<open>same\<close> says that two equal values count as equal symbols.  The operators that are
  not binary are an error when the operator was changed under way, and \<open>abort\<close> otherwise.\<close>

definition apply_binary :: "operatorT \<Rightarrow> bool \<Rightarrow> u64 \<Rightarrow> u64 \<Rightarrow> u64 result" where
  "apply_binary op same left right = (case op of
     O_multiply \<Rightarrow> Inr (left * right)
   | O_divide \<Rightarrow> Inr (if right = 1 then left else if right = -1 then - left else c_div left right)
   | O_modulus \<Rightarrow> Inr (if right = 1 \<or> right = -1 then 0 else c_mod left right)
   | O_left_shift \<Rightarrow> Inr (push_bit (unat right) left)
   | O_right_shift \<Rightarrow> Inr (drop_bit (unat right) left)
   | O_bit_inclusive_or \<Rightarrow> Inr (left OR right)
   | O_bit_or_not \<Rightarrow> Inr (left OR NOT right)
   | O_bit_exclusive_or \<Rightarrow> Inr (left XOR right)
   | O_bit_and \<Rightarrow> Inr (left AND right)
   | O_add \<Rightarrow> Inr (left + right)
   | O_subtract \<Rightarrow> Inr (left - right)
   | O_eq \<Rightarrow> Inr (all_ones (left = right \<and> same))
   | O_ne \<Rightarrow> Inr (NOT (all_ones (left = right \<and> same)))
   | O_lt \<Rightarrow> Inr (all_ones (left <s right))
   | O_le \<Rightarrow> Inr (all_ones (left \<le>s right))
   | O_ge \<Rightarrow> Inr (all_ones (right \<le>s left))
   | O_gt \<Rightarrow> Inr (all_ones (right <s left))
   | O_logical_and \<Rightarrow> Inr (of_bool (left \<noteq> 0 \<and> right \<noteq> 0))
   | O_logical_or \<Rightarrow> Inr (of_bool (left \<noteq> 0 \<or> right \<noteq> 0))
   | O_illegal \<Rightarrow> Inl As_bad
   | O_absent \<Rightarrow> Inl As_bad
   | O_constant \<Rightarrow> Inl As_bad
   | _ \<Rightarrow> Inl Abort)"

definition safe_divisor :: "operatorT \<Rightarrow> u64 \<Rightarrow> u64" where
  "safe_divisor op right = (if (op = O_divide \<or> op = O_modulus) \<and> right = 0 then 1 else right)"

definition big_shift :: "operatorT \<Rightarrow> u64 \<Rightarrow> bool" where
  "big_shift op right \<longleftrightarrow> (op = O_left_shift \<or> op = O_right_shift) \<and> right \<ge> 64"

definition binary_value :: "operatorT \<Rightarrow> operatorT \<Rightarrow> bool \<Rightarrow> u64 \<Rightarrow> u64 \<Rightarrow> u64 result" where
  "binary_value op op' same left right =
     (if big_shift op (safe_divisor op right) then apply_binary op' same 0 0
      else apply_binary op' same left (safe_divisor op right))"

section \<open>Resolving\<close>

text \<open>Results of routines that may run for ever and may fail.\<close>

definition bindOE :: "'a result option \<Rightarrow> ('a \<Rightarrow> 'b result option) \<Rightarrow> 'b result option" where
  "bindOE m k = (case m of None \<Rightarrow> None | Some (Inl e) \<Rightarrow> Some (Inl e) | Some (Inr a) \<Rightarrow> k a)"

lemma bindOE_mono [partial_function_mono]:
  assumes B: "mono_option B" and C: "\<And>y. mono_option (\<lambda>f. C y f)"
  shows "mono_option (\<lambda>f. bindOE (B f) (\<lambda>y. C y f))"
proof -
  have eq: "bindOE m k = Option.bind m (case_sum (\<lambda>e. Some (Inl e)) k)" for m :: "'c result option" and k :: "'c \<Rightarrow> 'd result option"
    by (auto simp: bindOE_def split: option.splits sum.splits)
  have "mono_option (\<lambda>f. case_sum (\<lambda>e. Some (Inl e)) (\<lambda>y. C y f) z)" for z
    by (cases z) (auto intro: C option.const_mono)
  then show ?thesis unfolding eq by (intro bind_mono B)
qed


text \<open>What the computation of a symbol ends with: whether the value is to be stored
  (\<open>set_value\<close> is false after \<open>goto exit_dont_set_value\<close>), the value, the segment, and whether the
  operands were resolved.\<close>

record outcome =
  set_value :: bool
  final_val :: u64
  final_seg :: segT
  operands_resolved :: bool

text \<open>The end of \<open>resolve_symbol_value\<close>.\<close>

definition finish_resolve :: "symP \<Rightarrow> outcome \<Rightarrow> sym_st \<Rightarrow> (u64 \<times> sym_st) result" where
  "finish_resolve s oc st =
     (let st1 = (if set_value oc then upd_sx s (\<lambda>x. x\<lparr>resolving := False\<rparr>) st else st);
          st2 = (if set_value oc \<and> finalize_syms st1 then S_SET_VALUE s (final_val oc) st1 else st1) in
      bindE (set_segment s (final_seg oc) st2) (\<lambda>st3.
      if \<not> finalize_syms st3 then Inr (final_val oc, st3)
      else if operands_resolved oc then Inr (final_val oc, upd_sx s (\<lambda>x. x\<lparr>resolved := True\<rparr>) st3)
      else if seg_of st3 s \<noteq> expr_section then Inl As_bad
      else Inr (final_val oc, st3)))"

text \<open>A weak reference to a weak reference is made one to its target.\<close>

definition skip_weakref :: "symP \<Rightarrow> symP \<Rightarrow> u64 \<Rightarrow> sym_st \<Rightarrow> (symP \<times> sym_st) result" where
  "skip_weakref s add v st =
     (if \<not> S_IS_WEAKREFR st s then Inr (add, st)
      else gas_assert (v = 0)
        (if \<not> S_IS_WEAKREFR st add then Inr (add, st)
         else gas_assert (X_op (x_value st add) = O_symbol \<and> X_add_number (x_value st add) = 0)
           (deref (X_add_symbol (x_value st add)) (\<lambda>t.
            gas_assert (\<not> S_IS_WEAKREFR st t)
              (Inr (t, upd_sx s (\<lambda>x. x\<lparr>x_expr := Some ((x_value st s)\<lparr>X_add_symbol := Some t\<rparr>)\<rparr>) st))))))"

definition keeps_reloc :: "sym_st \<Rightarrow> symP \<Rightarrow> segT \<Rightarrow> segT \<Rightarrow> bool" where
  "keeps_reloc st s seg_left seg \<longleftrightarrow> seg_left = undefined_section
     \<or> finalize_syms st \<and> (seg = expr_section \<and> seg_left \<noteq> expr_section \<and> seg_left \<noteq> absolute_section
                            \<or> symbol_shadow_p st s)"

text \<open>The code at \<open>do_symbol\<close>, reached for a symbol plus a number.\<close>

definition do_symbol ::
  "operatorT \<Rightarrow> symP \<Rightarrow> symP \<Rightarrow> u64 \<Rightarrow> segT \<Rightarrow> u64 \<Rightarrow> segT \<Rightarrow> sym_st \<Rightarrow> (outcome \<times> sym_st) result" where
  "do_symbol op s add0 left seg_left v seg st0 =
     bindE (skip_weakref s add0 v st0) (\<lambda>(add, st).
     if mri_common (sx st s)
     then Inr (\<lparr>set_value = True, final_val = v, final_seg = seg, operands_resolved = symbol_resolved_p st add\<rparr>, st)
     else if finalize_syms st \<and> \<not> is_local st add \<and> resolving (sx st add)
     then Inr (\<lparr>set_value = True, final_val = v, final_seg = seg, operands_resolved = False\<rparr>, st)
     else bindE (if finalize_syms st \<and> v = 0
                 then bindE (convert_if_local add st) (copy_symbol_attributes s add) else Inr st) (\<lambda>st1.
     if keeps_reloc st1 s seg_left seg then
       (let st2 = (if finalize_syms st1
                   then upd_sx s (\<lambda>x. x\<lparr>x_expr := Some \<lparr>X_op = O_symbol, X_add_symbol = Some add,
                          X_op_symbol = Some add, X_add_number = v, X_unsigned = X_unsigned (x_value st1 s)\<rparr>\<rparr>) st1
                   else st1);
            sec = (op = O_secidx \<and> seg_left \<noteq> undefined_section)
        in Inr (\<lparr>set_value = sec, final_val = (if sec then 0 else v + frag_address st2 s + left),
                 final_seg = seg_left, operands_resolved = symbol_resolved_p st2 add\<rparr>,
                upd_sx s (\<lambda>x. x\<lparr>resolving := False\<rparr>) st2))
     else
       (let weak = S_IS_WEAKREFR st1 s
        in Inr (\<lparr>set_value = (\<not> weak), final_val = v + frag_address st1 s + left,
                 final_seg = (if seg = expr_section \<or> seg = undefined_section then seg_left else seg),
                 operands_resolved = symbol_resolved_p st1 add\<rparr>,
                if weak then upd_sx s (\<lambda>x. x\<lparr>resolving := False\<rparr>) st1 else st1))))"

definition after_unary :: "operatorT \<Rightarrow> symP \<Rightarrow> symP \<Rightarrow> u64 \<Rightarrow> u64 \<Rightarrow> segT \<Rightarrow> sym_st \<Rightarrow> (outcome \<times> sym_st) result" where
  "after_unary op s add left v seg st =
     (if op \<noteq> O_logical_not \<and> seg_of st add \<noteq> absolute_section \<and> finalize_syms st then Inl As_bad
      else Inr (\<lparr>set_value = True, final_val = v + (apply_unary op left + frag_address st s),
                 final_seg = (if seg = expr_section \<or> seg = undefined_section then absolute_section else seg),
                 operands_resolved = symbol_resolved_p st add\<rparr>, st))"

definition operands_allowed :: "operatorT \<Rightarrow> symP \<Rightarrow> symP \<Rightarrow> segT \<Rightarrow> segT \<Rightarrow> bool" where
  "operands_allowed op a b seg_left seg_right \<longleftrightarrow>
     seg_left = absolute_section \<and> seg_right = absolute_section
   \<or> op = O_eq \<or> op = O_ne
   \<or> op \<in> {O_subtract, O_lt, O_le, O_ge, O_gt} \<and> seg_left = seg_right \<and> (seg_left \<noteq> undefined_section \<or> a = b)"

definition general_binary ::
  "operatorT \<Rightarrow> symP \<Rightarrow> symP \<Rightarrow> symP \<Rightarrow> u64 \<Rightarrow> u64 \<Rightarrow> u64 \<Rightarrow> segT \<Rightarrow> sym_st \<Rightarrow> (outcome \<times> sym_st) result" where
  "general_binary op s a b left right v seg st =
     (let sl = seg_of st a; sr = seg_of st b; ok = operands_allowed op a b sl sr;
          seg1 = (if ok \<and> (seg = expr_section \<or> seg = undefined_section) then absolute_section else seg);
          same = (sl = sr \<and> (sl \<noteq> undefined_section \<or> a = b)) in
      if \<not> ok \<and> finalize_syms st then Inl As_bad
      else if (op = O_divide \<or> op = O_modulus) \<and> right = 0 \<and> sr = absolute_section \<and> finalize_syms st then Inl As_bad
      else bindE (binary_value op (X_op (x_value st s)) same left right) (\<lambda>w.
        Inr (\<lparr>set_value = True, final_val = v + (frag_address st s + w),
              final_seg = (if seg1 = expr_section \<or> seg1 = undefined_section
                           then (if sl = undefined_section \<or> sr = undefined_section then undefined_section
                                 else if sl = absolute_section then sr else sl)
                           else seg1),
              operands_resolved = (symbol_resolved_p st a \<and> symbol_resolved_p st b)\<rparr>, st)))"

definition after_binary ::
  "operatorT \<Rightarrow> symP \<Rightarrow> symP \<Rightarrow> symP \<Rightarrow> u64 \<Rightarrow> u64 \<Rightarrow> u64 \<Rightarrow> segT \<Rightarrow> sym_st \<Rightarrow> (outcome \<times> sym_st) result" where
  "after_binary op s a b left right v seg st =
     (let sl = seg_of st a; sr = seg_of st b in
      if op = O_add \<and> sr = absolute_section then do_symbol op s a left sl (v + right) seg st
      else if op = O_add \<and> sl = absolute_section then do_symbol op s b right sr (v + left) seg st
      else if op = O_subtract \<and> sr = absolute_section then do_symbol op s a left sl (v - right) seg st
      else general_binary op s a b left right v seg st)"

text \<open>Symbols without operands: constants, registers, values that cannot be resolved, and the
  machine-dependent operators, for which the x86 has no \<open>md_resolve_symbol\<close>.\<close>

definition resolve_leaf :: "operatorT \<Rightarrow> symP \<Rightarrow> u64 \<Rightarrow> segT \<Rightarrow> sym_st \<Rightarrow> (outcome \<times> sym_st) result" where
  "resolve_leaf op s v seg st = (case op of
     O_absent \<Rightarrow> Inr (\<lparr>set_value = True, final_val = 0 + frag_address st s,
        final_seg = (if seg = expr_section then absolute_section else seg), operands_resolved = True\<rparr>, st)
   | O_constant \<Rightarrow> Inr (\<lparr>set_value = True, final_val = v + frag_address st s,
        final_seg = (if seg = expr_section then absolute_section else seg), operands_resolved = True\<rparr>, st)
   | O_register \<Rightarrow> Inr (\<lparr>set_value = True, final_val = v, final_seg = seg, operands_resolved = True\<rparr>, st)
   | O_big \<Rightarrow> Inr (\<lparr>set_value = True, final_val = v, final_seg = seg, operands_resolved = False\<rparr>, st)
   | O_illegal \<Rightarrow> Inr (\<lparr>set_value = True, final_val = v, final_seg = seg, operands_resolved = False\<rparr>, st)
   | O_md k \<Rightarrow> Inr (\<lparr>set_value = False, final_val = v, final_seg = seg, operands_resolved = False\<rparr>, st)
   | _ \<Rightarrow> Inl As_fatal)"

text \<open>\<open>struct local_symbol\<close>.\<close>

definition resolve_local :: "symP \<Rightarrow> sym_st \<Rightarrow> u64 \<times> sym_st" where
  "resolve_local s st =
     (let v = sy_value (syms (sg st) s) in
      if resolved (sx st s) then (v, st)
      else (let w = v + frag_address st s in
            if finalize_syms st
            then (w, upd_sx s (\<lambda>x. x\<lparr>resolved := True\<rparr>) (st\<lparr>sg := upd_sym s (\<lambda>y. y\<lparr>sy_value := w\<rparr>) (sg st)\<rparr>))
            else (w, st)))"

text \<open>The value of a resolved symbol: the loop over the symbols it is equated to.\<close>

partial_function (option) resolved_value :: "sym_st \<Rightarrow> u64 \<Rightarrow> symP \<Rightarrow> u64 result option" where
  "resolved_value st acc s =
     (let e = x_value st s in
      if X_op e = O_symbol then
        (case X_add_symbol e of None \<Rightarrow> Some (Inl Null_deref)
         | Some t \<Rightarrow>
            if is_local st t then Some (Inr (acc + X_add_number e + sy_value (syms (sg st) t)))
            else if \<not> resolved (sx st t) then Some (Inr 0)
            else resolved_value st (acc + X_add_number e) t)
      else if X_op e = O_constant then Some (Inr (acc + X_add_number e))
      else Some (Inr 0))"

definition operand :: "symP option \<Rightarrow> symP result option" where
  "operand p = Some (deref p Inr)"

partial_function (option) resolve_symbol_value :: "sym_st \<Rightarrow> symP \<Rightarrow> (u64 \<times> sym_st) result option" where
  "resolve_symbol_value st s =
     (if is_local st s then Some (Inr (resolve_local s st))
      else if resolved (sx st s) then bindOE (resolved_value st 0 s) (\<lambda>v. Some (Inr (v, st)))
      else (let seg = seg_of st s in
        if resolving (sx st s) then
          (if finalize_syms st then Some (Inl As_bad)
           else Some (finish_resolve s \<lparr>set_value = False, final_val = 0, final_seg = seg, operands_resolved = True\<rparr> st))
        else (let st1 = upd_sx s (\<lambda>x. x\<lparr>resolving := True\<rparr>) st; e = x_value st s; op = X_op e; v = X_add_number e in
          bindOE
            (if symbol_op op then
               bindOE (operand (X_add_symbol e)) (\<lambda>a.
               bindOE (resolve_symbol_value st1 a) (\<lambda>(left, st2).
               Some (do_symbol op s a left (seg_of st2 a) v seg
                 (if finalize_syms st2
                  then upd_sx s (\<lambda>x. x\<lparr>x_expr := Some ((x_value st2 s)\<lparr>X_op_symbol := None\<rparr>)\<rparr>) st2 else st2))))
             else if unary_op op then
               bindOE (operand (X_add_symbol e)) (\<lambda>a.
               bindOE (resolve_symbol_value st1 a) (\<lambda>(left, st2).
               Some (after_unary op s a left v seg st2)))
             else if binary_op op then
               bindOE (operand (X_add_symbol e)) (\<lambda>a.
               bindOE (resolve_symbol_value st1 a) (\<lambda>(left, st2).
               bindOE (operand (X_op_symbol e)) (\<lambda>b.
               bindOE (resolve_symbol_value st2 b) (\<lambda>(right, st3).
               Some (after_binary op s a b left right v seg st3)))))
             else Some (resolve_leaf op s v seg st1))
            (\<lambda>(oc, st'). Some (finish_resolve s oc st')))))"

text \<open>\<open>S_GET_VALUE_WHERE\<close>; without finalization it is the value \<open>resolve_symbol_value\<close> returns.\<close>

partial_function (option) S_GET_VALUE :: "sym_st \<Rightarrow> symP \<Rightarrow> (u64 \<times> sym_st) result option" where
  "S_GET_VALUE st s =
     (if is_local st s then resolve_symbol_value st s
      else bindOE (if resolved (sx st s) then Some (Inr (0, st)) else resolve_symbol_value st s) (\<lambda>(v, st1).
        if \<not> resolved (sx st s) \<and> \<not> finalize_syms st1 then Some (Inr (v, st1))
        else (let e = x_value st1 s in
          if S_IS_WEAKREFR st1 s then bindOE (operand (X_add_symbol e)) (\<lambda>t. S_GET_VALUE st1 t)
          else if X_op e \<noteq> O_constant
                  \<and> (\<not> resolved (sx st1 s) \<or> X_op e \<noteq> O_symbol \<or> S_IS_DEFINED st1 s) then Some (Inl As_bad)
          else Some (Inr (X_add_number e, st1)))))"


section \<open>What resolving changes before finalization\<close>

text \<open>While the symbols are not finalized only segments of symbols change, the target of a weak
  reference to a weak reference is short-cut, and a machine-dependent expression keeps its mark.\<close>

definition segs_only :: "gas \<Rightarrow> gas \<Rightarrow> bool" where
  "segs_only g g' \<longleftrightarrow> (\<exists>f. g' = g\<lparr>syms := \<lambda>q. (syms g q)\<lparr>sy_seg := f q\<rparr>\<rparr>)"

definition md_expr :: "symx \<Rightarrow> bool" where
  "md_expr x \<longleftrightarrow> (\<exists>e k. x_expr x = Some e \<and> X_op e = O_md k)"

definition symx_le :: "symx \<Rightarrow> symx \<Rightarrow> bool" where
  "symx_le x x' \<longleftrightarrow> x' = x\<lparr>resolving := resolving x', x_expr := x_expr x'\<rparr>
     \<and> (weakrefr x \<or> x_expr x' = x_expr x) \<and> map_option X_op (x_expr x') = map_option X_op (x_expr x)
     \<and> (resolving x \<longrightarrow> resolving x') \<and> (resolving x' \<longrightarrow> resolving x \<or> md_expr x)"

definition evolves :: "sym_st \<Rightarrow> sym_st \<Rightarrow> bool" where
  "evolves st st' \<longleftrightarrow> segs_only (sg st) (sg st') \<and> (\<forall>q. symx_le (sx st q) (sx st' q))
     \<and> finalize_syms st' = finalize_syms st"

text \<open>Every operand is a symbol of the table, and no symbol is resolved yet.\<close>

definition operands_of :: "expressionS \<Rightarrow> symP set" where
  "operands_of e = set_option (X_add_symbol e) \<union> set_option (X_op_symbol e)"

definition closed_symtab :: "sym_st \<Rightarrow> bool" where
  "closed_symtab st \<longleftrightarrow> \<not> finalize_syms st \<and> (\<forall>s < n_syms (sg st). \<not> resolved (sx st s) \<and>
     (\<not> is_local st s \<longrightarrow> operands_of (x_value st s) \<subseteq> {..<n_syms (sg st)}))"

definition mark_off :: "symP \<Rightarrow> sym_st \<Rightarrow> sym_st" where
  "mark_off s st = upd_sx s (\<lambda>x. x\<lparr>resolving := False\<rparr>) st"

lemma segs_only_refl [simp]: "segs_only g g"
  by (auto simp: segs_only_def intro: exI [of _ "\<lambda>q. sy_seg (syms g q)"])

lemma segs_only_trans [trans]: "segs_only a b \<Longrightarrow> segs_only b c \<Longrightarrow> segs_only a c"
  by (fastforce simp: segs_only_def)

lemma segs_only_keeps:
  assumes "segs_only g g'"
  shows "frags g' = frags g" "mem g' = mem g" "seg_info g' = seg_info g" "n_syms g' = n_syms g"
    "frchain_now g' = frchain_now g" "now_seg g' = now_seg g" "frag_now g' = frag_now g"
    "sy_value (syms g' q) = sy_value (syms g q)" "sy_frag (syms g' q) = sy_frag (syms g q)"
    "local_symbol (syms g' q) = local_symbol (syms g q)" "section_sym (syms g' q) = section_sym (syms g q)"
  using assms by (auto simp: segs_only_def)

lemma symx_le_refl [simp]: "symx_le x x"
  by (simp add: symx_le_def)

lemma md_expr_le: "symx_le x x' \<Longrightarrow> md_expr x' \<Longrightarrow> md_expr x"
  by (cases "x_expr x") (auto simp: symx_le_def md_expr_def)

lemma symx_le_keeps:
  assumes "symx_le x x'"
  shows "resolved x' = resolved x" "weakrefr x' = weakrefr x" "mri_common x' = mri_common x"
    "bsf_global x' = bsf_global x" "bsf_weak x' = bsf_weak x" "bsf_ifunc x' = bsf_ifunc x"
    "hidden x' = hidden x" "shadow x' = shadow x"
proof -
  obtain r e where "x' = x\<lparr>resolving := r, x_expr := e\<rparr>" using assms unfolding symx_le_def by metis
  then show "resolved x' = resolved x" "weakrefr x' = weakrefr x" "mri_common x' = mri_common x"
    "bsf_global x' = bsf_global x" "bsf_weak x' = bsf_weak x" "bsf_ifunc x' = bsf_ifunc x"
    "hidden x' = hidden x" "shadow x' = shadow x" by simp_all
qed

lemma symx_le_trans [trans]:
  assumes xy: "symx_le x y" and yz: "symx_le y z"
  shows "symx_le x z"
proof -
  obtain r e where y: "y = x\<lparr>resolving := r, x_expr := e\<rparr>" using xy unfolding symx_le_def by metis
  obtain r' e' where z: "z = y\<lparr>resolving := r', x_expr := e'\<rparr>" using yz unfolding symx_le_def by metis
  have 1: "z = x\<lparr>resolving := resolving z, x_expr := x_expr z\<rparr>" by (simp add: y z)
  have 2: "weakrefr y = weakrefr x" by (simp add: y)
  have 3: "weakrefr x \<or> x_expr z = x_expr x" using xy yz 2 by (auto simp: symx_le_def)
  have 4: "map_option X_op (x_expr z) = map_option X_op (x_expr x)" using xy yz by (simp add: symx_le_def)
  have 5: "resolving x \<longrightarrow> resolving z" using xy yz by (simp add: symx_le_def)
  have 6: "resolving z \<longrightarrow> resolving x \<or> md_expr x"
    using xy yz md_expr_le [OF xy] by (auto simp: symx_le_def)
  show ?thesis unfolding symx_le_def using 1 3 4 5 6 by blast
qed

lemma evolves_refl [simp]: "evolves st st"
  by (simp add: evolves_def)

lemma evolves_trans [trans]: "evolves a b \<Longrightarrow> evolves b c \<Longrightarrow> evolves a c"
  unfolding evolves_def by (metis segs_only_trans symx_le_trans)

lemma evolves_keeps:
  assumes "evolves st st'"
  shows "n_syms (sg st') = n_syms (sg st)" "is_local st' q = is_local st q"
    "frag_address st' q = frag_address st q" "finalize_syms st' = finalize_syms st"
    "frags (sg st') = frags (sg st)" "resolved (sx st' q) = resolved (sx st q)"
    "weakrefr (sx st' q) = weakrefr (sx st q)" "mri_common (sx st' q) = mri_common (sx st q)"
    "X_op (x_value st' q) = X_op (x_value st q)"
proof -
  have g: "segs_only (sg st) (sg st')" and x: "symx_le (sx st q) (sx st' q)"
    and f: "finalize_syms st' = finalize_syms st" using assms by (auto simp: evolves_def)
  note k = segs_only_keeps [OF g]
  show "n_syms (sg st') = n_syms (sg st)" "is_local st' q = is_local st q"
    "frag_address st' q = frag_address st q" "finalize_syms st' = finalize_syms st"
    "frags (sg st') = frags (sg st)"
    using k f by (simp_all add: is_local_def frag_address_def split: option.split)
  show "resolved (sx st' q) = resolved (sx st q)" "weakrefr (sx st' q) = weakrefr (sx st q)"
    "mri_common (sx st' q) = mri_common (sx st q)"
    using symx_le_keeps [OF x] by simp_all
  have "map_option X_op (x_expr (sx st' q)) = map_option X_op (x_expr (sx st q))"
    using x by (simp add: symx_le_def)
  then show "X_op (x_value st' q) = X_op (x_value st q)"
    by (cases "x_expr (sx st q)"; cases "x_expr (sx st' q)") (simp_all add: x_value_def constant_exp_def)
qed

lemma mark_off_sx: "sx (mark_off s st) q = (if q = s then (sx st s)\<lparr>resolving := False\<rparr> else sx st q)"
  by (simp add: mark_off_def upd_sx_def)

lemma mark_off_simps [simp]:
  "sg (mark_off s st) = sg st" "finalize_syms (mark_off s st) = finalize_syms st"
  "is_local (mark_off s st) q = is_local st q" "x_value (mark_off s st) q = x_value st q"
  "frag_address (mark_off s st) q = frag_address st q" "seg_of (mark_off s st) q = seg_of st q"
  "resolved (sx (mark_off s st) q) = resolved (sx st q)"
  by (simp_all add: mark_off_def upd_sx_def is_local_def x_value_def frag_address_def seg_of_def split: option.split)

lemma closed_symtab_cong:
  assumes "closed_symtab st" "n_syms (sg st') = n_syms (sg st)" "finalize_syms st' = finalize_syms st"
    "\<And>q. is_local st' q = is_local st q" "\<And>q. resolved (sx st' q) = resolved (sx st q)"
    "\<And>q. operands_of (x_value st' q) = operands_of (x_value st q)"
  shows "closed_symtab st'"
  using assms(1) unfolding closed_symtab_def assms(2-) .

lemma closed_mark_off [simp]: "closed_symtab (mark_off s st) = closed_symtab st"
  by (simp add: closed_symtab_def)

lemma set_segment_sx:
  assumes "set_segment s seg st = Inr st'"
  shows "sx st' = sx st" "segs_only (sg st) (sg st')" "finalize_syms st' = finalize_syms st"
proof -
  obtain y where y: "S_SET_SEGMENT seg (syms (sg st) s) = Inr y" "st' = st\<lparr>sg := upd_sym s (\<lambda>_. y) (sg st)\<rparr>"
    using assms by (auto simp: set_segment_def)
  have "y = (syms (sg st) s)\<lparr>sy_seg := sy_seg y\<rparr>"
    using y(1) by (auto simp: S_SET_SEGMENT_def split: if_splits)
  then have "upd_sym s (\<lambda>_. y) (sg st)
      = (sg st)\<lparr>syms := \<lambda>q. (syms (sg st) q)\<lparr>sy_seg := (if q = s then sy_seg y else sy_seg (syms (sg st) q))\<rparr>\<rparr>"
    by (auto simp: upd_sym_def fun_eq_iff)
  then show "sx st' = sx st" "segs_only (sg st) (sg st')" "finalize_syms st' = finalize_syms st"
    using y(2) unfolding segs_only_def by auto
qed

lemma set_segment_evolves:
  assumes "set_segment s seg st = Inr st'"
  shows "evolves st st'" "closed_symtab st \<Longrightarrow> closed_symtab st'"
proof -
  show e: "evolves st st'" using set_segment_sx [OF assms] by (simp add: evolves_def)
  show "closed_symtab st \<Longrightarrow> closed_symtab st'"
    by (erule closed_symtab_cong)
      (simp_all add: evolves_keeps [OF e] x_value_def set_segment_sx(1) [OF assms]
         segs_only_keeps(8) [OF set_segment_sx(2) [OF assms]] split: option.split)
qed

text \<open>A routine working for symbol \<open>s\<close>, started when the table was \<open>b\<close>: up to the mark of \<open>s\<close> the table
  has evolved, and the mark is off or about to be taken off.\<close>

definition working :: "sym_st \<Rightarrow> symP \<Rightarrow> sym_st \<Rightarrow> bool" where
  "working b s st \<longleftrightarrow> \<not> finalize_syms st \<and> evolves b (mark_off s st) \<and> closed_symtab st"

definition mark_ok :: "sym_st \<Rightarrow> symP \<Rightarrow> outcome \<Rightarrow> sym_st \<Rightarrow> bool" where
  "mark_ok b s oc st \<longleftrightarrow> set_value oc \<or> \<not> resolving (sx st s) \<or> md_expr (sx b s)"

lemma evolves_mark_off:
  assumes "evolves b (mark_off s st)" "\<not> resolving (sx st s) \<or> md_expr (sx b s)"
  shows "evolves b st"
proof -
  have "symx_le (sx b q) (sx st q)" for q
  proof (cases "q = s \<and> resolving (sx st s)")
    case True
    then have "symx_le (sx b s) ((sx st s)\<lparr>resolving := False\<rparr>)"
      using assms(1) by (auto simp: evolves_def mark_off_sx split: if_splits dest: spec [of _ s])
    moreover obtain r e where "(sx st s)\<lparr>resolving := False\<rparr> = (sx b s)\<lparr>resolving := r, x_expr := e\<rparr>"
      using calculation unfolding symx_le_def by metis
    then have "sx st s = (sx b s)\<lparr>resolving := True, x_expr := e\<rparr>" "x_expr (sx st s) = e"
      using True by (cases "sx st s", cases "sx b s"; simp)+
    ultimately show ?thesis using True assms(2) by (auto simp: symx_le_def)
  next
    case False
    then have "sx (mark_off s st) q = sx st q"
      by (cases "sx st s") (auto simp: mark_off_sx)
    then show ?thesis using assms(1) unfolding evolves_def by metis
  qed
  then show ?thesis using assms(1) by (simp add: evolves_def)
qed

lemma finish_resolve_evolves:
  assumes "working b s st" "mark_ok b s oc st" and f: "finish_resolve s oc st = Inr (v, st')"
  shows "evolves b st' \<and> closed_symtab st' \<and> v = final_val oc"
proof -
  let ?st1 = "if set_value oc then mark_off s st else st"
  have w: "\<not> finalize_syms st" "evolves b (mark_off s st)" "closed_symtab st"
    using assms(1) by (auto simp: working_def)
  have 1: "evolves b ?st1" "closed_symtab ?st1" "\<not> finalize_syms ?st1"
    using w assms(2) evolves_mark_off by (auto simp: mark_ok_def)
  then obtain st3 where s3: "set_segment s (final_seg oc) ?st1 = Inr st3"
    "(if \<not> finalize_syms st3 then Inr (final_val oc, st3)
      else if operands_resolved oc then Inr (final_val oc, upd_sx s (\<lambda>x. x\<lparr>resolved := True\<rparr>) st3)
      else if seg_of st3 s \<noteq> expr_section then Inl As_bad
      else Inr (final_val oc, st3)) = (Inr (v, st') :: (u64 \<times> sym_st) result)"
    using f unfolding finish_resolve_def Let_def bindE_Inr_iff mark_off_def by (auto split: if_splits)
  have "\<not> finalize_syms st3" using set_segment_sx [OF s3(1)] 1 by simp
  then have "st' = st3" "v = final_val oc" using s3(2) by auto
  then show ?thesis using set_segment_evolves [OF s3(1)] 1 evolves_trans by metis
qed

lemma working_keeps:
  assumes "working b s st"
  shows "\<not> finalize_syms st" "closed_symtab st" "n_syms (sg st) = n_syms (sg b)"
    "weakrefr (sx st q) = weakrefr (sx b q)" "mri_common (sx st q) = mri_common (sx b q)"
    "is_local st q = is_local b q" "frag_address st q = frag_address b q"
    "X_op (x_value st q) = X_op (x_value b q)"
proof -
  have w: "\<not> finalize_syms st" "closed_symtab st" and e: "evolves b (mark_off s st)"
    using assms by (auto simp: working_def)
  show "\<not> finalize_syms st" "closed_symtab st" by (fact w)+
  have m: "weakrefr (sx (mark_off s st) q) = weakrefr (sx st q)"
    "mri_common (sx (mark_off s st) q) = mri_common (sx st q)" by (simp_all add: mark_off_sx)
  show "n_syms (sg st) = n_syms (sg b)" "weakrefr (sx st q) = weakrefr (sx b q)"
    "mri_common (sx st q) = mri_common (sx b q)" "is_local st q = is_local b q"
    "frag_address st q = frag_address b q" "X_op (x_value st q) = X_op (x_value b q)"
    using evolves_keeps [OF e] m by (metis mark_off_simps)+
qed

lemma x_expr_Some: "X_op (x_value st s) \<noteq> O_constant \<Longrightarrow> x_expr (sx st s) = Some (x_value st s)"
  by (cases "x_expr (sx st s)") (auto simp: x_value_def constant_exp_def)

lemma symx_le_expr:
  assumes "symx_le x y" "weakrefr x" "x_expr y = Some e" "X_op e' = X_op e"
  shows "symx_le x (y\<lparr>x_expr := Some e'\<rparr>)"
proof -
  obtain r d where "y = x\<lparr>resolving := r, x_expr := d\<rparr>" using assms(1) unfolding symx_le_def by metis
  then show ?thesis using assms by (simp add: symx_le_def)
qed

text \<open>Short-cutting a weak reference keeps the table closed.\<close>

lemma skip_weakref_working:
  assumes w: "working b s st" and a: "a < n_syms (sg b)" "s < n_syms (sg b)"
    and nc: "X_op (x_value b s) \<noteq> O_constant" and k: "skip_weakref s a v st = Inr (t, st')"
  shows "working b s st' \<and> resolving (sx st' s) = resolving (sx st s)"
proof (cases "S_IS_WEAKREFR st s \<and> S_IS_WEAKREFR st a")
  case False
  then show ?thesis using k w by (auto simp: skip_weakref_def gas_assert_def split: if_splits)
next
  case True
  let ?e = "(x_value st s)\<lparr>X_add_symbol := Some t\<rparr>"
  have t: "X_add_symbol (x_value st a) = Some t" and op: "X_op (x_value st a) = O_symbol"
    and st': "st' = upd_sx s (\<lambda>x. x\<lparr>x_expr := Some ?e\<rparr>) st"
    using k True by (auto simp: skip_weakref_def gas_assert_def split: if_splits)
  note kp = working_keeps [OF w]
  have n: "n_syms (sg st) = n_syms (sg b)" using kp(3) .
  have ws: "weakrefr (sx b s)" using True kp(4) by (simp add: S_IS_WEAKREFR_def)
  have cl: "closed_symtab st" using kp(2) .
  have tn: "t < n_syms (sg st)"
  proof -
    have "t \<in> operands_of (x_value st a)" using t by (simp add: operands_of_def)
    moreover have "operands_of (x_value st a) \<subseteq> {..<n_syms (sg st)}"
      using cl True a n by (simp add: closed_symtab_def S_IS_WEAKREFR_def)
    ultimately show ?thesis by auto
  qed
  have xs: "x_value st' q = (if q = s then ?e else x_value st q)" for q
    by (simp add: st' upd_sx_def x_value_def split: option.split)
  have eq: "sg st' = sg st" "finalize_syms st' = finalize_syms st" "is_local st' q = is_local st q"
    "resolved (sx st' q) = resolved (sx st q)" for q
    by (simp_all add: st' upd_sx_def is_local_def)
  have "closed_symtab st'"
    unfolding closed_symtab_def eq
  proof (intro conjI allI impI)
    show "\<not> finalize_syms st" using kp(1) .
    fix q assume q: "q < n_syms (sg st)"
    then show "\<not> resolved (sx st q)" using cl by (simp add: closed_symtab_def)
    assume "\<not> is_local st q"
    note q = q this
    have "operands_of ?e \<subseteq> insert t (operands_of (x_value st s))" by (auto simp: operands_of_def)
    moreover have "operands_of (x_value st q) \<subseteq> {..<n_syms (sg st)}" using cl q by (simp add: closed_symtab_def)
    ultimately show "operands_of (x_value st' q) \<subseteq> {..<n_syms (sg st)}" using tn xs [of q] by auto
  qed
  moreover have "evolves b (mark_off s st')"
  proof -
    have e: "evolves b (mark_off s st)" using w by (simp add: working_def)
    have "symx_le (sx b q) (sx (mark_off s st') q)" for q
    proof (cases "q = s")
      case True
      have le: "symx_le (sx b s) ((sx st s)\<lparr>resolving := False\<rparr>)"
        using e unfolding evolves_def by (metis mark_off_sx)
      have "x_expr (sx st s) = Some (x_value st s)"
        using nc kp(8) [of s] by (intro x_expr_Some) simp
      then have "symx_le (sx b s) ((sx st s)\<lparr>resolving := False\<rparr>\<lparr>x_expr := Some ?e\<rparr>)"
        using symx_le_expr [OF le ws, of "x_value st s" ?e] by simp
      moreover have "x\<lparr>resolving := False\<rparr>\<lparr>x_expr := e\<rparr> = x\<lparr>x_expr := e\<rparr>\<lparr>resolving := False\<rparr>" for x :: symx and e
        by (cases x) simp
      ultimately show ?thesis using True by (simp add: mark_off_sx st' upd_sx_def)
    next
      case False
      then have "sx (mark_off s st') q = sx (mark_off s st) q" by (simp add: mark_off_sx st' upd_sx_def)
      then show ?thesis using e unfolding evolves_def by metis
    qed
    then show ?thesis using e by (simp add: evolves_def eq)
  qed
  moreover have "resolving (sx st' s) = resolving (sx st s)" by (simp add: st' upd_sx_def)
  ultimately show ?thesis using kp(1) unfolding working_def eq by blast
qed

lemma symx_le_off: "symx_le x y \<Longrightarrow> symx_le (x\<lparr>resolving := False\<rparr>) (y\<lparr>resolving := False\<rparr>)"
proof -
  assume le: "symx_le x y"
  then obtain r e where "y = x\<lparr>resolving := r, x_expr := e\<rparr>" unfolding symx_le_def by metis
  then show ?thesis using le by (simp add: symx_le_def)
qed

lemma working_step:
  assumes "working b s st" "evolves st st'" "closed_symtab st'"
  shows "working b s st'"
proof -
  have "evolves (mark_off s st) (mark_off s st')"
    using assms(2) symx_le_off by (auto simp: evolves_def mark_off_sx)
  then show ?thesis
    using assms evolves_trans by (auto simp: working_def evolves_keeps)
qed

lemma working_mark_off:
  assumes "working b s st"
  shows "working b s (mark_off s st)" "\<not> resolving (sx (mark_off s st) s)"
proof -
  have "mark_off s (mark_off s st) = mark_off s st" by (simp add: mark_off_def upd_sx_def)
  then show "working b s (mark_off s st)" using assms by (simp add: working_def)
  show "\<not> resolving (sx (mark_off s st) s)" by (simp add: mark_off_sx)
qed

lemma do_symbol_working:
  assumes w: "working b s st" and a: "a < n_syms (sg b)" "s < n_syms (sg b)"
    and nc: "X_op (x_value b s) \<noteq> O_constant" and k: "do_symbol op s a left sl v seg st = Inr (oc, st')"
  shows "working b s st' \<and> mark_ok b s oc st'"
proof -
  obtain t st1 where t: "skip_weakref s a v st = Inr (t, st1)"
    using k unfolding do_symbol_def by (cases "skip_weakref s a v st") auto
  have w1: "working b s st1" using skip_weakref_working [OF w a nc t] by blast
  have nf: "\<not> finalize_syms st1" using w1 by (simp add: working_def)
  have "(oc, st') \<in> {(oc, st'). st' = st1 \<and> set_value oc} \<union> {(oc, st'). st' = mark_off s st1}"
    using k nf by (auto simp: do_symbol_def t Let_def mark_off_def split: if_splits)
  then show ?thesis using w1 working_mark_off [OF w1] by (auto simp: mark_ok_def)
qed

lemma after_unary_working:
  assumes "working b s st" "after_unary op s a left v seg st = Inr (oc, st')"
  shows "working b s st' \<and> mark_ok b s oc st'"
  using assms by (auto simp: after_unary_def mark_ok_def split: if_splits)

lemma general_binary_working:
  assumes "working b s st" "general_binary op s x y left right v seg st = Inr (oc, st')"
  shows "working b s st' \<and> mark_ok b s oc st'"
  using assms unfolding general_binary_def Let_def
  by (auto simp: mark_ok_def split: if_split_asm)

lemma after_binary_working:
  assumes w: "working b s st" and a: "x < n_syms (sg b)" "y < n_syms (sg b)" "s < n_syms (sg b)"
    and nc: "X_op (x_value b s) \<noteq> O_constant" and k: "after_binary op s x y left right v seg st = Inr (oc, st')"
  shows "working b s st' \<and> mark_ok b s oc st'"
  using k do_symbol_working [OF w a(1,3) nc] do_symbol_working [OF w a(2,3) nc] general_binary_working [OF w]
  unfolding after_binary_def Let_def by (auto split: if_split_asm)

lemma resolve_leaf_working:
  assumes w: "working b s st" and op: "op = X_op (x_value b s)" and k: "resolve_leaf op s v seg st = Inr (oc, st')"
  shows "working b s st' \<and> mark_ok b s oc st'"
proof -
  have "md_expr (sx b s)" if "op = O_md i" for i
    using x_expr_Some [of b s] that op by (auto simp: md_expr_def)
  then show ?thesis
    using k w unfolding resolve_leaf_def by (cases op) (auto simp: mark_ok_def)
qed

lemma working_start:
  assumes "closed_symtab st" "\<not> resolving (sx st s)"
  shows "working st s (upd_sx s (\<lambda>x. x\<lparr>resolving := True\<rparr>) st)"
proof -
  let ?st = "upd_sx s (\<lambda>x. x\<lparr>resolving := True\<rparr>) st"
  have "sx (mark_off s ?st) = sx st" using assms(2)
    by (cases "sx st s") (auto simp: fun_eq_iff mark_off_sx upd_sx_def)
  then have m: "mark_off s ?st = st" by (simp add: mark_off_def upd_sx_def)
  have "closed_symtab ?st" using assms(1) closed_mark_off [of s ?st] m by simp
  then show ?thesis using m by (simp add: working_def) (simp add: closed_symtab_def)
qed

section \<open>Resolving ends\<close>

text \<open>\<open>ends m Q\<close>: the computation comes to an end, with an error or with a result that satisfies \<open>Q\<close>.\<close>

definition ends :: "'a result option \<Rightarrow> ('a \<Rightarrow> bool) \<Rightarrow> bool" where
  "ends m Q \<longleftrightarrow> (\<exists>r. m = Some r \<and> (\<forall>a. r = Inr a \<longrightarrow> Q a))"

lemma bindOE_simps [simp]:
  "bindOE (Some (Inr a)) k = k a" "bindOE (Some (Inl e)) k = Some (Inl e)" "bindOE None k = None"
  by (simp_all add: bindOE_def)

lemma ends_Some: "(\<And>a. r = Inr a \<Longrightarrow> Q a) \<Longrightarrow> ends (Some r) Q"
  by (simp add: ends_def)

lemma ends_bind: "ends m P \<Longrightarrow> (\<And>a. P a \<Longrightarrow> ends (k a) Q) \<Longrightarrow> ends (bindOE m k) Q"
proof -
  assume m: "ends m P" and k: "\<And>a. P a \<Longrightarrow> ends (k a) Q"
  obtain r where r: "m = Some r" "\<And>a. r = Inr a \<Longrightarrow> P a" using m by (auto simp: ends_def)
  show ?thesis using r k by (cases r) (auto simp: ends_def)
qed

lemma ends_operand: "(\<And>a. p = Some a \<Longrightarrow> ends (k a) Q) \<Longrightarrow> ends (bindOE (operand p) k) Q"
  by (cases p) (auto simp: operand_def ends_def)

lemma ends_weaken: "ends m P \<Longrightarrow> (\<And>a. P a \<Longrightarrow> Q a) \<Longrightarrow> ends m Q"
  by (auto simp: ends_def)

definition unmarked :: "sym_st \<Rightarrow> symP set" where
  "unmarked st = {q. q < n_syms (sg st) \<and> \<not> resolving (sx st q)}"

lemma finite_unmarked [simp]: "finite (unmarked st)"
  by (simp add: unmarked_def)

lemma unmarked_evolves: "evolves st st' \<Longrightarrow> unmarked st' \<subseteq> unmarked st"
  using evolves_keeps(1) by (fastforce simp: unmarked_def evolves_def symx_le_def)

lemma unmarked_mark:
  assumes "s < n_syms (sg st)" "\<not> resolving (sx st s)" "evolves (upd_sx s (\<lambda>x. x\<lparr>resolving := True\<rparr>) st) st'"
  shows "card (unmarked st') < card (unmarked st)"
proof -
  let ?st = "upd_sx s (\<lambda>x. x\<lparr>resolving := True\<rparr>) st"
  have "unmarked ?st \<subset> unmarked st" using assms(1,2) by (auto simp: unmarked_def upd_sx_def)
  then have "unmarked st' \<subset> unmarked st" using unmarked_evolves [OF assms(3)] by blast
  then show ?thesis by (simp add: psubset_card_mono)
qed

lemma resolve_local_unfinal: "\<not> finalize_syms st \<Longrightarrow> snd (resolve_local s st) = st"
  by (simp add: resolve_local_def Let_def)

lemma operands_lt:
  assumes "closed_symtab st" "s < n_syms (sg st)" "\<not> is_local st s" "a \<in> operands_of (x_value st s)"
  shows "a < n_syms (sg st)"
  using assms by (auto simp: closed_symtab_def)

lemma finish_ends:
  assumes "working b s st \<and> mark_ok b s oc st"
  shows "ends (Some (finish_resolve s oc st)) (\<lambda>(v, st'). evolves b st' \<and> closed_symtab st')"
proof (rule ends_Some)
  fix r assume r: "finish_resolve s oc st = Inr r"
  obtain v st' where "r = (v, st')" by fastforce
  then show "case r of (v, st') \<Rightarrow> evolves b st' \<and> closed_symtab st'"
    using finish_resolve_evolves [of b s st oc v st'] r assms by simp
qed

lemma resolve_symbol_value_ends:
  assumes "closed_symtab st" "s < n_syms (sg st)"
  shows "ends (resolve_symbol_value st s) (\<lambda>(v, st'). evolves st st' \<and> closed_symtab st')"
  using assms
proof (induction "card (unmarked st)" arbitrary: st s rule: less_induct)
  case less
  note cl = less.prems(1) and sn = less.prems(2)
  have nf: "\<not> finalize_syms st" using cl by (simp add: closed_symtab_def)
  let ?Q = "\<lambda>(v :: u64, st'). evolves st st' \<and> closed_symtab st'"
  let ?e = "x_value st s" and ?st1 = "upd_sx s (\<lambda>x. x\<lparr>resolving := True\<rparr>) st"
  consider (loc) "is_local st s" | (res) "\<not> is_local st s" "resolving (sx st s)"
    | (go) "\<not> is_local st s" "\<not> resolving (sx st s)" by blast
  then show ?case
  proof cases
    case loc
    then show ?thesis
      using resolve_local_unfinal [OF nf, of s] cl
      by (subst resolve_symbol_value.simps) (auto simp: ends_def split: prod.splits)
  next
    case res
    moreover have "\<not> resolved (sx st s)" using cl sn res by (simp add: closed_symtab_def)
    moreover have "ends (Some (finish_resolve s \<lparr>set_value = False, final_val = 0, final_seg = seg_of st s, operands_resolved = True\<rparr> st)) ?Q"
    proof (rule ends_Some)
      fix r assume r: "finish_resolve s \<lparr>set_value = False, final_val = 0, final_seg = seg_of st s, operands_resolved = True\<rparr> st = Inr r"
      then obtain st' where "set_segment s (seg_of st s) st = Inr st'" "r = (0, st')"
        using nf by (auto simp: finish_resolve_def Let_def dest: set_segment_sx(3) split: if_splits)
      then show "?Q r" using set_segment_evolves cl by auto
    qed
    ultimately show ?thesis using nf by (subst resolve_symbol_value.simps) (simp add: Let_def)
  next
    case go
    have nr: "\<not> resolved (sx st s)" using cl sn go by (simp add: closed_symtab_def)
    have w1: "working st s ?st1" by (rule working_start [OF cl go(2)])
    have IH: "ends (resolve_symbol_value st2 a) (\<lambda>(v, st3). evolves ?st1 st3 \<and> working st s st3)"
      if w2: "working st s st2" "evolves ?st1 st2" and a: "a \<in> operands_of ?e" for st2 a
    proof (rule ends_weaken)
      have "closed_symtab st2" "n_syms (sg st2) = n_syms (sg st)" using working_keeps [OF w2(1)] by auto
      then show "ends (resolve_symbol_value st2 a) (\<lambda>(v, st3). evolves st2 st3 \<and> closed_symtab st3)"
        using less.hyps [OF unmarked_mark [OF sn go(2) w2(2)]] operands_lt [OF cl sn go(1) a] by simp
    qed (use w2 working_step evolves_trans in auto)
    let ?W = "\<lambda>(oc, st'). working st s st' \<and> mark_ok st s oc st'"
    have opn: "a \<in> operands_of ?e \<Longrightarrow> a < n_syms (sg st)" for a by (rule operands_lt [OF cl sn go(1)])
    have add: "X_add_symbol ?e = Some a \<Longrightarrow> a \<in> operands_of ?e" "X_op_symbol ?e = Some a \<Longrightarrow> a \<in> operands_of ?e" for a
      by (simp_all add: operands_of_def)
    define op where "op = X_op ?e"
    have nfw: "working st s st2 \<Longrightarrow> \<not> finalize_syms st2" for st2 by (simp add: working_def)
    have 1: "ends (bindOE (operand (X_add_symbol ?e)) (\<lambda>a. bindOE (resolve_symbol_value ?st1 a) (\<lambda>(left, st2).
        Some (do_symbol op s a left (seg_of st2 a) v seg
          (if finalize_syms st2 then upd_sx s (\<lambda>x. x\<lparr>x_expr := Some ((x_value st2 s)\<lparr>X_op_symbol := None\<rparr>)\<rparr>) st2 else st2))))) ?W"
      if "symbol_op op" for v seg
    proof -
      have nc: "X_op ?e \<noteq> O_constant" using that by (auto simp: op_def symbol_op_def)
      have ds: "ends (Some (do_symbol op s a left sl v seg st2)) ?W"
        if "working st s st2" "a < n_syms (sg st)" for a left sl st2
        by (rule ends_Some) (use do_symbol_working [OF that sn nc] in auto)
      show ?thesis
        by (rule ends_operand, rule ends_bind [OF IH [OF w1 evolves_refl]])
          (use add opn nfw ds in auto)
    qed
    have 2: "ends (bindOE (operand (X_add_symbol ?e)) (\<lambda>a. bindOE (resolve_symbol_value ?st1 a) (\<lambda>(left, st2).
        Some (after_unary op s a left v seg st2)))) ?W" for v seg
      by (rule ends_operand, rule ends_bind [OF IH [OF w1 evolves_refl]])
        (use add after_unary_working in \<open>auto intro!: ends_Some\<close>)
    have 3: "ends (bindOE (operand (X_add_symbol ?e)) (\<lambda>a. bindOE (resolve_symbol_value ?st1 a) (\<lambda>(left, st2).
        bindOE (operand (X_op_symbol ?e)) (\<lambda>b. bindOE (resolve_symbol_value st2 b) (\<lambda>(right, st3).
        Some (after_binary op s a b left right v seg st3)))))) ?W" if "binary_op op" for v seg
    proof -
      have nc: "X_op ?e \<noteq> O_constant" using that by (auto simp: op_def binary_op_def)
      have ab: "ends (Some (after_binary op s a b left right v seg st2)) ?W"
        if "working st s st2" "a < n_syms (sg st)" "b < n_syms (sg st)" for a b left right st2
        by (rule ends_Some) (use after_binary_working [OF that sn nc] in auto)
      show ?thesis
        apply (rule ends_operand, rule ends_bind [OF IH [OF w1 evolves_refl]])
         apply (simp add: add)
        apply (clarsimp, rule ends_operand, rule ends_bind [OF IH])
           apply (auto intro!: ab simp: add opn)
        done
    qed
    have 4: "ends (Some (resolve_leaf op s v seg ?st1)) ?W" for v seg
      by (rule ends_Some) (use resolve_leaf_working [OF w1 op_def] in auto)
    show ?thesis
      apply (subst resolve_symbol_value.simps)
      apply (simp add: go nr Let_def split del: if_split)
      apply (rule ends_bind [where P = ?W])
      subgoal using 1 2 3 4 unfolding op_def by presburger
      subgoal using finish_ends by auto
      done
  qed
qed

section \<open>The value of an expression\<close>

text \<open>The value a symbol stands for, by plain evaluation of the expressions down to depth \<open>n\<close>; no flag is
  consulted.  Equality tests, whose outcome depends on the segments, weak references, MRI common symbols
  and section symbols are left out.\<close>

definition op_value :: "operatorT \<Rightarrow> u64 \<Rightarrow> u64 \<Rightarrow> u64 option" where
  "op_value op x y = (if \<not> binary_op op \<or> op = O_eq \<or> op = O_ne then None
     else (case binary_value op op False x y of Inl _ \<Rightarrow> None | Inr w \<Rightarrow> Some w))"

definition has_value :: "sym_st \<Rightarrow> symP \<Rightarrow> bool" where
  "has_value st s \<longleftrightarrow> \<not> resolved (sx st s) \<and> (is_local st s \<or>
     \<not> weakrefr (sx st s) \<and> \<not> mri_common (sx st s) \<and> \<not> section_sym (syms (sg st) s))"

definition leaf_value :: "sym_st \<Rightarrow> symP \<Rightarrow> u64 option" where
  "leaf_value st s =
     (if is_local st s then Some (sy_value (syms (sg st) s) + frag_address st s)
      else if X_op (x_value st s) = O_absent then Some (frag_address st s)
      else if X_op (x_value st s) = O_constant then Some (X_add_number (x_value st s) + frag_address st s)
      else None)"

definition sem_step :: "sym_st \<Rightarrow> (symP \<Rightarrow> u64 option) \<Rightarrow> symP \<Rightarrow> u64 option" where
  "sem_step st f s =
     (let e = x_value st s; op = X_op e; v = X_add_number e + frag_address st s in
      if \<not> has_value st s then None
      else case leaf_value st s of Some x \<Rightarrow> Some x
      | None \<Rightarrow> Option.bind (X_add_symbol e) (\<lambda>a. Option.bind (f a) (\<lambda>x.
          if symbol_op op then Some (v + x)
          else if unary_op op then Some (v + apply_unary op x)
          else Option.bind (X_op_symbol e) (\<lambda>b. Option.bind (f b) (\<lambda>y.
               map_option (\<lambda>w. v + w) (op_value op x y))))))"

primrec sem :: "nat \<Rightarrow> sym_st \<Rightarrow> symP \<Rightarrow> u64 option" where
  "sem 0 st = (\<lambda>_. None)"
| "sem (Suc n) st = sem_step st (sem n st)"

lemma sem_step_Some:
  "sem_step st f s = Some v \<longleftrightarrow> has_value st s \<and> (leaf_value st s = Some v \<or> leaf_value st s = None
     \<and> (\<exists>a x. X_add_symbol (x_value st s) = Some a \<and> f a = Some x \<and>
        (if symbol_op (X_op (x_value st s)) then v = X_add_number (x_value st s) + frag_address st s + x
         else if unary_op (X_op (x_value st s))
         then v = X_add_number (x_value st s) + frag_address st s + apply_unary (X_op (x_value st s)) x
         else (\<exists>b y w. X_op_symbol (x_value st s) = Some b \<and> f b = Some y
                \<and> op_value (X_op (x_value st s)) x y = Some w
                \<and> v = X_add_number (x_value st s) + frag_address st s + w))))"
proof (cases "has_value st s")
  case True
  show ?thesis
  proof (cases "leaf_value st s")
    case None
    define e where "e = x_value st s"
    show ?thesis
      unfolding sem_step_def Let_def e_def [symmetric]
      by (cases "symbol_op (X_op e)"; cases "unary_op (X_op e)")
        (simp_all add: True None bind_eq_Some_conv, blast+)
  qed (simp add: sem_step_def True Let_def)
qed (simp add: sem_step_def)

lemma sem_step_mono:
  assumes f: "\<And>a x. f a = Some x \<Longrightarrow> g a = Some x" and s: "sem_step st f s = Some v"
  shows "sem_step st g s = Some v"
proof -
  define e where "e = x_value st s"
  show ?thesis
    using s f unfolding sem_step_Some e_def [symmetric]
    by (cases "symbol_op (X_op e)"; cases "unary_op (X_op e)") (simp_all, blast+)
qed

lemma sem_mono: "sem n st s = Some v \<Longrightarrow> sem (Suc n) st s = Some v"
proof (induction n arbitrary: s v)
  case (Suc n)
  have "sem_step st (sem n st) s = Some v" using Suc.prems by simp
  from sem_step_mono [of "sem n st" "sem (Suc n) st", OF Suc.IH this] show ?case
    by (simp only: sem.simps)
qed simp

lemma sem_depth:
  assumes "sem n st s = Some v" "n \<le> m"
  shows "sem m st s = Some v"
  using assms(2,1)
proof (induction rule: dec_induct)
  case (step i)
  then show ?case by (blast intro: sem_mono)
qed

text \<open>Evaluation depends only on what resolving keeps.\<close>

lemma sem_step_cong:
  assumes "\<And>q. is_local st' q = is_local st q" "\<And>q. resolved (sx st' q) = resolved (sx st q)"
    "\<And>q. weakrefr (sx st' q) = weakrefr (sx st q)" "\<And>q. mri_common (sx st' q) = mri_common (sx st q)"
    "\<And>q. section_sym (syms (sg st') q) = section_sym (syms (sg st) q)"
    "\<And>q. frag_address st' q = frag_address st q" "\<And>q. sy_value (syms (sg st') q) = sy_value (syms (sg st) q)"
    "\<And>q. \<not> weakrefr (sx st q) \<Longrightarrow> x_expr (sx st' q) = x_expr (sx st q)"
  shows "sem_step st' = sem_step st"
proof (intro ext)
  fix f s
  have h: "has_value st' s = has_value st s" using assms by (simp add: has_value_def)
  show "sem_step st' f s = sem_step st f s"
  proof (cases "weakrefr (sx st s) \<and> \<not> is_local st s")
    case True
    then show ?thesis using h by (simp add: sem_step_def has_value_def)
  next
    case False
    show ?thesis
    proof (cases "is_local st s")
      case True
      then show ?thesis using h assms(1,6,7) by (simp add: sem_step_def leaf_value_def Let_def)
    next
      case nl: False
      have "x_value st' s = x_value st s" using False nl assms by (simp add: x_value_def split: option.split)
      moreover have "leaf_value st' s = leaf_value st s" using calculation nl assms(1,6) by (simp add: leaf_value_def)
      ultimately show ?thesis using h assms(6) by (simp add: sem_step_def Let_def)
    qed
  qed
qed

lemma sem_cong: "sem_step st' = sem_step st \<Longrightarrow> sem n st' = sem n st"
  by (induction n) simp_all

lemma sem_evolves:
  assumes "evolves st st'"
  shows "sem n st' = sem n st"
proof (rule sem_cong, rule sem_step_cong)
  have g: "segs_only (sg st) (sg st')" using assms by (simp add: evolves_def)
  fix q
  show "section_sym (syms (sg st') q) = section_sym (syms (sg st) q)" "sy_value (syms (sg st') q) = sy_value (syms (sg st) q)"
    using segs_only_keeps [OF g] by simp_all
  show "\<not> weakrefr (sx st q) \<Longrightarrow> x_expr (sx st' q) = x_expr (sx st q)"
    using assms unfolding evolves_def symx_le_def by metis
qed (use evolves_keeps [OF assms] in simp_all)

lemma sem_mark: "sem n (upd_sx s (\<lambda>x. x\<lparr>resolving := b\<rparr>) st) = sem n st"
  by (rule sem_cong, rule sem_step_cong) (simp_all add: upd_sx_def is_local_def frag_address_def split: option.split)

text \<open>Without finalization, each part computes the value of its operator.\<close>

definition seg_frame :: "sym_st \<Rightarrow> sym_st \<Rightarrow> bool" where
  "seg_frame st st' \<longleftrightarrow> segs_only (sg st) (sg st') \<and> sx st' = sx st \<and> finalize_syms st' = finalize_syms st"

lemma seg_frame_evolves: "seg_frame st st' \<Longrightarrow> evolves st st'"
  by (simp add: seg_frame_def evolves_def)

lemma seg_frame_refl [simp]: "seg_frame st st"
  by (simp add: seg_frame_def)

lemma seg_frame_trans [trans]: "seg_frame a b \<Longrightarrow> seg_frame b c \<Longrightarrow> seg_frame a c"
  by (auto simp: seg_frame_def intro: segs_only_trans)

lemma seg_frame_x_value: "seg_frame st st' \<Longrightarrow> x_value st' q = x_value st q"
  using segs_only_keeps(8) by (auto simp: seg_frame_def x_value_def split: option.split)

definition computes :: "symP \<Rightarrow> sym_st \<Rightarrow> u64 \<Rightarrow> (outcome \<times> sym_st) result \<Rightarrow> bool" where
  "computes s st v r \<longleftrightarrow> (\<exists>oc st1. r = Inr (oc, st1) \<and> final_val oc = v
     \<and> (st1 = st \<and> set_value oc \<or> st1 = mark_off s st \<and> \<not> set_value oc))"

lemma do_symbol_computes:
  assumes "\<not> finalize_syms st" "\<not> weakrefr (sx st s)" "\<not> mri_common (sx st s)"
  shows "computes s st (v + frag_address st s + left) (do_symbol op s a left sl v seg st)"
proof -
  have "keeps_reloc st s sl seg \<longleftrightarrow> sl = undefined_section" using assms by (simp add: keeps_reloc_def)
  then show ?thesis
    using assms by (simp add: computes_def do_symbol_def skip_weakref_def S_IS_WEAKREFR_def Let_def mark_off_def)
qed

lemma after_unary_computes:
  "\<not> finalize_syms st \<Longrightarrow> computes s st (v + (apply_unary op x + frag_address st s)) (after_unary op s a x v seg st)"
  by (simp add: computes_def after_unary_def)

lemma binary_value_same:
  "binary_op op \<Longrightarrow> op \<noteq> O_eq \<Longrightarrow> op \<noteq> O_ne \<Longrightarrow> binary_value op op same x y = binary_value op op False x y"
  by (auto simp: binary_value_def apply_binary_def binary_op_def)

lemma general_binary_computes:
  assumes "\<not> finalize_syms st" "op_value op x y = Some w" "X_op (x_value st s) = op"
  shows "computes s st (v + (frag_address st s + w)) (general_binary op s a b x y v seg st)"
proof -
  have "binary_value op op same x y = Inr w" for same
    using assms(2) binary_value_same [of op same x y] by (auto simp: op_value_def split: if_splits sum.splits)
  then show ?thesis using assms by (simp add: computes_def general_binary_def Let_def)
qed

lemma op_value_add: "op_value O_add x y = Some (x + y)"
  by (simp add: op_value_def binary_op_def binary_value_def big_shift_def safe_divisor_def apply_binary_def)

lemma op_value_subtract: "op_value O_subtract x y = Some (x - y)"
  by (simp add: op_value_def binary_op_def binary_value_def big_shift_def safe_divisor_def apply_binary_def)

lemma after_binary_computes:
  assumes "\<not> finalize_syms st" "\<not> weakrefr (sx st s)" "\<not> mri_common (sx st s)"
    "op_value op x y = Some w" "X_op (x_value st s) = op"
  shows "computes s st (v + frag_address st s + w) (after_binary op s a b x y v seg st)"
proof -
  note d = do_symbol_computes [OF assms(1-3)]
  have 1: "v + y + frag_address st s + x = v + frag_address st s + w"
    "v + x + frag_address st s + y = v + frag_address st s + w" if "op = O_add"
    using assms(4) that by (auto simp: op_value_add algebra_simps)
  have 2: "v - y + frag_address st s + x = v + frag_address st s + w" if "op = O_subtract"
    using assms(4) that by (auto simp: op_value_subtract algebra_simps)
  let ?t = "v + frag_address st s + w"
  have 3: "computes s st ?t (do_symbol O_add s a x (seg_of st a) (v + y) seg st)"
    "computes s st ?t (do_symbol O_add s b y (seg_of st b) (v + x) seg st)" if "op = O_add"
    using d [of "v + y" x] d [of "v + x" y] 1 [OF that] by simp_all
  have 4: "computes s st ?t (do_symbol O_subtract s a x (seg_of st a) (v - y) seg st)" if "op = O_subtract"
    using d [of "v - y" x] 2 [OF that] by simp
  have 5: "computes s st ?t (general_binary op s a b x y v seg st)"
    using general_binary_computes [OF assms(1,4,5), of v a b seg] by (simp add: add.assoc)
  show ?thesis unfolding after_binary_def Let_def using 3 4 5 by auto
qed

lemma finish_computes:
  assumes "computes s st v r" "\<not> finalize_syms st" "\<not> section_sym (syms (sg st) s)"
  shows "\<exists>st'. bindOE (Some r) (\<lambda>(oc, st'). Some (finish_resolve s oc st')) = Some (Inr (v, st'))
    \<and> seg_frame (mark_off s st) st'"
proof -
  obtain oc st1 where oc: "r = Inr (oc, st1)" "final_val oc = v"
    "st1 = st \<and> set_value oc \<or> st1 = mark_off s st \<and> \<not> set_value oc"
    using assms(1) by (auto simp: computes_def)
  have "\<exists>y. S_SET_SEGMENT (final_seg oc) (syms (sg (mark_off s st)) s) = Inr y"
    using assms(3) by (simp add: S_SET_SEGMENT_def)
  then obtain st' where st': "set_segment s (final_seg oc) (mark_off s st) = Inr st'"
    by (auto simp: set_segment_def)
  note k = set_segment_sx [OF st']
  have "finish_resolve s oc st1 = Inr (v, st')"
    using oc(3)
  proof
    assume "st1 = st \<and> set_value oc"
    then show ?thesis using oc(2) st' k(3) assms(2) by (simp add: finish_resolve_def Let_def mark_off_def [symmetric])
  next
    assume "st1 = mark_off s st \<and> \<not> set_value oc"
    then show ?thesis using oc(2) st' k(3) assms(2) by (simp add: finish_resolve_def Let_def)
  qed
  then show ?thesis using oc(1) k by (simp add: seg_frame_def)
qed

lemma leaf_computes:
  assumes "leaf_value st s = Some v" "\<not> is_local st s" "frag_address st1 s = frag_address st s"
  shows "computes s st1 v (resolve_leaf (X_op (x_value st s)) s (X_add_number (x_value st s)) seg st1)"
  using assms by (auto simp: computes_def resolve_leaf_def leaf_value_def split: if_splits)

lemma leaf_op: "leaf_value st s = Some v \<Longrightarrow> \<not> is_local st s \<Longrightarrow>
  \<not> symbol_op (X_op (x_value st s)) \<and> \<not> unary_op (X_op (x_value st s)) \<and> \<not> binary_op (X_op (x_value st s))"
  by (auto simp: leaf_value_def symbol_op_def unary_op_def binary_op_def split: if_splits)

lemma mark_on_simps [simp]:
  "frag_address (upd_sx s (\<lambda>x. x\<lparr>resolving := b\<rparr>) st) q = frag_address st q"
  "x_value (upd_sx s (\<lambda>x. x\<lparr>resolving := b\<rparr>) st) q = x_value st q"
  by (simp_all add: upd_sx_def x_value_def frag_address_def split: option.split)

lemma finish_frame:
  assumes "\<not> resolving (sx st s)" "seg_frame (upd_sx s (\<lambda>x. x\<lparr>resolving := True\<rparr>) st) st1" "seg_frame (mark_off s st1) st'"
  shows "seg_frame st st'"
proof -
  have "sx (mark_off s st1) = sx st"
    using assms(1,2) by (cases "sx st s") (auto simp: seg_frame_def mark_off_sx upd_sx_def fun_eq_iff)
  then show ?thesis
    using assms(2,3) by (auto simp: seg_frame_def upd_sx_def intro: segs_only_trans)
qed

definition free_to_resolve :: "nat \<Rightarrow> sym_st \<Rightarrow> bool" where
  "free_to_resolve n st \<longleftrightarrow> \<not> finalize_syms st \<and> (\<forall>r. resolving (sx st r) \<longrightarrow> sem n st r = None)"

lemma free_Suc: "free_to_resolve (Suc n) st \<Longrightarrow> free_to_resolve n st"
  unfolding free_to_resolve_def by (metis not_None_eq option.distinct(1) sem_mono)

lemma free_mark:
  "free_to_resolve n st \<Longrightarrow> sem n st s = None \<Longrightarrow> free_to_resolve n (upd_sx s (\<lambda>x. x\<lparr>resolving := True\<rparr>) st)"
  unfolding free_to_resolve_def sem_mark by (auto simp: upd_sx_def)

lemma free_frame: "free_to_resolve n st \<Longrightarrow> seg_frame st st' \<Longrightarrow> free_to_resolve n st'"
  using sem_evolves [OF seg_frame_evolves] by (auto simp: free_to_resolve_def seg_frame_def)

lemma resolve_value:
  assumes "sem n st s = Some v" "free_to_resolve n st"
  shows "\<exists>st'. resolve_symbol_value st s = Some (Inr (v, st')) \<and> seg_frame st st'"
  using assms
proof (induction n arbitrary: st s v)
  case (Suc n)
  note fr = Suc.prems(2)
  have nf: "\<not> finalize_syms st" using fr by (simp add: free_to_resolve_def)
  show ?case
  proof (cases "sem n st s")
    case (Some w)
    then have "w = v" using sem_mono [OF Some] Suc.prems(1) by simp
    then show ?thesis using Suc.IH [OF Some free_Suc [OF fr]] by simp
  next
    case None
    let ?e = "x_value st s" and ?st1 = "upd_sx s (\<lambda>x. x\<lparr>resolving := True\<rparr>) st"
    have hv: "has_value st s" and step: "sem_step st (sem n st) s = Some v"
      using Suc.prems(1) by (auto simp: sem_step_Some)
    have ng: "\<not> resolving (sx st s)" using fr Suc.prems(1) by (force simp: free_to_resolve_def)
    show ?thesis
    proof (cases "is_local st s")
      case True
      then show ?thesis
        using step hv nf by (subst resolve_symbol_value.simps)
          (simp add: sem_step_Some leaf_value_def has_value_def resolve_local_def Let_def)
    next
      case nl: False
      have fl: "\<not> resolved (sx st s)" "\<not> weakrefr (sx st s)" "\<not> mri_common (sx st s)" "\<not> section_sym (syms (sg st) s)"
        using hv nl by (auto simp: has_value_def)
      have fr1: "free_to_resolve n ?st1" by (rule free_mark [OF free_Suc [OF fr] None])
      have IH: "\<exists>st3. resolve_symbol_value st2 a = Some (Inr (x, st3)) \<and> seg_frame ?st1 st3"
        if "sem n st a = Some x" "seg_frame ?st1 st2" for a x st2
      proof -
        have "sem n st2 a = Some x" using sem_evolves [OF seg_frame_evolves [OF that(2)]] that(1) by (simp add: sem_mark)
        then show ?thesis using Suc.IH free_frame [OF fr1 that(2)] seg_frame_trans [OF that(2)] by blast
      qed
      have fin: "\<exists>st'. bindOE (Some r) (\<lambda>(oc, st'). Some (finish_resolve s oc st')) = Some (Inr (v, st')) \<and> seg_frame st st'"
        if r: "computes s st2 v r" and st2: "seg_frame ?st1 st2" for r st2
      proof -
        have "\<not> finalize_syms st2" "\<not> section_sym (syms (sg st2) s)"
          using st2 nf fl(4) segs_only_keeps(11) by (auto simp: seg_frame_def upd_sx_def)
        then show ?thesis using finish_computes [OF r] finish_frame [OF ng st2] by blast
      qed
      have at: "\<not> finalize_syms st2" "\<not> weakrefr (sx st2 s)" "\<not> mri_common (sx st2 s)"
        "frag_address st2 s = frag_address st s" "x_value st2 s = ?e" if st2: "seg_frame ?st1 st2" for st2
      proof -
        show "frag_address st2 s = frag_address st s" "x_value st2 s = ?e"
          using evolves_keeps(3) [OF seg_frame_evolves [OF st2]] seg_frame_x_value [OF st2] by simp_all
        show "\<not> finalize_syms st2" "\<not> weakrefr (sx st2 s)" "\<not> mri_common (sx st2 s)"
          using st2 nf fl by (simp_all add: seg_frame_def upd_sx_def)
      qed
      let ?op = "X_op ?e" and ?v = "X_add_number ?e"
      have unf: "resolve_symbol_value st s = bindOE
            (if symbol_op ?op then
               bindOE (operand (X_add_symbol ?e)) (\<lambda>a.
               bindOE (resolve_symbol_value ?st1 a) (\<lambda>(left, st2).
               Some (do_symbol ?op s a left (seg_of st2 a) ?v (seg_of st s)
                 (if finalize_syms st2
                  then upd_sx s (\<lambda>x. x\<lparr>x_expr := Some ((x_value st2 s)\<lparr>X_op_symbol := None\<rparr>)\<rparr>) st2 else st2))))
             else if unary_op ?op then
               bindOE (operand (X_add_symbol ?e)) (\<lambda>a.
               bindOE (resolve_symbol_value ?st1 a) (\<lambda>(left, st2).
               Some (after_unary ?op s a left ?v (seg_of st s) st2)))
             else if binary_op ?op then
               bindOE (operand (X_add_symbol ?e)) (\<lambda>a.
               bindOE (resolve_symbol_value ?st1 a) (\<lambda>(left, st2).
               bindOE (operand (X_op_symbol ?e)) (\<lambda>b.
               bindOE (resolve_symbol_value st2 b) (\<lambda>(right, st3).
               Some (after_binary ?op s a b left right ?v (seg_of st s) st3)))))
             else Some (resolve_leaf ?op s ?v (seg_of st s) ?st1))
            (\<lambda>(oc, st'). Some (finish_resolve s oc st'))"
        by (subst resolve_symbol_value.simps) (simp add: nl fl ng Let_def split del: if_split)
      show ?thesis
      proof (cases "leaf_value st s")
        case (Some w)
        then have "w = v" using step by (simp add: sem_step_Some)
        then have "computes s ?st1 v (resolve_leaf ?op s ?v (seg_of st s) ?st1)"
          using leaf_computes [OF Some nl] at(4) by simp
        then show ?thesis using fin unf leaf_op [OF Some nl] by simp
      next
        case lf: None
        obtain a x where a: "X_add_symbol ?e = Some a" "sem n st a = Some x"
          and val: "if symbol_op ?op then v = ?v + frag_address st s + x
             else if unary_op ?op then v = ?v + frag_address st s + apply_unary ?op x
             else (\<exists>b y w. X_op_symbol ?e = Some b \<and> sem n st b = Some y \<and> op_value ?op x y = Some w
                \<and> v = ?v + frag_address st s + w)"
          using step lf unfolding sem_step_Some by auto
        obtain st2 where st2: "resolve_symbol_value ?st1 a = Some (Inr (x, st2))" "seg_frame ?st1 st2"
          using IH [OF a(2) seg_frame_refl] by blast
        note t2 = at [OF st2(2)]
        consider (sym) "symbol_op ?op" | (un) "\<not> symbol_op ?op" "unary_op ?op"
          | (bin) "\<not> symbol_op ?op" "\<not> unary_op ?op" by blast
        then show ?thesis
        proof cases
          case sym
          have "computes s st2 v (do_symbol ?op s a x (seg_of st2 a) ?v (seg_of st s) st2)"
            using do_symbol_computes [OF t2(1-3)] t2(4) val sym by simp
          from fin [OF this st2(2)] show ?thesis using unf sym a(1) st2(1) t2(1) by (simp add: operand_def)
        next
          case un
          have "computes s st2 v (after_unary ?op s a x ?v (seg_of st s) st2)"
            using after_unary_computes [OF t2(1), of s ?v ?op x a "seg_of st s"] t2(4) val un by (simp add: ac_simps)
          from fin [OF this st2(2)] show ?thesis using unf un a(1) st2(1) by (simp add: operand_def)
        next
          case bin
          then obtain b y w where b: "X_op_symbol ?e = Some b" "sem n st b = Some y" "op_value ?op x y = Some w"
            "v = ?v + frag_address st s + w" using val by auto
          have bo: "binary_op ?op" using b(3) by (auto simp: op_value_def split: if_splits)
          obtain st3 where st3: "resolve_symbol_value st2 b = Some (Inr (y, st3))" "seg_frame ?st1 st3"
            using IH [OF b(2) st2(2)] by blast
          note t3 = at [OF st3(2)]
          have "computes s st3 v (after_binary ?op s a b x y ?v (seg_of st s) st3)"
            using after_binary_computes [OF t3(1-3) b(3)] t3(4,5) b(4) by simp
          from fin [OF this st3(2)] show ?thesis using unf bin bo a(1) b(1) st2(1) st3(1) by (simp add: operand_def)
        qed
      qed
    qed
  qed
qed simp

section \<open>Properties\<close>

lemma S_GET_VALUE_unfinal:
  assumes "\<not> finalize_syms st" "\<not> resolved (sx st s)"
    and r: "resolve_symbol_value st s = Some (Inr (v, st'))" "finalize_syms st' = finalize_syms st"
  shows "S_GET_VALUE st s = Some (Inr (v, st'))"
  using assms by (subst S_GET_VALUE.simps) simp

lemma S_GET_VALUE_ends:
  assumes "closed_symtab st" "s < n_syms (sg st)"
  shows "ends (S_GET_VALUE st s) (\<lambda>(v, st'). evolves st st' \<and> closed_symtab st')"
proof (cases "is_local st s")
  case True
  then show ?thesis using resolve_symbol_value_ends [OF assms(1,2)] by (subst S_GET_VALUE.simps) simp
next
  case False
  then have nr: "\<not> resolved (sx st s)" using assms by (simp add: closed_symtab_def)
  have "ends (bindOE (resolve_symbol_value st s) (\<lambda>(v, st1). k v st1)) (\<lambda>(v, st'). evolves st st' \<and> closed_symtab st')"
    if "\<And>v st1. \<not> finalize_syms st1 \<Longrightarrow> k v st1 = Some (Inr (v, st1))" for k
    by (rule ends_bind [OF resolve_symbol_value_ends [OF assms(1,2)]])
      (auto intro!: ends_Some simp: that closed_symtab_def)
  then show ?thesis by (subst S_GET_VALUE.simps) (simp add: False nr Let_def)
qed

text \<open>A label, its difference to another label, and two symbols that are each defined as the other
  plus one.\<close>

definition plain_symx :: symx where
  "plain_symx = \<lparr>resolved = False, resolving = False, mri_common = False, weakrefr = False, shadow = False,
     bsf_global = False, bsf_weak = False, bsf_function = False, bsf_object = False, bsf_ifunc = False,
     hidden = False, x_expr = None\<rparr>"

definition demo_label :: "fragP \<Rightarrow> u64 \<Rightarrow> symbol" where
  "demo_label p v = (syms boot_gas 0)\<lparr>local_symbol := True, sy_frag := Some p, sy_seg := text_section, sy_value := v\<rparr>"

definition demo_exprs :: "symP \<Rightarrow> expressionS option" where
  "demo_exprs = (\<lambda>_. None)
     (2 \<mapsto> \<lparr>X_op = O_subtract, X_add_symbol = Some 1, X_op_symbol = Some 0, X_add_number = 0, X_unsigned = False\<rparr>,
      3 \<mapsto> \<lparr>X_op = O_symbol, X_add_symbol = Some 4, X_op_symbol = None, X_add_number = 1, X_unsigned = False\<rparr>,
      4 \<mapsto> \<lparr>X_op = O_symbol, X_add_symbol = Some 3, X_op_symbol = None, X_add_number = 1, X_unsigned = False\<rparr>)"

definition demo_symtab :: sym_st where
  "demo_symtab = \<lparr>sg = boot_gas\<lparr>n_syms := 5,
      syms := (\<lambda>_. (syms boot_gas 0)\<lparr>sy_seg := expr_section\<rparr>)(0 := demo_label 100 4, 1 := demo_label 200 0),
      frags := (\<lambda>_. zero_frag)(200 := zero_frag\<lparr>fr_address := 0x80\<rparr>)\<rparr>,
    sx = (\<lambda>s. plain_symx\<lparr>x_expr := demo_exprs s\<rparr>), finalize_syms = False\<rparr>"

lemma demo_symtab_closed: "closed_symtab demo_symtab"
proof -
  have "q < 5 \<longleftrightarrow> q = 0 \<or> q = 1 \<or> q = 2 \<or> q = 3 \<or> q = 4" for q :: nat by presburger
  then show ?thesis
    by (auto simp: closed_symtab_def demo_symtab_def is_local_def demo_label_def x_value_def demo_exprs_def
        plain_symx_def operands_of_def boot_gas_def)
qed

text \<open>C35: Before the symbols are finalized, taking the value of a symbol always comes to an end, whatever the
  expressions in the symbol table are - also when symbols are defined in terms of each other; it changes no
  frag, no octet and no value or expression of a symbol other than a weak reference.\<close>

theorem symbol_value_returns:
  assumes "closed_symtab st" "s < n_syms (sg st)"
  shows "\<exists>r. S_GET_VALUE st s = Some r \<and> (\<forall>v st'. r = Inr (v, st') \<longrightarrow>
           frags (sg st') = frags (sg st) \<and> mem (sg st') = mem (sg st) \<and> closed_symtab st'
           \<and> (\<forall>q. sy_value (syms (sg st') q) = sy_value (syms (sg st) q)
                  \<and> (weakrefr (sx st q) \<or> x_expr (sx st' q) = x_expr (sx st q))))"
proof -
  obtain r where r: "S_GET_VALUE st s = Some r" "\<And>v st'. r = Inr (v, st') \<Longrightarrow> evolves st st' \<and> closed_symtab st'"
    using S_GET_VALUE_ends [OF assms] by (auto simp: ends_def)
  have "frags (sg st') = frags (sg st) \<and> mem (sg st') = mem (sg st) \<and> closed_symtab st'
      \<and> (\<forall>q. sy_value (syms (sg st') q) = sy_value (syms (sg st) q)
             \<and> (weakrefr (sx st q) \<or> x_expr (sx st' q) = x_expr (sx st q)))" if "r = Inr (v, st')" for v st'
    using r(2) [OF that] segs_only_keeps [of "sg st" "sg st'"] by (auto simp: evolves_def symx_le_def)
  then show ?thesis using r(1) by blast
qed

theorem symbol_value_returns_witness:
  "\<exists>r. S_GET_VALUE demo_symtab 3 = Some r"
proof -
  have "3 < n_syms (sg demo_symtab)" by (simp add: demo_symtab_def)
  then show ?thesis using symbol_value_returns [OF demo_symtab_closed, of 3] by blast
qed


lemma demo_sem: "sem 2 demo_symtab 2 = Some 0x7c"
  by (simp add: numeral_2_eq_2 sem_step_def has_value_def leaf_value_def demo_symtab_def is_local_def demo_label_def x_value_def
      demo_exprs_def plain_symx_def boot_gas_def frag_address_def zero_frag_def symbol_op_def unary_op_def op_value_subtract Let_def)


end
