(* ===== verification/Relax.thy ===== *)
theory Relax
  imports Resolve Leb128
begin

text \<open>
  Relaxation (\<open>src/gas/write.c\<close>, \<open>src/gas/config/tc-i386.c\<close>): the addresses of the frags of a segment.
  A first guess gives every frag an address, then passes over the chain let jumps, alignment, LEB128
  numbers, \<open>.org\<close> and \<open>.space\<close> grow or shrink until a pass changes nothing; the number of passes is
  bounded by the square of the number of frags.
\<close>

section \<open>The relax table of the x86\<close>

record relax_typeS =
  rlx_forward :: int
  rlx_backward :: int
  rlx_length :: nat
  rlx_more :: nat

definition COND_JUMP86 :: u32 where "COND_JUMP86 = 2"
definition CODE16 :: u32 where "CODE16 = 1"
definition BIG :: u32 where "BIG = 2"

definition TYPE_FROM_RELAX_STATE :: "u32 \<Rightarrow> u32" where
  "TYPE_FROM_RELAX_STATE s = drop_bit 2 s"

definition DISP_SIZE_FROM_RELAX_STATE :: "u32 \<Rightarrow> nat" where
  "DISP_SIZE_FROM_RELAX_STATE s = (if s AND 3 = BIG then 4 else if s AND 3 = BIG OR CODE16 then 2 else 1)"

definition short_state :: "nat \<Rightarrow> relax_typeS" where
  "short_state next = \<lparr>rlx_forward = 127 + 1, rlx_backward = -128 + 1, rlx_length = 1, rlx_more = next\<rparr>"

definition long_state :: "nat \<Rightarrow> relax_typeS" where
  "long_state len = \<lparr>rlx_forward = 0, rlx_backward = 0, rlx_length = len, rlx_more = 0\<rparr>"

definition md_relax_table :: "relax_typeS list" where
  "md_relax_table =
    [short_state (unat (ENCODE_RELAX_STATE UNCOND_JUMP BIG)),
     short_state (unat (ENCODE_RELAX_STATE UNCOND_JUMP (BIG OR CODE16))),
     long_state 4,
     long_state 2,
     short_state (unat (ENCODE_RELAX_STATE COND_JUMP BIG)),
     short_state (unat (ENCODE_RELAX_STATE COND_JUMP (BIG OR CODE16))),
     long_state 5,
     long_state 3,
     short_state (unat (ENCODE_RELAX_STATE COND_JUMP86 BIG)),
     short_state (unat (ENCODE_RELAX_STATE COND_JUMP86 (BIG OR CODE16))),
     long_state 5,
     long_state 4]"

lemma md_relax_table_eq:
  "md_relax_table =
    [short_state 2, short_state 3, long_state 4, long_state 2,
     short_state 6, short_state 7, long_state 5, long_state 3,
     short_state 10, short_state 11, long_state 5, long_state 4]"
  by (simp add: md_relax_table_def ENCODE_RELAX_STATE_def UNCOND_JUMP_def COND_JUMP_def COND_JUMP86_def BIG_def CODE16_def)

lemma length_md_relax_table [simp]: "length md_relax_table = 12"
  by (simp add: md_relax_table_eq)

lemma all_states: "s < 12 \<longleftrightarrow> s \<in> set [0, 1, 2, 3, 4, 5, 6, 7, 8, 9, 10, 11]" for s :: nat
  by (auto simp: less_Suc_eq numeral_eq_Suc)

lemma relax_table_more:
  assumes "s < 12"
  shows "rlx_more (md_relax_table ! s) = 0 \<or> rlx_more (md_relax_table ! s) < 12
    \<and> rlx_more (md_relax_table ! rlx_more (md_relax_table ! s)) = 0"
  using assms unfolding all_states by (auto simp: md_relax_table_eq short_state_def long_state_def)

section \<open>One jump\<close>

text \<open>The scan of the table from a state, with the reach test given: to the first state that reaches,
  or to the last one.\<close>

function relax_scan :: "(relax_typeS \<Rightarrow> bool) \<Rightarrow> nat \<Rightarrow> nat" where
  "relax_scan reaches s =
     (if s < 12 \<and> rlx_more (md_relax_table ! s) \<noteq> 0 \<and> \<not> reaches (md_relax_table ! s)
      then relax_scan reaches (rlx_more (md_relax_table ! s)) else s)"
  by pat_completeness auto
termination
  by (relation "measure (\<lambda>(_, s). of_bool (s < 12 \<and> rlx_more (md_relax_table ! s) \<noteq> 0))")
    (use relax_table_more in \<open>fastforce+\<close>)

declare relax_scan.simps [simp del]

definition reaches :: "u64 \<Rightarrow> relax_typeS \<Rightarrow> bool" where
  "reaches aim t = (if sint aim < 0 then sint aim \<ge> rlx_backward t else sint aim \<le> rlx_forward t)"

text \<open>\<open>symbol_get_frag\<close>; \<open>zero_address_frag\<close> is all zeros.\<close>

definition sym_frag :: "sym_st \<Rightarrow> symP \<Rightarrow> frag" where
  "sym_frag st s = (case sy_frag (syms (sg st) s) of None \<Rightarrow> zero_frag | Some q \<Rightarrow> frags (sg st) q)"

definition upd_fr :: "fragP \<Rightarrow> (frag \<Rightarrow> frag) \<Rightarrow> sym_st \<Rightarrow> sym_st" where
  "upd_fr p f st = st\<lparr>sg := upd_frag p f (sg st)\<rparr>"

definition fr :: "sym_st \<Rightarrow> fragP \<Rightarrow> frag" where
  "fr st p = frags (sg st) p"

text \<open>The target of a jump as far as it is known in this pass; \<^term>\<open>None\<close> is the early return.\<close>

definition stretched_target :: "segT \<Rightarrow> fragP \<Rightarrow> u64 \<Rightarrow> symP \<Rightarrow> u64 \<Rightarrow> sym_st \<Rightarrow> u64 option" where
  "stretched_target segment p stretch s target st =
     (if stretch \<noteq> 0 \<and> relax_marker (sym_frag st s) \<noteq> relax_marker (fr st p) \<and> seg_of st s = segment
      then (if stretch <s 0 \<or> region (sym_frag st s) = region (fr st p) then Some (target + stretch)
            else if target < fr_address (fr st p) + fr_fix (fr st p) then None else Some target)
      else Some target)"

definition relax_frag_aim :: "fragP \<Rightarrow> u64 \<Rightarrow> sym_st \<Rightarrow> (u64 \<times> sym_st) result" where
  "relax_frag_aim p target st =
     (let f = fr st p; aim = target - (fr_address f + fr_fix f); s0 = unat (fr_subtype f) in
      if \<not> s0 < length md_relax_table then Inl Bad_index
      else (let s1 = relax_scan (reaches aim) s0;
                growth = word_of_int (int (rlx_length (md_relax_table ! s1)) - int (rlx_length (md_relax_table ! s0))) in
            Inr (growth, if growth \<noteq> 0 then upd_fr p (\<lambda>f. f\<lparr>fr_subtype := word_of_nat s1\<rparr>) st else st)))"

definition relax_frag :: "segT \<Rightarrow> fragP \<Rightarrow> u64 \<Rightarrow> sym_st \<Rightarrow> (u64 \<times> sym_st) result option" where
  "relax_frag segment p stretch st =
     (case fr_symbol (fr st p) of
        None \<Rightarrow> Some (relax_frag_aim p (fr_offset (fr st p)) st)
      | Some s \<Rightarrow> bindOE (S_GET_VALUE st s) (\<lambda>(v, st1).
          case stretched_target segment p stretch s (fr_offset (fr st p) + v) st1 of
            None \<Rightarrow> Some (Inr (0, st1))
          | Some target \<Rightarrow> Some (relax_frag_aim p target st1)))"

section \<open>Jumps whose target the linker sets\<close>

record relax_opts =
  shared :: bool
  no_cond_jump_promotion :: bool

partial_function (option) S_IS_WEAK :: "sym_st \<Rightarrow> symP \<Rightarrow> bool result option" where
  "S_IS_WEAK st s =
     (if is_local st s then Some (Inr False)
      else if S_IS_WEAKREFR st s then bindOE (operand (X_add_symbol (x_value st s))) (\<lambda>t. S_IS_WEAK st t)
      else Some (Inr (bsf_weak (sx st s))))"

definition S_IS_EXTERNAL :: "sym_st \<Rightarrow> symP \<Rightarrow> bool" where
  "S_IS_EXTERNAL st s \<longleftrightarrow> \<not> is_local st s \<and> bsf_global (sx st s)"

text \<open>\<open>fr_var\<close> of a jump is a relocation, 0 for none; the code of \<open>BFD_RELOC_X86_64_PLT32\<close> is written 4.\<close>

definition reloc_of_var :: "u64 \<Rightarrow> reloc_code" where
  "reloc_of_var v = (if v = 0 then NO_RELOC else Other_reloc (unat v))"

definition elf_symbol_resolved_in_segment_p ::
  "relax_opts \<Rightarrow> symP \<Rightarrow> u64 \<Rightarrow> sym_st \<Rightarrow> (bool \<times> sym_st) result option" where
  "elf_symbol_resolved_in_segment_p opts s var st0 =
     bindOE (Some (convert_if_local s st0)) (\<lambda>st.
     if bsf_ifunc (sx st s) then Some (Inr (False, st))
     else if \<not> S_IS_EXTERNAL st s then bindOE (S_IS_WEAK st s) (\<lambda>w. Some (Inr (\<not> w, st)))
     else if hidden (sx st s) then Some (Inr (True, st))
     else if reloc_of_var var = BFD_RELOC_X86_64_PLT32 then Some (Inr (False, st))
     else if reloc_of_var var \<noteq> NO_RELOC then Some (Inl Abort)
     else Some (Inr (\<not> shared opts, st)))"

definition need_plt32_p :: "symP \<Rightarrow> sym_st \<Rightarrow> bool result option" where
  "need_plt32_p s st = bindOE (S_IS_WEAK st s) (\<lambda>w. Some (Inr (w \<or> \<not> S_IS_DEFINED st s \<or> S_IS_EXTERNAL st s)))"

text \<open>\<open>fr_opcode\<close> of a jump frag points to the opcode, the last octet of the fixed part
  (\<open>output_branch\<close>).\<close>

definition fr_opcode :: "target \<Rightarrow> gas \<Rightarrow> fragP \<Rightarrow> nat" where
  "fr_opcode tg g p = p + sizeof_struct_frag tg + unat (fr_fix (frags g p)) - 1"

text \<open>The octets and the fixup of a jump that is left to the linker, by kind of jump.  The flag
  \<open>fx_signed\<close> is not part of the model's fixups.\<close>

definition far_fixup :: "fragP \<Rightarrow> symP \<Rightarrow> u64 \<Rightarrow> u64 \<Rightarrow> u64 \<Rightarrow> reloc_code \<Rightarrow> gas \<Rightarrow> gas result" where
  "far_fixup p s n wh sz r g =
     (let f = frags g p in
      bindE (fix_new p wh sz (Some s) (fr_offset f) True r (upd_frag p (\<lambda>f. f\<lparr>fr_fix := fr_fix f + n\<rparr>) g)) (\<lambda>(_, g').
      Inr g'))"

definition emit_far_jump :: "target \<Rightarrow> relax_opts \<Rightarrow> fragP \<Rightarrow> symP \<Rightarrow> nat \<Rightarrow> reloc_code \<Rightarrow> gas \<Rightarrow> gas result" where
  "emit_far_jump tg opts p s sz reloc_type g =
     (let f = frags g p; old_fr_fix = fr_fix f; op = fr_opcode tg g p; type = TYPE_FROM_RELAX_STATE (fr_subtype f) in
      if type = UNCOND_JUMP then
        far_fixup p s (word_of_nat sz) old_fr_fix (word_of_nat sz) reloc_type (poke_list op [0xe9] g)
      else if type = COND_JUMP86 \<and> sz = 2 \<and> (\<not> no_cond_jump_promotion opts \<or> fr_var f \<noteq> 0) then
        far_fixup p s (2 + 2) (old_fr_fix + 2) 2 reloc_type (poke_list op [mem g op XOR 1, 3, 0xe9] g)
      else if type = COND_JUMP86 \<or> type = COND_JUMP then
        (if no_cond_jump_promotion opts \<and> fr_var f = 0 then far_fixup p s 1 old_fr_fix 1 BFD_RELOC_8_PCREL g
         else far_fixup p s (1 + word_of_nat sz) (old_fr_fix + 1) (word_of_nat sz) reloc_type
                (poke_list op [0x0f, mem g op + 0x10] g))
      else Inl As_fatal)"

definition far_reloc :: "nat \<Rightarrow> frag \<Rightarrow> symP \<Rightarrow> sym_st \<Rightarrow> reloc_code result option" where
  "far_reloc sz f s st =
     (if fr_var f \<noteq> 0 then Some (Inr (reloc_of_var (fr_var f)))
      else if sz = 2 then Some (Inr BFD_RELOC_16_PCREL)
      else if fr_offset f = 0
      then bindOE (need_plt32_p s st) (\<lambda>b. Some (Inr (if b then BFD_RELOC_X86_64_PLT32 else BFD_RELOC_32_PCREL)))
      else Some (Inr BFD_RELOC_32_PCREL))"

text \<open>The guess for a jump: the length of its state, or, where the symbol is not in this segment or may be
  replaced by the linker, the length of the far jump it is turned into.\<close>

definition md_estimate_size_before_relax ::
  "target \<Rightarrow> relax_opts \<Rightarrow> segT \<Rightarrow> fragP \<Rightarrow> sym_st \<Rightarrow> (u64 \<times> sym_st) result option" where
  "md_estimate_size_before_relax tg opts segment p st =
     bindOE (operand (fr_symbol (fr st p))) (\<lambda>s.
     bindOE (if seg_of st s \<noteq> segment then Some (Inr (False, st))
             else elf_symbol_resolved_in_segment_p opts s (fr_var (fr st p)) st) (\<lambda>(here, st1).
     let f = fr st1 p in
     if \<not> here then
       (let sz = (if fr_subtype f AND CODE16 \<noteq> 0 then 2 else 4) in
        bindOE (far_reloc sz f s st1) (\<lambda>r.
        bindOE (Some (emit_far_jump tg opts p s sz r (sg st1))) (\<lambda>g.
        let st2 = st1\<lparr>sg := frag_wane p g\<rparr> in
        Some (Inr (fr_fix (fr st2 p) - fr_fix f, st2)))))
     else if unat (fr_subtype f) < length md_relax_table
     then Some (Inr (word_of_nat (rlx_length (md_relax_table ! unat (fr_subtype f))), st1))
     else Some (Inl Bad_index)))"

section \<open>Alignment\<close>

definition relax_align :: "u64 \<Rightarrow> nat \<Rightarrow> u64" where
  "relax_align address alignment =
     (let mask = NOT (push_bit alignment (NOT 0));
          new_address = (address + mask) AND NOT mask
      in new_address - address)"

lemma align_mask: "NOT (push_bit n (NOT (0 :: u64))) = mask n"
  by (simp add: mask_eq_exp_minus_1 push_bit_eq_mult not_eq_complement algebra_simps)

lemma and_not_mask: "x AND NOT (mask n) = x - take_bit n (x :: u64)"
proof -
  have "x = push_bit n (drop_bit n x) + take_bit n x" by (simp add: bits_ident)
  moreover have "x AND NOT (mask n) = push_bit n (drop_bit n x)"
    by (rule bit_eqI) (auto simp: bit_simps)
  ultimately show ?thesis by (metis add_diff_cancel_right')
qed

lemma relax_align_eq: "relax_align a n = mask n - take_bit n (a + mask n)"
  by (simp add: relax_align_def align_mask and_not_mask Let_def)

lemma relax_align_le: "relax_align a n \<le> mask n"
proof -
  have "take_bit n (a + mask n) \<le> mask n" by (metis take_bit_eq_mask word_and_le1)
  then show ?thesis unfolding relax_align_eq by (simp add: word_sub_le)
qed

lemma relax_align_aligns: "take_bit n (a + relax_align a n) = 0"
proof -
  have "a + relax_align a n = (a + mask n) - take_bit n (a + mask n)" by (simp add: relax_align_eq)
  then have "a + relax_align a n = (a + mask n) AND NOT (mask n)" by (simp add: and_not_mask)
  then show ?thesis by (auto simp: bit_simps intro!: bit_eqI)
qed

definition align_power :: "frag \<Rightarrow> nat" where
  "align_power f = unat (ucast (fr_offset f) :: u32)"

text \<open>The padding of an alignment frag whose variable part starts at an address: none when it would be
  longer than the limit the frag carries.\<close>

definition padding :: "frag \<Rightarrow> u64 \<Rightarrow> u64" where
  "padding f address =
     (let off = relax_align address (align_power f)
      in if fr_subtype f \<noteq> 0 \<and> off > ucast (fr_subtype f) then 0 else off)"

definition is_align :: "relax_stateT \<Rightarrow> bool" where
  "is_align t \<longleftrightarrow> t \<in> {rs_align, rs_align_code, rs_align_test}"

section \<open>The first guess\<close>

record guess =
  gx :: sym_st
  g_address :: u64
  g_region :: u16
  g_count :: nat

definition guess_size :: "target \<Rightarrow> relax_opts \<Rightarrow> segT \<Rightarrow> fragP \<Rightarrow> u64 \<Rightarrow> sym_st \<Rightarrow> (u64 \<times> sym_st) result option" where
  "guess_size tg opts segment p address st =
     (let f = fr st p in
      case fr_type f of
        rs_fill \<Rightarrow> Some (Inr (fr_offset f * fr_var f, st))
      | rs_org \<Rightarrow> Some (Inr (0, st))
      | rs_space \<Rightarrow> Some (Inr (0, st))
      | rs_space_nop \<Rightarrow> Some (Inr (0, st))
      | rs_machine_dependent \<Rightarrow>
          bindOE (case fr_symbol f of None \<Rightarrow> Some (Inr st)
                  | Some s \<Rightarrow> bindOE (resolve_symbol_value st s) (\<lambda>(_, st1). Some (Inr st1)))
            (md_estimate_size_before_relax tg opts segment p)
      | rs_leb128 \<Rightarrow> Some (Inr (1, upd_fr p (\<lambda>f. f\<lparr>fr_offset := 1\<rparr>) st))
      | rs_cfa \<Rightarrow> Some (Inl Debug_frag)
      | rs_dwarf2dbg \<Rightarrow> Some (Inl Debug_frag)
      | rs_sframe \<Rightarrow> Some (Inl Debug_frag)
      | rs_dummy \<Rightarrow> Some (Inl As_fatal)
      | rs_fill_nop \<Rightarrow> Some (Inl As_fatal)
      | _ \<Rightarrow> (let off = padding f address in
             if fr_var f = 0 then Some (Inl Abort)
             else if off mod fr_var f \<noteq> 0 then Some (Inl As_bad) else Some (Inr (off, st))))"

definition new_region :: "relax_stateT \<Rightarrow> u16" where
  "new_region t = of_bool (is_align t \<or> t = rs_org)"

definition guess_one :: "target \<Rightarrow> relax_opts \<Rightarrow> segT \<Rightarrow> fragP \<Rightarrow> guess \<Rightarrow> guess result option" where
  "guess_one tg opts segment p h =
     (let st = upd_fr p (\<lambda>f. f\<lparr>region := g_region h, relax_marker := False, fr_address := g_address h\<rparr>) (gx h);
          f = fr st p; address = g_address h + fr_fix f in
      bindOE (guess_size tg opts segment p address st) (\<lambda>(sz, st1).
      Some (Inr \<lparr>gx = st1, g_address = address + sz, g_region = g_region h + new_region (fr_type f),
                 g_count = g_count h + 1\<rparr>)))"

partial_function (option) first_guess ::
  "target \<Rightarrow> relax_opts \<Rightarrow> segT \<Rightarrow> fragP option \<Rightarrow> guess \<Rightarrow> guess result option" where
  "first_guess tg opts segment fp h = (case fp of None \<Rightarrow> Some (Inr h)
     | Some p \<Rightarrow> bindOE (guess_one tg opts segment p h) (\<lambda>h1.
         first_guess tg opts segment (fr_next (fr (gx h1) p)) h1))"

section \<open>A pass\<close>

text \<open>\<open>ret\<close> asks for another round over all segments; \<open>fudge\<close> is the state machine against a LEB128 number
  and an alignment that chase each other.\<close>

record relax_st =
  rx :: sym_st
  stretch :: u64
  stretched :: bool
  fudge :: u32
  ret :: bool

text \<open>The extra frag behind an alignment frag: as long as the alignment, allocated in the obstack of the
  segment's first chain.\<close>

definition fudge_frag :: "frag \<Rightarrow> u64 \<Rightarrow> frag" where
  "fudge_frag f address =
     (let n = push_bit (unat (fr_offset f)) 1;
          q = c_div n (fr_var f);
          exact = (q * fr_var f = n)
      in f\<lparr>fr_type := rs_fill, fr_address := address, fr_fix := 0,
           fr_offset := (if exact then q else n), fr_var := (if exact then fr_var f else 1)\<rparr>)"

definition insert_fudge :: "target \<Rightarrow> segT \<Rightarrow> fragP \<Rightarrow> u64 \<Rightarrow> u64 \<Rightarrow> u64 \<Rightarrow> sym_st \<Rightarrow> (u64 \<times> sym_st) result" where
  "insert_fudge tg segment p str newoff growth st =
     deref (seg_info (sg st) segment) (\<lambda>si.
     case frchainP si of [] \<Rightarrow> Inl Null_deref
     | fc # fcs \<Rightarrow>
        (let f = fr st p in
         if fr_var f = 0 then Inl Abort else
         bindE (frag_alloc tg (frch_obstack fc) (unat (fr_var f)) (sg st)) (\<lambda>(newp, ob', g1).
         let g2 = g1\<lparr>seg_info := (seg_info g1)(segment \<mapsto> si\<lparr>frchainP := fc\<lparr>frch_obstack := ob'\<rparr> # fcs\<rparr>)\<rparr>;
             g3 = poke_list (newp + sizeof_struct_frag tg)
                    (map (mem g2) [p + sizeof_struct_frag tg + unat (fr_fix f) ..< p + sizeof_struct_frag tg + unat (fr_fix f) + unat (fr_var f)]) g2;
             nf = fudge_frag f (fr_address f + fr_fix f + newoff);
             growth' = growth + fr_offset nf * fr_var nf;
             nf' = nf\<lparr>fr_address := fr_address nf - (str + growth'), relax_marker := \<not> relax_marker nf\<rparr> in
         Inr (growth', st\<lparr>sg := upd_frag p (\<lambda>f. f\<lparr>fr_next := Some newp\<rparr>) (upd_frag newp (\<lambda>_. nf') g3)\<rparr>))))"

definition bouncing :: "u32 \<Rightarrow> bool" where
  "bouncing w \<longleftrightarrow> w AND 16 \<noteq> 0 \<and> w AND 15 \<ge> 2"

definition relax_align_frag :: "target \<Rightarrow> segT \<Rightarrow> fragP \<Rightarrow> u64 \<Rightarrow> relax_st \<Rightarrow> (u64 \<times> relax_st) result" where
  "relax_align_frag tg segment p was_address r =
     (let f = fr (rx r) p;
          oldoff = padding f (was_address + fr_fix f);
          newoff = padding f (fr_address f + fr_fix f);
          growth = newoff - oldoff in
      if growth <s 0 \<and> bouncing (fudge r)
      then bindE (insert_fudge tg segment p (stretch r) newoff growth (rx r)) (\<lambda>(growth', st).
             Inr (growth', r\<lparr>rx := st\<rparr>))
      else Inr (growth, r))"

definition sym_value :: "sym_st \<Rightarrow> symP option \<Rightarrow> (u64 \<times> sym_st) result option" where
  "sym_value st s = (case s of None \<Rightarrow> Some (Inr (0, st)) | Some s \<Rightarrow> S_GET_VALUE st s)"

definition relax_org :: "nat \<Rightarrow> fragP \<Rightarrow> relax_st \<Rightarrow> (u64 \<times> relax_st) result option" where
  "relax_org pass p r =
     bindOE (sym_value (rx r) (fr_symbol (fr (rx r) p))) (\<lambda>(v, st).
     let f = fr st p; target = fr_offset f + v in
     bindOE (operand (fr_next f)) (\<lambda>q.
     let after = fr_address (fr st q) + stretch r in
     if target <s fr_address f + fr_fix f
     then (if pass < 2 then Some (Inr (0, r\<lparr>rx := st, ret := True\<rparr>)) else Some (Inl As_bad))
     else Some (Inr (target - after, r\<lparr>rx := st\<rparr>))))"

text \<open>With a negative amount the directive is ignored from the third round on.\<close>

definition relax_space :: "nat \<Rightarrow> fragP \<Rightarrow> u64 \<Rightarrow> relax_st \<Rightarrow> (u64 \<times> relax_st) result option" where
  "relax_space pass p was_address r =
     (case fr_symbol (fr (rx r) p) of None \<Rightarrow> Some (Inr (0, r))
      | Some s \<Rightarrow> bindOE (S_GET_VALUE (rx r) s) (\<lambda>(amount, st).
          let f = fr st p in
          if seg_of st s \<noteq> absolute_section then Some (Inl As_bad)
          else if amount <s 0
          then (if pass < 2 then Some (Inr (0, r\<lparr>rx := st, ret := True\<rparr>))
                else Some (Inr (0, r\<lparr>rx := upd_fr p (\<lambda>f. f\<lparr>fr_symbol := None\<rparr>) st\<rparr>)))
          else bindOE (operand (fr_next f)) (\<lambda>q.
               Some (Inr (was_address + fr_fix f + amount - fr_address (fr st q), r\<lparr>rx := st\<rparr>)))))"

definition relax_leb128 :: "fragP \<Rightarrow> relax_st \<Rightarrow> (u64 \<times> relax_st) result option" where
  "relax_leb128 p r =
     bindOE (operand (fr_symbol (fr (rx r) p))) (\<lambda>s.
     bindOE (resolve_symbol_value (rx r) s) (\<lambda>(v, st).
     let f = fr st p; sz = word_of_nat (sizeof_leb128 v (fr_subtype f \<noteq> 0)) in
     Some (Inr (sz - fr_offset f, r\<lparr>rx := upd_fr p (\<lambda>f. f\<lparr>fr_offset := sz\<rparr>) st\<rparr>))))"

definition frag_growth :: "target \<Rightarrow> segT \<Rightarrow> nat \<Rightarrow> fragP \<Rightarrow> u64 \<Rightarrow> relax_st \<Rightarrow> (u64 \<times> relax_st) result option" where
  "frag_growth tg segment pass p was_address r =
     (case fr_type (fr (rx r) p) of
        rs_fill \<Rightarrow> Some (Inr (0, r))
      | rs_org \<Rightarrow> relax_org pass p r
      | rs_space \<Rightarrow> relax_space pass p was_address r
      | rs_space_nop \<Rightarrow> relax_space pass p was_address r
      | rs_machine_dependent \<Rightarrow> bindOE (relax_frag segment p (stretch r) (rx r)) (\<lambda>(n, st). Some (Inr (n, r\<lparr>rx := st\<rparr>)))
      | rs_leb128 \<Rightarrow> relax_leb128 p r
      | rs_cfa \<Rightarrow> Some (Inl Debug_frag)
      | rs_dwarf2dbg \<Rightarrow> Some (Inl Debug_frag)
      | rs_sframe \<Rightarrow> Some (Inl Debug_frag)
      | rs_dummy \<Rightarrow> Some (Inl As_fatal)
      | rs_fill_nop \<Rightarrow> Some (Inl As_fatal)
      | _ \<Rightarrow> Some (relax_align_frag tg segment p was_address r))"

definition next_fudge :: "relax_stateT \<Rightarrow> u64 \<Rightarrow> u32 \<Rightarrow> u32" where
  "next_fudge t str w = (if t = rs_leb128 then w + 16 else if t = rs_align \<and> w AND 16 \<noteq> 0 \<and> str = 0 then w + 16 else 0)"

definition relax_one :: "target \<Rightarrow> segT \<Rightarrow> nat \<Rightarrow> fragP \<Rightarrow> relax_st \<Rightarrow> relax_st result option" where
  "relax_one tg segment pass p r =
     (let was_address = fr_address (fr (rx r) p);
          r1 = r\<lparr>rx := upd_fr p (\<lambda>f. f\<lparr>relax_marker := \<not> relax_marker f, fr_address := fr_address f + stretch r\<rparr>) (rx r)\<rparr> in
      bindOE (frag_growth tg segment pass p was_address r1) (\<lambda>(growth, r2).
      if growth = 0 then Some (Inr r2)
      else (let str = stretch r2 + growth in
            Some (Inr (r2\<lparr>stretch := str, stretched := True,
                          fudge := next_fudge (fr_type (fr (rx r2) p)) str (fudge r2)\<rparr>)))))"

partial_function (option) relax_pass ::
  "target \<Rightarrow> segT \<Rightarrow> nat \<Rightarrow> fragP option \<Rightarrow> relax_st \<Rightarrow> relax_st result option" where
  "relax_pass tg segment pass fp r = (case fp of None \<Rightarrow> Some (Inr r)
     | Some p \<Rightarrow> bindOE (relax_one tg segment pass p r) (\<lambda>r1.
         relax_pass tg segment pass (fr_next (fr (rx r1) p)) r1))"

section \<open>All passes\<close>

definition fudge_after :: "relax_st \<Rightarrow> u32" where
  "fudge_after r = (if stretch r = 0 \<and> fudge r AND 16 = 0 \<and> fudge r AND NOT 15 \<noteq> 0 then fudge r + 1 else 0)"

definition relax_round :: "target \<Rightarrow> segT \<Rightarrow> nat \<Rightarrow> fragP option \<Rightarrow> relax_st \<Rightarrow> relax_st result option" where
  "relax_round tg segment pass root r =
     bindOE (relax_pass tg segment pass root (r\<lparr>stretch := 0, stretched := False\<rparr>)) (\<lambda>r1.
     Some (Inr (r1\<lparr>fudge := fudge_after r1\<rparr>)))"

text \<open>\<open>do ... while (stretched && -- max_iterations)\<close>, with one less than \<open>max_iterations\<close> as argument.\<close>

primrec relax_loop :: "nat \<Rightarrow> target \<Rightarrow> segT \<Rightarrow> nat \<Rightarrow> fragP option \<Rightarrow> relax_st \<Rightarrow> relax_st result option" where
  "relax_loop 0 tg segment pass root r = bindOE (relax_round tg segment pass root r) (\<lambda>r1.
     if stretched r1 then Some (Inl As_fatal) else Some (Inr r1))"
| "relax_loop (Suc n) tg segment pass root r = bindOE (relax_round tg segment pass root r) (\<lambda>r1.
     if stretched r1 then relax_loop n tg segment pass root r1 else Some (Inr r1))"

definition max_iterations :: "nat \<Rightarrow> nat" where
  "max_iterations frag_count =
     (let n = word_of_nat frag_count :: u64; m = n * n in unat (if m < n then n else m))"

partial_function (option) note_addresses :: "fragP option \<Rightarrow> bool \<Rightarrow> sym_st \<Rightarrow> (bool \<times> sym_st) result option" where
  "note_addresses fp b st = (case fp of None \<Rightarrow> Some (Inr (b, st))
     | Some p \<Rightarrow> (let f = fr st p in
         if last_fr_address f \<noteq> fr_address f
         then (let st1 = upd_fr p (\<lambda>f. f\<lparr>last_fr_address := fr_address f\<rparr>) st
               in note_addresses (fr_next (fr st1 p)) True st1)
         else note_addresses (fr_next f) b st))"

definition relax_segment ::
  "target \<Rightarrow> relax_opts \<Rightarrow> fragP option \<Rightarrow> segT \<Rightarrow> nat \<Rightarrow> sym_st \<Rightarrow> (bool \<times> sym_st) result option" where
  "relax_segment tg opts root segment pass st =
     bindOE (first_guess tg opts segment root
        \<lparr>gx = st\<lparr>sg := subseg_change segment 0 (sg st)\<rparr>, g_address = 0, g_region = 0, g_count = 0\<rparr>) (\<lambda>h.
     bindOE (relax_loop (max_iterations (g_count h) - 1) tg segment pass root
        \<lparr>rx = gx h, stretch = 0, stretched = False, fudge = 0, ret = False\<rparr>) (\<lambda>r.
     note_addresses root (ret r) (rx r)))"

end
