(* ===== verification/Layout.thy ===== *)
theory Layout
  imports Relax
begin

text \<open>
  What relaxation establishes: a pass keeps the addresses of a chain consistent with the sizes of its
  frags, the passes come to an end, and after the last one every frag is settled - jumps reach their
  targets or have their longest form, LEB128 numbers have their size, \<open>.org\<close> and \<open>.space\<close> the
  place and amount asked for.
\<close>

section \<open>Symbols while frags move\<close>

text \<open>The symbol side of \<^const>\<open>evolves\<close>, with the frags left open.\<close>

definition sym_evolves :: "sym_st \<Rightarrow> sym_st \<Rightarrow> bool" where
  "sym_evolves st st' \<longleftrightarrow> n_syms (sg st') = n_syms (sg st)
     \<and> (\<exists>f. syms (sg st') = (\<lambda>q. (syms (sg st) q)\<lparr>sy_seg := f q\<rparr>))
     \<and> (\<forall>q. symx_le (sx st q) (sx st' q)) \<and> finalize_syms st' = finalize_syms st"

lemma sym_evolves_refl [simp]: "sym_evolves st st"
  by (auto simp: sym_evolves_def intro: exI [of _ "\<lambda>q. sy_seg (syms (sg st) q)"])

lemma sym_evolves_trans [trans]: "sym_evolves a b \<Longrightarrow> sym_evolves b c \<Longrightarrow> sym_evolves a c"
  unfolding sym_evolves_def
proof (elim conjE exE, intro conjI)
  fix f g
  assume "syms (sg b) = (\<lambda>q. (syms (sg a) q)\<lparr>sy_seg := f q\<rparr>)" "syms (sg c) = (\<lambda>q. (syms (sg b) q)\<lparr>sy_seg := g q\<rparr>)"
  then show "\<exists>f. syms (sg c) = (\<lambda>q. (syms (sg a) q)\<lparr>sy_seg := f q\<rparr>)" by (intro exI [of _ g]) simp
qed (auto intro: symx_le_trans)

lemma evolves_sym: "evolves st st' \<Longrightarrow> sym_evolves st st'"
  unfolding evolves_def sym_evolves_def segs_only_def by auto

lemma upd_fr_simps [simp]:
  "sx (upd_fr p f st) = sx st" "finalize_syms (upd_fr p f st) = finalize_syms st"
  "syms (sg (upd_fr p f st)) = syms (sg st)" "n_syms (sg (upd_fr p f st)) = n_syms (sg st)"
  "seg_info (sg (upd_fr p f st)) = seg_info (sg st)" "x_value (upd_fr p f st) q = x_value st q"
  "is_local (upd_fr p f st) q = is_local st q" "mem (sg (upd_fr p f st)) = mem (sg st)"
  "now_seg (sg (upd_fr p f st)) = now_seg (sg st)" "frags_chained (sg (upd_fr p f st)) = frags_chained (sg st)"
  by (simp_all add: upd_fr_def upd_frag_def x_value_def is_local_def split: option.split)

lemma fr_upd_fr: "fr (upd_fr p f st) q = (if q = p then f (fr st p) else fr st q)"
  by (simp add: fr_def upd_fr_def upd_frag_def)

lemma fr_upd_fr_same [simp]: "fr (upd_fr p f st) p = f (fr st p)"
  by (simp add: fr_upd_fr)

lemma sym_evolves_upd_fr [simp]: "sym_evolves st (upd_fr p f st')  = sym_evolves st st'"
  by (simp add: sym_evolves_def)

lemma closed_symtab_upd_fr [simp]: "closed_symtab (upd_fr p f st) = closed_symtab st"
  by (simp add: closed_symtab_def)

lemma sym_evolves_keeps:
  assumes "sym_evolves st st'"
  shows "n_syms (sg st') = n_syms (sg st)" "sy_frag (syms (sg st') q) = sy_frag (syms (sg st) q)"
    "sy_value (syms (sg st') q) = sy_value (syms (sg st) q)" "section_sym (syms (sg st') q) = section_sym (syms (sg st) q)"
    "is_local st' q = is_local st q" "finalize_syms st' = finalize_syms st"
  using assms by (auto simp: sym_evolves_def is_local_def)

text \<open>The value of a symbol depends on the frags only through their addresses.\<close>

lemma sem_sym_evolves:
  assumes ev: "sym_evolves st st'" and adr: "\<And>q. fr_address (fr st' q) = fr_address (fr st q)"
  shows "sem n st' = sem n st"
proof (rule sem_cong, rule sem_step_cong)
  fix q
  have x: "symx_le (sx st q) (sx st' q)" using ev by (simp add: sym_evolves_def)
  show "resolved (sx st' q) = resolved (sx st q)" "weakrefr (sx st' q) = weakrefr (sx st q)"
    "mri_common (sx st' q) = mri_common (sx st q)" using symx_le_keeps [OF x] by simp_all
  show "\<not> weakrefr (sx st q) \<Longrightarrow> x_expr (sx st' q) = x_expr (sx st q)" using x by (auto simp: symx_le_def)
  show "frag_address st' q = frag_address st q"
    using sym_evolves_keeps(2) [OF ev] adr by (simp add: frag_address_def fr_def split: option.split)
qed (use sym_evolves_keeps [OF ev] in simp_all)

text \<open>Marks stay only on machine-dependent expressions, and local symbols hold no expression.\<close>

definition calm :: "sym_st \<Rightarrow> bool" where
  "calm st \<longleftrightarrow> (\<forall>q. (resolving (sx st q) \<longrightarrow> md_expr (sx st q)) \<and> (is_local st q \<longrightarrow> x_expr (sx st q) = None))"

lemma calm_upd_fr [simp]: "calm (upd_fr p f st) = calm st"
  by (simp add: calm_def)

lemma calm_evolves:
  assumes "calm st" "sym_evolves st st'"
  shows "calm st'"
  unfolding calm_def
proof (intro allI conjI impI)
  fix q
  have x: "symx_le (sx st q) (sx st' q)" using assms(2) by (simp add: sym_evolves_def)
  have op: "map_option X_op (x_expr (sx st' q)) = map_option X_op (x_expr (sx st q))" using x by (simp add: symx_le_def)
  show "is_local st' q \<Longrightarrow> x_expr (sx st' q) = None"
    using assms(1) sym_evolves_keeps(5) [OF assms(2)] op by (simp add: calm_def)
  assume "resolving (sx st' q)"
  then have "md_expr (sx st q)" using x assms(1) by (auto simp: symx_le_def calm_def)
  then show "md_expr (sx st' q)" using op by (auto simp: md_expr_def)
qed

lemma calm_free:
  assumes "calm st" "\<not> finalize_syms st"
  shows "free_to_resolve n st"
  unfolding free_to_resolve_def
proof (intro conjI allI impI assms(2))
  fix r assume "resolving (sx st r)"
  then have m: "md_expr (sx st r)" using assms(1) by (simp add: calm_def)
  then have l: "\<not> is_local st r" using assms(1) by (auto simp: calm_def md_expr_def)
  obtain e k where e: "x_expr (sx st r) = Some e" "X_op e = O_md k" using m by (auto simp: md_expr_def)
  have "sem_step st f r = None" for f
  proof (rule ccontr)
    assume "sem_step st f r \<noteq> None"
    then obtain v where "sem_step st f r = Some v" by auto
    then show False using e l unfolding sem_step_Some
      by (auto simp: leaf_value_def x_value_def symbol_op_def unary_op_def op_value_def binary_op_def)
  qed
  then show "sem n st r = None" by (cases n) simp_all
qed

text \<open>Taking the value of a symbol ends, moves no frag, and yields the symbol's value.\<close>

definition value_ok :: "sym_st \<Rightarrow> symP \<Rightarrow> u64 \<Rightarrow> sym_st \<Rightarrow> bool" where
  "value_ok st s v st' \<longleftrightarrow> evolves st st' \<and> closed_symtab st' \<and> (\<forall>n w. sem n st s = Some w \<longrightarrow> v = w)"

lemma resolve_value_ok:
  assumes "closed_symtab st" "calm st" "s < n_syms (sg st)"
  shows "ends (resolve_symbol_value st s) (\<lambda>(v, st'). value_ok st s v st')"
proof -
  have f: "free_to_resolve n st" for n using assms(1,2) calm_free by (simp add: closed_symtab_def)
  have "v = w" if r: "resolve_symbol_value st s = Some (Inr (v, st'))" "sem n st s = Some w" for v st' n w
    using resolve_value [OF r(2) f] r(1) by auto
  then show ?thesis
    using resolve_symbol_value_ends [OF assms(1,3)] by (auto simp: ends_def value_ok_def)
qed

lemma get_value_ok:
  assumes "closed_symtab st" "calm st" "s < n_syms (sg st)"
  shows "ends (S_GET_VALUE st s) (\<lambda>(v, st'). value_ok st s v st')"
proof -
  have nf: "\<not> finalize_syms st" "\<not> resolved (sx st s)" using assms by (auto simp: closed_symtab_def)
  obtain r where r: "resolve_symbol_value st s = Some r" "\<And>v st'. r = Inr (v, st') \<Longrightarrow> value_ok st s v st'"
    using resolve_value_ok [OF assms] by (auto simp: ends_def)
  have "S_GET_VALUE st s = Some r"
  proof (cases r)
    case (Inl e)
    then show ?thesis using r(1) nf by (subst S_GET_VALUE.simps) simp
  next
    case (Inr x)
    obtain v st' where x: "x = (v, st')" by fastforce
    then have "finalize_syms st' = finalize_syms st" using r(2) Inr evolves_keeps(4) by (simp add: value_ok_def)
    then show ?thesis using S_GET_VALUE_unfinal [OF nf] r(1) Inr x by simp
  qed
  then show ?thesis using r(2) by (auto simp: ends_def)
qed

section \<open>Consistent addresses\<close>

text \<open>\<open>n\<close> is the length of the variable part of a frag at address \<open>a\<close>.\<close>

definition size_ok :: "frag \<Rightarrow> u64 \<Rightarrow> u64 \<Rightarrow> bool" where
  "size_ok f a n \<longleftrightarrow>
     (fr_type f = rs_fill \<longrightarrow> n = fr_offset f * fr_var f)
   \<and> (fr_type f = rs_machine_dependent \<longrightarrow> unat (fr_subtype f) < 12
        \<and> n = word_of_nat (rlx_length (md_relax_table ! unat (fr_subtype f))))
   \<and> (fr_type f = rs_leb128 \<longrightarrow> n = fr_offset f)
   \<and> (is_align (fr_type f) \<longrightarrow> n = padding f (a + fr_fix f))"

fun linked :: "(fragP \<Rightarrow> frag) \<Rightarrow> (fragP \<times> u64) list \<Rightarrow> bool" where
  "linked F ((p, a) # (q, b) # xs) \<longleftrightarrow> size_ok (F p) a (b - a - fr_fix (F p)) \<and> linked F ((q, b) # xs)"
| "linked F xs \<longleftrightarrow> True"

definition placed :: "sym_st \<Rightarrow> fragP \<Rightarrow> fragP \<times> u64" where
  "placed st p = (p, fr_address (fr st p))"

lemma linked_snoc:
  "linked F (xs @ [(p, a), (q, b)]) \<longleftrightarrow> linked F (xs @ [(p, a)]) \<and> size_ok (F p) a (b - a - fr_fix (F p))"
proof (induction xs rule: induct_list012)
  case (3 x y zs)
  then show ?case by (cases x; cases y) auto
qed auto

lemma linked_Cons: "linked F (x # xs) \<Longrightarrow> linked F xs"
  by (cases x; cases xs; cases "hd xs") auto

definition same_size :: "frag \<Rightarrow> frag \<Rightarrow> bool" where
  "same_size f g \<longleftrightarrow> fr_type f = fr_type g \<and> fr_fix f = fr_fix g \<and> fr_var f = fr_var g
     \<and> fr_offset f = fr_offset g \<and> fr_subtype f = fr_subtype g"

lemma same_size_refl [simp]: "same_size f f"
  by (simp add: same_size_def)

lemma size_ok_cong: "same_size f g \<Longrightarrow> size_ok f a n = size_ok g a n"
  by (simp add: same_size_def size_ok_def padding_def align_power_def)

lemma linked_cong:
  assumes "\<And>p a. (p, a) \<in> set xs \<Longrightarrow> same_size (F p) (G p)"
  shows "linked F xs = linked G xs"
  using assms
proof (induction F xs rule: linked.induct)
  case (1 F p a q b xs)
  have "same_size (F p) (G p)" using "1.prems" [of p a] by simp
  then have "size_ok (F p) a (b - a - fr_fix (F p)) = size_ok (G p) a (b - a - fr_fix (G p))"
    using size_ok_cong [of "F p" "G p"] unfolding same_size_def by metis
  moreover have "linked F ((q, b) # xs) = linked G ((q, b) # xs)"
  proof (rule "1.IH")
    fix p' a' assume "(p', a') \<in> set ((q, b) # xs)"
    then show "same_size (F p') (G p')" using "1.prems" [of p' a'] by simp
  qed
  ultimately show ?case by simp
qed simp_all

lemma linked_cong_last:
  assumes "\<And>x b. (x, b) \<in> set xs \<Longrightarrow> same_size (F x) (G x)"
  shows "linked F (xs @ [(p, a)]) = linked G (xs @ [(p, a)])"
proof (cases xs rule: rev_cases)
  case (snoc ys y)
  obtain x b where y: "y = (x, b)" by fastforce
  have "same_size (F x) (G x)" using assms snoc y by auto
  then have "size_ok (F x) b (a - b - fr_fix (F x)) = size_ok (G x) b (a - b - fr_fix (G x))"
    using size_ok_cong [of "F x" "G x"] unfolding same_size_def by metis
  moreover have "linked F (ys @ [(x, b)]) = linked G (ys @ [(x, b)])"
    by (rule linked_cong) (use assms snoc y in auto)
  ultimately show ?thesis by (simp add: snoc y linked_snoc)
qed simp

lemma linked_append:
  "linked F (xs @ (p, a) # ys) \<longleftrightarrow> linked F (xs @ [(p, a)]) \<and> linked F ((p, a) # ys)"
proof (induction xs rule: induct_list012)
  case (2 x)
  then show ?case by (cases x) auto
next
  case (3 x y zs)
  then show ?case by (cases x; cases y) auto
qed auto

text \<open>The allocator gives addresses not used before.\<close>

coinductive avoids :: "target \<Rightarrow> obstack \<Rightarrow> fragP set \<Rightarrow> bool" where
  "(\<And>n p ob'. frag_alloc_ob tg ob n = Inr (p, ob') \<Longrightarrow> p \<notin> A \<and> avoids tg ob' (insert p A)) \<Longrightarrow> avoids tg ob A"

definition seg_avoids :: "target \<Rightarrow> segT \<Rightarrow> fragP set \<Rightarrow> gas \<Rightarrow> bool" where
  "seg_avoids tg segment A g \<longleftrightarrow> (\<forall>si fc fcs. seg_info g segment = Some si \<longrightarrow> frchainP si = fc # fcs
     \<longrightarrow> avoids tg (frch_obstack fc) A)"

definition syms_known :: "sym_st \<Rightarrow> fragP list \<Rightarrow> bool" where
  "syms_known st ids \<longleftrightarrow> (\<forall>p \<in> set ids. \<forall>s. fr_symbol (fr st p) = Some s \<longrightarrow> s < n_syms (sg st))"

text \<open>In the middle of a pass: the frags \<open>us\<close> have been visited, \<open>vs\<close> are to come and will move by
  \<open>str\<close>.\<close>

definition mid_pass :: "target \<Rightarrow> segT \<Rightarrow> fragP option \<Rightarrow> fragP list \<Rightarrow> fragP list \<Rightarrow> u64 \<Rightarrow> sym_st \<Rightarrow> bool" where
  "mid_pass tg segment root us vs str st \<longleftrightarrow>
     chain (frag_next (sg st)) root (us @ vs) \<and> closed_symtab st \<and> calm st \<and> syms_known st (us @ vs)
   \<and> seg_avoids tg segment (set (us @ vs)) (sg st)
   \<and> linked (fr st) (map (placed st) us @ (case vs of [] \<Rightarrow> [] | q # _ \<Rightarrow> [(q, fr_address (fr st q) + str)]))
   \<and> linked (fr st) (map (placed st) vs)
   \<and> (us = [] \<longrightarrow> (case vs of [] \<Rightarrow> True | q # _ \<Rightarrow> fr_address (fr st q) + str = 0))
   \<and> (us \<noteq> [] \<longrightarrow> fr_address (fr st (hd us)) = 0)"

lemma chain_distinct: "chain nxt p xs \<Longrightarrow> distinct xs"
proof (induction xs arbitrary: p)
  case (Cons x xs)
  have "x \<notin> set xs"
  proof
    assume "x \<in> set xs"
    then obtain us vs where xs: "xs = us @ x # vs" by (meson split_list)
    then have "chain nxt (Some x) (x # vs)" using Cons.prems by (auto simp: chain_append)
    moreover have "chain nxt (Some x) (x # xs)" using Cons.prems by simp
    ultimately have "x # vs = x # xs" by (rule chain_unique)
    then show False using xs by (metis append_self_conv2 length_append length_Cons list.inject not_less_eq_eq le_add2 add.commute)
  qed
  then show ?case using Cons by auto
qed simp

section \<open>When a frag is settled\<close>

definition settled_at :: "sym_st \<Rightarrow> bool \<Rightarrow> fragP \<Rightarrow> u64 \<Rightarrow> bool" where
  "settled_at st good p v \<longleftrightarrow>
     (let f = fr st p; here = fr_address f + fr_fix f in
      (fr_type f = rs_machine_dependent \<longrightarrow> unat (fr_subtype f) < 12
         \<and> (let t = md_relax_table ! unat (fr_subtype f) in rlx_more t = 0 \<or> reaches (fr_offset f + v - here) t))
    \<and> (fr_type f = rs_leb128 \<longrightarrow> fr_offset f = word_of_nat (sizeof_leb128 v (fr_subtype f \<noteq> 0)))
    \<and> (fr_type f = rs_org \<longrightarrow> good \<longrightarrow> \<not> fr_offset f + v <s here
         \<and> (\<exists>q. fr_next f = Some q \<and> fr_address (fr st q) = fr_offset f + v))
    \<and> (fr_type f \<in> {rs_space, rs_space_nop} \<longrightarrow> fr_symbol f \<noteq> None \<longrightarrow> good \<longrightarrow> \<not> v <s 0
         \<and> (\<exists>q. fr_next f = Some q \<and> fr_address (fr st q) = here + v)))"

definition settled :: "sym_st \<Rightarrow> bool \<Rightarrow> fragP \<Rightarrow> bool" where
  "settled st good p \<longleftrightarrow> (case fr_symbol (fr st p) of None \<Rightarrow> settled_at st good p 0
     | Some s \<Rightarrow> (\<forall>n v. sem n st s = Some v \<longrightarrow> settled_at st good p v))"

lemma relax_scan_eq:
  assumes "s < 12"
  shows "relax_scan R s = (if rlx_more (md_relax_table ! s) \<noteq> 0 \<and> \<not> R (md_relax_table ! s)
    then rlx_more (md_relax_table ! s) else s)"
proof -
  let ?m = "rlx_more (md_relax_table ! s)"
  have "relax_scan R ?m = ?m" if "?m \<noteq> 0"
    using relax_table_more [OF assms] that relax_scan.simps [of R ?m] by auto
  then show ?thesis using assms relax_scan.simps [of R s] by auto
qed

lemma relax_table_grows:
  assumes "s < 12" "rlx_more (md_relax_table ! s) \<noteq> 0"
  shows "rlx_length (md_relax_table ! s) < rlx_length (md_relax_table ! rlx_more (md_relax_table ! s))
    \<and> rlx_length (md_relax_table ! rlx_more (md_relax_table ! s)) \<le> 5"
  using assms unfolding all_states by (auto simp: md_relax_table_eq short_state_def long_state_def)

section \<open>One frag\<close>

text \<open>A step on frag \<open>p\<close> that inserts no frag: only its state changes, its new length is the old one plus
  the growth, and when nothing is stretched and it does not grow it is settled.\<close>

definition only_state :: "frag \<Rightarrow> frag \<Rightarrow> u64 \<Rightarrow> bool" where
  "only_state f f' growth \<longleftrightarrow> (\<exists>sub off sy. f' = f\<lparr>fr_subtype := sub, fr_offset := off, fr_symbol := sy\<rparr>
     \<and> (sy = fr_symbol f \<or> sy = None) \<and> (growth = 0 \<longrightarrow> sub = fr_subtype f \<and> off = fr_offset f))"

definition plain_step :: "fragP \<Rightarrow> u64 \<Rightarrow> relax_st \<Rightarrow> u64 \<Rightarrow> relax_st \<Rightarrow> bool" where
  "plain_step p was r1 growth r2 \<longleftrightarrow>
     sym_evolves (rx r1) (rx r2) \<and> closed_symtab (rx r2) \<and> seg_info (sg (rx r2)) = seg_info (sg (rx r1))
   \<and> (\<forall>q. q \<noteq> p \<longrightarrow> fr (rx r2) q = fr (rx r1) q) \<and> only_state (fr (rx r1) p) (fr (rx r2) p) growth
   \<and> stretch r2 = stretch r1 \<and> stretched r2 = stretched r1 \<and> fudge r2 = fudge r1 \<and> (ret r1 \<longrightarrow> ret r2)
   \<and> (\<forall>n. size_ok (fr (rx r1) p) was n \<longrightarrow> size_ok (fr (rx r2) p) (fr_address (fr (rx r1) p)) (n + growth))
   \<and> (growth = 0 \<longrightarrow> stretch r1 = 0 \<longrightarrow> settled (rx r2) (\<not> ret r2) p)"

lemma only_state_refl [simp]: "only_state f f g"
  unfolding only_state_def
  by (rule exI [of _ "fr_subtype f"], rule exI [of _ "fr_offset f"], rule exI [of _ "fr_symbol f"]) simp

lemma only_state_keeps:
  assumes "only_state f f' growth"
  shows "fr_address f' = fr_address f" "fr_fix f' = fr_fix f" "fr_type f' = fr_type f" "fr_var f' = fr_var f"
    "fr_next f' = fr_next f" "relax_marker f' = relax_marker f"
    "growth = 0 \<Longrightarrow> fr_subtype f' = fr_subtype f \<and> fr_offset f' = fr_offset f"
    "fr_symbol f' = fr_symbol f \<or> fr_symbol f' = None"
  using assms by (auto simp: only_state_def)

lemma value_ok_fr: "value_ok st s v st' \<Longrightarrow> fr st' q = fr st q"
  using evolves_keeps(5) by (auto simp: value_ok_def fr_def)

lemma value_ok_sem: "value_ok st s v st' \<Longrightarrow> sem n st' s = Some w \<Longrightarrow> v = w"
  using sem_evolves by (auto simp: value_ok_def)

lemma value_ok_seg_info: "value_ok st s v st' \<Longrightarrow> seg_info (sg st') = seg_info (sg st)"
  using segs_only_keeps(3) by (auto simp: value_ok_def evolves_def)

lemma settled_symI:
  assumes "value_ok st s v st'" "fr_symbol (fr st' p) = Some s" "settled_at st' b p v"
  shows "settled st' b p"
  using assms(2,3) value_ok_sem [OF assms(1)] unfolding settled_def by auto

lemma reaches_none: "settled_at st b p v" if "fr_type (fr st p) = rs_fill \<or> is_align (fr_type (fr st p))"
  using that by (auto simp: settled_at_def Let_def is_align_def)

lemma settled_other: "settled st b p" if "fr_type (fr st p) = rs_fill \<or> is_align (fr_type (fr st p))"
  using reaches_none [OF that] by (simp add: settled_def split: option.split)

lemma plain_fill:
  assumes "fr_type (fr (rx r) p) = rs_fill" "closed_symtab (rx r)"
  shows "plain_step p was r 0 r"
  using assms settled_other by (auto simp: plain_step_def size_ok_def is_align_def)

lemma plain_org:
  assumes t: "fr_type (fr (rx r) p) = rs_org" and inv: "closed_symtab (rx r)" "calm (rx r)"
    and sy: "\<And>s. fr_symbol (fr (rx r) p) = Some s \<Longrightarrow> s < n_syms (sg (rx r))"
  shows "ends (relax_org pass p r) (\<lambda>(growth, r2). plain_step p was r growth r2)"
proof -
  have so: "size_ok (fr (rx r) p) a n" for a n using t by (simp add: size_ok_def is_align_def)
  define V where "V = (\<lambda>(v, st). sym_evolves (rx r) st \<and> closed_symtab st \<and> (\<forall>q. fr st q = fr (rx r) q)
     \<and> seg_info (sg st) = seg_info (sg (rx r)) \<and> (\<forall>b. settled_at st b p v \<longrightarrow> settled st b p))"
  have v: "ends (sym_value (rx r) (fr_symbol (fr (rx r) p))) V"
  proof (cases "fr_symbol (fr (rx r) p)")
    case None
    then show ?thesis using inv by (simp add: sym_value_def V_def settled_def ends_def)
  next
    case (Some s)
    have "ends (S_GET_VALUE (rx r) s) V"
    proof (rule ends_weaken [OF get_value_ok [OF inv sy [OF Some]]])
      fix x assume x: "case x of (v, st') \<Rightarrow> value_ok (rx r) s v st'"
      obtain v st where "x = (v, st)" by fastforce
      then have k: "value_ok (rx r) s v st" using x by simp
      then have "fr_symbol (fr st p) = Some s" using Some value_ok_fr by metis
      then show "V x" using k \<open>x = (v, st)\<close> evolves_sym settled_symI [OF k] value_ok_fr [OF k] value_ok_seg_info [OF k]
        by (auto simp: V_def value_ok_def)
    qed
    then show ?thesis by (simp add: sym_value_def Some)
  qed
  show ?thesis
    unfolding relax_org_def
  proof (rule ends_bind [OF v], clarify, unfold Let_def, rule ends_operand)
    fix v st q assume V: "V (v, st)" and q: "fr_next (fr st p) = Some q"
    have k: "sym_evolves (rx r) st" "closed_symtab st" "\<And>q. fr st q = fr (rx r) q"
      "seg_info (sg st) = seg_info (sg (rx r))" "\<And>b. settled_at st b p v \<Longrightarrow> settled st b p"
      using V by (auto simp: V_def)
    let ?f = "fr st p" and ?t = "fr_offset (fr st p) + v"
    have bk: "settled st False p" using t k by (intro k(5)) (simp add: settled_at_def Let_def)
    have fw: "settled st b p" if "\<not> ?t <s fr_address ?f + fr_fix ?f" "?t - fr_address (fr st q) = 0" for b
      using t k(3) q that by (intro k(5)) (simp add: settled_at_def Let_def)
    show "ends (if ?t <s fr_address ?f + fr_fix ?f
        then if pass < 2 then Some (Inr (0, r\<lparr>rx := st, ret := True\<rparr>)) else Some (Inl As_bad)
        else Some (Inr (?t - (fr_address (fr st q) + stretch r), r\<lparr>rx := st\<rparr>))) (\<lambda>(growth, r2). plain_step p was r growth r2)"
      using k(1,2,4) so bk fw by (auto simp: ends_def plain_step_def k(3))
  qed
qed

lemma plain_space:
  assumes t: "fr_type (fr (rx r) p) \<in> {rs_space, rs_space_nop}" and inv: "closed_symtab (rx r)" "calm (rx r)"
    and sy: "\<And>s. fr_symbol (fr (rx r) p) = Some s \<Longrightarrow> s < n_syms (sg (rx r))"
    and was: "fr_address (fr (rx r) p) = was + stretch r"
  shows "ends (relax_space pass p was r) (\<lambda>(growth, r2). plain_step p was r growth r2)"
proof (cases "fr_symbol (fr (rx r) p)")
  case None
  have "settled (rx r) b p" for b using None t by (auto simp: settled_def settled_at_def Let_def)
  then show ?thesis using None t inv by (auto simp: relax_space_def ends_def plain_step_def size_ok_def is_align_def)
next
  case (Some s)
  have so: "size_ok f a n" if "fr_type f = fr_type (fr (rx r) p)" for f a n
    using t that by (auto simp: size_ok_def is_align_def)
  show ?thesis
    unfolding relax_space_def Some option.case
  proof (rule ends_bind [OF get_value_ok [OF inv sy [OF Some]]], clarify, unfold Let_def)
    fix v st assume k: "value_ok (rx r) s v st"
    have f: "fr st q = fr (rx r) q" for q by (rule value_ok_fr [OF k])
    have e: "sym_evolves (rx r) st" "closed_symtab st" "seg_info (sg st) = seg_info (sg (rx r))"
      using k evolves_sym value_ok_seg_info [OF k] by (auto simp: value_ok_def)
    have fs: "fr_symbol (fr st p) = Some s" using Some f by simp
    note se = settled_symI [OF k fs]
    have neg: "settled st False p" using t f by (intro se) (auto simp: settled_at_def Let_def)
    have drop: "settled (upd_fr p (\<lambda>f. f\<lparr>fr_symbol := None\<rparr>) st) b p" for b
      using t f by (auto simp: settled_def settled_at_def Let_def)
    have os: "only_state f (f\<lparr>fr_symbol := None\<rparr>) 0" for f
      unfolding only_state_def
      by (rule exI [of _ "fr_subtype f"], rule exI [of _ "fr_offset f"], rule exI [of _ None]) simp
    have pos: "settled st b p" if "\<not> v <s 0" "fr_next (fr st p) = Some q" "was + fr_fix (fr st p) + v - fr_address (fr st q) = 0" "stretch r = 0" for b q
      using t f was that by (intro se) (auto simp: settled_at_def Let_def algebra_simps)
    show "ends (if seg_of st s \<noteq> absolute_section then Some (Inl As_bad)
       else if v <s 0 then if pass < 2 then Some (Inr (0, r\<lparr>rx := st, ret := True\<rparr>))
            else Some (Inr (0, r\<lparr>rx := upd_fr p (\<lambda>f. f\<lparr>fr_symbol := None\<rparr>) st\<rparr>))
       else bindOE (operand (fr_next (fr st p))) (\<lambda>q.
            Some (Inr (was + fr_fix (fr st p) + v - fr_address (fr st q), r\<lparr>rx := st\<rparr>))))
      (\<lambda>(growth, r2). plain_step p was r growth r2)"
    proof (cases "seg_of st s \<noteq> absolute_section \<or> v <s 0")
      case True
      then show ?thesis
        using e neg drop os so f by (auto simp: ends_def plain_step_def fr_upd_fr)
    next
      case False
      have "ends (bindOE (operand (fr_next (fr st p))) (\<lambda>q.
            Some (Inr (was + fr_fix (fr st p) + v - fr_address (fr st q), r\<lparr>rx := st\<rparr>))))
          (\<lambda>(growth, r2). plain_step p was r growth r2)"
        by (rule ends_operand) (use False e pos so f in \<open>auto simp: ends_def plain_step_def\<close>)
      then show ?thesis using False by simp
    qed
  qed
qed

lemma plain_leb128:
  assumes t: "fr_type (fr (rx r) p) = rs_leb128" and inv: "closed_symtab (rx r)" "calm (rx r)"
    and sy: "\<And>s. fr_symbol (fr (rx r) p) = Some s \<Longrightarrow> s < n_syms (sg (rx r))"
  shows "ends (relax_leb128 p r) (\<lambda>(growth, r2). plain_step p was r growth r2)"
  unfolding relax_leb128_def
proof (rule ends_operand, rule ends_bind, rule resolve_value_ok [OF inv], erule sy, clarify, unfold Let_def)
  fix s v st assume s: "fr_symbol (fr (rx r) p) = Some s" and k: "value_ok (rx r) s v st"
  have f: "fr st q = fr (rx r) q" for q by (rule value_ok_fr [OF k])
  have e: "sym_evolves (rx r) st" "closed_symtab st" "seg_info (sg st) = seg_info (sg (rx r))"
    using k evolves_sym value_ok_seg_info [OF k] by (auto simp: value_ok_def)
  let ?n = "word_of_nat (sizeof_leb128 v (fr_subtype (fr st p) \<noteq> 0)) :: u64"
  let ?st = "upd_fr p (\<lambda>f. f\<lparr>fr_offset := ?n\<rparr>) st"
  have os: "only_state g (g\<lparr>fr_offset := ?n\<rparr>) (?n - fr_offset g)" for g
    unfolding only_state_def
    by (rule exI [of _ "fr_subtype g"], rule exI [of _ ?n], rule exI [of _ "fr_symbol g"]) simp
  have "sem n ?st = sem n st" for n by (rule sem_sym_evolves) (auto simp: fr_upd_fr)
  then have "settled ?st b p" for b
    using s f t value_ok_sem [OF k] by (auto simp: settled_def settled_at_def Let_def)
  moreover have "size_ok (fr (rx r) p) was n \<Longrightarrow> size_ok ((fr st p)\<lparr>fr_offset := ?n\<rparr>) a (n + (?n - fr_offset (fr st p)))" for n a
    using t f by (auto simp: size_ok_def is_align_def)
  ultimately show "ends (Some (Inr (?n - fr_offset (fr st p), r\<lparr>rx := ?st\<rparr>))) (\<lambda>(growth, r2). plain_step p was r growth r2)"
    using e f os by (auto simp: ends_def plain_step_def fr_upd_fr)
qed

lemma relax_frag_aim_plain:
  assumes t: "fr_type (fr st p) = rs_machine_dependent" and cl: "closed_symtab st"
    and a: "relax_frag_aim p target st = Inr (growth, st')"
  shows "sym_evolves st st' \<and> closed_symtab st' \<and> seg_info (sg st') = seg_info (sg st) \<and> sx st' = sx st
    \<and> (\<forall>q. q \<noteq> p \<longrightarrow> fr st' q = fr st q) \<and> only_state (fr st p) (fr st' p) growth \<and> fr_symbol (fr st' p) = fr_symbol (fr st p)
    \<and> (\<forall>n a b. size_ok (fr st p) a n \<longrightarrow> size_ok (fr st' p) b (n + growth))
    \<and> (growth = 0 \<longrightarrow> unat (fr_subtype (fr st p)) < 12 \<and> (let t = md_relax_table ! unat (fr_subtype (fr st p)) in
         rlx_more t = 0 \<or> reaches (target - (fr_address (fr st p) + fr_fix (fr st p))) t))"
proof -
  define f where "f = fr st p"
  define s0 where "s0 = unat (fr_subtype f)"
  define aim where "aim = target - (fr_address f + fr_fix f)"
  define s1 where "s1 = relax_scan (reaches aim) s0"
  define l where "l = (\<lambda>s. rlx_length (md_relax_table ! s))"
  have s0: "s0 < 12" using a by (auto simp: relax_frag_aim_def Let_def f_def [symmetric] s0_def split: if_splits)
  have eqs: "growth = word_of_int (int (l s1) - int (l s0))"
    "st' = (if growth \<noteq> 0 then upd_fr p (\<lambda>f. f\<lparr>fr_subtype := word_of_nat s1\<rparr>) st else st)"
    using a s0 by (auto simp: relax_frag_aim_def Let_def f_def [symmetric] s0_def [symmetric] aim_def [symmetric] s1_def l_def)
  have sc: "s1 = (if rlx_more (md_relax_table ! s0) \<noteq> 0 \<and> \<not> reaches aim (md_relax_table ! s0)
      then rlx_more (md_relax_table ! s0) else s0)" unfolding s1_def by (rule relax_scan_eq [OF s0])
  have s1: "s1 < 12" using sc s0 relax_table_more [OF s0] by auto
  have same: "s1 = s0" if "growth = 0"
  proof (rule ccontr)
    assume "s1 \<noteq> s0"
    then have m: "rlx_more (md_relax_table ! s0) \<noteq> 0" "s1 = rlx_more (md_relax_table ! s0)" using sc by (auto split: if_splits)
    then have "l s0 < l s1" "l s1 \<le> 5" using relax_table_grows [OF s0 m(1)] by (auto simp: l_def)
    then obtain d where d: "int (l s1) - int (l s0) = int d" "0 < d" "d \<le> 5"
      by (metis add_diff_cancel_left' add_gr_0 diff_le_self le_trans less_imp_add_positive of_nat_add)
    then have "growth = word_of_nat d" using eqs(1) by simp
    moreover have "unat (word_of_nat d :: u64) = d" using d by (simp add: unsigned_of_nat take_bit_nat_eq_self)
    ultimately show False using that d by auto
  qed
  have w: "(word_of_nat (l s0) :: u64) + growth = word_of_nat (l s1)"
    unfolding eqs(1) by simp
  have un: "unat (word_of_nat s1 :: u32) = s1" using s1 by (simp add: unsigned_of_nat take_bit_nat_eq_self)
  have sz: "size_ok (fr st' p) b (n + growth)" if n: "size_ok f a n" for n a b
  proof (cases "growth = 0")
    case True
    then show ?thesis using n eqs(2) t by (auto simp: size_ok_def is_align_def f_def)
  next
    case False
    have "n = word_of_nat (l s0)" using n t by (simp add: size_ok_def f_def s0_def l_def)
    then have "n + growth = word_of_nat (l s1)" using w by simp
    then show ?thesis using False eqs(2) t s1 un by (simp add: size_ok_def is_align_def f_def l_def)
  qed
  have os: "only_state f (fr st' p) growth"
  proof (cases "growth = 0")
    case False
    then show ?thesis unfolding only_state_def
      by (intro exI [of _ "word_of_nat s1"] exI [of _ "fr_offset f"] exI [of _ "fr_symbol f"])
        (use eqs(2) in \<open>simp add: f_def\<close>)
  qed (simp add: eqs(2) f_def)
  have st: "growth = 0 \<Longrightarrow> rlx_more (md_relax_table ! s0) = 0 \<or> reaches aim (md_relax_table ! s0)"
    using same sc relax_table_grows [OF s0] by (auto split: if_splits)
  have fix': "sym_evolves st st'" "closed_symtab st'" "seg_info (sg st') = seg_info (sg st)" "sx st' = sx st"
    "\<forall>q. q \<noteq> p \<longrightarrow> fr st' q = fr st q" "fr_symbol (fr st' p) = fr_symbol (fr st p)"
    using eqs(2) cl by (auto simp: fr_upd_fr)
  show ?thesis
    unfolding f_def [symmetric] Let_def s0_def [symmetric] aim_def [symmetric]
    using fix' os sz st s0 by (simp add: f_def)
qed

lemma plain_jump:
  assumes t: "fr_type (fr (rx r) p) = rs_machine_dependent" and inv: "closed_symtab (rx r)" "calm (rx r)"
    and sy: "\<And>s. fr_symbol (fr (rx r) p) = Some s \<Longrightarrow> s < n_syms (sg (rx r))"
  shows "ends (bindOE (relax_frag segment p (stretch r) (rx r)) (\<lambda>(n, st). Some (Inr (n, r\<lparr>rx := st\<rparr>))))
           (\<lambda>(growth, r2). plain_step p was r growth r2)"
proof -
  define P where "P = (\<lambda>(growth :: u64, st'). plain_step p was r growth (r\<lparr>rx := st'\<rparr>))"
  have "ends (relax_frag segment p (stretch r) (rx r)) P"
  proof (cases "fr_symbol (fr (rx r) p)")
    case None
    have "ends (Some (relax_frag_aim p (fr_offset (fr (rx r) p)) (rx r))) P"
    proof (rule ends_Some)
      fix x assume x: "relax_frag_aim p (fr_offset (fr (rx r) p)) (rx r) = Inr x"
      obtain growth st' where x': "x = (growth, st')" by fastforce
      note k = relax_frag_aim_plain [OF t inv(1) x [unfolded x']]
      have "growth = 0 \<Longrightarrow> settled st' b p" for b
        using k None t only_state_keeps [of "fr (rx r) p" "fr st' p" growth]
        by (auto simp: settled_def settled_at_def Let_def)
      moreover have "size_ok (fr (rx r) p) was n \<Longrightarrow> size_ok (fr st' p) b (n + growth)" for n b using k by blast
      ultimately show "P x" using k by (auto simp: P_def x' plain_step_def)
    qed
    then show ?thesis by (simp add: relax_frag_def None)
  next
    case (Some s)
    show ?thesis
      unfolding relax_frag_def Some option.case
    proof (rule ends_bind [OF get_value_ok [OF inv sy [OF Some]]], clarify)
      fix v st assume k: "value_ok (rx r) s v st"
      have f: "fr st q = fr (rx r) q" for q by (rule value_ok_fr [OF k])
      have e: "sym_evolves (rx r) st" "closed_symtab st" "seg_info (sg st) = seg_info (sg (rx r))"
        using k evolves_sym value_ok_seg_info [OF k] by (auto simp: value_ok_def)
      let ?T = "stretched_target segment p (stretch r) s (fr_offset (fr (rx r) p) + v) st"
      have so: "size_ok (fr (rx r) p) was n \<Longrightarrow> size_ok (fr st p) a (n + 0)" for n a
        using t f by (simp add: size_ok_def is_align_def)
      show "ends (case ?T of None \<Rightarrow> Some (Inr (0, st)) | Some target \<Rightarrow> Some (relax_frag_aim p target st)) P"
      proof (cases ?T)
        case None
        then have "stretch r \<noteq> 0" by (auto simp: stretched_target_def split: if_splits)
        then show ?thesis using None e f so by (simp add: ends_def P_def plain_step_def)
      next
        case T: (Some target)
        have tt: "target = fr_offset (fr (rx r) p) + v" if "stretch r = 0"
          using T that by (simp add: stretched_target_def)
        have "ends (Some (relax_frag_aim p target st)) P"
        proof (rule ends_Some)
          fix x assume x: "relax_frag_aim p target st = Inr x"
          obtain growth st' where x': "x = (growth, st')" by fastforce
          have tst: "fr_type (fr st p) = rs_machine_dependent" using t f by simp
          note j = relax_frag_aim_plain [OF tst e(2) x [unfolded x']]
          have os: "only_state (fr st p) (fr st' p) growth" using j by blast
          have "sem n st' = sem n st" for n
            by (rule sem_sym_evolves) (use j only_state_keeps(1) [OF os] in metis)+
          then have "settled st' b p" if "growth = 0" "stretch r = 0" for b
            using j Some f tt [OF that(2)] that(1) only_state_keeps [OF os] value_ok_sem [OF k] t
            by (auto simp: settled_def settled_at_def Let_def)
          moreover have "size_ok (fr st p) was n \<Longrightarrow> size_ok (fr st' p) b (n + growth)" for n b using j by blast
          ultimately show "P x" using j e f os sym_evolves_trans [OF e(1)] by (auto simp: P_def x' plain_step_def)
        qed
        then show ?thesis using T by simp
      qed
    qed
  qed
  then show ?thesis by (rule ends_bind) (auto simp: P_def ends_def)
qed

lemma plain_align:
  assumes t: "is_align (fr_type (fr (rx r) p))" and cl: "closed_symtab (rx r)"
    and n: "\<not> (padding (fr (rx r) p) (fr_address (fr (rx r) p) + fr_fix (fr (rx r) p))
                - padding (fr (rx r) p) (was + fr_fix (fr (rx r) p)) <s 0 \<and> bouncing (fudge r))"
  shows "ends (Some (relax_align_frag tg segment p was r)) (\<lambda>(growth, r2). plain_step p was r growth r2)"
proof -
  have "settled (rx r) b p" for b using t settled_other by blast
  moreover have "size_ok (fr (rx r) p) was m \<Longrightarrow>
      size_ok (fr (rx r) p) a (m + (padding (fr (rx r) p) (a + fr_fix (fr (rx r) p)) - padding (fr (rx r) p) (was + fr_fix (fr (rx r) p))))" for m a
    using t by (auto simp: size_ok_def is_align_def)
  moreover have "relax_align_frag tg segment p was r = Inr (padding (fr (rx r) p) (fr_address (fr (rx r) p) + fr_fix (fr (rx r) p))
      - padding (fr (rx r) p) (was + fr_fix (fr (rx r) p)), r)"
    unfolding relax_align_frag_def Let_def if_not_P [OF n] ..
  ultimately show ?thesis
    using cl by (simp add: ends_def plain_step_def)
qed

text \<open>The step that inserts a frag behind an alignment frag.\<close>

definition fudge_step :: "target \<Rightarrow> segT \<Rightarrow> fragP set \<Rightarrow> fragP \<Rightarrow> u64 \<Rightarrow> sym_st \<Rightarrow> u64 \<Rightarrow> sym_st \<Rightarrow> fragP \<Rightarrow> bool" where
  "fudge_step tg segment A p str st1 growth st2 newp \<longleftrightarrow>
     newp \<notin> A \<and> seg_avoids tg segment (insert newp A) (sg st2) \<and> sym_evolves st1 st2 \<and> sx st2 = sx st1
   \<and> (\<forall>q. q \<noteq> p \<and> q \<noteq> newp \<longrightarrow> fr st2 q = fr st1 q)
   \<and> fr st2 p = (fr st1 p)\<lparr>fr_next := Some newp\<rparr>
   \<and> fr_next (fr st2 newp) = fr_next (fr st1 p) \<and> fr_symbol (fr st2 newp) = fr_symbol (fr st1 p)
   \<and> fr_type (fr st2 newp) = rs_fill \<and> fr_fix (fr st2 newp) = 0
   \<and> fr_address (fr st2 newp) + (str + growth) = fr_address (fr st1 p) + fr_fix (fr st1 p)
        + padding (fr st1 p) (fr_address (fr st1 p) + fr_fix (fr st1 p))"

lemma avoids_alloc: "avoids tg ob A \<Longrightarrow> frag_alloc_ob tg ob n = Inr (p, ob') \<Longrightarrow> p \<notin> A \<and> avoids tg ob' (insert p A)"
  by (erule avoids.cases) blast

lemma insert_fudge_step:
  assumes sa: "seg_avoids tg segment A (sg st)" and p: "p \<in> A"
    and k: "insert_fudge tg segment p str newoff gr st = Inr (growth, st2)"
    and no: "newoff = padding (fr st p) (fr_address (fr st p) + fr_fix (fr st p))"
  shows "\<exists>newp. fudge_step tg segment A p str st growth st2 newp
    \<and> growth = gr + fr_offset (fr st2 newp) * fr_var (fr st2 newp)"
proof -
  define f where "f = fr st p"
  obtain si where si0: "seg_info (sg st) segment = Some si"
    using k by (cases "seg_info (sg st) segment") (auto simp: insert_fudge_def)
  obtain fc fcs where si: "seg_info (sg st) segment = Some si" "frchainP si = fc # fcs"
    using k si0 by (cases "frchainP si") (auto simp: insert_fudge_def)
  obtain newp ob' where al: "frag_alloc_ob tg (frch_obstack fc) (unat (fr_var f)) = Inr (newp, ob')"
    using k unfolding insert_fudge_def deref_Inr_iff frag_alloc_def
    by (cases "frag_alloc_ob tg (frch_obstack fc) (unat (fr_var f))") (auto simp: si f_def [symmetric] Let_def split: if_splits)
  have av: "newp \<notin> A" "avoids tg ob' (insert newp A)"
    using sa si avoids_alloc [OF _ al] by (auto simp: seg_avoids_def)
  have np: "newp \<noteq> p" using av(1) p by auto
  define nf where "nf = fudge_frag f (fr_address f + fr_fix f + newoff)"
  define gr' where "gr' = gr + fr_offset nf * fr_var nf"
  define g1 where "g1 = (sg st)\<lparr>frags := (frags (sg st))(newp := zero_frag), totalfrags := totalfrags (sg st) + 1\<rparr>"
  define g2 where "g2 = g1\<lparr>seg_info := (seg_info g1)(segment \<mapsto> si\<lparr>frchainP := fc\<lparr>frch_obstack := ob'\<rparr> # fcs\<rparr>)\<rparr>"
  define g3 where "g3 = poke_list (newp + sizeof_struct_frag tg) (map (mem g2) [p + sizeof_struct_frag tg + unat (fr_fix f) ..<
      p + sizeof_struct_frag tg + unat (fr_fix f) + unat (fr_var f)]) g2"
  define nf' where "nf' = nf\<lparr>fr_address := fr_address nf - (str + gr'), relax_marker := \<not> relax_marker nf\<rparr>"
  have r: "growth = gr'" "st2 = st\<lparr>sg := upd_frag p (\<lambda>f. f\<lparr>fr_next := Some newp\<rparr>) (upd_frag newp (\<lambda>_. nf') g3)\<rparr>"
    using k unfolding insert_fudge_def deref_Inr_iff frag_alloc_def
    by (auto simp: si al f_def [symmetric] Let_def nf_def gr'_def nf'_def g1_def g2_def g3_def split: if_splits)
  have g: "frags g3 = frags g1" "syms g3 = syms (sg st)" "n_syms g3 = n_syms (sg st)" "seg_info g3 = seg_info g2"
    by (simp_all add: g3_def g2_def g1_def)
  have F: "fr st2 q = (if q = p then f\<lparr>fr_next := Some newp\<rparr> else if q = newp then nf' else fr st q)" for q
    using np by (simp add: r(2) fr_def upd_frag_def g(1) g1_def f_def)
  have sv: "seg_avoids tg segment (insert newp A) (sg st2)"
    using av(2) by (simp add: seg_avoids_def r(2) upd_frag_def g(4) g2_def)
  have "sym_evolves st st2"
    by (auto simp: sym_evolves_def r(2) upd_frag_def g intro: exI [of _ "\<lambda>q. sy_seg (syms (sg st) q)"])
  moreover have "sx st2 = sx st" by (simp add: r(2))
  moreover have "fr_next nf' = fr_next f" "fr_symbol nf' = fr_symbol f" "fr_type nf' = rs_fill" "fr_fix nf' = 0"
    "fr_address nf' + (str + gr') = fr_address f + fr_fix f + newoff"
    by (simp_all add: nf'_def nf_def fudge_frag_def Let_def)
  moreover have "growth = gr + fr_offset nf' * fr_var nf'" by (simp add: r(1) gr'_def nf'_def)
  ultimately have "fudge_step tg segment A p str st growth st2 newp \<and> growth = gr + fr_offset (fr st2 newp) * fr_var (fr st2 newp)"
    using av(1) sv np r(1) no unfolding fudge_step_def F f_def [symmetric] by simp
  then show ?thesis by blast
qed

definition growth_post :: "target \<Rightarrow> segT \<Rightarrow> fragP set \<Rightarrow> fragP \<Rightarrow> u64 \<Rightarrow> relax_st \<Rightarrow> u64 \<Rightarrow> relax_st \<Rightarrow> bool" where
  "growth_post tg segment A p was r1 growth r2 \<longleftrightarrow> plain_step p was r1 growth r2
     \<or> (\<exists>newp. fudge_step tg segment A p (stretch r1) (rx r1) growth (rx r2) newp \<and> r2 = r1\<lparr>rx := rx r2\<rparr>
          \<and> is_align (fr_type (fr (rx r1) p)) \<and> stretch r1 \<noteq> 0
          \<and> growth = padding (fr (rx r1) p) (fr_address (fr (rx r1) p) + fr_fix (fr (rx r1) p))
               - padding (fr (rx r1) p) (was + fr_fix (fr (rx r1) p))
               + fr_offset (fr (rx r2) newp) * fr_var (fr (rx r2) newp))"

lemma align_growth:
  assumes t: "is_align (fr_type (fr (rx r) p))" and cl: "closed_symtab (rx r)" and p: "p \<in> A"
    and sa: "seg_avoids tg segment A (sg (rx r))" and was: "fr_address (fr (rx r) p) = was + stretch r"
  shows "ends (Some (relax_align_frag tg segment p was r)) (\<lambda>(growth, r2). growth_post tg segment A p was r growth r2)"
proof -
  let ?f = "fr (rx r) p"
  let ?new = "padding ?f (fr_address ?f + fr_fix ?f)" and ?old = "padding ?f (was + fr_fix ?f)"
  show ?thesis
  proof (cases "?new - ?old <s 0 \<and> bouncing (fudge r)")
    case False
    show ?thesis by (rule ends_weaken [OF plain_align [OF t cl False]]) (auto simp: growth_post_def)
  next
    case True
    have nz: "stretch r \<noteq> 0"
    proof
      assume "stretch r = 0"
      then have "?new - ?old = 0" using was by simp
      then show False using True by (simp add: word_sless_alt)
    qed
    show ?thesis
    proof (rule ends_Some)
      fix x assume x: "relax_align_frag tg segment p was r = Inr x"
      then obtain growth st where k: "insert_fudge tg segment p (stretch r) ?new (?new - ?old) (rx r) = Inr (growth, st)"
        "x = (growth, r\<lparr>rx := st\<rparr>)"
        using True by (auto simp: relax_align_frag_def Let_def)
      obtain newp where "fudge_step tg segment A p (stretch r) (rx r) growth st newp"
        "growth = ?new - ?old + fr_offset (fr st newp) * fr_var (fr st newp)"
        using insert_fudge_step [OF sa p k(1) refl] by blast
      then show "case x of (growth, r2) \<Rightarrow> growth_post tg segment A p was r growth r2"
        using k(2) t nz by (auto simp: growth_post_def)
    qed
  qed
qed

lemma frag_growth_post:
  assumes inv: "closed_symtab (rx r)" "calm (rx r)" and p: "p \<in> A" and sa: "seg_avoids tg segment A (sg (rx r))"
    and sy: "\<And>s. fr_symbol (fr (rx r) p) = Some s \<Longrightarrow> s < n_syms (sg (rx r))"
    and was: "fr_address (fr (rx r) p) = was + stretch r"
  shows "ends (frag_growth tg segment pass p was r) (\<lambda>(growth, r2). growth_post tg segment A p was r growth r2)"
proof -
  have pl: "ends m (\<lambda>(growth, r2). plain_step p was r growth r2) \<Longrightarrow>
      ends m (\<lambda>(growth, r2). growth_post tg segment A p was r growth r2)" for m
    by (erule ends_weaken) (auto simp: growth_post_def)
  show ?thesis
  proof (cases "fr_type (fr (rx r) p)")
    case rs_fill
    then show ?thesis using plain_fill [OF rs_fill inv(1)]
      by (simp add: frag_growth_def) (rule pl, simp add: ends_def)
  next
    case rs_org
    then show ?thesis using pl [OF plain_org [OF rs_org inv sy]] by (simp add: frag_growth_def)
  next
    case rs_space
    then show ?thesis using pl [OF plain_space [OF _ inv sy was]] by (simp add: frag_growth_def)
  next
    case rs_space_nop
    then show ?thesis using pl [OF plain_space [OF _ inv sy was]] by (simp add: frag_growth_def)
  next
    case rs_machine_dependent
    then show ?thesis using pl [OF plain_jump [OF rs_machine_dependent inv sy]] by (simp add: frag_growth_def)
  next
    case rs_leb128
    then show ?thesis using pl [OF plain_leb128 [OF rs_leb128 inv sy]] by (simp add: frag_growth_def)
  qed (use align_growth [OF _ inv(1) p sa was] in \<open>simp_all add: frag_growth_def is_align_def, simp_all add: ends_def\<close>)
qed

text \<open>The frags as relaxation leaves them when a pass changes nothing.\<close>

definition quiet_frag :: "frag \<Rightarrow> frag \<Rightarrow> bool" where
  "quiet_frag f f' \<longleftrightarrow> (\<exists>m sy. f' = f\<lparr>relax_marker := m, fr_symbol := sy\<rparr> \<and> (sy = fr_symbol f \<or> sy = None))"

definition quiet_step :: "fragP \<Rightarrow> relax_st \<Rightarrow> relax_st \<Rightarrow> bool" where
  "quiet_step p r r2 \<longleftrightarrow> stretch r2 = 0 \<and> sym_evolves (rx r) (rx r2) \<and> (\<forall>q. q \<noteq> p \<longrightarrow> fr (rx r2) q = fr (rx r) q)
     \<and> quiet_frag (fr (rx r) p) (fr (rx r2) p) \<and> settled (rx r2) (\<not> ret r2) p"

definition flags_grow :: "relax_st \<Rightarrow> relax_st \<Rightarrow> bool" where
  "flags_grow r r2 \<longleftrightarrow> (stretched r \<longrightarrow> stretched r2) \<and> (ret r \<longrightarrow> ret r2) \<and> (stretch r2 \<noteq> 0 \<longrightarrow> stretched r2)"

definition one_post :: "target \<Rightarrow> segT \<Rightarrow> fragP option \<Rightarrow> fragP list \<Rightarrow> fragP \<Rightarrow> fragP list \<Rightarrow> relax_st \<Rightarrow> relax_st \<Rightarrow> fragP list \<Rightarrow> bool" where
  "one_post tg segment root us p ws r r2 new \<longleftrightarrow>
     mid_pass tg segment root (us @ [p]) (new @ ws) (stretch r2) (rx r2) \<and> flags_grow r r2
   \<and> (\<forall>q \<in> set ws. fr (rx r2) q = fr (rx r) q)
   \<and> (new = [] \<or> (\<exists>q. new = [q] \<and> fr_type (fr (rx r2) q) = rs_fill) \<and> fr_type (fr (rx r) p) \<noteq> rs_fill)
   \<and> (\<not> stretched r2 \<longrightarrow> new = [] \<and> quiet_step p r r2)"

lemma seg_avoids_cong: "seg_info g' = seg_info g \<Longrightarrow> seg_avoids tg segment A g' = seg_avoids tg segment A g"
  by (simp add: seg_avoids_def)

lemma chain_frag_next_cong:
  assumes "chain (frag_next g) root ids" "\<And>q. fr_next (frags g' q) = fr_next (frags g q)"
  shows "chain (frag_next g') root ids"
proof -
  have "frag_next g' = frag_next g" using assms(2) by (auto simp: frag_next_def)
  then show ?thesis using assms(1) by simp
qed

text \<open>Visiting the first of the remaining frags.\<close>

lemma mid_plain:
  assumes mp: "mid_pass tg segment root us (p # ws) str st"
    and st1: "st1 = upd_fr p (\<lambda>f. f\<lparr>relax_marker := m, fr_address := fr_address f + str\<rparr>) st"
    and ev: "sym_evolves st1 st2" and cl: "closed_symtab st2" and si: "seg_info (sg st2) = seg_info (sg st1)"
    and oth: "\<forall>q. q \<noteq> p \<longrightarrow> fr st2 q = fr st1 q" and os: "only_state (fr st1 p) (fr st2 p) growth"
    and sz: "\<And>n. size_ok (fr st1 p) (fr_address (fr st p)) n \<Longrightarrow> size_ok (fr st2 p) (fr_address (fr st1 p)) (n + growth)"
  shows "mid_pass tg segment root (us @ [p]) ws (str + growth) st2"
proof -
  have M: "chain (frag_next (sg st)) root (us @ p # ws)" "calm st" "syms_known st (us @ p # ws)"
    "seg_avoids tg segment (set (us @ p # ws)) (sg st)"
    "linked (fr st) (map (placed st) us @ [(p, fr_address (fr st p) + str)])"
    "linked (fr st) (map (placed st) (p # ws))"
    "us = [] \<Longrightarrow> fr_address (fr st p) + str = 0" "us \<noteq> [] \<Longrightarrow> fr_address (fr st (hd us)) = 0"
    using mp by (auto simp: mid_pass_def)
  have d: "p \<notin> set us" "p \<notin> set ws" using chain_distinct [OF M(1)] by auto
  have F: "fr st2 q = fr st q" if "q \<noteq> p" for q using oth that by (simp add: st1 fr_upd_fr)
  have Fm: "fr st2 q = fr st q" if "q \<in> set us \<union> set ws" for q using F [of q] d that by auto
  note K = only_state_keeps [OF os]
  have p1: "fr_address (fr st2 p) = fr_address (fr st p) + str" "fr_fix (fr st2 p) = fr_fix (fr st p)"
    "fr_next (fr st2 p) = fr_next (fr st p)" "fr_symbol (fr st2 p) = fr_symbol (fr st p) \<or> fr_symbol (fr st2 p) = None"
    using K by (simp_all add: st1)
  have ch: "chain (frag_next (sg st2)) root (us @ p # ws)"
  proof (rule chain_frag_next_cong [OF M(1)])
    fix q show "fr_next (frags (sg st2) q) = fr_next (frags (sg st) q)"
      using F p1(3) unfolding fr_def by (cases "q = p") auto
  qed
  have e: "sym_evolves st st2" using ev by (simp add: st1 sym_evolves_def)
  have ca: "calm st2" using calm_evolves [OF M(2) e] .
  have sk: "syms_known st2 (us @ p # ws)"
    unfolding syms_known_def
  proof (intro ballI allI impI)
    fix q s assume q: "q \<in> set (us @ p # ws)" "fr_symbol (fr st2 q) = Some s"
    then have "fr_symbol (fr st q) = Some s" using F p1(4) by (cases "q = p") auto
    then show "s < n_syms (sg st2)" using q(1) M(3) sym_evolves_keeps(1) [OF e] unfolding syms_known_def by metis
  qed
  have sa: "seg_avoids tg segment (set (us @ p # ws)) (sg st2)"
    using M(4) si by (simp add: st1 seg_avoids_cong [of "sg st2" "sg st"])
  have mus: "map (placed st2) us = map (placed st) us" "map (placed st2) ws = map (placed st) ws"
    using Fm by (simp_all add: placed_def)
  have dn: "linked (fr st2) (map (placed st) us @ [(p, fr_address (fr st p) + str)])"
    using M(5) Fm by (subst linked_cong_last [where G = "fr st"]) (auto simp: placed_def)
  have rest: "linked (fr st2) (map (placed st) ws)"
    using linked_Cons [of "fr st" "placed st p" "map (placed st) ws"] M(6) Fm
    by (subst linked_cong [where G = "fr st"]) (auto simp: placed_def)
  have gap: "size_ok (fr st2 p) (fr_address (fr st2 p))
      (fr_address (fr st2 q) + (str + growth) - fr_address (fr st2 p) - fr_fix (fr st2 p))" if "ws = q # ws'" for q ws'
  proof -
    let ?n = "fr_address (fr st q) - fr_address (fr st p) - fr_fix (fr st p)"
    have "size_ok (fr st p) (fr_address (fr st p)) ?n" using M(6) that by (simp add: placed_def)
    moreover have "same_size (fr st1 p) (fr st p)" by (simp add: st1 same_size_def)
    ultimately have "size_ok (fr st2 p) (fr_address (fr st1 p)) (?n + growth)" using sz size_ok_cong by blast
    moreover have "fr_address (fr st1 p) = fr_address (fr st2 p)" using K(1) by simp
    moreover have "q \<noteq> p" using d that by auto
    then have "fr_address (fr st2 q) + (str + growth) - fr_address (fr st2 p) - fr_fix (fr st2 p) = ?n + growth"
      using F [of q] p1 by simp
    ultimately show ?thesis by metis
  qed
  have "linked (fr st2) (map (placed st2) (us @ [p]) @ (case ws of [] \<Rightarrow> [] | q # _ \<Rightarrow> [(q, fr_address (fr st2 q) + (str + growth))]))"
  proof (cases ws)
    case Nil
    then show ?thesis using dn [folded mus(1)] p1 by (simp add: placed_def)
  next
    case (Cons q ws')
    then show ?thesis using dn [folded mus(1)] p1 gap [OF Cons] by (simp add: placed_def linked_snoc)
  qed
  moreover have "fr_address (fr st2 (hd (us @ [p]))) = 0"
    using M(7,8) p1(1) F d by (cases us) auto
  ultimately show ?thesis
    using ch cl ca sk sa rest [folded mus(2)] by (simp add: mid_pass_def)
qed

lemma mid_fudge:
  assumes mp: "mid_pass tg segment root us (p # ws) str st"
    and st1: "st1 = upd_fr p (\<lambda>f. f\<lparr>relax_marker := m, fr_address := fr_address f + str\<rparr>) st"
    and fs: "fudge_step tg segment (set (us @ p # ws)) p str st1 growth st2 newp" and al: "is_align (fr_type (fr st1 p))"
    and gr: "growth = padding (fr st1 p) (fr_address (fr st1 p) + fr_fix (fr st1 p))
       - padding (fr st1 p) (fr_address (fr st p) + fr_fix (fr st1 p)) + fr_offset (fr st2 newp) * fr_var (fr st2 newp)"
  shows "mid_pass tg segment root (us @ [p]) (newp # ws) (str + growth) st2"
proof -
  have M: "chain (frag_next (sg st)) root (us @ p # ws)" "closed_symtab st" "calm st" "syms_known st (us @ p # ws)"
    "linked (fr st) (map (placed st) us @ [(p, fr_address (fr st p) + str)])"
    "linked (fr st) (map (placed st) (p # ws))"
    "us = [] \<Longrightarrow> fr_address (fr st p) + str = 0" "us \<noteq> [] \<Longrightarrow> fr_address (fr st (hd us)) = 0"
    using mp by (auto simp: mid_pass_def)
  have S: "newp \<notin> set (us @ p # ws)" "seg_avoids tg segment (insert newp (set (us @ p # ws))) (sg st2)"
    "sym_evolves st1 st2" "sx st2 = sx st1" "\<And>q. q \<noteq> p \<Longrightarrow> q \<noteq> newp \<Longrightarrow> fr st2 q = fr st1 q"
    "fr st2 p = (fr st1 p)\<lparr>fr_next := Some newp\<rparr>" "fr_next (fr st2 newp) = fr_next (fr st1 p)"
    "fr_symbol (fr st2 newp) = fr_symbol (fr st1 p)" "fr_type (fr st2 newp) = rs_fill" "fr_fix (fr st2 newp) = 0"
    and adr: "fr_address (fr st2 newp) + (str + growth) = fr_address (fr st1 p) + fr_fix (fr st1 p)
        + padding (fr st1 p) (fr_address (fr st1 p) + fr_fix (fr st1 p))"
    using fs by (auto simp: fudge_step_def)
  define a where "a = fr_address (fr st p)"
  define x where "x = fr_fix (fr st p)"
  define old where "old = padding (fr st1 p) (a + x)"
  define nw where "nw = padding (fr st1 p) (a + str + x)"
  have p1: "fr_address (fr st1 p) = a + str" "fr_fix (fr st1 p) = x" "fr_next (fr st1 p) = fr_next (fr st p)"
    "fr_symbol (fr st1 p) = fr_symbol (fr st p)" by (simp_all add: st1 a_def x_def)
  have p2: "fr_address (fr st2 p) = a + str" "fr_fix (fr st2 p) = x" using S(6) p1 by simp_all
  have d: "p \<notin> set us" "p \<notin> set ws" "newp \<noteq> p" "newp \<notin> set us" "newp \<notin> set ws" "distinct (us @ p # ws)"
    using chain_distinct [OF M(1)] S(1) by auto
  have F: "fr st2 q = fr st q" if "q \<noteq> p" "q \<noteq> newp" for q using S(5) that by (simp add: st1 fr_upd_fr)
  have Fm: "fr st2 q = fr st q" if "q \<in> set us \<union> set ws" for q using F [of q] d that by auto
  have ch: "chain (frag_next (sg st2)) root (us @ p # newp # ws)"
  proof -
    obtain rr where rr: "path (frag_next (sg st)) root us rr" "rr = Some p" "chain (frag_next (sg st)) (frag_next (sg st) p) ws"
      using M(1) by (auto simp: chain_append)
    have nx: "frag_next (sg st2) q = frag_next (sg st) q" if "q \<noteq> p" "q \<noteq> newp" for q
      using F [OF that] by (simp add: frag_next_def fr_def)
    have "path (frag_next (sg st2)) root us rr"
      using rr(1) d nx path_cong [of us "frag_next (sg st)" "frag_next (sg st2)"] by metis
    moreover have "chain (frag_next (sg st2)) (frag_next (sg st) p) ws"
      using rr(3) d nx path_cong [of ws "frag_next (sg st)" "frag_next (sg st2)"] unfolding chain_def by metis
    moreover have "frag_next (sg st2) p = Some newp" "frag_next (sg st2) newp = frag_next (sg st) p"
      using S(6,7) p1(3) by (simp_all add: frag_next_def fr_def)
    ultimately show ?thesis using rr(2) by (auto simp: chain_append)
  qed
  have e: "sym_evolves st st2" using S(3) by (simp add: st1 sym_evolves_def)
  have cl: "closed_symtab st2"
    by (rule closed_symtab_cong [OF M(2)])
      (use sym_evolves_keeps [OF e] S(4) in \<open>simp_all add: st1 x_value_def split: option.split\<close>)
  have sk: "syms_known st2 (us @ p # newp # ws)"
    unfolding syms_known_def
  proof (intro ballI allI impI)
    fix q s assume q: "q \<in> set (us @ p # newp # ws)" "fr_symbol (fr st2 q) = Some s"
    then have "\<exists>q' \<in> set (us @ p # ws). fr_symbol (fr st q') = Some s"
      using F [of q] S(6,8) p1(4) by (cases "q = p \<or> q = newp") auto
    then show "s < n_syms (sg st2)" using M(4) sym_evolves_keeps(1) [OF e] unfolding syms_known_def by metis
  qed
  have mus: "map (placed st2) us = map (placed st) us" "map (placed st2) ws = map (placed st) ws"
    using Fm by (simp_all add: placed_def)
  have dn: "linked (fr st2) (map (placed st) us @ [(p, a + str)])"
    using M(5) Fm by (subst linked_cong_last [where G = "fr st"]) (auto simp: placed_def a_def)
  have so: "size_ok (fr st2 p) b n = size_ok (fr st1 p) b n" for b n
    by (rule size_ok_cong) (simp add: S(6) same_size_def)
  have gp: "size_ok (fr st2 p) (a + str) (fr_address (fr st2 newp) + (str + growth) - (a + str) - x)"
    unfolding so adr p1 using al by (auto simp: size_ok_def is_align_def p1)
  have gn: "linked (fr st2) (map (placed st2) (newp # ws))"
  proof (cases ws)
    case (Cons q ws')
    have rest: "linked (fr st2) (map (placed st) ws)"
      using linked_Cons [of "fr st" "placed st p" "map (placed st) ws"] M(6) Fm
      by (subst linked_cong [where G = "fr st"]) (auto simp: placed_def)
    have "size_ok (fr st p) a (fr_address (fr st q) - a - x)" using M(6) Cons by (simp add: placed_def a_def x_def)
    moreover have "same_size (fr st p) (fr st1 p)" by (simp add: st1 same_size_def)
    ultimately have "size_ok (fr st1 p) a (fr_address (fr st q) - a - x)" using size_ok_cong by blast
    then have q: "fr_address (fr st q) - a - x = old" using al by (simp add: size_ok_def old_def p1)
    have "fr_address (fr st q) - fr_address (fr st2 newp) = fr_offset (fr st2 newp) * fr_var (fr st2 newp)"
    proof -
      have "fr_address (fr st q) = old + a + x" using q by (simp add: algebra_simps)
      moreover have "fr_address (fr st2 newp) = a + str + x + nw - (str + growth)"
        using adr by (simp add: p1 nw_def algebra_simps)
      moreover have "growth = nw - old + fr_offset (fr st2 newp) * fr_var (fr st2 newp)"
        using gr by (simp add: p1 nw_def old_def a_def)
      ultimately show ?thesis by (simp add: algebra_simps)
    qed
    moreover have "q \<noteq> p" "q \<noteq> newp" using d Cons by auto
    ultimately have "size_ok (fr st2 newp) (fr_address (fr st2 newp)) (fr_address (fr st2 q) - fr_address (fr st2 newp) - fr_fix (fr st2 newp))"
      using S(9,10) F by (simp add: size_ok_def is_align_def)
    then show ?thesis using rest [folded mus(2)] Cons by (simp add: placed_def)
  qed (simp add: placed_def)
  have "linked (fr st2) (map (placed st2) (us @ [p]) @ [(newp, fr_address (fr st2 newp) + (str + growth))])"
    using dn [folded mus(1)] gp p2 by (simp add: placed_def linked_snoc)
  moreover have "fr_address (fr st2 (hd (us @ [p]))) = 0"
    using M(7,8) p2(1) F d by (cases us) (auto simp: a_def)
  ultimately show ?thesis
    using ch cl calm_evolves [OF M(3) e] sk S(2) gn by (simp add: mid_pass_def insert_commute)
qed

lemma settled_ret: "settled st b p \<Longrightarrow> (b' \<Longrightarrow> b) \<Longrightarrow> settled st b' p"
  by (auto simp: settled_def settled_at_def Let_def split: option.splits)

lemma relax_one_post:
  assumes mp: "mid_pass tg segment root us (p # ws) (stretch r) (rx r)" and fl: "stretch r \<noteq> 0 \<Longrightarrow> stretched r"
  shows "ends (relax_one tg segment pass p r) (\<lambda>r3. \<exists>new. one_post tg segment root us p ws r r3 new)"
proof -
  define was where "was = fr_address (fr (rx r) p)"
  define st1 where "st1 = upd_fr p (\<lambda>f. f\<lparr>relax_marker := \<not> relax_marker f, fr_address := fr_address f + stretch r\<rparr>) (rx r)"
  define r1 where "r1 = r\<lparr>rx := st1\<rparr>"
  let ?A = "set (us @ p # ws)"
  have st1': "st1 = upd_fr p (\<lambda>f. f\<lparr>relax_marker := \<not> relax_marker (fr (rx r) p), fr_address := fr_address f + stretch r\<rparr>) (rx r)"
    by (simp add: st1_def upd_fr_def upd_frag_def fr_def)
  have M: "closed_symtab (rx r)" "calm (rx r)" "syms_known (rx r) (us @ p # ws)" "seg_avoids tg segment ?A (sg (rx r))"
    "chain (frag_next (sg (rx r))) root (us @ p # ws)"
    using mp unfolding mid_pass_def by blast+
  have pw: "p \<notin> set ws" using chain_distinct [OF M(5)] by simp
  have sy: "fr_symbol (fr (rx r) p) = Some s \<Longrightarrow> s < n_syms (sg (rx r))" for s
    using M(3) by (auto simp: syms_known_def)
  have G: "ends (frag_growth tg segment pass p was r1) (\<lambda>(growth, r2). growth_post tg segment ?A p was r1 growth r2)"
  proof (rule frag_growth_post)
    show "seg_avoids tg segment ?A (sg (rx r1))"
      using M(4) seg_avoids_cong [of "sg st1" "sg (rx r)"] by (simp add: r1_def st1_def)
  qed (use M sy in \<open>simp_all add: r1_def st1_def was_def\<close>)
  have fin: "\<exists>new. one_post tg segment root us p ws r r3 new"
    if g: "growth_post tg segment ?A p was r1 growth r2"
      and r3: "rx r3 = rx r2" "stretch r3 = stretch r2 + growth" "stretched r3 = (stretched r2 \<or> growth \<noteq> 0)" "ret r3 = ret r2"
    for growth r2 r3
    using g unfolding growth_post_def
  proof (elim disjE exE conjE)
    assume ps: "plain_step p was r1 growth r2"
    have s2: "stretch r2 = stretch r" "stretched r2 = stretched r" "ret r \<Longrightarrow> ret r2" using ps by (auto simp: plain_step_def r1_def)
    have os: "only_state (fr st1 p) (fr (rx r2) p) growth" and oth: "\<forall>q. q \<noteq> p \<longrightarrow> fr (rx r2) q = fr st1 q"
      and e: "sym_evolves st1 (rx r2)" using ps by (auto simp: plain_step_def r1_def)
    have mid: "mid_pass tg segment root (us @ [p]) ws (stretch r + growth) (rx r2)"
      by (rule mid_plain [OF mp st1']) (use ps in \<open>auto simp: plain_step_def r1_def was_def\<close>)
    have quiet: "quiet_step p r r3" if ns: "\<not> stretched r3"
    proof -
      have z: "growth = 0" "stretch r = 0" using ns r3(3) s2(2) fl by auto
      have "quiet_frag (fr (rx r) p) (fr (rx r2) p)"
      proof -
        obtain sy where "fr (rx r2) p = (fr st1 p)\<lparr>fr_symbol := sy\<rparr>" "sy = fr_symbol (fr st1 p) \<or> sy = None"
          using os z by (auto simp: only_state_def)
        then show ?thesis unfolding quiet_frag_def
          by (intro exI [of _ "\<not> relax_marker (fr (rx r) p)"] exI [of _ sy]) (auto simp: st1_def z)
      qed
      moreover have "settled (rx r2) (\<not> ret r2) p" using ps z by (simp add: plain_step_def r1_def)
      moreover have "sym_evolves (rx r) (rx r2)" using e by (simp add: st1_def sym_evolves_def)
      ultimately show ?thesis using r3 s2 z oth by (simp add: quiet_step_def st1_def fr_upd_fr)
    qed
    have "fr (rx r2) q = fr (rx r) q" if "q \<in> set ws" for q
      using oth that pw by (cases "q = p") (auto simp: st1_def fr_upd_fr)
    then have "one_post tg segment root us p ws r r3 []"
      using mid r3 s2 quiet fl unfolding one_post_def flags_grow_def by auto
    then show ?thesis by blast
  next
    fix newp
    assume fs: "fudge_step tg segment ?A p (stretch r1) (rx r1) growth (rx r2) newp" and r2: "r2 = r1\<lparr>rx := rx r2\<rparr>"
      and al: "is_align (fr_type (fr (rx r1) p))" and nz: "stretch r1 \<noteq> 0"
      and gr: "growth = padding (fr (rx r1) p) (fr_address (fr (rx r1) p) + fr_fix (fr (rx r1) p))
               - padding (fr (rx r1) p) (was + fr_fix (fr (rx r1) p))
               + fr_offset (fr (rx r2) newp) * fr_var (fr (rx r2) newp)"
    have s2: "stretch r2 = stretch r" "stretched r2 = stretched r" "ret r2 = ret r"
      by (simp_all add: r2 [THEN arg_cong [where f = stretch]] r2 [THEN arg_cong [where f = stretched]]
          r2 [THEN arg_cong [where f = ret]], simp_all add: r1_def)
    have rx1: "rx r1 = st1" "stretch r1 = stretch r" by (simp_all add: r1_def)
    have mid: "mid_pass tg segment root (us @ [p]) (newp # ws) (stretch r + growth) (rx r2)"
      by (rule mid_fudge [OF mp st1' fs [unfolded rx1] al [unfolded rx1] gr [unfolded rx1 was_def]])
    have st: "stretched r" using fl nz rx1(2) by simp
    have ty: "fr_type (fr (rx r2) newp) = rs_fill" and oth: "\<And>q. q \<noteq> p \<Longrightarrow> q \<noteq> newp \<Longrightarrow> fr (rx r2) q = fr st1 q"
      and nn: "newp \<notin> ?A" using fs by (auto simp: fudge_step_def rx1)
    have "fr (rx r2) q = fr (rx r) q" if "q \<in> set ws" for q
      using oth [of q] that pw nn by (auto simp: st1_def fr_upd_fr)
    moreover have "fr_type (fr (rx r) p) \<noteq> rs_fill" using al by (auto simp: rx1 st1_def is_align_def)
    ultimately have "one_post tg segment root us p ws r r3 [newp]"
      using mid r3 s2 st ty unfolding one_post_def flags_grow_def by simp
    then show ?thesis by blast
  qed
  show ?thesis
    unfolding relax_one_def Let_def was_def [symmetric] st1_def [symmetric] r1_def [symmetric]
  proof (rule ends_bind [OF G], clarify)
    fix growth r2 assume g: "growth_post tg segment ?A p was r1 growth r2"
    show "ends (if growth = 0 then Some (Inr r2) else
        Some (Inr (r2\<lparr>stretch := stretch r2 + growth, stretched := True,
          fudge := next_fudge (fr_type (fr (rx r2) p)) (stretch r2 + growth) (fudge r2)\<rparr>)))
      (\<lambda>r3. \<exists>new. one_post tg segment root us p ws r r3 new)"
      by (cases "growth = 0") (auto simp: ends_def intro!: fin [OF g])
  qed
qed

section \<open>A whole pass\<close>

definition weight :: "sym_st \<Rightarrow> fragP list \<Rightarrow> nat" where
  "weight st vs = sum_list (map (\<lambda>q. if fr_type (fr st q) = rs_fill then 1 else 2) vs)"

definition quiet_pass :: "fragP list \<Rightarrow> relax_st \<Rightarrow> relax_st \<Rightarrow> bool" where
  "quiet_pass vs r r2 \<longleftrightarrow> sym_evolves (rx r) (rx r2) \<and> (\<forall>q. q \<notin> set vs \<longrightarrow> fr (rx r2) q = fr (rx r) q)
     \<and> (\<forall>q \<in> set vs. quiet_frag (fr (rx r) q) (fr (rx r2) q) \<and> settled (rx r2) (\<not> ret r2) q)"

lemma quiet_frag_keeps:
  assumes "quiet_frag f f'"
  shows "fr_address f' = fr_address f" "fr_next f' = fr_next f" "fr_type f' = fr_type f" "fr_fix f' = fr_fix f"
    "fr_offset f' = fr_offset f" "fr_subtype f' = fr_subtype f" "fr_var f' = fr_var f"
  using assms by (auto simp: quiet_frag_def)

text \<open>A settled frag stays settled while other frags only change their mark.\<close>

lemma settled_frame:
  assumes s: "settled st b p" and e: "sym_evolves st st'" and p: "fr st' p = fr st p"
    and a: "\<And>q. fr_address (fr st' q) = fr_address (fr st q)" and b: "b' \<Longrightarrow> b"
  shows "settled st' b' p"
proof -
  have "sem n st' = sem n st" for n by (rule sem_sym_evolves [OF e a])
  moreover have "settled_at st b p v \<Longrightarrow> settled_at st' b' p v" for v
    using a p b by (auto simp: settled_at_def Let_def)
  ultimately show ?thesis using s p by (auto simp: settled_def split: option.splits)
qed

lemma relax_pass_post:
  assumes "mid_pass tg segment root us vs (stretch r) (rx r)" "stretch r \<noteq> 0 \<Longrightarrow> stretched r"
  shows "ends (relax_pass tg segment pass (case vs of [] \<Rightarrow> None | q # _ \<Rightarrow> Some q) r)
    (\<lambda>r2. \<exists>ids. mid_pass tg segment root ids [] (stretch r2) (rx r2) \<and> flags_grow r r2
        \<and> (\<not> stretched r2 \<longrightarrow> ids = us @ vs \<and> quiet_pass vs r r2))"
  using assms
proof (induction "weight (rx r) vs" arbitrary: us vs r rule: less_induct)
  case less
  show ?case
  proof (cases vs)
    case Nil
    then show ?thesis using less.prems
      by (subst relax_pass.simps) (auto simp: ends_def flags_grow_def quiet_pass_def)
  next
    case (Cons p ws)
    note mp = less.prems(1) [unfolded Cons]
    have "chain (frag_next (sg (rx r))) root (us @ p # ws)" using mp unfolding mid_pass_def by blast
    then have pw: "p \<notin> set ws" using chain_distinct [of _ root "us @ p # ws"] by simp
    have one: "ends (relax_one tg segment pass p r) (\<lambda>r3. \<exists>new. one_post tg segment root us p ws r r3 new)"
      by (rule relax_one_post [OF mp less.prems(2)])
    show ?thesis
      unfolding Cons list.case relax_pass.simps [of tg segment pass "Some p" r] option.case
    proof (rule ends_bind [OF one], elim exE)
      fix r3 new assume o: "one_post tg segment root us p ws r r3 new"
      have m3: "mid_pass tg segment root (us @ [p]) (new @ ws) (stretch r3) (rx r3)" and fl: "flags_grow r r3"
        and same: "\<forall>q \<in> set ws. fr (rx r3) q = fr (rx r) q"
        and nw: "new = [] \<or> (\<exists>q. new = [q] \<and> fr_type (fr (rx r3) q) = rs_fill) \<and> fr_type (fr (rx r) p) \<noteq> rs_fill"
        and qs: "\<not> stretched r3 \<Longrightarrow> new = [] \<and> quiet_step p r r3"
        using o by (auto simp: one_post_def)
      have "chain (frag_next (sg (rx r3))) root ((us @ [p]) @ new @ ws)" using m3 by (simp add: mid_pass_def)
      then have nx: "fr_next (fr (rx r3) p) = (case new @ ws of [] \<Rightarrow> None | q # _ \<Rightarrow> Some q)"
        using chain_next [of "frag_next (sg (rx r3))" root us p "new @ ws"] by (simp add: frag_next_def fr_def)
      have "weight (rx r3) ws = weight (rx r) ws" using same by (auto simp: weight_def intro!: arg_cong [where f = sum_list])
      then have w: "weight (rx r3) (new @ ws) < weight (rx r) vs"
        using nw by (auto simp: weight_def Cons)
      have f3: "stretch r3 \<noteq> 0 \<Longrightarrow> stretched r3" using fl by (simp add: flags_grow_def)
      have IH: "ends (relax_pass tg segment pass (case new @ ws of [] \<Rightarrow> None | q # _ \<Rightarrow> Some q) r3)
         (\<lambda>r2. \<exists>ids. mid_pass tg segment root ids [] (stretch r2) (rx r2) \<and> flags_grow r3 r2
            \<and> (\<not> stretched r2 \<longrightarrow> ids = (us @ [p]) @ new @ ws \<and> quiet_pass (new @ ws) r3 r2))"
        by (rule less.hyps [OF w m3]) (rule f3)
      show "ends (relax_pass tg segment pass (fr_next (fr (rx r3) p)) r3)
         (\<lambda>r2. \<exists>ids. mid_pass tg segment root ids [] (stretch r2) (rx r2) \<and> flags_grow r r2
            \<and> (\<not> stretched r2 \<longrightarrow> ids = us @ p # ws \<and> quiet_pass (p # ws) r r2))"
        unfolding nx
      proof (rule ends_weaken [OF IH], elim exE conjE)
        fix r2 ids
        assume m2: "mid_pass tg segment root ids [] (stretch r2) (rx r2)" and fl2: "flags_grow r3 r2"
          and q2: "\<not> stretched r2 \<longrightarrow> ids = (us @ [p]) @ new @ ws \<and> quiet_pass (new @ ws) r3 r2"
        have fl12: "flags_grow r r2" using fl fl2 by (auto simp: flags_grow_def)
        have "ids = us @ p # ws \<and> quiet_pass (p # ws) r r2" if ns: "\<not> stretched r2"
        proof -
          have ns3: "\<not> stretched r3" using fl2 ns by (auto simp: flags_grow_def)
          have q3: "new = []" "quiet_step p r r3" using qs [OF ns3] by auto
          have Q: "ids = us @ p # ws" "quiet_pass ws r3 r2" using q2 ns q3(1) by auto
          have e: "sym_evolves (rx r) (rx r2)" using q3(2) Q(2) sym_evolves_trans by (auto simp: quiet_step_def quiet_pass_def)
          have other: "fr (rx r3) q = fr (rx r) q" if "q \<noteq> p" for q using q3(2) that by (simp add: quiet_step_def)
          have pf: "fr (rx r2) p = fr (rx r3) p" using Q(2) pw by (simp add: quiet_pass_def)
          have adr: "fr_address (fr (rx r2) q) = fr_address (fr (rx r3) q)" for q
            using Q(2) quiet_frag_keeps(1) by (cases "q \<in> set ws") (auto simp: quiet_pass_def)
          have "settled (rx r2) (\<not> ret r2) p"
            by (rule settled_frame [of "rx r3" "\<not> ret r3"])
              (use q3(2) Q(2) pf adr fl2 in \<open>auto simp: quiet_step_def quiet_pass_def flags_grow_def\<close>)
          moreover have "fr (rx r3) q = fr (rx r) q" if "q \<in> set ws" for q using other pw that by metis
          ultimately have "quiet_pass (p # ws) r r2"
            using e Q(2) q3(2) other pf pw unfolding quiet_pass_def quiet_step_def by auto
          then show ?thesis using Q(1) by blast
        qed
        then show "\<exists>ids. mid_pass tg segment root ids [] (stretch r2) (rx r2) \<and> flags_grow r r2
            \<and> (\<not> stretched r2 \<longrightarrow> ids = us @ p # ws \<and> quiet_pass (p # ws) r r2)"
          using m2 fl12 by blast
      qed
    qed
  qed
qed

section \<open>All passes\<close>

lemma mid_pass_restart: "mid_pass tg segment root us [] str st \<Longrightarrow> mid_pass tg segment root [] us 0 st"
  by (cases us) (auto simp: mid_pass_def)

definition all_settled :: "fragP list \<Rightarrow> relax_st \<Rightarrow> bool" where
  "all_settled ids r \<longleftrightarrow> (\<forall>q \<in> set ids. settled (rx r) (\<not> ret r) q)"

lemma relax_round_post:
  assumes "mid_pass tg segment root [] ids 0 (rx r)"
  shows "ends (relax_round tg segment pass root r)
    (\<lambda>r2. \<exists>ids'. mid_pass tg segment root [] ids' 0 (rx r2) \<and> (\<not> stretched r2 \<longrightarrow> all_settled ids' r2))"
proof -
  let ?r = "r\<lparr>stretch := 0, stretched := False\<rparr>"
  have rt: "root = (case ids of [] \<Rightarrow> None | q # _ \<Rightarrow> Some q)"
    using assms by (auto simp: mid_pass_def dest: chain_root)
  have P: "ends (relax_pass tg segment pass root ?r)
    (\<lambda>r2. \<exists>ids'. mid_pass tg segment root ids' [] (stretch r2) (rx r2) \<and> flags_grow ?r r2
        \<and> (\<not> stretched r2 \<longrightarrow> ids' = [] @ ids \<and> quiet_pass ids ?r r2))"
    unfolding rt by (rule relax_pass_post) (use assms [unfolded rt] in simp_all)
  show ?thesis
    unfolding relax_round_def
    by (rule ends_bind [OF P]) (auto simp: ends_def all_settled_def quiet_pass_def dest!: mid_pass_restart)
qed

lemma relax_loop_post:
  assumes "mid_pass tg segment root [] ids 0 (rx r)"
  shows "ends (relax_loop n tg segment pass root r)
    (\<lambda>r2. \<exists>ids'. mid_pass tg segment root [] ids' 0 (rx r2) \<and> all_settled ids' r2)"
  using assms
proof (induction n arbitrary: r ids)
  case 0
  show ?case unfolding relax_loop.simps
    by (rule ends_bind [OF relax_round_post [OF "0.prems"]]) (auto simp: ends_def)
next
  case (Suc n)
  show ?case unfolding relax_loop.simps
    by (rule ends_bind [OF relax_round_post [OF Suc.prems]]) (use Suc.IH in \<open>auto simp: ends_def\<close>)
qed

text \<open>The last loop notes the addresses.\<close>

definition noted :: "sym_st \<Rightarrow> sym_st \<Rightarrow> bool" where
  "noted st st' \<longleftrightarrow> (\<exists>l. sg st' = (sg st)\<lparr>frags := (\<lambda>q. (frags (sg st) q)\<lparr>last_fr_address := l q\<rparr>)\<rparr>) \<and> sx st' = sx st
     \<and> finalize_syms st' = finalize_syms st"

lemma noted_refl [simp]: "noted st st"
  by (auto simp: noted_def intro: exI [of _ "\<lambda>q. last_fr_address (frags (sg st) q)"])

lemma noted_trans [trans]: "noted a b \<Longrightarrow> noted b c \<Longrightarrow> noted a c"
  by (fastforce simp: noted_def)

lemma note_addresses_post:
  assumes "chain (frag_next (sg st)) fp vs"
  shows "ends (note_addresses fp b st) (\<lambda>(b', st'). noted st st' \<and> (\<forall>q. q \<notin> set vs \<longrightarrow> fr st' q = fr st q)
     \<and> (\<forall>q \<in> set vs. last_fr_address (fr st' q) = fr_address (fr st' q))
     \<and> (\<not> b' \<longrightarrow> \<not> b \<and> (\<forall>q \<in> set vs. last_fr_address (fr st q) = fr_address (fr st q))))"
  using assms
proof (induction vs arbitrary: fp b st)
  case Nil
  then show ?case by (subst note_addresses.simps) (simp add: ends_def)
next
  case (Cons p vs)
  have fp: "fp = Some p" and rest: "chain (frag_next (sg st)) (fr_next (fr st p)) vs"
    using Cons.prems by (auto simp: frag_next_def [of _ p] fr_def)
  have d: "p \<notin> set vs" using chain_distinct [OF Cons.prems] by simp
  let ?st1 = "upd_fr p (\<lambda>f. f\<lparr>last_fr_address := fr_address f\<rparr>) st"
  let ?l = "\<lambda>q. if q = p then fr_address (frags (sg st) p) else last_fr_address (frags (sg st) q)"
  have eq: "(frags (sg st))(p := (frags (sg st) p)\<lparr>last_fr_address := fr_address (frags (sg st) p)\<rparr>)
      = (\<lambda>q. (frags (sg st) q)\<lparr>last_fr_address := ?l q\<rparr>)"
    by (auto simp: fun_eq_iff)
  have n1: "noted st ?st1"
    unfolding noted_def upd_fr_def upd_frag_def eq by (intro conjI exI [of _ ?l]) simp_all
  have nx: "frag_next (sg ?st1) = frag_next (sg st)" by (auto simp: frag_next_def upd_fr_def upd_frag_def)
  show ?case
  proof (cases "last_fr_address (fr st p) = fr_address (fr st p)")
    case True
    have "ends (note_addresses (fr_next (fr st p)) b st) (\<lambda>(b', st'). noted st st'
       \<and> (\<forall>q. q \<notin> set (p # vs) \<longrightarrow> fr st' q = fr st q)
       \<and> (\<forall>q \<in> set (p # vs). last_fr_address (fr st' q) = fr_address (fr st' q))
       \<and> (\<not> b' \<longrightarrow> \<not> b \<and> (\<forall>q \<in> set (p # vs). last_fr_address (fr st q) = fr_address (fr st q))))"
      by (rule ends_weaken [OF Cons.IH [OF rest]]) (use True d in auto)
    then show ?thesis unfolding fp by (subst note_addresses.simps) (simp add: True Let_def)
  next
    case False
    have rest1: "chain (frag_next (sg ?st1)) (fr_next (fr ?st1 p)) vs" using rest nx by simp
    have "ends (note_addresses (fr_next (fr ?st1 p)) True ?st1) (\<lambda>(b', st'). noted st st'
       \<and> (\<forall>q. q \<notin> set (p # vs) \<longrightarrow> fr st' q = fr st q)
       \<and> (\<forall>q \<in> set (p # vs). last_fr_address (fr st' q) = fr_address (fr st' q))
       \<and> (\<not> b' \<longrightarrow> \<not> b \<and> (\<forall>q \<in> set (p # vs). last_fr_address (fr st q) = fr_address (fr st q))))"
      by (rule ends_weaken [OF Cons.IH [OF rest1]]) (use d n1 noted_trans in \<open>auto simp: fr_upd_fr\<close>)
    then show ?thesis unfolding fp by (subst note_addresses.simps) (simp add: False Let_def)
  qed
qed

end
