(* ===== verification/Relax_Segment.thy ===== *)
theory Relax_Segment
  imports Layout
begin

text \<open>
  The relaxation of a whole segment: the first guess gives every frag an address that fits the sizes
  guessed, so that the passes of \<open>Layout\<close> start from a consistent chain; together they always come to an
  end, and leave a finished layout.
\<close>

section \<open>The first guess\<close>

definition no_weakrefs :: "sym_st \<Rightarrow> bool" where
  "no_weakrefs st \<longleftrightarrow> (\<forall>q. \<not> weakrefr (sx st q))"

text \<open>A change of frag \<open>p\<close> and of symbols as far as the first guess makes it.\<close>

definition guess_frame :: "fragP \<Rightarrow> sym_st \<Rightarrow> sym_st \<Rightarrow> bool" where
  "guess_frame p st st' \<longleftrightarrow> closed_symtab st' \<and> calm st' \<and> no_weakrefs st' \<and> n_syms (sg st') = n_syms (sg st)
     \<and> (\<forall>q. q \<noteq> p \<longrightarrow> fr st' q = fr st q) \<and> fr_address (fr st' p) = fr_address (fr st p)
     \<and> fr_next (fr st' p) = fr_next (fr st p) \<and> fr_symbol (fr st' p) = fr_symbol (fr st p)
     \<and> frags_chained (sg st') = frags_chained (sg st)
     \<and> (\<forall>seg. map_option frchainP (seg_info (sg st') seg) = map_option frchainP (seg_info (sg st) seg))"

definition guess_inv :: "sym_st \<Rightarrow> bool" where
  "guess_inv st \<longleftrightarrow> closed_symtab st \<and> calm st \<and> no_weakrefs st \<and> frags_chained (sg st)"

lemma guess_frame_refl: "guess_inv st \<Longrightarrow> guess_frame p st st"
  by (simp add: guess_frame_def guess_inv_def)

lemma guess_frame_trans: "guess_frame p a b \<Longrightarrow> guess_frame p b c \<Longrightarrow> guess_frame p a c"
  by (simp add: guess_frame_def)

lemma guess_frame_inv: "guess_inv st \<Longrightarrow> guess_frame p st st' \<Longrightarrow> guess_inv st'"
  by (simp add: guess_frame_def guess_inv_def)

lemma guess_frame_evolves:
  assumes "guess_inv st" "evolves st st'" "closed_symtab st'"
  shows "guess_frame p st st'" "fr st' p = fr st p"
proof -
  have e: "sym_evolves st st'" using evolves_sym [OF assms(2)] .
  have g: "segs_only (sg st) (sg st')" using assms(2) by (simp add: evolves_def)
  have "weakrefr (sx st' q) = weakrefr (sx st q)" for q using evolves_keeps [OF assms(2)] by simp
  moreover have "frags_chained (sg st') = frags_chained (sg st)" using g by (auto simp: segs_only_def)
  ultimately show "guess_frame p st st'"
    using assms calm_evolves [OF _ e] sym_evolves_keeps [OF e] segs_only_keeps [OF g]
    by (simp add: guess_frame_def guess_inv_def no_weakrefs_def fr_def)
  show "fr st' p = fr st p" using segs_only_keeps(1) [OF g] by (simp add: fr_def)
qed

lemma convert_guess_frame:
  assumes inv: "guess_inv st" and s: "s < n_syms (sg st)" and k: "convert_if_local s st = Inr st'"
  shows "guess_frame p st st' \<and> fr st' p = fr st p"
proof (cases "is_local st s")
  case False
  then show ?thesis using k guess_frame_refl [OF inv] by (simp add: convert_if_local_def)
next
  case True
  define x' where "x' = (sx st s)\<lparr>x_expr := (if seg_of st s = reg_section
      then Some ((constant_exp (sy_value (syms (sg st) s)))\<lparr>X_op := O_register\<rparr>) else None),
      weakrefr := False, shadow := False, bsf_global := False, bsf_weak := False,
      bsf_function := False, bsf_object := False, bsf_ifunc := False, hidden := False\<rparr>"
  have st': "sx st' = (sx st)(s := x')" "finalize_syms st' = finalize_syms st"
    "sg st' = (upd_sym s (\<lambda>y. y\<lparr>local_symbol := False\<rparr>) (sg st))\<lparr>sym_chain := sym_chain (sg st) @ [s]\<rparr>"
    using k True by (auto simp: convert_if_local_def local_symbol_convert_def Let_def upd_sx_def x'_def)
  have I: "closed_symtab st" "calm st" "no_weakrefs st" using inv by (auto simp: guess_inv_def)
  have loc: "is_local st' q = (is_local st q \<and> q \<noteq> s)" for q by (simp add: is_local_def st'(3) upd_sym_def)
  have nr: "\<not> resolving (sx st s)" using I(2) True by (auto simp: calm_def md_expr_def)
  have xv: "x_value st' q = x_value st q" if "q \<noteq> s" for q
    using that by (simp add: x_value_def st' upd_sym_def split: option.split)
  have xs: "operands_of (x_value st' s) = {}"
    by (auto simp: x_value_def st'(1) x'_def operands_of_def constant_exp_def)
  have "closed_symtab st'"
    unfolding closed_symtab_def
  proof (intro conjI allI impI)
    show "\<not> finalize_syms st'" using I(1) st'(2) by (simp add: closed_symtab_def)
    fix q assume q: "q < n_syms (sg st')"
    then have q: "q < n_syms (sg st)" by (simp add: st'(3) upd_sym_def)
    then show "\<not> resolved (sx st' q)" using I(1) by (auto simp: closed_symtab_def st'(1) x'_def)
    assume l: "\<not> is_local st' q"
    show "operands_of (x_value st' q) \<subseteq> {..<n_syms (sg st')}"
    proof (cases "q = s")
      case False
      then have "\<not> is_local st q" using l loc by simp
      then show ?thesis using I(1) q xv [OF False] by (simp add: closed_symtab_def st'(3) upd_sym_def)
    qed (simp add: xs)
  qed
  moreover have "calm st'"
    using I(2) nr loc unfolding calm_def st'(1) by (auto simp: x'_def md_expr_def)
  moreover have "no_weakrefs st'" using I(3) by (auto simp: no_weakrefs_def st'(1) x'_def)
  ultimately show ?thesis by (simp add: guess_frame_def fr_def st'(3) upd_sym_def)
qed

lemma S_IS_WEAK_ends: "no_weakrefs st \<Longrightarrow> ends (S_IS_WEAK st s) (\<lambda>_. True)"
  by (subst S_IS_WEAK.simps) (simp add: no_weakrefs_def S_IS_WEAKREFR_def ends_def)

lemma resolved_in_segment_ends:
  assumes inv: "guess_inv st" and s: "s < n_syms (sg st)"
  shows "ends (elf_symbol_resolved_in_segment_p opts s var st) (\<lambda>(_, st'). guess_frame p st st' \<and> fr st' p = fr st p)"
  unfolding elf_symbol_resolved_in_segment_p_def
proof (rule ends_bind [where P = "\<lambda>st'. guess_frame p st st' \<and> fr st' p = fr st p"])
  show "ends (Some (convert_if_local s st)) (\<lambda>st'. guess_frame p st st' \<and> fr st' p = fr st p)"
    by (rule ends_Some) (rule convert_guess_frame [OF inv s])
  fix st1 assume g: "guess_frame p st st1 \<and> fr st1 p = fr st p"
  then have "no_weakrefs st1" by (simp add: guess_frame_def)
  then have "ends (bindOE (S_IS_WEAK st1 s) (\<lambda>w. Some (Inr (\<not> w, st1)))) (\<lambda>(_, st'). guess_frame p st st' \<and> fr st' p = fr st p)"
    using g by (auto intro!: ends_bind [OF S_IS_WEAK_ends] ends_Some)
  then show "ends (if bsf_ifunc (sx st1 s) then Some (Inr (False, st1))
     else if \<not> S_IS_EXTERNAL st1 s then bindOE (S_IS_WEAK st1 s) (\<lambda>w. Some (Inr (\<not> w, st1)))
     else if hidden (sx st1 s) then Some (Inr (True, st1))
     else if reloc_of_var var = BFD_RELOC_X86_64_PLT32 then Some (Inr (False, st1))
     else if reloc_of_var var \<noteq> NO_RELOC then Some (Inl Abort)
     else Some (Inr (\<not> shared opts, st1))) (\<lambda>(_, st'). guess_frame p st st' \<and> fr st' p = fr st p)"
    using g by (auto simp: ends_def)
qed

lemma fix_new_frame:
  assumes k: "fix_new q wh sz s off pcrel rt g = Inr (fx, g')" and fc: "frags_chained g"
  shows "frags g' = frags g \<and> syms g' = syms g \<and> n_syms g' = n_syms g \<and> frags_chained g' \<and> mem g' = mem g
    \<and> (\<forall>seg. map_option frchainP (seg_info g' seg) = map_option frchainP (seg_info g seg))"
  using k fc by (auto simp: fix_new_def fix_new_internal_def Let_def upd_fixes_def split: if_splits)

lemma far_fixup_frame:
  assumes k: "far_fixup p s n wh sz rt g = Inr g'" and fc: "frags_chained g"
  shows "(\<exists>n. frags g' = (frags g)(p := (frags g p)\<lparr>fr_fix := fr_fix (frags g p) + n\<rparr>)) \<and> syms g' = syms g
    \<and> n_syms g' = n_syms g \<and> frags_chained g'
    \<and> (\<forall>seg. map_option frchainP (seg_info g' seg) = map_option frchainP (seg_info g seg))"
proof -
  obtain fx where "fix_new p wh sz (Some s) (fr_offset (frags g p)) True rt (upd_frag p (\<lambda>f. f\<lparr>fr_fix := fr_fix f + n\<rparr>) g) = Inr (fx, g')"
    using k by (auto simp: far_fixup_def Let_def)
  from fix_new_frame [OF this] show ?thesis using fc by (auto simp: upd_frag_def)
qed

lemma poke_list_chained [simp]: "frags_chained (poke_list a bs g) = frags_chained g"
  by (induction bs arbitrary: a g) (simp_all add: poke_def)

lemma emit_far_jump_frame:
  assumes k: "emit_far_jump tg opts p s sz rt g = Inr g'" and fc: "frags_chained g"
  shows "(\<exists>n. frags g' = (frags g)(p := (frags g p)\<lparr>fr_fix := fr_fix (frags g p) + n\<rparr>)) \<and> syms g' = syms g
    \<and> n_syms g' = n_syms g \<and> frags_chained g'
    \<and> (\<forall>seg. map_option frchainP (seg_info g' seg) = map_option frchainP (seg_info g seg))"
proof -
  obtain bs n wh sz' r where "far_fixup p s n wh sz' r (poke_list (fr_opcode tg g p) bs g) = Inr g'"
    using k poke_list.simps(1) [of "fr_opcode tg g p" g] unfolding emit_far_jump_def Let_def
    by (auto split: if_split_asm simp del: poke_list.simps) (metis+)
  from far_fixup_frame [OF this] show ?thesis using fc by simp
qed

text \<open>After the guess a jump has the length of its state, or is a far jump without variable part.\<close>

lemma md_estimate_ends:
  assumes inv: "guess_inv st" and t: "fr_type (fr st p) = rs_machine_dependent"
    and sy: "\<And>s. fr_symbol (fr st p) = Some s \<Longrightarrow> s < n_syms (sg st)"
  shows "ends (md_estimate_size_before_relax tg opts segment p st) (\<lambda>(n, st'). guess_frame p st st'
     \<and> size_ok (fr st' p) a (fr_fix (fr st p) + n - fr_fix (fr st' p)))"
  unfolding md_estimate_size_before_relax_def
proof (rule ends_operand, rule ends_bind [where P = "\<lambda>(_, st'). guess_frame p st st' \<and> fr st' p = fr st p"])
  fix s assume s: "fr_symbol (fr st p) = Some s"
  show "ends (if seg_of st s \<noteq> segment then Some (Inr (False, st))
      else elf_symbol_resolved_in_segment_p opts s (fr_var (fr st p)) st) (\<lambda>(_, st'). guess_frame p st st' \<and> fr st' p = fr st p)"
    using resolved_in_segment_ends [OF inv sy [OF s]] guess_frame_refl [OF inv] by (simp add: ends_def)
  fix x :: "bool \<times> sym_st" assume x: "case x of (_, st') \<Rightarrow> guess_frame p st st' \<and> fr st' p = fr st p"
  obtain here st1 where x': "x = (here, st1)" by fastforce
  have g: "guess_frame p st st1" "fr st1 p = fr st p" using x x' by auto
  have inv1: "guess_inv st1" by (rule guess_frame_inv [OF inv g(1)])
  let ?sz = "if fr_subtype (fr st1 p) AND CODE16 \<noteq> 0 then 2 else 4 :: nat"
  let ?Q = "\<lambda>(n, st'). guess_frame p st st' \<and> size_ok (fr st' p) a (fr_fix (fr st p) + n - fr_fix (fr st' p))"
  have far: "ends (bindOE (Some (emit_far_jump tg opts p s ?sz r (sg st1))) (\<lambda>g.
        let st2 = st1\<lparr>sg := frag_wane p g\<rparr> in Some (Inr (fr_fix (fr st2 p) - fr_fix (fr st1 p), st2)))) ?Q" for r
  proof (rule ends_bind [where P = "\<lambda>g'. emit_far_jump tg opts p s ?sz r (sg st1) = Inr g'"])
    show "ends (Some (emit_far_jump tg opts p s ?sz r (sg st1))) (\<lambda>g'. emit_far_jump tg opts p s ?sz r (sg st1) = Inr g')"
      by (simp add: ends_def)
    fix g' assume e: "emit_far_jump tg opts p s ?sz r (sg st1) = Inr g'"
    have fc: "frags_chained (sg st1)" using inv1 by (simp add: guess_inv_def)
    note K = emit_far_jump_frame [OF e fc]
    let ?st2 = "st1\<lparr>sg := frag_wane p g'\<rparr>"
    obtain n where n: "frags g' = (frags (sg st1))(p := (frags (sg st1) p)\<lparr>fr_fix := fr_fix (frags (sg st1) p) + n\<rparr>)"
      using K by blast
    have F: "fr ?st2 p = wane ((fr st1 p)\<lparr>fr_fix := fr_fix (fr st1 p) + n\<rparr>)" "\<And>q. q \<noteq> p \<Longrightarrow> fr ?st2 q = fr st1 q"
      by (simp_all add: fr_def frag_wane_def upd_frag_def n)
    have lc: "is_local ?st2 q = is_local st1 q" "x_value ?st2 q = x_value st1 q" for q
      using K by (simp_all add: is_local_def x_value_def frag_wane_def upd_frag_def split: option.split)
    have cl: "closed_symtab ?st2"
    proof (rule closed_symtab_cong [of st1])
      show "closed_symtab st1" using inv1 by (simp add: guess_inv_def)
      show "n_syms (sg ?st2) = n_syms (sg st1)" using K by (simp add: frag_wane_def upd_frag_def)
    qed (simp_all add: lc)
    have ca: "calm ?st2" "no_weakrefs ?st2"
      using inv1 unfolding guess_inv_def calm_def no_weakrefs_def lc by auto
    have "guess_frame p st1 ?st2"
      using cl ca F K fc by (simp add: guess_frame_def wane_def) (simp add: frag_wane_def upd_frag_def)
    moreover have "size_ok (fr ?st2 p) a (fr_fix (fr st p) + (fr_fix (fr ?st2 p) - fr_fix (fr st1 p)) - fr_fix (fr ?st2 p))"
      by (simp add: F(1) wane_def g(2) size_ok_def is_align_def)
    ultimately show "ends (let st2 = ?st2 in Some (Inr (fr_fix (fr st2 p) - fr_fix (fr st1 p), st2))) ?Q"
      using guess_frame_trans [OF g(1)] by (simp add: ends_def Let_def)
  qed
  have rel: "ends (far_reloc ?sz (fr st1 p) s st1) (\<lambda>_. True)"
    using S_IS_WEAK_ends [of st1 s] inv1
    by (auto simp: far_reloc_def need_plt32_p_def guess_inv_def ends_def bindOE_def split: sum.splits option.splits)
  show "ends (case x of (here, st1) \<Rightarrow> let f = fr st1 p in
        if \<not> here then (let sz = (if fr_subtype f AND CODE16 \<noteq> 0 then 2 else 4) in
          bindOE (far_reloc sz f s st1) (\<lambda>r. bindOE (Some (emit_far_jump tg opts p s sz r (sg st1))) (\<lambda>g.
          let st2 = st1\<lparr>sg := frag_wane p g\<rparr> in Some (Inr (fr_fix (fr st2 p) - fr_fix f, st2)))))
        else if unat (fr_subtype f) < length md_relax_table
        then Some (Inr (word_of_nat (rlx_length (md_relax_table ! unat (fr_subtype f))), st1)) else Some (Inl Bad_index)) ?Q"
  proof (cases here)
    case False
    then show ?thesis unfolding x' prod.case Let_def using ends_bind [OF rel far] by (simp add: Let_def)
  next
    case True
    then show ?thesis using g t by (simp add: x' ends_def size_ok_def is_align_def Let_def)
  qed
qed

lemma guess_size_ends:
  assumes inv: "guess_inv st" and sy: "\<And>s. fr_symbol (fr st p) = Some s \<Longrightarrow> s < n_syms (sg st)"
  shows "ends (guess_size tg opts segment p (a + fr_fix (fr st p)) st) (\<lambda>(n, st'). guess_frame p st st'
     \<and> size_ok (fr st' p) a (fr_fix (fr st p) + n - fr_fix (fr st' p)))"
proof -
  let ?Q = "\<lambda>(n, st'). guess_frame p st st' \<and> size_ok (fr st' p) a (fr_fix (fr st p) + n - fr_fix (fr st' p))"
  note G = guess_frame_refl [OF inv]
  have al: "ends (let off = padding (fr st p) (a + fr_fix (fr st p)) in
             if fr_var (fr st p) = 0 then Some (Inl Abort)
             else if off mod fr_var (fr st p) \<noteq> 0 then Some (Inl As_bad) else Some (Inr (off, st))) ?Q"
    if "is_align (fr_type (fr st p))"
    using that G by (auto simp: ends_def Let_def size_ok_def is_align_def)
  show ?thesis
  proof (cases "fr_type (fr st p)")
    case rs_machine_dependent
    have "ends (bindOE (case fr_symbol (fr st p) of None \<Rightarrow> Some (Inr st)
          | Some s \<Rightarrow> bindOE (resolve_symbol_value st s) (\<lambda>(_, st1). Some (Inr st1)))
        (md_estimate_size_before_relax tg opts segment p)) ?Q"
    proof (rule ends_bind [where P = "\<lambda>st1. guess_frame p st st1 \<and> fr st1 p = fr st p"])
      show "ends (case fr_symbol (fr st p) of None \<Rightarrow> Some (Inr st)
          | Some s \<Rightarrow> bindOE (resolve_symbol_value st s) (\<lambda>(_, st1). Some (Inr st1))) (\<lambda>st1. guess_frame p st st1 \<and> fr st1 p = fr st p)"
      proof (cases "fr_symbol (fr st p)")
        case (Some s)
        have cl: "closed_symtab st" using inv by (simp add: guess_inv_def)
        have "ends (bindOE (resolve_symbol_value st s) (\<lambda>(_, st1). Some (Inr st1))) (\<lambda>st1. guess_frame p st st1 \<and> fr st1 p = fr st p)"
          by (rule ends_bind [OF resolve_symbol_value_ends [OF cl sy [OF Some]]])
            (use guess_frame_evolves [OF inv] in \<open>auto simp: ends_def\<close>)
        then show ?thesis by (simp add: Some)
      qed (simp add: ends_def G)
      fix st1 assume g: "guess_frame p st st1 \<and> fr st1 p = fr st p"
      have i1: "guess_inv st1" using guess_frame_inv [OF inv] g by blast
      have n1: "n_syms (sg st1) = n_syms (sg st)" using g by (simp add: guess_frame_def)
      show "ends (md_estimate_size_before_relax tg opts segment p st1) ?Q"
        by (rule ends_weaken [OF md_estimate_ends [OF i1, where a = a]])
          (use g rs_machine_dependent sy n1 guess_frame_trans in auto)
    qed
    then show ?thesis by (simp add: guess_size_def rs_machine_dependent)
  next
    case rs_leb128
    let ?st = "upd_fr p (\<lambda>f. f\<lparr>fr_offset := 1\<rparr>) st"
    have "guess_frame p st ?st" using inv by (simp add: guess_frame_def guess_inv_def fr_upd_fr no_weakrefs_def)
    then show ?thesis by (simp add: guess_size_def rs_leb128 ends_def size_ok_def is_align_def)
  qed (use al G in \<open>simp_all add: guess_size_def is_align_def Let_def, simp_all add: ends_def size_ok_def is_align_def\<close>)
qed

text \<open>In the middle of the first guess: \<open>us\<close> have their addresses, the next one goes to \<open>a\<close>.\<close>

definition mid_guess :: "target \<Rightarrow> segT \<Rightarrow> fragP option \<Rightarrow> fragP list \<Rightarrow> fragP list \<Rightarrow> guess \<Rightarrow> bool" where
  "mid_guess tg segment root us vs h \<longleftrightarrow>
     chain (frag_next (sg (gx h))) root (us @ vs) \<and> guess_inv (gx h) \<and> syms_known (gx h) (us @ vs)
   \<and> seg_avoids tg segment (set (us @ vs)) (sg (gx h)) \<and> g_count h = length us
   \<and> linked (fr (gx h)) (map (placed (gx h)) us @ (case vs of [] \<Rightarrow> [] | q # _ \<Rightarrow> [(q, g_address h)]))
   \<and> (us = [] \<longrightarrow> g_address h = 0) \<and> (us \<noteq> [] \<longrightarrow> fr_address (fr (gx h) (hd us)) = 0)"

lemma guess_one_post:
  assumes m: "mid_guess tg segment root us (p # ws) h"
  shows "ends (guess_one tg opts segment p h) (mid_guess tg segment root (us @ [p]) ws)"
proof -
  define st where "st = upd_fr p (\<lambda>f. f\<lparr>region := g_region h, relax_marker := False, fr_address := g_address h\<rparr>) (gx h)"
  have M: "chain (frag_next (sg (gx h))) root (us @ p # ws)" "guess_inv (gx h)" "syms_known (gx h) (us @ p # ws)"
    "seg_avoids tg segment (set (us @ p # ws)) (sg (gx h))" "g_count h = length us"
    "linked (fr (gx h)) (map (placed (gx h)) us @ [(p, g_address h)])" "us = [] \<Longrightarrow> g_address h = 0"
    "us \<noteq> [] \<Longrightarrow> fr_address (fr (gx h) (hd us)) = 0"
    using m by (auto simp: mid_guess_def)
  have d: "p \<notin> set us" "p \<notin> set ws" using chain_distinct [OF M(1)] by auto
  have inv: "guess_inv st" using M(2) by (simp add: st_def guess_inv_def no_weakrefs_def)
  have sy: "fr_symbol (fr st p) = Some s \<Longrightarrow> s < n_syms (sg st)" for s using M(3) by (auto simp: st_def syms_known_def)
  have ad: "fr_address (fr st p) = g_address h" by (simp add: st_def)
  have G: "ends (guess_size tg opts segment p (g_address h + fr_fix (fr st p)) st) (\<lambda>(n, st'). guess_frame p st st'
     \<and> size_ok (fr st' p) (g_address h) (fr_fix (fr st p) + n - fr_fix (fr st' p)))"
    by (rule guess_size_ends [OF inv]) (rule sy)
  show ?thesis
    unfolding guess_one_def Let_def st_def [symmetric]
  proof (rule ends_bind [OF G], clarify, rule ends_Some, clarsimp)
    fix n st2 assume g: "guess_frame p st st2"
      and sz: "size_ok (fr st2 p) (g_address h) (fr_fix (fr st p) + n - fr_fix (fr st2 p))"
    let ?h = "\<lparr>gx = st2, g_address = g_address h + fr_fix (fr st p) + n, g_region = g_region h + new_region (fr_type (fr st p)),
        g_count = Suc (g_count h)\<rparr>"
    have F: "fr st2 q = fr (gx h) q" if "q \<noteq> p" for q using g that by (simp add: guess_frame_def st_def fr_upd_fr)
    have Fm: "fr st2 q = fr (gx h) q" if "q \<in> set us \<union> set ws" for q using F [of q] d that by auto
    have P: "fr_address (fr st2 p) = g_address h" "fr_next (fr st2 p) = fr_next (fr (gx h) p)"
      "fr_symbol (fr st2 p) = fr_symbol (fr (gx h) p)"
      using g ad by (auto simp: guess_frame_def st_def)
    have ch: "chain (frag_next (sg st2)) root (us @ p # ws)"
    proof (rule chain_frag_next_cong [OF M(1)])
      fix q show "fr_next (frags (sg st2) q) = fr_next (frags (sg (gx h)) q)"
        using F P(2) unfolding fr_def by (cases "q = p") auto
    qed
    have i2: "guess_inv st2" by (rule guess_frame_inv [OF inv g])
    have nn: "n_syms (sg st2) = n_syms (sg (gx h))" using g by (simp add: guess_frame_def st_def)
    have sk: "syms_known st2 (us @ p # ws)"
      unfolding syms_known_def
    proof (intro ballI allI impI)
      fix q s assume q: "q \<in> set (us @ p # ws)" "fr_symbol (fr st2 q) = Some s"
      then have "fr_symbol (fr (gx h) q) = Some s" using F P(3) by (cases "q = p") auto
      then show "s < n_syms (sg st2)" using q(1) M(3) nn unfolding syms_known_def by metis
    qed
    have si: "map_option frchainP (seg_info (sg st2) segment) = map_option frchainP (seg_info (sg (gx h)) segment)"
      using g by (simp add: guess_frame_def st_def)
    have sa: "seg_avoids tg segment (set (us @ p # ws)) (sg st2)"
      unfolding seg_avoids_def
    proof (intro allI impI)
      fix si fc fcs assume a: "seg_info (sg st2) segment = Some si" "frchainP si = fc # fcs"
      then obtain si' where "seg_info (sg (gx h)) segment = Some si'" "frchainP si' = fc # fcs"
        using si by (cases "seg_info (sg (gx h)) segment") auto
      then show "avoids tg (frch_obstack fc) (set (us @ p # ws))" using M(4) unfolding seg_avoids_def by blast
    qed
    have mus: "map (placed st2) us = map (placed (gx h)) us" using Fm by (simp add: placed_def)
    have dn: "linked (fr st2) (map (placed (gx h)) us @ [(p, g_address h)])"
      using M(6) Fm by (subst linked_cong_last [where G = "fr (gx h)"]) (auto simp: placed_def)
    have "linked (fr st2) (map (placed st2) (us @ [p]) @ (case ws of [] \<Rightarrow> [] | q # _ \<Rightarrow> [(q, g_address h + fr_fix (fr st p) + n)]))"
      using dn [folded mus] P(1) sz by (cases ws) (simp_all add: placed_def linked_snoc algebra_simps)
    moreover have "fr_address (fr st2 (hd (us @ [p]))) = 0" using M(7,8) P(1) Fm by (cases us) auto
    ultimately show "mid_guess tg segment root (us @ [p]) ws ?h"
      using ch i2 sk sa M(5) by (cases ws) (simp_all add: mid_guess_def)
  qed
qed

lemma first_guess_post:
  assumes "mid_guess tg segment root us vs h"
  shows "ends (first_guess tg opts segment (case vs of [] \<Rightarrow> None | q # _ \<Rightarrow> Some q) h) (mid_guess tg segment root (us @ vs) [])"
  using assms
proof (induction vs arbitrary: us h)
  case Nil
  then show ?case by (subst first_guess.simps) (simp add: ends_def)
next
  case (Cons p ws)
  show ?case
    unfolding list.case first_guess.simps [of tg opts segment "Some p" h] option.case
  proof (rule ends_bind [OF guess_one_post [OF Cons.prems]])
    fix h1 assume m: "mid_guess tg segment root (us @ [p]) ws h1"
    then have "chain (frag_next (sg (gx h1))) root (us @ p # ws)" by (simp add: mid_guess_def)
    from chain_next [OF this] have nx: "fr_next (fr (gx h1) p) = (case ws of [] \<Rightarrow> None | q # _ \<Rightarrow> Some q)"
      by (simp add: frag_next_def fr_def)
    show "ends (first_guess tg opts segment (fr_next (fr (gx h1) p)) h1) (mid_guess tg segment root (us @ p # ws) [])"
      using Cons.IH [OF m] by (simp add: nx)
  qed
qed

section \<open>The whole relaxation of a segment\<close>

text \<open>What a segment must satisfy for relaxation: its frags form a chain, their symbols exist, the symbol table
  is closed, and memory for new frags is disjoint from them.\<close>

definition relaxable :: "target \<Rightarrow> segT \<Rightarrow> fragP option \<Rightarrow> fragP list \<Rightarrow> sym_st \<Rightarrow> bool" where
  "relaxable tg segment root ids st \<longleftrightarrow> chain (frag_next (sg st)) root ids \<and> guess_inv st \<and> syms_known st ids
     \<and> seg_avoids tg segment (set ids) (sg st)"

text \<open>A finished layout: the first frag is at 0, each frag starts where the one before it ends, all are settled
  and the addresses have been noted.\<close>

definition laid_out :: "sym_st \<Rightarrow> bool \<Rightarrow> fragP option \<Rightarrow> fragP list \<Rightarrow> bool" where
  "laid_out st good root ids \<longleftrightarrow> chain (frag_next (sg st)) root ids
     \<and> (ids \<noteq> [] \<longrightarrow> fr_address (fr st (hd ids)) = 0) \<and> linked (fr st) (map (placed st) ids)
     \<and> (\<forall>q \<in> set ids. settled st good q \<and> last_fr_address (fr st q) = fr_address (fr st q))"

lemma relaxable_subseg_change:
  assumes "relaxable tg segment root ids st"
  shows "relaxable tg segment root ids (st\<lparr>sg := subseg_change segment 0 (sg st)\<rparr>)"
proof -
  let ?g = "subseg_change segment 0 (sg st)" and ?st = "st\<lparr>sg := subseg_change segment 0 (sg st)\<rparr>"
  have k: "frags ?g = frags (sg st)" "syms ?g = syms (sg st)" "n_syms ?g = n_syms (sg st)"
    "frags_chained ?g = frags_chained (sg st)"
    by (simp_all add: subseg_change_def alloc_seginfo_def Let_def)
  have l: "is_local ?st q = is_local st q" "x_value ?st q = x_value st q" for q
    using k by (simp_all add: is_local_def x_value_def split: option.split)
  have "closed_symtab ?st"
    by (rule closed_symtab_cong [of st]) (use assms k l in \<open>auto simp: relaxable_def guess_inv_def\<close>)
  moreover have "calm ?st" "no_weakrefs ?st"
    using assms l by (auto simp: relaxable_def guess_inv_def calm_def no_weakrefs_def)
  moreover have "seg_avoids tg segment (set ids) ?g"
    using assms by (auto simp: relaxable_def seg_avoids_def subseg_change_def alloc_seginfo_def empty_segment_def Let_def)
  moreover have "frag_next ?g = frag_next (sg st)" by (simp add: frag_next_def k fun_eq_iff)
  ultimately show ?thesis
    using assms k by (simp add: relaxable_def guess_inv_def syms_known_def fr_def)
qed

lemma noted_laid_out:
  assumes n: "noted st st'" and m: "mid_pass tg segment root [] ids 0 st"
    and s: "\<And>q. q \<in> set ids \<Longrightarrow> settled st good q" and weaker: "good' \<Longrightarrow> good"
    and l: "\<And>q. q \<in> set ids \<Longrightarrow> last_fr_address (fr st' q) = fr_address (fr st' q)"
  shows "laid_out st' good' root ids"
proof -
  obtain la where g: "sg st' = (sg st)\<lparr>frags := (\<lambda>q. (frags (sg st) q)\<lparr>last_fr_address := la q\<rparr>)\<rparr>"
    and x: "sx st' = sx st" "finalize_syms st' = finalize_syms st"
    using n by (auto simp: noted_def)
  have f: "fr st' q = (fr st q)\<lparr>last_fr_address := la q\<rparr>" for q by (simp add: fr_def g)
  have e: "sym_evolves st st'"
    unfolding sym_evolves_def using x by (auto simp: g intro!: exI [of _ "\<lambda>q. sy_seg (syms (sg st) q)"])
  have sem: "sem k st' = sem k st" for k by (rule sem_sym_evolves [OF e]) (simp add: f)
  have "settled st' good' q" if "q \<in> set ids" for q
    using s [OF that] weaker unfolding settled_def settled_at_def sem f Let_def
    by (auto split: option.splits)
  moreover have "linked (fr st') (map (placed st') ids)"
  proof -
    have "linked (fr st) (map (placed st) ids)" using m by (simp add: mid_pass_def)
    moreover have pl: "placed st' = placed st" by (simp add: placed_def f fun_eq_iff)
    moreover have "linked (fr st') (map (placed st) ids) = linked (fr st) (map (placed st) ids)"
      by (rule linked_cong) (simp add: f same_size_def)
    ultimately show ?thesis by simp
  qed
  moreover have "frag_next (sg st') = frag_next (sg st)" by (simp add: frag_next_def g fun_eq_iff)
  ultimately show ?thesis
    using m l by (cases ids) (auto simp: laid_out_def mid_pass_def f)
qed

lemma relax_segment_post:
  assumes "relaxable tg segment root ids st"
  shows "ends (relax_segment tg opts root segment pass st) (\<lambda>(again, st'). \<exists>ids'. laid_out st' (\<not> again) root ids')"
proof -
  let ?h = "\<lparr>gx = st\<lparr>sg := subseg_change segment 0 (sg st)\<rparr>, g_address = 0, g_region = 0, g_count = 0\<rparr>"
  have m: "mid_guess tg segment root [] ids ?h"
    using relaxable_subseg_change [OF assms] by (cases ids) (simp_all add: mid_guess_def relaxable_def)
  have rt: "root = (case ids of [] \<Rightarrow> None | q # _ \<Rightarrow> Some q)"
    using assms by (auto simp: relaxable_def dest: chain_root)
  have G: "ends (first_guess tg opts segment root ?h) (mid_guess tg segment root ids [])"
    using first_guess_post [OF m, of opts] by (simp flip: rt)
  show ?thesis unfolding relax_segment_def
  proof (rule ends_bind [OF G])
    fix h assume h: "mid_guess tg segment root ids [] h"
    let ?r = "\<lparr>rx = gx h, stretch = 0, stretched = False, fudge = 0, ret = False\<rparr>"
    have "mid_pass tg segment root [] ids 0 (rx ?r)"
      using h by (cases ids) (simp_all add: mid_pass_def mid_guess_def guess_inv_def)
    from relax_loop_post [OF this]
    show "ends (bindOE (relax_loop (max_iterations (g_count h) - 1) tg segment pass root ?r) (\<lambda>r. note_addresses root (ret r) (rx r)))
      (\<lambda>(again, st'). \<exists>ids'. laid_out st' (\<not> again) root ids')"
    proof (rule ends_bind)
      fix r assume "\<exists>ids'. mid_pass tg segment root [] ids' 0 (rx r) \<and> all_settled ids' r"
      then obtain ids' where r: "mid_pass tg segment root [] ids' 0 (rx r)" "all_settled ids' r" by blast
      then have "chain (frag_next (sg (rx r))) root ids'" by (simp add: mid_pass_def)
      from note_addresses_post [OF this]
      show "ends (note_addresses root (ret r) (rx r)) (\<lambda>(again, st'). \<exists>ids'. laid_out st' (\<not> again) root ids')"
      proof (rule ends_weaken, clarify, intro exI [of _ ids'])
        fix again st' assume a: "noted (rx r) st'" "\<forall>q \<in> set ids'. last_fr_address (fr st' q) = fr_address (fr st' q)"
          "\<not> again \<longrightarrow> \<not> ret r \<and> (\<forall>q \<in> set ids'. last_fr_address (fr (rx r) q) = fr_address (fr (rx r) q))"
        show "laid_out st' (\<not> again) root ids'"
          by (rule noted_laid_out [OF a(1) r(1), where good = "\<not> ret r"]) (use a r(2) in \<open>auto simp: all_settled_def\<close>)
      qed
    qed
  qed
qed

text \<open>Frags whose size no symbol decides.\<close>

definition plain_frag :: "frag \<Rightarrow> bool" where
  "plain_frag f \<longleftrightarrow> fr_type f = rs_fill \<or> is_align (fr_type f) \<and> fr_var f = 1"

lemma guess_one_plain:
  assumes "plain_frag (fr (gx h) p)"
  shows "\<exists>h'. guess_one tg opts segment p h = Some (Inr h') 
    \<and> sg (gx h') = upd_frag p (\<lambda>f. f\<lparr>region := g_region h, relax_marker := False, fr_address := g_address h\<rparr>) (sg (gx h))"
  using assms
  by (auto simp: guess_one_def guess_size_def plain_frag_def is_align_def Let_def upd_fr_def fr_def upd_frag_def)

lemma frag_next_upd [simp]:
  assumes "\<And>f. fr_next (F f) = fr_next f"
  shows "frag_next (upd_frag p F g) = frag_next g"
  using assms by (auto simp: frag_next_def upd_frag_def)

lemma first_guess_plain:
  assumes "chain (frag_next (sg (gx h))) fp ids" "\<forall>q. q \<in> set ids \<longrightarrow> plain_frag (fr (gx h) q)" "\<forall>q \<in> A. plain_frag (fr (gx h) q)"
  shows "\<exists>h'. first_guess tg opts segment fp h = Some (Inr h') \<and> frag_next (sg (gx h')) = frag_next (sg (gx h))
    \<and> (\<forall>q \<in> A. plain_frag (fr (gx h') q))"
  using assms
proof (induction ids arbitrary: fp h)
  case Nil
  then show ?case by (subst first_guess.simps) simp
next
  case (Cons p ids)
  have fp: "fp = Some p" using Cons.prems(1) by simp
  obtain h1 where h1: "guess_one tg opts segment p h = Some (Inr h1)"
    "sg (gx h1) = upd_frag p (\<lambda>f. f\<lparr>region := g_region h, relax_marker := False, fr_address := g_address h\<rparr>) (sg (gx h))"
    using guess_one_plain [of h p tg opts segment] Cons.prems(2) by auto
  have nx: "frag_next (sg (gx h1)) = frag_next (sg (gx h))" by (simp add: h1(2))
  have pl: "plain_frag (fr (gx h1) q) = plain_frag (fr (gx h) q)" for q
    by (simp add: fr_def h1(2) upd_frag_def plain_frag_def)
  have "fr_next (fr (gx h1) p) = frag_next (sg (gx h)) p" using nx by (simp add: frag_next_def fr_def fun_eq_iff)
  then show ?case
    using Cons.IH [of h1 "frag_next (sg (gx h)) p"] Cons.prems
    by (simp add: fp first_guess.simps [of tg opts segment "Some p"] h1(1) nx pl)
qed

lemma relax_one_plain:
  assumes "plain_frag (fr (rx r) p)" "stretch r = 0"
  shows "\<exists>m. relax_one tg segment pass p r = Some (Inr (r\<lparr>rx := upd_fr p (\<lambda>f. f\<lparr>relax_marker := m\<rparr>) (rx r)\<rparr>))"
  using assms
  by (auto simp: relax_one_def frag_growth_def relax_align_frag_def plain_frag_def is_align_def Let_def)
    (auto simp: upd_fr_def upd_frag_def fr_def intro!: exI [of _ "\<not> relax_marker (fr (rx r) p)"])

lemma relax_pass_plain:
  assumes "chain (frag_next (sg (rx r))) fp ids" "\<forall>q \<in> set ids. plain_frag (fr (rx r) q)" "stretch r = 0"
  shows "\<exists>r'. relax_pass tg segment pass fp r = Some (Inr r') \<and> stretched r' = stretched r
    \<and> frag_next (sg (rx r')) = frag_next (sg (rx r))"
  using assms
proof (induction ids arbitrary: fp r)
  case Nil
  then show ?case by (subst relax_pass.simps) simp
next
  case (Cons p ids)
  have fp: "fp = Some p" using Cons.prems(1) by simp
  obtain m where m: "relax_one tg segment pass p r = Some (Inr (r\<lparr>rx := upd_fr p (\<lambda>f. f\<lparr>relax_marker := m\<rparr>) (rx r)\<rparr>))"
    using relax_one_plain [of r p tg segment pass] Cons.prems by auto
  let ?r = "r\<lparr>rx := upd_fr p (\<lambda>f. f\<lparr>relax_marker := m\<rparr>) (rx r)\<rparr>"
  have nx: "frag_next (sg (rx ?r)) = frag_next (sg (rx r))" by (simp add: upd_fr_def)
  have pl: "plain_frag (fr (rx ?r) q) = plain_frag (fr (rx r) q)" for q by (simp add: fr_upd_fr plain_frag_def)
  have "fr_next (fr (rx ?r) p) = frag_next (sg (rx r)) p" using nx by (simp add: frag_next_def fr_def fun_eq_iff)
  then show ?case
    using Cons.IH [of ?r "frag_next (sg (rx r)) p"] Cons.prems nx pl
    by (simp add: fp relax_pass.simps [of tg segment pass "Some p"] m)
qed

lemma note_addresses_returns:
  assumes "chain (frag_next (sg st)) fp ids"
  shows "\<exists>b' st'. note_addresses fp b st = Some (Inr (b', st'))"
  using assms
proof (induction ids arbitrary: fp b st)
  case Nil
  then show ?case by (subst note_addresses.simps) simp
next
  case (Cons p ids)
  have fp: "fp = Some p" using Cons.prems by simp
  let ?st1 = "upd_fr p (\<lambda>f. f\<lparr>last_fr_address := fr_address f\<rparr>) st"
  have nx: "frag_next (sg ?st1) = frag_next (sg st)" by (simp add: upd_fr_def)
  have "fr_next (fr st p) = frag_next (sg st) p" by (simp add: frag_next_def fr_def)
  then show ?case
    using Cons.IH [of st "frag_next (sg st) p" b] Cons.IH [of ?st1 "frag_next (sg st) p" True] Cons.prems nx
    by (simp add: fp note_addresses.simps [of "Some p"] Let_def)
qed

lemma relax_segment_plain:
  assumes c: "chain (frag_next (sg st)) root ids" and p: "\<forall>q \<in> set ids. plain_frag (fr st q)"
  shows "\<exists>again st'. relax_segment tg opts root segment pass st = Some (Inr (again, st'))"
proof -
  let ?h = "\<lparr>gx = st\<lparr>sg := subseg_change segment 0 (sg st)\<rparr>, g_address = 0, g_region = 0, g_count = 0\<rparr>"
  have fr0: "frags (sg (gx ?h)) = frags (sg st)" by (simp add: subseg_change_def alloc_seginfo_def Let_def)
  then have nx0: "frag_next (sg (gx ?h)) = frag_next (sg st)" by (simp add: frag_next_def fun_eq_iff)
  obtain h where h: "first_guess tg opts segment root ?h = Some (Inr h)" "frag_next (sg (gx h)) = frag_next (sg st)"
    "\<forall>q \<in> set ids. plain_frag (fr (gx h) q)"
    using first_guess_plain [of ?h root ids "set ids" tg opts segment] c p nx0 fr0 by (auto simp: fr_def)
  let ?r = "\<lparr>rx = gx h, stretch = 0, stretched = False, fudge = 0, ret = False\<rparr>"
  obtain r where r: "relax_pass tg segment pass root ?r = Some (Inr r)" "\<not> stretched r" "frag_next (sg (rx r)) = frag_next (sg st)"
    using relax_pass_plain [of ?r root ids tg segment pass] h c by auto
  have "relax_round tg segment pass root ?r = Some (Inr (r\<lparr>fudge := fudge_after r\<rparr>))"
    by (simp add: relax_round_def r(1))
  then have l: "relax_loop n tg segment pass root ?r = Some (Inr (r\<lparr>fudge := fudge_after r\<rparr>))" for n
    by (cases n) (simp_all add: r(2))
  show ?thesis
    using note_addresses_returns [of "rx r" root ids "ret r"] c r(3) by (simp add: relax_segment_def h(1) l)
qed

section \<open>Properties\<close>

text \<open>A jump over 200 octets, the octets, and the frag of the label behind them.\<close>

definition demo_jump_frags :: "fragP \<Rightarrow> frag" where
  "demo_jump_frags = (\<lambda>_. zero_frag)
     (100 := zero_frag\<lparr>fr_type := rs_machine_dependent, fr_fix := 1, fr_symbol := Some 0, fr_next := Some 200\<rparr>,
      200 := zero_frag\<lparr>fr_type := rs_fill, fr_fix := 200, fr_next := Some 300\<rparr>,
      300 := zero_frag\<lparr>fr_type := rs_fill\<rparr>)"

definition demo_jump :: sym_st where
  "demo_jump = \<lparr>sg = boot_gas\<lparr>n_syms := 1, syms := (\<lambda>_. syms boot_gas 0)(0 := demo_label 300 0),
      frags := demo_jump_frags, frags_chained := True\<rparr>,
    sx = (\<lambda>_. plain_symx), finalize_syms = False\<rparr>"

lemma demo_jump_ready: "relaxable sample_target text_section (Some 100) [100, 200, 300] demo_jump"
proof -
  have "guess_inv demo_jump"
    by (auto simp: guess_inv_def closed_symtab_def calm_def no_weakrefs_def demo_jump_def plain_symx_def is_local_def demo_label_def)
  moreover have "seg_avoids sample_target text_section {100, 200, 300} (sg demo_jump)"
    by (simp add: seg_avoids_def demo_jump_def boot_gas_def)
  ultimately show ?thesis
    by (simp add: relaxable_def syms_known_def demo_jump_def demo_jump_frags_def fr_def frag_next_def zero_frag_def)
qed

text \<open>C11: The relaxation of a segment always comes to an end - with a diagnostic or with a layout in which the
  first frag is at address 0, every frag starts where the fixed part and the variable part of the one before
  it end, every jump reaches its target or has its longest form, every LEB128 number has the size its value
  needs, alignment padding is what the address asks for, and, unless another round over the segments is
  requested, the frags behind \<open>.org\<close> and \<open>.space\<close> are exactly where the directive puts them.\<close>

theorem relax_segment_lays_out:
  assumes "relaxable tg segment root ids st"
  shows "\<exists>res. relax_segment tg opts root segment pass st = Some res
    \<and> (\<forall>again st'. res = Inr (again, st') \<longrightarrow> (\<exists>ids'. laid_out st' (\<not> again) root ids'))"
  using relax_segment_post [OF assms] by (auto simp: ends_def)

theorem relax_segment_lays_out_witness:
  "\<exists>res. relax_segment sample_target \<lparr>shared = False, no_cond_jump_promotion = False\<rparr> (Some 100) text_section 0 demo_jump
     = Some res"
  using relax_segment_lays_out [OF demo_jump_ready] by blast

text \<open>C36: A segment of octets and of alignment by single octets - the data sections, and the text once its
  jumps are fixed - is laid out without any further pass: relaxation returns, and the layout is finished.\<close>

theorem data_segment_relaxes:
  assumes "relaxable tg segment root ids st" "\<forall>q \<in> set ids. plain_frag (fr st q)"
  shows "\<exists>again st' ids'. relax_segment tg opts root segment pass st = Some (Inr (again, st'))
    \<and> laid_out st' (\<not> again) root ids'"
proof -
  have "chain (frag_next (sg st)) root ids" using assms(1) by (simp add: relaxable_def)
  from relax_segment_plain [OF this assms(2)] obtain again st'
    where r: "relax_segment tg opts root segment pass st = Some (Inr (again, st'))" by blast
  then show ?thesis using relax_segment_post [OF assms(1), of opts pass] by (auto simp: ends_def)
qed

lemma demo_data_ready: "relaxable sample_target text_section (Some 200) [200, 300] demo_jump"
  using demo_jump_ready by (auto simp: relaxable_def syms_known_def seg_avoids_def demo_jump_def boot_gas_def)

theorem data_segment_relaxes_witness:
  "\<exists>again st' ids'. relax_segment sample_target \<lparr>shared = False, no_cond_jump_promotion = False\<rparr> (Some 200) text_section 0 demo_jump
     = Some (Inr (again, st')) \<and> laid_out st' (\<not> again) (Some 200) ids'"
  by (rule data_segment_relaxes [OF demo_data_ready])
    (simp add: plain_frag_def demo_jump_def demo_jump_frags_def fr_def)

lemma take_bit_add_word: "take_bit n (take_bit n a + take_bit n b) = take_bit n (a + b :: u64)"
proof (cases "n \<le> 64")
  case True
  have m: "2 ^ n dvd (2 ^ 64 :: nat)" using True by (rule le_imp_power_dvd)
  have t: "unat (take_bit n x) = unat x mod 2 ^ n" for x :: u64 by (simp add: unsigned_take_bit_eq flip: take_bit_eq_mod)
  have "unat (take_bit n (x + y)) = (unat x + unat y) mod 2 ^ n" for x y :: u64
    unfolding t using mod_mod_cancel [OF m] by (simp add: unat_word_ariths)
  then have "unat (take_bit n (take_bit n a + take_bit n b)) = unat (take_bit n (a + b))"
    by (simp only: t mod_add_eq)
  then show ?thesis by (simp only: word_unat_eq_iff)
qed (simp add: take_bit_word_eq_self)

lemma take_bit_le_mask:
  assumes "d \<le> mask n"
  shows "take_bit n d = (d :: u64)"
proof (cases "n < 64")
  case True
  have "unat (mask n :: u64) = take_bit n (unat (- 1 :: u64))"
    by (simp only: unsigned_take_bit_eq flip: take_bit_minus_one_eq_mask)
  also have "\<dots> < 2 ^ n" by (rule take_bit_nat_less_exp)
  finally have "unat d < 2 ^ n" using assms by (simp add: word_le_nat_alt)
  then have "unat (take_bit n d) = unat d" by (simp add: unsigned_take_bit_eq take_bit_nat_eq_self_iff)
  then show ?thesis by (simp only: word_unat_eq_iff)
qed (simp add: take_bit_word_eq_self)

text \<open>The padding to a power of two is less than that power, and the address behind it is a multiple of
  it; no smaller padding would do.\<close>

theorem relax_align_least:
  "relax_align a n \<le> mask n \<and> take_bit n (a + relax_align a n) = 0
   \<and> (\<forall>k. take_bit n (a + k) = 0 \<longrightarrow> relax_align a n \<le> k)"
proof (intro conjI allI impI)
  show "relax_align a n \<le> mask n" by (rule relax_align_le)
  show "take_bit n (a + relax_align a n) = 0" by (rule relax_align_aligns)
  fix k assume k: "take_bit n (a + k) = 0"
  show "relax_align a n \<le> k"
  proof (rule ccontr)
    assume "\<not> relax_align a n \<le> k"
    then have lt: "k < relax_align a n" by simp
    let ?d = "relax_align a n - k"
    have "a + relax_align a n = (a + k) + ?d" by simp
    then have "take_bit n (a + relax_align a n) = take_bit n (take_bit n (a + k) + take_bit n ?d)"
      by (simp only: take_bit_add_word)
    then have "take_bit n ?d = 0" using k relax_align_aligns [of n a] by simp
    moreover have "?d \<le> mask n" using lt relax_align_le [of a n] by (meson le_less_trans less_imp_le order.trans word_sub_le)
    then have "take_bit n ?d = ?d" by (rule take_bit_le_mask)
    ultimately show False using lt by simp
  qed
qed

theorem relax_align_least_witness:
  "relax_align 0x13 2 = 1 \<and> take_bit 2 (0x13 + 5 :: u64) = 0 \<and> relax_align 0x13 2 \<le> 5"
proof -
  have "take_bit 2 (0x13 + 5 :: u64) = 0" by simp
  then have "relax_align 0x13 2 \<le> 5" using relax_align_least [of "0x13" 2] by blast
  then show ?thesis by (simp add: relax_align_eq mask_eq_exp_minus_1)
qed

end
