(* ===== verification/Bbinfo.thy ===== *)
theory Bbinfo
  imports Encoding Symbols "HOL-Library.Multiset"
begin

text \<open>
  Basic blocks and their fixups (\<open>src/gas/bbInfoHandle.c\<close>, with its calls in
  \<open>src/gas/config/tc-i386.c\<close> and \<open>src/gas/config/obj-elf.c\<close>): the directives \<open>.bbinfo_*\<close> of an
  instrumented compiler, and the instructions of a handwritten file, open and close basic blocks; the
  fixups of the collected sections are kept in a list ordered by section and offset.  Both lists are
  kept in stores with their links, as in the source; the pointers are indices.
\<close>

section \<open>Data\<close>

record bbinfo_mbb =
  ID :: u32
  bb_type :: byte
  bb_offset :: u32
  bb_size :: u32
  bb_alignment :: u32
  num_fixs :: u32
  fall_through :: bool
  bb_sec :: "segT option"
  bb_next :: "nat option"
  parent_id :: u32
  is_begin :: bool
  is_inline :: bool
  parent_frag :: "fragP option"

record bbinfo_fixup =
  bf_offset :: u32
  bf_sec :: "segT option"
  bf_is_new_section :: bool
  bf_is_rela :: bool
  bf_size :: u32
  bf_table_size :: u32
  bf_entry_size :: u32
  bf_next :: "nat option"

text \<open>\<open>memset (p, 0, sizeof *p)\<close>.\<close>

definition zero_mbb :: bbinfo_mbb where
  "zero_mbb = \<lparr>ID = 0, bb_type = 0, bb_offset = 0, bb_size = 0, bb_alignment = 0, num_fixs = 0, fall_through = False,
     bb_sec = None, bb_next = None, parent_id = 0, is_begin = False, is_inline = False, parent_frag = None\<rparr>"

definition zero_fixup :: bbinfo_fixup where
  "zero_fixup = \<lparr>bf_offset = 0, bf_sec = None, bf_is_new_section = False, bf_is_rela = False, bf_size = 0,
     bf_table_size = 0, bf_entry_size = 0, bf_next = None\<rparr>"

text \<open>The global variables, the two stores with the number of structures allocated so far, and the field
  \<open>last_bb\<close> of the frags.\<close>

record bbinfo =
  cur_function_id :: u32
  cur_function_end_id :: u32
  prev_function_id :: u32
  cur_block_id :: u32
  last_symbol :: "symP option"
  fixup_at :: "nat \<Rightarrow> bbinfo_fixup"
  fixups_list_head :: "nat option"
  n_fixups :: nat
  mbb_at :: "nat \<Rightarrow> bbinfo_mbb"
  mbbs_list_head :: "nat option"
  mbbs_list_tail :: "nat option"
  n_mbbs :: nat
  bbinfo_app :: bool
  bbinfo_handwritten_file :: bool
  handwritten_bbinfo_func_name :: "byte list option"
  bbinfo_last_inst_size :: u32
  bbinfo_last_inst_offset :: u32
  bbinfo_last_frag :: "fragP option"
  function_head :: bool
  bbinfo_handled_ee :: bool
  last_bb :: "fragP \<Rightarrow> nat option"

text \<open>The declaration in the last lines of \<open>bbinfo_init\<close> is a new local variable, so that the global
  \<open>bbinfo_last_frag\<close> is not reset.\<close>

definition bbinfo_init :: "bbinfo \<Rightarrow> bbinfo" where
  "bbinfo_init b = b\<lparr>mbbs_list_head := None, mbbs_list_tail := None, cur_function_id := 0, cur_function_end_id := 0,
     prev_function_id := 0, cur_block_id := 0, last_symbol := None, fixups_list_head := None, function_head := False,
     bbinfo_app := False, bbinfo_last_inst_size := 0, bbinfo_last_inst_offset := 0,
     handwritten_bbinfo_func_name := None, bbinfo_handwritten_file := True\<rparr>"

section \<open>Collected sections\<close>

fun strstr :: "'a list \<Rightarrow> 'a list \<Rightarrow> nat option" where
  "strstr [] needle = (if needle = [] then Some 0 else None)"
| "strstr (x # xs) needle =
     (if take (length needle) (x # xs) = needle then Some 0 else map_option Suc (strstr xs needle))"

definition sec_name :: "segT \<Rightarrow> string" where
  "sec_name s = (case s of absolute_section \<Rightarrow> ''*ABS*'' | undefined_section \<Rightarrow> ''*UND*''
     | expr_section \<Rightarrow> ''*GAS `expr' section*'' | reg_section \<Rightarrow> ''*GAS `reg' section*''
     | text_section \<Rightarrow> ''.text'' | data_section \<Rightarrow> ''.data'' | bss_section \<Rightarrow> ''.bss''
     | xom_section \<Rightarrow> ''.xom'' | xom_test_section \<Rightarrow> ''.xomtwo'' | xom_data_section \<Rightarrow> ''.xom_data''
     | user_section n \<Rightarrow> n)"

definition bbinfo_is_collect_sec :: "segT option \<Rightarrow> int" where
  "bbinfo_is_collect_sec sec = (case sec of None \<Rightarrow> - 1 | Some s \<Rightarrow>
     (let n = sec_name s in
      if strstr n ''.text'' = Some 0 then 1
      else if strstr n ''.rodata'' = Some 0 then 1
      else if strstr n ''.init_array'' = Some 0 then 1
      else if strstr n ''.data'' = Some 0 then (if strstr n ''.data.rel.ro'' = Some 0 then 1 else 1)
      else 0))"

section \<open>The list of fixups\<close>

text \<open>The two loops over the list: to the first fixup of the section, and on to the place for the offset.\<close>

partial_function (option) find_sec ::
  "(nat \<Rightarrow> bbinfo_fixup) \<Rightarrow> segT \<Rightarrow> nat option \<Rightarrow> nat option \<Rightarrow> (nat option \<times> nat option) option" where
  [code]: "find_sec h sec prev cur = (case cur of None \<Rightarrow> Some (prev, None)
     | Some c \<Rightarrow> if bf_sec (h c) \<noteq> Some sec then find_sec h sec (Some c) (bf_next (h c)) else Some (prev, cur))"

partial_function (option) find_place ::
  "(nat \<Rightarrow> bbinfo_fixup) \<Rightarrow> segT \<Rightarrow> u32 \<Rightarrow> nat option \<Rightarrow> nat option \<Rightarrow> (nat option \<times> nat option) option" where
  [code]: "find_place h sec offset prev cur = (case cur of None \<Rightarrow> Some (prev, None)
     | Some c \<Rightarrow> if offset > bf_offset (h c) \<and> bf_sec (h c) = Some sec
         then find_place h sec offset (Some c) (bf_next (h c)) else Some (prev, cur))"

definition upd_fixup :: "nat \<Rightarrow> (bbinfo_fixup \<Rightarrow> bbinfo_fixup) \<Rightarrow> bbinfo \<Rightarrow> bbinfo" where
  "upd_fixup p f b = b\<lparr>fixup_at := (fixup_at b)(p := f (fixup_at b p))\<rparr>"

definition bbinfo_init_insert_fixup :: "segT \<Rightarrow> u32 \<Rightarrow> bbinfo \<Rightarrow> (nat \<times> bbinfo) result option" where
  "bbinfo_init_insert_fixup sec offset b0 =
     (let new = n_fixups b0; b = b0\<lparr>fixup_at := (fixup_at b0)(new := zero_fixup), n_fixups := new + 1\<rparr> in
      if fixups_list_head b = None then Some (Inr (new, b\<lparr>fixups_list_head := Some new\<rparr>))
      else Option.bind (find_sec (fixup_at b) sec None (fixups_list_head b)) (\<lambda>(prev, cur).
        if cur = None
        then Some (deref prev (\<lambda>p. Inr (new, upd_fixup p (\<lambda>f. f\<lparr>bf_next := Some new\<rparr>) b)))
        else Option.bind (find_place (fixup_at b) sec offset prev cur) (\<lambda>(prev, cur).
          case prev of
            None \<Rightarrow> Some (Inr (new, (upd_fixup new (\<lambda>f. f\<lparr>bf_next := fixups_list_head b\<rparr>) b)\<lparr>fixups_list_head := Some new\<rparr>))
          | Some p \<Rightarrow> Some (Inr (new, upd_fixup new (\<lambda>f. f\<lparr>bf_next := cur\<rparr>) (upd_fixup p (\<lambda>f. f\<lparr>bf_next := Some new\<rparr>) b))))))"

definition upd_mbb :: "nat \<Rightarrow> (bbinfo_mbb \<Rightarrow> bbinfo_mbb) \<Rightarrow> bbinfo \<Rightarrow> bbinfo" where
  "upd_mbb p f b = b\<lparr>mbb_at := (mbb_at b)(p := f (mbb_at b p))\<rparr>"

text \<open>The end of \<open>md_convert_frag\<close>: the displacement of a jump that is not left to the linker is recorded as a
  fixup of its section and counted for the block of the frag.\<close>

definition record_jump :: "segT \<Rightarrow> fragP \<Rightarrow> u32 \<Rightarrow> u32 \<Rightarrow> bbinfo \<Rightarrow> bbinfo result option" where
  "record_jump sec p offset sz b =
     (if bbinfo_is_collect_sec (Some sec) \<noteq> 0
      then map_option (\<lambda>r. bindE r (\<lambda>(fx, b1).
             let b2 = upd_fixup fx (\<lambda>f. f\<lparr>bf_sec := Some sec, bf_offset := offset, bf_is_new_section := False,
                        bf_is_rela := True, bf_size := sz\<rparr>) b1 in
             Inr (case last_bb b2 p of None \<Rightarrow> b2 | Some m \<Rightarrow> upd_mbb m (\<lambda>x. x\<lparr>num_fixs := num_fixs x + 1\<rparr>) b2)))
           (bbinfo_init_insert_fixup sec offset b)
      else Some (Inr b))"

section \<open>The list of basic blocks\<close>

definition init_basic_block :: "bbinfo \<Rightarrow> (nat \<times> bbinfo) result" where
  "init_basic_block b0 =
     (let r = n_mbbs b0; b = b0\<lparr>mbb_at := (mbb_at b0)(r := zero_mbb), n_mbbs := r + 1\<rparr> in
      bindE (if mbbs_list_head b = None then Inr (b\<lparr>mbbs_list_head := Some r\<rparr>)
             else deref (mbbs_list_tail b) (\<lambda>t. Inr (upd_mbb t (\<lambda>m. m\<lparr>bb_next := Some r\<rparr>) b))) (\<lambda>b1.
      Inr (r, b1\<lparr>mbbs_list_tail := Some r\<rparr>)))"

text \<open>The assignments that follow \<open>init_basic_block\<close> at each of its calls.\<close>

definition start_block :: "bool \<Rightarrow> u32 \<Rightarrow> bbinfo \<Rightarrow> bbinfo result" where
  "start_block fall parent b0 =
     bindE (init_basic_block b0) (\<lambda>(r, b).
     Inr ((upd_mbb r (\<lambda>m. m\<lparr>ID := cur_block_id b, bb_type := 0, bb_offset := - 1, bb_size := 0, bb_alignment := 0,
            num_fixs := 0, fall_through := fall, bb_sec := None, parent_id := parent, is_begin := True\<rparr>) b)
          \<lparr>cur_block_id := cur_block_id b + 1\<rparr>))"

definition upd_tail :: "(bbinfo_mbb \<Rightarrow> bbinfo_mbb) \<Rightarrow> bbinfo \<Rightarrow> bbinfo result" where
  "upd_tail f b = deref (mbbs_list_tail b) (\<lambda>t. Inr (upd_mbb t f b))"

definition tail_begins :: "bbinfo \<Rightarrow> bool" where
  "tail_begins b = (case mbbs_list_tail b of None \<Rightarrow> False | Some t \<Rightarrow> is_begin (mbb_at b t))"

definition type_as_end :: "bbinfo_mbb \<Rightarrow> bbinfo_mbb" where
  "type_as_end m = m\<lparr>bb_type := (bb_type m AND push_bit 6 1) OR 1\<rparr>"

section \<open>Directives\<close>

definition symbol_blacklist :: "byte list list" where
  "symbol_blacklist = [[0x2e, 0x4c, 0x64, 0x65, 0x62, 0x75, 0x67], [0x2e, 0x4c, 0x41, 0x53, 0x46]]"

definition update_last_symbol :: "symP \<Rightarrow> gas \<Rightarrow> bbinfo \<Rightarrow> int \<times> bbinfo" where
  "update_last_symbol s g b =
     (let name = sy_name (syms g s) in
      if name = [] then (- 1, b)
      else if list_ex (\<lambda>n. strstr name n \<noteq> None) symbol_blacklist then (- 1, b)
      else (0, b\<lparr>last_symbol := Some s\<rparr>))"

definition handwritten_funcb_bbinfo_handler :: "bbinfo \<Rightarrow> bbinfo result" where
  "handwritten_funcb_bbinfo_handler b =
     (if \<not> bbinfo_handwritten_file b then Inr b
      else if tail_begins b then Inr b
      else bindE (if mbbs_list_tail b = None then Inr b else upd_tail type_as_end b)
             (\<lambda>b1. start_block False (cur_function_id b1) b1))"

definition handwritten_funce_bbinfo_handler :: "bbinfo \<Rightarrow> bbinfo result" where
  "handwritten_funce_bbinfo_handler b =
     (if \<not> bbinfo_handwritten_file b then Inr b
      else if mbbs_list_tail b = None then Inl As_fatal
      else upd_tail type_as_end b)"

definition bbinfo_initbb_handwritten :: "bbinfo \<Rightarrow> bbinfo result" where
  "bbinfo_initbb_handwritten b = start_block False 0 b"

text \<open>The operands of a directive are absolute expressions the parser has read.\<close>

definition jmptable_bbInfo_handler :: "u64 \<Rightarrow> u64 \<Rightarrow> bbinfo \<Rightarrow> gas \<Rightarrow> gas" where
  "jmptable_bbInfo_handler table_size entry_size b g = (case last_symbol b of None \<Rightarrow> g
     | Some s \<Rightarrow> upd_sym s (S_SET_JMPTBL_ENTRY_SZ (ucast entry_size)) (upd_sym s (S_SET_JMPTBL_SIZE (ucast table_size)) g))"

definition funcb_bbInfo_handler :: "bbinfo \<Rightarrow> bbinfo result" where
  "funcb_bbInfo_handler b0 =
     (let b = b0\<lparr>prev_function_id := cur_function_id b0, cur_function_id := cur_function_id b0 + 1,
                 function_head := True, bbinfo_handwritten_file := False\<rparr> in
      if tail_begins b then Inr b else start_block False (cur_function_id b) b)"

definition funce_bbInfo_handler :: "bbinfo \<Rightarrow> bbinfo result" where
  "funce_bbInfo_handler b0 =
     (let b = b0\<lparr>cur_function_end_id := cur_function_end_id b0 + 1\<rparr> in
      if mbbs_list_tail b = None then Inl As_fatal else upd_tail type_as_end b)"

definition bb_bbInfo_handler :: "u64 \<Rightarrow> bbinfo \<Rightarrow> bbinfo result" where
  "bb_bbInfo_handler fall b =
     (if tail_begins b then upd_tail (\<lambda>m. m\<lparr>fall_through := (fall = 1)\<rparr>) b
      else start_block (fall = 1) (cur_function_id b) (b\<lparr>bbinfo_handwritten_file := False\<rparr>))"

definition be_bbInfo_handler :: "u64 \<Rightarrow> bbinfo \<Rightarrow> bbinfo result" where
  "be_bbInfo_handler fall b =
     bindE (if fall = 1 then upd_tail (\<lambda>m. m\<lparr>fall_through := True\<rparr>) b else Inr b)
       (\<lambda>b1. Inr (b1\<lparr>bbinfo_handled_ee := True\<rparr>))"

section \<open>Instructions\<close>

text \<open>The start of \<open>output_insn\<close>: an instruction at \<open>off\<close> of frag \<open>p\<close> starts the block that waits for one; in
  a handwritten file it opens a block of its own when it does not follow the last instruction.\<close>

definition block_starts :: "fragP \<Rightarrow> u64 \<Rightarrow> bbinfo_mbb \<Rightarrow> bbinfo_mbb" where
  "block_starts p off m = m\<lparr>is_begin := False, bb_offset := ucast off, parent_frag := Some p\<rparr>"

definition open_handwritten :: "fragP \<Rightarrow> u64 \<Rightarrow> bbinfo \<Rightarrow> bbinfo result" where
  "open_handwritten p off b =
     bindE (bbinfo_initbb_handwritten b) (\<lambda>b1.
     bindE (upd_tail (block_starts p off) b1) (\<lambda>b2.
     Inr (b2\<lparr>bbinfo_last_frag := Some p, last_bb := (last_bb b2)(p := mbbs_list_tail b2)\<rparr>)))"

definition insn_opens_block :: "bool \<Rightarrow> fragP \<Rightarrow> u64 \<Rightarrow> bbinfo \<Rightarrow> bbinfo result" where
  "insn_opens_block fiy_dsok p off b0 =
     (let b = b0\<lparr>last_bb := (last_bb b0)(p := mbbs_list_tail b0)\<rparr> in
      bindE (if fiy_dsok \<and> tail_begins b
             then upd_tail ((\<lambda>m. if bbinfo_app b then m\<lparr>is_inline := True\<rparr> else m) \<circ> block_starts p off) b
             else Inr b) (\<lambda>b1.
      if fiy_dsok \<and> bbinfo_handwritten_file b1
      then bindE (if mbbs_list_tail b1 = None \<or> bbinfo_last_frag b1 \<noteq> Some p
                     \<or> ucast (bbinfo_last_inst_offset b1 + bbinfo_last_inst_size b1) \<noteq> off
                  then open_handwritten p off b1 else Inr b1) (\<lambda>b2.
           Inr (b2\<lparr>bbinfo_last_inst_offset := ucast off\<rparr>))
      else Inr b1))"

text \<open>The end of \<open>output_insn\<close>: the octets from the start of the instruction to the end of the current frag are
  added to the last block, and the frags in between are tied to it.\<close>

definition insn_size :: "target \<Rightarrow> fragP \<Rightarrow> u64 \<Rightarrow> gas \<Rightarrow> (fragP list \<times> u64) result option" where
  "insn_size tg p off g = (case frag_now_fix tg g of Inl e \<Rightarrow> Some (Inl e) | Inr now \<Rightarrow>
     if p = frag_now g then Some (Inr ([], now - off))
     else map_option (\<lambda>qs. Inr (qs @ [frag_now g],
            fr_fix (frags g p) - off + sum_list (map (\<lambda>q. fr_fix (frags g q)) qs) + now))
          (frags_until (frags g) (frag_now g) (fr_next (frags g p))))"

definition add_to_block :: "u64 \<Rightarrow> bbinfo \<Rightarrow> bbinfo" where
  "add_to_block n b =
     (let b1 = (case mbbs_list_tail b of None \<Rightarrow> b | Some t \<Rightarrow> upd_mbb t (\<lambda>m. m\<lparr>bb_size := bb_size m + ucast n\<rparr>) b)
      in if bbinfo_handwritten_file b1 then b1\<lparr>bbinfo_last_inst_size := ucast n\<rparr> else b1)"

definition insn_ends :: "bool \<Rightarrow> target \<Rightarrow> fragP \<Rightarrow> u64 \<Rightarrow> gas \<Rightarrow> bbinfo \<Rightarrow> bbinfo result option" where
  "insn_ends fiy_dsok tg p off g b =
     (if \<not> fiy_dsok then Some (Inr b)
      else map_option (\<lambda>r. bindE r (\<lambda>(qs, n).
             Inr (add_to_block n (b\<lparr>last_bb := (\<lambda>q. if q \<in> set qs then mbbs_list_tail b else last_bb b q)\<rparr>))))
           (insn_size tg p off g))"

text \<open>\<open>output_insn\<close> with its blocks.  The counting of the fixups of operands (\<open>num_fixs\<close> in \<open>output_disp\<close>,
  \<open>output_imm\<close>, \<open>output_jump\<close> and \<open>output_interseg_jump\<close>) is left out.\<close>

definition output_insn_bb ::
  "bool \<Rightarrow> target \<Rightarrow> (symP option \<Rightarrow> bool) \<Rightarrow> i386_insn \<Rightarrow> gas \<times> bbinfo \<Rightarrow> (gas \<times> bbinfo) result option" where
  "output_insn_bb fiy_dsok tg plt i s = (case s of (g, b) \<Rightarrow>
     (case frag_now_fix tg g of Inl e \<Rightarrow> Some (Inl e) | Inr off \<Rightarrow>
     (case insn_opens_block fiy_dsok (frag_now g) off b of Inl e \<Rightarrow> Some (Inl e) | Inr b1 \<Rightarrow>
     (case output_insn tg plt i g of None \<Rightarrow> None | Some (Inl e) \<Rightarrow> Some (Inl e) | Some (Inr g1) \<Rightarrow>
        map_option (\<lambda>r. bindE r (\<lambda>b2. Inr (g1, b2))) (insn_ends fiy_dsok tg (frag_now g) off g1 b1)))))"

text \<open>\<open>.type f, @function\<close> and \<open>.size f\<close> in a handwritten file.\<close>

definition type_function :: "bool \<Rightarrow> byte list \<Rightarrow> bbinfo \<Rightarrow> bbinfo result" where
  "type_function fiy_dsok name b =
     (if fiy_dsok \<and> bbinfo_handwritten_file b
      then bindE (handwritten_funcb_bbinfo_handler b) (\<lambda>b1. Inr (b1\<lparr>handwritten_bbinfo_func_name := Some name\<rparr>))
      else Inr b)"

definition size_of_function :: "bool \<Rightarrow> byte list \<Rightarrow> bbinfo \<Rightarrow> bbinfo result" where
  "size_of_function fiy_dsok name b =
     (if fiy_dsok \<and> bbinfo_handwritten_file b \<and> handwritten_bbinfo_func_name b = Some name
      then handwritten_funce_bbinfo_handler b else Inr b)"

section \<open>The fixups stay in order\<close>

text \<open>The order the comment of \<open>bbinfo_init_insert_fixup\<close> promises: the fixups of a section stand together,
  by increasing offset; and the insertion on the list of keys.\<close>

fun grouped :: "('s \<times> 'o::linorder) list \<Rightarrow> bool" where
  "grouped [] = True"
| "grouped (x # xs) \<longleftrightarrow> grouped xs \<and> (\<forall>y \<in> set xs. fst y = fst x \<longrightarrow> snd x \<le> snd y)
     \<and> (xs = [] \<or> fst (hd xs) = fst x \<or> fst x \<notin> fst ` set xs)"

fun place_in :: "'s \<times> 'o::linorder \<Rightarrow> ('s \<times> 'o) list \<Rightarrow> ('s \<times> 'o) list" where
  "place_in k [] = [k]"
| "place_in k (x # xs) = (if fst x = fst k \<and> snd x < snd k then x # place_in k xs else k # x # xs)"

fun place :: "'s \<times> 'o::linorder \<Rightarrow> ('s \<times> 'o) list \<Rightarrow> ('s \<times> 'o) list" where
  "place k [] = [k]"
| "place k (x # xs) = (if fst x \<noteq> fst k then x # place k xs else place_in k (x # xs))"

lemma set_place_in [simp]: "set (place_in k xs) = insert k (set xs)"
  by (induction xs) auto

lemma set_place [simp]: "set (place k xs) = insert k (set xs)"
  by (induction xs) auto

lemma hd_place_in: "xs \<noteq> [] \<Longrightarrow> fst (hd xs) = fst k \<Longrightarrow> fst (hd (place_in k xs)) = fst k"
  by (cases xs) auto

lemma grouped_place_in:
  "grouped xs \<Longrightarrow> xs = [] \<or> fst (hd xs) = fst k \<or> fst k \<notin> fst ` set xs \<Longrightarrow> grouped (place_in k xs)"
proof (induction xs)
  case (Cons x xs)
  show ?case
  proof (cases "fst x = fst k \<and> snd x < snd k")
    case True
    then have "xs = [] \<or> fst (hd xs) = fst k \<or> fst k \<notin> fst ` set xs" using Cons.prems(1) by auto
    then have "grouped (place_in k xs)" using Cons by simp
    moreover have "place_in k xs \<noteq> []" by (cases xs) auto
    moreover have "fst (hd (place_in k xs)) = fst k"
      using Cons.prems(1) True by (cases xs) auto
    ultimately show ?thesis using Cons.prems(1) True by auto
  next
    case False
    then have "place_in k (x # xs) = k # x # xs" by auto
    then show ?thesis using Cons.prems False by (auto simp: not_less intro: order_trans) (metis fst_conv imageI)+
  qed
qed simp

lemma hd_place: "xs \<noteq> [] \<Longrightarrow> fst (hd xs) \<noteq> fst k \<Longrightarrow> hd (place k xs) = hd xs"
  by (cases xs) auto

lemma grouped_place: "grouped xs \<Longrightarrow> grouped (place k xs)"
proof (induction xs)
  case (Cons x xs)
  show ?case
  proof (cases "fst x = fst k")
    case True
    then show ?thesis using grouped_place_in [OF Cons.prems, of k] by simp
  next
    case False
    have "xs = [] \<or> fst (hd (place k xs)) = fst x \<or> fst x \<notin> fst ` set xs"
      using Cons.prems False hd_place [of xs k] by (cases "xs = []") auto
    moreover have "place k xs \<noteq> []" by (cases xs) auto
    ultimately show ?thesis using Cons False by (cases "xs = []") auto
  qed
qed simp

definition fix_key :: "bbinfo \<Rightarrow> nat \<Rightarrow> segT option \<times> u32" where
  "fix_key b i = (bf_sec (fixup_at b i), bf_offset (fixup_at b i))"

definition fixups_inv :: "bbinfo \<Rightarrow> nat list \<Rightarrow> bool" where
  "fixups_inv b ids \<longleftrightarrow> chain (\<lambda>i. bf_next (fixup_at b i)) (fixups_list_head b) ids \<and> distinct ids
     \<and> set ids \<subseteq> {..<n_fixups b} \<and> grouped (map (fix_key b) ids)"

text \<open>What the loops find in a list.\<close>

definition hd_opt :: "'a list \<Rightarrow> 'a option" where
  "hd_opt xs = (case xs of [] \<Rightarrow> None | x # _ \<Rightarrow> Some x)"

lemma hd_opt_simps [simp]: "hd_opt [] = None" "hd_opt (x # xs) = Some x"
  by (simp_all add: hd_opt_def)

lemma hd_opt_None [simp]: "hd_opt xs = None \<longleftrightarrow> xs = []"
  by (cases xs) auto

definition last_opt :: "'a option \<Rightarrow> 'a list \<Rightarrow> 'a option" where
  "last_opt p xs = (if xs = [] then p else Some (last xs))"

lemma find_sec_chain:
  assumes "chain (\<lambda>i. bf_next (h i)) cur ids"
  shows "find_sec h sec prev cur = Some (last_opt prev (takeWhile (\<lambda>i. bf_sec (h i) \<noteq> Some sec) ids),
    hd_opt (dropWhile (\<lambda>i. bf_sec (h i) \<noteq> Some sec) ids))"
  using assms
proof (induction ids arbitrary: prev cur)
  case Nil
  then show ?case by (subst find_sec.simps) (simp add: last_opt_def)
next
  case (Cons x xs)
  then show ?case by (subst find_sec.simps) (simp add: last_opt_def)
qed

lemma find_place_chain:
  assumes "chain (\<lambda>i. bf_next (h i)) cur ids"
  shows "find_place h sec off prev cur =
    Some (last_opt prev (takeWhile (\<lambda>i. off > bf_offset (h i) \<and> bf_sec (h i) = Some sec) ids),
          hd_opt (dropWhile (\<lambda>i. off > bf_offset (h i) \<and> bf_sec (h i) = Some sec) ids))"
  using assms
proof (induction ids arbitrary: prev cur)
  case Nil
  then show ?case by (subst find_place.simps) (simp add: last_opt_def)
next
  case (Cons x xs)
  then show ?case by (subst find_place.simps) (auto simp: last_opt_def)
qed

text \<open>The place on the list of fixups.\<close>

definition before_place :: "(nat \<Rightarrow> bbinfo_fixup) \<Rightarrow> segT \<Rightarrow> u32 \<Rightarrow> nat list \<Rightarrow> nat list" where
  "before_place h sec off ids =
     (let us = takeWhile (\<lambda>i. bf_sec (h i) \<noteq> Some sec) ids; vs = dropWhile (\<lambda>i. bf_sec (h i) \<noteq> Some sec) ids
      in us @ takeWhile (\<lambda>i. off > bf_offset (h i) \<and> bf_sec (h i) = Some sec) vs)"

definition behind_place :: "(nat \<Rightarrow> bbinfo_fixup) \<Rightarrow> segT \<Rightarrow> u32 \<Rightarrow> nat list \<Rightarrow> nat list" where
  "behind_place h sec off ids =
     dropWhile (\<lambda>i. off > bf_offset (h i) \<and> bf_sec (h i) = Some sec) (dropWhile (\<lambda>i. bf_sec (h i) \<noteq> Some sec) ids)"

lemma before_behind: "before_place h sec off ids @ behind_place h sec off ids = ids"
  by (simp add: before_place_def behind_place_def)

lemma place_in_split:
  "place_in (Some sec, off) (map (\<lambda>i. (bf_sec (h i), bf_offset (h i))) ids) =
    map (\<lambda>i. (bf_sec (h i), bf_offset (h i))) (takeWhile (\<lambda>i. off > bf_offset (h i) \<and> bf_sec (h i) = Some sec) ids)
    @ (Some sec, off) # map (\<lambda>i. (bf_sec (h i), bf_offset (h i))) (dropWhile (\<lambda>i. off > bf_offset (h i) \<and> bf_sec (h i) = Some sec) ids)"
  by (induction ids) auto

lemma place_split:
  "place (Some sec, off) (map (\<lambda>i. (bf_sec (h i), bf_offset (h i))) ids) =
    map (\<lambda>i. (bf_sec (h i), bf_offset (h i))) (before_place h sec off ids)
    @ (Some sec, off) # map (\<lambda>i. (bf_sec (h i), bf_offset (h i))) (behind_place h sec off ids)"
proof (induction ids)
  case (Cons x xs)
  show ?case
  proof (cases "bf_sec (h x) = Some sec")
    case True
    then show ?thesis using place_in_split [of sec off h "x # xs"] by (simp add: before_place_def behind_place_def)
  qed (use Cons in \<open>simp add: before_place_def behind_place_def\<close>)
qed (simp add: before_place_def behind_place_def)

lemma chain_hd_opt: "chain nxt p xs \<Longrightarrow> p = hd_opt xs"
  by (cases xs) auto

lemma chain_at:
  assumes "chain nxt p (us @ vs)"
  shows "chain nxt (hd_opt vs) vs" "(if us = [] then p else nxt (last us)) = hd_opt vs"
proof -
  obtain r where r: "path nxt p us r" "chain nxt r vs" using assms by (auto simp: chain_append)
  then show "chain nxt (hd_opt vs) vs" using chain_hd_opt by metis
  show "(if us = [] then p else nxt (last us)) = hd_opt vs"
    using path_distinct_end [OF r(1)] r chain_hd_opt [OF r(2)] by auto
qed

lemma last_opt_append [simp]: "last_opt (last_opt p us) vs = last_opt p (us @ vs)"
  by (simp add: last_opt_def)

lemma insert_fixup_chain:
  assumes inv: "fixups_inv b ids"
  shows "\<exists>b'. bbinfo_init_insert_fixup sec off b = Some (Inr (n_fixups b, b'))
    \<and> chain (\<lambda>i. bf_next (fixup_at b' i)) (fixups_list_head b')
        (before_place (fixup_at b) sec off ids @ n_fixups b # behind_place (fixup_at b) sec off ids)
    \<and> (\<forall>i. fixup_at b' i = (if i = n_fixups b then zero_fixup else fixup_at b i)\<lparr>bf_next := bf_next (fixup_at b' i)\<rparr>)
    \<and> n_fixups b' = n_fixups b + 1
    \<and> b' = b\<lparr>fixup_at := fixup_at b', fixups_list_head := fixups_list_head b', n_fixups := n_fixups b'\<rparr>"
proof -
  let ?new = "n_fixups b" and ?h = "(fixup_at b)(n_fixups b := zero_fixup)"
  let ?us = "before_place (fixup_at b) sec off ids" and ?vs = "behind_place (fixup_at b) sec off ids"
  let ?nxt = "\<lambda>i. bf_next (?h i)" and ?hd = "fixups_list_head b"
  have I: "chain (\<lambda>i. bf_next (fixup_at b i)) ?hd ids" "distinct ids" "?new \<notin> set ids"
    using inv by (auto simp: fixups_inv_def)
  have nxt: "?nxt = (\<lambda>i. bf_next (fixup_at b i))(?new := None)" by (auto simp: zero_fixup_def)
  have c: "chain ?nxt ?hd ids" unfolding nxt using I by simp
  have hs: "?h i = fixup_at b i" if "i \<in> set ids" for i using I(3) that by auto
  have tw: "takeWhile (\<lambda>i. bf_sec (?h i) \<noteq> Some sec) ids = takeWhile (\<lambda>i. bf_sec (fixup_at b i) \<noteq> Some sec) ids"
    and dw: "dropWhile (\<lambda>i. bf_sec (?h i) \<noteq> Some sec) ids = dropWhile (\<lambda>i. bf_sec (fixup_at b i) \<noteq> Some sec) ids"
    using I(3) by (auto intro: takeWhile_cong dropWhile_cong)
  define us1 where "us1 = takeWhile (\<lambda>i. bf_sec (fixup_at b i) \<noteq> Some sec) ids"
  define vs1 where "vs1 = dropWhile (\<lambda>i. bf_sec (fixup_at b i) \<noteq> Some sec) ids"
  have ids: "ids = us1 @ vs1" by (simp add: us1_def vs1_def)
  define q where "q = (if ?us = [] then ?hd else ?nxt (last ?us))"
  have put: "chain (relink (?nxt(?new := q)) ?us (Some ?new)) (reroot ?hd ?us (Some ?new)) (?us @ ?new # ?vs)"
    by (rule chain_put) (use c I before_behind [of "fixup_at b" sec off ids] in \<open>simp_all add: q_def\<close>)
  define H where "H = (\<lambda>i. (?h i)\<lparr>bf_next := relink (?nxt(?new := q)) ?us (Some ?new) i\<rparr>)"
  define b' where "b' = b\<lparr>fixup_at := H, fixups_list_head := reroot ?hd ?us (Some ?new), n_fixups := ?new + 1\<rparr>"
  have same: "f\<lparr>bf_next := bf_next f\<rparr> = f" for f :: bbinfo_fixup by simp
  have q: "q = hd_opt ?vs" using chain_at(2) [of ?nxt ?hd ?us ?vs] c before_behind by (simp add: q_def)
  have us: "?us = us1 @ takeWhile (\<lambda>i. off > bf_offset (fixup_at b i) \<and> bf_sec (fixup_at b i) = Some sec) vs1"
    and vs: "?vs = dropWhile (\<lambda>i. off > bf_offset (fixup_at b i) \<and> bf_sec (fixup_at b i) = Some sec) vs1"
    by (simp_all add: before_place_def behind_place_def us1_def vs1_def Let_def)
  have n: "?new \<notin> set ?us" using I(3) before_behind [of "fixup_at b" sec off ids] by (metis Un_iff set_append)
  have F: "find_sec ?h sec None ?hd = Some (last_opt None us1, hd_opt vs1)"
    using find_sec_chain [OF c, of sec None] by (simp only: tw dw us1_def vs1_def)
  have G: "find_place ?h sec off (last_opt None us1) (hd_opt vs1) = Some (last_opt None ?us, hd_opt ?vs)"
  proof -
    have "chain ?nxt (hd_opt vs1) vs1" using c chain_at(1) unfolding ids by blast
    from find_place_chain [OF this, of sec off "last_opt None us1"]
    have "find_place ?h sec off (last_opt None us1) (hd_opt vs1) =
      Some (last_opt (last_opt None us1) (takeWhile (\<lambda>i. off > bf_offset (?h i) \<and> bf_sec (?h i) = Some sec) vs1),
        hd_opt (dropWhile (\<lambda>i. off > bf_offset (?h i) \<and> bf_sec (?h i) = Some sec) vs1))" .
    moreover have "takeWhile (\<lambda>i. off > bf_offset (?h i) \<and> bf_sec (?h i) = Some sec) vs1
        = takeWhile (\<lambda>i. off > bf_offset (fixup_at b i) \<and> bf_sec (fixup_at b i) = Some sec) vs1"
      "dropWhile (\<lambda>i. off > bf_offset (?h i) \<and> bf_sec (?h i) = Some sec) vs1
        = dropWhile (\<lambda>i. off > bf_offset (fixup_at b i) \<and> bf_sec (fixup_at b i) = Some sec) vs1"
      using I(3) ids by (auto intro!: takeWhile_cong dropWhile_cong)
    ultimately show ?thesis by (simp only: us vs last_opt_append)
  qed
  have "bbinfo_init_insert_fixup sec off b = Some (Inr (?new, b'))"
  proof (cases "?us = []")
    case True
    have "H = ?h(?new := zero_fixup\<lparr>bf_next := ?hd\<rparr>)"
      using True by (auto simp: H_def relink_def q_def fun_eq_iff)
    moreover have "zero_fixup\<lparr>bf_next := None\<rparr> = zero_fixup" by (simp add: zero_fixup_def)
    moreover have "?hd = None \<or> vs1 \<noteq> []" using True us c ids by (cases ids) auto
    ultimately show ?thesis
      using True F G us by (cases "?hd") (auto simp: bbinfo_init_insert_fixup_def b'_def reroot_def Let_def upd_fixup_def last_opt_def)
  next
    case False
    have l: "last ?us \<noteq> ?new" using n False last_in_set by metis
    have H: "H = (?h(last ?us := (fixup_at b (last ?us))\<lparr>bf_next := Some ?new\<rparr>))(?new := zero_fixup\<lparr>bf_next := hd_opt ?vs\<rparr>)"
      using False l by (auto simp: H_def relink_def q fun_eq_iff)
    have hd: "?hd \<noteq> None" using False c before_behind [of "fixup_at b" sec off ids] by (cases ids) auto
    show ?thesis
    proof (cases "vs1 = []")
      case True
      then have "?us = us1" "?vs = []" using us vs by simp_all
      moreover have "H = ?h(last ?us := (?h (last ?us))\<lparr>bf_next := Some ?new\<rparr>)"
        unfolding H using \<open>?vs = []\<close> l by (auto simp: zero_fixup_def fun_eq_iff)
      ultimately show ?thesis
        using True False F hd l by (auto simp: bbinfo_init_insert_fixup_def b'_def reroot_def Let_def upd_fixup_def last_opt_def)
    next
      case v: False
      then show ?thesis
        using False F G H hd l by (auto simp: bbinfo_init_insert_fixup_def b'_def reroot_def Let_def upd_fixup_def last_opt_def fun_upd_def)
    qed
  qed
  moreover have "(\<lambda>i. bf_next (fixup_at b' i)) = relink (?nxt(?new := q)) ?us (Some ?new)" by (simp add: b'_def H_def)
  ultimately show ?thesis using put by (intro exI [of _ b']) (auto simp: b'_def H_def)
qed

lemma mset_place_in: "mset (place_in k xs) = add_mset k (mset xs)"
  by (induction xs) auto

lemma mset_place: "mset (place k xs) = add_mset k (mset xs)"
  by (induction xs) (auto simp: mset_place_in)

definition collected :: "segT \<Rightarrow> bool" where
  "collected sec \<longleftrightarrow> bbinfo_is_collect_sec (Some sec) \<noteq> 0"

lemma record_jump_inv:
  assumes inv: "fixups_inv b ids"
  shows "\<exists>b' ids'. record_jump sec p off sz b = Some (Inr b') \<and> fixups_inv b' ids'
    \<and> map (fix_key b') ids' = (if collected sec then place (Some sec, off) (map (fix_key b) ids) else map (fix_key b) ids)"
proof (cases "collected sec")
  case True
  let ?us = "before_place (fixup_at b) sec off ids" and ?vs = "behind_place (fixup_at b) sec off ids" and ?new = "n_fixups b"
  obtain b1 where b1: "bbinfo_init_insert_fixup sec off b = Some (Inr (?new, b1))"
    "chain (\<lambda>i. bf_next (fixup_at b1 i)) (fixups_list_head b1) (?us @ ?new # ?vs)"
    "\<And>i. fixup_at b1 i = (if i = ?new then zero_fixup else fixup_at b i)\<lparr>bf_next := bf_next (fixup_at b1 i)\<rparr>"
    "n_fixups b1 = ?new + 1"
    using insert_fixup_chain [OF inv, of sec off] by blast
  let ?ids = "?us @ ?new # ?vs"
  have e: "?us @ ?vs = ids" by (rule before_behind)
  have I: "distinct ids" "set ids \<subseteq> {..<?new}" "grouped (map (fix_key b) ids)" using inv by (auto simp: fixups_inv_def)
  have nu: "?new \<notin> set ?us" "?new \<notin> set ?vs" using I(2) e by (metis Un_iff lessThan_iff less_irrefl set_append subsetD)+
  define b2 where "b2 = upd_fixup ?new (\<lambda>f. f\<lparr>bf_sec := Some sec, bf_offset := off, bf_is_new_section := False,
      bf_is_rela := True, bf_size := sz\<rparr>) b1"
  define b' where "b' = (case last_bb b2 p of None \<Rightarrow> b2 | Some m \<Rightarrow> upd_mbb m (\<lambda>x. x\<lparr>num_fixs := num_fixs x + 1\<rparr>) b2)"
  have r: "record_jump sec p off sz b = Some (Inr b')"
    unfolding b'_def b2_def using True b1(1) by (simp add: record_jump_def collected_def Let_def)
  have f: "fixup_at b' = fixup_at b2" "fixups_list_head b' = fixups_list_head b1" "n_fixups b' = ?new + 1"
    using b1(4) by (auto simp: b'_def b2_def upd_mbb_def upd_fixup_def split: option.split)
  have nx: "(\<lambda>i. bf_next (fixup_at b' i)) = (\<lambda>i. bf_next (fixup_at b1 i))"
    unfolding f(1) by (auto simp: b2_def upd_fixup_def)
  have "fix_key b' i = fix_key b i" if "i \<noteq> ?new" for i
  proof -
    have "bf_sec (fixup_at b1 i) = bf_sec (fixup_at b i)" "bf_offset (fixup_at b1 i) = bf_offset (fixup_at b i)"
      using arg_cong [OF b1(3) [of i], of bf_sec] arg_cong [OF b1(3) [of i], of bf_offset] that by simp_all
    then show ?thesis using that by (simp add: fix_key_def f(1) b2_def upd_fixup_def)
  qed
  moreover have "fix_key b' ?new = (Some sec, off)" by (simp add: fix_key_def f(1) b2_def upd_fixup_def)
  ultimately have "map (fix_key b') ?ids = map (fix_key b) ?us @ (Some sec, off) # map (fix_key b) ?vs"
    using nu by (auto intro!: map_cong) metis+
  then have k: "map (fix_key b') ?ids = place (Some sec, off) (map (fix_key b) ids)"
    using place_split [of sec off "fixup_at b" ids] by (simp add: fix_key_def [abs_def])
  have "fixups_inv b' ?ids"
    unfolding fixups_inv_def nx f k
  proof (intro conjI)
    show "grouped (place (Some sec, off) (map (fix_key b) ids))" by (rule grouped_place) (rule I)
    show "distinct ?ids" using I(1) e nu by (metis distinct_append distinct.simps(2) disjoint_insert(2) list.simps(15))
    show "set ?ids \<subseteq> {..<?new + 1}" using I(2) e by (auto simp: less_Suc_eq) (metis Un_iff lessThan_iff set_append subsetD)+
  qed (use b1(2) nx [unfolded f(1)] in simp)
  then show ?thesis using r k True by auto
qed (use inv in \<open>auto simp: record_jump_def collected_def\<close>)

text \<open>The conversion of a run of jumps.\<close>

fun record_jumps :: "(segT \<times> fragP \<times> u32 \<times> u32) list \<Rightarrow> bbinfo \<Rightarrow> bbinfo result option" where
  "record_jumps [] b = Some (Inr b)"
| "record_jumps ((sec, p, off, sz) # js) b = (case record_jump sec p off sz b of None \<Rightarrow> None
     | Some (Inl e) \<Rightarrow> Some (Inl e) | Some (Inr b1) \<Rightarrow> record_jumps js b1)"

lemma record_jumps_inv:
  "fixups_inv b ids \<Longrightarrow> \<exists>b' ids'. record_jumps js b = Some (Inr b') \<and> fixups_inv b' ids'
    \<and> mset (map (fix_key b') ids') = mset (map (fix_key b) ids)
        + mset (map (\<lambda>(sec, p, off, sz). (Some sec, off)) (filter (\<lambda>(sec, _). collected sec) js))"
proof (induction js arbitrary: b ids)
  case (Cons j js)
  obtain sec p off sz where j: "j = (sec, p, off, sz)" by (cases j)
  obtain b1 ids1 where b1: "record_jump sec p off sz b = Some (Inr b1)" "fixups_inv b1 ids1"
    "map (fix_key b1) ids1 = (if collected sec then place (Some sec, off) (map (fix_key b) ids) else map (fix_key b) ids)"
    using record_jump_inv [OF Cons.prems] by blast
  have "mset (map (fix_key b1) ids1) = (if collected sec then add_mset (Some sec, off) (mset (map (fix_key b) ids)) else mset (map (fix_key b) ids))"
    unfolding b1(3) by (simp add: mset_place)
  then show ?case using Cons.IH [OF b1(2)] b1(1) j by auto
qed auto

section \<open>The list of blocks\<close>

definition blocks_inv :: "bbinfo \<Rightarrow> nat list \<Rightarrow> bool" where
  "blocks_inv b ids \<longleftrightarrow> chain (\<lambda>i. bb_next (mbb_at b i)) (mbbs_list_head b) ids \<and> distinct ids \<and> set ids \<subseteq> {..<n_mbbs b}
     \<and> mbbs_list_tail b = (if ids = [] then None else Some (last ids)) \<and> cur_block_id b = word_of_nat (length ids)
     \<and> map (\<lambda>i. ID (mbb_at b i)) ids = map word_of_nat [0..<length ids]
     \<and> (\<forall>i \<in> set (butlast ids). \<not> is_begin (mbb_at b i))
     \<and> (\<forall>i \<in> set ids. \<not> is_begin (mbb_at b i) \<longrightarrow> parent_frag (mbb_at b i) \<noteq> None)"

lemma blocks_tail: "blocks_inv b ids \<Longrightarrow> mbbs_list_tail b = None \<longleftrightarrow> ids = []"
  by (auto simp: blocks_inv_def)

lemma blocks_cong:
  assumes "blocks_inv b ids" "mbb_at b' = mbb_at b" "mbbs_list_head b' = mbbs_list_head b" "mbbs_list_tail b' = mbbs_list_tail b"
    "cur_block_id b' = cur_block_id b" "n_mbbs b' = n_mbbs b"
  shows "blocks_inv b' ids"
  using assms by (simp add: blocks_inv_def)

lemma start_block_inv:
  assumes inv: "blocks_inv b ids" and nb: "\<not> tail_begins b"
  shows "\<exists>b'. start_block fall par b = Inr b' \<and> blocks_inv b' (ids @ [n_mbbs b]) \<and> tail_begins b'
    \<and> bbinfo_handwritten_file b' = bbinfo_handwritten_file b"
proof -
  let ?r = "n_mbbs b"
  let ?m = "\<lparr>ID = cur_block_id b, bb_type = 0, bb_offset = - 1, bb_size = 0, bb_alignment = 0, num_fixs = 0,
     fall_through = fall, bb_sec = None, bb_next = None, parent_id = par, is_begin = True, is_inline = False, parent_frag = None\<rparr>"
  have I: "chain (\<lambda>i. bb_next (mbb_at b i)) (mbbs_list_head b) ids" "distinct ids" "?r \<notin> set ids"
    "set ids \<subseteq> {..<?r}" "mbbs_list_tail b = (if ids = [] then None else Some (last ids))"
    "cur_block_id b = word_of_nat (length ids)" "map (\<lambda>i. ID (mbb_at b i)) ids = map word_of_nat [0..<length ids]"
    "\<forall>i \<in> set (butlast ids). \<not> is_begin (mbb_at b i)" "\<forall>i \<in> set ids. \<not> is_begin (mbb_at b i) \<longrightarrow> parent_frag (mbb_at b i) \<noteq> None"
    using inv by (auto simp: blocks_inv_def)
  have hd: "mbbs_list_head b = None \<longleftrightarrow> ids = []" using I(1) by (cases ids) auto
  define M where "M = (if ids = [] then (mbb_at b)(?r := ?m)
     else (mbb_at b)(last ids := (mbb_at b (last ids))\<lparr>bb_next := Some ?r\<rparr>, ?r := ?m))"
  define b' where "b' = b\<lparr>mbb_at := M, n_mbbs := ?r + 1, mbbs_list_head := (if ids = [] then Some ?r else mbbs_list_head b),
     mbbs_list_tail := Some ?r, cur_block_id := cur_block_id b + 1\<rparr>"
  have l: "ids \<noteq> [] \<Longrightarrow> last ids \<noteq> ?r" using I(3) last_in_set by metis
  have sb: "start_block fall par b = Inr b'"
    using hd I(5) l by (auto simp: start_block_def init_basic_block_def upd_mbb_def zero_mbb_def b'_def M_def Let_def fun_upd_twist)
  have Mi: "M i = (if i = last ids then (mbb_at b i)\<lparr>bb_next := Some ?r\<rparr> else mbb_at b i)" if "i \<in> set ids" for i
    using that I(3) by (auto simp: M_def)
  have ch: "chain (\<lambda>i. bb_next (M i)) (if ids = [] then Some ?r else mbbs_list_head b) (ids @ [?r])"
  proof (cases "ids = []")
    case False
    have nx: "(\<lambda>i. bb_next (M i)) = relink ((\<lambda>i. bb_next (mbb_at b i))(?r := None)) ids (Some ?r)"
      using False l by (auto simp: M_def relink_def fun_eq_iff)
    have "bb_next (mbb_at b (last ids)) = None"
      using I(1) False path_distinct_end by (metis chain_def)
    then show ?thesis
      using chain_put [of "\<lambda>i. bb_next (mbb_at b i)" "mbbs_list_head b" ids "[]" ?r None] I(1-3) False
      by (simp add: nx reroot_def)
  qed (simp add: M_def)
  have nbl: "\<not> is_begin (mbb_at b i)" if "i \<in> set ids" for i
  proof (cases "i = last ids")
    case True
    moreover have "ids \<noteq> []" using that by auto
    ultimately show ?thesis using nb I(5) by (simp add: tail_begins_def)
  next
    case False
    then have "i \<in> set (butlast ids)" using that by (cases ids rule: rev_cases) auto
    then show ?thesis using I(8) by blast
  qed
  have "map (\<lambda>i. ID (M i)) ids = map (\<lambda>i. ID (mbb_at b i)) ids" using Mi by auto
  moreover have "M ?r = ?m" by (simp add: M_def)
  ultimately have "blocks_inv b' (ids @ [?r])"
    using ch I nbl Mi by (simp add: blocks_inv_def b'_def less_Suc_eq subset_eq)
  moreover have "tail_begins b'" by (simp add: tail_begins_def b'_def M_def)
  ultimately show ?thesis using sb by (simp add: b'_def)
qed

text \<open>A change of the last block that keeps its number and its link, and that lets it begin only with a frag.\<close>

lemma upd_tail_inv:
  assumes inv: "blocks_inv b ids" and ne: "ids \<noteq> []"
    and f: "\<And>m. ID (f m) = ID m" "\<And>m. bb_next (f m) = bb_next m"
      "\<And>m. \<not> is_begin (f m) \<Longrightarrow> parent_frag (f m) \<noteq> None \<or> \<not> is_begin m \<and> parent_frag (f m) = parent_frag m"
  shows "\<exists>b'. upd_tail f b = Inr b' \<and> blocks_inv b' ids \<and> b' = upd_mbb (last ids) f b"
proof -
  let ?b = "upd_mbb (last ids) f b"
  have I: "chain (\<lambda>i. bb_next (mbb_at b i)) (mbbs_list_head b) ids" "distinct ids"
    "set ids \<subseteq> {..<n_mbbs b}" "mbbs_list_tail b = Some (last ids)"
    "cur_block_id b = word_of_nat (length ids)" "map (\<lambda>i. ID (mbb_at b i)) ids = map word_of_nat [0..<length ids]"
    "\<forall>i \<in> set (butlast ids). \<not> is_begin (mbb_at b i)" "\<forall>i \<in> set ids. \<not> is_begin (mbb_at b i) \<longrightarrow> parent_frag (mbb_at b i) \<noteq> None"
    using inv ne by (auto simp: blocks_inv_def)
  have k: "bb_next (mbb_at ?b i) = bb_next (mbb_at b i)" "ID (mbb_at ?b i) = ID (mbb_at b i)" for i
    by (simp_all add: upd_mbb_def f)
  have lb: "last ids \<notin> set (butlast ids)" using I(2) ne by (cases ids rule: rev_cases) auto
  have "\<not> is_begin (mbb_at ?b i)" if "i \<in> set (butlast ids)" for i
    using that I(7) lb by (auto simp: upd_mbb_def)
  moreover have "parent_frag (mbb_at ?b i) \<noteq> None" if "i \<in> set ids" "\<not> is_begin (mbb_at ?b i)" for i
    using that I(8) f(3) [of "mbb_at b i"] by (cases "i = last ids") (auto simp: upd_mbb_def)
  ultimately have "blocks_inv ?b ids"
    using I unfolding blocks_inv_def k by (simp add: upd_mbb_def ne)
  then show ?thesis using I(4) by (simp add: upd_tail_def)
qed

lemma type_as_end_keeps [simp]:
  "ID (type_as_end m) = ID m" "bb_next (type_as_end m) = bb_next m" "is_begin (type_as_end m) = is_begin m"
  "parent_frag (type_as_end m) = parent_frag m"
  by (simp_all add: type_as_end_def)

lemma block_starts_simps [simp]:
  "ID (block_starts p off m) = ID m" "bb_next (block_starts p off m) = bb_next m" "\<not> is_begin (block_starts p off m)"
  "parent_frag (block_starts p off m) = Some p" "bb_offset (block_starts p off m) = ucast off"
  "bb_size (block_starts p off m) = bb_size m"
  by (simp_all add: block_starts_def)

text \<open>A computation that gives an error only where it may, and keeps the invariant.\<close>

definition keeps_blocks :: "bbinfo result \<Rightarrow> bool" where
  "keeps_blocks r \<longleftrightarrow> (\<exists>b' ids'. r = Inr b' \<and> blocks_inv b' ids')"

lemma keeps_blocks_Inr: "blocks_inv b ids \<Longrightarrow> keeps_blocks (Inr b)"
  by (auto simp: keeps_blocks_def)

lemma start_block_keeps: "blocks_inv b ids \<Longrightarrow> \<not> tail_begins b \<Longrightarrow> keeps_blocks (start_block fall par b)"
  unfolding keeps_blocks_def using start_block_inv by blast

lemma funcb_keeps:
  assumes inv: "blocks_inv b ids"
  shows "keeps_blocks (funcb_bbInfo_handler b)"
proof -
  let ?b = "b\<lparr>prev_function_id := cur_function_id b, cur_function_id := cur_function_id b + 1,
     function_head := True, bbinfo_handwritten_file := False\<rparr>"
  have i: "blocks_inv ?b ids" by (rule blocks_cong [OF inv]) simp_all
  show ?thesis
    using keeps_blocks_Inr [OF i] start_block_keeps [OF i] by (simp add: funcb_bbInfo_handler_def Let_def)
qed

lemma bb_keeps:
  assumes inv: "blocks_inv b ids"
  shows "keeps_blocks (bb_bbInfo_handler fall b)"
proof (cases "tail_begins b")
  case True
  then have "ids \<noteq> []" using inv by (auto simp: tail_begins_def blocks_inv_def)
  then show ?thesis using upd_tail_inv [OF inv, of "\<lambda>m. m\<lparr>fall_through := (fall = 1)\<rparr>"] True
    by (auto simp: bb_bbInfo_handler_def keeps_blocks_def)
next
  case False
  let ?b = "b\<lparr>bbinfo_handwritten_file := False\<rparr>"
  have "blocks_inv ?b ids" by (rule blocks_cong [OF inv]) simp_all
  moreover have "\<not> tail_begins ?b" using False by (simp add: tail_begins_def split: option.splits)
  ultimately have "keeps_blocks (start_block (fall = 1) (cur_function_id b) ?b)" by (rule start_block_keeps)
  then show ?thesis using False by (simp add: bb_bbInfo_handler_def)
qed

lemma as_end_keeps: "blocks_inv b ids \<Longrightarrow> mbbs_list_tail b \<noteq> None \<Longrightarrow> \<exists>b'. upd_tail type_as_end b = Inr b' \<and> blocks_inv b' ids
    \<and> tail_begins b' = tail_begins b"
  using upd_tail_inv [of b ids type_as_end] blocks_tail [of b ids]
  by (auto simp: tail_begins_def upd_mbb_def split: option.splits)

lemma handwritten_funcb_keeps:
  assumes inv: "blocks_inv b ids"
  shows "keeps_blocks (handwritten_funcb_bbinfo_handler b)"
proof (cases "\<not> bbinfo_handwritten_file b \<or> tail_begins b")
  case True
  then show ?thesis using keeps_blocks_Inr [OF inv] by (auto simp: handwritten_funcb_bbinfo_handler_def)
next
  case False
  have "\<exists>b1. (if mbbs_list_tail b = None then Inr b else upd_tail type_as_end b) = Inr b1 \<and> blocks_inv b1 ids \<and> \<not> tail_begins b1"
    using as_end_keeps [OF inv] False inv by auto
  then obtain b1 where b1: "(if mbbs_list_tail b = None then Inr b else upd_tail type_as_end b) = Inr b1"
    "blocks_inv b1 ids" "\<not> tail_begins b1" by blast
  show ?thesis
    using start_block_keeps [OF b1(2,3)] False unfolding handwritten_funcb_bbinfo_handler_def b1(1) by simp
qed

lemma open_handwritten_keeps:
  assumes inv: "blocks_inv b ids" and nb: "\<not> tail_begins b"
  shows "keeps_blocks (open_handwritten p off b)"
proof -
  obtain b1 where b1: "start_block False 0 b = Inr b1" "blocks_inv b1 (ids @ [n_mbbs b])"
    using start_block_inv [OF inv nb] by blast
  obtain b2 where b2: "upd_tail (block_starts p off) b1 = Inr b2" "blocks_inv b2 (ids @ [n_mbbs b])"
    using upd_tail_inv [OF b1(2), of "block_starts p off"] by auto
  have "blocks_inv (b2\<lparr>bbinfo_last_frag := Some p, last_bb := (last_bb b2)(p := mbbs_list_tail b2)\<rparr>) (ids @ [n_mbbs b])"
    by (rule blocks_cong [OF b2(2)]) simp_all
  then show ?thesis using b1 b2 by (simp add: open_handwritten_def bbinfo_initbb_handwritten_def keeps_blocks_def) blast
qed

lemma insn_opens_block_keeps:
  assumes inv: "blocks_inv b0 ids"
  shows "keeps_blocks (insn_opens_block True p off b0)"
proof -
  define b where "b = b0\<lparr>last_bb := (last_bb b0)(p := mbbs_list_tail b0)\<rparr>"
  let ?f = "(\<lambda>m. if bbinfo_app b then m\<lparr>is_inline := True\<rparr> else m) \<circ> block_starts p off"
  have i: "blocks_inv b ids" by (rule blocks_cong [OF inv]) (simp_all add: b_def)
  have "\<exists>b1. (if True \<and> tail_begins b then upd_tail ?f b else Inr b) = Inr b1 \<and> blocks_inv b1 ids \<and> \<not> tail_begins b1"
  proof (cases "tail_begins b")
    case True
    then have ne: "ids \<noteq> []" using i by (auto simp: tail_begins_def blocks_inv_def)
    obtain b1 where "upd_tail ?f b = Inr b1" "blocks_inv b1 ids" "b1 = upd_mbb (last ids) ?f b"
      using upd_tail_inv [OF i ne, of ?f] by auto
    moreover have "\<not> tail_begins (upd_mbb (last ids) ?f b)"
      using i ne by (simp add: tail_begins_def blocks_inv_def upd_mbb_def)
    ultimately show ?thesis using True by auto
  qed (use i in auto)
  then obtain b1 where b1: "(if True \<and> tail_begins b then upd_tail ?f b else Inr b) = Inr b1" "blocks_inv b1 ids" "\<not> tail_begins b1"
    by blast
  let ?r = "if mbbs_list_tail b1 = None \<or> bbinfo_last_frag b1 \<noteq> Some p
      \<or> ucast (bbinfo_last_inst_offset b1 + bbinfo_last_inst_size b1) \<noteq> off then open_handwritten p off b1 else Inr b1"
  have "keeps_blocks ?r" using open_handwritten_keeps [OF b1(2,3)] keeps_blocks_Inr [OF b1(2)] by simp
  then obtain b2 ids2 where b2: "?r = Inr b2" "blocks_inv b2 ids2" by (auto simp: keeps_blocks_def)
  have b2': "blocks_inv (b2\<lparr>bbinfo_last_inst_offset := ucast off\<rparr>) ids2" by (rule blocks_cong [OF b2(2)]) simp_all
  have "insn_opens_block True p off b0 = (if bbinfo_handwritten_file b1 then bindE ?r (\<lambda>b2. Inr (b2\<lparr>bbinfo_last_inst_offset := ucast off\<rparr>)) else Inr b1)"
    unfolding insn_opens_block_def Let_def b_def [symmetric] b1(1) by simp
  then show ?thesis using keeps_blocks_Inr [OF b2'] keeps_blocks_Inr [OF b1(2)] unfolding b2(1) by simp
qed

lemma upd_mbb_inv:
  assumes inv: "blocks_inv b ids"
    and f: "\<And>m. ID (f m) = ID m" "\<And>m. bb_next (f m) = bb_next m" "\<And>m. is_begin (f m) = is_begin m"
      "\<And>m. parent_frag (f m) = parent_frag m"
  shows "blocks_inv (upd_mbb p f b) ids"
proof -
  have k: "bb_next (mbb_at (upd_mbb p f b) i) = bb_next (mbb_at b i)" "ID (mbb_at (upd_mbb p f b) i) = ID (mbb_at b i)"
    "is_begin (mbb_at (upd_mbb p f b) i) = is_begin (mbb_at b i)" "parent_frag (mbb_at (upd_mbb p f b) i) = parent_frag (mbb_at b i)" for i
    by (simp_all add: upd_mbb_def f)
  show ?thesis using inv unfolding blocks_inv_def k by (simp add: upd_mbb_def)
qed

lemma add_to_block_keeps:
  assumes inv: "blocks_inv b ids"
  shows "blocks_inv (add_to_block n b) ids"
proof -
  let ?b = "case mbbs_list_tail b of None \<Rightarrow> b | Some t \<Rightarrow> upd_mbb t (\<lambda>m. m\<lparr>bb_size := bb_size m + ucast n\<rparr>) b"
  have i: "blocks_inv ?b ids" using inv upd_mbb_inv [OF inv] by (simp split: option.split)
  then show ?thesis unfolding add_to_block_def Let_def using blocks_cong [OF i] by simp
qed

lemma insn_ends_keeps: "blocks_inv b ids \<Longrightarrow> insn_ends d tg p off g b = Some (Inr b') \<Longrightarrow> blocks_inv b' ids"
  by (auto simp: insn_ends_def split: if_splits intro!: add_to_block_keeps) (erule blocks_cong, simp_all)

lemma bind_pairE: "Option.bind m (\<lambda>(x, y). f x y) = Some z \<Longrightarrow> (\<And>x y. f x y = Some z \<Longrightarrow> P) \<Longrightarrow> P"
  by (cases m) auto

lemma insert_fixup_frame:
  assumes r: "bbinfo_init_insert_fixup sec off b = Some (Inr (fx, b1))"
  shows "mbb_at b1 = mbb_at b \<and> mbbs_list_head b1 = mbbs_list_head b \<and> mbbs_list_tail b1 = mbbs_list_tail b
      \<and> cur_block_id b1 = cur_block_id b \<and> n_mbbs b1 = n_mbbs b"
proof (cases "fixups_list_head b = None")
  case True
  then show ?thesis using r by (auto simp: bbinfo_init_insert_fixup_def Let_def)
next
  case False
  define b2 where "b2 = b\<lparr>fixup_at := (fixup_at b)(n_fixups b := zero_fixup), n_fixups := n_fixups b + 1\<rparr>"
  have k: "mbb_at b2 = mbb_at b \<and> mbbs_list_head b2 = mbbs_list_head b \<and> mbbs_list_tail b2 = mbbs_list_tail b
      \<and> cur_block_id b2 = cur_block_id b \<and> n_mbbs b2 = n_mbbs b \<and> fixups_list_head b2 \<noteq> None"
    using False by (simp add: b2_def)
  have f: "mbb_at (upd_fixup p h c) = mbb_at c" "mbbs_list_head (upd_fixup p h c) = mbbs_list_head c"
    "mbbs_list_tail (upd_fixup p h c) = mbbs_list_tail c" "cur_block_id (upd_fixup p h c) = cur_block_id c"
    "n_mbbs (upd_fixup p h c) = n_mbbs c" for p h c by (simp_all add: upd_fixup_def)
  let ?n = "n_fixups b"
  have "Option.bind (find_sec (fixup_at b2) sec None (fixups_list_head b2)) (\<lambda>(prev, cur).
      if cur = None then Some (deref prev (\<lambda>p. Inr (?n, upd_fixup p (\<lambda>f. f\<lparr>bf_next := Some ?n\<rparr>) b2)))
      else Option.bind (find_place (fixup_at b2) sec off prev cur) (\<lambda>(prev, cur).
        case prev of None \<Rightarrow> Some (Inr (?n, (upd_fixup ?n (\<lambda>f. f\<lparr>bf_next := fixups_list_head b2\<rparr>) b2)\<lparr>fixups_list_head := Some ?n\<rparr>))
        | Some p \<Rightarrow> Some (Inr (?n, upd_fixup ?n (\<lambda>f. f\<lparr>bf_next := cur\<rparr>) (upd_fixup p (\<lambda>f. f\<lparr>bf_next := Some ?n\<rparr>) b2)))))
      = Some (Inr (fx, b1))"
    using r k unfolding bbinfo_init_insert_fixup_def Let_def b2_def [symmetric] by simp
  then show ?thesis
  proof (rule bind_pairE)
    fix prev cur
    assume 1: "(if cur = None then Some (deref prev (\<lambda>p. Inr (?n, upd_fixup p (\<lambda>f. f\<lparr>bf_next := Some ?n\<rparr>) b2)))
      else Option.bind (find_place (fixup_at b2) sec off prev cur) (\<lambda>(prev, cur).
        case prev of None \<Rightarrow> Some (Inr (?n, (upd_fixup ?n (\<lambda>f. f\<lparr>bf_next := fixups_list_head b2\<rparr>) b2)\<lparr>fixups_list_head := Some ?n\<rparr>))
        | Some p \<Rightarrow> Some (Inr (?n, upd_fixup ?n (\<lambda>f. f\<lparr>bf_next := cur\<rparr>) (upd_fixup p (\<lambda>f. f\<lparr>bf_next := Some ?n\<rparr>) b2)))))
      = Some (Inr (fx, b1))"
    show ?thesis
    proof (cases "cur = None")
      case True
      then show ?thesis using 1 k by (auto simp: f)
    next
      case c: False
      note 2 = 1 [unfolded if_not_P [OF c]]
      show ?thesis by (rule bind_pairE [OF 2]) (use k in \<open>auto simp: f split: option.split_asm\<close>)
    qed
  qed
qed

lemma record_jump_keeps:
  assumes inv: "blocks_inv b ids" and r: "record_jump sec p off sz b = Some (Inr b')"
  shows "blocks_inv b' ids"
proof (cases "bbinfo_is_collect_sec (Some sec) = 0")
  case True
  then show ?thesis using inv r by (simp add: record_jump_def)
next
  case False
  obtain fx b1 where b1: "bbinfo_init_insert_fixup sec off b = Some (Inr (fx, b1))"
    "b' = (let b2 = upd_fixup fx (\<lambda>f. f\<lparr>bf_sec := Some sec, bf_offset := off, bf_is_new_section := False, bf_is_rela := True, bf_size := sz\<rparr>) b1
      in case last_bb b2 p of None \<Rightarrow> b2 | Some m \<Rightarrow> upd_mbb m (\<lambda>x. x\<lparr>num_fixs := num_fixs x + 1\<rparr>) b2)"
    using r False by (auto simp: record_jump_def Let_def)
  have "mbb_at b1 = mbb_at b \<and> mbbs_list_head b1 = mbbs_list_head b \<and> mbbs_list_tail b1 = mbbs_list_tail b
      \<and> cur_block_id b1 = cur_block_id b \<and> n_mbbs b1 = n_mbbs b"
    by (rule insert_fixup_frame [OF b1(1)])
  then have i: "blocks_inv (upd_fixup fx (\<lambda>f. f\<lparr>bf_sec := Some sec, bf_offset := off, bf_is_new_section := False, bf_is_rela := True, bf_size := sz\<rparr>) b1) ids"
    by (intro blocks_cong [OF inv]) (simp_all add: upd_fixup_def)
  show ?thesis unfolding b1(2) Let_def using i upd_mbb_inv [OF i] by (simp split: option.split)
qed

text \<open>Runs of directives and instructions, with the option on.\<close>

inductive bb_run :: "bbinfo \<Rightarrow> bool" where
  init: "bb_run (bbinfo_init b)"
| label: "bb_run b \<Longrightarrow> update_last_symbol s g b = (n, b') \<Longrightarrow> bb_run b'"
| inline: "bb_run b \<Longrightarrow> bb_run (b\<lparr>bbinfo_app := a\<rparr>)"
| funb: "bb_run b \<Longrightarrow> funcb_bbInfo_handler b = Inr b' \<Longrightarrow> bb_run b'"
| fune: "bb_run b \<Longrightarrow> funce_bbInfo_handler b = Inr b' \<Longrightarrow> bb_run b'"
| bb: "bb_run b \<Longrightarrow> bb_bbInfo_handler fall b = Inr b' \<Longrightarrow> bb_run b'"
| be: "bb_run b \<Longrightarrow> be_bbInfo_handler fall b = Inr b' \<Longrightarrow> bb_run b'"
| func: "bb_run b \<Longrightarrow> type_function True name b = Inr b' \<Longrightarrow> bb_run b'"
| size: "bb_run b \<Longrightarrow> size_of_function True name b = Inr b' \<Longrightarrow> bb_run b'"
| insn_start: "bb_run b \<Longrightarrow> insn_opens_block True p off b = Inr b' \<Longrightarrow> bb_run b'"
| insn_end: "bb_run b \<Longrightarrow> insn_ends True tg p off g b = Some (Inr b') \<Longrightarrow> bb_run b'"
| jump: "bb_run b \<Longrightarrow> record_jump sec p off sz b = Some (Inr b') \<Longrightarrow> bb_run b'"

lemma init_blocks: "blocks_inv (bbinfo_init b) []"
  by (simp add: blocks_inv_def bbinfo_init_def)

lemma funce_keeps:
  assumes inv: "blocks_inv b ids"
  shows "funce_bbInfo_handler b = Inl As_fatal \<and> ids = [] \<or> keeps_blocks (funce_bbInfo_handler b) \<and> ids \<noteq> []"
proof -
  let ?b = "b\<lparr>cur_function_end_id := cur_function_end_id b + 1\<rparr>"
  have i: "blocks_inv ?b ids" by (rule blocks_cong [OF inv]) simp_all
  show ?thesis using as_end_keeps [OF i] blocks_tail [OF i] by (auto simp: funce_bbInfo_handler_def Let_def keeps_blocks_def)
qed

lemma be_keeps:
  assumes inv: "blocks_inv b ids"
  shows "be_bbInfo_handler fall b = Inl Null_deref \<and> ids = [] \<and> fall = 1 \<or> keeps_blocks (be_bbInfo_handler fall b)"
proof (cases "fall = 1 \<and> ids \<noteq> []")
  case True
  then obtain b1 where "upd_tail (\<lambda>m. m\<lparr>fall_through := True\<rparr>) b = Inr b1" "blocks_inv b1 ids"
    using upd_tail_inv [OF inv, of "\<lambda>m. m\<lparr>fall_through := True\<rparr>"] by auto
  moreover from this(2) have "blocks_inv (b1\<lparr>bbinfo_handled_ee := True\<rparr>) ids" by (rule blocks_cong) simp_all
  ultimately show ?thesis using True by (auto simp: be_bbInfo_handler_def keeps_blocks_def)
next
  case False
  have "blocks_inv (b\<lparr>bbinfo_handled_ee := True\<rparr>) ids" using inv by (rule blocks_cong) simp_all
  then show ?thesis
    using False blocks_tail [OF inv] by (auto simp: be_bbInfo_handler_def keeps_blocks_def upd_tail_def)
qed

lemma type_function_keeps:
  assumes inv: "blocks_inv b ids"
  shows "keeps_blocks (type_function True name b)"
proof -
  obtain b1 ids1 where b1: "handwritten_funcb_bbinfo_handler b = Inr b1" "blocks_inv b1 ids1"
    using handwritten_funcb_keeps [OF inv] by (auto simp: keeps_blocks_def)
  have "blocks_inv (b1\<lparr>handwritten_bbinfo_func_name := Some name\<rparr>) ids1" using b1(2) by (rule blocks_cong) simp_all
  then show ?thesis using inv b1 by (auto simp: type_function_def keeps_blocks_def)
qed

lemma size_of_function_keeps:
  assumes inv: "blocks_inv b ids"
  shows "size_of_function True name b = Inl As_fatal \<and> ids = [] \<or> keeps_blocks (size_of_function True name b)"
  using as_end_keeps [OF inv] blocks_tail [OF inv] inv
  by (auto simp: size_of_function_def handwritten_funce_bbinfo_handler_def keeps_blocks_def)

lemma keeps_blocksD: "keeps_blocks r \<Longrightarrow> r = Inr b' \<Longrightarrow> \<exists>ids. blocks_inv b' ids"
  by (auto simp: keeps_blocks_def)

lemma bb_run_blocks: "bb_run b \<Longrightarrow> \<exists>ids. blocks_inv b ids"
proof (induction rule: bb_run.induct)
  case (label b s g n b')
  then obtain ids where "blocks_inv b ids" by blast
  then have "blocks_inv b' ids"
    using label(2) blocks_cong [of b ids b'] by (auto simp: update_last_symbol_def Let_def split: if_splits)
  then show ?case by blast
next
  case (inline b a)
  then obtain ids where "blocks_inv b ids" by blast
  then have "blocks_inv (b\<lparr>bbinfo_app := a\<rparr>) ids" by (rule blocks_cong) simp_all
  then show ?case by blast
next
  case (init b)
  show ?case using init_blocks by blast
next
  case (funb b b')
  then show ?case using funcb_keeps keeps_blocksD by blast
next
  case (fune b b')
  then show ?case using funce_keeps keeps_blocksD by (metis Inl_Inr_False)
next
  case (bb b fall b')
  then show ?case using bb_keeps keeps_blocksD by blast
next
  case (be b fall b')
  then show ?case using be_keeps keeps_blocksD by (metis Inl_Inr_False)
next
  case (func b name b')
  then show ?case using type_function_keeps keeps_blocksD by blast
next
  case (size b name b')
  then show ?case using size_of_function_keeps keeps_blocksD by (metis Inl_Inr_False)
next
  case (insn_start b p off b')
  then show ?case using insn_opens_block_keeps keeps_blocksD by blast
next
  case (insn_end b tg p off g b')
  then show ?case using insn_ends_keeps by blast
next
  case (jump b sec p off sz b')
  then show ?case using record_jump_keeps by blast
qed

section \<open>The size of an instruction\<close>

lemma sum_list_fix: "sum_list (map f qs) = (word_of_nat (sum_list (map (\<lambda>q. unat (f q :: u64)) qs)) :: u64)"
  by (induction qs) simp_all

lemma insn_size_exact:
  assumes c: "content_inv tg g fc ids bs" and a: "adds tg g ids bs g' new xs"
  shows "\<exists>qs. insn_size tg (last ids) (word_of_nat (obstack_object_size (frch_obstack fc))) g' = Some (Inr (qs, word_of_nat (length xs)))
    \<and> set new = set qs"
proof -
  have ne: "ids \<noteq> []" using content_chain [OF c] by (simp add: chain_inv_def)
  obtain fc' where c': "content_inv tg g' fc' (ids @ new) (bs @ xs)" using a by (auto simp: adds_def)
  let ?o = "obstack_object_size (frch_obstack fc)" and ?o' = "obstack_object_size (frch_obstack fc')"
  let ?f = "\<lambda>q. unat (fr_fix (frags g' q))"
  have now: "frag_now_fix tg g' = Inr (word_of_nat ?o')"
    using frag_now_fix_inv(1) [OF content_chain [OF c']] by (simp add: frag_now_fix_def)
  have fn: "frag_now g' = last (ids @ new)" "distinct (ids @ new)" using content_chain [OF c'] by (auto simp: chain_inv_def)
  have bl: "butlast (ids @ new) = butlast ids @ butlast (last ids # new)"
    using ne by (cases ids rule: rev_cases) (auto simp: butlast_append)
  have "map ?f (butlast ids) = map (\<lambda>q. unat (fr_fix (frags g q))) (butlast ids)" using a by (auto simp: adds_def)
  then have "closed_size tg g' (ids @ new) = closed_size tg g ids + sum_list (map ?f (butlast (last ids # new)))"
    by (simp only: closed_size_sum bl map_append sum_list.append)
  then have L: "?o + length xs = sum_list (map ?f (butlast (last ids # new))) + ?o'"
    using content_length [OF c] content_length [OF c'] by simp
  show ?thesis
  proof (cases "new = []")
    case True
    then have "word_of_nat ?o' - word_of_nat ?o = (word_of_nat (length xs) :: u64)" using L
      by (metis (no_types, lifting) add_0 add_diff_cancel_left' butlast.simps(2) list.simps(8) of_nat_add sum_list.Nil)
    then show ?thesis using True fn ne now by (auto simp: insn_size_def)
  next
    case False
    have p: "last ids \<noteq> frag_now g'" using fn ne False by (metis distinct_append disjoint_iff last_append last_in_set)
    have "frags_until (frags g') (frag_now g') (Some (last ids)) = Some (last ids # butlast new)"
      using frags_until_chain [OF content_chain [OF c'] ne] False by simp
    then have fu: "frags_until (frags g') (frag_now g') (fr_next (frags g' (last ids))) = Some (butlast new)"
      using p by (subst (asm) frags_until.simps) (auto simp: Option.bind_eq_Some_conv)
    have "word_of_nat ?o + (word_of_nat (length xs) :: u64) = fr_fix (frags g' (last ids))
        + word_of_nat (sum_list (map ?f (butlast new))) + word_of_nat ?o'"
      using arg_cong [OF L, of "word_of_nat :: nat \<Rightarrow> u64"] False by (simp add: add.assoc)
    then have "fr_fix (frags g' (last ids)) - word_of_nat ?o + sum_list (map (\<lambda>q. fr_fix (frags g' q)) (butlast new)) + word_of_nat ?o'
        = (word_of_nat (length xs) :: u64)"
      unfolding sum_list_fix by (simp add: algebra_simps)
    moreover have "set new = set (butlast new @ [frag_now g'])" using fn False by simp
    ultimately show ?thesis using p fu now by (auto simp: insn_size_def)
  qed
qed

lemma ucast_word_of_nat: "ucast (word_of_nat n :: u64) = (word_of_nat n :: u32)"
  by (rule bit_word_eqI) (simp add: bit_simps)

lemma upd_tail_frame: "upd_tail f b = Inr b' \<Longrightarrow> last_bb b' = last_bb b \<and> mbbs_list_tail b' = mbbs_list_tail b"
  by (auto simp: upd_tail_def upd_mbb_def)

lemma open_handwritten_last: "open_handwritten p off b = Inr b' \<Longrightarrow> last_bb b' p = mbbs_list_tail b'"
  by (auto simp: open_handwritten_def)

lemma insn_opens_last_bb:
  assumes "insn_opens_block True p off b0 = Inr b'"
  shows "last_bb b' p = mbbs_list_tail b'"
proof -
  define b where "b = b0\<lparr>last_bb := (last_bb b0)(p := mbbs_list_tail b0)\<rparr>"
  let ?f = "(\<lambda>m. if bbinfo_app b then m\<lparr>is_inline := True\<rparr> else m) \<circ> block_starts p off"
  obtain b1 where 1: "(if True \<and> tail_begins b then upd_tail ?f b else Inr b) = Inr b1"
    "(if True \<and> bbinfo_handwritten_file b1
      then bindE (if mbbs_list_tail b1 = None \<or> bbinfo_last_frag b1 \<noteq> Some p
                     \<or> ucast (bbinfo_last_inst_offset b1 + bbinfo_last_inst_size b1) \<noteq> off
                  then open_handwritten p off b1 else Inr b1) (\<lambda>b2. Inr (b2\<lparr>bbinfo_last_inst_offset := ucast off\<rparr>))
      else Inr b1) = Inr b'"
    using assms unfolding insn_opens_block_def Let_def b_def [symmetric] bindE_Inr_iff by blast
  have "last_bb b1 p = mbbs_list_tail b1"
    using 1(1) upd_tail_frame [of ?f b b1] by (cases "tail_begins b") (auto simp: b_def)
  then show ?thesis using 1(2) open_handwritten_last by (fastforce split: if_split_asm)
qed

lemma output_insn_bb_effect:
  assumes rd: "ready tg g" and c: "content_inv tg g fc ids bs" and ok: "insn_ok i" and inv: "blocks_inv b bids"
  shows "\<exists>r b1. output_insn_bb True tg plt i (g, b) = Some r
    \<and> insn_opens_block True (last ids) (word_of_nat (obstack_object_size (frch_obstack fc))) b = Inr b1
    \<and> (\<forall>g' b'. r = Inr (g', b') \<longrightarrow> (\<exists>new xs. adds tg g ids bs g' new xs \<and> (\<exists>bids'. blocks_inv b' bids')
         \<and> (\<forall>t. mbbs_list_tail b1 = Some t \<longrightarrow> bb_size (mbb_at b' t) = bb_size (mbb_at b1 t) + word_of_nat (length xs)
              \<and> (\<forall>p \<in> set (last ids # new). last_bb b' p = Some t))))"
proof -
  let ?off = "word_of_nat (obstack_object_size (frch_obstack fc)) :: u64"
  have now: "frag_now_fix tg g = Inr ?off" "frag_now g = last ids"
    using frag_now_fix_inv(1) [OF content_chain [OF c]] content_chain [OF c] by (auto simp: frag_now_fix_def chain_inv_def)
  obtain b1 bids1 where b1: "insn_opens_block True (last ids) ?off b = Inr b1" "blocks_inv b1 bids1"
    using insn_opens_block_keeps [OF inv, of "last ids" ?off] by (auto simp: keeps_blocks_def)
  obtain r where r: "output_insn tg plt i g = Some r" "\<And>g'. r = Inr g' \<Longrightarrow> \<exists>new xs. adds tg g ids bs g' new xs"
    using output_insn_effect [OF rd ok c, of plt] by metis
  show ?thesis
  proof (cases r)
    case (Inl e)
    then show ?thesis using r b1 now by (auto simp: output_insn_bb_def)
  next
    case (Inr g')
    obtain new xs where a: "adds tg g ids bs g' new xs" using r(2) [OF Inr] by blast
    obtain qs where qs: "insn_size tg (last ids) ?off g' = Some (Inr (qs, word_of_nat (length xs)))" "set new = set qs"
      using insn_size_exact [OF c a] by blast
    let ?b2 = "b1\<lparr>last_bb := (\<lambda>q. if q \<in> set qs then mbbs_list_tail b1 else last_bb b1 q)\<rparr>"
    let ?b' = "add_to_block (word_of_nat (length xs)) ?b2"
    have e: "insn_ends True tg (last ids) ?off g' b1 = Some (Inr ?b')" by (simp add: insn_ends_def qs(1))
    have o: "output_insn_bb True tg plt i (g, b) = Some (Inr (g', ?b'))" using r Inr b1 now e by (simp add: output_insn_bb_def)
    have "bb_size (mbb_at ?b' t) = bb_size (mbb_at b1 t) + word_of_nat (length xs)
        \<and> (\<forall>p \<in> set (last ids # new). last_bb ?b' p = Some t)" if "mbbs_list_tail b1 = Some t" for t
      using that insn_opens_last_bb [OF b1(1)] qs(2) by (auto simp: add_to_block_def upd_mbb_def ucast_word_of_nat Let_def)
    then show ?thesis using o b1 a insn_ends_keeps [OF b1(2) e] by auto
  qed
qed

section \<open>Properties\<close>

text \<open>C37: However the displacements of jumps are recorded, the list of fixups holds exactly those in collected
  sections, all fixups of a section stand together, and within a section their offsets increase.\<close>

theorem fixups_in_order:
  "\<exists>b' ids. record_jumps js (bbinfo_init b) = Some (Inr b')
    \<and> chain (\<lambda>i. bf_next (fixup_at b' i)) (fixups_list_head b') ids \<and> grouped (map (fix_key b') ids)
    \<and> mset (map (fix_key b') ids) = mset (map (\<lambda>(sec, p, off, sz). (Some sec, off)) (filter (\<lambda>(sec, _). collected sec) js))"
proof -
  have "fixups_inv (bbinfo_init b) []" by (simp add: fixups_inv_def bbinfo_init_def)
  from record_jumps_inv [OF this, of js] show ?thesis by (auto simp: fixups_inv_def)
qed

text \<open>C38: In every run of directives and instructions the blocks are numbered from 0 in the order of the list, the
  tail is the last of them, every block but the last has been started by an instruction and so has a frag and
  an offset; functions and blocks can always be opened, while closing a function is fatal exactly when no
  block exists.\<close>

theorem blocks_of_run:
  assumes "bb_run b"
  shows "\<exists>ids. chain (\<lambda>i. bb_next (mbb_at b i)) (mbbs_list_head b) ids
    \<and> mbbs_list_tail b = (if ids = [] then None else Some (last ids))
    \<and> map (\<lambda>i. ID (mbb_at b i)) ids = map word_of_nat [0..<length ids]
    \<and> (\<forall>i \<in> set (butlast ids). parent_frag (mbb_at b i) \<noteq> None)
    \<and> (\<exists>b'. funcb_bbInfo_handler b = Inr b') \<and> (\<exists>b'. bb_bbInfo_handler fall b = Inr b')
    \<and> (\<exists>b'. insn_opens_block True p off b = Inr b') \<and> (\<exists>b'. type_function True name b = Inr b')
    \<and> (funce_bbInfo_handler b = Inl As_fatal \<longleftrightarrow> ids = [])"
proof -
  obtain ids where inv: "blocks_inv b ids" using bb_run_blocks [OF assms] by blast
  have "\<forall>i \<in> set (butlast ids). parent_frag (mbb_at b i) \<noteq> None"
    using inv by (auto simp: blocks_inv_def dest: in_set_butlastD)
  moreover have "funce_bbInfo_handler b = Inl As_fatal \<longleftrightarrow> ids = []"
    using funce_keeps [OF inv] by (auto simp: keeps_blocks_def)
  ultimately show ?thesis
    using inv funcb_keeps [OF inv] bb_keeps [OF inv, of fall] insn_opens_block_keeps [OF inv, of p off]
      type_function_keeps [OF inv, of name]
    by (intro exI [of _ ids]) (auto simp: blocks_inv_def keeps_blocks_def)
qed

definition demo_bbinfo :: bbinfo where
  "demo_bbinfo = \<lparr>cur_function_id = 0, cur_function_end_id = 0, prev_function_id = 0, cur_block_id = 0, last_symbol = None,
     fixup_at = (\<lambda>_. zero_fixup), fixups_list_head = None, n_fixups = 0, mbb_at = (\<lambda>_. zero_mbb), mbbs_list_head = None,
     mbbs_list_tail = None, n_mbbs = 0, bbinfo_app = False, bbinfo_handwritten_file = True, handwritten_bbinfo_func_name = None,
     bbinfo_last_inst_size = 0, bbinfo_last_inst_offset = 0, bbinfo_last_frag = None, function_head = False,
     bbinfo_handled_ee = False, last_bb = (\<lambda>_. None)\<rparr>"

theorem blocks_of_run_witness:
  "\<exists>ids. chain (\<lambda>i. bb_next (mbb_at (bbinfo_init demo_bbinfo) i)) (mbbs_list_head (bbinfo_init demo_bbinfo)) ids
    \<and> (\<exists>b'. bb_bbInfo_handler 1 (bbinfo_init demo_bbinfo) = Inr b')"
  using blocks_of_run [OF bb_run.init [of demo_bbinfo]] by blast

text \<open>\<open>.bbinfo_be 1\<close> in a file without blocks dereferences a null pointer, where \<open>.bbinfo_fune\<close> reports a
  fatal error.\<close>

lemma block_end_without_block:
  "be_bbInfo_handler 1 (bbinfo_init b) = Inl Null_deref \<and> funce_bbInfo_handler (bbinfo_init b) = Inl As_fatal"
  by (simp add: be_bbInfo_handler_def funce_bbInfo_handler_def upd_tail_def bbinfo_init_def Let_def)

text \<open>C39: Writing an instruction adds to the current block exactly the number of octets the instruction has put
  into the frags, also when it is spread over several of them, and all these frags are tied to the block.\<close>

theorem insn_grows_block:
  assumes "ready tg g" "content_inv tg g fc ids bs" "insn_ok i" "blocks_inv b bids"
  shows "\<exists>r b1. output_insn_bb True tg plt i (g, b) = Some r
    \<and> insn_opens_block True (last ids) (word_of_nat (obstack_object_size (frch_obstack fc))) b = Inr b1
    \<and> (\<forall>g' b'. r = Inr (g', b') \<longrightarrow> (\<exists>new xs. adds tg g ids bs g' new xs \<and> (\<exists>bids'. blocks_inv b' bids')
         \<and> (\<forall>t. mbbs_list_tail b1 = Some t \<longrightarrow> bb_size (mbb_at b' t) = bb_size (mbb_at b1 t) + word_of_nat (length xs)
              \<and> (\<forall>p \<in> set (last ids # new). last_bb b' p = Some t))))"
  by (rule output_insn_bb_effect [OF assms])

theorem insn_grows_block_witness:
  "\<exists>r. output_insn_bb True sample_target (\<lambda>_. False) insn_nop (start_gas, bbinfo_init demo_bbinfo) = Some r"
  using insn_grows_block [OF start_ready start_content insn_nop_simps(1) init_blocks [of demo_bbinfo], of "\<lambda>_. False"] by blast

end
