(* ===== verification/Mpk_Xom.thy ===== *)
theory Mpk_Xom
  imports Gas_Prelude
begin

text \<open>
  The run-time side of execute-only memory (\<open>src/xom-tools/mpk_xom.c\<close>): a shared object whose constructor
  assigns the executable segments of the process to a protection key and then disables data access for
  that key in the register PKRU.  The system calls are parameters, with a state of the kernel they change;
  leaving the process with a status is an error value.  Messages are left out.
\<close>

section \<open>Data\<close>

type_synonym status = nat

record phdr =
  p_type :: u32
  p_flags :: u32
  p_vaddr :: u64
  p_memsz :: u64

text \<open>What \<open>dl_iterate_phdr\<close> tells of a loaded object.\<close>

record dl_phdr_info =
  dlpi_addr :: u64
  dlpi_name :: "byte list option"
  dlpi_phdr :: "phdr list"

record 'k xom =
  g_page_size :: u64
  g_pkey :: int
  g_verbose :: bool
  g_protect_all :: bool
  g_protected_segments :: nat
  pkru :: u32
  kern :: 'k

text \<open>\<open>pkey_mprotect\<close> of the kernel: start, length, protection and key; it returns a value and the new state.\<close>

type_synonym 'k mprotect = "u64 \<Rightarrow> u64 \<Rightarrow> u32 \<Rightarrow> int \<Rightarrow> 'k \<Rightarrow> int \<times> 'k"

definition PT_LOAD :: u32 where "PT_LOAD = 1"
definition PF_X :: u32 where "PF_X = 1"
definition PF_W :: u32 where "PF_W = 2"
definition PF_R :: u32 where "PF_R = 4"
definition PROT_READ :: u32 where "PROT_READ = 1"
definition PROT_WRITE :: u32 where "PROT_WRITE = 2"
definition PROT_EXEC :: u32 where "PROT_EXEC = 4"
definition PKEY_DISABLE_ACCESS :: u32 where "PKEY_DISABLE_ACCESS = 1"

section \<open>The protection key register\<close>

definition rdpkru :: "'k xom \<Rightarrow> u32" where
  "rdpkru st = pkru st"

definition wrpkru :: "u32 \<Rightarrow> 'k xom \<Rightarrow> 'k xom" where
  "wrpkru v st = st\<lparr>pkru := v\<rparr>"

definition x_pkey_set :: "int \<Rightarrow> u32 \<Rightarrow> 'k xom \<Rightarrow> int \<times> 'k xom" where
  "x_pkey_set pkey rights st =
     (if pkey < 0 \<or> pkey > 15 \<or> rights > 3 then (- 1, st)
      else (let shift = 2 * nat pkey; mask = push_bit shift 3;
                v = (rdpkru st AND NOT mask) OR push_bit shift (rights AND 3)
            in (0, wrpkru v st)))"

section \<open>Segments\<close>

definition prot_from_phdr :: "phdr \<Rightarrow> u32" where
  "prot_from_phdr ph =
     (let p0 = 0;
          p1 = (if p_flags ph AND PF_R \<noteq> 0 then p0 OR PROT_READ else p0);
          p2 = (if p_flags ph AND PF_W \<noteq> 0 then p1 OR PROT_WRITE else p1)
      in if p_flags ph AND PF_X \<noteq> 0 then p2 OR PROT_EXEC else p2)"

definition seg_lo :: "dl_phdr_info \<Rightarrow> phdr \<Rightarrow> u64" where
  "seg_lo info ph = dlpi_addr info + p_vaddr ph"

definition page_start :: "u64 \<Rightarrow> u64 \<Rightarrow> u64" where
  "page_start ps lo = lo AND NOT (ps - 1)"

definition page_end :: "u64 \<Rightarrow> u64 \<Rightarrow> u64" where
  "page_end ps hi = (hi + ps - 1) AND NOT (ps - 1)"

definition exec_segment :: "phdr \<Rightarrow> bool" where
  "exec_segment ph \<longleftrightarrow> p_type ph = PT_LOAD \<and> p_flags ph AND PF_X \<noteq> 0 \<and> p_memsz ph \<noteq> 0"

definition protect_segment :: "'k mprotect \<Rightarrow> dl_phdr_info \<Rightarrow> phdr \<Rightarrow> 'k xom \<Rightarrow> status + 'k xom" where
  "protect_segment mprotect info ph st =
     (if \<not> exec_segment ph then Inr st
      else (let lo = seg_lo info ph; hi = lo + p_memsz ph;
                start = page_start (g_page_size st) lo; endp = page_end (g_page_size st) hi;
                r = mprotect start (endp - start) (prot_from_phdr ph) (g_pkey st) (kern st)
            in if fst r \<noteq> 0 then Inl 126
               else Inr (st\<lparr>kern := snd r, g_protected_segments := g_protected_segments st + 1\<rparr>)))"

fun protect_segments :: "'k mprotect \<Rightarrow> dl_phdr_info \<Rightarrow> phdr list \<Rightarrow> 'k xom \<Rightarrow> status + 'k xom" where
  "protect_segments mprotect info [] st = Inr st"
| "protect_segments mprotect info (ph # phs) st =
     bindE (protect_segment mprotect info ph st) (protect_segments mprotect info phs)"

definition is_main :: "dl_phdr_info \<Rightarrow> bool" where
  "is_main info \<longleftrightarrow> (case dlpi_name info of None \<Rightarrow> True | Some s \<Rightarrow> s = [])"

definition protect_object :: "'k mprotect \<Rightarrow> dl_phdr_info \<Rightarrow> 'k xom \<Rightarrow> status + 'k xom" where
  "protect_object mprotect info st =
     (if \<not> is_main info \<and> \<not> g_protect_all st then Inr st
      else protect_segments mprotect info (dlpi_phdr info) st)"

text \<open>\<open>dl_iterate_phdr\<close> calls back for every loaded object, as the callback always returns 0.\<close>

fun dl_iterate_phdr :: "'k mprotect \<Rightarrow> dl_phdr_info list \<Rightarrow> 'k xom \<Rightarrow> status + 'k xom" where
  "dl_iterate_phdr mprotect [] st = Inr st"
| "dl_iterate_phdr mprotect (info # infos) st =
     bindE (protect_object mprotect info st) (dl_iterate_phdr mprotect infos)"

text \<open>The environment: the two variables, the page size, and \<open>pkey_alloc\<close>, which returns a key and a new state.\<close>

record 'k process =
  env_scope :: "byte list option"
  env_verbose :: "byte list option"
  sysconf_pagesize :: int
  pkey_alloc :: "'k \<Rightarrow> int \<times> 'k"
  objects :: "dl_phdr_info list"

definition name_all :: "byte list" where
  "name_all = [0x61, 0x6c, 0x6c]"

definition name_zero :: "byte list" where
  "name_zero = [0x30]"

definition mpk_xom_init :: "'k mprotect \<Rightarrow> 'k process \<Rightarrow> 'k xom \<Rightarrow> status + 'k xom" where
  "mpk_xom_init mprotect pr st0 =
     (let st1 = st0\<lparr>g_protect_all := (env_scope pr = Some name_all), g_verbose := \<not> (env_verbose pr = Some name_zero),
                    g_page_size := word_of_int (sysconf_pagesize pr)\<rparr> in
      if sysconf_pagesize pr \<le> 0 then Inl 125
      else (let (key, k) = pkey_alloc pr (kern st1); st2 = st1\<lparr>g_pkey := key, kern := k\<rparr> in
        if key < 0 then Inl 125
        else bindE (dl_iterate_phdr mprotect (objects pr) st2) (\<lambda>st3.
          if g_protected_segments st3 = 0 then Inl 126
          else (let (r, st4) = x_pkey_set (g_pkey st3) PKEY_DISABLE_ACCESS st3 in
                if r \<noteq> 0 then Inl 127 else Inr st4))))"

section \<open>What the kernel promises\<close>

text \<open>The key of the page an address is in, and the documented effect of \<open>pkey_mprotect\<close> on a range of whole
  pages: when it returns 0, the range has the key, and no other address changes its key.\<close>

definition mprotect_law :: "'k mprotect \<Rightarrow> ('k \<Rightarrow> u64 \<Rightarrow> int) \<Rightarrow> u64 \<Rightarrow> bool" where
  "mprotect_law mprotect key_of ps \<longleftrightarrow> (\<forall>start len prot key k k'.
     start AND (ps - 1) = 0 \<and> len AND (ps - 1) = 0 \<and> unat start + unat len < 2 ^ 64 \<and> mprotect start len prot key k = (0, k') \<longrightarrow>
     (\<forall>a. key_of k' a = (if start \<le> a \<and> a < start + len then key else key_of k a)))"

text \<open>The processor refuses a data access to a page whose key has its first PKRU bit set.\<close>

definition data_access :: "'k xom \<Rightarrow> ('k \<Rightarrow> u64 \<Rightarrow> int) \<Rightarrow> u64 \<Rightarrow> bool" where
  "data_access st key_of a \<longleftrightarrow> \<not> bit (pkru st) (2 * nat (key_of (kern st) a))"

definition selected :: "'k process \<Rightarrow> dl_phdr_info \<Rightarrow> bool" where
  "selected pr info \<longleftrightarrow> info \<in> set (objects pr) \<and> (is_main info \<or> env_scope pr = Some name_all)"

text \<open>A segment that does not wrap around the address space, the round-up to pages included.\<close>

definition segment_fits :: "u64 \<Rightarrow> dl_phdr_info \<Rightarrow> phdr \<Rightarrow> bool" where
  "segment_fits ps info ph \<longleftrightarrow> unat (seg_lo info ph) + unat (p_memsz ph) + unat ps \<le> 2 ^ 64"

section \<open>Pages\<close>

lemma page_mask: "n < 64 \<Longrightarrow> (2 ^ n :: u64) - 1 = mask n"
  by (simp add: mask_eq_exp_minus_1)

lemma and_not_mask_nat: "unat (x AND NOT (mask n) :: u64) = unat x - unat x mod 2 ^ n"
proof -
  have "x = push_bit n (drop_bit n x) + take_bit n x" by (simp add: bits_ident)
  moreover have "x AND NOT (mask n) = push_bit n (drop_bit n x)" by (rule bit_eqI) (auto simp: bit_simps)
  ultimately have e: "x AND NOT (mask n) = x - take_bit n x" by (metis add_diff_cancel_right')
  have t: "unat (take_bit n x) = unat x mod 2 ^ n" by (simp add: unsigned_take_bit_eq flip: take_bit_eq_mod)
  have "take_bit n x \<le> x" by (simp add: word_le_nat_alt t)
  then have "unat (x - take_bit n x) = unat x - unat (take_bit n x)" by (rule unat_sub)
  then show ?thesis by (simp only: e t)
qed

lemma page_start_nat: "n < 64 \<Longrightarrow> unat (page_start (2 ^ n) lo) = unat lo - unat lo mod 2 ^ n"
  by (simp add: page_start_def page_mask and_not_mask_nat)

lemma and_page_mask: "n < 64 \<Longrightarrow> (x AND (2 ^ n - 1) = 0) = (unat (x :: u64) mod 2 ^ n = 0)"
proof -
  assume n: "n < 64"
  have "unat (take_bit n x) = unat x mod 2 ^ n" by (simp add: unsigned_take_bit_eq flip: take_bit_eq_mod)
  then show ?thesis using n by (metis page_mask take_bit_eq_mask unat_eq_0)
qed

lemma unat_exp:
  assumes "n < 64"
  shows "unat (2 ^ n :: u64) = 2 ^ n"
proof -
  have "(2 :: nat) ^ n < 2 ^ 64" using assms by (intro power_strict_increasing) auto
  then have "unat (word_of_nat (2 ^ n) :: u64) = 2 ^ n" by (intro of_nat_inverse [OF refl]) simp
  then show ?thesis by simp
qed

lemma page_end_nat:
  assumes n: "n < 64" and f: "unat hi + 2 ^ n \<le> (2 ^ 64 :: nat)"
  shows "unat (page_end (2 ^ n) hi) = (unat hi + 2 ^ n - 1) - (unat hi + 2 ^ n - 1) mod 2 ^ n"
proof -
  have pos: "1 \<le> (2 ^ n :: u64)" using unat_exp [OF n] by (simp add: word_le_nat_alt)
  have m1: "unat ((2 ^ n :: u64) - 1) = 2 ^ n - 1" using unat_sub [OF pos] unat_exp [OF n] by simp
  have z: "(0 :: nat) < 2 ^ n" by simp
  have "unat (hi + (2 ^ n - 1)) = unat hi + unat ((2 ^ n :: u64) - 1)"
    by (rule unat_add_lem [THEN iffD1]) (use f m1 z in simp)
  also have "\<dots> = unat hi + 2 ^ n - 1" using m1 z by simp
  finally have "unat (hi + 2 ^ n - 1) = unat hi + 2 ^ n - 1" by (simp add: add_diff_eq)
  then show ?thesis by (simp add: page_end_def page_mask [OF n] and_not_mask_nat)
qed

lemma round_up: "0 < (d :: nat) \<Longrightarrow> h \<le> (h + d - 1) - (h + d - 1) mod d"
  using mod_less_divisor [of d "h + d - 1"] by linarith

text \<open>The pages of a segment: whole pages that do not wrap around, and cover it.\<close>

lemma segment_pages:
  assumes n: "n < 64" and f: "segment_fits (2 ^ n) info ph"
  defines "lo \<equiv> seg_lo info ph" and "hi \<equiv> seg_lo info ph + p_memsz ph"
  defines "start \<equiv> page_start (2 ^ n) lo" and "len \<equiv> page_end (2 ^ n) hi - page_start (2 ^ n) lo"
  shows "start AND (2 ^ n - 1) = 0" "len AND (2 ^ n - 1) = 0" "unat start + unat len < 2 ^ 64"
    "lo \<le> a \<Longrightarrow> a < hi \<Longrightarrow> start \<le> a \<and> a < start + len"
proof -
  let ?d = "2 ^ n :: nat" and ?e = "page_end (2 ^ n) hi"
  have fit: "unat lo + unat (p_memsz ph) + ?d \<le> 2 ^ 64" using f by (simp add: segment_fits_def lo_def unat_exp [OF n])
  have d: "0 < ?d" by simp
  have "unat lo + unat (p_memsz ph) < 2 ^ 64" using fit d by linarith
  then have hi: "unat hi = unat lo + unat (p_memsz ph)"
    unfolding hi_def lo_def [symmetric] by (intro unat_add_lem [THEN iffD1]) simp
  have S: "unat start = unat lo - unat lo mod ?d" by (simp add: start_def page_start_nat [OF n])
  have E: "unat ?e = (unat hi + ?d - 1) - (unat hi + ?d - 1) mod ?d" by (rule page_end_nat [OF n]) (use fit hi in simp)
  have he: "unat hi \<le> unat ?e" unfolding E by (rule round_up) simp
  have sl: "unat start \<le> unat lo" by (simp add: S)
  have "start \<le> ?e" using he sl hi by (simp add: word_le_nat_alt)
  then have L: "unat len = unat ?e - unat start" unfolding len_def start_def by (rule unat_sub)
  have dS: "?d dvd unat start" and dE: "?d dvd unat ?e" unfolding S E by (rule dvd_minus_mod)+
  then have "?d dvd unat len" unfolding L by (rule dvd_diff_nat [rotated])
  then show "start AND (2 ^ n - 1) = 0" "len AND (2 ^ n - 1) = 0" using dS by (simp_all add: and_page_mask [OF n] mod_eq_0_iff_dvd)
  have sum: "unat start + unat len = unat ?e" using L he sl hi by simp
  then show "unat start + unat len < 2 ^ 64" using unat_lt [of ?e] by simp
  then have "unat (start + len) = unat ?e" using sum unat_add_lem [of start len] by simp
  then show "lo \<le> a \<Longrightarrow> a < hi \<Longrightarrow> start \<le> a \<and> a < start + len"
    using he sl by (simp add: word_le_nat_alt word_less_nat_alt)
qed

section \<open>Protecting segments\<close>

text \<open>What a step may change, and that keys once given stay.\<close>

definition keyed :: "('k \<Rightarrow> u64 \<Rightarrow> int) \<Rightarrow> 'k xom \<Rightarrow> 'k xom \<Rightarrow> bool" where
  "keyed key_of st st' \<longleftrightarrow> g_pkey st' = g_pkey st \<and> g_page_size st' = g_page_size st \<and> pkru st' = pkru st
     \<and> g_protect_all st' = g_protect_all st \<and> g_protected_segments st \<le> g_protected_segments st'
     \<and> (\<forall>a. key_of (kern st) a = g_pkey st \<longrightarrow> key_of (kern st') a = g_pkey st)"

lemma keyed_refl [simp]: "keyed key_of st st"
  by (simp add: keyed_def)

lemma keyed_trans: "keyed key_of a b \<Longrightarrow> keyed key_of b c \<Longrightarrow> keyed key_of a c"
  by (auto simp: keyed_def)

definition covered :: "('k \<Rightarrow> u64 \<Rightarrow> int) \<Rightarrow> dl_phdr_info \<Rightarrow> phdr \<Rightarrow> 'k xom \<Rightarrow> bool" where
  "covered key_of info ph st \<longleftrightarrow> (\<forall>a. seg_lo info ph \<le> a \<and> a < seg_lo info ph + p_memsz ph \<longrightarrow> key_of (kern st) a = g_pkey st)"

lemma covered_keyed: "covered key_of info ph st \<Longrightarrow> keyed key_of st st' \<Longrightarrow> covered key_of info ph st'"
  by (simp add: covered_def keyed_def)

lemma protect_segment_spec:
  assumes law: "mprotect_law mp key_of (2 ^ n)" and n: "n < 64" and ps: "g_page_size st = 2 ^ n"
    and f: "exec_segment ph \<Longrightarrow> segment_fits (2 ^ n) info ph" and r: "protect_segment mp info ph st = Inr st'"
  shows "keyed key_of st st' \<and> (exec_segment ph \<longrightarrow> covered key_of info ph st')"
proof (cases "exec_segment ph")
  case False
  then show ?thesis using r by (simp add: protect_segment_def)
next
  case True
  let ?s = "page_start (2 ^ n) (seg_lo info ph)" and ?e = "page_end (2 ^ n) (seg_lo info ph + p_memsz ph)"
  obtain k' where k': "mp ?s (?e - ?s) (prot_from_phdr ph) (g_pkey st) (kern st) = (0, k')"
    "st' = st\<lparr>kern := k', g_protected_segments := g_protected_segments st + 1\<rparr>"
    using r True ps by (auto simp: protect_segment_def Let_def split: if_splits) (metis prod.collapse)
  note P = segment_pages [OF n f [OF True]]
  have K: "key_of k' a = (if ?s \<le> a \<and> a < ?s + (?e - ?s) then g_pkey st else key_of (kern st) a)" for a
    using law P(1-3) k'(1) unfolding mprotect_law_def by blast
  then have "keyed key_of st st'" by (simp add: keyed_def k'(2))
  moreover have "covered key_of info ph st'" using P(4) K by (simp add: covered_def k'(2))
  ultimately show ?thesis by blast
qed

lemma protect_segments_spec:
  assumes law: "mprotect_law mp key_of (2 ^ n)" and n: "n < 64"
  shows "g_page_size st = 2 ^ n \<Longrightarrow> (\<And>ph. ph \<in> set phs \<Longrightarrow> exec_segment ph \<Longrightarrow> segment_fits (2 ^ n) info ph) \<Longrightarrow>
    protect_segments mp info phs st = Inr st' \<Longrightarrow>
    keyed key_of st st' \<and> (\<forall>ph \<in> set phs. exec_segment ph \<longrightarrow> covered key_of info ph st')"
proof (induction phs arbitrary: st)
  case (Cons ph phs)
  obtain st1 where r: "protect_segment mp info ph st = Inr st1" "protect_segments mp info phs st1 = Inr st'"
    using Cons.prems(3) by auto
  have 1: "keyed key_of st st1" "exec_segment ph \<longrightarrow> covered key_of info ph st1"
    using protect_segment_spec [OF law n Cons.prems(1) _ r(1)] Cons.prems(2) by auto
  then have "g_page_size st1 = 2 ^ n" using Cons.prems(1) by (simp add: keyed_def)
  then have 2: "keyed key_of st1 st'" "\<forall>ph \<in> set phs. exec_segment ph \<longrightarrow> covered key_of info ph st'"
    using Cons.IH [OF _ _ r(2)] Cons.prems(2) by auto
  then show ?case using 1 keyed_trans [OF 1(1) 2(1)] covered_keyed [OF _ 2(1)] by auto
qed simp

lemma dl_iterate_spec:
  assumes law: "mprotect_law mp key_of (2 ^ n)" and n: "n < 64"
  shows "g_page_size st = 2 ^ n \<Longrightarrow> (\<And>info ph. info \<in> set infos \<Longrightarrow> is_main info \<or> g_protect_all st \<Longrightarrow> ph \<in> set (dlpi_phdr info) \<Longrightarrow>
      exec_segment ph \<Longrightarrow> segment_fits (2 ^ n) info ph) \<Longrightarrow>
    dl_iterate_phdr mp infos st = Inr st' \<Longrightarrow>
    keyed key_of st st' \<and> (\<forall>info \<in> set infos. is_main info \<or> g_protect_all st \<longrightarrow>
      (\<forall>ph \<in> set (dlpi_phdr info). exec_segment ph \<longrightarrow> covered key_of info ph st'))"
proof (induction infos arbitrary: st)
  case (Cons info infos)
  obtain st1 where r: "protect_object mp info st = Inr st1" "dl_iterate_phdr mp infos st1 = Inr st'"
    using Cons.prems(3) by auto
  have 1: "keyed key_of st st1" "is_main info \<or> g_protect_all st \<longrightarrow> (\<forall>ph \<in> set (dlpi_phdr info). exec_segment ph \<longrightarrow> covered key_of info ph st1)"
    using r(1) protect_segments_spec [OF law n Cons.prems(1), of "dlpi_phdr info" info st1] Cons.prems(2) [of info]
    by (auto simp: protect_object_def split: if_split_asm)
  then have ps: "g_page_size st1 = 2 ^ n" "g_protect_all st1 = g_protect_all st" using Cons.prems(1) by (simp_all add: keyed_def)
  then have 2: "keyed key_of st1 st'" "\<forall>info \<in> set infos. is_main info \<or> g_protect_all st1 \<longrightarrow>
      (\<forall>ph \<in> set (dlpi_phdr info). exec_segment ph \<longrightarrow> covered key_of info ph st')"
    using Cons.IH [OF ps(1) _ r(2)] Cons.prems(2) by auto
  then show ?case using 1 ps keyed_trans [OF 1(1) 2(1)] covered_keyed [OF _ 2(1)] by auto
qed simp

section \<open>The constructor\<close>

definition calls_succeed :: "'k mprotect \<Rightarrow> 'k process \<Rightarrow> 'k xom \<Rightarrow> bool" where
  "calls_succeed mprotect pr st \<longleftrightarrow> (\<forall>start len prot key k. fst (mprotect start len prot key k) = 0)
     \<and> fst (pkey_alloc pr (kern st)) \<in> {0..15}"

lemma protect_segment_returns:
  assumes "\<And>start len prot key k. fst (mp start len prot key k) = 0"
  shows "\<exists>st'. protect_segment mp info ph st = Inr st' \<and> g_protected_segments st \<le> g_protected_segments st'
    \<and> g_protect_all st' = g_protect_all st \<and> g_pkey st' = g_pkey st \<and> (exec_segment ph \<longrightarrow> 0 < g_protected_segments st')"
  by (cases "exec_segment ph") (simp_all add: protect_segment_def Let_def assms)

lemma protect_segments_returns:
  assumes "\<And>start len prot key k. fst (mp start len prot key k) = 0"
  shows "\<exists>st'. protect_segments mp info phs st = Inr st' \<and> g_protected_segments st \<le> g_protected_segments st'
    \<and> g_protect_all st' = g_protect_all st \<and> g_pkey st' = g_pkey st
    \<and> ((\<exists>ph \<in> set phs. exec_segment ph) \<longrightarrow> 0 < g_protected_segments st')"
proof (induction phs arbitrary: st)
  case (Cons ph phs)
  obtain st1 where "protect_segment mp info ph st = Inr st1" "g_protected_segments st \<le> g_protected_segments st1"
    "g_protect_all st1 = g_protect_all st" "g_pkey st1 = g_pkey st" "exec_segment ph \<longrightarrow> 0 < g_protected_segments st1"
    using protect_segment_returns [where mp = mp and info = info and ph = ph and st = st] assms by blast
  then show ?case using Cons.IH [of st1] by fastforce
qed simp

lemma dl_iterate_returns:
  assumes "\<And>start len prot key k. fst (mp start len prot key k) = 0"
  shows "\<exists>st'. dl_iterate_phdr mp infos st = Inr st' \<and> g_protected_segments st \<le> g_protected_segments st'
    \<and> g_protect_all st' = g_protect_all st \<and> g_pkey st' = g_pkey st
    \<and> ((\<exists>info \<in> set infos. (is_main info \<or> g_protect_all st) \<and> (\<exists>ph \<in> set (dlpi_phdr info). exec_segment ph))
         \<longrightarrow> 0 < g_protected_segments st')"
proof (induction infos arbitrary: st)
  case (Cons info infos)
  obtain st1 where "protect_object mp info st = Inr st1" "g_protected_segments st \<le> g_protected_segments st1"
    "g_protect_all st1 = g_protect_all st" "g_pkey st1 = g_pkey st"
    "(is_main info \<or> g_protect_all st) \<and> (\<exists>ph \<in> set (dlpi_phdr info). exec_segment ph) \<longrightarrow> 0 < g_protected_segments st1"
    using protect_segments_returns [where mp = mp and info = info and phs = "dlpi_phdr info" and st = st] assms unfolding protect_object_def
    by (cases "\<not> is_main info \<and> \<not> g_protect_all st") auto
  then show ?case using Cons.IH [of st1] by fastforce
qed simp

lemma bit_three: "bit (3 :: int) i \<longleftrightarrow> i = 0 \<or> i = 1"
  by (cases i) (auto simp: bit_Suc bit_1_iff)

lemma x_pkey_set_bits:
  assumes "x_pkey_set key PKEY_DISABLE_ACCESS st = (0, st')"
  shows "key \<in> {0..15}" "bit (pkru st') (2 * nat key)" "kern st' = kern st" "g_pkey st' = g_pkey st"
    "i < 32 \<Longrightarrow> i div 2 \<noteq> nat key \<Longrightarrow> bit (pkru st') i = bit (pkru st) i"
proof -
  let ?s = "2 * nat key"
  show k: "key \<in> {0..15}" using assms by (auto simp: x_pkey_set_def split: if_splits)
  have "(1 :: u32) AND 3 = 1" by simp
  then have st': "st' = st\<lparr>pkru := (pkru st AND NOT (push_bit ?s 3)) OR push_bit ?s 1\<rparr>"
    using assms by (auto simp: x_pkey_set_def PKEY_DISABLE_ACCESS_def Let_def rdpkru_def wrpkru_def split: if_splits)
  show "kern st' = kern st" "g_pkey st' = g_pkey st" by (simp_all add: st')
  have s: "?s < 32" using k by auto
  then show "bit (pkru st') ?s" by (simp add: st' bit_simps)
  show "i < 32 \<Longrightarrow> i div 2 \<noteq> nat key \<Longrightarrow> bit (pkru st') i = bit (pkru st) i"
    using s by (auto simp: st' bit_simps bit_three)
qed

lemma x_pkey_set_returns: "key \<in> {0..15} \<Longrightarrow> fst (x_pkey_set key PKEY_DISABLE_ACCESS st) = 0"
  by (auto simp: x_pkey_set_def PKEY_DISABLE_ACCESS_def Let_def)

lemma init_steps:
  assumes "mpk_xom_init mp pr st = Inr st'"
  obtains key k st3 where "pkey_alloc pr (kern st) = (key, k)" "0 < sysconf_pagesize pr"
    "dl_iterate_phdr mp (objects pr) (st\<lparr>g_protect_all := (env_scope pr = Some name_all), g_verbose := \<not> (env_verbose pr = Some name_zero),
        g_page_size := word_of_int (sysconf_pagesize pr), g_pkey := key, kern := k\<rparr>) = Inr st3"
    "x_pkey_set (g_pkey st3) PKEY_DISABLE_ACCESS st3 = (0, st')"
  using assms by (auto simp: mpk_xom_init_def Let_def split: prod.splits if_splits)

section \<open>Property\<close>

text \<open>C12: When the constructor returns, no octet of an executable segment of the main program - or, with
  \<open>MPK_XOM_SCOPE=all\<close>, of any loaded object - can be read or written as data any more, and the rights of all
  other protection keys are as before; in every other case the process is left.  The constructor returns
  when the system calls succeed and there is an executable segment.\<close>

theorem xom_init_protects:
  assumes law: "mprotect_law mp key_of (2 ^ n)" and n: "n < 63" and ps: "sysconf_pagesize pr = 2 ^ n"
    and fits: "\<forall>info ph. selected pr info \<and> ph \<in> set (dlpi_phdr info) \<and> exec_segment ph \<longrightarrow> segment_fits (2 ^ n) info ph"
  shows "(\<forall>st'. mpk_xom_init mp pr st = Inr st' \<longrightarrow>
      (\<forall>info ph a. selected pr info \<and> ph \<in> set (dlpi_phdr info) \<and> exec_segment ph
         \<and> seg_lo info ph \<le> a \<and> a < seg_lo info ph + p_memsz ph \<longrightarrow> \<not> data_access st' key_of a)
      \<and> (\<forall>i < 32. i div 2 \<noteq> nat (g_pkey st') \<longrightarrow> bit (pkru st') i = bit (pkru st) i))
    \<and> (calls_succeed mp pr st \<and> (\<exists>info ph. selected pr info \<and> ph \<in> set (dlpi_phdr info) \<and> exec_segment ph)
       \<longrightarrow> (\<exists>st'. mpk_xom_init mp pr st = Inr st'))"
proof (intro conjI allI impI)
  have n': "n < 64" using n by simp
  have w: "word_of_int (sysconf_pagesize pr) = (2 ^ n :: u64)" by (simp add: ps)
  {
    fix st' assume "mpk_xom_init mp pr st = Inr st'"
    from init_steps [OF this] obtain key k st3 where I: "pkey_alloc pr (kern st) = (key, k)"
      "dl_iterate_phdr mp (objects pr) (st\<lparr>g_protect_all := (env_scope pr = Some name_all), g_verbose := \<not> (env_verbose pr = Some name_zero),
          g_page_size := 2 ^ n, g_pkey := key, kern := k\<rparr>) = Inr st3"
      "x_pkey_set (g_pkey st3) PKEY_DISABLE_ACCESS st3 = (0, st')" unfolding w by blast
    let ?st2 = "st\<lparr>g_protect_all := (env_scope pr = Some name_all), g_verbose := \<not> (env_verbose pr = Some name_zero),
          g_page_size := 2 ^ n, g_pkey := key, kern := k\<rparr>"
    have D: "keyed key_of ?st2 st3 \<and> (\<forall>info \<in> set (objects pr). is_main info \<or> g_protect_all ?st2 \<longrightarrow>
        (\<forall>ph \<in> set (dlpi_phdr info). exec_segment ph \<longrightarrow> covered key_of info ph st3))"
      by (rule dl_iterate_spec [OF law n' _ _ I(2)]) (use fits in \<open>auto simp: selected_def\<close>)
    note B = x_pkey_set_bits [OF I(3)]
    {
      fix info ph a
      assume a: "selected pr info \<and> ph \<in> set (dlpi_phdr info) \<and> exec_segment ph
        \<and> seg_lo info ph \<le> a \<and> a < seg_lo info ph + p_memsz ph"
      then have "covered key_of info ph st3" using D by (auto simp: selected_def)
      then have "key_of (kern st') a = g_pkey st3" using a B(3) by (simp add: covered_def)
      then show "\<not> data_access st' key_of a" using B(2) by (simp add: data_access_def)
    }
    fix i :: nat assume "i < 32" "i div 2 \<noteq> nat (g_pkey st')"
    moreover have "pkru st3 = pkru st" using D by (simp add: keyed_def)
    ultimately show "bit (pkru st') i = bit (pkru st) i" using B(4,5) by simp
  }
  assume a: "calls_succeed mp pr st \<and> (\<exists>info ph. selected pr info \<and> ph \<in> set (dlpi_phdr info) \<and> exec_segment ph)"
  obtain key k where key: "pkey_alloc pr (kern st) = (key, k)" by fastforce
  have ok: "fst (mp start len prot ky kn) = 0" for start len prot ky kn using a by (simp add: calls_succeed_def)
  have kr: "key \<in> {0..15}" using a key by (simp add: calls_succeed_def)
  let ?st2 = "st\<lparr>g_protect_all := (env_scope pr = Some name_all), g_verbose := \<not> (env_verbose pr = Some name_zero),
      g_page_size := word_of_int (sysconf_pagesize pr), g_pkey := key, kern := k\<rparr>"
  obtain st3 where "dl_iterate_phdr mp (objects pr) ?st2 = Inr st3" "g_pkey st3 = key" "0 < g_protected_segments st3"
    using dl_iterate_returns [where mp = mp and infos = "objects pr" and st = ?st2] ok a by (auto simp: selected_def)
  moreover obtain st4 where "x_pkey_set key PKEY_DISABLE_ACCESS st3 = (0, st4)"
    using x_pkey_set_returns [OF kr, of st3] by (metis prod.collapse)
  ultimately show "\<exists>st'. mpk_xom_init mp pr st = Inr st'"
    using key kr ps by (simp add: mpk_xom_init_def Let_def)
qed

text \<open>A kernel that keeps the keys of all addresses, and a process with one executable segment.\<close>

definition sample_mprotect :: "(u64 \<Rightarrow> int) mprotect" where
  "sample_mprotect start len prot key k = (0, \<lambda>a. if start \<le> a \<and> a < start + len then key else k a)"

definition sample_process :: "(u64 \<Rightarrow> int) process" where
  "sample_process = \<lparr>env_scope = None, env_verbose = None, sysconf_pagesize = 2 ^ 12, pkey_alloc = (\<lambda>k. (1, k)),
     objects = [\<lparr>dlpi_addr = 0x400000, dlpi_name = None,
       dlpi_phdr = [\<lparr>p_type = 1, p_flags = 5, p_vaddr = 0x1010, p_memsz = 0x2345\<rparr>]\<rparr>]\<rparr>"

definition sample_xom :: "(u64 \<Rightarrow> int) xom" where
  "sample_xom = \<lparr>g_page_size = 0, g_pkey = - 1, g_verbose = True, g_protect_all = False, g_protected_segments = 0,
     pkru = 0x55555554, kern = (\<lambda>_. 0)\<rparr>"

theorem xom_init_protects_witness:
  "\<exists>st'. mpk_xom_init sample_mprotect sample_process sample_xom = Inr st' \<and> \<not> data_access st' (\<lambda>k a. k a) 0x402222"
proof -
  let ?info = "\<lparr>dlpi_addr = 0x400000, dlpi_name = None, dlpi_phdr = [\<lparr>p_type = 1, p_flags = 5, p_vaddr = 0x1010, p_memsz = 0x2345\<rparr>]\<rparr>"
  let ?ph = "\<lparr>p_type = 1, p_flags = 5, p_vaddr = 0x1010, p_memsz = 0x2345\<rparr>"
  have law: "mprotect_law sample_mprotect (\<lambda>k a. k a) (2 ^ 12)" by (auto simp: mprotect_law_def sample_mprotect_def)
  have sel: "selected sample_process info \<longleftrightarrow> info = ?info" for info
    by (auto simp: selected_def sample_process_def is_main_def)
  have ex: "exec_segment ?ph" by (simp add: exec_segment_def PT_LOAD_def PF_X_def)
  have fits: "\<forall>info ph. selected sample_process info \<and> ph \<in> set (dlpi_phdr info) \<and> exec_segment ph \<longrightarrow> segment_fits (2 ^ 12) info ph"
    by (auto simp: sel segment_fits_def seg_lo_def)
  have cs: "calls_succeed sample_mprotect sample_process sample_xom"
    by (simp add: calls_succeed_def sample_mprotect_def sample_process_def)
  have ps: "sysconf_pagesize sample_process = 2 ^ 12" by (simp add: sample_process_def)
  note T = xom_init_protects [OF law _ ps fits, of sample_xom, simplified]
  have s: "selected sample_process ?info" by (simp add: sel)
  obtain st' where st': "mpk_xom_init sample_mprotect sample_process sample_xom = Inr st'"
    using T cs ex s by auto
  moreover have "\<not> data_access st' (\<lambda>k a. k a) 0x402222"
    using T [THEN conjunct1, rule_format, OF st', THEN conjunct1, rule_format, of ?info ?ph "0x402222"] ex s by (simp add: seg_lo_def)
  ultimately show ?thesis by blast
qed

end
