(* ===== verification/Nops.thy ===== *)
theory Nops
  imports Gas_State "HOL-Library.Signed_Division"
begin

text \<open>
  Padding of code with instructions that do nothing (\<open>src/gas/config/tc-i386.c\<close>): the tables of patterns,
  the choice of a table, and \<open>i386_generate_nops\<close>, which fills alignment frags and \<open>.nops\<close> directives.
  What is shown: a processor that enters the padding at its start leaves it at its end.
\<close>

unbundle bit_operations_syntax

section \<open>Data\<close>

datatype processor_type =
    PROCESSOR_UNKNOWN
  | PROCESSOR_GENERIC32
  | PROCESSOR_GENERIC64
  | PROCESSOR_I386
  | PROCESSOR_I486
  | PROCESSOR_PENTIUM
  | PROCESSOR_I686
  | PROCESSOR_PENTIUMPRO
  | PROCESSOR_PENTIUM4
  | PROCESSOR_NOCONA
  | PROCESSOR_CORE
  | PROCESSOR_CORE2
  | PROCESSOR_COREI7
  | PROCESSOR_IAMCU
  | PROCESSOR_K6
  | PROCESSOR_ATHLON
  | PROCESSOR_K8
  | PROCESSOR_AMDFAM10
  | PROCESSOR_BD
  | PROCESSOR_ZNVER
  | PROCESSOR_BT
  | PROCESSOR_NONE

datatype i386_flag_code = CODE_32BIT | CODE_16BIT | CODE_64BIT

text \<open>The fields of \<open>tc_frag_data\<close> that padding reads.\<close>

record i386_tc_frag_data =
  isa :: processor_type
  tune :: processor_type
  code :: i386_flag_code
  max_bytes :: u32
  cpunop :: bool
  isanop :: bool
  last_insn_normal :: bool

section \<open>Patterns\<close>

definition f32_1 :: "byte list" where "f32_1 = [0x90]"
definition f32_2 :: "byte list" where "f32_2 = [0x66, 0x90]"
definition f32_3 :: "byte list" where "f32_3 = [0x8d, 0x76, 0x00]"
definition f32_5 :: "byte list" where "f32_5 = [0x2e, 0x8d, 0x74, 0x26, 0x00]"
definition f32_4 :: "byte list" where "f32_4 = drop 1 f32_5"
definition f32_6 :: "byte list" where "f32_6 = [0x8d, 0xb6, 0x00, 0x00, 0x00, 0x00]"
definition f32_8 :: "byte list" where "f32_8 = [0x2e, 0x8d, 0xb4, 0x26, 0x00, 0x00, 0x00, 0x00]"
definition f32_7 :: "byte list" where "f32_7 = drop 1 f32_8"
definition f64_3 :: "byte list" where "f64_3 = [0x48, 0x89, 0xf6]"
definition f64_4 :: "byte list" where "f64_4 = [0x48, 0x8d, 0x76, 0x00]"
definition f64_6 :: "byte list" where "f64_6 = [0x2e, 0x48, 0x8d, 0x74, 0x26, 0x00]"
definition f64_5 :: "byte list" where "f64_5 = drop 1 f64_6"
definition f64_7 :: "byte list" where "f64_7 = [0x48, 0x8d, 0xb6, 0x00, 0x00, 0x00, 0x00]"
definition f64_9 :: "byte list" where "f64_9 = [0x2e, 0x48, 0x8d, 0xb4, 0x26, 0x00, 0x00, 0x00, 0x00]"
definition f64_8 :: "byte list" where "f64_8 = drop 1 f64_9"
definition f16_2 :: "byte list" where "f16_2 = drop 1 f64_3"
definition f16_3 :: "byte list" where "f16_3 = [0x8d, 0x74, 0x00]"
definition f16_5 :: "byte list" where "f16_5 = [0x2e, 0x8d, 0xb4, 0x00, 0x00]"
definition f16_4 :: "byte list" where "f16_4 = drop 1 f16_5"
definition alt_3 :: "byte list" where "alt_3 = [0x0f, 0x1f, 0x00]"
definition alt_4 :: "byte list" where "alt_4 = [0x0f, 0x1f, 0x40, 0x00]"
definition alt_6 :: "byte list" where "alt_6 = [0x66, 0x0f, 0x1f, 0x44, 0x00, 0x00]"
definition alt_5 :: "byte list" where "alt_5 = drop 1 alt_6"
definition alt_7 :: "byte list" where "alt_7 = [0x0f, 0x1f, 0x80, 0x00, 0x00, 0x00, 0x00]"
definition alt_9 :: "byte list" where "alt_9 = [0x66, 0x0f, 0x1f, 0x84, 0x00, 0x00, 0x00, 0x00, 0x00]"
definition alt_8 :: "byte list" where "alt_8 = drop 1 alt_9"
definition alt_11 :: "byte list" where
  "alt_11 = [0x66, 0x66, 0x2e, 0x0f, 0x1f, 0x84, 0x00, 0x00, 0x00, 0x00, 0x00]"
definition alt_10 :: "byte list" where "alt_10 = drop 1 alt_11"
definition alt64_15 :: "byte list" where
  "alt64_15 = [0x66, 0x66, 0x66, 0x66, 0x66, 0x2e, 0x48, 0x0f, 0x1f, 0x84, 0x00, 0x00, 0x00, 0x00, 0x00]"

datatype nop_table = f16_table | f32_table | f64_table | alt_table | alt64_table

definition f32_patt :: "byte list list" where
  "f32_patt = [f32_1, f32_2, f32_3, f32_4, f32_5, f32_6, f32_7, f32_8]"

definition f64_patt :: "byte list list" where
  "f64_patt = [f32_1, f32_2, f64_3, f64_4, f64_5, f64_6, f64_7, f64_8, f64_9]"

definition f16_patt :: "byte list list" where
  "f16_patt = [f32_1, f16_2, f16_3, f16_4, f16_5]"

definition alt_patt :: "byte list list" where
  "alt_patt = [f32_1, f32_2, alt_3, alt_4, alt_5, alt_6, alt_7, alt_8, alt_9, alt_10, alt_11]"

definition alt64_patt :: "byte list list" where
  "alt64_patt = [f32_1, f32_2, alt_3, alt_4, alt_5, alt_6, alt_7, alt_8, drop 6 alt64_15, drop 5 alt64_15,
     drop 4 alt64_15, drop 3 alt64_15, drop 2 alt64_15, drop 1 alt64_15, alt64_15]"

definition patt_of :: "nop_table \<Rightarrow> byte list list" where
  "patt_of t = (case t of f16_table \<Rightarrow> f16_patt | f32_table \<Rightarrow> f32_patt | f64_table \<Rightarrow> f64_patt
     | alt_table \<Rightarrow> alt_patt | alt64_table \<Rightarrow> alt64_patt)"

section \<open>Writing a run of nops\<close>

function nop_loop :: "int \<Rightarrow> int \<Rightarrow> int \<Rightarrow> byte list \<Rightarrow> byte list" where
  "nop_loop offset count sz nops =
     (if 0 < sz \<and> offset < count then nops @ nop_loop (offset + sz) count sz nops else [])"
  by pat_completeness auto
termination by (relation "measure (\<lambda>(offset, count, _, _). nat (count - offset))") auto

declare nop_loop.simps [simp del]

text \<open>The octets from \<open>where\<close> on.\<close>

definition i386_output_nops :: "byte list list \<Rightarrow> int \<Rightarrow> int \<Rightarrow> byte list result" where
  "i386_output_nops patt count max_single_nop_size =
     (if max_single_nop_size < 1 then Inl As_fatal
      else if \<not> nat (max_single_nop_size - 1) < length patt then Inl Bad_index
      else (let nops = patt ! nat (max_single_nop_size - 1);
                last = count smod max_single_nop_size;
                body = nop_loop 0 (count - last) max_single_nop_size nops in
            if last = 0 then Inr body
            else if last < 0 then Inl Bad_index
            else Inr (body @ patt ! nat (last - 1))))"

definition fits_in_imm7 :: "int \<Rightarrow> bool" where
  "fits_in_imm7 num \<longleftrightarrow> num AND 0x7f = num"

definition fits_in_imm31 :: "int \<Rightarrow> bool" where
  "fits_in_imm31 num \<longleftrightarrow> num AND 0x7fffffff = num"

section \<open>The choice of the patterns\<close>

definition tuned_table :: "i386_tc_frag_data \<Rightarrow> nop_table \<Rightarrow> nop_table result" where
  "tuned_table tc base =
     (if isa tc = PROCESSOR_UNKNOWN then
        (case tune tc of
           PROCESSOR_UNKNOWN \<Rightarrow> Inr (if isanop tc then alt_table else base)
         | PROCESSOR_NONE \<Rightarrow> Inl Abort
         | t \<Rightarrow>
            if t \<in> {PROCESSOR_CORE, PROCESSOR_CORE2, PROCESSOR_COREI7} then
              Inr (if cpunop tc then (if code tc = CODE_64BIT then alt64_table else alt_table) else base)
            else if t \<in> {PROCESSOR_I386, PROCESSOR_I486, PROCESSOR_PENTIUM, PROCESSOR_I686, PROCESSOR_IAMCU,
                         PROCESSOR_GENERIC32} then Inr base
            else Inr (if cpunop tc then alt_table else base))
      else
        (case tune tc of
           PROCESSOR_UNKNOWN \<Rightarrow> Inl Abort
         | PROCESSOR_NONE \<Rightarrow> Inl Abort
         | _ \<Rightarrow> Inr (if isanop tc then alt_table else base)))"

definition choose_table :: "i386_tc_frag_data \<Rightarrow> nop_table result" where
  "choose_table tc =
     (if code tc = CODE_16BIT then Inr f16_table
      else tuned_table tc (if code tc = CODE_64BIT then f64_table else f32_table))"

definition max_number_of_nops :: "nop_table \<Rightarrow> int" where
  "max_number_of_nops t = (if t = alt_table \<or> t = alt64_table then 7 else 2)"

definition max_single_nop_size :: "nop_table \<Rightarrow> int" where
  "max_single_nop_size t = int (length (patt_of t))"

section \<open>Padding\<close>

text \<open>The jump over the padding, with the number of octets it leaves to be filled.\<close>

definition jump_over :: "i386_flag_code \<Rightarrow> int \<Rightarrow> (byte list \<times> int) result" where
  "jump_over flag_code count =
     (let disp = count - 2 in
      if fits_in_imm7 disp then Inr ([0xeb, word_of_int disp], disp)
      else (let opc = (if flag_code = CODE_16BIT then [0x66, 0xe9] else [0xe9]);
                rest = count - (int (length opc) + 4) in
            if \<not> fits_in_imm31 rest then Inl As_bad
            else Inr (opc @ le_chars 4 (word_of_int rest), rest)))"

text \<open>\<open>i386_generate_nops\<close> without its tests of the kind of frag: the octets for a table of patterns.  The last
  call converts \<open>count\<close> to \<open>int\<close>.\<close>

definition nop_octets :: "i386_flag_code \<Rightarrow> nop_table \<Rightarrow> bool \<Rightarrow> int \<Rightarrow> int \<Rightarrow> byte list result" where
  "nop_octets flag_code t normal count0 limit =
     (let first = (if normal then [] else [0x90]); count = (if normal then count0 else count0 - 1) in
      bindE (if count sdiv max_single_nop_size t > max_number_of_nops t then jump_over flag_code count
             else Inr ([], count)) (\<lambda>(jmp, count1).
      bindE (i386_output_nops (patt_of t) (signed_take_bit 31 count1) limit) (\<lambda>body.
      Inr (first @ jmp @ body))))"

text \<open>The result is what is written to \<open>where\<close>, \<^term>\<open>None\<close> for the return of the first \<open>switch\<close>, and the new value of
  \<open>fr_var\<close>.  Frags of branch padding are not part of the model.\<close>

definition i386_generate_nops ::
  "i386_flag_code \<Rightarrow> i386_tc_frag_data \<Rightarrow> frag \<Rightarrow> int \<Rightarrow> int \<Rightarrow> (byte list option \<times> frag) result" where
  "i386_generate_nops flag_code tc f count limit0 =
     (if fr_type f \<notin> {rs_fill_nop, rs_align_code} then Inr (None, f)
      else bindE (choose_table tc) (\<lambda>t.
        let limit = (if limit0 = 0 then max_single_nop_size t else limit0) in
        if fr_type f = rs_fill_nop \<and> limit > max_single_nop_size t then Inl As_bad
        else bindE (nop_octets flag_code t (last_insn_normal tc) count limit) (\<lambda>bs.
          Inr (Some bs, if fr_type f = rs_fill_nop then f else f\<lparr>fr_var := word_of_int count\<rparr>))))"

section \<open>Running through the padding\<close>

text \<open>The instructions of the tables that a mode may use, and the octets through which a processor in that
  mode runs from the first to the end: instructions of the tables, and jumps forward.\<close>

definition nops_of :: "i386_flag_code \<Rightarrow> byte list set" where
  "nops_of c = (case c of CODE_16BIT \<Rightarrow> set f16_patt | CODE_32BIT \<Rightarrow> set f32_patt \<union> set alt_patt
     | CODE_64BIT \<Rightarrow> set f64_patt \<union> set alt_patt \<union> set alt64_patt)"

inductive passes :: "i386_flag_code \<Rightarrow> byte list \<Rightarrow> bool" where
  passes_end: "passes c []"
| passes_nop: "n \<in> nops_of c \<Longrightarrow> passes c bs \<Longrightarrow> passes c (n @ bs)"
| passes_jump8: "sint d = int (length skipped) \<Longrightarrow> passes c bs \<Longrightarrow> passes c ([0xeb, d] @ skipped @ bs)"
| passes_jump32: "length disp = 4 \<Longrightarrow> sint (get32 disp) = int (length skipped) \<Longrightarrow> passes c bs
    \<Longrightarrow> passes c ((if c = CODE_16BIT then [0x66, 0xe9] else [0xe9]) @ disp @ skipped @ bs)"

lemma passes_nops: "set ns \<subseteq> nops_of c \<Longrightarrow> passes c (concat ns)"
  by (induction ns) (auto intro: passes.intros)

lemmas pattern_defs = f32_1_def f32_2_def f32_3_def f32_4_def f32_5_def f32_6_def f32_7_def f32_8_def
  f64_3_def f64_4_def f64_5_def f64_6_def f64_7_def f64_8_def f64_9_def f16_2_def f16_3_def f16_4_def f16_5_def
  alt_3_def alt_4_def alt_5_def alt_6_def alt_7_def alt_8_def alt_9_def alt_10_def alt_11_def alt64_15_def

lemmas table_defs = f16_patt_def f32_patt_def f64_patt_def alt_patt_def alt64_patt_def

text \<open>The pattern at place \<open>n\<close> has \<open>n + 1\<close> octets.\<close>

lemma map_length_patt: "map length (patt_of t) = map Suc [0..<length (patt_of t)]"
  by (cases t) (simp_all add: patt_of_def table_defs pattern_defs upt_rec)

lemma length_patt: "n < length (patt_of t) \<Longrightarrow> length (patt_of t ! n) = n + 1"
  using arg_cong [OF map_length_patt, of "\<lambda>xs. xs ! n" t] by simp

lemma length_patt_pos: "0 < length (patt_of t)" "length (patt_of t) < 16"
  by (cases t; simp add: patt_of_def table_defs)+

lemma table_nops: "choose_table tc = Inr t \<Longrightarrow> set (patt_of t) \<subseteq> nops_of (code tc)"
  by (cases "code tc")
    (auto simp: choose_table_def tuned_table_def nops_of_def patt_of_def split: if_splits processor_type.splits)

lemma nop_loop_replicate:
  assumes "0 < sz"
  shows "nop_loop off (off + int k * sz) sz nops = concat (replicate k nops)"
proof (induction k arbitrary: off)
  case 0
  then show ?case by (simp add: nop_loop.simps)
next
  case (Suc k)
  have "off + int (Suc k) * sz = (off + sz) + int k * sz" by (simp add: algebra_simps)
  moreover have "off < off + int (Suc k) * sz" using assms by (simp add: mult_pos_pos)
  ultimately show ?case using Suc [of "off + sz"] assms by (subst nop_loop.simps) (simp add: algebra_simps)
qed

lemma output_nops_runs:
  assumes "0 \<le> count" "0 < limit" "limit \<le> max_single_nop_size t"
  shows "\<exists>ns. i386_output_nops (patt_of t) count limit = Inr (concat ns) \<and> set ns \<subseteq> set (patt_of t)
    \<and> int (length (concat ns)) = count"
proof -
  let ?q = "nat (count div limit)" and ?r = "count mod limit" and ?n = "patt_of t ! nat (limit - 1)"
  have m: "count smod limit = ?r" using assms by (simp add: smod_int_alt_def sgn_if)
  have c: "count - ?r = 0 + int ?q * limit"
    using assms by (simp add: pos_imp_zdiv_nonneg_iff minus_mod_eq_div_mult)
  have r: "0 \<le> ?r" "?r < limit" using assms by simp_all
  have ix: "nat (limit - 1) < length (patt_of t)" using assms by (simp add: max_single_nop_size_def)
  have body: "nop_loop 0 (count - ?r) limit ?n = concat (replicate ?q ?n)"
    unfolding c by (rule nop_loop_replicate [OF assms(2)])
  have ln: "int (length ?n) = limit" using length_patt [OF ix] assms by simp
  have lb: "int (length (concat (replicate ?q ?n))) = count - ?r"
    using c ln by (simp add: length_concat sum_list_replicate)
  show ?thesis
  proof (cases "?r = 0")
    case True
    then show ?thesis
      using assms ix body lb m by (intro exI [of _ "replicate ?q ?n"]) (auto simp: i386_output_nops_def Let_def)
  next
    case False
    have ir: "nat (?r - 1) < length (patt_of t)" using r assms(2,3) unfolding max_single_nop_size_def by linarith
    have "int (length (patt_of t ! nat (?r - 1))) = ?r" using length_patt [OF ir] r False by simp
    then show ?thesis
      using assms ix ir body lb m r False
      by (intro exI [of _ "replicate ?q ?n @ [patt_of t ! nat (?r - 1)]"]) (auto simp: i386_output_nops_def Let_def)
  qed
qed

lemma fits_in_imm: "fits_in_imm7 x \<longleftrightarrow> 0 \<le> x \<and> x < 2 ^ 7" "fits_in_imm31 x \<longleftrightarrow> 0 \<le> x \<and> x < 2 ^ 31"
proof -
  have "x AND 0x7f = take_bit 7 x" "x AND 0x7fffffff = take_bit 31 x"
    by (simp_all add: take_bit_eq_mask mask_eq_exp_minus_1)
  then show "fits_in_imm7 x \<longleftrightarrow> 0 \<le> x \<and> x < 2 ^ 7" "fits_in_imm31 x \<longleftrightarrow> 0 \<le> x \<and> x < 2 ^ 31"
    by (simp_all add: fits_in_imm7_def fits_in_imm31_def take_bit_int_eq_self_iff)
qed

lemma sint_small: "0 \<le> x \<Longrightarrow> x < 2 ^ (LENGTH('a) - 1) \<Longrightarrow> sint (word_of_int x :: 'a::len word) = x"
  using signed_take_bit_int_eq_self [of "LENGTH('a) - 1" x] by (simp add: sint_sbintrunc')

lemma get32_le_chars: "get32 (le_chars 4 v @ bs) = ucast v"
proof -
  have "get32 (le_chars 4 v @ bs) = word_of_nat (unat v mod 256 ^ 4)"
    by (simp add: get32_def le_nat_le_chars del: le_chars_numeral)
  also have "\<dots> = (ucast v :: u32)" by (simp add: word_unat_eq_iff unsigned_ucast_eq unsigned_of_nat take_bit_eq_mod)
  finally show ?thesis .
qed

lemma get32_le_chars_int: "get32 (le_chars 4 (word_of_int x)) = word_of_int x"
  using get32_le_chars [of "word_of_int x" "[]"] by (simp add: unsigned_of_int word_of_int_eq_iff del: le_chars_numeral)

text \<open>The jump lands behind whatever fills the rest.\<close>

lemma jump_over_lands:
  assumes "7 \<le> count" "count < 2 ^ 31"
  shows "\<exists>jmp rest. jump_over c count = Inr (jmp, rest) \<and> 0 \<le> rest \<and> rest < 2 ^ 31 \<and> int (length jmp) + rest = count
    \<and> (\<forall>bs. int (length bs) = rest \<longrightarrow> passes c (jmp @ bs))"
proof (cases "count - 2 < 2 ^ 7")
  case True
  have "passes c ([0xeb, word_of_int (count - 2)] @ bs)" if "int (length bs) = count - 2" for bs
  proof -
    have "sint (word_of_int (count - 2) :: byte) = count - 2" by (rule sint_small) (use True assms in auto)
    then show ?thesis
      using passes_jump8 [of "word_of_int (count - 2)" bs, OF _ passes_end [of c]] that by simp
  qed
  then show ?thesis using True assms by (simp add: jump_over_def fits_in_imm Let_def)
next
  case False
  let ?opc = "if c = CODE_16BIT then [0x66, 0xe9] else [0xe9 :: byte]"
  let ?rest = "count - (int (length ?opc) + 4)"
  have r: "0 \<le> ?rest" "?rest < 2 ^ 31" using assms False by auto
  have "passes c ((?opc @ le_chars 4 (word_of_int ?rest)) @ bs)" if l: "int (length bs) = ?rest" for bs
  proof -
    have "get32 (le_chars 4 (word_of_int ?rest)) = word_of_int ?rest"
      by (rule get32_le_chars_int)
    moreover have "sint (word_of_int ?rest :: u32) = ?rest" by (rule sint_small) (use r in auto)
    ultimately have "sint (get32 (le_chars 4 (word_of_int ?rest))) = int (length bs)" by (simp only: l)
    from passes_jump32 [OF length_le_chars this passes_end] show ?thesis by (simp only: append_assoc append_Nil2)
  qed
  moreover have "jump_over c count = Inr (?opc @ le_chars 4 (word_of_int ?rest), ?rest)"
    using False r unfolding jump_over_def fits_in_imm Let_def by (simp only: simp_thms if_True if_False)
  moreover have "int (length (?opc @ le_chars 4 (word_of_int ?rest))) + ?rest = count" by (simp del: le_chars_numeral)
  ultimately show ?thesis using r by blast
qed

lemma nop_octets_pass:
  assumes "0 < count" "count < 2 ^ 31" "0 < limit" "limit \<le> max_single_nop_size t" "set (patt_of t) \<subseteq> nops_of c"
  shows "\<exists>bs. nop_octets c t normal count limit = Inr bs \<and> int (length bs) = count \<and> passes c bs"
proof -
  let ?n = "if normal then count else count - 1" and ?m = "max_single_nop_size t" and ?f = "if normal then [] else [0x90 :: byte]"
  have m: "0 < ?m" "?m < 16" using length_patt_pos [of t] by (simp_all add: max_single_nop_size_def)
  have n: "0 \<le> ?n" "?n < 2 ^ 31" using assms by auto
  have d: "?n sdiv ?m = ?n div ?m" using n m by (simp add: signed_divide_int_def sgn_if)
  have "[0x90] \<in> nops_of c" by (cases c) (simp_all add: nops_of_def table_defs f32_1_def)
  then have f: "passes c (?f @ bs)" if "passes c bs" for bs using passes_nop [of "[0x90]" c bs] that by simp
  have "\<exists>jmp rest. (if ?n sdiv ?m > max_number_of_nops t then jump_over c ?n else Inr ([], ?n)) = Inr (jmp, rest)
    \<and> 0 \<le> rest \<and> rest < 2 ^ 31 \<and> int (length jmp) + rest = ?n
    \<and> (\<forall>bs. int (length bs) = rest \<longrightarrow> passes c bs \<longrightarrow> passes c (jmp @ bs))"
  proof (cases "?n sdiv ?m > max_number_of_nops t")
    case True
    have "3 \<le> ?n div ?m" using True d by (simp add: max_number_of_nops_def split: if_splits)
    then have "3 * ?m \<le> ?n" using m(1) by (metis mult_right_mono div_mult_mod_eq pos_mod_sign add_increasing2 order.trans order_refl less_imp_le)
    moreover have "5 \<le> ?m" by (cases t) (simp_all add: max_single_nop_size_def patt_of_def table_defs)
    ultimately have "7 \<le> ?n" by linarith
    from jump_over_lands [OF this n(2), of c] show ?thesis unfolding if_P [OF True] by blast
  qed (use n in auto)
  then obtain jmp rest where j: "(if ?n sdiv ?m > max_number_of_nops t then jump_over c ?n else Inr ([], ?n)) = Inr (jmp, rest)"
    "0 \<le> rest" "rest < 2 ^ 31" "int (length jmp) + rest = ?n"
    "\<And>bs. int (length bs) = rest \<Longrightarrow> passes c bs \<Longrightarrow> passes c (jmp @ bs)" by blast
  have s: "signed_take_bit 31 rest = rest" using j(2,3) by (simp add: signed_take_bit_int_eq_self_iff)
  obtain ns where ns: "i386_output_nops (patt_of t) rest limit = Inr (concat ns)" "set ns \<subseteq> set (patt_of t)"
    "int (length (concat ns)) = rest" using output_nops_runs [OF j(2) assms(3,4)] by blast
  have "nop_octets c t normal count limit = Inr (?f @ jmp @ concat ns)"
    unfolding nop_octets_def Let_def j(1) by (simp add: s ns(1))
  moreover have "passes c (?f @ jmp @ concat ns)"
    by (intro f j(5) passes_nops) (use ns assms(5) in auto)
  moreover have "int (length (?f @ jmp @ concat ns)) = count" using ns(3) j(4) by (auto split: if_splits)
  ultimately show ?thesis by blast
qed

text \<open>Whatever is returned has the requested length.\<close>

lemma output_nops_length:
  assumes "i386_output_nops (patt_of t) count limit = Inr bs" "0 \<le> count"
  shows "int (length bs) = count"
proof -
  have "0 < limit" "limit \<le> max_single_nop_size t"
    using assms(1) by (auto simp: i386_output_nops_def max_single_nop_size_def split: if_splits)
  then show ?thesis using output_nops_runs [OF assms(2)] assms(1) by fastforce
qed

lemma jump_over_length:
  assumes "jump_over c count = Inr (jmp, rest)"
  shows "int (length jmp) + rest = count \<and> 0 \<le> rest \<and> rest < 2 ^ 31"
  using assms by (auto simp: jump_over_def fits_in_imm Let_def split: if_splits)

lemma nop_octets_length:
  assumes k: "nop_octets c t normal count limit = Inr bs" and "0 < count"
  shows "int (length bs) = count"
proof -
  let ?n = "if normal then count else count - 1" and ?m = "max_single_nop_size t"
  have m: "0 < ?m" "?m < 16" using length_patt_pos [of t] by (simp_all add: max_single_nop_size_def)
  obtain jmp rest body where j: "(if ?n sdiv ?m > max_number_of_nops t then jump_over c ?n else Inr ([], ?n)) = Inr (jmp, rest)"
    and b: "i386_output_nops (patt_of t) (signed_take_bit 31 rest) limit = Inr body"
    and bs: "bs = (if normal then [] else [0x90]) @ jmp @ body"
    using k unfolding nop_octets_def Let_def by auto
  have "int (length jmp) + rest = ?n \<and> 0 \<le> rest \<and> rest < 2 ^ 31"
  proof (cases "?n sdiv ?m > max_number_of_nops t")
    case True
    then show ?thesis using jump_over_length [of c ?n jmp rest] j by simp
  next
    case False
    have "?n sdiv ?m = ?n div ?m" using assms(2) m by (simp add: signed_divide_int_def sgn_if)
    then have "?n div ?m \<le> 7" using False by (simp add: max_number_of_nops_def split: if_splits)
    then have "?n div ?m * ?m \<le> 7 * ?m" using m(1) by (intro mult_right_mono) simp_all
    moreover have "?n = ?n div ?m * ?m + ?n mod ?m" "?n mod ?m < ?m" using m(1) by simp_all
    ultimately have "?n < 128" using m(2) by linarith
    then show ?thesis using j False assms(2) by (auto split: if_splits)
  qed
  moreover from this have "signed_take_bit 31 rest = rest" by (simp add: signed_take_bit_int_eq_self_iff)
  ultimately have "int (length body) = rest" "int (length jmp) + rest = ?n" using output_nops_length [OF b] by simp_all
  then show ?thesis using bs by auto
qed

lemma nop_octets_mode:
  "(flag_code = CODE_16BIT) = (c = CODE_16BIT) \<Longrightarrow> nop_octets flag_code t normal count limit = nop_octets c t normal count limit"
  by (simp add: nop_octets_def jump_over_def Let_def)

section \<open>Properties\<close>


definition sample_tc :: i386_tc_frag_data where
  "sample_tc = \<lparr>isa = PROCESSOR_UNKNOWN, tune = PROCESSOR_UNKNOWN, code = CODE_64BIT, max_bytes = 63, cpunop = True, isanop = True,
     last_insn_normal = True\<rparr>"


end
