(* ===== verification/Convert.thy ===== *)
theory Convert
  imports Relax_Segment Bbinfo Nops
begin

text \<open>
  From the finished layout to section contents (\<open>src/gas/write.c\<close>, \<open>src/gas/config/tc-i386.c\<close>): every frag is
  turned into fixed octets and a fill (\<open>cvt_frag_to_fill\<close>, \<open>md_convert_frag\<close>), the size of the section is set
  (\<open>size_seg\<close>), and the octets are written (\<open>write_contents\<close>).  Jumps that are resolved here are recorded with the
  fixups of the basic blocks.
\<close>

section \<open>Jumps\<close>

text \<open>By state: the number of octets behind the first opcode octet, how many of them belong to the opcode
  (as the code counts them), and the opcode.  The displacement follows the opcode.\<close>

record jump_layout =
  extension :: nat
  add_opcodes :: nat
  opcode :: "byte list"

definition BIG16 :: u32 where "BIG16 = BIG OR CODE16"

definition jump_form :: "u32 \<Rightarrow> byte \<Rightarrow> jump_layout result" where
  "jump_form sub op0 =
     (if sub AND BIG = 0 then Inr \<lparr>extension = 1, add_opcodes = 0, opcode = [op0]\<rparr>
      else if sub = ENCODE_RELAX_STATE UNCOND_JUMP BIG then Inr \<lparr>extension = 4, add_opcodes = 0, opcode = [0xe9]\<rparr>
      else if sub = ENCODE_RELAX_STATE UNCOND_JUMP BIG16 then Inr \<lparr>extension = 2, add_opcodes = 0, opcode = [0xe9]\<rparr>
      else if sub = ENCODE_RELAX_STATE COND_JUMP BIG \<or> sub = ENCODE_RELAX_STATE COND_JUMP86 BIG
      then Inr \<lparr>extension = 5, add_opcodes = 1, opcode = [0x0f, op0 + 0x10]\<rparr>
      else if sub = ENCODE_RELAX_STATE COND_JUMP BIG16
      then Inr \<lparr>extension = 3, add_opcodes = 1, opcode = [0x0f, op0 + 0x10]\<rparr>
      else if sub = ENCODE_RELAX_STATE COND_JUMP86 BIG16
      then Inr \<lparr>extension = 4, add_opcodes = 0, opcode = [op0 XOR 1, 3, 0xe9]\<rparr>
      else Inl As_fatal)"

text \<open>The displacement does not fit in 4 octets (a 64-bit object is assembled).\<close>

definition out_of_range :: "u32 \<Rightarrow> u64 \<Rightarrow> bool" where
  "out_of_range sub disp \<longleftrightarrow> DISP_SIZE_FROM_RELAX_STATE sub = 4 \<and> disp + push_bit 31 1 > push_bit 31 2 - 1"

text \<open>What the environment of the conversion holds: the mode at the end of the file, the data the target keeps with
  frags, and \<open>fiy_dsok\<close>.\<close>

record cvt_env =
  flag_code :: i386_flag_code
  tc_frag_data :: "fragP \<Rightarrow> i386_tc_frag_data"
  fiy_dsok :: bool

definition fr_literal :: "target \<Rightarrow> fragP \<Rightarrow> nat" where
  "fr_literal tg p = p + sizeof_struct_frag tg"

text \<open>\<open>md_convert_frag\<close>; the warning on promoted jumps and the frags of branch alignment are left out.\<close>

definition md_convert_frag ::
  "target \<Rightarrow> cvt_env \<Rightarrow> segT \<Rightarrow> fragP \<Rightarrow> sym_st \<times> bbinfo \<Rightarrow> (sym_st \<times> bbinfo) result option" where
  "md_convert_frag tg e sec p s0 = (case s0 of (st0, b) \<Rightarrow>
     bindOE (operand (fr_symbol (fr st0 p))) (\<lambda>s.
     bindOE (S_GET_VALUE st0 s) (\<lambda>(v, st).
     let f = fr st p; opc = fr_opcode tg (sg st) p;
         from_opcode_start = (v + fr_offset f) - (fr_address f + fr_fix f) in
     bindOE (Some (jump_form (fr_subtype f) (mem (sg st) opc))) (\<lambda>j.
     let disp = from_opcode_start - word_of_nat (extension j);
         octs = opcode j @ le_chars (DISP_SIZE_FROM_RELAX_STATE (fr_subtype f)) disp in
     if out_of_range (fr_subtype f) disp then Some (Inl As_bad)
     else bindOE (if fiy_dsok e
                  then record_jump sec p (ucast (fr_address f + fr_fix f + word_of_nat (add_opcodes j)))
                         (word_of_nat (extension j - add_opcodes j)) b
                  else Some (Inr b)) (\<lambda>b1.
       Some (Inr (st\<lparr>sg := upd_frag p (\<lambda>f. f\<lparr>fr_fix := fr_fix f + word_of_nat (extension j)\<rparr>) (poke_list opc octs (sg st))\<rparr>, b1)))))))"

section \<open>Fills\<close>

text \<open>\<open>fragP->fr_next->fr_address - fragP->fr_address - fragP->fr_fix\<close>.\<close>

definition gap :: "sym_st \<Rightarrow> fragP \<Rightarrow> u64 result" where
  "gap st p = deref (fr_next (fr st p)) (\<lambda>q. Inr (fr_address (fr st q) - fr_address (fr st p) - fr_fix (fr st p)))"

definition HANDLE_ALIGN :: "target \<Rightarrow> cvt_env \<Rightarrow> fragP \<Rightarrow> sym_st \<Rightarrow> sym_st result" where
  "HANDLE_ALIGN tg e p st =
     (if fr_type (fr st p) \<noteq> rs_align_code then Inr st
      else bindE (gap st p) (\<lambda>n.
        if sint n > 0 \<and> (ucast n :: u32) \<le> max_bytes (tc_frag_data e p)
        then bindE (i386_generate_nops (flag_code e) (tc_frag_data e p) (fr st p) (sint n) 0) (\<lambda>(bs, f).
          let g = (case bs of None \<Rightarrow> sg st | Some bs \<Rightarrow> poke_list (fr_literal tg p + unat (fr_fix f)) bs (sg st)) in
          Inr (st\<lparr>sg := upd_frag p (\<lambda>_. f) g\<rparr>))
        else Inr st))"

text \<open>Behind \<open>skip_align\<close>: the division is unsigned, and its result is read as a signed number.\<close>

definition cvt_gap :: "fragP \<Rightarrow> sym_st \<Rightarrow> sym_st result" where
  "cvt_gap p st =
     bindE (gap st p) (\<lambda>n.
     if fr_var (fr st p) = 0 then Inl Abort
     else if n div fr_var (fr st p) <s 0 then Inl As_bad
     else Inr (upd_fr p (\<lambda>f. f\<lparr>fr_offset := n div fr_var f,
                 fr_type := (if fr_type f = rs_space_nop then rs_fill_nop else rs_fill)\<rparr>) st))"

definition cvt_leb128 :: "target \<Rightarrow> fragP \<Rightarrow> sym_st \<Rightarrow> sym_st result option" where
  "cvt_leb128 tg p st0 =
     bindOE (operand (fr_symbol (fr st0 p))) (\<lambda>s.
     bindOE (S_GET_VALUE st0 s) (\<lambda>(v, st).
     if \<not> S_IS_DEFINED st s then Some (Inl As_bad)
     else (let f = fr st p; octs = output_leb128 v (fr_subtype f \<noteq> 0) in
       Some (Inr (st\<lparr>sg := upd_frag p (\<lambda>f. f\<lparr>fr_fix := fr_fix f + word_of_nat (length octs), fr_type := rs_fill, fr_var := 0,
                               fr_offset := 0, fr_symbol := None\<rparr>)
                             (poke_list (fr_literal tg p + unat (fr_fix f)) octs (sg st))\<rparr>)))))"

definition cvt_machine_dependent ::
  "target \<Rightarrow> cvt_env \<Rightarrow> segT \<Rightarrow> fragP \<Rightarrow> sym_st \<times> bbinfo \<Rightarrow> (sym_st \<times> bbinfo) result option" where
  "cvt_machine_dependent tg e sec p s0 =
     bindOE (md_convert_frag tg e sec p s0) (\<lambda>(st, b).
     let f = fr st p; fits = (case fr_next f of None \<Rightarrow> True | Some q \<Rightarrow> fr_address (fr st q) - fr_address f = fr_fix f) in
     Some (gas_assert fits (Inr (st\<lparr>sg := frag_wane p (sg st)\<rparr>, b))))"

definition cvt_frag_to_fill ::
  "target \<Rightarrow> cvt_env \<Rightarrow> segT \<Rightarrow> fragP \<Rightarrow> sym_st \<times> bbinfo \<Rightarrow> (sym_st \<times> bbinfo) result option" where
  "cvt_frag_to_fill tg e sec p s0 = (case s0 of (st, b) \<Rightarrow>
     case fr_type (fr st p) of
       rs_fill \<Rightarrow> Some (Inr s0)
     | rs_fill_nop \<Rightarrow> Some (Inr s0)
     | rs_space_nop \<Rightarrow> Some (bindE (cvt_gap p st) (\<lambda>st1. Inr (st1, b)))
     | rs_leb128 \<Rightarrow> bindOE (cvt_leb128 tg p st) (\<lambda>st1. Some (Inr (st1, b)))
     | rs_machine_dependent \<Rightarrow> cvt_machine_dependent tg e sec p s0
     | rs_cfa \<Rightarrow> Some (Inl Debug_frag)
     | rs_dwarf2dbg \<Rightarrow> Some (Inl Debug_frag)
     | rs_sframe \<Rightarrow> Some (Inl Debug_frag)
     | rs_dummy \<Rightarrow> Some (Inl As_fatal)
     | _ \<Rightarrow> Some (bindE (HANDLE_ALIGN tg e p st) (\<lambda>st1. bindE (cvt_gap p st1) (\<lambda>st2. Inr (st2, b)))))"

section \<open>A section\<close>

partial_function (option) cvt_frags ::
  "target \<Rightarrow> cvt_env \<Rightarrow> segT \<Rightarrow> fragP option \<Rightarrow> sym_st \<times> bbinfo \<Rightarrow> (sym_st \<times> bbinfo) result option" where
  "cvt_frags tg e sec fp s = (case fp of None \<Rightarrow> Some (Inr s)
     | Some p \<Rightarrow> bindOE (cvt_frag_to_fill tg e sec p s) (\<lambda>s1. cvt_frags tg e sec (fr_next (fr (fst s1) p)) s1))"

partial_function (option) last_elt :: "gas \<Rightarrow> fragP \<Rightarrow> fragP option" where
  "last_elt g p = (case fr_next (frags g p) of None \<Rightarrow> Some p | Some q \<Rightarrow> last_elt g q)"

text \<open>What BFD keeps of a section.\<close>

record bfd_section =
  sec_size :: u64
  has_contents :: bool

text \<open>\<open>size_seg\<close> for ELF, where \<open>md_section_align\<close> is the identity, so that nothing is padded.\<close>

definition size_seg ::
  "target \<Rightarrow> cvt_env \<Rightarrow> bool \<Rightarrow> segT \<Rightarrow> bfd_section \<times> sym_st \<times> bbinfo \<Rightarrow> (bfd_section \<times> sym_st \<times> bbinfo) result option" where
  "size_seg tg e bss sec s0 = (case s0 of (o_sec, st0, b0) \<Rightarrow>
     let st = st0\<lparr>sg := subseg_change sec 0 (sg st0)\<rparr> in
     bindOE (case seg_info (sg st) sec of
         None \<Rightarrow> Some (Inr (0, st, b0))
       | Some si \<Rightarrow> (case frchainP si of
           [] \<Rightarrow> Some (Inr (0, st, b0))
         | fc # _ \<Rightarrow> bindOE (cvt_frags tg e sec (frch_root fc) (st, b0)) (\<lambda>(st1, b1).
             bindOE (operand (frch_root fc)) (\<lambda>r.
             map_option (\<lambda>l. Inr (fr_address (fr st1 l) + fr_fix (fr st1 l), st1, b1)) (last_elt (sg st1) r)))))
       (\<lambda>(sz, st1, b1).
     if sz = 0 \<and> sec_size o_sec \<noteq> 0 \<and> has_contents o_sec then Some (Inr (o_sec, st1, b1))
     else Some (Inr (\<lparr>sec_size = sz, has_contents = has_contents o_sec \<or> sz > 0 \<and> \<not> bss\<rparr>, st1, b1))))"

section \<open>Writing\<close>

text \<open>The loop over the buffer of fill objects.\<close>

function fill_loop :: "nat \<Rightarrow> nat \<Rightarrow> byte list \<Rightarrow> byte list" where
  "fill_loop n_per_buf cnt lit =
     (if 0 < cnt \<and> 0 < n_per_buf
      then (let n = min n_per_buf cnt in concat (replicate n lit) @ fill_loop n (cnt - n) lit)
      else [])"
  by pat_completeness auto
termination by (relation "measure (\<lambda>(_, cnt, _). cnt)") (auto simp: min_def)

declare fill_loop.simps [simp del]

definition write_fill :: "nat \<Rightarrow> nat \<Rightarrow> byte list \<Rightarrow> byte list" where
  "write_fill fsize cnt lit =
     (if fsize = 0 \<or> cnt = 0 then []
      else if fsize > 256 then concat (replicate cnt lit)
      else fill_loop (if fsize = 1 then 256 else 256 div fsize) cnt lit)"

text \<open>One turn of the loop of \<open>write_contents\<close>: the octets it puts at the current offset.\<close>

definition write_frag :: "target \<Rightarrow> cvt_env \<Rightarrow> bool \<Rightarrow> fragP \<Rightarrow> gas \<Rightarrow> byte list result" where
  "write_frag tg e is_xom_section p g =
     (let f = frags g p; lit = fr_literal tg p; fixed = octets g lit (unat (fr_fix f));
          fill_literal = lit + unat (fr_fix f) in
      gas_assert (fr_type f = rs_fill \<or> fr_type f = rs_fill_nop \<or> is_xom_section)
      (gas_assert (0 \<le>s fr_offset f)
      (if fr_type f = rs_fill_nop then
         gas_assert (fr_var f = 1)
         (if fr_offset f = 0 then Inr fixed
          else bindE (i386_generate_nops (flag_code e) (tc_frag_data e p) f (sint (fr_offset f)) (sint (mem g fill_literal)))
                 (\<lambda>(bs, _). Inr (fixed @ (case bs of None \<Rightarrow> [] | Some bs \<Rightarrow> bs))))
       else Inr (fixed @ write_fill (unat (fr_var f)) (unat (fr_offset f)) (octets g fill_literal (unat (fr_var f)))))))"

partial_function (option) write_frags ::
  "target \<Rightarrow> cvt_env \<Rightarrow> bool \<Rightarrow> fragP option \<Rightarrow> byte list \<Rightarrow> gas \<Rightarrow> byte list result option" where
  "write_frags tg e is_xom_section fp out g = (case fp of None \<Rightarrow> Some (Inr out)
     | Some p \<Rightarrow> bindOE (Some (write_frag tg e is_xom_section p g)) (\<lambda>bs.
         write_frags tg e is_xom_section (fr_next (frags g p)) (out @ bs) g))"

definition write_contents :: "target \<Rightarrow> cvt_env \<Rightarrow> segT \<Rightarrow> bfd_section \<Rightarrow> gas \<Rightarrow> byte list option result option" where
  "write_contents tg e sec o_sec g =
     (let is_xom_section = sec_name sec \<in> {''.xom'', ''.xomtwo''} in
      case seg_info g sec of None \<Rightarrow> Some (Inr None)
      | Some si \<Rightarrow>
          if \<not> has_contents o_sec then Some (Inr None)
          else (case frchainP si of [] \<Rightarrow> Some (Inl Null_deref)
            | fc # _ \<Rightarrow> bindOE (write_frags tg e is_xom_section (frch_root fc) [] g) (\<lambda>bs. Some (Inr (Some bs)))))"

section \<open>Taking a value moves nothing\<close>

definition same_store :: "sym_st \<Rightarrow> sym_st \<Rightarrow> bool" where
  "same_store st st' \<longleftrightarrow> frags (sg st') = frags (sg st) \<and> seg_info (sg st') = seg_info (sg st) \<and> mem (sg st') = mem (sg st)"

lemma same_store_refl [simp]: "same_store st st"
  by (simp add: same_store_def)

lemma same_store_trans [trans]: "same_store a b \<Longrightarrow> same_store b c \<Longrightarrow> same_store a c"
  by (simp add: same_store_def)

lemma same_store_upd_sx [simp]: "same_store st (upd_sx s f st') = same_store st st'" "same_store (upd_sx s f st) st' = same_store st st'"
  by (simp_all add: same_store_def upd_sx_def)

lemma set_segment_store: "set_segment s seg st = Inr st' \<Longrightarrow> same_store st st'"
  by (cases "S_SET_SEGMENT seg (syms (sg st) s)") (auto simp: set_segment_def same_store_def upd_sym_def)

lemma S_SET_VALUE_store [simp]: "same_store st (S_SET_VALUE s v st)"
  by (simp add: S_SET_VALUE_def Let_def) (simp add: same_store_def upd_sym_def)

lemma finish_resolve_store:
  assumes "finish_resolve s oc st = Inr (v, st')"
  shows "same_store st st'"
proof -
  let ?st1 = "if set_value oc then upd_sx s (\<lambda>x. x\<lparr>resolving := False\<rparr>) st else st"
  let ?st2 = "if set_value oc \<and> finalize_syms ?st1 then S_SET_VALUE s (final_val oc) ?st1 else ?st1"
  obtain st3 where "set_segment s (final_seg oc) ?st2 = Inr st3" "same_store st3 st'"
    using assms unfolding finish_resolve_def Let_def
    by (cases "set_segment s (final_seg oc) ?st2") (auto split: if_splits)
  moreover have "same_store st ?st2"
    using S_SET_VALUE_store [of ?st1 s "final_val oc"] by (auto simp: same_store_def upd_sx_def)
  ultimately show ?thesis using set_segment_store same_store_trans by blast
qed

lemma convert_if_local_store: "convert_if_local s st = Inr st' \<Longrightarrow> same_store st st'"
  by (auto simp: convert_if_local_def local_symbol_convert_def gas_assert_def Let_def upd_sx_def same_store_def upd_sym_def split: if_splits)

lemma copy_symbol_attributes_store:
  assumes "copy_symbol_attributes d s st = Inr st'"
  shows "same_store st st'"
proof -
  obtain st1 st2 where 1: "convert_if_local d st = Inr st1" "convert_if_local s st1 = Inr st2" "same_store st2 st'"
    using assms unfolding copy_symbol_attributes_def Let_def
    by (cases "convert_if_local d st"; simp) (case_tac "convert_if_local s b"; auto)
  then show ?thesis using convert_if_local_store same_store_trans by blast
qed

lemma skip_weakref_store: "skip_weakref s a v st = Inr (t, st') \<Longrightarrow> same_store st st'"
  by (auto simp: skip_weakref_def gas_assert_def deref_def split: if_splits option.splits)

lemma do_symbol_store:
  assumes "do_symbol op s a left sl v seg st0 = Inr (oc, st')"
  shows "same_store st0 st'"
proof -
  obtain add st where 1: "skip_weakref s a v st0 = Inr (add, st)"
    using assms by (cases "skip_weakref s a v st0") (auto simp: do_symbol_def)
  note D = assms [unfolded do_symbol_def 1 bindE.simps prod.case]
  have "same_store st st'"
  proof (cases "mri_common (sx st s) \<or> finalize_syms st \<and> \<not> is_local st add \<and> resolving (sx st add)")
    case True
    then show ?thesis using D by (auto split: if_splits)
  next
    case False
    let ?c = "if finalize_syms st \<and> v = 0 then bindE (convert_if_local add st) (copy_symbol_attributes s add) else Inr st"
    obtain st1 where c: "?c = Inr st1" using D False by (cases ?c) (auto split: if_splits)
    then have "same_store st st1"
      by (cases "convert_if_local add st")
        (auto split: if_splits dest: convert_if_local_store copy_symbol_attributes_store intro: same_store_trans)
    moreover have "same_store st1 st'"
      using D False unfolding c by (auto simp: Let_def split: if_splits)
    ultimately show ?thesis by (rule same_store_trans)
  qed
  then show ?thesis using skip_weakref_store [OF 1] same_store_trans by blast
qed

lemma general_binary_store:
  assumes "general_binary op s a b l r v seg st = Inr (oc, st')"
  shows "same_store st st'"
proof -
  have "bindE m (\<lambda>w. Inr (k w, st)) = Inr (oc, st') \<Longrightarrow> st' = st" for m :: "u64 result" and k
    by (cases m) auto
  then have "st' = st" using assms unfolding general_binary_def Let_def by (auto split: if_splits)
  then show ?thesis by simp
qed

lemma after_binary_store: "after_binary op s a b l r v seg st = Inr (oc, st') \<Longrightarrow> same_store st st'"
  unfolding after_binary_def Let_def by (auto split: if_splits dest: do_symbol_store general_binary_store)

lemma after_unary_store: "after_unary op s a l v seg st = Inr (oc, st') \<Longrightarrow> same_store st st'"
  by (auto simp: after_unary_def split: if_splits)

lemma resolve_leaf_store: "resolve_leaf op s v seg st = Inr (oc, st') \<Longrightarrow> same_store st st'"
  by (auto simp: resolve_leaf_def split: operatorT.splits)

lemma bindOE_Inr: "bindOE m k = Some (Inr r) \<longleftrightarrow> (\<exists>x. m = Some (Inr x) \<and> k x = Some (Inr r))"
  by (auto simp: bindOE_def split: option.splits sum.splits)

definition store_kept :: "sym_st \<Rightarrow> (u64 \<times> sym_st) result \<Rightarrow> bool" where
  "store_kept st r \<longleftrightarrow> (\<forall>v st'. r = Inr (v, st') \<longrightarrow> same_store st st')"

lemma resolve_local_store: "store_kept st (Inr (resolve_local s st))"
  by (auto simp: store_kept_def resolve_local_def Let_def upd_sym_def same_store_def upd_sx_def split: if_splits)

lemma finish_store:
  assumes "bindOE m (\<lambda>(oc, st1). Some (finish_resolve s oc st1)) = Some r"
    and "\<And>oc st1. m = Some (Inr (oc, st1)) \<Longrightarrow> same_store st st1"
  shows "store_kept st r"
  using assms finish_resolve_store same_store_trans
  by (fastforce simp: store_kept_def bindOE_def split: option.splits sum.splits)

lemma resolve_store:
  assumes "resolve_symbol_value st s = Some r"
  shows "store_kept st r"
proof (rule resolve_symbol_value.raw_induct [where P = "\<lambda>st s. store_kept st", OF _ assms])
  fix R :: "sym_st \<Rightarrow> symP \<Rightarrow> (u64 \<times> sym_st) result option" and st s r
  assume IH0: "\<And>st s r. R st s = Some r \<Longrightarrow> store_kept st r"
  assume K: "(if is_local st s then Some (Inr (resolve_local s st))
      else if resolved (sx st s) then bindOE (resolved_value st 0 s) (\<lambda>v. Some (Inr (v, st)))
      else (let seg = seg_of st s in
        if resolving (sx st s) then
          (if finalize_syms st then Some (Inl As_bad)
           else Some (finish_resolve s \<lparr>set_value = False, final_val = 0, final_seg = seg, operands_resolved = True\<rparr> st))
        else (let st1 = upd_sx s (\<lambda>x. x\<lparr>resolving := True\<rparr>) st; e = x_value st s; op = X_op e; v = X_add_number e in
          bindOE
            (if symbol_op op then
               bindOE (operand (X_add_symbol e)) (\<lambda>a.
               bindOE (R st1 a) (\<lambda>(left, st2).
               Some (do_symbol op s a left (seg_of st2 a) v seg
                 (if finalize_syms st2
                  then upd_sx s (\<lambda>x. x\<lparr>x_expr := Some ((x_value st2 s)\<lparr>X_op_symbol := None\<rparr>)\<rparr>) st2 else st2))))
             else if unary_op op then
               bindOE (operand (X_add_symbol e)) (\<lambda>a.
               bindOE (R st1 a) (\<lambda>(left, st2).
               Some (after_unary op s a left v seg st2)))
             else if binary_op op then
               bindOE (operand (X_add_symbol e)) (\<lambda>a.
               bindOE (R st1 a) (\<lambda>(left, st2).
               bindOE (operand (X_op_symbol e)) (\<lambda>b.
               bindOE (R st2 b) (\<lambda>(right, st3).
               Some (after_binary op s a b left right v seg st3)))))
             else Some (resolve_leaf op s v seg st1))
            (\<lambda>(oc, st'). Some (finish_resolve s oc st'))))) = Some r"
  have IH: "same_store st st'" if "R st s = Some (Inr (v, st'))" for st s v st'
    using IH0 [OF that] by (simp add: store_kept_def)
  let ?st1 = "upd_sx s (\<lambda>x. x\<lparr>resolving := True\<rparr>) st"
  consider "is_local st s \<or> resolved (sx st s) \<or> resolving (sx st s)"
    | "\<not> is_local st s" "\<not> resolved (sx st s)" "\<not> resolving (sx st s)" by blast
  then show "store_kept st r"
  proof cases
    case 1
    then show ?thesis
      using K resolve_local_store [of st s] finish_resolve_store
      by (auto simp: Let_def bindOE_def store_kept_def split: if_splits option.splits sum.splits)
  next
    case 2
    note K2 = K [unfolded if_not_P [OF 2(1)] if_not_P [OF 2(2)] Let_def if_not_P [OF 2(3)]]
    show ?thesis
    proof (rule finish_store [OF K2], goal_cases)
      case (1 oc st')
      have U: "same_store ?st1 st2 \<Longrightarrow> same_store st st2" for st2 by simp
      from 1 show ?case
        by (auto simp: bindOE_Inr split: if_splits dest!: IH do_symbol_store after_unary_store after_binary_store resolve_leaf_store
            intro: same_store_trans)
    qed
  qed
qed

lemma value_store:
  assumes "S_GET_VALUE st s = Some r"
  shows "store_kept st r"
proof (rule S_GET_VALUE.raw_induct [where P = "\<lambda>st s. store_kept st", OF _ assms])
  fix R :: "sym_st \<Rightarrow> symP \<Rightarrow> (u64 \<times> sym_st) result option" and st s r
  assume IH: "\<And>st s r. R st s = Some r \<Longrightarrow> store_kept st r"
  assume K: "(if is_local st s then resolve_symbol_value st s
      else bindOE (if resolved (sx st s) then Some (Inr (0, st)) else resolve_symbol_value st s) (\<lambda>(v, st1).
        if \<not> resolved (sx st s) \<and> \<not> finalize_syms st1 then Some (Inr (v, st1))
        else (let e = x_value st1 s in
          if S_IS_WEAKREFR st1 s then bindOE (operand (X_add_symbol e)) (\<lambda>t. R st1 t)
          else if X_op e \<noteq> O_constant
                  \<and> (\<not> resolved (sx st1 s) \<or> X_op e \<noteq> O_symbol \<or> S_IS_DEFINED st1 s) then Some (Inl As_bad)
          else Some (Inr (X_add_number e, st1))))) = Some r"
  show "store_kept st r"
    unfolding store_kept_def
  proof (intro allI impI)
    fix v st' assume r: "r = Inr (v, st')"
    show "same_store st st'"
    proof (cases "is_local st s")
      case True
      then show ?thesis using resolve_store [of st s] K r by (auto simp: store_kept_def)
    next
      case False
      obtain v1 st1 where 1: "(if resolved (sx st s) then Some (Inr (0, st)) else resolve_symbol_value st s) = Some (Inr (v1, st1))"
        using K r False by (auto simp: bindOE_Inr split: if_splits)
      then have "same_store st st1" using resolve_store [of st s] by (auto simp: store_kept_def split: if_splits)
      moreover have "same_store st1 st'"
        using K r False IH unfolding if_not_P [OF False] 1
        by (auto simp: bindOE_Inr Let_def store_kept_def split: if_splits)
      ultimately show ?thesis by (rule same_store_trans)
    qed
  qed
qed

section \<open>Converting one frag\<close>

lemma value_frags: "S_GET_VALUE st s = Some (Inr (v, st')) \<Longrightarrow> fr st' q = fr st q"
  using value_store [of st s] by (auto simp: store_kept_def same_store_def fr_def)

lemma value_segs: "S_GET_VALUE st s = Some (Inr (v, st')) \<Longrightarrow> seg_info (sg st') = seg_info (sg st)"
  using value_store [of st s] by (auto simp: store_kept_def same_store_def)

text \<open>Only the parts of frag \<open>p\<close> change that say how it is filled.\<close>

definition fills_only :: "fragP \<Rightarrow> sym_st \<Rightarrow> sym_st \<Rightarrow> bool" where
  "fills_only p st st' \<longleftrightarrow> (\<forall>q. q \<noteq> p \<longrightarrow> fr st' q = fr st q) \<and> fr_address (fr st' p) = fr_address (fr st p)
     \<and> fr_next (fr st' p) = fr_next (fr st p) \<and> seg_info (sg st') = seg_info (sg st)"

lemma fills_only_refl [simp]: "fills_only p st st"
  by (simp add: fills_only_def)

lemma fills_only_trans [trans]: "fills_only p a b \<Longrightarrow> fills_only p b c \<Longrightarrow> fills_only p a c"
  by (simp add: fills_only_def)

lemma poke_list_seg_info [simp]: "seg_info (poke_list a bs g) = seg_info g"
  by (induction bs arbitrary: a g) (simp_all add: poke_def)

definition tiles :: "sym_st \<Rightarrow> fragP \<Rightarrow> bool" where
  "tiles st p \<longleftrightarrow> (\<forall>q. fr_next (fr st p) = Some q \<longrightarrow>
     fr_address (fr st q) = fr_address (fr st p) + (fr_fix (fr st p) + fr_offset (fr st p) * fr_var (fr st p)))"

definition is_fill :: "frag \<Rightarrow> bool" where
  "is_fill f \<longleftrightarrow> fr_type f = rs_fill \<or> fr_type f = rs_fill_nop"

text \<open>Padding is a multiple of its pattern.\<close>

definition whole_fill :: "sym_st \<Rightarrow> fragP \<Rightarrow> bool" where
  "whole_fill st p \<longleftrightarrow> fr_type (fr st p) \<noteq> rs_fill_nop
     \<and> (fr_type (fr st p) \<notin> {rs_fill, rs_machine_dependent, rs_leb128} \<longrightarrow> (\<forall>n. gap st p = Inr n \<longrightarrow> n mod fr_var (fr st p) = 0))"

lemma md_convert_fills:
  assumes "md_convert_frag tg e sec p (st, b) = Some (Inr (st', b'))"
  shows "fills_only p st st'"
  using assms unfolding md_convert_frag_def Let_def
  by (auto simp: bindOE_Inr fills_only_def fr_def upd_frag_def value_segs value_frags [unfolded fr_def] split: if_splits)

lemma cvt_machine_fills:
  assumes k: "cvt_machine_dependent tg e sec p (st, b) = Some (Inr (st', b'))" and nq: "fr_next (fr st p) \<noteq> Some p"
  shows "fills_only p st st' \<and> is_fill (fr st' p) \<and> tiles st' p"
proof -
  obtain st1 where 1: "md_convert_frag tg e sec p (st, b) = Some (Inr (st1, b'))"
    and fit: "case fr_next (fr st1 p) of None \<Rightarrow> True | Some q \<Rightarrow> fr_address (fr st1 q) - fr_address (fr st1 p) = fr_fix (fr st1 p)"
    and st': "st' = st1\<lparr>sg := frag_wane p (sg st1)\<rparr>"
    using k by (auto simp: cvt_machine_dependent_def bindOE_Inr gas_assert_def Let_def split: if_splits)
  have F: "fr st' p = wane (fr st1 p)" "\<And>q. q \<noteq> p \<Longrightarrow> fr st' q = fr st1 q" "seg_info (sg st') = seg_info (sg st1)"
    by (simp_all add: st' fr_def frag_wane_def upd_frag_def)
  have f1: "fills_only p st st1" by (rule md_convert_fills [OF 1])
  have "fr_address (fr st' q) = fr_address (fr st' p) + fr_fix (fr st' p)" if q: "fr_next (fr st' p) = Some q" for q
  proof -
    have n: "fr_next (fr st1 p) = Some q" using q F(1) by (simp add: wane_def)
    then have "q \<noteq> p" using nq f1 by (auto simp: fills_only_def)
    then show ?thesis using fit n F by (simp add: wane_def algebra_simps)
  qed
  then show ?thesis using f1 F by (simp add: fills_only_def is_fill_def tiles_def wane_def)
qed

lemma cvt_gap_fills:
  assumes k: "cvt_gap p st = Inr st'" and nq: "fr_next (fr st p) \<noteq> Some p"
  shows "fills_only p st st' \<and> is_fill (fr st' p) \<and> ((\<forall>n. gap st p = Inr n \<longrightarrow> n mod fr_var (fr st p) = 0) \<longrightarrow> tiles st' p)"
proof -
  obtain q where q: "fr_next (fr st p) = Some q" using k by (cases "fr_next (fr st p)") (auto simp: cvt_gap_def gap_def deref_def)
  define n where "n = fr_address (fr st q) - fr_address (fr st p) - fr_fix (fr st p)"
  have g: "gap st p = Inr n" by (simp add: gap_def deref_def q n_def)
  have st': "st' = upd_fr p (\<lambda>f. f\<lparr>fr_offset := n div fr_var f,
       fr_type := (if fr_type f = rs_space_nop then rs_fill_nop else rs_fill)\<rparr>) st"
    using k g by (auto simp: cvt_gap_def split: if_splits)
  have "fr_address (fr st q) = fr_address (fr st p) + (fr_fix (fr st p) + n div fr_var (fr st p) * fr_var (fr st p))"
    if "n mod fr_var (fr st p) = 0"
  proof -
    have "n div fr_var (fr st p) * fr_var (fr st p) = n" using div_mult_mod_eq [of n "fr_var (fr st p)"] that by simp
    then show ?thesis by (simp add: n_def)
  qed
  then show ?thesis
    using q nq g by (auto simp: st' fills_only_def is_fill_def tiles_def fr_upd_fr)
qed

lemma generate_nops_frag:
  assumes "i386_generate_nops c tc f n limit = Inr (bs, f')" "fr_type f = rs_align_code"
  shows "f' = f\<lparr>fr_var := word_of_int n\<rparr>"
  using assms unfolding i386_generate_nops_def Let_def
  by (cases "choose_table tc"; simp split: if_splits) (auto split: if_splits)

lemma handle_align_fills:
  assumes k: "HANDLE_ALIGN tg e p st = Inr st1"
  shows "fills_only p st st1 \<and> gap st1 p = gap st p \<and> fr_type (fr st1 p) = fr_type (fr st p)
    \<and> (fr_var (fr st1 p) = fr_var (fr st p) \<or> gap st p = Inr (fr_var (fr st1 p)))"
proof (cases "st1 = st")
  case False
  then obtain n bs f where t: "fr_type (fr st p) = rs_align_code" and n: "gap st p = Inr n"
    and g: "i386_generate_nops (flag_code e) (tc_frag_data e p) (fr st p) (sint n) 0 = Inr (bs, f)"
    and st1: "st1 = st\<lparr>sg := upd_frag p (\<lambda>_. f)
      (case bs of None \<Rightarrow> sg st | Some bs \<Rightarrow> poke_list (fr_literal tg p + unat (fr_fix f)) bs (sg st))\<rparr>"
    using k unfolding HANDLE_ALIGN_def Let_def by (auto split: if_splits)
  have f: "f = (fr st p)\<lparr>fr_var := n\<rparr>" using generate_nops_frag [OF g t] by simp
  have F: "fr st1 p = f" "\<And>q. q \<noteq> p \<Longrightarrow> fr st1 q = fr st q" "seg_info (sg st1) = seg_info (sg st)"
    by (auto simp: st1 fr_def upd_frag_def split: option.split)
  have "gap st1 p = gap st p"
    using F f by (cases "fr_next (fr st p) = Some p") (auto simp: gap_def deref_def split: option.split)
  then show ?thesis using F f n by (simp add: fills_only_def)
qed simp

text \<open>The LEB128 number has the size it was given in the layout.\<close>

definition leb_kept :: "sym_st \<Rightarrow> sym_st \<Rightarrow> fragP \<Rightarrow> bool" where
  "leb_kept st st' p \<longleftrightarrow> fr_type (fr st p) = rs_leb128 \<longrightarrow> fr_fix (fr st' p) = fr_fix (fr st p) + fr_offset (fr st p)"

definition laid_size :: "sym_st \<Rightarrow> fragP \<Rightarrow> bool" where
  "laid_size st p \<longleftrightarrow> (\<forall>n. gap st p = Inr n \<longrightarrow> size_ok (fr st p) (fr_address (fr st p)) n)"

lemma cvt_leb128_fills:
  assumes k: "cvt_leb128 tg p st = Some (Inr st')" and t: "fr_type (fr st p) = rs_leb128" and nq: "fr_next (fr st p) \<noteq> Some p"
  shows "fills_only p st st' \<and> is_fill (fr st' p) \<and> (laid_size st p \<longrightarrow> leb_kept st st' p \<longrightarrow> tiles st' p)"
proof -
  obtain s v st1 where 1: "S_GET_VALUE st s = Some (Inr (v, st1))" and st': "st' =
      st1\<lparr>sg := upd_frag p (\<lambda>f. f\<lparr>fr_fix := fr_fix f + word_of_nat (length (output_leb128 v (fr_subtype (fr st1 p) \<noteq> 0))),
           fr_type := rs_fill, fr_var := 0, fr_offset := 0, fr_symbol := None\<rparr>)
         (poke_list (fr_literal tg p + unat (fr_fix (fr st1 p))) (output_leb128 v (fr_subtype (fr st1 p) \<noteq> 0)) (sg st1))\<rparr>"
    using k unfolding cvt_leb128_def Let_def by (auto simp: bindOE_Inr split: if_splits)
  have F: "fr st1 q = fr st q" for q using value_frags [OF 1] .
  have F': "\<And>q. q \<noteq> p \<Longrightarrow> fr st' q = fr st q" "fr_address (fr st' p) = fr_address (fr st p)" "fr_next (fr st' p) = fr_next (fr st p)"
    "fr_type (fr st' p) = rs_fill" "fr_var (fr st' p) = 0" "seg_info (sg st') = seg_info (sg st)"
    using F value_segs [OF 1] by (simp_all add: st' fr_def upd_frag_def)
  have "tiles st' p" if "laid_size st p" "leb_kept st st' p"
    unfolding tiles_def
  proof (intro allI impI)
    fix q assume "fr_next (fr st' p) = Some q"
    then have q: "fr_next (fr st p) = Some q" "q \<noteq> p" using F'(3) nq by auto
    then have "fr_address (fr st q) - fr_address (fr st p) - fr_fix (fr st p) = fr_offset (fr st p)"
      using that(1) t by (simp add: laid_size_def gap_def deref_def size_ok_def)
    then have "fr_address (fr st q) = fr_address (fr st p) + (fr_fix (fr st p) + fr_offset (fr st p))"
      by (simp add: algebra_simps)
    then show "fr_address (fr st' q) = fr_address (fr st' p) + (fr_fix (fr st' p) + fr_offset (fr st' p) * fr_var (fr st' p))"
      using that(2) t q(2) F' by (simp add: leb_kept_def)
  qed
  then show ?thesis using F' by (simp add: fills_only_def is_fill_def)
qed

lemma gap_add: "a - b - c = n \<Longrightarrow> a = b + (c + n)" for a b c n :: u64
  by (simp add: diff_diff_eq diff_eq_eq ac_simps)

lemma linked_tl: "linked F (x # xs) \<Longrightarrow> linked F xs"
  by (cases x; cases xs) auto

lemma cvt_one_fills:
  assumes k: "cvt_frag_to_fill tg e sec p (st, b) = Some (Inr (st', b'))" and nq: "fr_next (fr st p) \<noteq> Some p"
  shows "fills_only p st st' \<and> is_fill (fr st' p)
    \<and> (laid_size st p \<longrightarrow> whole_fill st p \<longrightarrow> leb_kept st st' p \<longrightarrow> tiles st' p)"
proof -
  have al: "fills_only p st st' \<and> is_fill (fr st' p) \<and> (whole_fill st p \<longrightarrow> tiles st' p)"
    if a: "HANDLE_ALIGN tg e p st = Inr st1" "cvt_gap p st1 = Inr st'"
      and t: "fr_type (fr st p) \<notin> {rs_fill, rs_machine_dependent, rs_leb128}" for st1
  proof -
    note H = handle_align_fills [OF a(1)]
    have nq1: "fr_next (fr st1 p) \<noteq> Some p" using H nq by (simp add: fills_only_def)
    note G = cvt_gap_fills [OF a(2) nq1]
    have "n mod fr_var (fr st1 p) = 0" if "whole_fill st p" "gap st1 p = Inr n" for n
    proof -
      have g: "gap st p = Inr n" using that(2) H by simp
      then have "n mod fr_var (fr st p) = 0" using that(1) t unfolding whole_fill_def by blast
      moreover have "fr_var (fr st1 p) = fr_var (fr st p) \<or> fr_var (fr st1 p) = n" using H g by auto
      ultimately show ?thesis by (elim disjE) simp_all
    qed
    then show ?thesis using G H fills_only_trans by blast
  qed
  have fill: "tiles st p" if t: "fr_type (fr st p) = rs_fill" "laid_size st p"
    unfolding tiles_def
  proof (intro allI impI)
    fix q assume "fr_next (fr st p) = Some q"
    then have "fr_address (fr st q) - fr_address (fr st p) - fr_fix (fr st p) = fr_offset (fr st p) * fr_var (fr st p)"
      using t by (simp add: laid_size_def gap_def deref_def size_ok_def)
    then show "fr_address (fr st q) = fr_address (fr st p) + (fr_fix (fr st p) + fr_offset (fr st p) * fr_var (fr st p))"
      by (rule gap_add)
  qed
  show ?thesis
  proof (cases "fr_type (fr st p)")
    case rs_fill
    then show ?thesis using k fill by (auto simp: cvt_frag_to_fill_def is_fill_def)
  next
    case rs_fill_nop
    then show ?thesis using k by (auto simp: cvt_frag_to_fill_def is_fill_def whole_fill_def)
  next
    case rs_machine_dependent
    then show ?thesis using k cvt_machine_fills [OF _ nq] by (simp add: cvt_frag_to_fill_def)
  next
    case rs_leb128
    then show ?thesis using k cvt_leb128_fills [OF _ rs_leb128 nq] by (auto simp: cvt_frag_to_fill_def bindOE_Inr)
  next
    case rs_space_nop
    then have "HANDLE_ALIGN tg e p st = Inr st" by (simp add: HANDLE_ALIGN_def)
    then show ?thesis using k rs_space_nop al [of st] by (auto simp: cvt_frag_to_fill_def)
  qed (use k al in \<open>auto simp: cvt_frag_to_fill_def\<close>)
qed

section \<open>Converting a chain\<close>

definition cvt_post :: "fragP list \<Rightarrow> sym_st \<Rightarrow> sym_st \<Rightarrow> bool" where
  "cvt_post vs st st' \<longleftrightarrow> (\<forall>q. q \<notin> set vs \<longrightarrow> fr st' q = fr st q) \<and> seg_info (sg st') = seg_info (sg st)
     \<and> (\<forall>p. fr_address (fr st' p) = fr_address (fr st p) \<and> fr_next (fr st' p) = fr_next (fr st p))
     \<and> (\<forall>p \<in> set vs. is_fill (fr st' p)
          \<and> (laid_size st p \<longrightarrow> whole_fill st p \<longrightarrow> leb_kept st st' p \<longrightarrow> tiles st' p))"

lemma fills_only_addresses:
  "fills_only p st st' \<Longrightarrow> fr_address (fr st' q) = fr_address (fr st q) \<and> fr_next (fr st' q) = fr_next (fr st q)"
  by (cases "q = p") (simp_all add: fills_only_def)

lemma gap_cong:
  assumes "fr st' p = fr st p" "\<And>q. fr_address (fr st' q) = fr_address (fr st q)"
  shows "gap st' p = gap st p"
  using assms by (simp add: gap_def)

lemma cvt_frags_post:
  assumes "chain (frag_next (sg st)) fp vs" "cvt_frags tg e sec fp (st, b) = Some (Inr (st', b'))"
  shows "cvt_post vs st st'"
  using assms
proof (induction vs arbitrary: fp st b)
  case Nil
  then show ?case by (subst (asm) cvt_frags.simps) (simp add: cvt_post_def)
next
  case (Cons p vs)
  have fp: "fp = Some p" and rest: "chain (frag_next (sg st)) (fr_next (fr st p)) vs"
    using Cons.prems(1) by (auto simp: frag_next_def [of _ p] fr_def)
  have d: "p \<notin> set vs" using chain_distinct [OF Cons.prems(1)] by simp
  have nq: "fr_next (fr st p) \<noteq> Some p" using rest d by (cases vs) auto
  obtain st1 b1 where 1: "cvt_frag_to_fill tg e sec p (st, b) = Some (Inr (st1, b1))"
    and 2: "cvt_frags tg e sec (fr_next (fr st1 p)) (st1, b1) = Some (Inr (st', b'))"
    using Cons.prems(2) unfolding fp by (subst (asm) cvt_frags.simps) (auto simp: bindOE_Inr)
  note F = cvt_one_fills [OF 1 nq]
  have A: "fr_address (fr st1 q) = fr_address (fr st q)" "fr_next (fr st1 q) = fr_next (fr st q)" for q
    using fills_only_addresses [of p st st1 q] F by simp_all
  then have nx: "frag_next (sg st1) = frag_next (sg st)" by (simp add: frag_next_def fr_def fun_eq_iff)
  have P: "cvt_post vs st1 st'" by (rule Cons.IH [OF _ 2]) (use rest in \<open>simp add: nx A\<close>)
  have O: "fr st1 q = fr st q" if "q \<noteq> p" for q using F that by (simp add: fills_only_def)
  have pf: "fr st' p = fr st1 p" using P d by (simp add: cvt_post_def)
  have "tiles st' p" if "tiles st1 p" using that pf P by (simp add: tiles_def cvt_post_def)
  moreover have "leb_kept st st1 p" if "leb_kept st st' p" using that pf by (simp add: leb_kept_def)
  ultimately have here: "is_fill (fr st' p) \<and> (laid_size st p \<longrightarrow> whole_fill st p \<longrightarrow> leb_kept st st' p \<longrightarrow> tiles st' p)"
    using F pf by auto
  have "is_fill (fr st' q) \<and> (laid_size st q \<longrightarrow> whole_fill st q \<longrightarrow> leb_kept st st' q \<longrightarrow> tiles st' q)"
    if q: "q \<in> set vs" for q
  proof -
    have f: "fr st1 q = fr st q" using O q d by metis
    have g: "gap st1 q = gap st q" by (rule gap_cong [OF f A(1)])
    have "laid_size st1 q = laid_size st q" "whole_fill st1 q = whole_fill st q" "leb_kept st1 st' q = leb_kept st st' q"
      by (simp_all add: laid_size_def whole_fill_def leb_kept_def f g)
    then show ?thesis using P q by (simp add: cvt_post_def)
  qed
  then show ?case
    using P F O A here unfolding cvt_post_def fills_only_def by auto
qed

lemma linked_laid_size:
  assumes "chain (frag_next (sg st)) root ids" "linked (fr st) (map (placed st) ids)" "p \<in> set ids"
  shows "laid_size st p"
  using assms
proof (induction ids arbitrary: root)
  case (Cons x xs)
  have ch: "chain (frag_next (sg st)) (fr_next (fr st x)) xs" using Cons.prems(1) by (auto simp: frag_next_def [of _ x] fr_def)
  have lk: "linked (fr st) (map (placed st) xs)" using Cons.prems(2) linked_tl by simp
  show ?case
  proof (cases "p = x")
    case True
    then show ?thesis using Cons.prems(2) ch by (cases xs) (auto simp: laid_size_def gap_def deref_def placed_def)
  next
    case False
    then show ?thesis using Cons.IH [OF ch lk] Cons.prems(3) by simp
  qed
qed simp

section \<open>The octets of a section\<close>

lemma fill_loop_replicate: "0 < n \<Longrightarrow> fill_loop n cnt lit = concat (replicate cnt lit)"
proof (induction n cnt lit rule: fill_loop.induct)
  case (1 n cnt lit)
  show ?case
  proof (cases "cnt = 0")
    case False
    let ?n = "min n cnt"
    have "replicate cnt lit = replicate ?n lit @ replicate (cnt - ?n) lit" by (simp flip: replicate_add)
    moreover have "fill_loop ?n (cnt - ?n) lit = concat (replicate (cnt - ?n) lit)" using 1 False by simp
    ultimately show ?thesis using False 1(2) by (subst fill_loop.simps) (simp add: Let_def del: replicate_add)
  qed (simp add: fill_loop.simps)
qed

lemma write_fill_replicate:
  assumes "length lit = fsize"
  shows "write_fill fsize cnt lit = concat (replicate cnt lit)"
proof -
  have "0 < 256 div fsize" if "fsize \<noteq> 0" "\<not> fsize > 256" using that by (simp add: div_greater_zero_iff)
  then show ?thesis using assms by (auto simp: write_fill_def fill_loop_replicate)
qed

lemma octets_length [simp]: "length (octets g a n) = n"
  by (simp add: octets_def)

lemma generate_nops_length:
  assumes "i386_generate_nops c tc f cnt limit = Inr (bs, f')" "fr_type f = rs_fill_nop" "0 < cnt"
  shows "\<exists>os. bs = Some os \<and> int (length os) = cnt"
  using assms nop_octets_length by (auto simp: i386_generate_nops_def Let_def split: if_splits)

lemma unat_fill:
  fixes w :: u64
  assumes "0 \<le>s w"
  shows "0 \<le> sint w" "sint w = int (unat w)"
proof -
  show 0: "0 \<le> sint w" using assms by (simp add: word_sle_eq)
  moreover have "sint w < 2 ^ 64" using sint_lt [of w] by simp
  ultimately have "take_bit 64 (sint w) = sint w" by (simp add: take_bit_int_eq_self_iff)
  then show "sint w = int (unat w)" using uint_sint [of w] by simp
qed

lemma write_frag_octets:
  assumes k: "write_frag tg e xom p g = Inr bs" and t: "is_fill (frags g p)"
  shows "word_of_nat (length bs) = fr_fix (frags g p) + fr_offset (frags g p) * fr_var (frags g p)
    \<and> take (unat (fr_fix (frags g p))) bs = octets g (fr_literal tg p) (unat (fr_fix (frags g p)))"
proof -
  let ?f = "frags g p" and ?fixed = "octets g (fr_literal tg p) (unat (fr_fix (frags g p)))"
  have "\<exists>rest. bs = ?fixed @ rest \<and> word_of_nat (length rest) = fr_offset ?f * fr_var ?f"
  proof (cases "fr_type ?f = rs_fill_nop")
    case True
    have o: "0 \<le>s fr_offset ?f" "fr_var ?f = 1" using k True by (auto simp: write_frag_def gas_assert_def Let_def split: if_splits)
    show ?thesis
    proof (cases "fr_offset ?f = 0")
      case False
      then have pos: "0 < sint (fr_offset ?f)" using unat_fill(2) [OF o(1)] unat_gt_0 [of "fr_offset ?f"] by linarith
      obtain r f' where r: "i386_generate_nops (flag_code e) (tc_frag_data e p) ?f (sint (fr_offset ?f))
          (sint (mem g (fr_literal tg p + unat (fr_fix ?f)))) = Inr (r, f')"
        and bs: "bs = ?fixed @ (case r of None \<Rightarrow> [] | Some os \<Rightarrow> os)"
        using k True o False by (auto simp: write_frag_def gas_assert_def Let_def split: if_splits)
      obtain os where os: "r = Some os" "int (length os) = sint (fr_offset ?f)"
        using generate_nops_length [OF r True pos] by blast
      then have "length os = unat (fr_offset ?f)" using unat_fill(2) [OF o(1)] by linarith
      then show ?thesis using bs o os(1) by simp
    qed (use k True o in \<open>simp add: write_frag_def gas_assert_def Let_def\<close>)
  next
    case False
    then have "bs = ?fixed @ write_fill (unat (fr_var ?f)) (unat (fr_offset ?f))
        (octets g (fr_literal tg p + unat (fr_fix ?f)) (unat (fr_var ?f)))"
      using k by (auto simp: write_frag_def gas_assert_def Let_def split: if_splits)
    then show ?thesis by (simp add: write_fill_replicate length_concat sum_list_replicate)
  qed
  then show ?thesis by auto
qed

lemma write_frags_pieces:
  assumes "chain (frag_next g) fp vs"
  shows "\<exists>r. write_frags tg e xom fp out g = Some r
    \<and> (\<forall>bs. r = Inr bs \<longrightarrow> (\<exists>pieces. bs = out @ concat pieces \<and> list_all2 (\<lambda>p os. write_frag tg e xom p g = Inr os) vs pieces))"
  using assms
proof (induction vs arbitrary: fp out)
  case Nil
  then show ?case by (subst write_frags.simps) simp
next
  case (Cons p vs)
  have fp: "fp = Some p" and rest: "chain (frag_next g) (fr_next (frags g p)) vs"
    using Cons.prems by (auto simp: frag_next_def [of _ p])
  show ?case
  proof (cases "write_frag tg e xom p g")
    case (Inl err)
    then show ?thesis unfolding fp by (subst write_frags.simps) (simp add: bindOE_def)
  next
    case (Inr os)
    obtain r where r: "write_frags tg e xom (fr_next (frags g p)) (out @ os) g = Some r"
      "\<And>bs. r = Inr bs \<Longrightarrow> \<exists>pieces. bs = (out @ os) @ concat pieces \<and> list_all2 (\<lambda>p os. write_frag tg e xom p g = Inr os) vs pieces"
      using Cons.IH [OF rest, of "out @ os"] by blast
    have "\<exists>pieces. bs = out @ concat pieces \<and> list_all2 (\<lambda>p os. write_frag tg e xom p g = Inr os) (p # vs) pieces"
      if rb: "r = Inr bs" for bs
    proof -
      obtain ps where "bs = (out @ os) @ concat ps" "list_all2 (\<lambda>p os. write_frag tg e xom p g = Inr os) vs ps"
        using r(2) [OF rb] by blast
      then show ?thesis using Inr by (intro exI [of _ "os # ps"]) simp
    qed
    then show ?thesis unfolding fp using r(1) Inr by (subst write_frags.simps) (simp add: bindOE_def)
  qed
qed

lemma last_elt_last: "chain (frag_next g) (Some p) (p # vs) \<Longrightarrow> last_elt g p = Some (last (p # vs))"
proof (induction vs arbitrary: p)
  case Nil
  then show ?case by (subst last_elt.simps) (simp add: frag_next_def)
next
  case (Cons q vs)
  then show ?case by (subst last_elt.simps) (simp add: frag_next_def [of _ p])
qed

text \<open>What is written for the frags stands at their addresses.\<close>

lemma pieces_at_addresses:
  assumes "chain (frag_next (sg st)) root ids" "\<forall>p \<in> set ids. tiles st p" "root = Some p0" "word_of_nat n = fr_address (fr st p0)"
    "list_all2 (\<lambda>p os. word_of_nat (length os) = fr_fix (fr st p) + fr_offset (fr st p) * fr_var (fr st p)) ids pieces"
    "i < length ids"
  shows "word_of_nat (n + length (concat (take i pieces))) = fr_address (fr st (ids ! i))"
  using assms
proof (induction ids arbitrary: root p0 n pieces i)
  case (Cons p ids)
  obtain os ps where ps: "pieces = os # ps" using Cons.prems(5) by (cases pieces) auto
  have p0: "p0 = p" and rest: "chain (frag_next (sg st)) (fr_next (fr st p)) ids"
    using Cons.prems(1,3) by (auto simp: frag_next_def [of _ p] fr_def)
  show ?case
  proof (cases i)
    case 0
    then show ?thesis using Cons.prems(4) p0 by simp
  next
    case (Suc j)
    then obtain q where q: "fr_next (fr st p) = Some q" using rest Cons.prems(6) by (cases ids) auto
    have "word_of_nat (n + length os) = fr_address (fr st q)"
      using Cons.prems(2,4,5) p0 q by (simp add: ps tiles_def)
    from Cons.IH [OF rest _ q this, of ps j] show ?thesis
      using Cons.prems(2,5,6) Suc ps by (simp add: add.assoc)
  qed
qed simp

text \<open>A section that is laid out, with its symbols about to be finalized.\<close>

definition ready_to_convert :: "sym_st \<Rightarrow> segT \<Rightarrow> fragP list \<Rightarrow> bool" where
  "ready_to_convert st sec ids \<longleftrightarrow> ids \<noteq> [] \<and> (\<forall>p \<in> set ids. whole_fill st p)
     \<and> (\<exists>good si fc fcs. seg_info (sg st) sec = Some si \<and> frchainP si = fc # fcs \<and> laid_out st good (frch_root fc) ids)"

lemma size_seg_post:
  assumes r: "ready_to_convert st sec ids"
    and k: "size_seg tg e bss sec (\<lparr>sec_size = 0, has_contents = hc\<rparr>, st\<lparr>finalize_syms := True\<rparr>, b) = Some (Inr (s', st', b'))"
  obtains si fc fcs where "seg_info (sg st') sec = Some si" "frchainP si = fc # fcs"
    "chain (frag_next (sg st')) (frch_root fc) ids" "frch_root fc = Some (hd ids)" "cvt_post ids st st'"
    "\<And>p. p \<in> set ids \<Longrightarrow> laid_size st p" "fr_address (fr st (hd ids)) = 0"
    "sec_size s' = fr_address (fr st' (last ids)) + fr_fix (fr st' (last ids))"
proof -
  obtain good si fc fcs where si: "seg_info (sg st) sec = Some si" "frchainP si = fc # fcs"
    and lo: "laid_out st good (frch_root fc) ids" and ne: "ids \<noteq> []" using r by (auto simp: ready_to_convert_def)
  let ?st = "st\<lparr>finalize_syms := True, sg := subseg_change sec 0 (sg st)\<rparr>"
  have F: "fr ?st q = fr st q" "seg_info (sg ?st) = seg_info (sg st)" for q
    using si by (simp_all add: fr_def subseg_change_def Let_def)
  have ch: "chain (frag_next (sg st)) (frch_root fc) ids" using lo by (simp add: laid_out_def)
  have nx0: "frag_next (sg ?st) = frag_next (sg st)" using F(1) by (simp add: frag_next_def fr_def fun_eq_iff)
  have rt: "frch_root fc = Some (hd ids)" using ch ne by (cases ids) auto
  obtain st1 b1 l where c: "cvt_frags tg e sec (frch_root fc) (?st, b) = Some (Inr (st1, b1))"
    and l: "last_elt (sg st1) (hd ids) = Some l" and st1: "st1 = st'"
    and sz: "sec_size s' = fr_address (fr st1 l) + fr_fix (fr st1 l)"
    using k si F(2) rt unfolding size_seg_def by (auto simp: bindOE_Inr operand_def deref_def Let_def split: if_splits)
  have P: "cvt_post ids ?st st'" using cvt_frags_post [OF _ c] ch st1 nx0 by simp
  have "laid_size ?st p = laid_size st p" "whole_fill ?st p = whole_fill st p" "leb_kept ?st st' p = leb_kept st st' p" for p
    using gap_cong [of ?st p st] F by (simp_all add: laid_size_def whole_fill_def leb_kept_def)
  then have P': "cvt_post ids st st'" using P F unfolding cvt_post_def by simp
  have nx: "frag_next (sg st') = frag_next (sg st)" using P' by (simp add: cvt_post_def frag_next_def fr_def fun_eq_iff)
  have "last_elt (sg st') (hd ids) = Some (last ids)"
    using last_elt_last [of "sg st'" "hd ids" "tl ids"] ch rt ne nx by simp
  then have "l = last ids" using l st1 by simp
  moreover have "linked (fr st) (map (placed st) ids)" "fr_address (fr st (hd ids)) = 0" using lo ne by (simp_all add: laid_out_def)
  ultimately show ?thesis
    using that [of si fc fcs] si P' ch nx rt linked_laid_size [OF ch] sz st1 by (simp add: cvt_post_def)
qed

section \<open>Where a converted jump leads\<close>

text \<open>A label: a local symbol, or a full one whose value is a number relative to its frag; \<open>a\<close> is its address.\<close>

definition label_at :: "sym_st \<Rightarrow> symP \<Rightarrow> u64 \<Rightarrow> bool" where
  "label_at st s a \<longleftrightarrow> has_value st s \<and> leaf_value st s = Some a
     \<and> (\<not> is_local st s \<longrightarrow> x_expr (sx st s) = None \<and> \<not> resolving (sx st s))"

lemma label_sem: "label_at st s a \<Longrightarrow> sem 1 st s = Some a"
  by (simp add: label_at_def sem_step_def Let_def)

lemma label_value:
  assumes "label_at st s a"
  shows "\<exists>st'. S_GET_VALUE (st\<lparr>finalize_syms := True\<rparr>) s = Some (Inr (a, st'))"
proof -
  let ?st = "st\<lparr>finalize_syms := True\<rparr>"
  have K: "is_local ?st s = is_local st s" "frag_address ?st s = frag_address st s" "x_value ?st s = x_value st s" "seg_of ?st s = seg_of st s"
    by (simp_all add: is_local_def frag_address_def x_value_def seg_of_def split: option.split)
  show ?thesis
  proof (cases "is_local st s")
    case True
    then show ?thesis
      using assms K
      by (subst S_GET_VALUE.simps, subst resolve_symbol_value.simps)
        (auto simp: resolve_local_def label_at_def has_value_def leaf_value_def Let_def)
  next
    case False
    let ?st1 = "upd_sx s (\<lambda>x. x\<lparr>resolving := True\<rparr>) ?st"
    have fl: "\<not> resolved (sx st s)" "\<not> resolving (sx st s)" "\<not> weakrefr (sx st s)" "\<not> section_sym (syms (sg st) s)" "x_expr (sx st s) = None"
      using assms False by (auto simp: label_at_def has_value_def)
    have xv: "x_value st s = constant_exp (sy_value (syms (sg st) s))" using fl(5) by (simp add: x_value_def)
    have a: "a = sy_value (syms (sg st) s) + frag_address st s"
      using assms False by (simp add: label_at_def leaf_value_def xv constant_exp_def)
    let ?oc = "\<lparr>set_value = True, final_val = a, final_seg = (if seg_of st s = expr_section then absolute_section else seg_of st s),
       operands_resolved = True\<rparr>"
    have lf: "resolve_leaf O_constant s (sy_value (syms (sg st) s)) (seg_of st s) ?st1 = Inr (?oc, ?st1)"
      using K(2) by (simp add: resolve_leaf_def a)
    have "\<exists>st3. finish_resolve s ?oc ?st1 = Inr (a, st3) \<and> x_value st3 s = constant_exp a \<and> \<not> S_IS_WEAKREFR st3 s"
      using False fl(3,4)
      by (simp add: finish_resolve_def S_SET_VALUE_def set_segment_def S_SET_SEGMENT_def is_local_def upd_sx_def upd_sym_def
          x_value_def S_IS_WEAKREFR_def Let_def)
    then obtain st3 where st3: "finish_resolve s ?oc ?st1 = Inr (a, st3)" "x_value st3 s = constant_exp a" "\<not> S_IS_WEAKREFR st3 s"
      by blast
    have "resolve_symbol_value ?st s = Some (Inr (a, st3))"
      using False fl K lf st3(1)
      by (subst resolve_symbol_value.simps)
        (simp add: xv Let_def bindOE_def symbol_op_def unary_op_def binary_op_def constant_exp_def)
    then show ?thesis
      using False fl K st3 by (subst S_GET_VALUE.simps) (simp add: bindOE_def Let_def constant_exp_def)
  qed
qed

text \<open>The value of a field of octets as a signed number.\<close>

definition signed_field :: "byte list \<Rightarrow> u64" where
  "signed_field bs = word_of_int (signed_take_bit (8 * length bs - 1) (int (le_nat bs)))"

lemma signed_field_le_chars:
  assumes "0 < n" "n \<le> 8" "- (2 ^ (8 * n - 1)) \<le> sint d" "sint d < 2 ^ (8 * n - 1)"
  shows "signed_field (le_chars n d) = d"
proof -
  have p: "(256 :: nat) ^ n = 2 ^ (8 * n)" by (simp add: power_mult)
  have "int (le_nat (le_chars n d)) = take_bit (8 * n) (uint d)"
    by (simp add: le_nat_le_chars take_bit_eq_mod p zmod_int)
  also have "\<dots> = take_bit (8 * n) (sint d)"
    using assms(2) by (simp add: uint_sint take_bit_take_bit min_def)
  finally have "signed_field (le_chars n d) = word_of_int (signed_take_bit (8 * n - 1) (take_bit (8 * n) (sint d)))"
    by (simp add: signed_field_def)
  also have "signed_take_bit (8 * n - 1) (take_bit (8 * n) (sint d)) = signed_take_bit (8 * n - 1) (sint d)"
    using assms(1) by (auto simp: signed_take_bit_take_bit)
  also have "\<dots> = sint d" using assms(3,4) by (simp add: signed_take_bit_int_eq_self_iff)
  finally show ?thesis by simp
qed

lemma field_low_octets:
  assumes "n \<le> 8"
  shows "word_of_nat (le_nat (le_chars n d)) = take_bit (8 * n) d"
proof -
  have "(256 :: nat) ^ n = 2 ^ (8 * n)" by (simp add: power_mult)
  then show ?thesis
    using assms by (auto simp: le_nat_le_chars word_unat_eq_iff unsigned_of_nat unsigned_take_bit_eq take_bit_eq_mod [symmetric]
        take_bit_take_bit min_def)
qed

lemma sint_in_range: "- (2 ^ 63) \<le> x \<Longrightarrow> x < 2 ^ 63 \<Longrightarrow> sint (word_of_int x :: u64) = x"
  by (simp add: sint_sbintrunc' signed_take_bit_int_eq_self)

lemma in_range_32:
  assumes "\<not> out_of_range sub d" "DISP_SIZE_FROM_RELAX_STATE sub = 4"
  shows "- (2 ^ 31) \<le> sint d \<and> sint d < 2 ^ 31"
proof -
  let ?x = "sint d + 2 ^ 31"
  have r: "- (2 ^ 63) \<le> sint d" "sint d < 2 ^ 63" using sint_ge [of d] sint_lt [of d] by simp_all
  have "d + 0x80000000 \<le> 0xffffffff" using assms by (simp add: out_of_range_def not_less)
  then have "uint (d + 0x80000000) \<le> 0xffffffff" by (simp add: word_le_def)
  moreover have "d + 0x80000000 = word_of_int ?x" by simp
  then have "uint (d + 0x80000000) = ?x mod 2 ^ 64"
    by (simp only: uint_word_of_int) (simp add: take_bit_eq_mod)
  ultimately have m: "?x mod 2 ^ 64 \<le> 0xffffffff" by simp
  have "0 \<le> ?x"
  proof (rule ccontr)
    assume "\<not> 0 \<le> ?x"
    then have "(?x + 2 ^ 64) mod 2 ^ 64 = ?x + 2 ^ 64" using r by (intro mod_pos_pos_trivial) simp_all
    then have "?x mod 2 ^ 64 = ?x + 2 ^ 64" by (simp only: mod_add_self2)
    then show False using m r by simp
  qed
  moreover have "?x mod 2 ^ 64 = ?x" using calculation r by (intro mod_pos_pos_trivial) simp_all
  ultimately show ?thesis using m by simp
qed

lemma in_range_8:
  assumes "reaches aim (short_state k)"
  shows "- (2 ^ 7) \<le> sint (aim - 1) \<and> sint (aim - 1) < 2 ^ 7"
proof -
  have r: "- 127 \<le> sint aim" "sint aim \<le> 128" using assms by (auto simp: reaches_def short_state_def split: if_splits)
  have "aim - 1 = word_of_int (sint aim - 1)" by simp
  also have "sint \<dots> = sint aim - 1" by (rule sint_in_range) (use r in simp_all)
  finally show ?thesis using r by simp
qed

lemma small_state:
  assumes "unat (sub :: u32) < 12"
  shows "sub \<in> {0, 1, 2, 3, 4, 5, 6, 7, 8, 9, 10, 11}"
proof -
  have "unat sub \<in> set [0, 1, 2, 3, 4, 5, 6, 7, 8, 9, 10, 11]" using assms by (simp only: all_states)
  then show ?thesis by (auto simp: word_unat_eq_iff)
qed

lemmas state_defs = ENCODE_RELAX_STATE_def UNCOND_JUMP_def COND_JUMP_def COND_JUMP86_def BIG_def CODE16_def BIG16_def

text \<open>The form of a jump has the length of its state; the displacement ends it.\<close>

lemma jump_form_table:
  assumes "unat sub < 12"
  shows "\<exists>j. jump_form sub op = Inr j \<and> extension j = rlx_length (md_relax_table ! unat sub)
    \<and> length (opcode j) + DISP_SIZE_FROM_RELAX_STATE sub = extension j + 1 \<and> extension j \<le> 5
    \<and> DISP_SIZE_FROM_RELAX_STATE sub \<in> {1, 2, 4}
    \<and> (DISP_SIZE_FROM_RELAX_STATE sub = 1 \<longrightarrow> extension j = 1 \<and> (\<exists>k. k \<noteq> 0 \<and> md_relax_table ! unat sub = short_state k))"
  using small_state [OF assms]
  by (elim insertE emptyE)
    (simp_all add: jump_form_def state_defs DISP_SIZE_FROM_RELAX_STATE_def md_relax_table_eq, simp_all add: long_state_def short_state_def)

lemma octets_poke_inside:
  assumes "a + length xs = b"
  shows "octets (poke_list a (xs @ ys) g) b (length ys) = ys"
  using assms by (intro nth_equalityI) (auto simp: octets_def mem_poke_list nth_append)

text \<open>The displacement in the last \<open>n\<close> octets of frag \<open>p\<close>, counted from its end, leads to \<open>target\<close>; 2 octets
  do so in 16-bit code, modulo 64 KiB.\<close>

definition lands :: "target \<Rightarrow> sym_st \<Rightarrow> fragP \<Rightarrow> nat \<Rightarrow> u64 \<Rightarrow> bool" where
  "lands tg st p n target \<longleftrightarrow>
     (let f = fr st p; here = fr_address f + fr_fix f; field = octets (sg st) (fr_literal tg p + unat (fr_fix f) - n) n in
      if n = 2 then take_bit 16 (here + word_of_nat (le_nat field)) = take_bit 16 target
      else here + signed_field field = target)"

definition jump_to :: "sym_st \<Rightarrow> fragP \<Rightarrow> fragP \<Rightarrow> u64 \<Rightarrow> bool" where
  "jump_to st p q a \<longleftrightarrow> fr_type (fr st p) = rs_machine_dependent \<and> (\<exists>s. fr_symbol (fr st p) = Some s \<and> label_at st s a)
     \<and> fr_next (fr st p) = Some q \<and> q \<noteq> p \<and> 0 < unat (fr_fix (fr st p)) \<and> unat (fr_fix (fr st p)) + 5 < 2 ^ 64
     \<and> \<not> out_of_range (fr_subtype (fr st p)) (a + fr_offset (fr st p) - fr_address (fr st q))"

lemma displacement_lands:
  assumes "n \<in> {1, 2, 4}" "n = 4 \<Longrightarrow> \<not> out_of_range sub d \<and> DISP_SIZE_FROM_RELAX_STATE sub = 4"
    "n = 1 \<Longrightarrow> reaches (d + 1) (short_state k)"
  shows "if n = 2 then take_bit 16 (here + word_of_nat (le_nat (le_chars n d))) = take_bit 16 (here + d)
    else here + signed_field (le_chars n d) = here + d"
proof -
  have "signed_field (le_chars n d) = d" if "n \<noteq> 2"
  proof (rule signed_field_le_chars)
    show "- (2 ^ (8 * n - 1)) \<le> sint d" "sint d < 2 ^ (8 * n - 1)"
      using assms that in_range_32 [of sub d] in_range_8 [of "d + 1" k] by auto
  qed (use assms in auto)
  moreover have "take_bit 16 (here + take_bit 16 d) = take_bit 16 (here + d)"
    using take_bit_add_word [of 16 here d] take_bit_add_word [of 16 here "take_bit 16 d"] by simp
  ultimately show ?thesis using field_low_octets [of n d] by auto
qed

lemma md_convert_lands:
  assumes j: "jump_to st p q a" and sz: "laid_size st p" and se: "settled st good p" and b: "fixups_inv b is"
  shows "\<exists>st' b'. md_convert_frag tg e sec p (st\<lparr>finalize_syms := True\<rparr>, b) = Some (Inr (st', b'))
    \<and> fr_address (fr st' q) - fr_address (fr st' p) = fr_fix (fr st' p) \<and> fr_next (fr st' p) = Some q
    \<and> lands tg st' p (DISP_SIZE_FROM_RELAX_STATE (fr_subtype (fr st p))) (a + fr_offset (fr st p))"
proof -
  let ?f = "fr st p" let ?sub = "fr_subtype ?f" let ?n = "DISP_SIZE_FROM_RELAX_STATE ?sub"
  obtain s where J: "fr_type ?f = rs_machine_dependent" "fr_symbol ?f = Some s" "label_at st s a" "fr_next ?f = Some q" "q \<noteq> p"
    "0 < unat (fr_fix ?f)" "unat (fr_fix ?f) + 5 < 2 ^ 64" "\<not> out_of_range ?sub (a + fr_offset ?f - fr_address (fr st q))"
    using j by (auto simp: jump_to_def)
  obtain st1 where v: "S_GET_VALUE (st\<lparr>finalize_syms := True\<rparr>) s = Some (Inr (a, st1))" using label_value [OF J(3)] by blast
  have F: "fr st1 r = fr st r" for r using value_frags [OF v] by (simp add: fr_def)
  have "settled_at st good p a" using se J(2) label_sem [OF J(3)] by (simp add: settled_def del: One_nat_def)
  then have sub: "unat ?sub < 12" and re: "rlx_more (md_relax_table ! unat ?sub) = 0
      \<or> reaches (fr_offset ?f + a - (fr_address ?f + fr_fix ?f)) (md_relax_table ! unat ?sub)"
    using J(1) by (auto simp: settled_at_def Let_def)
  let ?op = "fr_opcode tg (sg st1) p"
  obtain k where k: "jump_form ?sub (mem (sg st1) ?op) = Inr k" "extension k = rlx_length (md_relax_table ! unat ?sub)"
    "length (opcode k) + ?n = extension k + 1" "extension k \<le> 5" "?n \<in> {1, 2, 4}"
    "?n = 1 \<Longrightarrow> extension k = 1 \<and> (\<exists>i. i \<noteq> 0 \<and> md_relax_table ! unat ?sub = short_state i)"
    using jump_form_table [OF sub, of "mem (sg st1) ?op"] by blast
  let ?ext = "word_of_nat (extension k) :: u64"
  have "fr_address (fr st q) - fr_address ?f - fr_fix ?f = ?ext"
    using sz J(1,4) k(2) by (simp add: laid_size_def gap_def deref_def size_ok_def)
  then have q: "fr_address (fr st q) = fr_address ?f + (fr_fix ?f + ?ext)" by (rule gap_add)
  let ?d = "a + fr_offset ?f - (fr_address ?f + fr_fix ?f) - ?ext"
  have d: "?d = a + fr_offset ?f - fr_address (fr st q)" by (simp add: q algebra_simps)
  have op: "?op = fr_literal tg p + (unat (fr_fix ?f) - 1)" using F J(6) by (simp add: fr_opcode_def fr_def fr_literal_def)
  obtain b1 where b1: "(if fiy_dsok e then record_jump sec p (ucast (fr_address ?f + fr_fix ?f + word_of_nat (add_opcodes k)))
      (word_of_nat (extension k - add_opcodes k)) b else Some (Inr b)) = Some (Inr b1)"
    using record_jump_inv [OF b] by (cases "fiy_dsok e") fastforce+
  define st' where "st' = st1\<lparr>sg := upd_frag p (\<lambda>f. f\<lparr>fr_fix := fr_fix f + ?ext\<rparr>) (poke_list ?op (opcode k @ le_chars ?n ?d) (sg st1))\<rparr>"
  have "md_convert_frag tg e sec p (st\<lparr>finalize_syms := True\<rparr>, b) = Some (Inr (st', b1))"
  proof -
    have fs: "fr (st\<lparr>finalize_syms := True\<rparr>) p = ?f" by (simp add: fr_def)
    have "\<not> out_of_range ?sub ?d" unfolding d by (rule J(8))
    then show ?thesis
      using b1 unfolding md_convert_frag_def prod.case fs J(2) st'_def
      by (cases "fiy_dsok e") (simp_all add: v F k(1) operand_def deref_def bindOE_def Let_def)
  qed
  moreover have F': "fr st' p = ?f\<lparr>fr_fix := fr_fix ?f + ?ext\<rparr>" "fr st' q = fr st q"
    using F [of p] F [of q] J(5) by (simp_all add: st'_def fr_def upd_frag_def)
  moreover have "lands tg st' p ?n (a + fr_offset ?f)"
  proof -
    have u: "unat (fr_fix ?f + ?ext) = unat (fr_fix ?f) + extension k"
      using J(7) k(4) by (simp add: unat_word_ariths unsigned_of_nat take_bit_eq_mod)
    have "?op + length (opcode k) = fr_literal tg p + unat (fr_fix ?f + ?ext) - ?n" using op u k(3,5) J(6) by auto
    from octets_poke_inside [OF this, of "le_chars ?n ?d" "sg st1"]
    have fld: "octets (sg st') (fr_literal tg p + unat (fr_fix ?f + ?ext) - ?n) ?n = le_chars ?n ?d"
      by (simp add: st'_def octets_def upd_frag_def)
    have r: "?n = 4 \<Longrightarrow> \<not> out_of_range ?sub ?d \<and> ?n = 4" unfolding d using J(8) by simp
    obtain i where i: "?n = 1 \<Longrightarrow> reaches (?d + 1) (short_state i)"
      using k(6) re by (cases "?n = 1") (auto simp: short_state_def algebra_simps)
    have t: "(fr_address ?f + (fr_fix ?f + ?ext)) + ?d = a + fr_offset ?f" by (simp add: algebra_simps)
    have sel: "fr_fix (fr st' p) = fr_fix ?f + ?ext" "fr_address (fr st' p) = fr_address ?f" using F'(1) by simp_all
    show ?thesis
      using displacement_lands [OF k(5) r i, of "fr_address ?f + (fr_fix ?f + ?ext)"] unfolding t lands_def Let_def sel fld .
  qed
  ultimately show ?thesis using q J(4) by (simp add: algebra_simps)
qed

lemma cvt_jump_lands:
  assumes j: "jump_to st p q a" and sz: "laid_size st p" and se: "settled st good p" and b: "fixups_inv b is"
  shows "\<exists>st' b'. cvt_frag_to_fill tg e sec p (st\<lparr>finalize_syms := True\<rparr>, b) = Some (Inr (st', b')) \<and> is_fill (fr st' p)
    \<and> fr_address (fr st' p) + fr_fix (fr st' p) = fr_address (fr st' q)
    \<and> lands tg st' p (DISP_SIZE_FROM_RELAX_STATE (fr_subtype (fr st p))) (a + fr_offset (fr st p))"
proof -
  obtain st1 b1 where 1: "md_convert_frag tg e sec p (st\<lparr>finalize_syms := True\<rparr>, b) = Some (Inr (st1, b1))"
    and fit: "fr_address (fr st1 q) - fr_address (fr st1 p) = fr_fix (fr st1 p)" "fr_next (fr st1 p) = Some q"
    and l: "lands tg st1 p (DISP_SIZE_FROM_RELAX_STATE (fr_subtype (fr st p))) (a + fr_offset (fr st p))"
    using md_convert_lands [OF assms] by blast
  let ?st' = "st1\<lparr>sg := frag_wane p (sg st1)\<rparr>"
  have F: "fr ?st' p = wane (fr st1 p)" "fr ?st' q = fr st1 q" "octets (sg ?st') = octets (sg st1)"
    using j by (auto simp: fr_def frag_wane_def upd_frag_def octets_def jump_to_def fun_eq_iff)
  have t: "fr_type (fr (st\<lparr>finalize_syms := True\<rparr>) p) = rs_machine_dependent" using j by (simp add: jump_to_def fr_def)
  have "cvt_frag_to_fill tg e sec p (st\<lparr>finalize_syms := True\<rparr>, b) = Some (Inr (?st', b1))"
    using fit t by (simp add: cvt_frag_to_fill_def cvt_machine_dependent_def 1 bindOE_def gas_assert_def Let_def)
  moreover have "fr_address (fr st1 p) + fr_fix (fr st1 p) = fr_address (fr st1 q)" by (simp flip: fit(1))
  moreover have "lands tg ?st' p (DISP_SIZE_FROM_RELAX_STATE (fr_subtype (fr st p))) (a + fr_offset (fr st p))"
  proof -
    have "lands tg ?st' p n t = lands tg st1 p n t" for n t using F by (simp add: lands_def Let_def wane_def)
    then show ?thesis using l by simp
  qed
  ultimately show ?thesis
    using F by (intro exI [of _ ?st'] exI [of _ b1]) (simp add: is_fill_def wane_def)
qed

section \<open>An example\<close>

text \<open>A short jump over one octet, into the frag that follows it.\<close>

definition demo_cvt_frags :: "fragP \<Rightarrow> frag" where
  "demo_cvt_frags = (\<lambda>_. zero_frag)
     (100 := zero_frag\<lparr>fr_type := rs_machine_dependent, fr_fix := 1, fr_symbol := Some 0, fr_next := Some 200\<rparr>,
      200 := zero_frag\<lparr>fr_type := rs_fill, fr_address := 2, last_fr_address := 2, fr_fix := 2, fr_next := Some 300\<rparr>,
      300 := zero_frag\<lparr>fr_type := rs_fill, fr_address := 4, last_fr_address := 4\<rparr>)"

definition demo_cvt_segment :: segment_info where
  "demo_cvt_segment = \<lparr>frchainP = [\<lparr>frch_root = Some 100, frch_last = Some 300, frch_subseg = 0,
       frch_obstack = obstack_begin_worker (chunk_alloc sample_target) 0 4064 8, frch_frag_now = None, frch_fixes = []\<rparr>],
     seg_fixes = [], seg_align = 0\<rparr>"

definition demo_cvt :: sym_st where
  "demo_cvt = \<lparr>sg = boot_gas\<lparr>n_syms := 1, syms := (\<lambda>_. syms boot_gas 0)(0 := demo_label 200 1),
      frags := demo_cvt_frags, frags_chained := True, now_seg := text_section,
      seg_info := [text_section \<mapsto> demo_cvt_segment]\<rparr>,
    sx = (\<lambda>_. plain_symx), finalize_syms = False\<rparr>"

definition demo_env :: cvt_env where
  "demo_env = \<lparr>flag_code = CODE_64BIT, tc_frag_data = (\<lambda>_. sample_tc), fiy_dsok = False\<rparr>"

lemma demo_cvt_fr [simp]:
  "fr demo_cvt 100 = zero_frag\<lparr>fr_type := rs_machine_dependent, fr_fix := 1, fr_symbol := Some 0, fr_next := Some 200\<rparr>"
  "fr demo_cvt 200 = zero_frag\<lparr>fr_type := rs_fill, fr_address := 2, last_fr_address := 2, fr_fix := 2, fr_next := Some 300\<rparr>"
  "fr demo_cvt 300 = zero_frag\<lparr>fr_type := rs_fill, fr_address := 4, last_fr_address := 4\<rparr>"
  by (simp_all add: fr_def demo_cvt_def demo_cvt_frags_def)

lemma demo_cvt_label: "label_at demo_cvt 0 3"
  by (simp add: label_at_def has_value_def leaf_value_def is_local_def frag_address_def demo_cvt_def demo_label_def plain_symx_def
      demo_cvt_frags_def)

lemma demo_cvt_jump: "jump_to demo_cvt 100 200 3"
  using demo_cvt_label by (simp add: jump_to_def zero_frag_def out_of_range_def DISP_SIZE_FROM_RELAX_STATE_def BIG_def CODE16_def)

lemma demo_cvt_settled: "settled demo_cvt good 100"
proof -
  have "v = 3" if "sem n demo_cvt 0 = Some v" for n v
    using that demo_cvt_label by (cases n) (simp_all add: label_at_def sem_step_Some)
  moreover have "settled_at demo_cvt good 100 3"
    by (simp add: settled_at_def zero_frag_def md_relax_table_eq short_state_def reaches_def Let_def)
  ultimately show ?thesis by (auto simp: settled_def)
qed

lemma demo_cvt_laid_out: "laid_out demo_cvt good (Some 100) [100, 200, 300]"
proof -
  have "chain (frag_next (sg demo_cvt)) (Some 100) [100, 200, 300]"
    by (simp add: frag_next_def demo_cvt_def demo_cvt_frags_def zero_frag_def)
  moreover have "linked (fr demo_cvt) (map (placed demo_cvt) [100, 200, 300])"
    by (simp add: placed_def size_ok_def zero_frag_def md_relax_table_eq short_state_def is_align_def)
  moreover have "settled demo_cvt good 200" "settled demo_cvt good 300"
    by (simp_all add: settled_def settled_at_def zero_frag_def Let_def)
  ultimately show ?thesis using demo_cvt_settled by (simp add: laid_out_def zero_frag_def)
qed

lemma demo_cvt_ready: "ready_to_convert demo_cvt text_section [100, 200, 300]"
proof -
  have "seg_info (sg demo_cvt) text_section = Some demo_cvt_segment" by (simp add: demo_cvt_def)
  then show ?thesis
    using demo_cvt_laid_out by (simp add: ready_to_convert_def whole_fill_def zero_frag_def demo_cvt_segment_def)
qed

lemma demo_fixups: "fixups_inv demo_bbinfo []"
  by (simp add: fixups_inv_def demo_bbinfo_def)

lemma demo_cvt_frags:
  "\<exists>st' b'. cvt_frags sample_target demo_env text_section (Some 100) (demo_cvt\<lparr>finalize_syms := True\<rparr>, demo_bbinfo) = Some (Inr (st', b'))
     \<and> chain (frag_next (sg st')) (Some 100) [100, 200, 300]"
proof -
  let ?st = "demo_cvt\<lparr>finalize_syms := True\<rparr>"
  have "laid_size demo_cvt 100"
    by (rule linked_laid_size [of _ "Some 100" "[100, 200, 300]"]) (use demo_cvt_laid_out in \<open>auto simp: laid_out_def\<close>)
  then obtain st' b' where 1: "cvt_frag_to_fill sample_target demo_env text_section 100 (?st, demo_bbinfo) = Some (Inr (st', b'))"
    using cvt_jump_lands [OF demo_cvt_jump _ demo_cvt_settled demo_fixups] by blast
  have f: "fr ?st q = fr demo_cvt q" for q by (simp add: fr_def)
  have "fills_only 100 ?st st'" using cvt_one_fills [OF 1] by (simp add: f)
  then have F: "fr st' 200 = fr demo_cvt 200" "fr st' 300 = fr demo_cvt 300" "fr_next (fr st' 100) = Some 200"
    by (simp_all add: fills_only_def f)
  have "cvt_frags sample_target demo_env text_section (Some 100) (?st, demo_bbinfo) = Some (Inr (st', b'))"
    by (subst cvt_frags.simps, simp add: 1 bindOE_def F, subst cvt_frags.simps, simp add: cvt_frag_to_fill_def bindOE_def F zero_frag_def,
        subst cvt_frags.simps, simp add: cvt_frag_to_fill_def bindOE_def F zero_frag_def, subst cvt_frags.simps, simp)
  moreover have "chain (frag_next (sg st')) (Some 100) [100, 200, 300]"
    using F by (simp add: frag_next_def fr_def [symmetric] zero_frag_def)
  ultimately show ?thesis by blast
qed

lemma demo_size_seg:
  "\<exists>s' st' b'. size_seg sample_target demo_env False text_section (\<lparr>sec_size = 0, has_contents = False\<rparr>, demo_cvt\<lparr>finalize_syms := True\<rparr>, demo_bbinfo)
     = Some (Inr (s', st', b'))"
proof -
  let ?st = "demo_cvt\<lparr>finalize_syms := True\<rparr>"
  obtain st' b' where c: "cvt_frags sample_target demo_env text_section (Some 100) (?st, demo_bbinfo) = Some (Inr (st', b'))"
    and ch: "chain (frag_next (sg st')) (Some 100) [100, 200, 300]" using demo_cvt_frags by blast
  have s: "subseg_change text_section 0 (sg demo_cvt) = sg demo_cvt"
    by (simp add: subseg_change_def demo_cvt_def boot_gas_def)
  have i: "seg_info (sg demo_cvt) text_section = Some demo_cvt_segment" by (simp add: demo_cvt_def)
  have "?st\<lparr>sg := sg demo_cvt\<rparr> = ?st" by simp
  then show ?thesis
    using last_elt_last [OF ch] c by (simp add: size_seg_def s i demo_cvt_segment_def operand_def deref_def bindOE_def)
qed

section \<open>Properties\<close>

text \<open>The octets \<open>bs\<close> of a section: one piece for each frag, at its address, with its fixed octets first.\<close>

definition written :: "target \<Rightarrow> sym_st \<Rightarrow> fragP list \<Rightarrow> u64 \<Rightarrow> byte list \<Rightarrow> bool" where
  "written tg st ids sz bs \<longleftrightarrow> (\<exists>pieces. bs = concat pieces \<and> length pieces = length ids
     \<and> (\<forall>i < length ids. let f = fr st (ids ! i) in
          word_of_nat (length (concat (take i pieces))) = fr_address f
        \<and> take (unat (fr_fix f)) (pieces ! i) = octets (sg st) (fr_literal tg (ids ! i)) (unat (fr_fix f)))
     \<and> (let f = fr st (last ids) in word_of_nat (length bs) = sz + fr_offset f * fr_var f))"

text \<open>C10: When a segment has been laid out, the conversion of a jump to a label succeeds (its form has exactly
  the room the layout gave it, so that no assertion fails), and the displacement it writes, added to the
  address behind the jump, is the address of the label plus the offset of the operand - for one and four
  octets exactly, for the two octets of 16-bit code modulo 64 KiB.\<close>

theorem converted_jump_lands:
  assumes "laid_out st good root ids" "p \<in> set ids" "jump_to st p q a" "fixups_inv b is"
  shows "\<exists>st' b'. cvt_frag_to_fill tg e sec p (st\<lparr>finalize_syms := True\<rparr>, b) = Some (Inr (st', b')) \<and> is_fill (fr st' p)
    \<and> fr_address (fr st' p) + fr_fix (fr st' p) = fr_address (fr st' q)
    \<and> lands tg st' p (DISP_SIZE_FROM_RELAX_STATE (fr_subtype (fr st p))) (a + fr_offset (fr st p))"
  using assms cvt_jump_lands linked_laid_size by (auto simp: laid_out_def)

theorem converted_jump_lands_witness:
  "\<exists>st' b'. cvt_frag_to_fill sample_target demo_env text_section 100 (demo_cvt\<lparr>finalize_syms := True\<rparr>, demo_bbinfo) = Some (Inr (st', b'))
     \<and> lands sample_target st' 100 1 3"
  using converted_jump_lands [OF demo_cvt_laid_out _ demo_cvt_jump demo_fixups, of sample_target demo_env text_section]
  by (auto simp: zero_frag_def DISP_SIZE_FROM_RELAX_STATE_def BIG_def CODE16_def)



end
