(* ===== verification/Apply_Fix.thy ===== *)
theory Apply_Fix
  imports Convert
begin

text \<open>
  The last pass over the fixups (\<open>src/gas/write.c\<close> and \<open>src/gas/config/tc-i386.c\<close>): \<open>adjust_reloc_syms\<close>
  replaces local symbols by section symbols, \<open>fixup_segment\<close> computes the value of each fixup and
  \<open>md_apply_fix\<close> writes it or keeps it for a relocation, which \<open>tc_gen_reloc\<close> makes.  The lemmas: the passes keep
  the values of labels, section symbols stand for the starts of their sections, and reducing a label to one does not
  change the address a fixup refers to.
\<close>

section \<open>Data\<close>

text \<open>The fields of \<open>struct fix\<close> that are only used here.  \<open>fx_dot_frag\<close> is \<^term>\<open>None\<close> for
  \<open>zero_address_frag\<close>.\<close>

record fixup = fixS +
  fx_dot_frag :: "fragP option"
  fx_dot_value :: u64
  fx_addnumber :: u64
  fx_tcbit :: bool
  fx_tcbit2 :: bool
  fx_tcbit3 :: bool
  fx_no_overflow :: bool
  fx_signed :: bool

text \<open>Variables that do not change in these passes: the target's options, the symbol table by name, and
  what BFD says of sections, symbols and relocations.  \<open>elf_size\<close> is \<open>S_GET_SIZE\<close>; \<open>bfd_local\<close> is
  \<open>bfd_is_local_label\<close>.\<close>

record fix_env =
  object_64bit :: bool
  use_rela_relocations :: bool
  disallow_64bit_reloc :: bool
  linkrelax :: bool
  GOT_symbol :: "symP option"
  sy_hash :: "byte list \<Rightarrow> symP option"
  sec_merge :: "segT \<Rightarrow> bool"
  sec_tls :: "segT \<Rightarrow> bool"
  sec_link_once :: "segT \<Rightarrow> bool"
  sec_vma :: "segT \<Rightarrow> u64"
  bfd_section_size :: "segT \<Rightarrow> u64"
  elf_size :: "symP \<Rightarrow> u64"
  bsf_file :: "symP \<Rightarrow> bool"
  bsf_debugging :: "symP \<Rightarrow> bool"
  bfd_local :: "symP \<Rightarrow> bool"
  flag_strip_local_absolute :: bool
  flag_keep_locals :: bool
  flag_mri :: bool
  howto_known :: "reloc_code \<Rightarrow> bool"

text \<open>What the passes change beside the frags and symbols: the fixups and the section symbol
  (\<open>seginfo->sym\<close>) of each segment, \<open>abs_section_sym\<close>, and two flags of symbols.\<close>

record fix_st =
  fsym :: sym_st
  fix_root :: "segT \<Rightarrow> fixup list"
  seg_sym :: "segT \<Rightarrow> symP option"
  abs_section_sym :: "symP option"
  used_in_reloc :: "symP \<Rightarrow> bool"
  thread_local :: "symP \<Rightarrow> bool"

text \<open>The other relocations of the x86, numbered as in ELF, those of the i386 from 1000 on.\<close>

abbreviation "BFD_RELOC_X86_64_GOT32 \<equiv> Other_reloc 3"
abbreviation "BFD_RELOC_X86_64_GOTPCREL \<equiv> Other_reloc 9"
abbreviation "BFD_RELOC_X86_64_DTPOFF64 \<equiv> Other_reloc 17"
abbreviation "BFD_RELOC_X86_64_TPOFF64 \<equiv> Other_reloc 18"
abbreviation "BFD_RELOC_X86_64_TLSGD \<equiv> Other_reloc 19"
abbreviation "BFD_RELOC_X86_64_TLSLD \<equiv> Other_reloc 20"
abbreviation "BFD_RELOC_X86_64_DTPOFF32 \<equiv> Other_reloc 21"
abbreviation "BFD_RELOC_X86_64_GOTTPOFF \<equiv> Other_reloc 22"
abbreviation "BFD_RELOC_X86_64_TPOFF32 \<equiv> Other_reloc 23"
abbreviation "BFD_RELOC_X86_64_GOTOFF64 \<equiv> Other_reloc 25"
abbreviation "BFD_RELOC_X86_64_GOTPC32 \<equiv> Other_reloc 26"
abbreviation "BFD_RELOC_X86_64_GOT64 \<equiv> Other_reloc 27"
abbreviation "BFD_RELOC_X86_64_GOTPCREL64 \<equiv> Other_reloc 28"
abbreviation "BFD_RELOC_X86_64_GOTPC64 \<equiv> Other_reloc 29"
abbreviation "BFD_RELOC_X86_64_GOTPLT64 \<equiv> Other_reloc 30"
abbreviation "BFD_RELOC_X86_64_PLTOFF64 \<equiv> Other_reloc 31"
abbreviation "BFD_RELOC_SIZE32 \<equiv> Other_reloc 32"
abbreviation "BFD_RELOC_SIZE64 \<equiv> Other_reloc 33"
abbreviation "BFD_RELOC_X86_64_GOTPC32_TLSDESC \<equiv> Other_reloc 34"
abbreviation "BFD_RELOC_X86_64_TLSDESC_CALL \<equiv> Other_reloc 35"
abbreviation "BFD_RELOC_X86_64_GOTPCRELX \<equiv> Other_reloc 41"
abbreviation "BFD_RELOC_X86_64_REX_GOTPCRELX \<equiv> Other_reloc 42"
abbreviation "BFD_RELOC_X86_64_CODE_4_GOTPCRELX \<equiv> Other_reloc 43"
abbreviation "BFD_RELOC_X86_64_CODE_4_GOTTPOFF \<equiv> Other_reloc 44"
abbreviation "BFD_RELOC_X86_64_CODE_4_GOTPC32_TLSDESC \<equiv> Other_reloc 45"
abbreviation "BFD_RELOC_X86_64_CODE_6_GOTTPOFF \<equiv> Other_reloc 50"
abbreviation "BFD_RELOC_386_GOT32 \<equiv> Other_reloc 1003"
abbreviation "BFD_RELOC_386_PLT32 \<equiv> Other_reloc 1004"
abbreviation "BFD_RELOC_386_GOTOFF \<equiv> Other_reloc 1009"
abbreviation "BFD_RELOC_386_GOTPC \<equiv> Other_reloc 1010"
abbreviation "BFD_RELOC_386_TLS_IE \<equiv> Other_reloc 1015"
abbreviation "BFD_RELOC_386_TLS_GOTIE \<equiv> Other_reloc 1016"
abbreviation "BFD_RELOC_386_TLS_LE \<equiv> Other_reloc 1017"
abbreviation "BFD_RELOC_386_TLS_GD \<equiv> Other_reloc 1018"
abbreviation "BFD_RELOC_386_TLS_LDM \<equiv> Other_reloc 1019"
abbreviation "BFD_RELOC_386_TLS_LDO_32 \<equiv> Other_reloc 1032"
abbreviation "BFD_RELOC_386_TLS_IE_32 \<equiv> Other_reloc 1033"
abbreviation "BFD_RELOC_386_TLS_LE_32 \<equiv> Other_reloc 1034"
abbreviation "BFD_RELOC_386_TLS_GOTDESC \<equiv> Other_reloc 1039"
abbreviation "BFD_RELOC_386_TLS_DESC_CALL \<equiv> Other_reloc 1040"
abbreviation "BFD_RELOC_386_GOT32X \<equiv> Other_reloc 1043"

section \<open>Symbols\<close>

text \<open>The output is ELF, where global symbols are kept (\<open>EXTERN_FORCE_RELOC\<close>); segments are never common.\<close>

definition S_FORCE_RELOC :: "sym_st \<Rightarrow> symP \<Rightarrow> bool \<Rightarrow> bool" where
  "S_FORCE_RELOC st s strict \<longleftrightarrow>
     \<not> is_local st s \<and> (strict \<and> (bsf_weak (sx st s) \<or> bsf_global (sx st s)) \<or> bsf_ifunc (sx st s))
   \<or> seg_of st s = undefined_section"

definition symbol_section_p :: "sym_st \<Rightarrow> symP \<Rightarrow> bool" where
  "symbol_section_p st s \<longleftrightarrow> \<not> is_local st s \<and> section_sym (syms (sg st) s)"

definition symbol_mri_common_p :: "sym_st \<Rightarrow> symP \<Rightarrow> bool" where
  "symbol_mri_common_p st s \<longleftrightarrow> \<not> is_local st s \<and> mri_common (sx st s)"

definition symbol_equated_reloc_p :: "sym_st \<Rightarrow> symP \<Rightarrow> bool" where
  "symbol_equated_reloc_p st s \<longleftrightarrow> \<not> is_local st s \<and> X_op (x_value st s) = O_symbol
     \<and> (resolved (sx st s) \<and> X_op_symbol (x_value st s) \<noteq> None \<or> \<not> S_IS_DEFINED st s)"

text \<open>\<open>DOLLAR_LABEL_CHAR\<close> and \<open>FAKE_LABEL_CHAR\<close> are 1, \<open>LOCAL_LABEL_CHAR\<close> is 2; 63 is the question mark.\<close>

definition S_IS_LOCAL :: "fix_env \<Rightarrow> sym_st \<Rightarrow> symP \<Rightarrow> bool" where
  "S_IS_LOCAL e st s =
     (if is_local st s then True
      else if S_IS_EXTERNAL st s then False
      else if seg_of st s = reg_section then True
      else if flag_strip_local_absolute e \<and> \<not> (bsf_global (sx st s) \<or> bsf_file e s) \<and> seg_of st s = absolute_section
      then True
      else (let name = sy_name (syms (sg st) s) in
        \<not> bsf_debugging e s
        \<and> (1 \<in> set name \<or> 2 \<in> set name
           \<or> \<not> flag_keep_locals e \<and> (bfd_local e s \<or> flag_mri e \<and> take 2 name = [63, 63]))))"

definition symbol_mark_used_in_reloc :: "symP \<Rightarrow> fix_st \<Rightarrow> fix_st result" where
  "symbol_mark_used_in_reloc s X =
     bindE (convert_if_local s (fsym X)) (\<lambda>st.
     Inr (X\<lparr>fsym := st, used_in_reloc := (used_in_reloc X)(s := True)\<rparr>))"

definition S_SET_THREAD_LOCAL :: "fix_env \<Rightarrow> symP \<Rightarrow> fix_st \<Rightarrow> fix_st result" where
  "S_SET_THREAD_LOCAL e s X =
     bindE (convert_if_local s (fsym X)) (\<lambda>st.
     if bsf_function (sx st s) \<or> seg_of st s \<noteq> undefined_section \<and> \<not> sec_tls e (seg_of st s) then Inl As_bad
     else Inr (X\<lparr>fsym := st, thread_local := (thread_local X)(s := True)\<rparr>))"

section \<open>Section symbols\<close>

text \<open>\<open>S_CLEAR_EXTERNAL\<close>, then the symbol of the BFD section, which only the standard sections lack, in
  place of the symbol's own.\<close>

definition S_CLEAR_EXTERNAL :: "symP \<Rightarrow> sym_st \<Rightarrow> sym_st" where
  "S_CLEAR_EXTERNAL s st =
     (if is_local st s \<or> bsf_weak (sx st s) then st else upd_sx s (\<lambda>x. x\<lparr>bsf_global := False\<rparr>) st)"

definition symbol_set_bfdsym :: "segT \<Rightarrow> symP \<Rightarrow> sym_st \<Rightarrow> sym_st result" where
  "symbol_set_bfdsym sec s st =
     bindE (convert_if_local s st) (\<lambda>st1.
     if sec = absolute_section \<or> sec = undefined_section
     then Inr (st1\<lparr>sg := upd_sym s (\<lambda>y. y\<lparr>section_sym := True\<rparr>) (sg st1)\<rparr>)
     else if section_sym (syms (sg st1) s) then Inr st1
     else Inr (upd_sx s (\<lambda>x. x\<lparr>bsf_global := False, bsf_weak := False, bsf_function := False, bsf_object := False,
                               bsf_ifunc := False, hidden := False\<rparr>)
            (st1\<lparr>sg := upd_sym s (\<lambda>y. y\<lparr>section_sym := True, sy_seg := sec\<rparr>) (sg st1)\<rparr>)))"

definition section_name_bytes :: "segT \<Rightarrow> byte list" where
  "section_name_bytes sec = map of_char (sec_name sec)"

text \<open>The symbol table is not frozen yet, and section symbols are emitted.\<close>

definition new_or_found :: "fix_env \<Rightarrow> segT \<Rightarrow> sym_st \<Rightarrow> (symP \<times> sym_st) result" where
  "new_or_found e sec st =
     (let (s0, g) = symbol_new (section_name_bytes sec) sec None 0 (sg st);
          made = (s0, upd_sx s0 (\<lambda>_. plain_symx) (st\<lparr>sg := g\<rparr>)) in
      case sy_hash e (section_name_bytes sec) of
        None \<Rightarrow> Inr made
      | Some s \<Rightarrow>
          if seg_of st s \<noteq> sec \<and> seg_of st s \<noteq> undefined_section then Inr made
          else if seg_of st s = undefined_section
          then bindE (set_segment s sec st) (\<lambda>st1. Inr (s, st1\<lparr>sg := upd_sym s (\<lambda>y. y\<lparr>sy_frag := None\<rparr>) (sg st1)\<rparr>))
          else Inr (s, st))"

definition section_symbol :: "fix_env \<Rightarrow> segT \<Rightarrow> fix_st \<Rightarrow> (symP \<times> fix_st) result" where
  "section_symbol e sec X =
     (if seg_info (sg (fsym X)) sec = None then Inl Abort
      else (case seg_sym X sec of Some s \<Rightarrow> Inr (s, X)
      | None \<Rightarrow>
          bindE (new_or_found e sec (fsym X)) (\<lambda>(s, st).
          bindE (symbol_set_bfdsym sec s (S_CLEAR_EXTERNAL s st)) (\<lambda>st1.
          Inr (s, X\<lparr>fsym := st1, seg_sym := (seg_sym X)(sec \<mapsto> s)\<rparr>)))))"

section \<open>Reduction to section symbols\<close>

definition tc_i386_fix_adjustable :: "fix_env \<Rightarrow> sym_st \<Rightarrow> symP \<Rightarrow> fixup \<Rightarrow> bool" where
  "tc_i386_fix_adjustable e st s f =
     (if use_rela_relocations e \<and> sec_merge e (seg_of st s) \<and> fx_pcrel f then False
      else if GOT_symbol e \<noteq> None \<and> fx_subsy f = GOT_symbol e \<and> fx_r_type f = BFD_RELOC_32_PCREL then False
      else if fx_r_type f \<in> {BFD_RELOC_SIZE32, BFD_RELOC_SIZE64, BFD_RELOC_386_GOTOFF, BFD_RELOC_386_GOT32,
        BFD_RELOC_386_GOT32X, BFD_RELOC_386_TLS_GD, BFD_RELOC_386_TLS_LDM, BFD_RELOC_386_TLS_LDO_32,
        BFD_RELOC_386_TLS_IE_32, BFD_RELOC_386_TLS_IE, BFD_RELOC_386_TLS_GOTIE, BFD_RELOC_386_TLS_LE_32,
        BFD_RELOC_386_TLS_LE, BFD_RELOC_386_TLS_GOTDESC, BFD_RELOC_386_TLS_DESC_CALL, BFD_RELOC_X86_64_GOT32,
        BFD_RELOC_X86_64_GOTPCREL, BFD_RELOC_X86_64_GOTPCRELX, BFD_RELOC_X86_64_REX_GOTPCRELX,
        BFD_RELOC_X86_64_CODE_4_GOTPCRELX, BFD_RELOC_X86_64_TLSGD, BFD_RELOC_X86_64_TLSLD,
        BFD_RELOC_X86_64_DTPOFF32, BFD_RELOC_X86_64_DTPOFF64, BFD_RELOC_X86_64_GOTTPOFF,
        BFD_RELOC_X86_64_CODE_4_GOTTPOFF, BFD_RELOC_X86_64_CODE_6_GOTTPOFF, BFD_RELOC_X86_64_TPOFF32,
        BFD_RELOC_X86_64_TPOFF64, BFD_RELOC_X86_64_GOTOFF64, BFD_RELOC_X86_64_GOT64,
        BFD_RELOC_X86_64_GOTPC32_TLSDESC, BFD_RELOC_X86_64_CODE_4_GOTPC32_TLSDESC, BFD_RELOC_X86_64_TLSDESC_CALL,
        BFD_RELOC_VTABLE_INHERIT, BFD_RELOC_VTABLE_ENTRY} then False
      else if fx_r_type f = BFD_RELOC_386_PLT32 \<or> fx_r_type f = BFD_RELOC_X86_64_PLT32 then fx_pcrel f
      else True)"

text \<open>The symbols a symbol is equated to, with the sum of their offsets.\<close>

partial_function (option) follow_equated :: "sym_st \<Rightarrow> symP \<Rightarrow> u64 \<Rightarrow> (symP \<times> u64) result option" where
  "follow_equated st s off =
     (if symbol_equated_reloc_p st s \<or> S_IS_WEAKREFR st s then
        bindOE (operand (X_add_symbol (x_value st s))) (\<lambda>t.
        if t = s then Some (Inr (s, off)) else follow_equated st t (off + X_add_number (x_value st s)))
      else Some (Inr (s, off)))"

definition keeps_symbol :: "fix_env \<Rightarrow> sym_st \<Rightarrow> segT \<Rightarrow> symP \<Rightarrow> fixup \<Rightarrow> bool" where
  "keeps_symbol e st sec s f \<longleftrightarrow>
     (let symsec = seg_of st s in
      symsec = absolute_section \<or> symsec = reg_section
    \<or> symsec \<noteq> sec \<and> \<not> S_IS_LOCAL e st s
      \<and> (sec_link_once e symsec \<or> take 13 (sec_name symsec) = ''.gnu.linkonce'')
    \<or> sec_merge e symsec \<and> (fx_offset f \<noteq> 0 \<or> fx_subsy f \<noteq> None)
    \<or> sec_tls e symsec)"

definition reduce_symbol :: "fix_env \<Rightarrow> segT \<Rightarrow> symP \<Rightarrow> fixup \<Rightarrow> fix_st \<Rightarrow> (fixup \<times> fix_st) result option" where
  "reduce_symbol e sec s f X =
     (let st = fsym X in
      if symbol_mri_common_p st s then
        bindOE (S_GET_VALUE st s) (\<lambda>(v, st1).
        Some (Inr (f\<lparr>fx_offset := fx_offset f + v, fx_addsy := X_add_symbol (x_value st1 s)\<rparr>, X\<lparr>fsym := st1\<rparr>)))
      else if S_FORCE_RELOC st s True \<or> \<not> tc_i386_fix_adjustable e st s f then Some (Inr (f, X))
      else if symbol_section_p st s then
        bindOE (Some (symbol_mark_used_in_reloc s X)) (\<lambda>X1. Some (Inr (f, X1)))
      else if keeps_symbol e st sec s f then Some (Inr (f, X))
      else
        bindOE (S_GET_VALUE st s) (\<lambda>(v, st1).
        bindOE (Some (section_symbol e (seg_of st1 s) (X\<lparr>fsym := st1\<rparr>))) (\<lambda>(ss, X1).
        Some (Inr (f\<lparr>fx_offset := fx_offset f + v, fx_addsy := Some ss\<rparr>, X1)))))"

definition adjust_one :: "fix_env \<Rightarrow> segT \<Rightarrow> fixup \<Rightarrow> fix_st \<Rightarrow> (fixup \<times> fix_st) result option" where
  "adjust_one e sec f X =
     (if fx_done f then Some (Inr (f, X)) else (case fx_addsy f of None \<Rightarrow> Some (Inr (f, X))
      | Some s0 \<Rightarrow>
          bindOE (resolve_symbol_value (fsym X) s0) (\<lambda>(_, st0).
          bindOE (case fx_subsy f of None \<Rightarrow> Some (Inr (0, st0)) | Some t \<Rightarrow> resolve_symbol_value st0 t) (\<lambda>(_, st).
          bindOE (follow_equated st s0 (fx_offset f)) (\<lambda>(s, off).
          reduce_symbol e sec s (f\<lparr>fx_offset := off, fx_addsy := Some s\<rparr>) (X\<lparr>fsym := st\<rparr>))))))"

text \<open>One step after the other over the list of fixups.\<close>

fun over_fixes :: "(fixup \<Rightarrow> fix_st \<Rightarrow> (fixup \<times> fix_st) result option) \<Rightarrow> fixup list \<Rightarrow> fix_st \<Rightarrow> (fixup list \<times> fix_st) result option" where
  "over_fixes step [] X = Some (Inr ([], X))"
| "over_fixes step (f # fs) X =
     bindOE (step f X) (\<lambda>(f1, X1). bindOE (over_fixes step fs X1) (\<lambda>(fs1, X2). Some (Inr (f1 # fs1, X2))))"

definition set_fix_root :: "segT \<Rightarrow> fixup list \<times> fix_st \<Rightarrow> fix_st" where
  "set_fix_root sec r = (case r of (fs, X) \<Rightarrow> X\<lparr>fix_root := (fix_root X)(sec := fs)\<rparr>)"

definition adjust_reloc_syms :: "fix_env \<Rightarrow> segT \<Rightarrow> fix_st \<Rightarrow> fix_st result option" where
  "adjust_reloc_syms e sec X =
     (if seg_info (sg (fsym X)) sec = None then Some (Inr X)
      else bindOE (over_fixes (adjust_one e sec) (fix_root X sec) X) (\<lambda>r. Some (Inr (set_fix_root sec r))))"

section \<open>Whether a relocation is needed\<close>

definition generic_force_reloc :: "sym_st \<Rightarrow> fixup \<Rightarrow> bool" where
  "generic_force_reloc st f =
     (if fx_r_type f = BFD_RELOC_VTABLE_INHERIT \<or> fx_r_type f = BFD_RELOC_VTABLE_ENTRY then True
      else (case fx_addsy f of None \<Rightarrow> False | Some s \<Rightarrow> S_FORCE_RELOC st s (fx_subsy f = None)))"

definition TC_FORCE_RELOCATION_LOCAL :: "sym_st \<Rightarrow> fixup \<Rightarrow> bool" where
  "TC_FORCE_RELOCATION_LOCAL st f \<longleftrightarrow> \<not> fx_pcrel f \<or> generic_force_reloc st f
     \<or> fx_r_type f \<in> {BFD_RELOC_386_PLT32, BFD_RELOC_386_GOTPC, BFD_RELOC_X86_64_GOTPCREL, BFD_RELOC_X86_64_GOTPCRELX,
         BFD_RELOC_X86_64_REX_GOTPCRELX, BFD_RELOC_X86_64_CODE_4_GOTPCRELX}"

definition TC_FORCE_RELOCATION_ABS :: "sym_st \<Rightarrow> fixup \<Rightarrow> bool" where
  "TC_FORCE_RELOCATION_ABS st f \<longleftrightarrow> generic_force_reloc st f
     \<or> fx_r_type f \<in> {BFD_RELOC_386_GOT32, BFD_RELOC_386_GOT32X, BFD_RELOC_X86_64_GOTPCREL, BFD_RELOC_X86_64_GOTPCRELX,
         BFD_RELOC_X86_64_REX_GOTPCRELX, BFD_RELOC_X86_64_CODE_4_GOTPCRELX}"

definition SEG_NORMAL :: "segT \<Rightarrow> bool" where
  "SEG_NORMAL sec \<longleftrightarrow> sec \<notin> {absolute_section, undefined_section, reg_section, expr_section}"

definition md_pcrel_from :: "sym_st \<Rightarrow> fixup \<Rightarrow> u64" where
  "md_pcrel_from st f = ucast (fx_size f) + fx_where f + fr_address (fr st (fx_frag f))"

section \<open>The x86 part\<close>

definition i386_validate_fix :: "fix_env \<Rightarrow> sym_st \<Rightarrow> fixup \<Rightarrow> (bool \<times> fixup) result" where
  "i386_validate_fix e st f =
     (let addsy_is = (\<lambda>P. case fx_addsy f of None \<Rightarrow> False | Some s \<Rightarrow> P s) in
      if addsy_is (\<lambda>s. seg_of st s = reg_section) then Inl As_bad
      else if fx_r_type f = BFD_RELOC_SIZE32 \<or> fx_r_type f = BFD_RELOC_SIZE64
      then Inr (addsy_is (\<lambda>s. \<not> S_IS_DEFINED st s \<or> S_IS_EXTERNAL st s), f)
      else
        (let f1 = (if fx_r_type f = BFD_RELOC_X86_64_GOTTPOFF then
                     (if fx_tcbit f then f\<lparr>fx_r_type := BFD_RELOC_X86_64_CODE_4_GOTTPOFF\<rparr>
                      else if fx_tcbit2 f then f\<lparr>fx_r_type := BFD_RELOC_X86_64_CODE_6_GOTTPOFF\<rparr> else f)
                   else if fx_r_type f = BFD_RELOC_X86_64_GOTPC32_TLSDESC \<and> fx_tcbit f
                   then f\<lparr>fx_r_type := BFD_RELOC_X86_64_CODE_4_GOTPC32_TLSDESC\<rparr> else f) in
         if fx_subsy f1 \<noteq> None then
           (if fx_subsy f1 \<noteq> GOT_symbol e then Inr (True, f1)
            else if fx_r_type f1 = BFD_RELOC_32_PCREL then
              (if \<not> object_64bit e then Inl Abort
               else Inr (True, f1\<lparr>fx_subsy := None, fx_r_type :=
                 (if fx_tcbit f1 then BFD_RELOC_X86_64_GOTPCRELX
                  else if fx_tcbit2 f1 then BFD_RELOC_X86_64_REX_GOTPCRELX
                  else if fx_tcbit3 f1 then BFD_RELOC_X86_64_CODE_4_GOTPCRELX
                  else BFD_RELOC_X86_64_GOTPCREL)\<rparr>))
            else Inr (True, f1\<lparr>fx_subsy := None, fx_r_type :=
                 (if object_64bit e then BFD_RELOC_X86_64_GOTOFF64 else BFD_RELOC_386_GOTOFF)\<rparr>))
         else
           (let f2 = (if fx_pcrel f1 \<and> (fx_r_type f1 = BFD_RELOC_386_PLT32 \<or> fx_r_type f1 = BFD_RELOC_X86_64_PLT32)
                         \<and> addsy_is (symbol_section_p st)
                      then f1\<lparr>fx_r_type := BFD_RELOC_32_PCREL\<rparr> else f1)
            in Inr (True, if \<not> object_64bit e \<and> fx_r_type f2 = BFD_RELOC_386_GOT32 \<and> fx_tcbit2 f2
                          then f2\<lparr>fx_r_type := BFD_RELOC_386_GOT32X\<rparr> else f2))))"

definition fits_in_unsigned_long :: "u64 \<Rightarrow> bool" where
  "fits_in_unsigned_long num \<longleftrightarrow> num \<le> 0xffffffff"

definition fits_in_signed_long :: "u64 \<Rightarrow> bool" where
  "fits_in_signed_long num \<longleftrightarrow> num + 0x80000000 \<le> 0xffffffff"

definition extend_to_32bit_address :: "u64 \<Rightarrow> u64" where
  "extend_to_32bit_address num =
     (if fits_in_unsigned_long num then (num XOR 0x80000000) - 0x80000000
      else if \<not> fits_in_signed_long num then num AND 0xffffffff
      else num)"

definition pcrel_reloc :: "reloc_code \<Rightarrow> reloc_code" where
  "pcrel_reloc r = (case r of
     BFD_RELOC_64 \<Rightarrow> BFD_RELOC_64_PCREL
   | BFD_RELOC_32 \<Rightarrow> BFD_RELOC_32_PCREL
   | BFD_RELOC_X86_64_32S \<Rightarrow> BFD_RELOC_32_PCREL
   | BFD_RELOC_16 \<Rightarrow> BFD_RELOC_16_PCREL
   | BFD_RELOC_8 \<Rightarrow> BFD_RELOC_8_PCREL
   | _ \<Rightarrow> r)"

text \<open>Without addends in the relocations, what \<open>bfd_install_relocation\<close> subtracts is added first.\<close>

definition rel_hack :: "fix_env \<Rightarrow> segT option \<Rightarrow> sym_st \<Rightarrow> fixup \<Rightarrow> u64 \<Rightarrow> u64" where
  "rel_hack e seg st f value = (case fx_addsy f of None \<Rightarrow> value | Some s \<Rightarrow>
     if fx_r_type f \<in> {BFD_RELOC_32_PCREL, BFD_RELOC_64_PCREL, BFD_RELOC_16_PCREL, BFD_RELOC_8_PCREL}
        \<and> \<not> use_rela_relocations e then
       (let here = fx_where f + fr_address (fr st (fx_frag f)); v = value + here in
        if (Some (seg_of st s) = seg \<or> symbol_section_p st s \<and> seg_of st s \<noteq> absolute_section)
           \<and> \<not> generic_force_reloc st f then v + here else v)
     else value)"

text \<open>The end of \<open>md_apply_fix\<close>: the value is written, or kept for the relocation.\<close>

definition store_fix :: "target \<Rightarrow> fix_env \<Rightarrow> fixup \<Rightarrow> u64 \<Rightarrow> fix_st \<Rightarrow> (fixup \<times> u64 \<times> fix_st) result" where
  "store_fix tg e f value0 X =
     (let value = (if object_64bit e then value0 else extend_to_32bit_address value0);
          (f1, v) = (if fx_addsy f = None
              then (f\<lparr>fx_done := True, fx_signed := (fx_signed f \<or> fx_r_type f = BFD_RELOC_X86_64_32S)\<rparr>, value)
            else if use_rela_relocations e
              then (f\<lparr>fx_no_overflow := (fx_no_overflow f \<or> \<not> disallow_64bit_reloc e \<or> fx_r_type f = NO_RELOC),
                      fx_addnumber := value\<rparr>, 0)
            else (f, value)) in
      case number_to_chars_littleendian v (int (unat (fx_size f))) of None \<Rightarrow> Inl Abort
      | Some bs \<Rightarrow> Inr (f1, value,
          X\<lparr>fsym := (fsym X)\<lparr>sg := poke_list (fr_literal tg (fx_frag f) + unat (fx_where f)) bs (sg (fsym X))\<rparr>\<rparr>))"

definition md_apply_fix :: "target \<Rightarrow> fix_env \<Rightarrow> segT option \<Rightarrow> fixup \<Rightarrow> u64 \<Rightarrow> fix_st \<Rightarrow> (fixup \<times> u64 \<times> fix_st) result" where
  "md_apply_fix tg e seg f0 value0 X =
     (let f = (if fx_pcrel f0 then f0\<lparr>fx_r_type := pcrel_reloc (fx_r_type f0)\<rparr> else f0);
          value = rel_hack e seg (fsym X) f value0; r = fx_r_type f in
      case fx_addsy f of None \<Rightarrow> store_fix tg e f value X
      | Some s \<Rightarrow>
          if r = BFD_RELOC_386_PLT32 \<or> r = BFD_RELOC_X86_64_PLT32
          then store_fix tg e f (if fx_pcrel f then - 4 else value) X
          else if r \<in> {BFD_RELOC_386_TLS_GD, BFD_RELOC_386_TLS_LDM, BFD_RELOC_386_TLS_IE_32, BFD_RELOC_386_TLS_IE,
            BFD_RELOC_386_TLS_GOTIE, BFD_RELOC_386_TLS_GOTDESC, BFD_RELOC_X86_64_TLSGD, BFD_RELOC_X86_64_TLSLD,
            BFD_RELOC_X86_64_GOTTPOFF, BFD_RELOC_X86_64_CODE_4_GOTTPOFF, BFD_RELOC_X86_64_CODE_6_GOTTPOFF,
            BFD_RELOC_X86_64_GOTPC32_TLSDESC, BFD_RELOC_X86_64_CODE_4_GOTPC32_TLSDESC}
          then bindE (S_SET_THREAD_LOCAL e s X) (store_fix tg e f 0)
          else if r \<in> {BFD_RELOC_386_TLS_LE, BFD_RELOC_386_TLS_LDO_32, BFD_RELOC_386_TLS_LE_32,
            BFD_RELOC_X86_64_DTPOFF32, BFD_RELOC_X86_64_DTPOFF64, BFD_RELOC_X86_64_TPOFF32, BFD_RELOC_X86_64_TPOFF64}
          then bindE (S_SET_THREAD_LOCAL e s X) (store_fix tg e f value)
          else if r = BFD_RELOC_386_TLS_DESC_CALL \<or> r = BFD_RELOC_X86_64_TLSDESC_CALL
          then bindE (S_SET_THREAD_LOCAL e s X) (\<lambda>X1. Inr (f\<lparr>fx_done := False\<rparr>, value0, X1))
          else if r = BFD_RELOC_VTABLE_INHERIT \<or> r = BFD_RELOC_VTABLE_ENTRY
          then Inr (f\<lparr>fx_done := False\<rparr>, value0, X)
          else store_fix tg e f value X)"

section \<open>The value of a fixup\<close>

text \<open>The subtracted symbol: both symbols in one segment cancel out, an absolute one is a number, and one in
  the fixup's own segment makes the fixup relative to its place.  Anything else is an error.\<close>

definition take_sub :: "segT \<Rightarrow> segT \<Rightarrow> fixup \<Rightarrow> sym_st \<Rightarrow> (fixup \<times> u64 \<times> sym_st) result option" where
  "take_sub this_segment add_seg f st = (case fx_subsy f of None \<Rightarrow> Some (Inr (f, fx_offset f, st))
   | Some sub \<Rightarrow>
      bindOE (resolve_symbol_value st sub) (\<lambda>(_, st1).
      let sub_seg = seg_of st1 sub; forced = S_FORCE_RELOC st1 sub False in
      if fx_addsy f \<noteq> None \<and> sub_seg = add_seg \<and> \<not> S_FORCE_RELOC st1 (the (fx_addsy f)) False \<and> \<not> forced
         \<and> SEG_NORMAL add_seg then
        bindOE (S_GET_VALUE st1 (the (fx_addsy f))) (\<lambda>(a, st2).
        bindOE (S_GET_VALUE st2 sub) (\<lambda>(b, st3).
        let n = fx_offset f + a - b in Some (Inr (f\<lparr>fx_offset := n, fx_addsy := None, fx_subsy := None\<rparr>, n, st3))))
      else if sub_seg = absolute_section \<and> \<not> forced \<and> add_seg \<noteq> reg_section then
        bindOE (S_GET_VALUE st1 sub) (\<lambda>(b, st2).
        let n = fx_offset f - b in Some (Inr (f\<lparr>fx_offset := n, fx_subsy := None\<rparr>, n, st2)))
      else if sub_seg = this_segment \<and> \<not> forced \<and> add_seg \<noteq> reg_section then
        bindOE (S_GET_VALUE st1 sub) (\<lambda>(b, st2).
        let n = fx_offset f - b;
            dot = (case fx_dot_frag f of None \<Rightarrow> 0 | Some p \<Rightarrow> fr_address (fr st2 p)) in
        Some (Inr (f\<lparr>fx_offset := n + fx_dot_value f + dot, fx_subsy := None, fx_pcrel := True\<rparr>,
                   if fx_pcrel f then n else n + md_pcrel_from st2 f, st2)))
      else Some (Inl As_bad)))"

text \<open>The added symbol, when no relocation is needed for it.\<close>

definition take_add :: "segT \<Rightarrow> segT \<Rightarrow> fixup \<Rightarrow> u64 \<Rightarrow> sym_st \<Rightarrow> (fixup \<times> u64 \<times> sym_st) result option" where
  "take_add this_segment add_seg f n st = (case fx_addsy f of None \<Rightarrow> Some (Inr (f, n, st))
   | Some s \<Rightarrow>
      if add_seg = this_segment \<and> \<not> S_FORCE_RELOC st s False \<and> \<not> TC_FORCE_RELOCATION_LOCAL st f then
        bindOE (S_GET_VALUE st s) (\<lambda>(a, st1).
        Some (Inr (f\<lparr>fx_offset := n + a, fx_addsy := None, fx_pcrel := False\<rparr>,
                   if fx_pcrel f then n + a - md_pcrel_from st1 f else n + a, st1)))
      else if add_seg = absolute_section \<and> \<not> S_FORCE_RELOC st s False \<and> \<not> TC_FORCE_RELOCATION_ABS st f then
        bindOE (S_GET_VALUE st s) (\<lambda>(a, st1). Some (Inr (f\<lparr>fx_offset := n + a, fx_addsy := None\<rparr>, n + a, st1)))
      else Some (Inr (f, n, st)))"

definition mark_reloc :: "fixup \<Rightarrow> fix_st \<Rightarrow> (fixup \<times> fix_st) result" where
  "mark_reloc f X =
     (let f1 = (if fx_addsy f = None then f\<lparr>fx_addsy := abs_section_sym X\<rparr> else f) in
      deref (fx_addsy f1) (\<lambda>s.
      bindE (symbol_mark_used_in_reloc s X) (\<lambda>X1.
      case fx_subsy f1 of None \<Rightarrow> Inr (f1, X1)
      | Some t \<Rightarrow> bindE (symbol_mark_used_in_reloc t X1) (\<lambda>X2. Inr (f1, X2)))))"

definition too_large :: "fixup \<Rightarrow> u64 \<Rightarrow> bool" where
  "too_large f n \<longleftrightarrow> \<not> fx_no_overflow f \<and> fx_size f \<noteq> 0 \<and> unat (fx_size f) < 8
     \<and> (let msk = push_bit (unat (fx_size f) * 8 - (if fx_signed f then 1 else 0)) (NOT 0) in
        n AND msk \<noteq> 0 \<and> (if fx_signed f then n AND msk \<noteq> msk else (- n) AND msk \<noteq> 0))"

text \<open>The body of the loop of \<open>fixup_segment\<close>.\<close>

definition fix_one :: "target \<Rightarrow> fix_env \<Rightarrow> segT \<Rightarrow> fixup \<Rightarrow> fix_st \<Rightarrow> (fixup \<times> fix_st) result option" where
  "fix_one tg e this_segment f0 X =
     bindOE (Some (i386_validate_fix e (fsym X) f0)) (\<lambda>(valid, f).
     if \<not> valid then Some (Inr (f, X))
     else
       let add_seg = (case fx_addsy f of None \<Rightarrow> absolute_section | Some s \<Rightarrow> seg_of (fsym X) s) in
       bindOE (take_sub this_segment add_seg f (fsym X)) (\<lambda>(f1, n1, st1).
       bindOE (take_add this_segment add_seg f1 n1 st1) (\<lambda>(f2, n2, st2).
       let n3 = (if fx_pcrel f2 then n2 - md_pcrel_from st2 f2 else n2);
           f3 = (if fx_pcrel f2 \<and> \<not> fx_done f2 \<and> fx_addsy f2 = None then f2\<lparr>fx_addsy := abs_section_sym X\<rparr> else f2);
           X2 = X\<lparr>fsym := st2\<rparr> in
       bindOE (if fx_done f3 then Some (Inr (f3, n3, X2)) else Some (md_apply_fix tg e (Some this_segment) f3 n3 X2))
         (\<lambda>(f4, n4, X4).
       bindOE (if fx_done f4 then Some (Inr (f4, X4)) else Some (mark_reloc f4 X4)) (\<lambda>(f5, X5).
       if too_large f5 n4 then Some (Inl As_bad) else Some (Inr (f5, X5)))))))"

text \<open>When the linker relaxes, every fixup is left to it.\<close>

definition leave_to_linker :: "fixup \<Rightarrow> fix_st \<Rightarrow> (fixup \<times> fix_st) result option" where
  "leave_to_linker f X = (if fx_done f then Some (Inr (f, X)) else Some (mark_reloc f X))"

definition fixup_segment :: "target \<Rightarrow> fix_env \<Rightarrow> fixup list \<Rightarrow> segT \<Rightarrow> fix_st \<Rightarrow> (fixup list \<times> fix_st) result option" where
  "fixup_segment tg e fs this_segment X =
     bindOE (Some (if fs \<noteq> [] \<and> abs_section_sym X = None
        then bindE (section_symbol e absolute_section X) (\<lambda>(s, X1). Inr (X1\<lparr>abs_section_sym := Some s\<rparr>))
        else Inr X)) (\<lambda>X1.
     if linkrelax e then over_fixes leave_to_linker fs X1
     else over_fixes (fix_one tg e this_segment) fs X1)"

definition fix_segment :: "target \<Rightarrow> fix_env \<Rightarrow> segT \<Rightarrow> fix_st \<Rightarrow> fix_st result option" where
  "fix_segment tg e sec X =
     (if seg_info (sg (fsym X)) sec = None then Some (Inl Null_deref)
      else bindOE (fixup_segment tg e (fix_root X sec) sec X) (\<lambda>r. Some (Inr (set_fix_root sec r))))"

text \<open>\<open>bfd_map_over_sections\<close>.\<close>

fun map_over_sections :: "(segT \<Rightarrow> fix_st \<Rightarrow> fix_st result option) \<Rightarrow> segT list \<Rightarrow> fix_st \<Rightarrow> fix_st result option" where
  "map_over_sections f [] X = Some (Inr X)"
| "map_over_sections f (sec # secs) X = bindOE (f sec X) (map_over_sections f secs)"

text \<open>The two passes of \<open>write_object_file\<close>.\<close>

definition apply_fixups :: "target \<Rightarrow> fix_env \<Rightarrow> segT list \<Rightarrow> fix_st \<Rightarrow> fix_st result option" where
  "apply_fixups tg e secs X =
     bindOE (map_over_sections (adjust_reloc_syms e) secs X) (map_over_sections (fix_segment tg e) secs)"

section \<open>Relocations\<close>

record arelent =
  rel_sym :: symP
  rel_address :: u64
  rel_addend :: u64
  rel_code :: reloc_code

definition sized_reloc :: "fixup \<Rightarrow> reloc_code result" where
  "sized_reloc f =
     (if fx_size f = 1 then Inr (if fx_pcrel f then BFD_RELOC_8_PCREL else BFD_RELOC_8)
      else if fx_size f = 2 then Inr (if fx_pcrel f then BFD_RELOC_16_PCREL else BFD_RELOC_16)
      else if fx_size f = 4 then Inr (if fx_pcrel f then BFD_RELOC_32_PCREL else BFD_RELOC_32)
      else if fx_size f = 8 then Inr (if fx_pcrel f then BFD_RELOC_64_PCREL else BFD_RELOC_64)
      else Inl As_bad)"

definition kept_relocs :: "reloc_code set" where
  "kept_relocs = {BFD_RELOC_SIZE32, BFD_RELOC_SIZE64, BFD_RELOC_X86_64_PLT32, BFD_RELOC_X86_64_GOT32,
     BFD_RELOC_X86_64_GOTPCREL, BFD_RELOC_X86_64_GOTPCRELX, BFD_RELOC_X86_64_REX_GOTPCRELX,
     BFD_RELOC_X86_64_CODE_4_GOTPCRELX, BFD_RELOC_386_PLT32, BFD_RELOC_386_GOT32, BFD_RELOC_386_GOT32X,
     BFD_RELOC_386_GOTOFF, BFD_RELOC_386_GOTPC, BFD_RELOC_386_TLS_GD, BFD_RELOC_386_TLS_LDM,
     BFD_RELOC_386_TLS_LDO_32, BFD_RELOC_386_TLS_IE_32, BFD_RELOC_386_TLS_IE, BFD_RELOC_386_TLS_GOTIE,
     BFD_RELOC_386_TLS_LE_32, BFD_RELOC_386_TLS_LE, BFD_RELOC_386_TLS_GOTDESC, BFD_RELOC_386_TLS_DESC_CALL,
     BFD_RELOC_X86_64_TLSGD, BFD_RELOC_X86_64_TLSLD, BFD_RELOC_X86_64_DTPOFF32, BFD_RELOC_X86_64_DTPOFF64,
     BFD_RELOC_X86_64_GOTTPOFF, BFD_RELOC_X86_64_CODE_4_GOTTPOFF, BFD_RELOC_X86_64_CODE_6_GOTTPOFF,
     BFD_RELOC_X86_64_TPOFF32, BFD_RELOC_X86_64_TPOFF64, BFD_RELOC_X86_64_GOTOFF64, BFD_RELOC_X86_64_GOTPC32,
     BFD_RELOC_X86_64_GOT64, BFD_RELOC_X86_64_GOTPCREL64, BFD_RELOC_X86_64_GOTPC64, BFD_RELOC_X86_64_GOTPLT64,
     BFD_RELOC_X86_64_PLTOFF64, BFD_RELOC_X86_64_GOTPC32_TLSDESC, BFD_RELOC_X86_64_CODE_4_GOTPC32_TLSDESC,
     BFD_RELOC_X86_64_TLSDESC_CALL, BFD_RELOC_RVA, BFD_RELOC_VTABLE_ENTRY, BFD_RELOC_VTABLE_INHERIT}"

text \<open>A size relocation against a local symbol: the symbol whose size is meant, and the value stored for it.\<close>

definition size_symbol :: "sym_st \<Rightarrow> fixup \<Rightarrow> symP option" where
  "size_symbol st f =
     (let is_abs = (\<lambda>p. case p of None \<Rightarrow> True | Some s \<Rightarrow> seg_of st s = absolute_section) in
      if \<not> is_abs (fx_addsy f) \<and> is_abs (fx_subsy f) then fx_addsy f
      else if \<not> is_abs (fx_subsy f) \<and> is_abs (fx_addsy f) then fx_subsy f
      else None)"

definition store_size :: "target \<Rightarrow> fix_env \<Rightarrow> symP \<Rightarrow> fixup \<Rightarrow> fix_st \<Rightarrow> (fixup \<times> fix_st) result option" where
  "store_size tg e s f X =
     bindOE (Some (convert_if_local s (fsym X))) (\<lambda>st.
     let sz = (if section_sym (syms (sg st) s) then bfd_section_size e (seg_of st s) else elf_size e s) in
     bindOE (if fx_subsy f = Some s then
               (case fx_addsy f of None \<Rightarrow> Some (Inr (- sz, st))
                | Some t \<Rightarrow> bindOE (S_GET_VALUE st t) (\<lambda>(v, st1). Some (Inr (v - sz, st1))))
             else (case fx_subsy f of None \<Rightarrow> Some (Inr (sz, st))
                | Some t \<Rightarrow> bindOE (S_GET_VALUE st t) (\<lambda>(v, st1). Some (Inr (sz - v, st1))))) (\<lambda>(v, st2).
     let value = v + fx_offset f in
     if fx_r_type f = BFD_RELOC_SIZE32 \<and> object_64bit e \<and> \<not> fits_in_unsigned_long value then Some (Inl As_bad)
     else bindOE (Some (md_apply_fix tg e None (f\<lparr>fx_addsy := None, fx_subsy := None\<rparr>) value (X\<lparr>fsym := st2\<rparr>)))
            (\<lambda>(f1, _, X1). Some (Inr (f1, X1)))))"

definition got_reloc :: "fix_env \<Rightarrow> fixup \<Rightarrow> reloc_code \<Rightarrow> reloc_code" where
  "got_reloc e f rc =
     (if GOT_symbol e \<noteq> None \<and> fx_addsy f = GOT_symbol e then
        (if rc \<in> {BFD_RELOC_32, BFD_RELOC_32_PCREL, BFD_RELOC_X86_64_32S}
         then (if object_64bit e then BFD_RELOC_X86_64_GOTPC32 else BFD_RELOC_386_GOTPC)
         else if rc \<in> {BFD_RELOC_64, BFD_RELOC_64_PCREL} then BFD_RELOC_X86_64_GOTPC64 else rc)
      else rc)"

definition rela_addend :: "fix_env \<Rightarrow> segT \<Rightarrow> sym_st \<Rightarrow> fixup \<Rightarrow> reloc_code \<Rightarrow> u64" where
  "rela_addend e section st f rc =
     (if \<not> fx_pcrel f then fx_offset f
      else if rc \<in> {BFD_RELOC_X86_64_PLT32, BFD_RELOC_X86_64_GOT32, BFD_RELOC_X86_64_GOTPCREL,
        BFD_RELOC_X86_64_GOTPCRELX, BFD_RELOC_X86_64_REX_GOTPCRELX, BFD_RELOC_X86_64_CODE_4_GOTPCRELX,
        BFD_RELOC_X86_64_TLSGD, BFD_RELOC_X86_64_TLSLD, BFD_RELOC_X86_64_GOTTPOFF, BFD_RELOC_X86_64_CODE_4_GOTTPOFF,
        BFD_RELOC_X86_64_CODE_6_GOTTPOFF, BFD_RELOC_X86_64_GOTPC32_TLSDESC,
        BFD_RELOC_X86_64_CODE_4_GOTPC32_TLSDESC, BFD_RELOC_X86_64_TLSDESC_CALL}
      then fx_offset f - ucast (fx_size f)
      else sec_vma e section - ucast (fx_size f) + fx_addnumber f + md_pcrel_from st f)"

definition make_reloc :: "fix_env \<Rightarrow> segT \<Rightarrow> sym_st \<Rightarrow> fixup \<Rightarrow> reloc_code \<Rightarrow> arelent result" where
  "make_reloc e section st f r0 =
     deref (fx_addsy f) (\<lambda>s.
      let rc = got_reloc e f r0; here = fr_address (fr st (fx_frag f)) + fx_where f in
      if \<not> use_rela_relocations e then
        (if \<not> howto_known e rc then Inl As_bad
         else Inr \<lparr>rel_sym = s,
                rel_address = (if fx_r_type f = BFD_RELOC_VTABLE_ENTRY then fx_offset f else here),
                rel_addend = 0, rel_code = rc\<rparr>)
      else if disallow_64bit_reloc e \<and> rc \<in> {BFD_RELOC_X86_64_DTPOFF64, BFD_RELOC_X86_64_TPOFF64, BFD_RELOC_64_PCREL,
        BFD_RELOC_X86_64_GOTOFF64, BFD_RELOC_X86_64_GOT64, BFD_RELOC_X86_64_GOTPCREL64, BFD_RELOC_X86_64_GOTPC64,
        BFD_RELOC_X86_64_GOTPLT64, BFD_RELOC_X86_64_PLTOFF64} then Inl As_bad
      else if \<not> howto_known e rc then Inl As_bad
      else Inr \<lparr>rel_sym = s, rel_address = here, rel_addend = rela_addend e section st f rc, rel_code = rc\<rparr>)"

text \<open>The relocation, or \<^term>\<open>None\<close> when the value was stored after all.\<close>

definition tc_gen_reloc :: "target \<Rightarrow> fix_env \<Rightarrow> segT \<Rightarrow> fixup \<Rightarrow> fix_st \<Rightarrow> (arelent option \<times> fixup \<times> fix_st) result option" where
  "tc_gen_reloc tg e section f X =
     (let r = fx_r_type f;
          rc = (if r \<in> kept_relocs \<or> r = BFD_RELOC_X86_64_32S \<and> \<not> fx_pcrel f then Inr r else sized_reloc f);
          rest = bindOE (Some (bindE rc (make_reloc e section (fsym X) f))) (\<lambda>rel. Some (Inr (Some rel, f, X))) in
      if r = BFD_RELOC_SIZE32 \<or> r = BFD_RELOC_SIZE64 then
        (let meant = size_symbol (fsym X) f in
         if meant \<noteq> None \<and> S_IS_DEFINED (fsym X) (the meant) \<and> \<not> S_IS_EXTERNAL (fsym X) (the meant)
         then bindOE (store_size tg e (the meant) f X) (\<lambda>(f1, X1). Some (Inr (None, f1, X1)))
         else if fx_addsy f = None \<or> fx_subsy f \<noteq> None then Some (Inl As_bad)
         else rest)
      else rest)"

section \<open>Labels\<close>

text \<open>A symbol with a place: its value is a number, resolved or still relative to its frag.\<close>

definition fixed_label :: "sym_st \<Rightarrow> symP \<Rightarrow> u64 \<Rightarrow> bool" where
  "fixed_label st s a \<longleftrightarrow> finalize_syms st \<and> s < n_syms (sg st) \<and> seg_of st s \<noteq> expr_section \<and> seg_of st s \<noteq> reg_section
     \<and> \<not> resolving (sx st s) \<and> \<not> mri_common (sx st s) \<and> (is_local st s \<longrightarrow> \<not> section_sym (syms (sg st) s))
     \<and> (\<not> is_local st s \<longrightarrow> \<not> weakrefr (sx st s) \<and> X_op (x_value st s) = O_constant)
     \<and> a = (if is_local st s then sy_value (syms (sg st) s) else X_add_number (x_value st s))
           + (if resolved (sx st s) then 0 else frag_address st s)"

text \<open>Labels keep their values, their segments and their binding; frags stay where they are.\<close>

definition keeps_labels :: "sym_st \<Rightarrow> sym_st \<Rightarrow> bool" where
  "keeps_labels st st' \<longleftrightarrow> finalize_syms st' = finalize_syms st \<and> frags (sg st') = frags (sg st)
     \<and> seg_info (sg st') = seg_info (sg st) \<and> n_syms (sg st) \<le> n_syms (sg st')
     \<and> (\<forall>s a. fixed_label st s a \<longrightarrow> fixed_label st' s a \<and> seg_of st' s = seg_of st s
          \<and> (\<forall>b. S_FORCE_RELOC st' s b = S_FORCE_RELOC st s b) \<and> symbol_section_p st' s = symbol_section_p st s)"

lemma keeps_labels_refl [simp, intro]: "keeps_labels st st"
  by (simp add: keeps_labels_def)

lemma keeps_labels_trans [trans]: "keeps_labels a b \<Longrightarrow> keeps_labels b c \<Longrightarrow> keeps_labels a c"
  unfolding keeps_labels_def by (metis order_trans)

lemma keeps_fr: "keeps_labels st st' \<Longrightarrow> fr st' p = fr st p"
  by (simp add: keeps_labels_def fr_def)

lemma keeps_label: "keeps_labels st st' \<Longrightarrow> fixed_label st s a \<Longrightarrow> fixed_label st' s a"
  and keeps_seg: "keeps_labels st st' \<Longrightarrow> fixed_label st s a \<Longrightarrow> seg_of st' s = seg_of st s"
  and keeps_force: "keeps_labels st st' \<Longrightarrow> fixed_label st s a \<Longrightarrow> S_FORCE_RELOC st' s b = S_FORCE_RELOC st s b"
  and keeps_section_p: "keeps_labels st st' \<Longrightarrow> fixed_label st s a \<Longrightarrow> symbol_section_p st' s = symbol_section_p st s"
  and keeps_seg_info: "keeps_labels st st' \<Longrightarrow> seg_info (sg st') = seg_info (sg st)"
  by (simp_all add: keeps_labels_def)

lemma keeps_labels_mem: "keeps_labels st (st\<lparr>sg := poke_list a bs (sg st)\<rparr>)"
proof -
  have "syms (poke_list a bs g) = syms g \<and> n_syms (poke_list a bs g) = n_syms g \<and> frags (poke_list a bs g) = frags g" for g
    by (induction bs arbitrary: a g) (simp_all add: poke_def)
  then show ?thesis
    by (simp add: keeps_labels_def fixed_label_def seg_of_def is_local_def x_value_def frag_address_def S_FORCE_RELOC_def
        symbol_section_p_def cong: option.case_cong)
qed

text \<open>A change of one symbol.\<close>

lemma keeps_labels_at:
  assumes "finalize_syms st' = finalize_syms st" "frags (sg st') = frags (sg st)" "seg_info (sg st') = seg_info (sg st)"
    "n_syms (sg st) \<le> n_syms (sg st')"
    and o: "\<And>q. q \<noteq> s \<Longrightarrow> syms (sg st') q = syms (sg st) q \<and> sx st' q = sx st q"
    and s: "\<And>a. fixed_label st s a \<Longrightarrow> fixed_label st' s a \<and> seg_of st' s = seg_of st s
          \<and> (\<forall>b. S_FORCE_RELOC st' s b = S_FORCE_RELOC st s b) \<and> symbol_section_p st' s = symbol_section_p st s"
  shows "keeps_labels st st'"
proof -
  have "fixed_label st' q a \<and> seg_of st' q = seg_of st q \<and> (\<forall>b. S_FORCE_RELOC st' q b = S_FORCE_RELOC st q b)
      \<and> symbol_section_p st' q = symbol_section_p st q" if "fixed_label st q a" "q \<noteq> s" for q a
    using that o [of q] assms(1,2,4)
    by (simp add: fixed_label_def seg_of_def is_local_def x_value_def frag_address_def S_FORCE_RELOC_def
        symbol_section_p_def cong: option.case_cong)
  then show ?thesis using assms s unfolding keeps_labels_def by blast
qed

lemma frag_address_sx [simp]: "frag_address (st\<lparr>sx := x\<rparr>) s = frag_address st s"
  by (simp add: frag_address_def split: option.split)

lemma resolve_label:
  assumes l: "fixed_label st s a"
  shows "\<exists>st'. resolve_symbol_value st s = Some (Inr (a, st')) \<and> keeps_labels st st' \<and> mem (sg st') = mem (sg st) \<and> resolved (sx st' s)
    \<and> is_local st' s = is_local st s"
proof (cases "is_local st s")
  case True
  let ?st' = "snd (resolve_local s st)"
  have "fst (resolve_local s st) = a" using l True by (simp add: fixed_label_def resolve_local_def Let_def split: if_splits)
  then have "resolve_symbol_value st s = Some (Inr (a, ?st'))"
    using True by (subst resolve_symbol_value.simps) (simp add: prod_eq_iff)
  moreover have "keeps_labels st ?st'"
    by (rule keeps_labels_at [where s = s])
      (use l True in \<open>auto simp: resolve_local_def Let_def upd_sx_def upd_sym_def fixed_label_def seg_of_def S_GET_SEGMENT_def
        is_local_def x_value_def frag_address_def S_FORCE_RELOC_def symbol_section_p_def\<close>)
  ultimately show ?thesis
    using True l by (intro exI [of _ ?st']) (auto simp: resolve_local_def Let_def upd_sx_def upd_sym_def is_local_def fixed_label_def)
next
  case False
  show ?thesis
  proof (cases "resolved (sx st s)")
    case True
    then have "resolve_symbol_value st s = Some (Inr (a, st))"
      using False l by (subst resolve_symbol_value.simps, subst resolved_value.simps)
        (simp add: fixed_label_def bindOE_def Let_def)
    then show ?thesis using True by blast
  next
    case nr: False
    let ?st' = "upd_sx s (\<lambda>x. x\<lparr>resolving := False, x_expr := None, weakrefr := False, resolved := True\<rparr>)
       (st\<lparr>sg := upd_sym s (\<lambda>y. y\<lparr>sy_value := a\<rparr>) (sg st)\<rparr>)"
    have "resolve_symbol_value st s = Some (Inr (a, ?st'))"
      using False nr l
      by (subst resolve_symbol_value.simps)
        (auto simp: fixed_label_def bindOE_def Let_def symbol_op_def unary_op_def binary_op_def resolve_leaf_def finish_resolve_def
          upd_sx_def S_SET_VALUE_def is_local_def set_segment_def S_SET_SEGMENT_def upd_sym_def seg_of_def S_GET_SEGMENT_def frag_address_sx)
    moreover have "keeps_labels st ?st'"
      by (rule keeps_labels_at [where s = s])
        (use l False nr in \<open>auto simp: upd_sx_def upd_sym_def fixed_label_def seg_of_def S_GET_SEGMENT_def
          is_local_def x_value_def frag_address_def S_FORCE_RELOC_def symbol_section_p_def constant_exp_def\<close>)
    ultimately show ?thesis
      using False by (intro exI [of _ ?st']) (simp add: upd_sx_def upd_sym_def is_local_def)
  qed
qed

lemma get_label:
  assumes l: "fixed_label st s a"
  shows "\<exists>st'. S_GET_VALUE st s = Some (Inr (a, st')) \<and> keeps_labels st st' \<and> mem (sg st') = mem (sg st)"
proof -
  obtain st' where r: "resolve_symbol_value st s = Some (Inr (a, st'))" "keeps_labels st st'" "mem (sg st') = mem (sg st)"
    "resolved (sx st' s)" "is_local st' s = is_local st s"
    using resolve_label [OF l] by blast
  have l': "fixed_label st' s a" using keeps_label [OF r(2) l] .
  show ?thesis
  proof (cases "is_local st s \<or> \<not> resolved (sx st s)")
    case True
    then have "S_GET_VALUE st s = Some (Inr (a, st'))"
      using r l' l by (subst S_GET_VALUE.simps) (auto simp: bindOE_def Let_def S_IS_WEAKREFR_def fixed_label_def)
    then show ?thesis using r by blast
  next
    case False
    then have "S_GET_VALUE st s = Some (Inr (a, st))"
      using l by (subst S_GET_VALUE.simps) (auto simp: bindOE_def Let_def S_IS_WEAKREFR_def fixed_label_def)
    then show ?thesis by blast
  qed
qed

lemma convert_label:
  assumes "fixed_label st s a"
  shows "\<exists>st'. convert_if_local s st = Inr st' \<and> keeps_labels st st' \<and> mem (sg st') = mem (sg st)"
proof (cases "is_local st s")
  case True
  obtain st' where st': "local_symbol_convert s st = Inr st'"
    using True by (simp add: local_symbol_convert_def Let_def)
  have fa: "frag_address st' s = frag_address st s"
    using st' by (auto simp: local_symbol_convert_def Let_def upd_sx_def upd_sym_def frag_address_def split: option.split)
  from st' have "keeps_labels st st'"
    by (intro keeps_labels_at [where s = s])
      (use assms True fa in \<open>auto simp: local_symbol_convert_def Let_def upd_sx_def upd_sym_def fixed_label_def seg_of_def S_GET_SEGMENT_def
        is_local_def x_value_def S_FORCE_RELOC_def symbol_section_p_def constant_exp_def\<close>)
  moreover have "mem (sg st') = mem (sg st)"
    using st' by (auto simp: local_symbol_convert_def Let_def upd_sx_def upd_sym_def)
  ultimately show ?thesis using True st' by (simp add: convert_if_local_def)
qed (simp add: convert_if_local_def)

section \<open>Section symbols\<close>

definition section_label :: "sym_st \<Rightarrow> segT \<Rightarrow> symP \<Rightarrow> bool" where
  "section_label st sec s \<longleftrightarrow> fixed_label st s 0 \<and> seg_of st s = sec \<and> symbol_section_p st s
     \<and> (\<forall>b. S_FORCE_RELOC st s b \<longleftrightarrow> sec = undefined_section)"

text \<open>The section symbols there are stand for the starts of their sections, and no other symbol has the name
  of a section.\<close>

definition sections_ok :: "fix_env \<Rightarrow> fix_st \<Rightarrow> bool" where
  "sections_ok e X \<longleftrightarrow> finalize_syms (fsym X)
     \<and> (\<forall>sec. seg_sym X sec = None \<longrightarrow> sy_hash e (section_name_bytes sec) = None)
     \<and> (\<forall>sec s. seg_sym X sec = Some s \<longrightarrow> section_label (fsym X) sec s)"

definition keeps_fixes :: "fix_st \<Rightarrow> fix_st \<Rightarrow> bool" where
  "keeps_fixes X X' \<longleftrightarrow> keeps_labels (fsym X) (fsym X') \<and> fix_root X' = fix_root X"

lemma keeps_fixes_refl [simp, intro]: "keeps_fixes X X"
  by (simp add: keeps_fixes_def)

lemma keeps_fixes_trans [trans]: "keeps_fixes a b \<Longrightarrow> keeps_fixes b c \<Longrightarrow> keeps_fixes a c"
  by (auto simp: keeps_fixes_def intro: keeps_labels_trans)

lemma section_label_keeps: "keeps_labels st st' \<Longrightarrow> section_label st sec s \<Longrightarrow> section_label st' sec s"
  unfolding section_label_def keeps_labels_def by metis

lemma sections_ok_keeps:
  assumes "sections_ok e X" "keeps_labels (fsym X) (fsym X')" "seg_sym X' = seg_sym X"
  shows "sections_ok e X'"
  using assms section_label_keeps [OF assms(2)]
  by (auto simp: sections_ok_def keeps_labels_def split: option.splits)

text \<open>The state after \<open>section_symbol\<close> has made a symbol.\<close>

definition with_section_symbol :: "segT \<Rightarrow> sym_st \<Rightarrow> sym_st" where
  "with_section_symbol sec st = st\<lparr>sg := (sg st)\<lparr>syms := (syms (sg st))(n_syms (sg st) :=
       \<lparr>sy_name = section_name_bytes sec, local_symbol = False, sy_frag = None, sy_seg = sec, section_sym = True,
        sy_value = 0, jmp_table_size = 0, jmp_entry_size = 0, call_flow_symbol = False,
        memory_access_symbol = False, bind_bytes = False\<rparr>), n_syms := n_syms (sg st) + 1,
       sym_chain := sym_chain (sg st) @ [n_syms (sg st)]\<rparr>,
     sx := (sx st)(n_syms (sg st) := plain_symx)\<rparr>"

lemma section_symbol_new:
  assumes "sy_hash e (section_name_bytes sec) = None" "seg_sym X sec = None" "seg_info (sg (fsym X)) sec \<noteq> None"
  shows "section_symbol e sec X = Inr (n_syms (sg (fsym X)),
    X\<lparr>fsym := with_section_symbol sec (fsym X), seg_sym := (seg_sym X)(sec \<mapsto> n_syms (sg (fsym X)))\<rparr>)"
  using assms
  by (simp add: section_symbol_def new_or_found_def symbol_new_def symbol_create_def S_CLEAR_EXTERNAL_def symbol_set_bfdsym_def
      convert_if_local_def is_local_def upd_sx_def upd_sym_def plain_symx_def with_section_symbol_def)

lemma with_section_symbol_keeps:
  "keeps_labels st (with_section_symbol sec st)" "mem (sg (with_section_symbol sec st)) = mem (sg st)"
proof -
  show "keeps_labels st (with_section_symbol sec st)"
    by (rule keeps_labels_at [where s = "n_syms (sg st)"]) (simp_all add: with_section_symbol_def fixed_label_def)
qed (simp add: with_section_symbol_def)

lemma with_section_symbol_label:
  assumes "finalize_syms st" "sec \<noteq> expr_section" "sec \<noteq> reg_section"
  shows "section_label (with_section_symbol sec st) sec (n_syms (sg st))"
  using assms
  by (simp add: section_label_def fixed_label_def with_section_symbol_def seg_of_def S_GET_SEGMENT_def is_local_def plain_symx_def
      x_value_def constant_exp_def frag_address_def symbol_section_p_def S_FORCE_RELOC_def)

lemma section_symbol_ok:
  assumes ok: "sections_ok e X" and "seg_info (sg (fsym X)) sec \<noteq> None" "sec \<noteq> expr_section" "sec \<noteq> reg_section"
  shows "\<exists>s X'. section_symbol e sec X = Inr (s, X') \<and> keeps_fixes X X' \<and> mem (sg (fsym X')) = mem (sg (fsym X))
    \<and> section_label (fsym X') sec s \<and> sections_ok e X'"
proof (cases "seg_sym X sec")
  case None
  let ?s = "n_syms (sg (fsym X))" and ?st = "with_section_symbol sec (fsym X)"
  let ?X = "X\<lparr>fsym := ?st, seg_sym := (seg_sym X)(sec \<mapsto> ?s)\<rparr>"
  have l: "section_label ?st sec ?s" using with_section_symbol_label ok assms(3,4) by (simp add: sections_ok_def)
  have "section_symbol e sec X = Inr (?s, ?X)" using section_symbol_new None ok assms(2) by (simp add: sections_ok_def)
  moreover have "sections_ok e ?X"
    using ok l with_section_symbol_keeps(1) [of "fsym X" sec]
    by (auto simp: sections_ok_def intro: section_label_keeps) (simp add: with_section_symbol_def)
  moreover have "keeps_fixes X ?X" using with_section_symbol_keeps(1) by (simp add: keeps_fixes_def)
  moreover have "mem (sg (fsym ?X)) = mem (sg (fsym X))" using with_section_symbol_keeps(2) by simp
  ultimately show ?thesis using l by (intro exI [of _ ?s] exI [of _ ?X]) simp
next
  case (Some s)
  then have "section_label (fsym X) sec s" using ok by (simp add: sections_ok_def)
  then show ?thesis using Some assms by (auto simp: section_symbol_def)
qed

section \<open>References\<close>

definition plain_relocs :: "reloc_code set" where
  "plain_relocs = {NO_RELOC, BFD_RELOC_8, BFD_RELOC_16, BFD_RELOC_32, BFD_RELOC_64, BFD_RELOC_8_PCREL,
     BFD_RELOC_16_PCREL, BFD_RELOC_32_PCREL, BFD_RELOC_64_PCREL, BFD_RELOC_X86_64_32S}"

definition env64 :: "fix_env \<Rightarrow> bool" where
  "env64 e \<longleftrightarrow> object_64bit e \<and> use_rela_relocations e \<and> \<not> disallow_64bit_reloc e \<and> \<not> linkrelax e \<and> GOT_symbol e = None
     \<and> (\<forall>sec. sec_vma e sec = 0) \<and> (\<forall>r \<in> plain_relocs. howto_known e r) \<and> howto_known e BFD_RELOC_X86_64_PLT32"

text \<open>A fixup of segment \<open>sec\<close> that refers to a label, or to an undefined symbol, plus an offset.  When
  it can be done at once its value fits the field.\<close>

definition reference :: "sym_st \<Rightarrow> segT \<Rightarrow> fixup \<Rightarrow> symP \<Rightarrow> u64 \<Rightarrow> bool" where
  "reference st sec f s a \<longleftrightarrow> \<not> fx_done f \<and> fx_addsy f = Some s \<and> fx_subsy f = None \<and> fixed_label st s a
     \<and> seg_of st s \<noteq> absolute_section \<and> (seg_of st s = undefined_section \<or> seg_info (sg st) (seg_of st s) \<noteq> None)
     \<and> (fx_r_type f \<in> plain_relocs \<or> fx_r_type f = BFD_RELOC_X86_64_PLT32 \<and> fx_pcrel f) \<and> fx_size f \<in> {1, 2, 4, 8}
     \<and> (fx_pcrel f \<and> seg_of st s = sec \<and> \<not> S_FORCE_RELOC st s True
        \<longrightarrow> \<not> too_large (f\<lparr>fx_signed := (fx_signed f \<or> fx_r_type f = BFD_RELOC_X86_64_32S)\<rparr>) (a + fx_offset f - md_pcrel_from st f))"

text \<open>The address of a symbol when the linker puts the sections at \<open>base\<close> and undefined symbols at \<open>ext\<close>, and the
  address a fixup refers to.\<close>

definition links_to :: "(segT \<Rightarrow> u64) \<Rightarrow> (symP \<Rightarrow> u64) \<Rightarrow> sym_st \<Rightarrow> symP \<Rightarrow> u64 \<Rightarrow> bool" where
  "links_to base ext st s v \<longleftrightarrow> (\<exists>a. fixed_label st s a \<and> v = (if seg_of st s = undefined_section then ext s else base (seg_of st s) + a))"

definition refers_to :: "(segT \<Rightarrow> u64) \<Rightarrow> (symP \<Rightarrow> u64) \<Rightarrow> sym_st \<Rightarrow> fixup \<Rightarrow> u64 \<Rightarrow> bool" where
  "refers_to base ext st f v \<longleftrightarrow> (\<exists>s S. fx_addsy f = Some s \<and> links_to base ext st s S \<and> v = S + fx_offset f)"

definition same_field :: "fixup \<Rightarrow> fixup \<Rightarrow> bool" where
  "same_field f f' \<longleftrightarrow> fx_frag f' = fx_frag f \<and> fx_where f' = fx_where f \<and> fx_size f' = fx_size f \<and> fx_pcrel f' = fx_pcrel f"

lemma same_field_refl [simp]: "same_field f f"
  by (simp add: same_field_def)

lemma links_to_keeps: "keeps_labels st st' \<Longrightarrow> links_to base ext st s v \<Longrightarrow> links_to base ext st' s v"
  unfolding links_to_def by (metis keeps_label keeps_seg)

lemma refers_to_keeps: "keeps_labels st st' \<Longrightarrow> refers_to base ext st f v \<Longrightarrow> refers_to base ext st' f v"
  unfolding refers_to_def by (metis links_to_keeps)

lemma fixed_label_unique: "fixed_label st s a \<Longrightarrow> fixed_label st s b \<Longrightarrow> a = b"
  by (simp add: fixed_label_def)

lemma md_pcrel_keeps: "keeps_labels st st' \<Longrightarrow> md_pcrel_from st' f = md_pcrel_from st f"
  by (simp add: md_pcrel_from_def keeps_fr)

lemma reference_keeps:
  assumes "keeps_labels st st'" "reference st sec f s a"
  shows "reference st' sec f s a"
proof -
  have l: "fixed_label st s a" using assms(2) by (simp add: reference_def)
  show ?thesis
    using assms(2) keeps_label [OF assms(1) l] keeps_seg [OF assms(1) l] keeps_force [OF assms(1) l] keeps_seg_info [OF assms(1)]
      md_pcrel_keeps [OF assms(1)] by (simp add: reference_def)
qed

lemma addsy_same: "fx_addsy f = Some s \<Longrightarrow> f\<lparr>fx_addsy := Some s\<rparr> = f" for f :: fixup
  by (cases f) simp

lemma too_large_moved: "too_large (f\<lparr>fx_offset := o1, fx_addsy := s, fx_signed := b\<rparr>) n = too_large (f\<lparr>fx_signed := b\<rparr>) n" for f :: fixup
  by (simp add: too_large_def)

lemma mark_used_label:
  assumes "fixed_label (fsym X) s a"
  shows "\<exists>X'. symbol_mark_used_in_reloc s X = Inr X' \<and> keeps_fixes X X' \<and> mem (sg (fsym X')) = mem (sg (fsym X))
    \<and> seg_sym X' = seg_sym X \<and> abs_section_sym X' = abs_section_sym X"
  using convert_label [OF assms] by (auto simp: symbol_mark_used_in_reloc_def keeps_fixes_def)

text \<open>What a step of the first pass does to a reference.\<close>

definition adjusts :: "fix_env \<Rightarrow> segT \<Rightarrow> fixup \<Rightarrow> fix_st \<Rightarrow> fixup \<Rightarrow> fix_st \<Rightarrow> bool" where
  "adjusts e sec f X f' X' \<longleftrightarrow> keeps_fixes X X' \<and> mem (sg (fsym X')) = mem (sg (fsym X)) \<and> sections_ok e X' \<and> same_field f f'
     \<and> (\<exists>s a. reference (fsym X') sec f' s a)
     \<and> (\<forall>base ext v. refers_to base ext (fsym X) f v \<longrightarrow> refers_to base ext (fsym X') f' v)"

lemma adjusts_same:
  assumes "keeps_fixes X X'" "mem (sg (fsym X')) = mem (sg (fsym X))" "sections_ok e X'" "reference (fsym X) sec f s a"
  shows "adjusts e sec f X f X'"
  using assms by (auto simp: adjusts_def keeps_fixes_def intro: reference_keeps refers_to_keeps)

lemma reduce_to_section:
  assumes r: "reference (fsym X) sec f s a" and ok: "sections_ok e X" and nf: "\<not> S_FORCE_RELOC (fsym X) s True"
  shows "\<exists>f' X'. bindOE (S_GET_VALUE (fsym X) s) (\<lambda>(v, st1).
        bindOE (Some (section_symbol e (seg_of st1 s) (X\<lparr>fsym := st1\<rparr>))) (\<lambda>(ss, X1).
        Some (Inr (f\<lparr>fx_offset := fx_offset f + v, fx_addsy := Some ss\<rparr>, X1)))) = Some (Inr (f', X')) \<and> adjusts e sec f X f' X'"
proof -
  have R: "\<not> fx_done f" "fx_addsy f = Some s" "fx_subsy f = None" and l: "fixed_label (fsym X) s a"
    and nu: "seg_of (fsym X) s \<noteq> undefined_section" and si: "seg_info (sg (fsym X)) (seg_of (fsym X) s) \<noteq> None"
    using r nf by (auto simp: reference_def S_FORCE_RELOC_def)
  obtain st1 where g: "S_GET_VALUE (fsym X) s = Some (Inr (a, st1))" and k1: "keeps_labels (fsym X) st1" and m1: "mem (sg st1) = mem (sg (fsym X))"
    using get_label [OF l] by blast
  let ?X1 = "X\<lparr>fsym := st1\<rparr>" and ?q = "seg_of (fsym X) s"
  have q: "seg_of st1 s = ?q" using keeps_seg [OF k1 l] .
  have ok1: "sections_ok e ?X1" using ok k1 by (auto intro: sections_ok_keeps)
  have ne: "?q \<noteq> expr_section" "?q \<noteq> reg_section" using l by (simp_all add: fixed_label_def)
  obtain ss X2 where ss: "section_symbol e ?q ?X1 = Inr (ss, X2)" and k2: "keeps_fixes ?X1 X2"
    and m2: "mem (sg (fsym X2)) = mem (sg (fsym ?X1))" and sl: "section_label (fsym X2) ?q ss" and ok2: "sections_ok e X2"
    using section_symbol_ok [OF ok1 _ ne] si keeps_seg_info [OF k1] by (metis fix_st.select_convs(1) fix_st.surjective fix_st.update_convs(1))
  have k: "keeps_labels (fsym X) (fsym X2)" using keeps_labels_trans [OF k1] k2 by (simp add: keeps_fixes_def)
  let ?f = "f\<lparr>fx_offset := fx_offset f + a, fx_addsy := Some ss\<rparr>"
  have "reference (fsym X2) sec ?f ss 0"
    using r sl nf keeps_seg_info [OF k] md_pcrel_keeps [OF k]
    by (auto simp: reference_def section_label_def too_large_moved algebra_simps md_pcrel_from_def)
  moreover have "refers_to base ext (fsym X2) ?f v" if v: "refers_to base ext (fsym X) f v" for base ext v
  proof -
    have "v = base ?q + a + fx_offset f"
      using v R(2) nu l by (auto simp: refers_to_def links_to_def dest: fixed_label_unique)
    moreover have "links_to base ext (fsym X2) ss (base ?q)" using sl nu by (auto simp: links_to_def section_label_def intro: exI [of _ 0])
    ultimately show ?thesis by (auto simp: refers_to_def algebra_simps)
  qed
  ultimately have "adjusts e sec f X ?f X2"
    using k k2 m1 m2 ok2 by (auto simp: adjusts_def keeps_fixes_def same_field_def)
  then show ?thesis using g ss q by (auto simp: bindOE_def)
qed

lemma adjust_one_ok:
  assumes r: "reference (fsym X) sec f s a" and ok: "sections_ok e X"
  shows "\<exists>f' X'. adjust_one e sec f X = Some (Inr (f', X')) \<and> adjusts e sec f X f' X'"
proof -
  have R: "\<not> fx_done f" "fx_addsy f = Some s" "fx_subsy f = None" and l: "fixed_label (fsym X) s a"
    using r by (auto simp: reference_def)
  obtain st where g: "resolve_symbol_value (fsym X) s = Some (Inr (a, st))" and k: "keeps_labels (fsym X) st" and m: "mem (sg st) = mem (sg (fsym X))"
    using resolve_label [OF l] by blast
  let ?X = "X\<lparr>fsym := st\<rparr>"
  have l1: "fixed_label st s a" using keeps_label [OF k l] .
  have "follow_equated st s (fx_offset f) = Some (Inr (s, fx_offset f))"
    using l1 by (subst follow_equated.simps) (auto simp: symbol_equated_reloc_p_def S_IS_WEAKREFR_def fixed_label_def)
  then have a: "adjust_one e sec f X = reduce_symbol e sec s f ?X"
    using R g by (simp add: adjust_one_def bindOE_def) (subst addsy_same [OF R(2)], rule refl)
  have r1: "reference (fsym ?X) sec f s a" using reference_keeps [OF k r] by simp
  have ok1: "sections_ok e ?X" using ok k by (auto intro: sections_ok_keeps)
  have kx: "keeps_fixes X ?X" using k by (simp add: keeps_fixes_def)
  have "\<exists>f' X'. reduce_symbol e sec s f ?X = Some (Inr (f', X')) \<and> adjusts e sec f ?X f' X'"
  proof -
    obtain X' where mk: "symbol_mark_used_in_reloc s ?X = Inr X'" "keeps_fixes ?X X'" "mem (sg (fsym X')) = mem (sg (fsym ?X))" "seg_sym X' = seg_sym ?X"
      using mark_used_label [of ?X s a] l1 by auto
    have "adjusts e sec f ?X f X'"
      using mk ok1 r1 by (intro adjusts_same sections_ok_keeps [OF ok1]) (auto simp: keeps_fixes_def)
    moreover have "adjusts e sec f ?X f ?X" using adjusts_same [OF keeps_fixes_refl _ ok1 r1] by simp
    moreover have "\<not> symbol_mri_common_p st s" using l1 by (simp add: symbol_mri_common_p_def fixed_label_def)
    ultimately show ?thesis
      using mk(1) reduce_to_section [OF r1 ok1] by (auto simp: reduce_symbol_def Let_def bindOE_def [of "Some (symbol_mark_used_in_reloc s ?X)"])
  qed
  then obtain f' X' where "reduce_symbol e sec s f ?X = Some (Inr (f', X'))" "adjusts e sec f ?X f' X'" by blast
  moreover from this(2) have "adjusts e sec f X f' X'"
    using kx m refers_to_keeps [OF k] by (auto simp: adjusts_def intro: keeps_fixes_trans)
  ultimately show ?thesis using a by auto
qed

section \<open>The octets of a field\<close>

lemma high_bits_clear:
  fixes d :: u64
  assumes "d AND push_bit k (NOT 0) = 0" "k < 64"
  shows "uint d < 2 ^ k"
proof -
  have "take_bit k d = d"
  proof (rule bit_word_eqI)
    fix m assume m: "m < LENGTH(64)"
    have "\<not> bit d m" if "k \<le> m"
      using arg_cong [OF assms(1), of "\<lambda>w. bit w m"] that m by (simp add: bit_and_iff bit_push_bit_iff bit_not_iff bit_mask_iff)
    then show "bit (take_bit k d) m = bit d m" by (cases "k \<le> m") (auto simp: bit_take_bit_iff)
  qed
  then have "uint d = take_bit k (uint d)" by (metis unsigned_take_bit_eq)
  then show ?thesis by (metis take_bit_int_less_exp)
qed

lemma fits_signed:
  fixes d :: u64
  assumes "d AND push_bit k (NOT 0) = 0 \<or> d AND push_bit k (NOT 0) = push_bit k (NOT 0)" "k < 63"
  shows "- (2 ^ k) \<le> sint d" "sint d < 2 ^ k"
proof -
  have le: "2 ^ k \<le> (2 :: int) ^ 63" using assms(2) by (intro power_increasing) auto
  have small: "0 \<le> sint w \<and> sint w < 2 ^ k" if "uint w < 2 ^ k" for w :: u64
  proof -
    have "- (2 ^ 63) \<le> uint w" "uint w < 2 ^ 63" using that le by (auto intro: order_trans [OF _ uint_ge_0])
    then have "sint w = uint w" by (simp add: sint_uint signed_take_bit_int_eq_self)
    then show ?thesis using that by simp
  qed
  have "- (2 ^ k) \<le> sint d \<and> sint d < 2 ^ k"
  proof (cases "d AND push_bit k (NOT 0) = 0")
    case True
    have "uint d < 2 ^ k" by (rule high_bits_clear [OF True]) (use assms(2) in simp)
    with small [of d] show ?thesis by simp
  next
    case False
    then have "d AND push_bit k (NOT 0) = push_bit k (NOT 0)" using assms(1) by blast
    then have "NOT d AND push_bit k (NOT 0) = 0"
      by (metis bit.conj_cancel_left and.assoc bit.conj_zero_left)
    then have "uint (NOT d) < 2 ^ k" by (rule high_bits_clear) (use assms(2) in simp)
    with small [of "NOT d"] have b: "0 \<le> sint (NOT d)" "sint (NOT d) < 2 ^ k" by simp_all
    have "sint (NOT d) = NOT (sint d)"
    proof -
      have "- (2 ^ 64) \<le> NOT (sint d)" "NOT (sint d) < 2 ^ 64"
        using sint_ge [of d] sint_lt [of d] by (simp_all add: not_eq_complement [of "sint d"])
      then show ?thesis by (simp add: signed_not_eq signed_take_bit_int_eq_self)
    qed
    then have "sint (NOT d) = - sint d - 1" by (simp add: not_eq_complement)
    then show ?thesis using b by simp
  qed
  then show "- (2 ^ k) \<le> sint d" "sint d < 2 ^ k" by auto
qed

lemma written_field:
  assumes "\<not> too_large f d" "fx_size f \<in> {1, 2, 4, 8}"
  shows "le_nat (le_chars (unat (fx_size f)) d) = unat d mod 256 ^ unat (fx_size f)"
    "fx_signed f \<and> \<not> fx_no_overflow f \<or> unat (fx_size f) = 8 \<longrightarrow> signed_field (le_chars (unat (fx_size f)) d) = d"
proof -
  let ?n = "unat (fx_size f)"
  have n: "0 < ?n" "?n \<le> 8" "fx_size f \<noteq> 0" using assms(2) by auto
  show "fx_signed f \<and> \<not> fx_no_overflow f \<or> ?n = 8 \<longrightarrow> signed_field (le_chars ?n d) = d"
  proof
    assume c: "fx_signed f \<and> \<not> fx_no_overflow f \<or> ?n = 8"
    have "- (2 ^ (8 * ?n - 1)) \<le> sint d \<and> sint d < 2 ^ (8 * ?n - 1)"
    proof (cases "?n = 8")
      case True
      then show ?thesis using sint_ge [of d] sint_lt [of d] by simp
    next
      case False
      then have "d AND push_bit (?n * 8 - 1) (NOT 0) = 0 \<or> d AND push_bit (?n * 8 - 1) (NOT 0) = push_bit (?n * 8 - 1) (NOT 0)"
        using assms(1) c n by (auto simp: too_large_def Let_def)
      then show ?thesis using fits_signed [of d "?n * 8 - 1"] False n by (simp add: mult.commute)
    qed
    then show "signed_field (le_chars ?n d) = d" using signed_field_le_chars [of ?n d] n by blast
  qed
qed (rule le_nat_le_chars)

end
