(* ===== verification/Fixed_References.thy ===== *)
theory Fixed_References
  imports Apply_Fix
begin

text \<open>
  What the passes over the fixups achieve: after \<open>adjust_reloc_syms\<close> and \<open>fixup_segment\<close> (\<open>src/gas/write.c\<close>) every reference
  leads to its label, through the octets of its field or through the relocation of \<open>tc_gen_reloc\<close>.
\<close>

section \<open>What a fixup leaves behind\<close>

definition fix_octets :: "target \<Rightarrow> fixup \<Rightarrow> gas \<Rightarrow> byte list" where
  "fix_octets tg f g = octets g (fr_literal tg (fx_frag f) + unat (fx_where f)) (unat (fx_size f))"

definition pcrel_relocs :: "reloc_code set" where
  "pcrel_relocs = {BFD_RELOC_8_PCREL, BFD_RELOC_16_PCREL, BFD_RELOC_32_PCREL, BFD_RELOC_64_PCREL, BFD_RELOC_X86_64_PLT32}"

text \<open>What a relocation must say for a fixup \<open>f\<close> that leads to the address \<open>v\<close>: the linker puts the symbol's address plus
  the addend into the field, less the address of the field when the relocation is relative.\<close>

definition reloc_leads :: "(segT \<Rightarrow> u64) \<Rightarrow> (symP \<Rightarrow> u64) \<Rightarrow> sym_st \<Rightarrow> segT \<Rightarrow> fixup \<Rightarrow> arelent \<Rightarrow> u64 \<Rightarrow> bool" where
  "reloc_leads base ext st sec f rel v \<longleftrightarrow>
     rel_address rel = fr_address (fr st (fx_frag f)) + fx_where f \<and> (rel_code rel \<in> pcrel_relocs \<longleftrightarrow> fx_pcrel f)
   \<and> (\<exists>S. links_to base ext st (rel_sym rel) S
        \<and> S + rel_addend rel - (if fx_pcrel f then base sec + rel_address rel else 0)
          = v - (if fx_pcrel f then base sec + md_pcrel_from st f else 0))"

text \<open>The fixup \<open>f\<close>, now \<open>f'\<close>, leads to the address \<open>v\<close>: either it is done, and the octets of its field are the
  distance from the address behind the field, or the field is clear and \<open>tc_gen_reloc\<close> makes the relocation.\<close>

definition leads :: "target \<Rightarrow> fix_env \<Rightarrow> (segT \<Rightarrow> u64) \<Rightarrow> (symP \<Rightarrow> u64) \<Rightarrow> fix_st \<Rightarrow> segT \<Rightarrow> fixup \<Rightarrow> fixup \<Rightarrow> u64 \<Rightarrow> bool" where
  "leads tg e base ext X sec f f' v \<longleftrightarrow>
     (let n = unat (fx_size f); field = fix_octets tg f (sg (fsym X)); d = v - (base sec + md_pcrel_from (fsym X) f) in
      if fx_done f' then
        fx_pcrel f \<and> le_nat field = unat d mod 256 ^ n
        \<and> (fx_signed f' \<and> \<not> fx_no_overflow f' \<or> n = 8 \<longrightarrow> signed_field field = d)
      else field = replicate n 0
        \<and> (\<exists>rel. tc_gen_reloc tg e sec f' X = Some (Inr (Some rel, f', X)) \<and> reloc_leads base ext (fsym X) sec f rel v))"

definition plain_reloc :: "reloc_code \<Rightarrow> bool" where
  "plain_reloc r \<longleftrightarrow> r \<in> plain_relocs \<or> r = BFD_RELOC_X86_64_PLT32"

lemma plain_reloc_ne:
  assumes "plain_reloc r"
  shows "r = Other_reloc k \<longleftrightarrow> k = 4 \<and> r = BFD_RELOC_X86_64_PLT32" "r \<noteq> BFD_RELOC_VTABLE_INHERIT" "r \<noteq> BFD_RELOC_VTABLE_ENTRY" "r \<noteq> BFD_RELOC_RVA"
  using assms by (auto simp: plain_reloc_def plain_relocs_def BFD_RELOC_X86_64_PLT32_def)

lemma validate_reference:
  assumes "reference st sec f s a" "env64 e"
  shows "\<exists>r. i386_validate_fix e st f = Inr (True, f\<lparr>fx_r_type := r\<rparr>) \<and> reference st sec (f\<lparr>fx_r_type := r\<rparr>) s a"
proof -
  let ?c = "fx_r_type f = BFD_RELOC_X86_64_PLT32 \<and> symbol_section_p st s"
  let ?r = "if ?c then BFD_RELOC_32_PCREL else fx_r_type f"
  have R: "fx_addsy f = Some s" "fx_subsy f = None" "seg_of st s \<noteq> reg_section" "fx_r_type f = BFD_RELOC_X86_64_PLT32 \<Longrightarrow> fx_pcrel f"
    and p: "plain_reloc (fx_r_type f)"
    using assms(1) by (auto simp: reference_def fixed_label_def plain_reloc_def plain_relocs_def BFD_RELOC_X86_64_PLT32_def)
  have "i386_validate_fix e st f = Inr (True, f\<lparr>fx_r_type := ?r\<rparr>)"
    using R assms(2) plain_reloc_ne [OF p] by (simp add: i386_validate_fix_def env64_def)
  moreover have "reference st sec (f\<lparr>fx_r_type := BFD_RELOC_32_PCREL\<rparr>) s a" if ?c
    using assms(1) that by (simp add: reference_def plain_relocs_def BFD_RELOC_X86_64_PLT32_def too_large_def md_pcrel_from_def)
  ultimately show ?thesis using assms(1) by (intro exI [of _ ?r]) simp
qed

text \<open>The two ways of a fixup.\<close>

definition done_now :: "sym_st \<Rightarrow> segT \<Rightarrow> fixup \<Rightarrow> symP \<Rightarrow> bool" where
  "done_now st sec f s \<longleftrightarrow> fx_pcrel f \<and> seg_of st s = sec \<and> \<not> S_FORCE_RELOC st s True"

lemma take_add_local:
  assumes r: "reference st sec f s a" and d: "done_now st sec f s"
  shows "\<exists>st1. take_add sec sec f (fx_offset f) st = Some (Inr (f\<lparr>fx_offset := fx_offset f + a, fx_addsy := None, fx_pcrel := False\<rparr>,
      fx_offset f + a - md_pcrel_from st f, st1)) \<and> keeps_labels st st1 \<and> mem (sg st1) = mem (sg st)"
proof -
  have l: "fixed_label st s a" and R: "fx_addsy f = Some s" "fx_subsy f = None" and p: "plain_reloc (fx_r_type f)"
    using r by (auto simp: reference_def plain_reloc_def)
  obtain st1 where g: "S_GET_VALUE st s = Some (Inr (a, st1))" "keeps_labels st st1" "mem (sg st1) = mem (sg st)"
    using get_label [OF l] by blast
  have "\<not> TC_FORCE_RELOCATION_LOCAL st f"
    using d R plain_reloc_ne [OF p] by (simp add: TC_FORCE_RELOCATION_LOCAL_def generic_force_reloc_def done_now_def)
  moreover have "\<not> S_FORCE_RELOC st s False" using d by (auto simp: S_FORCE_RELOC_def done_now_def)
  ultimately show ?thesis
    using d g R md_pcrel_keeps [OF g(2)] by (simp add: take_add_def bindOE_def done_now_def)
qed

lemma take_add_reloc:
  assumes r: "reference st sec f s a" and d: "\<not> done_now st sec f s"
  shows "take_add sec (seg_of st s) f n st = Some (Inr (f, n, st))"
proof -
  have R: "fx_addsy f = Some s" "fx_subsy f = None" "seg_of st s \<noteq> absolute_section" using r by (auto simp: reference_def)
  have "TC_FORCE_RELOCATION_LOCAL st f" if "seg_of st s = sec"
    using d R that by (auto simp: TC_FORCE_RELOCATION_LOCAL_def generic_force_reloc_def done_now_def)
  then show ?thesis using R by (auto simp: take_add_def)
qed

lemma plain_apply:
  assumes "plain_reloc (fx_r_type f)" "env64 e"
  shows "md_apply_fix tg e seg f value X =
    (let f1 = (if fx_pcrel f then f\<lparr>fx_r_type := pcrel_reloc (fx_r_type f)\<rparr> else f) in
     store_fix tg e f1 (if fx_r_type f = BFD_RELOC_X86_64_PLT32 \<and> fx_addsy f \<noteq> None \<and> fx_pcrel f then - 4 else value) X)"
proof -
  have p: "plain_reloc (pcrel_reloc (fx_r_type f))"
    "pcrel_reloc (fx_r_type f) = BFD_RELOC_X86_64_PLT32 \<longleftrightarrow> fx_r_type f = BFD_RELOC_X86_64_PLT32"
    using assms(1) by (auto simp: plain_reloc_def plain_relocs_def pcrel_reloc_def BFD_RELOC_X86_64_PLT32_def)
  have q: "pcrel_reloc BFD_RELOC_X86_64_PLT32 = BFD_RELOC_X86_64_PLT32"
    by (simp add: pcrel_reloc_def BFD_RELOC_X86_64_PLT32_def)
  have u: "use_rela_relocations e" using assms(2) by (simp add: env64_def)
  show ?thesis
    using u plain_reloc_ne [OF p(1)] plain_reloc_ne [OF assms(1)] p(2)
    by (cases "fx_addsy f") (auto simp: md_apply_fix_def rel_hack_def Let_def q)
qed

definition fix_cells :: "target \<Rightarrow> fixup \<Rightarrow> nat set" where
  "fix_cells tg f = {fr_literal tg (fx_frag f) + unat (fx_where f) ..< fr_literal tg (fx_frag f) + unat (fx_where f) + unat (fx_size f)}"

definition fix_step :: "target \<Rightarrow> fix_env \<Rightarrow> segT \<Rightarrow> fixup \<Rightarrow> fix_st \<Rightarrow> fixup \<Rightarrow> fix_st \<Rightarrow> bool" where
  "fix_step tg e sec f X f' X' \<longleftrightarrow> keeps_fixes X X' \<and> sections_ok e X' \<and> abs_section_sym X' = abs_section_sym X
     \<and> (\<forall>x. x \<notin> fix_cells tg f \<longrightarrow> mem (sg (fsym X')) x = mem (sg (fsym X)) x)
     \<and> (fx_done f' \<or> plain_reloc (fx_r_type f'))
     \<and> (\<forall>base ext v. refers_to base ext (fsym X) f v \<longrightarrow> leads tg e base ext X' sec f f' v)"

definition put_field :: "target \<Rightarrow> fixup \<Rightarrow> u64 \<Rightarrow> fix_st \<Rightarrow> fix_st" where
  "put_field tg f v X = X\<lparr>fsym := (fsym X)\<lparr>sg := poke_list (fr_literal tg (fx_frag f) + unat (fx_where f)) (le_chars (unat (fx_size f)) v) (sg (fsym X))\<rparr>\<rparr>"

lemma put_field_keeps [simp]: "keeps_labels (fsym X) (fsym (put_field tg f v X))" "fix_root (put_field tg f v X) = fix_root X"
    "seg_sym (put_field tg f v X) = seg_sym X" "abs_section_sym (put_field tg f v X) = abs_section_sym X"
  by (simp_all add: put_field_def keeps_labels_mem)

lemma put_field_mem: "x \<notin> fix_cells tg f \<Longrightarrow> mem (sg (fsym (put_field tg f v X))) x = mem (sg (fsym X)) x"
  by (auto simp: put_field_def mem_poke_list fix_cells_def)

lemma put_field_octets: "fix_octets tg f (sg (fsym (put_field tg f v X))) = le_chars (unat (fx_size f)) v"
  using octets_poke_inside [of _ "[]" _ "le_chars (unat (fx_size f)) v"] by (simp add: fix_octets_def put_field_def)

lemma store_plain:
  assumes "env64 e" "fx_size f \<in> {1, 2, 4, 8}"
  shows "store_fix tg e f value X =
    (if fx_addsy f = None
     then Inr (f\<lparr>fx_done := True, fx_signed := (fx_signed f \<or> fx_r_type f = BFD_RELOC_X86_64_32S)\<rparr>, value, put_field tg f value X)
     else Inr (f\<lparr>fx_no_overflow := True, fx_addnumber := value\<rparr>, value, put_field tg f 0 X))"
proof -
  have "uint (fx_size f) \<noteq> 0" using assms(2) by auto
  then show ?thesis
    using assms(1) by (simp add: store_fix_def env64_def number_to_chars_littleendian_def put_field_def)
qed

lemma le_chars_0 [simp]: "le_chars n 0 = replicate n 0"
  by (induction n) (simp_all flip: replicate_Suc)

lemma fix_one_done:
  assumes r: "reference (fsym X) sec f s a" and d: "done_now (fsym X) sec f s" and e: "env64 e" and ok: "sections_ok e X"
  shows "\<exists>f' X'. fix_one tg e sec f X = Some (Inr (f', X')) \<and> fix_step tg e sec f X f' X'"
proof -
  obtain rt where va: "i386_validate_fix e (fsym X) f = Inr (True, f\<lparr>fx_r_type := rt\<rparr>)"
    and rg: "reference (fsym X) sec (f\<lparr>fx_r_type := rt\<rparr>) s a" using validate_reference [OF r e] by blast
  let ?g = "f\<lparr>fx_r_type := rt\<rparr>"
  have dg: "done_now (fsym X) sec ?g s" using d by (simp add: done_now_def)
  have R: "fx_addsy f = Some s" "fx_subsy f = None" "\<not> fx_done f" "seg_of (fsym X) s = sec" "fx_pcrel f"
    and l: "fixed_label (fsym X) s a" and sz: "fx_size f \<in> {1, 2, 4, 8}" and p: "plain_reloc rt"
    and nu: "sec \<noteq> undefined_section"
    using rg d r by (auto simp: reference_def done_now_def plain_reloc_def S_FORCE_RELOC_def)
  let ?n = "fx_offset f + a - md_pcrel_from (fsym X) f"
  let ?g2 = "?g\<lparr>fx_offset := fx_offset f + a, fx_addsy := None, fx_pcrel := False\<rparr>"
  have pg: "md_pcrel_from (fsym X) ?g = md_pcrel_from (fsym X) f" by (simp add: md_pcrel_from_def)
  obtain st1 where ta: "take_add sec sec ?g (fx_offset ?g) (fsym X) = Some (Inr (?g2, ?n, st1))"
    and k1: "keeps_labels (fsym X) st1" and m1: "mem (sg st1) = mem (sg (fsym X))"
    using take_add_local [OF rg dg] pg by auto
  let ?X1 = "X\<lparr>fsym := st1\<rparr>"
  let ?f' = "?g2\<lparr>fx_done := True, fx_signed := (fx_signed f \<or> rt = BFD_RELOC_X86_64_32S)\<rparr>" and ?X' = "put_field tg f ?n ?X1"
  have cells: "put_field tg ?g2 ?n ?X1 = ?X'" by (simp add: put_field_def)
  have ap: "md_apply_fix tg e (Some sec) ?g2 ?n ?X1 = Inr (?f', ?n, ?X')"
    using plain_apply [of ?g2 e] store_plain [of e ?g2] p e sz cells by simp
  have fit: "\<not> too_large ?f' ?n"
    using rg dg pg by (auto simp: reference_def done_now_def too_large_def algebra_simps)
  have fo: "fix_one tg e sec f X = Some (Inr (?f', ?X'))"
    using va ta ap fit R by (simp add: fix_one_def take_sub_def bindOE_def)
  have k: "keeps_labels (fsym X) (fsym ?X')" using keeps_labels_trans [OF k1] put_field_keeps(1) [of ?X1] by simp
  have "leads tg e base ext ?X' sec f ?f' v" if v: "refers_to base ext (fsym X) f v" for base ext v
  proof -
    have "v = base sec + a + fx_offset f"
      using v R nu l by (auto simp: refers_to_def links_to_def dest: fixed_label_unique)
    then have dn: "v - (base sec + md_pcrel_from (fsym ?X') f) = ?n" using md_pcrel_keeps [OF k] by (simp add: algebra_simps)
    have w: "le_nat (le_chars (unat (fx_size f)) ?n) = unat ?n mod 256 ^ unat (fx_size f)"
      "fx_signed ?f' \<and> \<not> fx_no_overflow ?f' \<or> unat (fx_size f) = 8 \<longrightarrow> signed_field (le_chars (unat (fx_size f)) ?n) = ?n"
      using written_field [OF fit] sz by simp_all
    show ?thesis unfolding leads_def Let_def dn put_field_octets using w R(5) by simp
  qed
  moreover have "sections_ok e ?X'" using ok k by (auto intro: sections_ok_keeps)
  moreover have "keeps_fixes X ?X'" using k by (simp add: keeps_fixes_def)
  ultimately have "fix_step tg e sec f X ?f' ?X'" using put_field_mem [of _ tg f ?n ?X1] m1 by (simp add: fix_step_def)
  then show ?thesis using fo by blast
qed

lemma sized_code:
  assumes "fx_size f \<in> {1, 2, 4, 8}"
  shows "\<exists>r. sized_reloc f = Inr r \<and> r \<in> plain_relocs \<and> (r \<in> pcrel_relocs \<longleftrightarrow> fx_pcrel f) \<and> r \<noteq> BFD_RELOC_X86_64_PLT32
    \<and> (\<forall>k. r \<noteq> Other_reloc k)"
  using assms by (auto simp: sized_reloc_def plain_relocs_def pcrel_relocs_def BFD_RELOC_X86_64_PLT32_def)

lemma kept_plain: "plain_reloc r \<Longrightarrow> r \<in> kept_relocs \<longleftrightarrow> r = BFD_RELOC_X86_64_PLT32"
  using plain_reloc_ne [of r] by (auto simp: kept_relocs_def)

text \<open>The relocation of a fixup that was not done.\<close>

lemma plain_reloc_made:
  assumes e: "env64 e" and sz: "fx_size f \<in> {1, 2, 4, 8}" and p: "plain_reloc (fx_r_type f)" and s: "fx_addsy f = Some s"
    and pc: "fx_pcrel f \<Longrightarrow> fx_r_type f \<noteq> BFD_RELOC_X86_64_32S" "fx_r_type f = BFD_RELOC_X86_64_PLT32 \<Longrightarrow> fx_pcrel f"
    and n: "fx_pcrel f \<Longrightarrow> fx_r_type f \<noteq> BFD_RELOC_X86_64_PLT32 \<Longrightarrow> fx_addnumber f = fx_offset f - md_pcrel_from (fsym X) f"
  shows "\<exists>rc. tc_gen_reloc tg e sec f X = Some (Inr (Some \<lparr>rel_sym = s, rel_address = fr_address (fr (fsym X) (fx_frag f)) + fx_where f,
      rel_addend = fx_offset f - (if fx_pcrel f then ucast (fx_size f) else 0), rel_code = rc\<rparr>, f, X)) \<and> (rc \<in> pcrel_relocs \<longleftrightarrow> fx_pcrel f)"
proof -
  have E: "GOT_symbol e = None" "use_rela_relocations e" "\<not> disallow_64bit_reloc e" "sec_vma e sec = 0" "\<forall>r \<in> plain_relocs. howto_known e r"
    "howto_known e BFD_RELOC_X86_64_PLT32" using e by (auto simp: env64_def)
  obtain z where z: "sized_reloc f = Inr z" "z \<in> plain_relocs" "z \<in> pcrel_relocs \<longleftrightarrow> fx_pcrel f" "z \<noteq> BFD_RELOC_X86_64_PLT32" "\<And>k. z \<noteq> Other_reloc k"
    using sized_code [OF sz] by blast
  let ?rc = "if fx_r_type f = BFD_RELOC_X86_64_PLT32 \<or> fx_r_type f = BFD_RELOC_X86_64_32S \<and> \<not> fx_pcrel f then fx_r_type f else z"
  have cd: "(if fx_r_type f \<in> kept_relocs \<or> fx_r_type f = BFD_RELOC_X86_64_32S \<and> \<not> fx_pcrel f then Inr (fx_r_type f) else sized_reloc f) = Inr ?rc"
    using kept_plain [OF p] z(1) by auto
  have rc: "?rc \<in> pcrel_relocs \<longleftrightarrow> fx_pcrel f" "howto_known e ?rc"
    using z pc(2) E by (auto simp: pcrel_relocs_def plain_relocs_def BFD_RELOC_X86_64_PLT32_def)
  have ad: "rela_addend e sec (fsym X) f ?rc = fx_offset f - (if fx_pcrel f then ucast (fx_size f) else 0)"
    using z(4,5) n pc(1) E(4) by (auto simp: rela_addend_def)
  have "make_reloc e sec (fsym X) f ?rc = Inr \<lparr>rel_sym = s, rel_address = fr_address (fr (fsym X) (fx_frag f)) + fx_where f,
      rel_addend = fx_offset f - (if fx_pcrel f then ucast (fx_size f) else 0), rel_code = ?rc\<rparr>"
    using E s rc(2) ad by (simp add: make_reloc_def got_reloc_def deref_def Let_def)
  moreover have "fx_r_type f \<noteq> BFD_RELOC_SIZE32" "fx_r_type f \<noteq> BFD_RELOC_SIZE64" using plain_reloc_ne(1) [OF p] by auto
  ultimately show ?thesis using cd rc(1) by (intro exI [of _ ?rc]) (simp add: tc_gen_reloc_def bindOE_def Let_def)
qed

lemma pcrel_reloc_plain:
  assumes "plain_reloc r"
  shows "plain_reloc (pcrel_reloc r)" "pcrel_reloc r \<noteq> BFD_RELOC_X86_64_32S" "pcrel_reloc r = BFD_RELOC_X86_64_PLT32 \<longleftrightarrow> r = BFD_RELOC_X86_64_PLT32"
  using assms by (auto simp: plain_reloc_def plain_relocs_def pcrel_reloc_def BFD_RELOC_X86_64_PLT32_def)

lemma fix_one_reloc:
  assumes r: "reference (fsym X) sec f s a" and d: "\<not> done_now (fsym X) sec f s" and e: "env64 e" and ok: "sections_ok e X"
  shows "\<exists>f' X'. fix_one tg e sec f X = Some (Inr (f', X')) \<and> fix_step tg e sec f X f' X'"
proof -
  obtain rt where va: "i386_validate_fix e (fsym X) f = Inr (True, f\<lparr>fx_r_type := rt\<rparr>)"
    and rg: "reference (fsym X) sec (f\<lparr>fx_r_type := rt\<rparr>) s a" using validate_reference [OF r e] by blast
  let ?g = "f\<lparr>fx_r_type := rt\<rparr>"
  have R: "fx_addsy f = Some s" "fx_subsy f = None" "\<not> fx_done f" and l: "fixed_label (fsym X) s a" and sz: "fx_size f \<in> {1, 2, 4, 8}"
    and p: "plain_reloc rt" and pl: "rt = BFD_RELOC_X86_64_PLT32 \<Longrightarrow> fx_pcrel f"
    using rg r by (auto simp: reference_def plain_reloc_def plain_relocs_def BFD_RELOC_X86_64_PLT32_def)
  have ta: "take_add sec (seg_of (fsym X) s) ?g (fx_offset ?g) (fsym X) = Some (Inr (?g, fx_offset f, fsym X))"
    using take_add_reloc [OF rg] d by (simp add: done_now_def)
  have pg: "md_pcrel_from st ?g = md_pcrel_from st f" for st by (simp add: md_pcrel_from_def)
  let ?n = "if fx_pcrel f then fx_offset f - md_pcrel_from (fsym X) f else fx_offset f"
  let ?r = "if fx_pcrel f then pcrel_reloc rt else rt" and ?v = "if rt = BFD_RELOC_X86_64_PLT32 then - 4 else ?n"
  let ?f' = "f\<lparr>fx_r_type := ?r, fx_no_overflow := True, fx_addnumber := ?v\<rparr>" and ?X1 = "put_field tg f 0 X"
  have cells: "put_field tg (f\<lparr>fx_r_type := q\<rparr>) 0 X = ?X1" for q by (simp add: put_field_def)
  have ap: "md_apply_fix tg e (Some sec) ?g ?n X = Inr (?f', ?v, ?X1)"
    using plain_apply [of ?g e tg "Some sec" ?n X] store_plain [of e _ tg _ X] p e sz R pl cells by (auto simp: Let_def)
  have l1: "fixed_label (fsym ?X1) s a" using keeps_label [OF put_field_keeps(1) l] .
  obtain X' where mk: "symbol_mark_used_in_reloc s ?X1 = Inr X'" "keeps_fixes ?X1 X'" "mem (sg (fsym X')) = mem (sg (fsym ?X1))"
    "seg_sym X' = seg_sym ?X1" "abs_section_sym X' = abs_section_sym ?X1" using mark_used_label [OF l1] by blast
  have fo: "fix_one tg e sec f X = Some (Inr (?f', X'))"
    using va ta ap R mk(1) pg by (auto simp: fix_one_def take_sub_def bindOE_def mark_reloc_def deref_def too_large_def Let_def)
  have kf: "keeps_fixes X ?X1" by (simp add: keeps_fixes_def)
  then have k: "keeps_labels (fsym X) (fsym X')" using keeps_fixes_trans [OF kf mk(2)] by (simp add: keeps_fixes_def)
  have fld: "fix_octets tg f (sg (fsym X')) = replicate (unat (fx_size f)) 0"
    using put_field_octets [of tg f 0 X] mk(3) by (simp add: fix_octets_def octets_def)
  have "\<exists>rc. tc_gen_reloc tg e sec ?f' X' = Some (Inr (Some \<lparr>rel_sym = s, rel_address = fr_address (fr (fsym X') (fx_frag ?f')) + fx_where ?f',
      rel_addend = fx_offset ?f' - (if fx_pcrel ?f' then ucast (fx_size ?f') else 0), rel_code = rc\<rparr>, ?f', X')) \<and> (rc \<in> pcrel_relocs \<longleftrightarrow> fx_pcrel ?f')"
    by (rule plain_reloc_made [OF e])
      (use sz R p pl pcrel_reloc_plain [OF p] md_pcrel_keeps [OF k, of f] in \<open>auto simp: md_pcrel_from_def split: if_splits\<close>)
  then obtain rc where rel: "tc_gen_reloc tg e sec ?f' X' = Some (Inr (Some \<lparr>rel_sym = s, rel_address = fr_address (fr (fsym X') (fx_frag f)) + fx_where f,
      rel_addend = fx_offset f - (if fx_pcrel f then ucast (fx_size f) else 0), rel_code = rc\<rparr>, ?f', X'))" "rc \<in> pcrel_relocs \<longleftrightarrow> fx_pcrel f"
    by auto
  have "leads tg e base ext X' sec f ?f' v" if v: "refers_to base ext (fsym X) f v" for base ext v
  proof -
    obtain S where S: "links_to base ext (fsym X) s S" "v = S + fx_offset f" using v R(1) by (auto simp: refers_to_def)
    have "links_to base ext (fsym X') s S" using links_to_keeps [OF k S(1)] .
    then have "reloc_leads base ext (fsym X') sec f \<lparr>rel_sym = s, rel_address = fr_address (fr (fsym X') (fx_frag f)) + fx_where f,
        rel_addend = fx_offset f - (if fx_pcrel f then ucast (fx_size f) else 0), rel_code = rc\<rparr> v"
      using rel(2) S(2) by (auto simp: reloc_leads_def md_pcrel_from_def)
    then show ?thesis using fld rel(1) R(3) by (simp add: leads_def)
  qed
  moreover have "sections_ok e X'" using ok k mk(4) by (intro sections_ok_keeps [OF ok k]) simp
  moreover have "keeps_fixes X X'" using keeps_fixes_trans [OF kf mk(2)] .
  ultimately have "fix_step tg e sec f X ?f' X'" using put_field_mem [of _ tg f 0 X] mk(3,5) p pcrel_reloc_plain(1) [OF p] by (simp add: fix_step_def)
  then show ?thesis using fo by blast
qed

section \<open>Passes over the fixups\<close>

text \<open>A pass takes the fixups of a section one after the other.  \<open>result\<close> is what it promises of a fixup, told from the
  state before the pass to any later one, as long as the cells of the fixup's field stay as they are.\<close>

locale fixup_pass =
  fixes pass :: "segT \<Rightarrow> fix_st \<Rightarrow> fix_st result option"
    and step :: "segT \<Rightarrow> fixup \<Rightarrow> fix_st \<Rightarrow> (fixup \<times> fix_st) result option"
    and good :: "fix_st \<Rightarrow> bool"
    and ready :: "segT \<Rightarrow> fix_st \<Rightarrow> fixup \<Rightarrow> bool"
    and cells :: "fixup \<Rightarrow> nat set"
    and result :: "segT \<Rightarrow> fix_st \<Rightarrow> fix_st \<Rightarrow> fixup \<Rightarrow> fixup \<Rightarrow> bool"
  assumes pass_steps: "good X \<Longrightarrow> seg_info (sg (fsym X)) sec \<noteq> None \<Longrightarrow>
      \<exists>X0. pass sec X = bindOE (over_fixes (step sec) (fix_root X sec) X0) (\<lambda>r. Some (Inr (set_fix_root sec r)))
        \<and> keeps_fixes X X0 \<and> good X0 \<and> mem (sg (fsym X0)) = mem (sg (fsym X))"
    and good_root: "good X \<Longrightarrow> good (X\<lparr>fix_root := r\<rparr>)"
    and step_ok: "ready sec X f \<Longrightarrow> good X \<Longrightarrow> \<exists>f' X'. step sec f X = Some (Inr (f', X')) \<and> keeps_fixes X X' \<and> good X'
        \<and> (\<forall>x. x \<notin> cells f \<longrightarrow> mem (sg (fsym X')) x = mem (sg (fsym X)) x) \<and> result sec X X' f f'"
    and ready_later: "keeps_labels (fsym X) (fsym X') \<Longrightarrow> ready sec X f \<Longrightarrow> ready sec X' f"
    and result_later: "result sec X X1 f f' \<Longrightarrow> keeps_labels (fsym X1) (fsym X2) \<Longrightarrow>
        (\<forall>x \<in> cells f. mem (sg (fsym X2)) x = mem (sg (fsym X1)) x) \<Longrightarrow> result sec X X2 f f'"
    and result_earlier: "result sec X1 X2 f f' \<Longrightarrow> keeps_labels (fsym X) (fsym X1) \<Longrightarrow> result sec X X2 f f'"
begin

definition apart :: "fixup list \<Rightarrow> bool" where
  "apart = sorted_wrt (\<lambda>f g. cells f \<inter> cells g = {})"

definition untouched :: "fixup list \<Rightarrow> fix_st \<Rightarrow> fix_st \<Rightarrow> bool" where
  "untouched fs X X' \<longleftrightarrow> (\<forall>x. x \<notin> \<Union> (cells ` set fs) \<longrightarrow> mem (sg (fsym X')) x = mem (sg (fsym X)) x)"

lemma list_result_later:
  assumes "list_all2 (result sec X X1) fs fs'" "keeps_labels (fsym X1) (fsym X2)" "untouched gs X1 X2"
    "\<forall>f \<in> set fs. \<forall>g \<in> set gs. cells f \<inter> cells g = {}"
  shows "list_all2 (result sec X X2) fs fs'"
  using assms(1)
proof (rule list.rel_mono_strong)
  fix f f' assume f: "f \<in> set fs" "result sec X X1 f f'"
  have "\<forall>x \<in> cells f. mem (sg (fsym X2)) x = mem (sg (fsym X1)) x" using assms(3,4) f(1) by (auto simp: untouched_def)
  then show "result sec X X2 f f'" using result_later [OF f(2) assms(2)] by blast
qed

lemma list_result_earlier: "list_all2 (result sec X1 X2) fs fs' \<Longrightarrow> keeps_labels (fsym X) (fsym X1) \<Longrightarrow> list_all2 (result sec X X2) fs fs'"
  by (auto intro: result_earlier elim: list.rel_mono_strong)

lemma steps_ok:
  assumes "good X" "\<forall>f \<in> set fs. ready sec X f" "apart fs"
  shows "\<exists>fs' X'. over_fixes (step sec) fs X = Some (Inr (fs', X')) \<and> keeps_fixes X X' \<and> good X' \<and> untouched fs X X'
    \<and> list_all2 (result sec X X') fs fs'"
  using assms
proof (induction fs arbitrary: X)
  case Nil
  then show ?case by (auto simp: untouched_def)
next
  case (Cons f fs)
  obtain f' X1 where 1: "step sec f X = Some (Inr (f', X1))" and k1: "keeps_fixes X X1" and g1: "good X1"
    and m1: "\<And>x. x \<notin> cells f \<Longrightarrow> mem (sg (fsym X1)) x = mem (sg (fsym X)) x" and r1: "result sec X X1 f f'"
    using step_ok [of sec X f] Cons.prems by auto
  have "\<forall>f \<in> set fs. ready sec X1 f" using Cons.prems k1 ready_later by (auto simp: keeps_fixes_def)
  moreover have "apart fs" using Cons.prems by (simp add: apart_def)
  ultimately obtain fs' X2 where 2: "over_fixes (step sec) fs X1 = Some (Inr (fs', X2))" and k2: "keeps_fixes X1 X2" and g2: "good X2"
    and m2: "untouched fs X1 X2" and r2: "list_all2 (result sec X1 X2) fs fs'"
    using Cons.IH [OF g1] by blast
  have ap: "\<forall>g \<in> set fs. cells f \<inter> cells g = {}" using Cons.prems by (simp add: apart_def)
  have "list_all2 (result sec X X2) [f] [f']"
    using list_result_later [of sec X X1 "[f]" "[f']" X2 fs] r1 k2 m2 ap by (simp add: keeps_fixes_def)
  moreover have "list_all2 (result sec X X2) fs fs'" using list_result_earlier [OF r2] k1 by (simp add: keeps_fixes_def)
  moreover have "untouched (f # fs) X X2" using m1 m2 by (auto simp: untouched_def)
  ultimately show ?case
    using 1 2 g2 keeps_fixes_trans [OF k1 k2] by (intro exI [of _ "f' # fs'"] exI [of _ X2]) (simp add: bindOE_def)
qed

lemma pass_ok:
  assumes "good X" "seg_info (sg (fsym X)) sec \<noteq> None" "\<forall>f \<in> set (fix_root X sec). ready sec X f" "apart (fix_root X sec)"
  shows "\<exists>X'. pass sec X = Some (Inr X') \<and> keeps_labels (fsym X) (fsym X') \<and> good X' \<and> untouched (fix_root X sec) X X'
    \<and> list_all2 (result sec X X') (fix_root X sec) (fix_root X' sec) \<and> (\<forall>q. q \<noteq> sec \<longrightarrow> fix_root X' q = fix_root X q)"
proof -
  obtain X0 where 0: "pass sec X = bindOE (over_fixes (step sec) (fix_root X sec) X0) (\<lambda>r. Some (Inr (set_fix_root sec r)))"
    and k0: "keeps_fixes X X0" and g0: "good X0" and m0: "mem (sg (fsym X0)) = mem (sg (fsym X))" using pass_steps [OF assms(1,2)] by blast
  have "\<forall>f \<in> set (fix_root X sec). ready sec X0 f" using assms(3) k0 ready_later by (auto simp: keeps_fixes_def)
  then obtain fs' X1 where 1: "over_fixes (step sec) (fix_root X sec) X0 = Some (Inr (fs', X1))" and k1: "keeps_fixes X0 X1" and g1: "good X1"
    and m1: "untouched (fix_root X sec) X0 X1" and r1: "list_all2 (result sec X0 X1) (fix_root X sec) fs'"
    using steps_ok [OF g0 _ assms(4)] by blast
  let ?X' = "set_fix_root sec (fs', X1)"
  have s: "fsym ?X' = fsym X1" "fix_root ?X' = (fix_root X)(sec := fs')" using keeps_fixes_trans [OF k0 k1] by (simp_all add: set_fix_root_def keeps_fixes_def)
  have "list_all2 (result sec X ?X') (fix_root X sec) fs'"
    using list_result_later [OF list_result_earlier [OF r1], of X ?X' "[]"] k0 s by (simp add: keeps_fixes_def untouched_def)
  moreover have "good ?X'" using good_root [OF g1] by (simp add: set_fix_root_def)
  moreover have "untouched (fix_root X sec) X ?X'" using m0 m1 s by (simp add: untouched_def)
  moreover have "keeps_labels (fsym X) (fsym ?X')" using keeps_fixes_trans [OF k0 k1] s by (simp add: keeps_fixes_def)
  ultimately show ?thesis using 0 1 s by (intro exI [of _ ?X']) (simp add: bindOE_def)
qed

lemma passes_ok:
  assumes "good X" "distinct secs" "\<forall>sec \<in> set secs. seg_info (sg (fsym X)) sec \<noteq> None \<and> (\<forall>f \<in> set (fix_root X sec). ready sec X f)"
    "apart (concat (map (fix_root X) secs))"
  shows "\<exists>X'. map_over_sections pass secs X = Some (Inr X') \<and> keeps_labels (fsym X) (fsym X') \<and> good X' \<and> untouched (concat (map (fix_root X) secs)) X X'
    \<and> (\<forall>sec \<in> set secs. list_all2 (result sec X X') (fix_root X sec) (fix_root X' sec)) \<and> (\<forall>q. q \<notin> set secs \<longrightarrow> fix_root X' q = fix_root X q)"
  using assms
proof (induction secs arbitrary: X)
  case Nil
  then show ?case by (auto simp: untouched_def)
next
  case (Cons sec secs)
  let ?fs = "fix_root X sec" and ?gs = "concat (map (fix_root X) secs)"
  have ap: "apart ?fs" "apart ?gs" "\<forall>f \<in> set ?fs. \<forall>g \<in> set ?gs. cells f \<inter> cells g = {}"
    using Cons.prems(4) by (auto simp: apart_def sorted_wrt_append)
  obtain X1 where 1: "pass sec X = Some (Inr X1)" and k1: "keeps_labels (fsym X) (fsym X1)" and g1: "good X1" and u1: "untouched ?fs X X1"
    and r1: "list_all2 (result sec X X1) ?fs (fix_root X1 sec)" and o1: "\<And>q. q \<noteq> sec \<Longrightarrow> fix_root X1 q = fix_root X q"
    using pass_ok [OF Cons.prems(1) _ _ ap(1)] Cons.prems(3) by auto
  have "fix_root X1 q = fix_root X q" if "q \<in> set secs" for q using o1 [of q] Cons.prems(2) that by auto
  then have same: "map (fix_root X1) secs = map (fix_root X) secs" by simp
  have "\<forall>q \<in> set secs. seg_info (sg (fsym X1)) q \<noteq> None \<and> (\<forall>f \<in> set (fix_root X1 q). ready q X1 f)"
    using Cons.prems(2,3) o1 keeps_seg_info [OF k1] ready_later [OF k1] by (metis distinct.simps(2) list.set_intros(2))
  then obtain X2 where 2: "map_over_sections pass secs X1 = Some (Inr X2)" and k2: "keeps_labels (fsym X1) (fsym X2)" and g2: "good X2"
    and u2: "untouched ?gs X1 X2" and r2: "\<forall>q \<in> set secs. list_all2 (result q X1 X2) (fix_root X1 q) (fix_root X2 q)"
    and o2: "\<And>q. q \<notin> set secs \<Longrightarrow> fix_root X2 q = fix_root X1 q"
    using Cons.IH [OF g1, unfolded same] Cons.prems(2) ap(2) by auto
  have "list_all2 (result sec X X2) ?fs (fix_root X2 sec)"
    using list_result_later [OF r1 k2 u2 ap(3)] o2 [of sec] Cons.prems(2) by simp
  moreover have "list_all2 (result q X X2) (fix_root X q) (fix_root X2 q)" if "q \<in> set secs" for q
    using list_result_earlier [OF _ k1] r2 that o1 [of q] Cons.prems(2) by (metis distinct.simps(2))
  moreover have "untouched (concat (map (fix_root X) (sec # secs))) X X2" using u1 u2 by (auto simp: untouched_def)
  ultimately show ?case using 1 2 g2 keeps_labels_trans [OF k1 k2] o1 o2 by (intro exI [of _ X2]) (auto simp: bindOE_def)
qed

end

section \<open>The two passes\<close>

definition adjusted :: "segT \<Rightarrow> fix_st \<Rightarrow> fix_st \<Rightarrow> fixup \<Rightarrow> fixup \<Rightarrow> bool" where
  "adjusted sec X X' f f' \<longleftrightarrow> same_field f f' \<and> (\<exists>s a. reference (fsym X') sec f' s a)
     \<and> (\<forall>base ext v. refers_to base ext (fsym X) f v \<longrightarrow> refers_to base ext (fsym X') f' v)"

definition applied :: "target \<Rightarrow> fix_env \<Rightarrow> segT \<Rightarrow> fix_st \<Rightarrow> fix_st \<Rightarrow> fixup \<Rightarrow> fixup \<Rightarrow> bool" where
  "applied tg e sec X X' f f' \<longleftrightarrow> (fx_done f' \<or> plain_reloc (fx_r_type f'))
     \<and> (\<forall>base ext v. refers_to base ext (fsym X) f v \<longrightarrow> leads tg e base ext X' sec f f' v)"

definition is_reference :: "segT \<Rightarrow> fix_st \<Rightarrow> fixup \<Rightarrow> bool" where
  "is_reference sec X f \<longleftrightarrow> (\<exists>s a. reference (fsym X) sec f s a)"

definition abs_ready :: "fix_env \<Rightarrow> fix_st \<Rightarrow> bool" where
  "abs_ready e X \<longleftrightarrow> sections_ok e X \<and> (abs_section_sym X = None \<longrightarrow> seg_info (sg (fsym X)) absolute_section \<noteq> None)"

interpretation adjusting: fixup_pass "adjust_reloc_syms e" "adjust_one e" "sections_ok e" is_reference "\<lambda>_. {}" adjusted
proof
  fix sec f X assume "is_reference sec X f" "sections_ok e X"
  then obtain f' X' where "adjust_one e sec f X = Some (Inr (f', X'))" "adjusts e sec f X f' X'"
    unfolding is_reference_def using adjust_one_ok by blast
  then show "\<exists>f' X'. adjust_one e sec f X = Some (Inr (f', X')) \<and> keeps_fixes X X' \<and> sections_ok e X'
      \<and> (\<forall>x. x \<notin> {} \<longrightarrow> mem (sg (fsym X')) x = mem (sg (fsym X)) x) \<and> adjusted sec X X' f f'"
    by (auto simp: adjusts_def adjusted_def)
next
  fix sec f f' and X X1 X2 :: fix_st assume "adjusted sec X1 X2 f f'" "keeps_labels (fsym X) (fsym X1)"
  then show "adjusted sec X X2 f f'" unfolding adjusted_def using refers_to_keeps by blast
qed (auto simp: adjust_reloc_syms_def sections_ok_def is_reference_def adjusted_def intro: reference_keeps refers_to_keeps)

definition reloc_kind :: "fixup \<Rightarrow> reloc_code result" where
  "reloc_kind f = (if fx_r_type f \<in> kept_relocs \<or> fx_r_type f = BFD_RELOC_X86_64_32S \<and> \<not> fx_pcrel f
     then Inr (fx_r_type f) else sized_reloc f)"

lemma tc_gen_plain:
  assumes "plain_reloc (fx_r_type f)"
  shows "tc_gen_reloc tg e sec f X = Some (case bindE (reloc_kind f) (make_reloc e sec (fsym X) f) of
      Inl x \<Rightarrow> Inl x | Inr rel \<Rightarrow> Inr (Some rel, f, X))"
proof -
  have "fx_r_type f \<noteq> BFD_RELOC_SIZE32" "fx_r_type f \<noteq> BFD_RELOC_SIZE64" using plain_reloc_ne(1) [OF assms] by auto
  moreover have "bindOE (Some m) (\<lambda>rel. Some (Inr (Some rel, f, X))) = Some (case m of Inl x \<Rightarrow> Inl x | Inr rel \<Rightarrow> Inr (Some rel, f, X))"
    for m :: "arelent result" by (cases m) (simp_all add: bindOE_def)
  ultimately show ?thesis by (simp add: tc_gen_reloc_def Let_def reloc_kind_def)
qed

lemma leads_later:
  assumes l: "leads tg e base ext X1 sec f f' v" and p: "fx_done f' \<or> plain_reloc (fx_r_type f')"
    and k: "keeps_labels (fsym X1) (fsym X2)" and m: "\<forall>x \<in> fix_cells tg f. mem (sg (fsym X2)) x = mem (sg (fsym X1)) x"
  shows "leads tg e base ext X2 sec f f' v"
proof -
  have fd: "fix_octets tg f (sg (fsym X2)) = fix_octets tg f (sg (fsym X1))"
    using m by (simp add: fix_octets_def octets_def fix_cells_def)
  have "tc_gen_reloc tg e sec f' X2 = Some (Inr (Some rel, f', X2))"
    if t: "tc_gen_reloc tg e sec f' X1 = Some (Inr (Some rel, f', X1))" and "plain_reloc (fx_r_type f')" for rel
  proof -
    have "rela_addend e sec (fsym X2) f' = rela_addend e sec (fsym X1) f'"
      by (simp add: fun_eq_iff rela_addend_def md_pcrel_keeps [OF k])
    then have "make_reloc e sec (fsym X2) f' = make_reloc e sec (fsym X1) f'"
      by (simp add: fun_eq_iff make_reloc_def Let_def keeps_fr [OF k] cong: if_cong)
    then show ?thesis using t by (auto simp: tc_gen_plain [OF that(2)] split: sum.splits)
  qed
  moreover have "reloc_leads base ext (fsym X2) sec f rel v" if "reloc_leads base ext (fsym X1) sec f rel v" for rel
    using that links_to_keeps [OF k] unfolding reloc_leads_def keeps_fr [OF k] md_pcrel_keeps [OF k] by blast
  ultimately show ?thesis
    using l p fd md_pcrel_keeps [OF k] by (auto simp: leads_def Let_def split: if_splits)
qed


lemma fix_one_ok:
  assumes "is_reference sec X f" "env64 e" "sections_ok e X"
  shows "\<exists>f' X'. fix_one tg e sec f X = Some (Inr (f', X')) \<and> fix_step tg e sec f X f' X'"
  using assms fix_one_done fix_one_reloc unfolding is_reference_def by blast

lemma fix_segment_steps:
  assumes "abs_ready e X" "\<not> linkrelax e" "seg_info (sg (fsym X)) sec \<noteq> None"
  shows "\<exists>X0. fix_segment tg e sec X = bindOE (over_fixes (fix_one tg e sec) (fix_root X sec) X0) (\<lambda>r. Some (Inr (set_fix_root sec r)))
    \<and> keeps_fixes X X0 \<and> abs_ready e X0 \<and> mem (sg (fsym X0)) = mem (sg (fsym X))"
proof (cases "fix_root X sec \<noteq> [] \<and> abs_section_sym X = None")
  case True
  have ok: "sections_ok e X" and si: "seg_info (sg (fsym X)) absolute_section \<noteq> None" using assms(1) True by (auto simp: abs_ready_def)
  obtain s X1 where 1: "section_symbol e absolute_section X = Inr (s, X1)" "keeps_fixes X X1" "mem (sg (fsym X1)) = mem (sg (fsym X))"
    "sections_ok e X1" using section_symbol_ok [OF ok si] by auto
  let ?X0 = "X1\<lparr>abs_section_sym := Some s\<rparr>"
  have "fix_segment tg e sec X = bindOE (over_fixes (fix_one tg e sec) (fix_root X sec) ?X0) (\<lambda>r. Some (Inr (set_fix_root sec r)))"
    using True 1 assms(2,3) by (auto simp: fix_segment_def fixup_segment_def bindOE_def)
  moreover have "keeps_fixes X ?X0" "mem (sg (fsym ?X0)) = mem (sg (fsym X))" using 1(2,3) by (simp_all add: keeps_fixes_def)
  moreover have "abs_ready e ?X0" using 1(4) by (simp add: abs_ready_def sections_ok_def)
  ultimately show ?thesis by blast
next
  case False
  then have "fix_segment tg e sec X = bindOE (over_fixes (fix_one tg e sec) (fix_root X sec) X) (\<lambda>r. Some (Inr (set_fix_root sec r)))"
    using assms(2,3) by (auto simp: fix_segment_def fixup_segment_def bindOE_def)
  then show ?thesis using assms(1) by blast
qed

interpretation applying: fixup_pass "fix_segment tg e" "fix_one tg e" "\<lambda>X. env64 e \<and> abs_ready e X" is_reference "fix_cells tg" "applied tg e"
proof
  fix X sec assume "env64 e \<and> abs_ready e X" "seg_info (sg (fsym X)) sec \<noteq> None"
  then show "\<exists>X0. fix_segment tg e sec X = bindOE (over_fixes (fix_one tg e sec) (fix_root X sec) X0) (\<lambda>r. Some (Inr (set_fix_root sec r)))
      \<and> keeps_fixes X X0 \<and> (env64 e \<and> abs_ready e X0) \<and> mem (sg (fsym X0)) = mem (sg (fsym X))"
    using fix_segment_steps [of e X sec tg] by (auto simp: env64_def)
next
  fix sec X f assume a: "is_reference sec X f" "env64 e \<and> abs_ready e X"
  then obtain f' X' where 1: "fix_one tg e sec f X = Some (Inr (f', X'))" "fix_step tg e sec f X f' X'"
    unfolding abs_ready_def using fix_one_ok by blast
  have "abs_ready e X'" using 1(2) a(2) keeps_seg_info by (auto simp: fix_step_def abs_ready_def keeps_fixes_def)
  then show "\<exists>f' X'. fix_one tg e sec f X = Some (Inr (f', X')) \<and> keeps_fixes X X' \<and> (env64 e \<and> abs_ready e X')
      \<and> (\<forall>x. x \<notin> fix_cells tg f \<longrightarrow> mem (sg (fsym X')) x = mem (sg (fsym X)) x) \<and> applied tg e sec X X' f f'"
    using 1 a(2) by (intro exI [of _ f'] exI [of _ X']) (auto simp: fix_step_def applied_def)
next
  fix sec f f' and X X1 X2 :: fix_st
  assume "applied tg e sec X X1 f f'" "keeps_labels (fsym X1) (fsym X2)" "\<forall>x \<in> fix_cells tg f. mem (sg (fsym X2)) x = mem (sg (fsym X1)) x"
  then show "applied tg e sec X X2 f f'" unfolding applied_def using leads_later by blast
next
  fix sec f f' and X X1 X2 :: fix_st assume "applied tg e sec X1 X2 f f'" "keeps_labels (fsym X) (fsym X1)"
  then show "applied tg e sec X X2 f f'" unfolding applied_def using refers_to_keeps by blast
qed (auto simp: abs_ready_def sections_ok_def is_reference_def intro: reference_keeps)

lemma leads_same_field: "same_field f f1 \<Longrightarrow> leads tg e base ext X sec f1 f' v = leads tg e base ext X sec f f' v"
  by (simp add: same_field_def leads_def reloc_leads_def md_pcrel_from_def fix_octets_def)

lemma cells_same_field: "same_field f f1 \<Longrightarrow> fix_cells tg f1 = fix_cells tg f"
  by (simp add: same_field_def fix_cells_def)

lemma sorted_wrt_same_map:
  assumes "map h xs = map h ys" "sorted_wrt (\<lambda>x y. R (h x) (h y)) xs"
  shows "sorted_wrt (\<lambda>x y. R (h x) (h y)) ys"
  using assms sorted_wrt_map [of R h] by metis

section \<open>An example\<close>

text \<open>A call to a label and the address of the label in a table behind it.\<close>

definition demo_call :: fixup where
  "demo_call = \<lparr>fx_frag = 100, fx_where = 1, fx_size = 4, fx_addsy = Some 0, fx_subsy = None, fx_offset = 0, fx_pcrel = True,
     fx_r_type = BFD_RELOC_X86_64_PLT32, fx_done = False, fx_dot_frag = None, fx_dot_value = 0, fx_addnumber = 0, fx_tcbit = False,
     fx_tcbit2 = False, fx_tcbit3 = False, fx_no_overflow = False, fx_signed = True\<rparr>"

definition demo_quad :: fixup where
  "demo_quad = demo_call\<lparr>fx_where := 5, fx_size := 8, fx_pcrel := False, fx_r_type := BFD_RELOC_64, fx_signed := False\<rparr>"

definition demo_fix_env :: fix_env where
  "demo_fix_env = \<lparr>object_64bit = True, use_rela_relocations = True, disallow_64bit_reloc = False, linkrelax = False, GOT_symbol = None,
     sy_hash = (\<lambda>_. None), sec_merge = (\<lambda>_. False), sec_tls = (\<lambda>_. False), sec_link_once = (\<lambda>_. False), sec_vma = (\<lambda>_. 0),
     bfd_section_size = (\<lambda>_. 0), elf_size = (\<lambda>_. 0), bsf_file = (\<lambda>_. False), bsf_debugging = (\<lambda>_. False), bfd_local = (\<lambda>_. False),
     flag_strip_local_absolute = False, flag_keep_locals = False, flag_mri = False, howto_known = (\<lambda>_. True)\<rparr>"

definition demo_fix_st :: fix_st where
  "demo_fix_st = \<lparr>fsym = demo_cvt\<lparr>finalize_syms := True, sg := (sg demo_cvt)\<lparr>seg_info := \<lambda>_. Some demo_cvt_segment\<rparr>\<rparr>,
     fix_root = (\<lambda>_. [])(text_section := [demo_call, demo_quad]), seg_sym = (\<lambda>_. None), abs_section_sym = None,
     used_in_reloc = (\<lambda>_. False), thread_local = (\<lambda>_. False)\<rparr>"

lemma demo_env64: "env64 demo_fix_env"
  by (simp add: env64_def demo_fix_env_def)

lemma demo_sections: "sections_ok demo_fix_env demo_fix_st"
  by (simp add: sections_ok_def demo_fix_env_def demo_fix_st_def)

lemma demo_fixed_label: "fixed_label (fsym demo_fix_st) 0 3" "seg_of (fsym demo_fix_st) 0 = text_section"
  by (simp_all add: fixed_label_def demo_fix_st_def demo_cvt_def demo_label_def seg_of_def S_GET_SEGMENT_def is_local_def plain_symx_def
      frag_address_def demo_cvt_frags_def zero_frag_def boot_gas_def)

lemma demo_references: "is_reference text_section demo_fix_st demo_call" "is_reference text_section demo_fix_st demo_quad"
proof -
  have "md_pcrel_from (fsym demo_fix_st) demo_call = 5"
    by (simp add: md_pcrel_from_def demo_call_def fr_def demo_fix_st_def demo_cvt_def demo_cvt_frags_def zero_frag_def)
  moreover have "\<not> too_large demo_call (- 2)" by (simp add: too_large_def demo_call_def Let_def mask_eq_exp_minus_1)
  ultimately have "reference (fsym demo_fix_st) text_section demo_call 0 3"
    using demo_fixed_label by (simp add: reference_def demo_call_def too_large_def BFD_RELOC_X86_64_PLT32_def) (simp add: demo_fix_st_def)
  moreover have "reference (fsym demo_fix_st) text_section demo_quad 0 3"
    using demo_fixed_label by (simp add: reference_def demo_quad_def demo_call_def plain_relocs_def) (simp add: demo_fix_st_def)
  ultimately show "is_reference text_section demo_fix_st demo_call" "is_reference text_section demo_fix_st demo_quad"
    by (auto simp: is_reference_def)
qed

section \<open>Properties\<close>

text \<open>C8: When every fixup of the sections refers to a label or an undefined symbol (plus an offset), the fields do not overlap, and the
  distances that can be computed now fit their fields, the two passes over the fixups succeed, and afterwards every fixup leads to the
  address it referred to, wherever the linker puts the sections and the undefined symbols: it is done, and the octets written are the
  distance to the address, or the field is clear and the relocation has the symbol, place, kind and addend with which
  the linker gets there.  Reducing labels to section symbols, calls through the PLT included, does not change this.\<close>

theorem fixups_lead_to_labels:
  assumes "env64 e" "sections_ok e X" "seg_info (sg (fsym X)) absolute_section \<noteq> None" "distinct secs"
    and "\<forall>sec \<in> set secs. seg_info (sg (fsym X)) sec \<noteq> None \<and> (\<forall>f \<in> set (fix_root X sec). is_reference sec X f)"
    and "sorted_wrt (\<lambda>f g. fix_cells tg f \<inter> fix_cells tg g = {}) (concat (map (fix_root X) secs))"
  shows "\<exists>X'. apply_fixups tg e secs X = Some (Inr X')
    \<and> (\<forall>sec \<in> set secs. length (fix_root X' sec) = length (fix_root X sec)
        \<and> (\<forall>i < length (fix_root X sec). \<forall>base ext v. refers_to base ext (fsym X) (fix_root X sec ! i) v
             \<longrightarrow> leads tg e base ext X' sec (fix_root X sec ! i) (fix_root X' sec ! i) v))"
proof -
  obtain X1 where 1: "map_over_sections (adjust_reloc_syms e) secs X = Some (Inr X1)" and k1: "keeps_labels (fsym X) (fsym X1)"
    and ok1: "sections_ok e X1" and r1: "\<And>sec. sec \<in> set secs \<Longrightarrow> list_all2 (adjusted sec X X1) (fix_root X sec) (fix_root X1 sec)"
    using adjusting.passes_ok [OF assms(2,4,5)] by (auto simp: adjusting.apart_def sorted_wrt_true)
  have ready: "\<forall>sec \<in> set secs. seg_info (sg (fsym X1)) sec \<noteq> None \<and> (\<forall>f \<in> set (fix_root X1 sec). is_reference sec X1 f)"
  proof (intro ballI conjI)
    fix sec assume s: "sec \<in> set secs"
    then show "seg_info (sg (fsym X1)) sec \<noteq> None" using assms(5) keeps_seg_info [OF k1] by simp
    fix f assume "f \<in> set (fix_root X1 sec)"
    then show "is_reference sec X1 f" using r1 [OF s] by (auto simp: list_all2_conv_all_nth in_set_conv_nth adjusted_def is_reference_def)
  qed
  have "map (fix_cells tg) (fix_root X sec) = map (fix_cells tg) (fix_root X1 sec)" if "sec \<in> set secs" for sec
    using r1 [OF that] by (auto simp: list_all2_conv_all_nth adjusted_def list_eq_iff_nth_eq cells_same_field)
  then have "map (fix_cells tg) (concat (map (fix_root X) secs)) = map (fix_cells tg) (concat (map (fix_root X1) secs))"
    by (simp add: map_concat cong: map_cong)
  from sorted_wrt_same_map [OF this assms(6)] have ap: "applying.apart tg (concat (map (fix_root X1) secs))" by (simp add: applying.apart_def)
  have g: "env64 e \<and> abs_ready e X1" using assms(1,3) ok1 keeps_seg_info [OF k1] by (simp add: abs_ready_def)
  obtain X2 where 2: "map_over_sections (fix_segment tg e) secs X1 = Some (Inr X2)"
    and r2: "\<And>sec. sec \<in> set secs \<Longrightarrow> list_all2 (applied tg e sec X1 X2) (fix_root X1 sec) (fix_root X2 sec)"
    using applying.passes_ok [OF g assms(4) ready ap] by auto
  have "length (fix_root X2 sec) = length (fix_root X sec)
        \<and> (\<forall>i < length (fix_root X sec). \<forall>base ext v. refers_to base ext (fsym X) (fix_root X sec ! i) v
             \<longrightarrow> leads tg e base ext X2 sec (fix_root X sec ! i) (fix_root X2 sec ! i) v)" if "sec \<in> set secs" for sec
    using r1 [OF that] r2 [OF that] unfolding list_all2_conv_all_nth adjusted_def applied_def by (metis leads_same_field)
  then show ?thesis using 1 2 by (intro exI [of _ X2]) (simp add: apply_fixups_def bindOE_def)
qed

theorem fixups_lead_to_labels_witness:
  "\<exists>X'. apply_fixups sample_target demo_fix_env [text_section] demo_fix_st = Some (Inr X')
     \<and> (\<forall>base ext. leads sample_target demo_fix_env base ext X' text_section demo_call (fix_root X' text_section ! 0) (base text_section + 3)
          \<and> leads sample_target demo_fix_env base ext X' text_section demo_quad (fix_root X' text_section ! 1) (base text_section + 3))"
proof -
  have fs: "fix_root demo_fix_st text_section = [demo_call, demo_quad]" and si: "seg_info (sg (fsym demo_fix_st)) sec \<noteq> None" for sec
    by (simp_all add: demo_fix_st_def)
  have l: "links_to base ext (fsym demo_fix_st) 0 (base text_section + 3)" for base ext
    using demo_fixed_label by (auto simp: links_to_def)
  have ap: "sorted_wrt (\<lambda>f g. fix_cells sample_target f \<inter> fix_cells sample_target g = {}) (concat (map (fix_root demo_fix_st) [text_section]))"
    by (simp add: fs fix_cells_def demo_call_def demo_quad_def)
  have rd: "\<forall>sec \<in> set [text_section]. seg_info (sg (fsym demo_fix_st)) sec \<noteq> None \<and> (\<forall>f \<in> set (fix_root demo_fix_st sec). is_reference sec demo_fix_st f)"
    using demo_references si by (simp add: fs)
  obtain X' where X': "apply_fixups sample_target demo_fix_env [text_section] demo_fix_st = Some (Inr X')"
    "\<And>i base ext v. i < 2 \<Longrightarrow> refers_to base ext (fsym demo_fix_st) ([demo_call, demo_quad] ! i) v
      \<Longrightarrow> leads sample_target demo_fix_env base ext X' text_section ([demo_call, demo_quad] ! i) (fix_root X' text_section ! i) v"
    using fixups_lead_to_labels [OF demo_env64 demo_sections si _ rd ap] fs by auto
  have "refers_to base ext (fsym demo_fix_st) demo_call (base text_section + 3)"
    "refers_to base ext (fsym demo_fix_st) demo_quad (base text_section + 3)" for base ext
    using l by (auto simp: refers_to_def demo_call_def demo_quad_def)
  then show ?thesis using X'(1) X'(2) [of 0] X'(2) [of 1] by auto
qed

end
