(* ===== verification/Cond.thy ===== *)
theory Cond
  imports Fixups
begin

text \<open>
  Conditional assembly (\<open>src/gas/cond.c\<close>): the stack of open conditionals, the directives of the \<open>.if\<close> family,
  \<open>.elseif\<close>, \<open>.else\<close> and \<open>.endif\<close>, and the test whether a line is ignored.  The directives work line by line on
  flags; they are shown to carry out the nested text the lines stand for.
\<close>

section \<open>Frames\<close>

text \<open>A conditional, without the places that are only printed; the chain by \<open>previous_cframe\<close> is a list, the
  innermost conditional first.\<close>

record conditional_frame =
  else_seen :: bool
  ignoring :: bool
  dead_tree :: bool
  macro_nest :: int

type_synonym cframes = "conditional_frame list"

definition is_ignoring :: "cframes \<Rightarrow> bool" where
  "is_ignoring cs \<longleftrightarrow> (case cs of [] \<Rightarrow> False | c # _ \<Rightarrow> ignoring c)"

definition initialize_cframe :: "int \<Rightarrow> cframes \<Rightarrow> conditional_frame" where
  "initialize_cframe nest cs = \<lparr>else_seen = False, ignoring = False, dead_tree = is_ignoring cs, macro_nest = nest\<rparr>"

definition push_cframe :: "int \<Rightarrow> bool \<Rightarrow> cframes \<Rightarrow> cframes" where
  "push_cframe nest ign cs = (let c = initialize_cframe nest cs in c\<lparr>ignoring := dead_tree c \<or> ign\<rparr> # cs)"

section \<open>Operands\<close>

text \<open>The rest of a line is a list of characters; its end is the end of the line.\<close>

definition SKIP_WHITESPACE :: "string \<Rightarrow> string" where
  "SKIP_WHITESPACE s = (case s of c # r \<Rightarrow> if c = CHR '' '' then r else s | [] \<Rightarrow> s)"

text \<open>Behind the opening quote: the copy, with the closing quote, and what follows it; a doubled quote is one.\<close>

fun mri_quoted :: "string \<Rightarrow> string \<times> string" where
  "mri_quoted [] = ([], [])"
| "mri_quoted (c # r) =
     (if c = CHR 0x27
      then (case r of d # r' \<Rightarrow> if d = CHR 0x27 then (let (q, rest) = mri_quoted r' in (c # q, rest)) else ([c], r)
            | [] \<Rightarrow> ([c], []))
      else (let (q, rest) = mri_quoted r in (c # q, rest)))"

definition get_mri_string :: "char \<Rightarrow> string \<Rightarrow> string \<times> string" where
  "get_mri_string terminator line =
     (let s = SKIP_WHITESPACE line in
      if s \<noteq> [] \<and> hd s = CHR 0x27
      then (let (q, rest) = mri_quoted (tl s) in (hd s # q, SKIP_WHITESPACE rest))
      else (let w = takeWhile (\<lambda>c. c \<noteq> terminator) s
            in (rev (dropWhile (\<lambda>c. c = CHR '' '' \<or> c = CHR 0x09) (rev w)), drop (length w) s)))"

text \<open>What \<open>.ifdef\<close> asks of a symbol that is found.\<close>

record named_symbol =
  symbol_is_defined :: bool
  symbol_equated_p :: bool
  in_reg_section :: bool

definition compare_zero :: "operatorT \<Rightarrow> u64 \<Rightarrow> bool result" where
  "compare_zero op v = (case op of
     O_eq \<Rightarrow> Inr (v = 0) | O_ne \<Rightarrow> Inr (v \<noteq> 0) | O_lt \<Rightarrow> Inr (v <s 0)
   | O_le \<Rightarrow> Inr (v \<le>s 0) | O_ge \<Rightarrow> Inr (0 \<le>s v) | O_gt \<Rightarrow> Inr (0 <s v) | _ \<Rightarrow> Inl Abort)"

section \<open>Directives\<close>

text \<open>\<open>operand\<close> is what \<open>expression_and_evaluate\<close> finds now, \<^term>\<open>None\<close> when it is not a constant; a name that is no
  identifier and a syntax error in \<open>.ifeqs\<close> are \<^term>\<open>None\<close>.\<close>

definition s_if :: "int \<Rightarrow> operatorT \<Rightarrow> u64 option \<Rightarrow> cframes \<Rightarrow> cframes result" where
  "s_if nest op operand cs =
     bindE (if is_ignoring cs then Inr 0 else (case operand of None \<Rightarrow> Inl As_bad | Some v \<Rightarrow> Inr v)) (\<lambda>v.
     bindE (compare_zero op v) (\<lambda>t. Inr (push_cframe nest (\<not> t) cs)))"

definition s_ifdef :: "int \<Rightarrow> bool \<Rightarrow> named_symbol option option \<Rightarrow> cframes \<Rightarrow> cframes result" where
  "s_ifdef nest test_defined name cs = (case name of None \<Rightarrow> Inl As_bad
     | Some symbolP \<Rightarrow>
        (let is_defined = (case symbolP of None \<Rightarrow> False
               | Some y \<Rightarrow> (symbol_is_defined y \<or> symbol_equated_p y) \<and> \<not> in_reg_section y)
         in Inr (push_cframe nest (test_defined = is_defined) cs)))"

definition s_ifb :: "int \<Rightarrow> bool \<Rightarrow> string \<Rightarrow> cframes \<Rightarrow> cframes result" where
  "s_ifb nest test_blank line cs =
     (let is_eol = (SKIP_WHITESPACE line = []) in Inr (push_cframe nest (test_blank = (\<not> is_eol)) cs))"

definition s_ifc :: "int \<Rightarrow> bool \<Rightarrow> string \<Rightarrow> cframes \<Rightarrow> cframes result" where
  "s_ifc nest arg line cs =
     (let (s1, r1) = get_mri_string (CHR '','') line in
      if r1 = [] \<or> hd r1 \<noteq> CHR '','' then Inl As_bad
      else (let (s2, r2) = get_mri_string (CHR '';'') (tl r1); res = (s1 = s2) in
            Inr (push_cframe nest (res = arg) cs)))"

definition s_ifeqs :: "int \<Rightarrow> bool \<Rightarrow> (string \<times> string) option \<Rightarrow> cframes \<Rightarrow> cframes result" where
  "s_ifeqs nest arg strings cs = (case strings of None \<Rightarrow> Inl As_bad
     | Some (s1, s2) \<Rightarrow> (let res = (s1 = s2) in Inr (push_cframe nest (res = arg) cs)))"

definition s_elseif :: "operatorT \<Rightarrow> u64 option \<Rightarrow> cframes \<Rightarrow> cframes result" where
  "s_elseif op operand cs = (case cs of [] \<Rightarrow> Inl As_bad
     | c # rest \<Rightarrow>
        if else_seen c then Inl As_bad
        else (let dead = (dead_tree c \<or> \<not> ignoring c); c1 = c\<lparr>dead_tree := dead, ignoring := dead\<rparr> in
          if ignoring c1 then Inr (c1 # rest)
          else (case operand of None \<Rightarrow> Inl As_bad
            | Some v \<Rightarrow> bindE (compare_zero op v) (\<lambda>t. Inr (c1\<lparr>ignoring := dead_tree c1 \<or> \<not> t\<rparr> # rest)))))"

definition s_endif :: "cframes \<Rightarrow> cframes result" where
  "s_endif cs = (case cs of [] \<Rightarrow> Inl As_bad | c # rest \<Rightarrow> Inr rest)"

definition s_else :: "cframes \<Rightarrow> cframes result" where
  "s_else cs = (case cs of [] \<Rightarrow> Inl As_bad
     | c # rest \<Rightarrow>
        if else_seen c then Inl As_bad
        else Inr (c\<lparr>ignoring := dead_tree c \<or> \<not> ignoring c, else_seen := True\<rparr> # rest))"

section \<open>Lines that are ignored\<close>

definition lower :: "char \<Rightarrow> char" where
  "lower c = (let n = of_char c :: nat in if 65 \<le> n \<and> n \<le> 90 then char_of (n + 32) else c)"

definition prefixed :: "string \<Rightarrow> string \<Rightarrow> bool" where
  "prefixed s p \<longleftrightarrow> map lower (take (length p) s) = p"

text \<open>\<open>dot\<close> says whether the character in front of the word is a period.\<close>

definition ignore_input :: "bool \<Rightarrow> string \<Rightarrow> cframes \<Rightarrow> bool" where
  "ignore_input dot s cs =
     (if dot \<and> (prefixed s ''if'' \<or> prefixed s ''else'' \<or> prefixed s ''endif'' \<or> prefixed s ''endc'' \<or> prefixed s ''linefile'')
      then False else is_ignoring cs)"

fun cond_exit_macro :: "int \<Rightarrow> cframes \<Rightarrow> cframes" where
  "cond_exit_macro nest [] = []"
| "cond_exit_macro nest (c # cs) = (if macro_nest c \<ge> nest then cond_exit_macro nest cs else c # cs)"

text \<open>The result says whether an error was reported.\<close>

definition cond_finish_check :: "int \<Rightarrow> cframes \<Rightarrow> bool \<times> cframes" where
  "cond_finish_check nest cs = (case cs of [] \<Rightarrow> (False, cs)
     | c # _ \<Rightarrow> if macro_nest c \<ge> nest then (True, cond_exit_macro nest cs) else (False, cs))"

section \<open>A file with conditionals\<close>

text \<open>The entries of the table of directives that open, continue or close a conditional.\<close>

datatype cond_op =
    Op_if operatorT
  | Op_ifdef bool
  | Op_ifb bool
  | Op_ifc bool
  | Op_ifeqs bool
  | Op_elseif operatorT
  | Op_else
  | Op_endif

definition potable :: "(string \<times> cond_op) list" where
  "potable =
    [(''else'', Op_else), (''elsec'', Op_else), (''elseif'', Op_elseif O_ne), (''endc'', Op_endif), (''endif'', Op_endif),
     (''if'', Op_if O_ne), (''ifb'', Op_ifb True), (''ifc'', Op_ifc False), (''ifdef'', Op_ifdef False), (''ifeq'', Op_if O_eq),
     (''ifeqs'', Op_ifeqs False), (''ifge'', Op_if O_ge), (''ifgt'', Op_if O_gt), (''ifle'', Op_if O_le), (''iflt'', Op_if O_lt),
     (''ifnb'', Op_ifb False), (''ifnc'', Op_ifc True), (''ifndef'', Op_ifdef True), (''ifne'', Op_if O_ne),
     (''ifnes'', Op_ifeqs True), (''ifnotdef'', Op_ifdef True)]"

text \<open>The operand of a directive; what it means may depend on the state \<open>'s\<close> of the assembler.\<close>

datatype 's cond_operand =
    Expression "'s \<Rightarrow> u64 option"
  | Name "('s \<Rightarrow> named_symbol option) option"
  | Rest_of_line string
  | C_strings "(string \<times> string) option"
  | No_operand

definition cond_directive :: "int \<Rightarrow> cond_op \<Rightarrow> 's cond_operand \<Rightarrow> 's \<Rightarrow> cframes \<Rightarrow> cframes result" where
  "cond_directive nest op x s cs = (case (op, x) of
     (Op_if c, Expression e) \<Rightarrow> s_if nest c (e s) cs
   | (Op_ifdef b, Name n) \<Rightarrow> s_ifdef nest b (map_option (\<lambda>f. f s) n) cs
   | (Op_ifb b, Rest_of_line r) \<Rightarrow> s_ifb nest b r cs
   | (Op_ifc b, Rest_of_line r) \<Rightarrow> s_ifc nest b r cs
   | (Op_ifeqs b, C_strings p) \<Rightarrow> s_ifeqs nest b p cs
   | (Op_elseif c, Expression e) \<Rightarrow> s_elseif c (e s) cs
   | (Op_else, No_operand) \<Rightarrow> s_else cs
   | (Op_endif, No_operand) \<Rightarrow> s_endif cs
   | _ \<Rightarrow> Inl As_bad)"

text \<open>A line: a directive of the table with its operand, or any other line, given by the word it starts with.\<close>

datatype ('a, 's) source_line = Directive string "'s cond_operand" | Other bool string 'a

definition read_line ::
  "('a \<Rightarrow> 's \<Rightarrow> 's result) \<Rightarrow> int \<Rightarrow> ('a, 's) source_line \<Rightarrow> cframes \<times> 's \<Rightarrow> (cframes \<times> 's) result" where
  "read_line assemble nest l st = (case st of (cs, s) \<Rightarrow> (case l of
     Directive n x \<Rightarrow>
       if ignore_input True n cs then Inr st
       else (case map_of potable n of None \<Rightarrow> Inl As_bad
         | Some op \<Rightarrow> bindE (cond_directive nest op x s cs) (\<lambda>cs'. Inr (cs', s)))
   | Other dot w a \<Rightarrow> if ignore_input dot w cs then Inr st else bindE (assemble a s) (\<lambda>s'. Inr (cs, s'))))"

primrec read_lines ::
  "('a \<Rightarrow> 's \<Rightarrow> 's result) \<Rightarrow> int \<Rightarrow> ('a, 's) source_line list \<Rightarrow> cframes \<times> 's \<Rightarrow> (cframes \<times> 's) result" where
  "read_lines assemble nest [] st = Inr st"
| "read_lines assemble nest (l # ls) st = bindE (read_line assemble nest l st) (read_lines assemble nest ls)"

section \<open>Nested text\<close>

text \<open>The text a file with matching directives stands for.\<close>

datatype ('a, 's) nested =
    Line bool string 'a
  | If string "'s cond_operand" "('a, 's) nested list" "('a, 's) branch"
and ('a, 's) branch =
    Endif string
  | Else string "('a, 's) nested list" string
  | Elseif "'s \<Rightarrow> u64 option" "('a, 's) nested list" "('a, 's) branch"

primrec lines_of :: "('a, 's) nested \<Rightarrow> ('a, 's) source_line list"
  and lines_of_branch :: "('a, 's) branch \<Rightarrow> ('a, 's) source_line list" where
  "lines_of (Line dot w a) = [Other dot w a]"
| "lines_of (If n x ts b) = Directive n x # concat (map lines_of ts) @ lines_of_branch b"
| "lines_of_branch (Endif n) = [Directive n No_operand]"
| "lines_of_branch (Else m ts n) = Directive m No_operand # concat (map lines_of ts) @ [Directive n No_operand]"
| "lines_of_branch (Elseif e ts b) = Directive ''elseif'' (Expression e) # concat (map lines_of ts) @ lines_of_branch b"

text \<open>Whether a condition holds.\<close>

definition holds :: "cond_op \<Rightarrow> 's cond_operand \<Rightarrow> 's \<Rightarrow> bool result" where
  "holds op x s = (case (op, x) of
     (Op_if c, Expression e) \<Rightarrow> (case e s of None \<Rightarrow> Inl As_bad | Some v \<Rightarrow> compare_zero c v)
   | (Op_ifdef b, Name (Some f)) \<Rightarrow> (case f s of None \<Rightarrow> Inr b
       | Some y \<Rightarrow> Inr (b \<noteq> ((symbol_is_defined y \<or> symbol_equated_p y) \<and> \<not> in_reg_section y)))
   | (Op_ifb b, Rest_of_line r) \<Rightarrow> Inr (b = (SKIP_WHITESPACE r = []))
   | (Op_ifc b, Rest_of_line r) \<Rightarrow> (let (s1, r1) = get_mri_string (CHR '','') r
       in Inr (b \<noteq> (s1 = fst (get_mri_string (CHR '';'') (tl r1)))))
   | (Op_ifeqs b, C_strings (Some (s1, s2))) \<Rightarrow> Inr (b \<noteq> (s1 = s2))
   | _ \<Rightarrow> Inl As_bad)"

text \<open>An operand without syntax error; such an error is reported in ignored text, too.\<close>

definition good_operand :: "cond_op \<Rightarrow> 's cond_operand \<Rightarrow> bool" where
  "good_operand op x \<longleftrightarrow> (case (op, x) of
     (Op_if _, Expression _) \<Rightarrow> True
   | (Op_ifdef _, Name (Some _)) \<Rightarrow> True
   | (Op_ifb _, Rest_of_line _) \<Rightarrow> True
   | (Op_ifc _, Rest_of_line r) \<Rightarrow> (let (_, r1) = get_mri_string (CHR '','') r in r1 \<noteq> [] \<and> hd r1 = CHR '','')
   | (Op_ifeqs _, C_strings (Some _)) \<Rightarrow> True
   | _ \<Rightarrow> False)"

text \<open>Words that are looked at in ignored text.\<close>

definition never_ignored :: "bool \<Rightarrow> string \<Rightarrow> bool" where
  "never_ignored dot w \<longleftrightarrow> dot
     \<and> (prefixed w ''if'' \<or> prefixed w ''else'' \<or> prefixed w ''endif'' \<or> prefixed w ''endc'' \<or> prefixed w ''linefile'')"

primrec good_text :: "('a, 's) nested \<Rightarrow> bool"
  and good_branch :: "('a, 's) branch \<Rightarrow> bool" where
  "good_text (Line dot w a) = (\<not> never_ignored dot w)"
| "good_text (If n x ts b) = ((\<exists>op. map_of potable n = Some op \<and> good_operand op x) \<and> list_all good_text ts \<and> good_branch b)"
| "good_branch (Endif n) = (map_of potable n = Some Op_endif)"
| "good_branch (Else m ts n) = (map_of potable m = Some Op_else \<and> list_all good_text ts \<and> map_of potable n = Some Op_endif)"
| "good_branch (Elseif e ts b) = (list_all good_text ts \<and> good_branch b)"

text \<open>The meaning of nested text: a condition is evaluated where it stands, and one branch is assembled.\<close>

definition in_turn :: "('s \<Rightarrow> 's result) list \<Rightarrow> 's \<Rightarrow> 's result" where
  "in_turn fs = foldr (\<lambda>f k s. bindE (f s) k) fs Inr"

primrec assemble_text :: "('a \<Rightarrow> 's \<Rightarrow> 's result) \<Rightarrow> ('a, 's) nested \<Rightarrow> 's \<Rightarrow> 's result"
  and assemble_branch :: "('a \<Rightarrow> 's \<Rightarrow> 's result) \<Rightarrow> ('a, 's) branch \<Rightarrow> 's \<Rightarrow> 's result" where
  "assemble_text asm (Line dot w a) = asm a"
| "assemble_text asm (If n x ts b) = (\<lambda>s. bindE (holds (the (map_of potable n)) x s) (\<lambda>h.
     if h then in_turn (map (assemble_text asm) ts) s else assemble_branch asm b s))"
| "assemble_branch asm (Endif n) = Inr"
| "assemble_branch asm (Else m ts n) = in_turn (map (assemble_text asm) ts)"
| "assemble_branch asm (Elseif e ts b) = (\<lambda>s. bindE (holds (Op_if O_ne) (Expression e) s) (\<lambda>h.
     if h then in_turn (map (assemble_text asm) ts) s else assemble_branch asm b s))"

section \<open>The directives carry out the nested text\<close>

lemma bindE_assoc: "bindE (bindE m f) g = bindE m (\<lambda>x. bindE (f x) g)"
  by (cases m) simp_all

lemma read_lines_append:
  "read_lines asm nest (xs @ ys) st = bindE (read_lines asm nest xs st) (read_lines asm nest ys)"
proof (induction xs arbitrary: st)
  case (Cons x xs)
  then show ?case by (cases "read_line asm nest x st") simp_all
qed simp

lemma ignore_input_eq: "ignore_input dot w cs \<longleftrightarrow> \<not> never_ignored dot w \<and> is_ignoring cs"
  by (auto simp: ignore_input_def never_ignored_def)

lemma potable_never_ignored: "map_of potable n = Some op \<Longrightarrow> never_ignored True n"
  by (drule map_of_SomeD) (auto simp: potable_def never_ignored_def prefixed_def lower_def)

lemma potable_compares:
  "map_of potable n = Some (Op_if c) \<Longrightarrow> \<exists>t. compare_zero c v = Inr t"
  by (drule map_of_SomeD) (auto simp: potable_def compare_zero_def)

text \<open>What opening a conditional does.\<close>

lemma directive_opens:
  assumes n: "map_of potable n = Some op" and x: "good_operand op x"
  shows "cond_directive nest op x s cs =
    (if is_ignoring cs then Inr (\<lparr>else_seen = False, ignoring = True, dead_tree = True, macro_nest = nest\<rparr> # cs)
     else bindE (holds op x s) (\<lambda>h. Inr (\<lparr>else_seen = False, ignoring = \<not> h, dead_tree = False, macro_nest = nest\<rparr> # cs)))"
proof -
  have push: "push_cframe nest ign cs = \<lparr>else_seen = False, ignoring = is_ignoring cs \<or> ign, dead_tree = is_ignoring cs, macro_nest = nest\<rparr> # cs" for ign
    by (simp add: push_cframe_def initialize_cframe_def Let_def)
  show ?thesis
  proof (cases op)
    case (Op_if c)
    then obtain e where e: "x = Expression e" using x by (cases x) (auto simp: good_operand_def)
    obtain t where "compare_zero c 0 = Inr t" using potable_compares [of n c 0] n Op_if by blast
    then show ?thesis
      by (simp add: Op_if e cond_directive_def s_if_def holds_def push bindE_assoc split: option.split)
  next
    case (Op_ifdef b)
    then obtain f where "x = Name (Some f)" using x by (cases x) (auto simp: good_operand_def split: option.splits)
    then show ?thesis using Op_ifdef
      by (auto simp: cond_directive_def s_ifdef_def holds_def push Let_def split: option.split)
  next
    case (Op_ifb b)
    then obtain r where "x = Rest_of_line r" using x by (cases x) (auto simp: good_operand_def)
    then show ?thesis using Op_ifb by (auto simp: cond_directive_def s_ifb_def holds_def push Let_def)
  next
    case (Op_ifc b)
    then obtain r where "x = Rest_of_line r" using x by (cases x) (auto simp: good_operand_def)
    then show ?thesis using Op_ifc x
      by (auto simp: cond_directive_def s_ifc_def holds_def push Let_def good_operand_def split: prod.splits)
  next
    case (Op_ifeqs b)
    then obtain p where "x = C_strings (Some p)" using x by (cases x) (auto simp: good_operand_def split: option.splits)
    then show ?thesis using Op_ifeqs by (cases p) (auto simp: cond_directive_def s_ifeqs_def holds_def push Let_def)
  qed (use x in \<open>auto simp: good_operand_def\<close>)
qed

definition text_ok :: "('a \<Rightarrow> 's \<Rightarrow> 's result) \<Rightarrow> int \<Rightarrow> ('a, 's) nested \<Rightarrow> bool" where
  "text_ok asm nest t \<longleftrightarrow> good_text t \<longrightarrow> (\<forall>cs s. read_lines asm nest (lines_of t) (cs, s)
     = (if is_ignoring cs then Inr (cs, s) else bindE (assemble_text asm t s) (\<lambda>s'. Inr (cs, s'))))"

definition branch_ok :: "('a \<Rightarrow> 's \<Rightarrow> 's result) \<Rightarrow> int \<Rightarrow> ('a, 's) branch \<Rightarrow> bool" where
  "branch_ok asm nest b \<longleftrightarrow> good_branch b \<longrightarrow> (\<forall>c cs s. \<not> else_seen c \<longrightarrow> (dead_tree c \<longrightarrow> ignoring c)
     \<longrightarrow> (is_ignoring cs \<longrightarrow> dead_tree c) \<longrightarrow> read_lines asm nest (lines_of_branch b) (c # cs, s)
       = (if ignoring c \<and> \<not> dead_tree c then bindE (assemble_branch asm b s) (\<lambda>s'. Inr (cs, s')) else Inr (cs, s)))"

lemma texts_ok:
  assumes "\<forall>t \<in> set ts. text_ok asm nest t" "list_all good_text ts"
  shows "read_lines asm nest (concat (map lines_of ts)) (cs, s)
    = (if is_ignoring cs then Inr (cs, s) else bindE (in_turn (map (assemble_text asm) ts) s) (\<lambda>s'. Inr (cs, s')))"
  using assms
proof (induction ts arbitrary: s)
  case Nil
  then show ?case by (simp add: in_turn_def)
next
  case (Cons t ts)
  have t: "read_lines asm nest (lines_of t) (cs, s)
      = (if is_ignoring cs then Inr (cs, s) else bindE (assemble_text asm t s) (\<lambda>s'. Inr (cs, s')))"
    using Cons.prems by (simp add: text_ok_def)
  have IH: "read_lines asm nest (concat (map lines_of ts)) (cs, s')
    = (if is_ignoring cs then Inr (cs, s') else bindE (in_turn (map (assemble_text asm) ts) s') (\<lambda>s'. Inr (cs, s')))" for s'
    using Cons.IH Cons.prems by simp
  show ?case
    by (cases "is_ignoring cs") (simp_all add: read_lines_append t IH bindE_assoc, simp add: in_turn_def bindE_assoc)
qed

lemma read_directive:
  assumes "map_of potable n = Some op"
  shows "read_lines asm nest (Directive n x # ls) (cs, s)
    = bindE (cond_directive nest op x s cs) (\<lambda>cs'. read_lines asm nest ls (cs', s))"
  using potable_never_ignored [OF assms] assms by (simp add: read_line_def ignore_input_eq bindE_assoc)

lemma read_endif:
  "map_of potable n = Some Op_endif \<Longrightarrow> read_lines asm nest [Directive n No_operand] (c # cs, s) = Inr (cs, s)"
  using read_directive [of n Op_endif asm nest No_operand "[]" "c # cs" s]
  by (simp add: cond_directive_def s_endif_def del: read_lines.simps(2))

text \<open>The text of a branch and what follows it.\<close>

lemma body_then_branch:
  assumes ts: "\<forall>t \<in> set ts. text_ok asm nest t" "list_all good_text ts" and b: "branch_ok asm nest b" "good_branch b"
    and c: "\<not> else_seen c" "dead_tree c \<longrightarrow> ignoring c" "is_ignoring cs \<longrightarrow> dead_tree c"
  shows "read_lines asm nest (concat (map lines_of ts) @ lines_of_branch b) (c # cs, s)
      = (if dead_tree c then Inr (cs, s) else if ignoring c then bindE (assemble_branch asm b s) (\<lambda>s'. Inr (cs, s'))
         else bindE (in_turn (map (assemble_text asm) ts) s) (\<lambda>s'. Inr (cs, s')))"
proof -
  have B: "read_lines asm nest (lines_of_branch b) (c # cs, s)
    = (if ignoring c \<and> \<not> dead_tree c then bindE (assemble_branch asm b s) (\<lambda>s'. Inr (cs, s')) else Inr (cs, s))" for s
    using b c by (simp add: branch_ok_def)
  show ?thesis
    using c(2) unfolding read_lines_append texts_ok [OF ts]
    by (cases "ignoring c") (simp_all add: B is_ignoring_def bindE_assoc)
qed

lemma text_and_branch_ok: "text_ok asm nest t" "branch_ok asm nest b"
proof (induction t and b)
  case (Line dot w a)
  then show ?case by (auto simp: text_ok_def read_line_def ignore_input_eq bindE_assoc)
next
  case (If n x ts b)
  show ?case
    unfolding text_ok_def
  proof (intro impI allI)
    fix cs s assume g: "good_text (If n x ts b)"
    then obtain op where op: "map_of potable n = Some op" "good_operand op x" by auto
    have tsg: "list_all good_text ts" "good_branch b" using g by simp_all
    note rest = body_then_branch [OF ballI [OF If.IH(1)] tsg(1) If.IH(2) tsg(2)]
    show "read_lines asm nest (lines_of (If n x ts b)) (cs, s)
      = (if is_ignoring cs then Inr (cs, s) else bindE (assemble_text asm (If n x ts b) s) (\<lambda>s'. Inr (cs, s')))"
    proof (cases "is_ignoring cs")
      case True
      then show ?thesis unfolding lines_of.simps read_directive [OF op(1)] directive_opens [OF op] by (simp add: rest)
    next
      case False
      then show ?thesis
        unfolding lines_of.simps read_directive [OF op(1)] directive_opens [OF op]
        by (cases "holds op x s") (auto simp: rest op(1))
    qed
  qed
next
  case (Endif n)
  show ?case
    unfolding branch_ok_def by (auto simp: read_endif simp del: read_lines.simps)
next
  case (Else m ts n)
  show ?case
    unfolding branch_ok_def
  proof (intro impI allI)
    fix c :: conditional_frame and cs s
    assume g: "good_branch (Else m ts n)" and c: "\<not> else_seen c" "dead_tree c \<longrightarrow> ignoring c" "is_ignoring cs \<longrightarrow> dead_tree c"
    have ts: "read_lines asm nest (concat (map lines_of ts)) (cs, s)
      = (if is_ignoring cs then Inr (cs, s) else bindE (in_turn (map (assemble_text asm) ts) s) (\<lambda>s'. Inr (cs, s')))" for cs s
      using texts_ok [of ts asm nest] Else.IH g by simp
    have e: "read_lines asm nest [Directive n No_operand] (c' # cs, s) = Inr (cs, s)" for c' s using g by (simp add: read_endif del: read_lines.simps)
    show "read_lines asm nest (lines_of_branch (Else m ts n)) (c # cs, s)
      = (if ignoring c \<and> \<not> dead_tree c then bindE (assemble_branch asm (Else m ts n) s) (\<lambda>s'. Inr (cs, s')) else Inr (cs, s))"
      using g c e unfolding lines_of_branch.simps
      by (auto simp: read_directive [where op = Op_else] cond_directive_def s_else_def read_lines_append ts is_ignoring_def [of "_ # _"] bindE_assoc
          simp del: read_lines.simps)
  qed
next
  case (Elseif e ts b)
  show ?case
    unfolding branch_ok_def
  proof (intro impI allI)
    fix c :: conditional_frame and cs s
    assume g: "good_branch (Elseif e ts b)" and c: "\<not> else_seen c" "dead_tree c \<longrightarrow> ignoring c" "is_ignoring cs \<longrightarrow> dead_tree c"
    have tsg: "list_all good_text ts" "good_branch b" using g by simp_all
    note rest = body_then_branch [OF ballI [OF Elseif.IH(1)] tsg(1) Elseif.IH(2) tsg(2)]
    have el: "map_of potable ''elseif'' = Some (Op_elseif O_ne)" by (simp add: potable_def)
    show "read_lines asm nest (lines_of_branch (Elseif e ts b)) (c # cs, s)
      = (if ignoring c \<and> \<not> dead_tree c then bindE (assemble_branch asm (Elseif e ts b) s) (\<lambda>s'. Inr (cs, s')) else Inr (cs, s))"
    proof (cases "ignoring c \<and> \<not> dead_tree c")
      case True
      then have nc: "\<not> is_ignoring cs" using c by simp
      have "cond_directive nest (Op_elseif O_ne) (Expression e) s (c # cs)
        = bindE (holds (Op_if O_ne) (Expression e) s) (\<lambda>h. Inr (c\<lparr>dead_tree := False, ignoring := \<not> h\<rparr> # cs))"
        using True c(1) by (simp add: cond_directive_def s_elseif_def holds_def compare_zero_def Let_def split: option.split)
      then show ?thesis
        unfolding lines_of_branch.simps read_directive [OF el] using True nc
        by (cases "holds (Op_if O_ne) (Expression e) s") (simp_all add: rest c)
    next
      case False
      then have "cond_directive nest (Op_elseif O_ne) (Expression e) s (c # cs) = Inr (c\<lparr>dead_tree := True, ignoring := True\<rparr> # cs)"
        using c by (auto simp: cond_directive_def s_elseif_def Let_def)
      then show ?thesis unfolding lines_of_branch.simps read_directive [OF el] using False by (auto simp: rest c)
    qed
  qed
qed

lemma file_ok:
  assumes "list_all good_text ts"
  shows "read_lines asm nest (concat (map lines_of ts)) ([], s)
    = bindE (in_turn (map (assemble_text asm) ts) s) (\<lambda>s'. Inr ([], s'))"
  unfolding texts_ok [OF ballI [OF text_and_branch_ok(1)] assms] by (simp add: is_ignoring_def)

section \<open>Properties\<close>

text \<open>C14: Reading a file line by line with the stack of conditionals does what the nested text says: of each
  conditional the first branch whose condition holds, or the branch of \<open>.else\<close>, is assembled, conditions are
  evaluated only where they are reached, an error of an assembled line or of an evaluated condition is the
  error of the file, nothing else is assembled, and no conditional is left open at the end.\<close>

theorem conditionals_as_nested:
  assumes "list_all good_text ts"
  shows "read_lines assemble nest (concat (map lines_of ts)) ([], s)
      = bindE (in_turn (map (assemble_text assemble) ts) s) (\<lambda>s'. Inr ([], s'))
    \<and> (\<forall>cs s'. read_lines assemble nest (concat (map lines_of ts)) ([], s) = Inr (cs, s') \<longrightarrow> cond_finish_check (- 1) cs = (False, cs))"
  unfolding file_ok [OF assms] by (cases "in_turn (map (assemble_text assemble) ts) s") (simp_all add: cond_finish_check_def)

text \<open>Two lines behind a condition that does not hold, with a conditional that is skipped inside.\<close>

definition demo_text :: "(nat, nat list) nested list" where
  "demo_text = [Line False ''nop'' 1,
     If ''if'' (Expression (\<lambda>_. Some 0)) [If ''ifdef'' (Name (Some (\<lambda>_. None))) [Line False ''nop'' 2] (Endif ''endif'')]
       (Elseif (\<lambda>s. Some (of_nat (length s))) [Line False ''nop'' 3] (Else ''else'' [Line False ''nop'' 4] ''endif''))]"

theorem conditionals_as_nested_witness:
  "read_lines (\<lambda>a s. Inr (s @ [a])) 0 (concat (map lines_of demo_text)) ([], []) = Inr ([], [1, 3])"
proof -
  have "list_all good_text demo_text"
    by (simp add: demo_text_def potable_def good_operand_def never_ignored_def)
  from conditionals_as_nested [OF this, of "\<lambda>a s. Inr (s @ [a])" 0 "[]"] show ?thesis
    by (simp add: demo_text_def in_turn_def holds_def potable_def compare_zero_def)
qed

end
