(* ===== verification/Spec2Isabelle.thy ===== *)
theory Spec2Isabelle
  imports Pipeline Hooks Leb128 Relax_Segment Bbinfo Mpk_Xom Fixed_References Cond
begin

text \<open>
  Verification of AsmXoM: an assembler (GNU binutils 2.44) that keeps a record of data embedded in code
  (\<open>--fiy-dcollect\<close>) and can move that data out of the code (\<open>--fiy-dsplit\<close>), so that code can be mapped
  execute-only.

  \<^bold>\<open>The program.\<close>  The assembler reads a file statement by statement.  Each statement writes octets into
  the current \<^emph>\<open>frag\<close>, a header with a growing tail that lives in an obstack; the frags of a subsegment form a
  linked chain, and fixups remember where values are still missing.  The collector hooks into labels,
  data directives, alignment requests, function directives and instructions: it opens a new frag
  where data may begin, marks frags that hold instructions or padding, and marks the symbols that
  instructions jump to.  When the file has been read, \<open>parse_symbols\<close> and \<open>parse_frags_for_test\<close> write one
  entry for each frag of embedded data to the section \<open>.xomtwo\<close>, and \<open>split_text_frags\<close> moves these frags to
  \<open>.xom_data\<close>.  The tool \<open>datadump\<close> reads the section of the linked file back.

  \<^bold>\<open>The theories\<close>, each with the sources it models:

  \<^item> \<open>Gas_Prelude\<close>: words, results (\<open>gas_error + 'a\<close>; a failed assertion, \<open>abort\<close>, \<open>as_bad\<close> and \<open>as_fatal\<close> are
    values), octet encodings (\<open>number_to_chars_*\<close> of \<open>src/gas/write.c\<close>), linked lists over a store.
  \<^item> \<open>Obstack\<close>: \<open>src/libiberty/obstack.c\<close>, \<open>src/include/obstack.h\<close>; \<open>malloc\<close> is a parameter with the law that
    chunks do not overlap.
  \<^item> \<open>Gas_State\<close>: frags, symbols, fixups, segments and the variables of the run as the record \<open>gas\<close>
    (\<open>src/gas/frags.h\<close>, \<open>subsegs.h\<close>, \<open>write.h\<close>, \<open>symbols.c\<close>).
  \<^item> \<open>Frags\<close>, \<open>Contents\<close>: \<open>src/gas/frags.c\<close>, every operation; \<open>Contents\<close> says which octets a chain holds.
  \<^item> \<open>Subsegs\<close>: \<open>src/gas/subsegs.c\<close>; the invariant of all chains (\<open>chains_inv\<close>).
  \<^item> \<open>Symbols\<close>: the accessors, the symbol chain and the list of labels of \<open>src/gas/symbols.c\<close>; interface \<open>append_list\<close>.
  \<^item> \<open>Fixups\<close>: fixups and the emission of values (\<open>src/gas/write.c\<close>, \<open>read.c\<close>, \<open>expr.c\<close>).
  \<^item> \<open>Split\<close>: \<open>split_text_frags\<close> of \<open>src/gas/write.c\<close>, refined to the list function \<open>split_spec\<close>.
  \<^item> \<open>Codec\<close>, \<open>Datadump\<close>: the packed structures of \<open>src/gas/datascope.h\<close> (interface \<open>fixed_codec\<close>) and
    \<open>src/datadump/datadump.c\<close>.
  \<^item> \<open>Datascope\<close>: \<open>src/gas/datascope.c\<close> and the passes of \<open>src/gas/write.c\<close> that write the metadata; the
    loop over the frags is verified once, for the interface \<open>entry_sink\<close>, and interpreted for both layouts.
  \<^item> \<open>Pipeline\<close>: assembler, linker (filling in addresses) and reader together.
  \<^item> \<open>Emission\<close>, \<open>Insn\<close>, \<open>Insn_Effect\<close>, \<open>Encoding\<close>: \<open>output_insn\<close> of \<open>src/gas/config/tc-i386.c\<close>; \<open>appends\<close> is
    the calculus of routines that write to the current chain.
  \<^item> \<open>Hooks\<close>: labels, data, alignment and functions (\<open>src/gas/symbols.c\<close>, \<open>read.c\<close>, \<open>config/obj-elf.c\<close>) and runs of
    the assembler as an inductive predicate.
  \<^item> \<open>Leb128\<close>: LEB128 numbers, small and big, and the directives (\<open>src/gas/read.c\<close>).
  \<^item> \<open>Resolve\<close>: the values of symbols (\<open>resolve_symbol_value\<close>, \<open>S_GET_VALUE\<close> of \<open>src/gas/symbols.c\<close>), with an evaluation
    \<open>sem\<close> of expressions as reference.
  \<^item> \<open>Relax\<close>, \<open>Layout\<close>, \<open>Relax_Segment\<close>: \<open>relax_segment\<close> of \<open>src/gas/write.c\<close> with the jumps of \<open>src/gas/config/tc-i386.c\<close>;
    \<open>Layout\<close> has the invariant of a pass, \<open>Relax_Segment\<close> the first guess and the whole.
  \<^item> \<open>Nops\<close>, \<open>Convert\<close>: \<open>i386_generate_nops\<close>, \<open>md_convert_frag\<close> (\<open>src/gas/config/tc-i386.c\<close>), \<open>cvt_frag_to_fill\<close>, \<open>size_seg\<close> and
    \<open>write_contents\<close> (\<open>src/gas/write.c\<close>): from the layout to the octets of a section.
  \<^item> \<open>Apply_Fix\<close>, \<open>Fixed_References\<close>: the passes over the fixups (\<open>adjust_reloc_syms\<close>, \<open>fixup_segment\<close> of \<open>src/gas/write.c\<close>,
    \<open>md_apply_fix\<close>, \<open>tc_gen_reloc\<close> of \<open>src/gas/config/tc-i386.c\<close>); the loops are verified once, for the interface \<open>fixup_pass\<close>.
  \<^item> \<open>Bbinfo\<close>: the basic blocks of instrumented and handwritten code (\<open>src/gas/bbInfoHandle.c\<close>).
  \<^item> \<open>Cond\<close>: conditional assembly (\<open>src/gas/cond.c\<close>), with nested text as reference.
  \<^item> \<open>Mpk_Xom\<close>: the constructor that makes code execute-only at run time (\<open>src/xom-tools/mpk_xom.c\<close>).
  \<^item> this theory: the way from the statements of a file to the split.

  \<^bold>\<open>What is shown.\<close>  The chains of all subsegments stay well formed and disjoint (\<open>Subsegs\<close>); making room never
  changes octets, and what is written is found again (\<open>Contents\<close>, \<open>Emission\<close>, \<open>Encoding\<close>); the marks of the collector are
  right after any sequence of statements (\<open>Hooks\<close>); the split moves exactly the embedded data, keeps the
  order, fails no assertion (\<open>Split\<close>) and never moves an instruction (below); the metadata that is written is the
  metadata that is read (\<open>Datascope\<close>, \<open>Datadump\<close>, \<open>Pipeline\<close>).  Behind the split: symbols have the values of their
  expressions (\<open>Resolve\<close>), relaxation ends with a consistent layout (\<open>Relax_Segment\<close>), a converted jump leads to its label
  and the octets of every frag are written at its address (\<open>Convert\<close>), padding of code is run through to its end
  (\<open>Nops\<close>), and every fixup leads to the address it refers to, by the octets written or by its relocation
  (\<open>Fixed_References\<close>).  Beside it: blocks and their fixups are kept in order and have the size of their instructions
  (\<open>Bbinfo\<close>), conditionals do what the nested text says (\<open>Cond\<close>), and at run time no selected code page can be read
  (\<open>Mpk_Xom\<close>).  Where the code does not do what it means to do there is
  a theorem that says so: data behind a jump is not found, \<open>.p2align 0\<close> makes the split move code, the split
  without the collector moves code, an anchor label stays behind, an address can look like a header,
  two of the counters are never changed.

  \<^bold>\<open>Bounds and fuel.\<close>  Addresses are natural numbers, sizes and counters of the code are words of their width
  (64-bit host).  The loop of \<open>frag_grow\<close> has fuel for each octet of room that could be used up and three more
  rounds; \<open>Subsegs.frag_more_reserves\<close> shows that this is enough.  The other loops over chains are
  \<open>partial_function\<close>s, and their termination is part of the theorems.  Requests of room are bounded by
  \<open>0x10000\<close> octets in \<open>Emission\<close>; the code never asks for more there.  The passes of \<open>relax_segment\<close> are counted down from
  the square of the number of frags, as in the code.

  \<^bold>\<open>Not modelled.\<close>  The scanner and the parser of expressions and operands, the matching of templates (their
  results are arguments); macros, options and listings; the log files, warnings and the printed table; other object
  formats, other processors, 32-bit code; branch alignment (\<open>-malign-branch\<close>), broken words and MRI mode; the frags of debugging
  information (\<open>rs_cfa\<close>, \<open>rs_dwarf2dbg\<close>, \<open>rs_sframe\<close>), which are an error value; where \<open>fx_signed\<close> and the target bits of fixups are set
  (they are fields of \<open>Apply_Fix\<close>), the handing of relocations to BFD, common sections; the count of operand fixups in a basic block; \<open>fr_opcode\<close> is computed from the
  fixed size of a jump, where \<open>output_branch\<close> puts it; BFD (a write it refuses included), the opcode tables and the linker but for
  the value of an address relocation.  A diagnostic by \<open>as_bad\<close> is the error of the operation: what the assembler does to go on
  behind it is not followed.
\<close>

section \<open>From the statements of the file to the split\<close>

text \<open>The text chain \<open>rs\<close> of the split is the chain \<open>ids\<close> of the assembled file with further frags behind it
  (the closing of subsegments), and the frags of the file keep their marks; all but the last keep their size too.\<close>

definition closed_as :: "gas \<Rightarrow> fragP list \<Rightarrow> fragP list \<Rightarrow> split_st \<Rightarrow> bool" where
  "closed_as g ids rs st \<longleftrightarrow> (\<exists>extra. rs = ids @ extra \<and> (\<forall>p \<in> set extra. unlabelled (sp_frags st p)))
   \<and> (\<forall>p \<in> set ids. fr_flags (sp_frags st p) = fr_flags (frags g p) \<and> frag_symbol (sp_frags st p) = frag_symbol (frags g p)
        \<and> frag_anchor (sp_frags st p) = frag_anchor (frags g p))
   \<and> (\<forall>p \<in> set (butlast ids). fr_fix (sp_frags st p) = fr_fix (frags g p))"

lemma closed_as_safe:
  assumes "marks_ok tg g C ids" and "closed_as g ids rs st" and "\<not> em_of st (last rs)"
    and "\<And>s. \<not> section_sym (sp_syms st s)"
  shows "split_safe (sp_syms st) (sp_frags st) rs"
  using assms by (auto simp: split_safe_def closed_as_def marks_ok_def labels_ok_def unlabelled_def)

text \<open>An instruction frag with octets is neither data nor an alignment frag.\<close>

lemma closed_as_code:
  assumes m: "marks_ok tg g C ids" and c: "closed_as g ids rs st" and p: "p \<in> C" "fr_fix (sp_frags st p) \<noteq> 0"
  shows "\<not> em_of st p" and "\<not> al_of st p"
proof -
  have i: "p \<in> set ids" "insn_frag (fr_flags (frags g p))" using m p(1) by (auto simp: marks_ok_def)
  then have f: "fr_flags (sp_frags st p) = fr_flags (frags g p)" using c by (auto simp: closed_as_def)
  then show "\<not> em_of st p" using i by (simp add: embedded_def)
  have "p \<in> set (butlast ids) \<or> p = last ids"
    using i(1) by (cases ids rule: rev_cases) auto
  then show "\<not> al_of st p" using m c f p(2) by (auto simp: marks_ok_def closed_as_def)
qed



section \<open>Where marks and content differ\<close>

text \<open>C30: \<open>.p2align 0\<close> marks the current frag as an alignment frag without making one, so that an
  instruction behind it is written to a frag marked as alignment and as instruction; when the frag behind
  is data, the split moves both, and the instruction leaves the text.\<close>

theorem align_zero_moves_code:
  assumes "assembled se a C" and "do_align (tgt se) (text_p se) 0 fill len mx (gs a) = Inr g1" and "insn_ok i"
    and "output_insn (tgt se) (plt_p se) i g1 = Some (Inr g2)"
  shows "align_frag (fr_flags (frags g2 (frag_now g1))) \<and> insn_frag (fr_flags (frags g2 (frag_now g1)))
    \<and> frag_now g1 \<in> written_frags g1 g2
    \<and> (\<forall>em q zs. em q \<longrightarrow> frag_now g1 \<in> set (snd (split_spec (\<lambda>p. align_frag (fr_flags (frags g2 p))) em (frag_now g1 # q # zs))))"
proof -
  obtain g fc ids bs where g: "g1 = upd_frag (frag_now g) (\<lambda>f. f\<lparr>fr_flags := fr_flags f\<lparr>align_frag := True\<rparr>\<rparr>) g"
    "run_ok (tgt se) (a\<lparr>gs := g\<rparr>) C" "content_inv (tgt se) g fc ids bs"
    using align_hook_spec [OF assembled_run_ok [OF assms(1)], of g1] assms(2) by (auto simp: do_align_def Let_def bindE_Inr_iff)
  have c: "content_inv (tgt se) g1 fc ids bs" using g(3) unfolding g(1) by (simp add: upd_frag_content)
  have run: "same_state g g1" unfolding g(1) by (rule same_run_state) simp
  have rd: "ready (tgt se) g1" "fiy_dcollect g1" using g(2) c run by (auto simp: run_ok_def ready_def same_state_def)
  have n: "frag_now g1 = last ids" "ids \<noteq> []" using content_chain [OF c] by (simp_all add: chain_inv_def)
  obtain new xs where A: "adds (tgt se) g1 ids bs g2 new xs" "\<forall>p \<in> set (last ids # new). insn_frag (fr_flags (frags g2 p))"
    using output_insn_effect [OF rd(1) assms(3) c, of "plt_p se"] assms(4) rd(2) by auto
  have "align_frag (fr_flags (frags g1 (frag_now g1)))" unfolding g(1) by (simp add: upd_frag_def)
  then have "align_frag (fr_flags (frags g2 (frag_now g1)))"
    using A(1) n by (auto simp: adds_def marks_kept_def)
  then show ?thesis using A n written_frags_insn [OF c A(1)] by (auto split: prod.split)
qed

text \<open>C31: A relaxable jump ends in an empty frag that is marked as an instruction.  A label behind it,
  outside functions, opens no new frag, so that data behind the label is taken for code and is neither
  collected nor moved.\<close>

theorem jump_hides_data:
  assumes "ready tg g" and "content_inv tg g fc ids bs" and "fiy_dcollect g" and "insn_ok i" and "jump i = JUMP"
    and "output_insn tg plt i g = Some (Inr g1)"
  shows "insn_frag (fr_flags (frags g1 (frag_now g1)))
    \<and> (\<exists>g2. colon_hook tg g1 = Inr g2 \<and> frag_now g2 = frag_now g1 \<and> insn_frag (fr_flags (frags g2 (frag_now g2))))"
proof -
  obtain new xs where A: "adds tg g ids bs g1 new xs" "\<forall>p \<in> set (last ids # new). insn_frag (fr_flags (frags g1 p))"
    using output_insn_effect [OF assms(1,4,2), of plt] assms(3,6) by auto
  then obtain fc1 where c1: "content_inv tg g1 fc1 (ids @ new) (bs @ xs)" by (auto simp: adds_def)
  then have m: "insn_frag (fr_flags (frags g1 (frag_now g1)))"
    using content_chain [OF c1] A(2) by (cases new rule: rev_cases) (auto simp: chain_inv_def)
  have ne: "ids \<noteq> []" using content_chain [OF assms(2)] by (simp add: chain_inv_def)
  obtain g' where o: "output_branch tg i (insn_begins i g) = Inr g'" "mark_insn_frags (last ids) g' = Some g1"
    using assms(5,6) by (auto simp: output_insn_body [OF assms(2)] output_body_def split: sum.splits)
  obtain fc2 ids2 bs2 where c2: "content_inv tg g1 fc2 ids2 bs2" "obstack_object_size (frch_obstack fc2) = 0"
    using output_branch_appends(2) [OF ready_begins [OF assms(1)] o(1)] mark_insn_frags_content [OF o(2)] by blast
  then have "frag_now_fix tg g1 = Inr 0"
    using frag_now_fix_inv(1) [OF content_chain [OF c2(1)]] by (simp add: frag_now_fix_def)
  then show ?thesis using m by (auto simp: colon_hook_def upd_frag_def)
qed

theorem jump_hides_data_witness:
  "\<exists>g1 g2. output_insn sample_target (\<lambda>_. False) insn_jmp start_gas = Some (Inr g1)
     \<and> colon_hook sample_target g1 = Inr g2 \<and> frag_now g2 = frag_now g1 \<and> insn_frag (fr_flags (frags g2 (frag_now g2)))"
proof -
  obtain g1 where g1: "output_insn sample_target (\<lambda>_. False) insn_jmp start_gas = Some (Inr g1)"
    using insn_jmp_output [OF start_ready start_content] by blast
  from jump_hides_data [OF start_ready start_content start_collects insn_jmp_simps(2,1) g1] show ?thesis using g1 by blast
qed

theorem align_zero_moves_code_witness:
  "\<exists>g1 g2. do_align sample_target (text_p sample_setting) 0 None 0 0 start_gas = Inr g1
     \<and> output_insn sample_target (\<lambda>_. False) insn_nop g1 = Some (Inr g2)
     \<and> align_frag (fr_flags (frags g2 (frag_now g1))) \<and> insn_frag (fr_flags (frags g2 (frag_now g1)))"
proof -
  let ?g1 = "upd_frag (frag_now start_gas) (\<lambda>f. f\<lparr>fr_flags := fr_flags f\<lparr>align_frag := True\<rparr>\<rparr>) start_gas"
  have "frag_now_fix sample_target start_gas = Inr 0"
    using frag_now_fix_inv(1) [OF content_chain [OF start_content]]
    by (simp add: frag_now_fix_def demo_chain_def obstack_object_size_def)
  then have a: "do_align sample_target (text_p sample_setting) 0 None 0 0 start_gas = Inr ?g1"
    by (simp add: do_align_def align_hook_def start_gas_def boot_gas_def)
  have c: "content_inv sample_target ?g1 (demo_chain 0 (2 ^ 60) 0) [2 ^ 60 + 16] []"
    using start_content by (simp add: upd_frag_content)
  have "same_state start_gas ?g1" by (rule same_run_state) simp
  then have "ready sample_target ?g1" using start_ready c by (auto simp: ready_def same_state_def)
  then obtain g2 where g2: "output_insn sample_target (\<lambda>_. False) insn_nop ?g1 = Some (Inr g2)"
    using insn_nop_output [OF _ c] start_collects by (simp add: upd_frag_def) blast
  show ?thesis
    using align_zero_moves_code [OF start_assembled, of None 0 0 ?g1 insn_nop g2] a g2 insn_nop_simps(1)
    by (intro exI [of _ ?g1] exI [of _ g2]) (simp add: sample_setting_def)
qed

end
